(* ===== verification/C_Prelude.thy ===== *)
theory C_Prelude
  imports Main "HOL-Library.Word" "HOL-Library.Monad_Syntax"
begin

text \<open>
  Shared vocabulary of the development: the C integer types of the wasm32 target, the
  collections of simplification rules the component theories feed, and generic facts on
  words, options and lists that several components use.

  On wasm32 the types \<open>int\<close>, \<open>long\<close>, \<open>size_t\<close>, \<open>intptr_t\<close>, \<open>uintptr_t\<close> and every
  pointer are 32 bits wide, \<open>off_t\<close> and \<open>time_t\<close> are 64 bits wide.
\<close>

unbundle bit_operations_syntax

type_synonym u8 = "8 word"
type_synonym u16 = "16 word"
type_synonym u32 = "32 word"
type_synonym u64 = "64 word"

text \<open>The C types are named after their use: a signed value is read with \<^const>\<open>sint\<close>.\<close>

type_synonym c_int = "32 word"
type_synonym size_t = "32 word"
type_synonym c_ptr = "32 word"

abbreviation (input) NULL :: c_ptr where
  "NULL \<equiv> 0"

named_theorems param_defs \<open>the numeric parameters of the benchmark\<close>
named_theorems op_defs \<open>the definitions of the operations of a component\<close>

section \<open>Words\<close>

lemma word_Suc_less:
  fixes i n :: "'a::len word"
  assumes "i < n"
  shows "unat (i + 1) = Suc (unat i)"
proof -
  have "Suc (unat i) < 2 ^ LENGTH('a)"
  proof -
    have "unat n < 2 ^ LENGTH('a)"
      by simp
    then show ?thesis
      using assms by (simp add: word_less_nat_alt del: unsigned_less)
  qed
  then show ?thesis
    by (simp add: unat_word_ariths)
qed

lemma word_less_succ_iff:
  fixes i k n :: "'a::len word"
  assumes "i < n"
  shows "k < i + 1 \<longleftrightarrow> k < i \<or> k = i"
proof -
  have "unat (i + 1) = Suc (unat i)"
    using assms by (rule word_Suc_less)
  then show ?thesis
    by (auto simp: word_less_nat_alt less_Suc_eq word_unat_eq_iff)
qed

lemma word_less_succ_le:
  fixes i n :: "'a::len word"
  assumes "i < n"
  shows "i + 1 \<le> n"
  using assms by (simp add: inc_le)

lemma word_mod_less:
  fixes i n :: "'a::len word"
  assumes "0 < n"
  shows "i mod n < n"
  using assms by (simp add: word_less_nat_alt unat_mod_distrib word_less_nat_alt)

lemma unat_minus_succ:
  fixes x :: "'a::len word"
  assumes "x \<noteq> 0"
  shows "unat (- x - 1) < unat (- x)"
proof -
  have "- x \<noteq> 0"
    using assms by simp
  then show ?thesis
    by (metis measure_unat)
qed

lemma unat_minus_one_32: "unat (-1 :: 32 word) = 4294967295"
  by (simp add: unsigned_minus_1_eq_mask mask_eq_exp_minus_1)

lemma card_word_lessThan:
  fixes n :: "'a::len word"
  shows "card {k. k < n} = unat n"
proof -
  have "unat ` {k. k < n} = {..<unat n}"
  proof (intro equalityI subsetI)
    fix x assume "x \<in> {..<unat n}"
    then have "x < unat n"
      by simp
    moreover have "unat n < 2 ^ LENGTH('a)"
      by simp
    ultimately have "x < 2 ^ LENGTH('a)"
      by (rule less_trans)
    then have "unat (of_nat x :: 'a word) = x"
      by (simp add: unat_of_nat)
    with \<open>x < unat n\<close> have "(of_nat x :: 'a word) \<in> {k. k < n}"
      by (simp add: word_less_nat_alt)
    with \<open>unat (of_nat x :: 'a word) = x\<close> show "x \<in> unat ` {k. k < n}"
      by force
  qed (auto simp: word_less_nat_alt)
  moreover have "inj_on unat {k. k < n}"
    by (auto intro: inj_onI simp: word_unat_eq_iff)
  ultimately show ?thesis
    by (metis card_image card_lessThan)
qed

lemma bit_exp_word: "n < LENGTH('w) \<Longrightarrow> bit (2 ^ n :: 'w::len word) k \<longleftrightarrow> k = n"
  by (auto simp: bit_simps)

end
