(* ===== verification/Workload.thy ===== *)
theory Workload
  imports C_Prelude
begin

text \<open>
  The asynchronous workload of \<open>benchmarks/c10m/c10m.c\<close> with its constants
  (\<open>parameters.h\<close>).  The file imports the four worker primitives from module \<open>env\<close>; the
  model takes them as a record of operations over an abstract state \<open>'s\<close>, where
  \<^const>\<open>None\<close> is a trap or undefined behaviour.  The contract a provider of the primitives
  has to meet is the locale \<open>worker_provider\<close>: a forward simulation of the abstract life
  cycle of a worker slot.  The workload's result is proved once, inside that locale.
\<close>

section \<open>Parameters\<close>

definition modifier :: u32 where
  [param_defs]: "modifier = 10"

definition total_conn :: u32 where
  [param_defs]: "total_conn = modifier * 1000000"

definition active_conn :: u32 where
  [param_defs]: "active_conn = 10000"

definition stack_kb :: u32 where
  [param_defs]: "stack_kb = 32"

definition reference :: u32 where
  [param_defs]: "reference = 10010000"

definition verify :: "u32 \<Rightarrow> u32 \<Rightarrow> c_int" where
  "verify my_count ref_count = (if my_count = ref_count then 0 else 1)"

section \<open>Touching the stack\<close>

text \<open>
  \<open>get_stack_top\<close> returns the address of a local of its own frame: the model is given that
  address \<open>sp\<close>.  The linear memory has \<open>mem_bytes\<close> bytes (a number, as it may be the whole
  address space), and a load outside it traps.  \<open>stack_use\<close> loads one byte per page, going
  down from \<open>sp\<close> with wrap-around.
\<close>

definition as_stack_address :: "c_ptr \<Rightarrow> c_ptr" where
  "as_stack_address p = p"

definition get_stack_top :: "c_ptr \<Rightarrow> c_ptr" where
  "get_stack_top top_addr = as_stack_address top_addr"

definition load_u8 :: "nat \<Rightarrow> c_ptr \<Rightarrow> unit option" where
  "load_u8 mem_bytes a = (if unat a < mem_bytes then Some () else None)"

function stack_use_loop :: "nat \<Rightarrow> c_ptr \<Rightarrow> size_t \<Rightarrow> size_t \<Rightarrow> unit option" where
  "stack_use_loop mem_bytes sp total_pages i =
     (if i < total_pages
      then do { load_u8 mem_bytes (sp - i * 4096);
                stack_use_loop mem_bytes sp total_pages (i + 1) }
      else Some ())"
  by pat_completeness auto
termination
  by (relation "measure (\<lambda>(_, _, n, i). unat n - unat i)")
     (auto simp: word_Suc_less word_less_nat_alt)

declare stack_use_loop.simps [simp del]

definition stack_use :: "nat \<Rightarrow> c_ptr \<Rightarrow> c_int \<Rightarrow> unit option" where
  "stack_use mem_bytes top_addr totalkb =
     (let sp = get_stack_top top_addr;
          page_size = (4096 :: size_t);
          total_pages = (totalkb * 1024 + page_size - 1) div page_size
      in stack_use_loop mem_bytes sp total_pages 0)"

text \<open>The loop completes exactly when each page it probes lies inside the memory.\<close>

lemma stack_use_loop_iff:
  "stack_use_loop mem_bytes sp n i = Some () \<longleftrightarrow>
     (\<forall>j. i \<le> j \<and> j < n \<longrightarrow> unat (sp - j * 4096) < mem_bytes)"
proof (induction mem_bytes sp n i rule: stack_use_loop.induct)
  case (1 mem_bytes sp n i)
  show ?case
  proof (cases "i < n")
    case True
    have *: "i \<le> j \<and> j < n \<longleftrightarrow> j = i \<or> i + 1 \<le> j \<and> j < n" for j
      using True word_less_succ_iff [OF True, of j] by (auto simp: not_less [symmetric])
    show ?thesis
      using "1.IH" True
      by (auto simp: stack_use_loop.simps [of mem_bytes sp n i] load_u8_def * split: if_splits)
  next
    case False
    then show ?thesis
      by (auto simp: stack_use_loop.simps [of mem_bytes sp n i])
  qed
qed

text \<open>
  For the benchmark's 32 kB the probes cover eight pages; the stack pointer needs seven
  pages below it.
\<close>

definition stack_fits :: "nat \<Rightarrow> c_ptr \<Rightarrow> bool" where
  "stack_fits mem_bytes sp \<longleftrightarrow> unat sp < mem_bytes \<and> 7 * 4096 \<le> unat sp"

lemma stack_use_benchmark:
  assumes "stack_fits mem_bytes sp"
  shows "stack_use mem_bytes sp stack_kb = Some ()"
proof -
  have "unat (sp - j * 4096) < mem_bytes" if "j < 8" for j :: u32
  proof -
    have "unat j \<le> 7"
      using that by (simp add: word_less_nat_alt)
    then have "unat (j * 4096) = unat j * 4096"
      by (simp add: unat_word_ariths)
    with \<open>unat j \<le> 7\<close> assms have "j * 4096 \<le> sp"
      by (simp add: word_le_nat_alt stack_fits_def)
    then have "unat (sp - j * 4096) = unat sp - unat (j * 4096)"
      by (simp add: unat_sub)
    with assms show ?thesis
      by (auto simp: stack_fits_def)
  qed
  then show ?thesis
    by (simp add: stack_use_def get_stack_top_def as_stack_address_def param_defs
        stack_use_loop_iff)
qed

section \<open>The worker primitives and the workload\<close>

record 's worker_ops =
  alloc_async_worker :: "u32 \<Rightarrow> 's \<Rightarrow> 's option"
  resume_async_worker :: "u32 \<Rightarrow> u32 \<Rightarrow> 's \<Rightarrow> (u32 \<times> 's) option"
  free_async_worker :: "u32 \<Rightarrow> 's \<Rightarrow> 's option"

function wl_alloc_loop :: "'s worker_ops \<Rightarrow> size_t \<Rightarrow> size_t \<Rightarrow> 's \<Rightarrow> 's option" where
  "wl_alloc_loop ops n i s =
     (if i < n
      then do { s \<leftarrow> alloc_async_worker ops i s;
                wl_alloc_loop ops n (i + 1) s }
      else Some s)"
  by pat_completeness auto
termination
  by (relation "measure (\<lambda>(_, n, i, _). unat n - unat i)")
     (auto simp: word_Suc_less word_less_nat_alt)

function wl_main_loop ::
  "'s worker_ops \<Rightarrow> size_t \<Rightarrow> size_t \<Rightarrow> u32 \<Rightarrow> 's \<Rightarrow> (u32 \<times> 's) option" where
  "wl_main_loop ops n i count s =
     (if i < n
      then do { let j = i mod active_conn;
                (_, s) \<leftarrow> resume_async_worker ops j stack_kb s;
                (r, s) \<leftarrow> resume_async_worker ops j stack_kb s;
                s \<leftarrow> free_async_worker ops j s;
                s \<leftarrow> alloc_async_worker ops j s;
                wl_main_loop ops n (i + 1) (count + r) s }
      else Some (count, s))"
  by pat_completeness auto
termination
  by (relation "measure (\<lambda>(_, n, i, _, _). unat n - unat i)")
     (auto simp: word_Suc_less word_less_nat_alt)

function wl_drain_loop ::
  "'s worker_ops \<Rightarrow> size_t \<Rightarrow> size_t \<Rightarrow> u32 \<Rightarrow> 's \<Rightarrow> (u32 \<times> 's) option" where
  "wl_drain_loop ops n j count s =
     (if j < n
      then do { (_, s) \<leftarrow> resume_async_worker ops j stack_kb s;
                (r, s) \<leftarrow> resume_async_worker ops j stack_kb s;
                s \<leftarrow> free_async_worker ops j s;
                wl_drain_loop ops n (j + 1) (count + r) s }
      else Some (count, s))"
  by pat_completeness auto
termination
  by (relation "measure (\<lambda>(_, n, i, _, _). unat n - unat i)")
     (auto simp: word_Suc_less word_less_nat_alt)

declare wl_alloc_loop.simps [simp del]
declare wl_main_loop.simps [simp del]
declare wl_drain_loop.simps [simp del]

definition async_wl :: "'s worker_ops \<Rightarrow> 's \<Rightarrow> (u32 \<times> 's) option" where
  "async_wl ops s = do {
     s \<leftarrow> wl_alloc_loop ops active_conn 0 s;
     (count, s) \<leftarrow> wl_main_loop ops total_conn 0 0 s;
     (count, s) \<leftarrow> wl_drain_loop ops active_conn 0 count s;
     Some (count, s) }"

definition main :: "'s worker_ops \<Rightarrow> 's \<Rightarrow> (c_int \<times> 's) option" where
  "main ops s = do {
     (count, s) \<leftarrow> async_wl ops s;
     Some (verify count reference, s) }"

section \<open>The abstract life cycle of a worker slot\<close>

datatype worker_state = Vacant | Fresh | Suspended | Finished

type_synonym worker_map = "u32 \<Rightarrow> worker_state"

locale worker_provider =
  fixes ops :: "'s worker_ops"
    and R :: "'s \<Rightarrow> worker_map \<Rightarrow> bool"
  assumes alloc_sim: "R s m \<Longrightarrow> k < active_conn \<Longrightarrow> m k = Vacant \<Longrightarrow>
      \<exists>s'. alloc_async_worker ops k s = Some s' \<and> R s' (m(k := Fresh))"
    and resume_fresh_sim: "R s m \<Longrightarrow> k < active_conn \<Longrightarrow> m k = Fresh \<Longrightarrow>
      \<exists>s'. resume_async_worker ops k a s = Some (a, s') \<and> R s' (m(k := Suspended))"
    and resume_suspended_sim: "R s m \<Longrightarrow> k < active_conn \<Longrightarrow> m k = Suspended \<Longrightarrow>
      \<exists>s'. resume_async_worker ops k stack_kb s = Some (1, s') \<and> R s' (m(k := Finished))"
    and free_sim: "R s m \<Longrightarrow> k < active_conn \<Longrightarrow> m k = Finished \<Longrightarrow>
      \<exists>s'. free_async_worker ops k s = Some s' \<and> R s' (m(k := Vacant))"
begin

definition allocated_below :: "u32 \<Rightarrow> worker_map" where
  "allocated_below i = (\<lambda>k. if k < i then Fresh else Vacant)"

definition allocated_from :: "u32 \<Rightarrow> worker_map" where
  "allocated_from i = (\<lambda>k. if i \<le> k \<and> k < active_conn then Fresh else Vacant)"

lemma allocated_below_step:
  assumes "i < n"
  shows "(allocated_below i)(i := Fresh) = allocated_below (i + 1)"
  using assms by (auto simp: allocated_below_def word_less_succ_iff fun_eq_iff)

lemma allocated_from_step:
  assumes "i < active_conn"
  shows "(allocated_from i)(i := Vacant) = allocated_from (i + 1)"
  using word_less_succ_iff [OF assms]
  by (auto simp: allocated_from_def fun_eq_iff not_less [symmetric])

lemma one_round:
  assumes "R s m" and "k < active_conn" and "m k = Fresh"
  obtains s1 s2 s3 where
    "resume_async_worker ops k stack_kb s = Some (stack_kb, s1)"
    "resume_async_worker ops k stack_kb s1 = Some (1, s2)"
    "free_async_worker ops k s2 = Some s3"
    "R s3 (m(k := Vacant))"
proof -
  obtain s1 where s1: "resume_async_worker ops k stack_kb s = Some (stack_kb, s1)"
    and R1: "R s1 (m(k := Suspended))"
    using resume_fresh_sim [OF assms, of stack_kb] by blast
  obtain s2 where s2: "resume_async_worker ops k stack_kb s1 = Some (1, s2)"
    and R2: "R s2 (m(k := Finished))"
    using resume_suspended_sim [OF R1 assms(2)] by auto
  obtain s3 where s3: "free_async_worker ops k s2 = Some s3" and R3: "R s3 (m(k := Vacant))"
    using free_sim [OF R2 assms(2)] by auto
  show thesis
    by (rule that [OF s1 s2 s3 R3])
qed

lemma alloc_loop_correct:
  assumes "R s (allocated_below i)" and "i \<le> n" and "n \<le> active_conn"
  shows "\<exists>s'. wl_alloc_loop ops n i s = Some s' \<and> R s' (allocated_below n)"
  using assms
proof (induction "unat n - unat i" arbitrary: i s)
  case 0
  then have "i = n"
    by (simp add: word_le_nat_alt word_unat_eq_iff)
  with 0 show ?case
    by (simp add: wl_alloc_loop.simps)
next
  case (Suc d)
  then have "i < n"
    by (simp add: word_less_nat_alt)
  with Suc.prems(3) have k: "i < active_conn"
    by simp
  obtain s1 where s1: "alloc_async_worker ops i s = Some s1"
    and "R s1 ((allocated_below i)(i := Fresh))"
    using alloc_sim [OF Suc.prems(1) k] by (auto simp: allocated_below_def)
  then have "R s1 (allocated_below (i + 1))"
    using allocated_below_step [OF \<open>i < n\<close>] by simp
  moreover have "d = unat n - unat (i + 1)"
    using Suc.hyps(2) word_Suc_less [OF \<open>i < n\<close>] by simp
  ultimately have "\<exists>s'. wl_alloc_loop ops n (i + 1) s1 = Some s' \<and> R s' (allocated_below n)"
    using Suc.hyps(1) word_less_succ_le [OF \<open>i < n\<close>] Suc.prems(3) by blast
  with \<open>i < n\<close> s1 show ?case
    by (simp add: wl_alloc_loop.simps [of ops n i])
qed

lemma main_loop_correct:
  assumes "R s (allocated_below active_conn)" and "i \<le> n"
  shows "\<exists>s'. wl_main_loop ops n i count s = Some (count + (n - i), s') \<and>
              R s' (allocated_below active_conn)"
  using assms
proof (induction "unat n - unat i" arbitrary: i count s)
  case 0
  then have "i = n"
    by (simp add: word_le_nat_alt word_unat_eq_iff)
  with 0 show ?case
    by (simp add: wl_main_loop.simps)
next
  case (Suc d)
  let ?j = "i mod active_conn"
  from Suc have "i < n"
    by (simp add: word_less_nat_alt)
  have j: "?j < active_conn"
    by (rule word_mod_less) (simp add: param_defs)
  obtain s1 s2 s3 where r: "resume_async_worker ops ?j stack_kb s = Some (stack_kb, s1)"
    "resume_async_worker ops ?j stack_kb s1 = Some (1, s2)"
    "free_async_worker ops ?j s2 = Some s3"
    and R3: "R s3 ((allocated_below active_conn)(?j := Vacant))"
    using one_round [OF Suc.prems(1) j] j by (auto simp: allocated_below_def)
  obtain s4 where s4: "alloc_async_worker ops ?j s3 = Some s4"
    and "R s4 ((allocated_below active_conn)(?j := Fresh))"
    using alloc_sim [OF R3 j] by auto
  then have "R s4 (allocated_below active_conn)"
    using j by (simp add: allocated_below_def fun_upd_idem)
  moreover have "d = unat n - unat (i + 1)"
    using Suc.hyps(2) word_Suc_less [OF \<open>i < n\<close>] by simp
  ultimately have "\<exists>s'. wl_main_loop ops n (i + 1) (count + 1) s4 =
      Some (count + 1 + (n - (i + 1)), s') \<and> R s' (allocated_below active_conn)"
    using Suc.hyps(1) word_less_succ_le [OF \<open>i < n\<close>] by blast
  with \<open>i < n\<close> r s4 show ?case
    by (simp add: wl_main_loop.simps [of ops n i] algebra_simps)
qed

lemma drain_loop_correct:
  assumes "R s (allocated_from j)" and "j \<le> active_conn"
  shows "\<exists>s'. wl_drain_loop ops active_conn j count s =
      Some (count + (active_conn - j), s') \<and> R s' (\<lambda>_. Vacant)"
  using assms
proof (induction "unat active_conn - unat j" arbitrary: j count s)
  case 0
  then have "j = active_conn"
    by (simp add: word_le_nat_alt word_unat_eq_iff)
  with 0 show ?case
    by (auto simp: wl_drain_loop.simps allocated_from_def not_less [symmetric] cong: if_cong)
next
  case (Suc d)
  then have j: "j < active_conn"
    by (simp add: word_less_nat_alt)
  obtain s1 s2 s3 where r: "resume_async_worker ops j stack_kb s = Some (stack_kb, s1)"
    "resume_async_worker ops j stack_kb s1 = Some (1, s2)"
    "free_async_worker ops j s2 = Some s3"
    and "R s3 ((allocated_from j)(j := Vacant))"
    using one_round [OF Suc.prems(1) j] j by (auto simp: allocated_from_def)
  then have "R s3 (allocated_from (j + 1))"
    using allocated_from_step [OF j] by simp
  moreover have "d = unat active_conn - unat (j + 1)"
    using Suc.hyps(2) word_Suc_less [OF j] by simp
  ultimately have "\<exists>s'. wl_drain_loop ops active_conn (j + 1) (count + 1) s3 =
      Some (count + 1 + (active_conn - (j + 1)), s') \<and> R s' (\<lambda>_. Vacant)"
    using Suc.hyps(1) word_less_succ_le [OF j] by blast
  with j r show ?case
    by (simp add: wl_drain_loop.simps [of ops active_conn j] algebra_simps)
qed

lemma async_wl_correct:
  assumes "R s (\<lambda>_. Vacant)"
  shows "\<exists>s'. async_wl ops s = Some (total_conn + active_conn, s') \<and> R s' (\<lambda>_. Vacant)"
proof -
  from assms have "R s (allocated_below 0)"
    by (simp add: allocated_below_def)
  then obtain s1 where s1: "wl_alloc_loop ops active_conn 0 s = Some s1"
    and R1: "R s1 (allocated_below active_conn)"
    using alloc_loop_correct [of s 0 active_conn] by auto
  obtain s2 where s2: "wl_main_loop ops total_conn 0 0 s1 = Some (total_conn, s2)"
    and "R s2 (allocated_below active_conn)"
    using main_loop_correct [OF R1, of 0 total_conn 0] by auto
  then have "R s2 (allocated_from 0)"
    by (simp add: allocated_below_def allocated_from_def)
  then obtain s3 where "wl_drain_loop ops active_conn 0 total_conn s2 =
      Some (total_conn + active_conn, s3)" and "R s3 (\<lambda>_. Vacant)"
    using drain_loop_correct [of s2 0 total_conn] by auto
  with s1 s2 show ?thesis
    by (simp add: async_wl_def)
qed

lemma main_correct:
  assumes "R s (\<lambda>_. Vacant)"
  shows "\<exists>s'. main ops s = Some (0, s') \<and> R s' (\<lambda>_. Vacant)"
  using async_wl_correct [OF assms] by (auto simp: main_def verify_def param_defs)

end

end
