(* ===== verification/Bespoke_Worker.thy ===== *)
theory Bespoke_Worker
  imports Workload
begin

text \<open>
  The hand-written state machine of \<open>benchmarks/c10m/c10m_bespoke.c\<close>.  The static array
  \<open>workers\<close> is a list of length \<^const>\<open>active_conn\<close> and \<open>active_worker\<close> a pointer into it,
  modelled as an index (\<^const>\<open>None\<close> is the initial null pointer).  The memory geometry of
  \<open>stack_use\<close> is a parameter, as in the workload.  A read or write outside the array, or
  through the null pointer, is undefined behaviour: \<^const>\<open>None\<close>.
\<close>

datatype sm_tag = NORMAL | YIELDING

record sm =
  sm_state :: sm_tag
  sm_arg :: u32
  sm_value :: u32

record bespoke =
  workers :: "sm list"
  active_worker :: "nat option"

definition bespoke_init :: bespoke where
  "bespoke_init =
     \<lparr>workers = replicate (unat active_conn) \<lparr>sm_state = NORMAL, sm_arg = 0, sm_value = 0\<rparr>,
      active_worker = None\<rparr>"

definition get_active :: "bespoke \<Rightarrow> sm option" where
  "get_active s = (case active_worker s of
       None \<Rightarrow> None
     | Some i \<Rightarrow> if i < length (workers s) then Some (workers s ! i) else None)"

definition set_active :: "sm \<Rightarrow> bespoke \<Rightarrow> bespoke" where
  "set_active w s = (case active_worker s of
       None \<Rightarrow> s
     | Some i \<Rightarrow> s\<lparr>workers := (workers s)[i := w]\<rparr>)"

definition async_worker_yield_sm :: "u32 \<Rightarrow> bespoke \<Rightarrow> (u32 \<times> bespoke) option" where
  [op_defs]: "async_worker_yield_sm arg s = do {
     w \<leftarrow> get_active s;
     (case sm_state w of
        NORMAL \<Rightarrow> Some (0, set_active (w\<lparr>sm_value := arg, sm_state := YIELDING\<rparr>) s)
      | YIELDING \<Rightarrow> Some (sm_value w, set_active (w\<lparr>sm_state := NORMAL\<rparr>) s)) }"

definition alloc_async_worker_sm :: "u32 \<Rightarrow> bespoke \<Rightarrow> bespoke option" where
  [op_defs]: "alloc_async_worker_sm key s =
     (if unat key < length (workers s)
      then Some (s\<lparr>workers := (workers s)[unat key :=
                     \<lparr>sm_state = NORMAL, sm_arg = 0, sm_value = 0\<rparr>]\<rparr>)
      else None)"

text \<open>
  The \<open>switch\<close> of \<open>async_worker\<close>: case 0 falls through to case 1 when the first yield
  did not leave the machine yielding, and case 1 falls through to \<open>default\<close>.
\<close>

definition async_worker_case1 ::
  "nat \<Rightarrow> c_ptr \<Rightarrow> u32 \<Rightarrow> bespoke \<Rightarrow> (u32 \<times> bespoke) option" where
  [op_defs]: "async_worker_case1 mem_bytes sp arg s = do {
     (kb, s) \<leftarrow> async_worker_yield_sm arg s;
     w \<leftarrow> get_active s;
     if sm_state w = NORMAL
     then do { stack_use mem_bytes sp kb; Some (1, s) }
     else Some (NULL, s) }"

definition async_worker_sm ::
  "nat \<Rightarrow> c_ptr \<Rightarrow> u32 \<Rightarrow> bespoke \<Rightarrow> (u32 \<times> bespoke) option" where
  [op_defs]: "async_worker_sm mem_bytes sp arg s = do {
     w \<leftarrow> get_active s;
     (case sm_state w of
        NORMAL \<Rightarrow> do {
          (kb, s) \<leftarrow> async_worker_yield_sm arg s;
          w \<leftarrow> get_active s;
          if sm_state w = YIELDING then Some (NULL, s)
          else async_worker_case1 mem_bytes sp arg s }
      | YIELDING \<Rightarrow> async_worker_case1 mem_bytes sp arg s) }"

definition resume_async_worker_sm ::
  "nat \<Rightarrow> c_ptr \<Rightarrow> u32 \<Rightarrow> u32 \<Rightarrow> bespoke \<Rightarrow> (u32 \<times> bespoke) option" where
  [op_defs]: "resume_async_worker_sm mem_bytes sp key value s = do {
     let s = s\<lparr>active_worker := Some (unat key)\<rparr>;
     w \<leftarrow> get_active s;
     let s = set_active (if sm_state w = YIELDING then w\<lparr>sm_value := value\<rparr>
                         else w\<lparr>sm_arg := value\<rparr>) s;
     w \<leftarrow> get_active s;
     (result, s) \<leftarrow> async_worker_sm mem_bytes sp (sm_arg w) s;
     w \<leftarrow> get_active s;
     Some (if sm_state w = NORMAL then result else sm_value w, s) }"

definition free_async_worker_sm :: "u32 \<Rightarrow> bespoke \<Rightarrow> bespoke option" where
  [op_defs]: "free_async_worker_sm unused s = Some s"

definition bespoke_ops :: "nat \<Rightarrow> c_ptr \<Rightarrow> bespoke worker_ops" where
  "bespoke_ops mem_bytes sp =
     \<lparr>alloc_async_worker = alloc_async_worker_sm,
      resume_async_worker = resume_async_worker_sm mem_bytes sp,
      free_async_worker = free_async_worker_sm\<rparr>"

section \<open>The simulation of the worker life cycle\<close>

definition sm_matches :: "sm \<Rightarrow> worker_state \<Rightarrow> bool" where
  "sm_matches w st = (case st of
      Vacant \<Rightarrow> True
    | Fresh \<Rightarrow> sm_state w = NORMAL
    | Suspended \<Rightarrow> sm_state w = YIELDING
    | Finished \<Rightarrow> sm_state w = NORMAL)"

definition bespoke_rel :: "bespoke \<Rightarrow> worker_map \<Rightarrow> bool" where
  "bespoke_rel s m \<longleftrightarrow> length (workers s) = unat active_conn \<and>
     (\<forall>k < active_conn. sm_matches (workers s ! unat k) (m k))"

lemma bespoke_rel_update:
  assumes "bespoke_rel s m" and "k < active_conn" and "sm_matches w st"
    and "workers s' = (workers s)[unat k := w]"
  shows "bespoke_rel s' (m(k := st))"
  using assms by (auto simp: bespoke_rel_def nth_list_update word_unat_eq_iff word_less_nat_alt)

lemma bespoke_relD:
  assumes "bespoke_rel s m" and "k < active_conn"
  shows "unat k < length (workers s)" and "sm_matches (workers s ! unat k) (m k)"
  using assms by (auto simp: bespoke_rel_def word_less_nat_alt)

lemma resume_fresh_sm:
  assumes "unat k < length (workers s)" and "sm_state (workers s ! unat k) = NORMAL"
  shows "resume_async_worker_sm mem_bytes sp k a s =
    Some (a, s\<lparr>active_worker := Some (unat k),
               workers := (workers s)[unat k := (workers s ! unat k)
                 \<lparr>sm_arg := a, sm_value := a, sm_state := YIELDING\<rparr>]\<rparr>)"
  using assms by (simp add: op_defs get_active_def set_active_def)

lemma resume_suspended_sm:
  assumes "unat k < length (workers s)" and "sm_state (workers s ! unat k) = YIELDING"
    and "stack_use mem_bytes sp a = Some ()"
  shows "resume_async_worker_sm mem_bytes sp k a s =
    Some (1, s\<lparr>active_worker := Some (unat k),
               workers := (workers s)[unat k := (workers s ! unat k)
                 \<lparr>sm_value := a, sm_state := NORMAL\<rparr>]\<rparr>)"
  using assms by (simp add: op_defs get_active_def set_active_def)

interpretation bespoke: worker_provider "bespoke_ops mem_bytes sp"
    "\<lambda>s m. stack_fits mem_bytes sp \<and> bespoke_rel s m"
  for mem_bytes sp
proof unfold_locales
  fix s :: bespoke and m :: worker_map and k a :: u32
  assume R: "stack_fits mem_bytes sp \<and> bespoke_rel s m" and k: "k < active_conn"
  then have rel: "bespoke_rel s m" and fits: "stack_fits mem_bytes sp"
    by auto
  note upd = bespoke_rel_update [OF rel k]
  show "\<exists>s'. alloc_async_worker (bespoke_ops mem_bytes sp) k s = Some s' \<and>
      stack_fits mem_bytes sp \<and> bespoke_rel s' (m(k := Fresh))" if "m k = Vacant"
    using bespoke_relD(1) [OF rel k] fits
    by (auto simp: bespoke_ops_def alloc_async_worker_sm_def sm_matches_def intro!: upd)
  show "\<exists>s'. resume_async_worker (bespoke_ops mem_bytes sp) k a s = Some (a, s') \<and>
      stack_fits mem_bytes sp \<and> bespoke_rel s' (m(k := Suspended))" if "m k = Fresh"
    using bespoke_relD [OF rel k] fits that
    by (auto simp: bespoke_ops_def resume_fresh_sm sm_matches_def intro!: upd)
  show "\<exists>s'. resume_async_worker (bespoke_ops mem_bytes sp) k stack_kb s = Some (1, s') \<and>
      stack_fits mem_bytes sp \<and> bespoke_rel s' (m(k := Finished))" if "m k = Suspended"
    using bespoke_relD [OF rel k] fits that
    by (auto simp: bespoke_ops_def resume_suspended_sm stack_use_benchmark sm_matches_def
        intro!: upd)
  show "\<exists>s'. free_async_worker (bespoke_ops mem_bytes sp) k s = Some s' \<and>
      stack_fits mem_bytes sp \<and> bespoke_rel s' (m(k := Vacant))" if "m k = Finished"
    using rel fits
    by (auto simp: bespoke_ops_def free_async_worker_sm_def bespoke_rel_def sm_matches_def)
qed

lemma bespoke_rel_init: "bespoke_rel bespoke_init (\<lambda>_. Vacant)"
  by (simp add: bespoke_rel_def bespoke_init_def sm_matches_def)

text \<open>
  C1. The bespoke build of the c10m benchmark runs to completion without a trap, counts
  exactly \<open>total_conn + active_conn\<close> finished workers (no wrap-around), and its exit
  code is 0: the count equals the reference value of \<open>parameters.h\<close>.
\<close>

theorem bespoke_main_verifies:
  assumes "stack_fits mem_bytes sp"
  shows "\<exists>s'. async_wl (bespoke_ops mem_bytes sp) bespoke_init = Some (reference, s') \<and>
              unat reference = unat total_conn + unat active_conn \<and>
              main (bespoke_ops mem_bytes sp) bespoke_init = Some (0, s')"
proof -
  have R: "stack_fits mem_bytes sp \<and> bespoke_rel bespoke_init (\<lambda>_. Vacant)"
    using assms bespoke_rel_init by simp
  have ref: "total_conn + active_conn = reference"
    by (simp add: param_defs)
  obtain s' where "async_wl (bespoke_ops mem_bytes sp) bespoke_init = Some (reference, s')"
    using bespoke.async_wl_correct [OF R] unfolding ref by blast
  then show ?thesis
    by (simp add: main_def verify_def) (simp add: param_defs)
qed

theorem bespoke_main_verifies_witness:
  "\<exists>s'. async_wl (bespoke_ops 131072 66560) bespoke_init = Some (reference, s') \<and>
        unat reference = unat total_conn + unat active_conn \<and>
        main (bespoke_ops 131072 66560) bespoke_init = Some (0, s')"
  by (rule bespoke_main_verifies) (simp add: stack_fits_def)

end
