(* ===== verification/Fiber_Asyncify.thy ===== *)
theory Fiber_Asyncify
  imports Workload
begin

text \<open>
  The fiber library of \<open>benchmarks/c10m/fiber_asyncify.c\<close> (interface \<open>fiber.h\<close>).

  The library runs on two things it does not define.  The allocator (\<open>malloc\<close>, \<open>free\<close>) is
  a parameter: \<open>rt_malloc\<close> and \<open>rt_free\<close> over an allocator state \<open>'a\<close>.  The asyncify
  instrumentation (\<open>tinygo/lib/binaryen/src/passes/Asyncify.cpp\<close>) adds the global mode and
  data pointer and the four control functions, each of which checks that the stack position
  of the current data structure is not past its end and traps otherwise.  An instrumented
  function pushes a frame while unwinding and pops it again while rewinding; how many bytes
  a frame takes depends on the compiled code and is the parameter \<open>rt_frame_bytes\<close>.

  A fiber body is the resumption of an instrumented entry point: it returns, traps, or calls
  \<open>fiber_yield\<close> and continues with the value of that call.  \<^const>\<open>None\<close> is a trap or
  undefined behaviour (a null or dangling pointer).
\<close>

section \<open>Data\<close>

datatype body = Return u32 | Trap | Yield u32 "u32 \<Rightarrow> body"

datatype fiber_state_t = ACTIVE | YIELDING | DONE

datatype fiber_result_t = FIBER_OK | FIBER_YIELD | FIBER_ERROR

record fiber_stack =
  top :: c_ptr
  stack_end :: c_ptr
  buffer :: c_ptr

text \<open>The field \<open>frames\<close> is the contents of the stack buffer between \<open>buffer\<close> and \<open>top\<close>.\<close>

record fiber =
  stack :: fiber_stack
  fiber_state :: fiber_state_t
  entry :: "u32 \<Rightarrow> body"
  fiber_arg :: u32
  frames :: "body list"

datatype asyncify_mode = Normal | Unwinding | Rewinding

record 'a runtime =
  rt_malloc :: "size_t \<Rightarrow> 'a \<Rightarrow> c_ptr \<times> 'a"
  rt_free :: "c_ptr \<Rightarrow> 'a \<Rightarrow> 'a"
  rt_frame_bytes :: "body \<Rightarrow> size_t"

record 'a machine =
  heap :: "c_ptr \<Rightarrow> fiber option"
  allocator :: 'a
  active_fiber :: c_ptr
  asyncify_state :: asyncify_mode
  asyncify_data :: c_ptr

definition FIBER_DEFAULT_STACK_SIZE :: size_t where
  "FIBER_DEFAULT_STACK_SIZE = 4096"

text \<open>\<open>sizeof(struct fiber)\<close>: a packed 12-byte stack header and three words.\<close>

definition sizeof_fiber :: size_t where
  "sizeof_fiber = 24"

definition put_fiber :: "c_ptr \<Rightarrow> fiber \<Rightarrow> 'a machine \<Rightarrow> 'a machine" where
  "put_fiber p f s = s\<lparr>heap := (heap s)(p := Some f)\<rparr>"

lemma put_fiber_simps [simp]:
  "heap (put_fiber p f s) = (heap s)(p := Some f)"
  "allocator (put_fiber p f s) = allocator s"
  "active_fiber (put_fiber p f s) = active_fiber s"
  "asyncify_state (put_fiber p f s) = asyncify_state s"
  "asyncify_data (put_fiber p f s) = asyncify_data s"
  by (simp_all add: put_fiber_def)

section \<open>The asyncify control functions\<close>

text \<open>
  The data pointer is 0 until the first unwind; the check then reads the first two words of
  the linear memory, which hold zeros.
\<close>

definition asyncify_check :: "'a machine \<Rightarrow> 'a machine option" where
  "asyncify_check s =
     (if asyncify_data s = NULL then Some s
      else do { f \<leftarrow> heap s (asyncify_data s);
                if stack_end (stack f) < top (stack f) then None else Some s })"

definition asyncify_start_unwind :: "c_ptr \<Rightarrow> 'a machine \<Rightarrow> 'a machine option" where
  "asyncify_start_unwind data s =
     asyncify_check (s\<lparr>asyncify_state := Unwinding, asyncify_data := data\<rparr>)"

definition asyncify_stop_unwind :: "'a machine \<Rightarrow> 'a machine option" where
  "asyncify_stop_unwind s = asyncify_check (s\<lparr>asyncify_state := Normal\<rparr>)"

definition asyncify_start_rewind :: "c_ptr \<Rightarrow> 'a machine \<Rightarrow> 'a machine option" where
  "asyncify_start_rewind data s =
     asyncify_check (s\<lparr>asyncify_state := Rewinding, asyncify_data := data\<rparr>)"

definition asyncify_stop_rewind :: "'a machine \<Rightarrow> 'a machine option" where
  "asyncify_stop_rewind s = asyncify_check (s\<lparr>asyncify_state := Normal\<rparr>)"

lemmas asyncify_defs =
  asyncify_check_def asyncify_start_unwind_def asyncify_stop_unwind_def
  asyncify_start_rewind_def asyncify_stop_rewind_def

definition push_frame :: "'a runtime \<Rightarrow> body \<Rightarrow> 'a machine \<Rightarrow> 'a machine option" where
  "push_frame rt b s = do {
     f \<leftarrow> heap s (asyncify_data s);
     if buffer (stack f) = NULL then None
     else Some (put_fiber (asyncify_data s)
            (f\<lparr>stack := (stack f)\<lparr>top := top (stack f) + rt_frame_bytes rt b\<rparr>,
               frames := b # frames f\<rparr>) s) }"

definition pop_frame :: "'a runtime \<Rightarrow> 'a machine \<Rightarrow> (body \<times> 'a machine) option" where
  "pop_frame rt s = do {
     f \<leftarrow> heap s (asyncify_data s);
     (case frames f of
        [] \<Rightarrow> None
      | b # bs \<Rightarrow> Some (b, put_fiber (asyncify_data s)
            (f\<lparr>stack := (stack f)\<lparr>top := top (stack f) - rt_frame_bytes rt b\<rparr>,
               frames := bs\<rparr>) s)) }"

section \<open>The fiber operations\<close>

definition fiber_stack_alloc ::
  "'a runtime \<Rightarrow> size_t \<Rightarrow> 'a machine \<Rightarrow> fiber_stack \<times> 'a machine" where
  "fiber_stack_alloc rt stack_size s =
     (let (buf, a) = rt_malloc rt stack_size (allocator s)
      in (\<lparr>top = buf, stack_end = buf + stack_size, buffer = buf\<rparr>, s\<lparr>allocator := a\<rparr>))"

definition fiber_stack_free :: "'a runtime \<Rightarrow> fiber_stack \<Rightarrow> 'a machine \<Rightarrow> 'a machine" where
  "fiber_stack_free rt st s = s\<lparr>allocator := rt_free rt (buffer st) (allocator s)\<rparr>"

definition fiber_sized_alloc ::
  "'a runtime \<Rightarrow> size_t \<Rightarrow> (u32 \<Rightarrow> body) \<Rightarrow> 'a machine \<Rightarrow> (c_ptr \<times> 'a machine) option" where
  "fiber_sized_alloc rt stack_size fn s =
     (let (p, a) = rt_malloc rt sizeof_fiber (allocator s)
      in if p = NULL then None
         else let (st, s) = fiber_stack_alloc rt stack_size (s\<lparr>allocator := a\<rparr>)
              in Some (p, put_fiber p
                   \<lparr>stack = st, fiber_state = ACTIVE, entry = fn, fiber_arg = NULL, frames = []\<rparr> s))"

definition fiber_alloc ::
  "'a runtime \<Rightarrow> (u32 \<Rightarrow> body) \<Rightarrow> 'a machine \<Rightarrow> (c_ptr \<times> 'a machine) option" where
  "fiber_alloc rt fn s = fiber_sized_alloc rt FIBER_DEFAULT_STACK_SIZE fn s"

definition fiber_free :: "'a runtime \<Rightarrow> c_ptr \<Rightarrow> 'a machine \<Rightarrow> 'a machine option" where
  "fiber_free rt p s = do {
     f \<leftarrow> heap s p;
     let s = fiber_stack_free rt (stack f) s;
     Some (s\<lparr>allocator := rt_free rt p (allocator s), heap := (heap s)(p := None)\<rparr>) }"

definition fiber_yield :: "u32 \<Rightarrow> 'a machine \<Rightarrow> (u32 \<times> 'a machine) option" where
  "fiber_yield arg s = do {
     f \<leftarrow> heap s (active_fiber s);
     if fiber_state f = YIELDING
     then do {
       s \<leftarrow> asyncify_stop_rewind s;
       let s = put_fiber (active_fiber s) (f\<lparr>fiber_state := ACTIVE\<rparr>) s;
       Some (fiber_arg f, s) }
     else do {
       let s = put_fiber (active_fiber s) (f\<lparr>fiber_arg := arg, fiber_state := YIELDING\<rparr>) s;
       s \<leftarrow> asyncify_start_unwind (active_fiber s) s;
       Some (NULL, s) } }"

text \<open>
  An instrumented call of the entry point: \<open>run_body\<close> runs it from a point of its
  resumption.  After the call of \<open>fiber_yield\<close> the instrumented code tests the mode: while
  unwinding it saves its frame and returns, otherwise it goes on with the returned value.
\<close>

primrec run_body :: "'a runtime \<Rightarrow> body \<Rightarrow> 'a machine \<Rightarrow> (u32 \<times> 'a machine) option" where
  "run_body rt (Return v) s = Some (v, s)"
| "run_body rt Trap s = None"
| "run_body rt (Yield a k) s = do {
     (r, s) \<leftarrow> fiber_yield a s;
     if asyncify_state s = Unwinding
     then do { s \<leftarrow> push_frame rt (Yield a k) s; Some (NULL, s) }
     else run_body rt (k r) s }"

definition call_entry ::
  "'a runtime \<Rightarrow> fiber \<Rightarrow> u32 \<Rightarrow> 'a machine \<Rightarrow> (u32 \<times> 'a machine) option" where
  "call_entry rt f arg s = (case asyncify_state s of
      Normal \<Rightarrow> run_body rt (entry f arg) s
    | Rewinding \<Rightarrow> do { (b, s) \<leftarrow> pop_frame rt s; run_body rt b s }
    | Unwinding \<Rightarrow> None)"

definition fiber_resume ::
  "'a runtime \<Rightarrow> c_ptr \<Rightarrow> u32 \<Rightarrow> 'a machine \<Rightarrow> (u32 \<times> fiber_result_t \<times> 'a machine) option" where
  "fiber_resume rt p arg s = do {
     f \<leftarrow> heap s p;
     if fiber_state f = DONE then Some (NULL, FIBER_ERROR, s)
     else do {
       let prev = active_fiber s;
       let s = s\<lparr>active_fiber := p\<rparr>;
       s \<leftarrow> (if fiber_state f = YIELDING
             then asyncify_start_rewind p (put_fiber p (f\<lparr>fiber_arg := arg\<rparr>) s)
             else Some s);
       f \<leftarrow> heap s p;
       (fiber_result, s) \<leftarrow> call_entry rt f arg s;
       s \<leftarrow> asyncify_stop_unwind s;
       f \<leftarrow> heap s p;
       let s = (if fiber_state f \<noteq> YIELDING
                then put_fiber p (f\<lparr>fiber_state := DONE\<rparr>) s else s);
       let s = s\<lparr>active_fiber := prev\<rparr>;
       f \<leftarrow> heap s p;
       Some (if fiber_state f = YIELDING then fiber_arg f else fiber_result,
             if fiber_state f = YIELDING then FIBER_YIELD else FIBER_OK, s) } }"

section \<open>Well-formed fibers and what they do next\<close>

text \<open>
  Between two operations a live fiber is fresh or finished with an empty asyncify stack, or
  suspended with exactly one captured resumption on it.
\<close>

definition stack_ok :: "fiber_stack \<Rightarrow> bool" where
  "stack_ok st \<longleftrightarrow> buffer st \<noteq> NULL \<and> buffer st \<le> stack_end st"

definition wf_fiber :: "'a runtime \<Rightarrow> fiber \<Rightarrow> bool" where
  "wf_fiber rt f \<longleftrightarrow> stack_ok (stack f) \<and>
     (case fiber_state f of
        YIELDING \<Rightarrow> (case frames f of
             [b] \<Rightarrow> (case b of Yield a k \<Rightarrow> True | _ \<Rightarrow> False) \<and>
                    top (stack f) = buffer (stack f) + rt_frame_bytes rt b \<and>
                    top (stack f) \<le> stack_end (stack f)
           | _ \<Rightarrow> False)
      | _ \<Rightarrow> frames f = [] \<and> top (stack f) = buffer (stack f))"

definition pending :: "fiber \<Rightarrow> (u32 \<Rightarrow> body) option" where
  "pending f = (case fiber_state f of
      ACTIVE \<Rightarrow> Some (entry f)
    | YIELDING \<Rightarrow> (case frames f of [Yield a k] \<Rightarrow> Some k | _ \<Rightarrow> None)
    | DONE \<Rightarrow> None)"

definition frame_fits :: "'a runtime \<Rightarrow> fiber_stack \<Rightarrow> body \<Rightarrow> bool" where
  "frame_fits rt st b \<longleftrightarrow> unat (rt_frame_bytes rt b) \<le> unat (stack_end st - buffer st)"

text \<open>The fiber left behind by a resumption whose body continues as \<open>b\<close>.\<close>

definition settled :: "'a runtime \<Rightarrow> fiber \<Rightarrow> u32 \<Rightarrow> body \<Rightarrow> fiber" where
  "settled rt f arg b = (case b of
      Yield a k \<Rightarrow> f\<lparr>fiber_state := YIELDING, fiber_arg := a, frames := [b],
        stack := (stack f)\<lparr>top := buffer (stack f) + rt_frame_bytes rt b\<rparr>\<rparr>
    | _ \<Rightarrow> f\<lparr>fiber_state := DONE,
        fiber_arg := (if fiber_state f = YIELDING then arg else fiber_arg f),
        frames := [], stack := (stack f)\<lparr>top := buffer (stack f)\<rparr>\<rparr>)"

section \<open>Resuming a fiber\<close>

lemma frame_fits_end:
  assumes "frame_fits rt st b" and "stack_ok st"
  shows "buffer st + rt_frame_bytes rt b \<le> stack_end st"
proof -
  have le: "buffer st \<le> stack_end st"
    using assms(2) by (simp add: stack_ok_def)
  then have "unat (rt_frame_bytes rt b) \<le> unat (stack_end st) - unat (buffer st)"
    using assms(1) by (simp add: frame_fits_def unat_sub)
  with le have sum: "unat (buffer st) + unat (rt_frame_bytes rt b) \<le> unat (stack_end st)"
    by (simp add: word_le_nat_alt)
  moreover have "unat (stack_end st) < 2 ^ 32"
    using unsigned_less [where w = "stack_end st"] by simp
  ultimately have "unat (buffer st + rt_frame_bytes rt b) =
      unat (buffer st) + unat (rt_frame_bytes rt b)"
    by (simp add: unat_word_ariths)
  with sum show ?thesis
    by (simp add: word_le_nat_alt)
qed

text \<open>Running a body in normal mode on a fiber whose asyncify stack is empty.\<close>

lemma run_body_active:
  assumes "asyncify_state s = Normal" and "heap s (active_fiber s) = Some f"
    and "fiber_state f = ACTIVE" and "frames f = []" and "top (stack f) = buffer (stack f)"
    and "stack_ok (stack f)"
  shows "run_body rt b s = (case b of
      Return v \<Rightarrow> Some (v, s)
    | Trap \<Rightarrow> None
    | Yield a k \<Rightarrow> Some (NULL, (put_fiber (active_fiber s) (settled rt f a b) s)
        \<lparr>asyncify_state := Unwinding, asyncify_data := active_fiber s\<rparr>))"
  using assms
  by (cases s; cases f; cases b)
     (auto simp: fiber_yield_def asyncify_defs push_frame_def stack_ok_def settled_def
        put_fiber_def not_less Let_def)

lemma call_entry_rewind:
  assumes "asyncify_state s = Rewinding" and "asyncify_data s = active_fiber s"
    and "heap s (active_fiber s) = Some f" and "wf_fiber rt f" and "fiber_state f = YIELDING"
    and "frames f = [Yield a k]"
  shows "call_entry rt g arg s = run_body rt (k (fiber_arg f))
    ((put_fiber (active_fiber s) (f\<lparr>fiber_state := ACTIVE, frames := [],
        stack := (stack f)\<lparr>top := buffer (stack f)\<rparr>\<rparr>) s)\<lparr>asyncify_state := Normal\<rparr>)"
  using assms
  by (cases s; cases f)
     (auto simp: call_entry_def pop_frame_def fiber_yield_def asyncify_defs wf_fiber_def
        stack_ok_def put_fiber_def not_less Let_def)

text \<open>
  What \<open>fiber_resume\<close> does after the entry point came back, for a body that continued as
  \<open>b\<close> on the fiber \<open>g\<close> (fresh, or just rewound).
\<close>

definition resume_result :: "body \<Rightarrow> (u32 \<times> fiber_result_t) option" where
  "resume_result b = (case b of
      Return v \<Rightarrow> Some (v, FIBER_OK)
    | Trap \<Rightarrow> None
    | Yield a k \<Rightarrow> Some (a, FIBER_YIELD))"

definition resumed :: "'a runtime \<Rightarrow> c_ptr \<Rightarrow> u32 \<Rightarrow> body \<Rightarrow> 'a machine \<Rightarrow> 'a machine" where
  "resumed rt p arg b s =
     (put_fiber p (settled rt (the (heap s p)) arg b) s)
       \<lparr>asyncify_data := (if fiber_state (the (heap s p)) = ACTIVE \<and> \<not> (case b of Yield a k \<Rightarrow> True | _ \<Rightarrow> False)
                         then asyncify_data s else p)\<rparr>"

lemma fiber_resume_fresh:
  assumes "asyncify_state s = Normal" and "heap s p = Some f" and "wf_fiber rt f"
    and "fiber_state f = ACTIVE" and "entry f arg = b"
    and "case b of Yield a k \<Rightarrow> frame_fits rt (stack f) b | _ \<Rightarrow> asyncify_check s = Some s"
  shows "fiber_resume rt p arg s =
    map_option (\<lambda>(v, r). (v, r, resumed rt p arg b s)) (resume_result b)"
proof -
  have ok: "stack_ok (stack f)" and fr: "frames f = []" and tp: "top (stack f) = buffer (stack f)"
    using assms(3,4) by (auto simp: wf_fiber_def)
  let ?s = "s\<lparr>active_fiber := p\<rparr>"
  have run: "run_body rt b ?s = (case b of
      Return v \<Rightarrow> Some (v, ?s)
    | Trap \<Rightarrow> None
    | Yield a k \<Rightarrow> Some (NULL, (put_fiber p (settled rt f a b) ?s)
        \<lparr>asyncify_state := Unwinding, asyncify_data := p\<rparr>))"
    using run_body_active [of ?s f rt b] assms(1,2,4) ok fr tp by (simp cong: body.case_cong)
  show ?thesis
  proof (cases b)
    case (Yield a k)
    then have "buffer (stack f) + rt_frame_bytes rt b \<le> stack_end (stack f)"
      using assms(6) frame_fits_end ok by auto
    with Yield run assms(1,2,4,5) show ?thesis
      by (cases s; cases f)
         (auto simp: fiber_resume_def call_entry_def resume_result_def resumed_def settled_def
            asyncify_defs put_fiber_def Let_def not_less)
  next
    case (Return v)
    with run assms ok fr tp show ?thesis
      by (cases s; cases f)
         (auto simp: fiber_resume_def call_entry_def resume_result_def resumed_def settled_def
            asyncify_defs put_fiber_def Let_def not_less split: if_splits bind_splits)
  next
    case Trap
    with run assms(1,2,4,5) show ?thesis
      by (simp add: fiber_resume_def call_entry_def resume_result_def Let_def)
  qed
qed

lemma fiber_resume_suspended:
  assumes "asyncify_state s = Normal" and "heap s p = Some f" and "wf_fiber rt f"
    and "fiber_state f = YIELDING" and "frames f = [Yield a0 k]" and "k arg = b"
    and "case b of Yield a k \<Rightarrow> frame_fits rt (stack f) b | _ \<Rightarrow> True"
  shows "fiber_resume rt p arg s =
    map_option (\<lambda>(v, r). (v, r, resumed rt p arg b s)) (resume_result b)"
proof -
  have ok: "stack_ok (stack f)" and le: "top (stack f) \<le> stack_end (stack f)"
    using assms(3,4,5) by (auto simp: wf_fiber_def)
  let ?f0 = "f\<lparr>fiber_arg := arg\<rparr>"
  let ?s0 = "(put_fiber p ?f0 (s\<lparr>active_fiber := p\<rparr>))
      \<lparr>asyncify_state := Rewinding, asyncify_data := p\<rparr>"
  let ?f1 = "?f0\<lparr>fiber_state := ACTIVE, frames := [], stack := (stack f)\<lparr>top := buffer (stack f)\<rparr>\<rparr>"
  let ?s1 = "(put_fiber p ?f1 ?s0)\<lparr>asyncify_state := Normal\<rparr>"
  have rewind: "asyncify_start_rewind p (put_fiber p ?f0 (s\<lparr>active_fiber := p\<rparr>)) = Some ?s0"
    using le by (auto simp: asyncify_defs not_less)
  have wf0: "wf_fiber rt ?f0"
    using assms(3-5) by (auto simp: wf_fiber_def)
  have call: "call_entry rt ?f0 arg ?s0 = run_body rt b ?s1"
    using call_entry_rewind [of ?s0 ?f0 rt a0 k ?f0 arg] wf0 assms(4-6) by simp
  have run: "run_body rt b ?s1 = (case b of
      Return v \<Rightarrow> Some (v, ?s1)
    | Trap \<Rightarrow> None
    | Yield a k \<Rightarrow> Some (NULL, (put_fiber p (settled rt ?f1 a b) ?s1)
        \<lparr>asyncify_state := Unwinding, asyncify_data := p\<rparr>))"
    using run_body_active [of ?s1 ?f1 rt b] ok by (simp add: stack_ok_def cong: body.case_cong)
  have step: "fiber_resume rt p arg s = do {
      (fiber_result, s') \<leftarrow> run_body rt b ?s1;
      s' \<leftarrow> asyncify_stop_unwind s';
      g \<leftarrow> heap s' p;
      let s' = (if fiber_state g \<noteq> YIELDING then put_fiber p (g\<lparr>fiber_state := DONE\<rparr>) s' else s');
      let s' = s'\<lparr>active_fiber := active_fiber s\<rparr>;
      g \<leftarrow> heap s' p;
      Some (if fiber_state g = YIELDING then fiber_arg g else fiber_result,
            if fiber_state g = YIELDING then FIBER_YIELD else FIBER_OK, s') }"
    using assms(2,4) rewind call by (simp add: fiber_resume_def Let_def)
  show ?thesis
  proof (cases b)
    case (Yield a k')
    then have "buffer (stack f) + rt_frame_bytes rt b \<le> stack_end (stack f)"
      using assms(7) frame_fits_end ok by auto
    with Yield run step assms(1,2,4) show ?thesis
      by (cases s; cases f)
         (auto simp: resume_result_def resumed_def settled_def
            asyncify_defs put_fiber_def Let_def not_less)
  next
    case (Return v)
    with run step ok assms(1,2,4) show ?thesis
      by (cases s; cases f)
         (auto simp: resume_result_def resumed_def settled_def stack_ok_def
            asyncify_defs put_fiber_def Let_def not_less)
  next
    case Trap
    with run step show ?thesis
      by (simp add: resume_result_def)
  qed
qed

lemma wf_settled:
  assumes "wf_fiber rt f" and "case b of Yield a k \<Rightarrow> frame_fits rt (stack f) b | _ \<Rightarrow> True"
  shows "wf_fiber rt (settled rt f arg b)"
    and "pending (settled rt f arg b) = (case b of Yield a k \<Rightarrow> Some k | _ \<Rightarrow> None)"
proof -
  have ok: "stack_ok (stack f)"
    using assms(1) by (simp add: wf_fiber_def)
  show "wf_fiber rt (settled rt f arg b)"
    using assms(2) ok frame_fits_end [OF _ ok, of rt b]
    by (cases b) (auto simp: wf_fiber_def settled_def stack_ok_def)
  show "pending (settled rt f arg b) = (case b of Yield a k \<Rightarrow> Some k | _ \<Rightarrow> None)"
    by (cases b) (auto simp: pending_def settled_def)
qed

text \<open>
  C2. \<open>fiber_resume\<close> implements one-shot asymmetric coroutines on top of asyncify: resuming
  a well-formed fiber whose pending computation is \<open>c\<close> runs \<open>c arg\<close> to its next event and
  reports that event (the returned value with \<open>FIBER_OK\<close>, the yielded value with
  \<open>FIBER_YIELD\<close>, a trap as a trap); afterwards the fiber is well-formed and its pending
  computation is exactly what follows the yield, every other fiber, the allocator and the
  active fiber are unchanged, and asyncify is back in normal mode.
\<close>

theorem fiber_resume_correct:
  assumes "asyncify_state s = Normal" and "heap s p = Some f" and "wf_fiber rt f"
    and "pending f = Some c"
    and "case c arg of
           Yield a k \<Rightarrow> frame_fits rt (stack f) (c arg)
         | _ \<Rightarrow> fiber_state f = ACTIVE \<longrightarrow> asyncify_check s = Some s"
  shows "case c arg of
      Return v \<Rightarrow> (\<exists>s' f'. fiber_resume rt p arg s = Some (v, FIBER_OK, s') \<and>
        heap s' = (heap s)(p := Some f') \<and> wf_fiber rt f' \<and> fiber_state f' = DONE \<and>
        allocator s' = allocator s \<and> active_fiber s' = active_fiber s \<and>
        asyncify_state s' = Normal)
    | Trap \<Rightarrow> fiber_resume rt p arg s = None
    | Yield a k \<Rightarrow> (\<exists>s' f'. fiber_resume rt p arg s = Some (a, FIBER_YIELD, s') \<and>
        heap s' = (heap s)(p := Some f') \<and> wf_fiber rt f' \<and> fiber_state f' = YIELDING \<and>
        pending f' = Some k \<and> allocator s' = allocator s \<and> active_fiber s' = active_fiber s \<and>
        asyncify_state s' = Normal)"
proof -
  have fits: "case c arg of Yield a k \<Rightarrow> frame_fits rt (stack f) (c arg) | _ \<Rightarrow> True"
    using assms(5) by (cases "c arg") auto
  have res: "fiber_resume rt p arg s =
      map_option (\<lambda>(v, r). (v, r, resumed rt p arg (c arg) s)) (resume_result (c arg))"
  proof (cases "fiber_state f")
    case ACTIVE
    with assms(4) have "entry f = c"
      by (simp add: pending_def)
    with ACTIVE assms show ?thesis
      by (intro fiber_resume_fresh) (auto cong: body.case_cong split: body.splits)
  next
    case YIELDING
    with assms(4) obtain a0 where "frames f = [Yield a0 c]"
      by (auto simp: pending_def split: list.splits body.splits)
    then show ?thesis
      using fiber_resume_suspended [OF assms(1-3) YIELDING _ refl, of a0 c arg] fits by simp
  next
    case DONE
    with assms(4) show ?thesis
      by (simp add: pending_def)
  qed
  note wf = wf_settled [OF assms(3) fits, of arg]
  show ?thesis
    using res wf assms(1,2)
    by (cases "c arg") (auto simp: resume_result_def resumed_def settled_def)
qed

text \<open>A concrete runtime for evaluation: a bump allocator and 16-byte frames.\<close>

definition bump_runtime :: "c_ptr runtime" where
  "bump_runtime = \<lparr>rt_malloc = (\<lambda>n a. (a, a + n)), rt_free = (\<lambda>_ a. a), rt_frame_bytes = (\<lambda>_. 16)\<rparr>"

definition sample_fiber :: fiber where
  "sample_fiber = \<lparr>stack = \<lparr>top = 2048, stack_end = 6144, buffer = 2048\<rparr>,
     fiber_state = ACTIVE, entry = (\<lambda>a. Yield a (\<lambda>r. Return (r + 1))), fiber_arg = 0,
     frames = []\<rparr>"

definition sample_machine :: "c_ptr machine" where
  "sample_machine = \<lparr>heap = [1024 \<mapsto> sample_fiber], allocator = 8192, active_fiber = NULL,
     asyncify_state = Normal, asyncify_data = NULL\<rparr>"

theorem fiber_resume_correct_witness:
  "\<exists>s' f'. fiber_resume bump_runtime 1024 7 sample_machine = Some (7, FIBER_YIELD, s') \<and>
     heap s' = (heap sample_machine)(1024 := Some f') \<and> wf_fiber bump_runtime f' \<and>
     fiber_state f' = YIELDING \<and> pending f' = Some (\<lambda>r. Return (r + 1)) \<and>
     allocator s' = 8192 \<and> active_fiber s' = NULL \<and> asyncify_state s' = Normal"
  using fiber_resume_correct [of sample_machine 1024 sample_fiber bump_runtime
      "\<lambda>a. Yield a (\<lambda>r. Return (r + 1))" 7]
  by (simp add: sample_machine_def sample_fiber_def wf_fiber_def stack_ok_def pending_def
      frame_fits_def bump_runtime_def)

section \<open>Whole histories of a fiber\<close>

text \<open>
  The specification: a coroutine as a pending computation, and the results its owner sees
  for a sequence of resume arguments.  A finished coroutine answers \<open>FIBER_ERROR\<close> for ever.
\<close>

fun coroutine_trace ::
  "(u32 \<Rightarrow> body) option \<Rightarrow> u32 list \<Rightarrow> (u32 \<times> fiber_result_t) list option" where
  "coroutine_trace c [] = Some []"
| "coroutine_trace None (a # as) = map_option ((#) (NULL, FIBER_ERROR)) (coroutine_trace None as)"
| "coroutine_trace (Some c) (a # as) = (case c a of
      Return v \<Rightarrow> map_option ((#) (v, FIBER_OK)) (coroutine_trace None as)
    | Trap \<Rightarrow> None
    | Yield v k \<Rightarrow> map_option ((#) (v, FIBER_YIELD)) (coroutine_trace (Some k) as))"

fun resume_all ::
  "'a runtime \<Rightarrow> c_ptr \<Rightarrow> u32 list \<Rightarrow> 'a machine \<Rightarrow> (u32 \<times> fiber_result_t) list option" where
  "resume_all rt p [] s = Some []"
| "resume_all rt p (a # as) s = do {
     (v, r, s) \<leftarrow> fiber_resume rt p a s;
     vs \<leftarrow> resume_all rt p as s;
     Some ((v, r) # vs) }"

definition resumable :: "'a runtime \<Rightarrow> c_ptr \<Rightarrow> 'a machine \<Rightarrow> bool" where
  "resumable rt p s \<longleftrightarrow> asyncify_state s = Normal \<and> asyncify_check s = Some s \<and>
     (\<exists>f. heap s p = Some f \<and> wf_fiber rt f \<and> (\<forall>b. frame_fits rt (stack f) b))"

lemma fiber_resume_done:
  assumes "heap s p = Some f" and "fiber_state f = DONE"
  shows "fiber_resume rt p arg s = Some (NULL, FIBER_ERROR, s)"
  using assms by (simp add: fiber_resume_def)

lemma wf_fiber_stack_le: "wf_fiber rt f \<Longrightarrow> \<not> stack_end (stack f) < top (stack f)"
  by (auto simp: wf_fiber_def stack_ok_def not_less split: fiber_state_t.splits list.splits)

lemma settled_stack [simp]:
  "buffer (stack (settled rt f arg b)) = buffer (stack f)"
  "stack_end (stack (settled rt f arg b)) = stack_end (stack f)"
  "entry (settled rt f arg b) = entry f"
  by (cases b; simp add: settled_def)+

lemma resumable_step:
  assumes "resumable rt p s" and "heap s p = Some f" and "pending f = Some c"
  shows "case c arg of
      Trap \<Rightarrow> fiber_resume rt p arg s = None
    | b \<Rightarrow> fiber_resume rt p arg s =
        Some (fst (the (resume_result b)), snd (the (resume_result b)), resumed rt p arg b s) \<and>
        resumable rt p (resumed rt p arg b s) \<and>
        heap (resumed rt p arg b s) p = Some (settled rt f arg b)"
proof -
  from assms have norm: "asyncify_state s = Normal" and chk: "asyncify_check s = Some s"
    and wf: "wf_fiber rt f" and fit: "\<And>b. frame_fits rt (stack f) b"
    by (auto simp: resumable_def)
  have res: "fiber_resume rt p arg s =
      map_option (\<lambda>(v, r). (v, r, resumed rt p arg (c arg) s)) (resume_result (c arg))"
  proof (cases "fiber_state f")
    case ACTIVE
    with assms(3) have "entry f = c"
      by (simp add: pending_def)
    then show ?thesis
      using fiber_resume_fresh [OF norm assms(2) wf ACTIVE refl, of arg] chk fit
      by (simp split: body.splits)
  next
    case YIELDING
    with assms(3) obtain a0 where "frames f = [Yield a0 c]"
      by (auto simp: pending_def split: list.splits body.splits)
    then show ?thesis
      using fiber_resume_suspended [OF norm assms(2) wf YIELDING _ refl, of a0 c arg] fit
      by (simp split: body.splits)
  next
    case DONE
    with assms(3) show ?thesis
      by (simp add: pending_def)
  qed
  have wf': "wf_fiber rt (settled rt f arg (c arg))"
    by (rule wf_settled(1) [OF wf]) (use fit in \<open>simp split: body.split\<close>)
  have "resumable rt p (resumed rt p arg (c arg) s)"
    using norm chk assms(2) wf' wf_fiber_stack_le [OF wf'] fit
    by (auto simp: resumable_def resumed_def asyncify_check_def frame_fits_def
        split: if_splits bind_splits)
  moreover have "heap (resumed rt p arg (c arg) s) p = Some (settled rt f arg (c arg))"
    using assms(2) by (simp add: resumed_def)
  ultimately show ?thesis
    using res by (cases "c arg") (simp_all add: resume_result_def)
qed

text \<open>
  C3. Refinement over whole histories: the results \<open>fiber_resume\<close> gives for any sequence of
  resume arguments are exactly those of the abstract coroutine, including the
  \<open>FIBER_ERROR\<close> answers after it has finished and a trap where its body traps.
\<close>

theorem fiber_history_refines_coroutine:
  assumes "resumable rt p s" and "heap s p = Some f"
  shows "resume_all rt p args s = coroutine_trace (pending f) args"
  using assms
proof (induction args arbitrary: s f)
  case Nil
  show ?case by simp
next
  case (Cons a as)
  show ?case
  proof (cases "pending f")
    case None
    then have "fiber_state f = DONE"
      using Cons.prems
      by (auto simp: pending_def resumable_def wf_fiber_def
          split: fiber_state_t.splits list.splits body.splits)
    with Cons None show ?thesis
      by (auto simp: fiber_resume_done map_option_case split: option.split)
  next
    case (Some c)
    note step = resumable_step [OF Cons.prems Some, of a]
    have pend: "pending (settled rt f a (c a)) = (case c a of Yield v k \<Rightarrow> Some k | _ \<Rightarrow> None)"
      using Cons.prems by (intro wf_settled(2)) (auto simp: resumable_def split: body.split)
    show ?thesis
      using step Some pend Cons.IH [of "resumed rt p a (c a) s" "settled rt f a (c a)"]
      by (cases "c a") (auto simp: resume_result_def map_option_case split: option.split)
  qed
qed

theorem fiber_history_refines_coroutine_witness:
  "resume_all bump_runtime 1024 [7, 9, 1] sample_machine =
     Some [(7, FIBER_YIELD), (10, FIBER_OK), (0, FIBER_ERROR)]"
proof -
  have "resumable bump_runtime 1024 sample_machine"
    by (simp add: resumable_def sample_machine_def sample_fiber_def bump_runtime_def
        asyncify_check_def wf_fiber_def stack_ok_def frame_fits_def)
  moreover have "heap sample_machine 1024 = Some sample_fiber"
    by (simp add: sample_machine_def)
  ultimately show ?thesis
    using fiber_history_refines_coroutine [of bump_runtime 1024 sample_machine sample_fiber "[7, 9, 1]"]
    by (simp add: pending_def sample_fiber_def)
qed

end
