(* ===== verification/Asyncify_Worker.thy ===== *)
theory Asyncify_Worker
  imports Fiber_Asyncify
begin

text \<open>
  The asyncify build of the benchmark: the worker primitives of
  \<open>benchmarks/c10m/asyncify.c\<close> over the fiber library, and the instrumented entry point
  \<open>async_worker\<close> of \<open>c10m.c\<close>.  The static array \<open>store\<close> is a list of fiber pointers;
  indexing it out of range is undefined behaviour (\<^const>\<open>None\<close>).
\<close>

record 'a fiber_bench =
  mach :: "'a machine"
  store :: "c_ptr list"

definition bench_init :: "'a \<Rightarrow> 'a fiber_bench" where
  "bench_init a = \<lparr>mach = \<lparr>heap = Map.empty, allocator = a, active_fiber = NULL,
       asyncify_state = Normal, asyncify_data = NULL\<rparr>,
     store = replicate (unat active_conn) NULL\<rparr>"

text \<open>
  \<open>async_worker\<close> yields its argument through \<open>async_worker_yield\<close> (which is
  \<open>fiber_yield\<close>), touches as much stack as the value it is resumed with, and returns 1.
\<close>

definition async_worker_yield_fb :: "u32 \<Rightarrow> (u32 \<Rightarrow> body) \<Rightarrow> body" where
  "async_worker_yield_fb arg k = Yield arg k"

definition async_worker :: "nat \<Rightarrow> c_ptr \<Rightarrow> u32 \<Rightarrow> body" where
  "async_worker mem_bytes sp arg =
     async_worker_yield_fb arg (\<lambda>kb. case stack_use mem_bytes sp kb of
         None \<Rightarrow> Trap | Some _ \<Rightarrow> Return 1)"

definition alloc_async_worker_fb ::
  "'a runtime \<Rightarrow> nat \<Rightarrow> c_ptr \<Rightarrow> u32 \<Rightarrow> 'a fiber_bench \<Rightarrow> 'a fiber_bench option" where
  "alloc_async_worker_fb rt mem_bytes sp key s =
     (if unat key < length (store s)
      then do { (p, m) \<leftarrow> fiber_alloc rt (async_worker mem_bytes sp) (mach s);
                Some (s\<lparr>mach := m, store := (store s)[unat key := p]\<rparr>) }
      else None)"

definition resume_async_worker_fb ::
  "'a runtime \<Rightarrow> u32 \<Rightarrow> u32 \<Rightarrow> 'a fiber_bench \<Rightarrow> (u32 \<times> 'a fiber_bench) option" where
  "resume_async_worker_fb rt key arg s =
     (if unat key < length (store s)
      then do { (v, status, m) \<leftarrow> fiber_resume rt (store s ! unat key) arg (mach s);
                Some (v, s\<lparr>mach := m\<rparr>) }
      else None)"

definition free_async_worker_fb ::
  "'a runtime \<Rightarrow> u32 \<Rightarrow> 'a fiber_bench \<Rightarrow> 'a fiber_bench option" where
  "free_async_worker_fb rt key s =
     (if unat key < length (store s)
      then do { m \<leftarrow> fiber_free rt (store s ! unat key) (mach s);
                Some (s\<lparr>mach := m\<rparr>) }
      else None)"

definition fiber_ops :: "'a runtime \<Rightarrow> nat \<Rightarrow> c_ptr \<Rightarrow> 'a fiber_bench worker_ops" where
  "fiber_ops rt mem_bytes sp =
     \<lparr>alloc_async_worker = alloc_async_worker_fb rt mem_bytes sp,
      resume_async_worker = resume_async_worker_fb rt,
      free_async_worker = free_async_worker_fb rt\<rparr>"

section \<open>What is assumed of the allocator\<close>

text \<open>
  \<open>live a\<close> is the set of blocks handed out and not yet freed.  While fewer than
  \<open>capacity\<close> blocks are live, \<open>malloc\<close> of at most 4096 bytes returns a fresh non-null
  block whose past-the-end address does not wrap around; \<open>free\<close> of a live block removes
  just it.
\<close>

definition allocator_laws :: "'a runtime \<Rightarrow> ('a \<Rightarrow> c_ptr set) \<Rightarrow> nat \<Rightarrow> bool" where
  "allocator_laws rt live capacity \<longleftrightarrow>
     (\<forall>n a p a'. n \<le> FIBER_DEFAULT_STACK_SIZE \<longrightarrow> card (live a) < capacity \<longrightarrow> rt_malloc rt n a = (p, a') \<longrightarrow>
        p \<noteq> NULL \<and> p \<notin> live a \<and> unat p + unat n < 2 ^ 32 \<and> live a' = insert p (live a)) \<and>
     (\<forall>p a. p \<in> live a \<longrightarrow> live (rt_free rt p a) = live a - {p})"

lemma allocator_lawsD:
  assumes "allocator_laws rt live capacity" and "card (live a) < capacity"
    and "rt_malloc rt n a = (p, a')" and "n \<le> FIBER_DEFAULT_STACK_SIZE"
  shows "p \<noteq> NULL" and "p \<notin> live a" and "unat p + unat n < 2 ^ 32"
    and "live a' = insert p (live a)"
  using assms unfolding allocator_laws_def by blast+

lemma allocator_laws_freeD:
  assumes "allocator_laws rt live capacity" and "p \<in> live a"
  shows "live (rt_free rt p a) = live a - {p}"
  using assms unfolding allocator_laws_def by blast

section \<open>The simulation of the worker life cycle\<close>

definition worker_fiber ::
  "'a runtime \<Rightarrow> nat \<Rightarrow> c_ptr \<Rightarrow> fiber \<Rightarrow> worker_state \<Rightarrow> bool" where
  "worker_fiber rt mem_bytes sp f st \<longleftrightarrow> wf_fiber rt f \<and>
     stack_end (stack f) - buffer (stack f) = FIBER_DEFAULT_STACK_SIZE \<and>
     (case st of
        Vacant \<Rightarrow> False
      | Fresh \<Rightarrow> fiber_state f = ACTIVE \<and> entry f = async_worker mem_bytes sp
      | Suspended \<Rightarrow> fiber_state f = YIELDING \<and>
          (\<exists>a. frames f = [async_worker mem_bytes sp a])
      | Finished \<Rightarrow> fiber_state f = DONE)"

definition occupied :: "worker_map \<Rightarrow> u32 set" where
  "occupied m = {k. k < active_conn \<and> m k \<noteq> Vacant}"

text \<open>The two blocks of a slot: the fiber object and its asyncify stack.\<close>

definition block :: "'a fiber_bench \<Rightarrow> u32 \<times> bool \<Rightarrow> c_ptr" where
  "block s = (\<lambda>(k, is_buffer). let p = store s ! unat k
     in if is_buffer then buffer (stack (the (heap (mach s) p))) else p)"

definition bench_rel ::
  "'a runtime \<Rightarrow> ('a \<Rightarrow> c_ptr set) \<Rightarrow> nat \<Rightarrow> c_ptr \<Rightarrow> 'a fiber_bench \<Rightarrow> worker_map \<Rightarrow> bool" where
  "bench_rel rt live mem_bytes sp s m \<longleftrightarrow>
     length (store s) = unat active_conn \<and> asyncify_state (mach s) = Normal \<and>
     (\<forall>k \<in> occupied m. \<exists>f. heap (mach s) (store s ! unat k) = Some f \<and>
         worker_fiber rt mem_bytes sp f (m k)) \<and>
     inj_on (block s) (occupied m \<times> UNIV) \<and>
     live (allocator (mach s)) = block s ` (occupied m \<times> UNIV)"

definition bench_env :: "'a runtime \<Rightarrow> ('a \<Rightarrow> c_ptr set) \<Rightarrow> nat \<Rightarrow> c_ptr \<Rightarrow> bool" where
  "bench_env rt live mem_bytes sp \<longleftrightarrow> stack_fits mem_bytes sp \<and>
     allocator_laws rt live (2 * unat active_conn) \<and>
     (\<forall>a. unat (rt_frame_bytes rt (async_worker mem_bytes sp a)) \<le> unat FIBER_DEFAULT_STACK_SIZE)"

lemma bench_relD:
  assumes "bench_rel rt live mem_bytes sp s m" and "k < active_conn" and "m k \<noteq> Vacant"
  obtains f where "unat k < length (store s)" and "heap (mach s) (store s ! unat k) = Some f"
    and "worker_fiber rt mem_bytes sp f (m k)"
  using assms by (auto simp: bench_rel_def occupied_def word_less_nat_alt)

lemma card_occupied:
  assumes "k < active_conn" and "m k = Vacant"
  shows "card (occupied m) < unat active_conn"
proof -
  have "occupied m \<subseteq> {j. j < active_conn} - {k}"
    using assms by (auto simp: occupied_def)
  then have "card (occupied m) \<le> card ({j. j < active_conn} - {k})"
    by (intro card_mono) auto
  also have "\<dots> < unat active_conn"
    using assms card_Diff1_less [of "{j. j < active_conn}" k]
    by (simp add: card_word_lessThan)
  finally show ?thesis .
qed

lemma card_live:
  assumes "bench_rel rt live mem_bytes sp s m"
  shows "card (live (allocator (mach s))) = 2 * card (occupied m)"
  using assms by (simp add: bench_rel_def card_image card_cartesian_product)

text \<open>Replacing the fiber of one slot by another with the same stack buffer.\<close>

lemma bench_rel_put:
  assumes rel: "bench_rel rt live mem_bytes sp s m" and k: "k < active_conn" "m k \<noteq> Vacant"
    and heap: "heap m' = (heap (mach s))(store s ! unat k := Some f')"
    and alloc: "allocator m' = allocator (mach s)" and mode: "asyncify_state m' = Normal"
    and buf: "buffer (stack f') = buffer (stack (the (heap (mach s) (store s ! unat k))))"
    and wf: "worker_fiber rt mem_bytes sp f' st" and st: "st \<noteq> Vacant"
  shows "bench_rel rt live mem_bytes sp (s\<lparr>mach := m'\<rparr>) (m(k := st))"
proof -
  have occ: "occupied (m(k := st)) = occupied m"
    using k st by (auto simp: occupied_def)
  have blk: "block (s\<lparr>mach := m'\<rparr>) = block s"
    using heap buf by (auto simp: block_def Let_def fun_eq_iff)
  have "\<exists>f. heap m' (store s ! unat j) = Some f \<and> worker_fiber rt mem_bytes sp f ((m(k := st)) j)"
    if "j \<in> occupied m" for j
  proof (cases "j = k")
    case True
    with heap wf show ?thesis by simp
  next
    case False
    have "block s (j, False) \<noteq> block s (k, False)"
      using rel that k False unfolding bench_rel_def occupied_def inj_on_def by blast
    then have "store s ! unat j \<noteq> store s ! unat k"
      by (simp add: block_def)
    with False rel that heap show ?thesis
      by (auto simp: bench_rel_def)
  qed
  then show ?thesis
    using rel alloc mode by (simp add: bench_rel_def occ blk)
qed

lemma fiber_alloc_fresh:
  assumes laws: "allocator_laws rt live capacity"
    and room: "Suc (card (live (allocator m))) < capacity"
  obtains p q a2 f where "fiber_alloc rt fn m = Some (p, (put_fiber p f m)\<lparr>allocator := a2\<rparr>)"
    and "live a2 = insert q (insert p (live (allocator m)))"
    and "p \<notin> live (allocator m)" and "q \<notin> live (allocator m)" and "p \<noteq> q"
    and "buffer (stack f) = q" and "wf_fiber rt f" and "fiber_state f = ACTIVE" and "entry f = fn"
    and "stack_end (stack f) - buffer (stack f) = FIBER_DEFAULT_STACK_SIZE"
proof -
  obtain p a1 where 1: "rt_malloc rt sizeof_fiber (allocator m) = (p, a1)"
    by fastforce
  obtain q a2 where 2: "rt_malloc rt FIBER_DEFAULT_STACK_SIZE a1 = (q, a2)"
    by fastforce
  have room1: "card (live (allocator m)) < capacity"
    using room by simp
  have "sizeof_fiber \<le> FIBER_DEFAULT_STACK_SIZE"
    by (simp add: sizeof_fiber_def FIBER_DEFAULT_STACK_SIZE_def)
  note p = allocator_lawsD(1,2) [OF laws room1 1 this]
    and live1 = allocator_lawsD(4) [OF laws room1 1 this]
  from p live1 have "card (live a1) < capacity"
    using room by simp
  note q = allocator_lawsD(1-3) [OF laws this 2 order_refl]
    and live2 = allocator_lawsD(4) [OF laws this 2 order_refl]
  define f where "f = \<lparr>stack = \<lparr>top = q, stack_end = q + FIBER_DEFAULT_STACK_SIZE, buffer = q\<rparr>,
      fiber_state = ACTIVE, entry = fn, fiber_arg = NULL, frames = []\<rparr>"
  have "q \<le> q + FIBER_DEFAULT_STACK_SIZE"
    using q(3) by (simp add: FIBER_DEFAULT_STACK_SIZE_def word_le_nat_alt unat_word_ariths)
  show thesis
  proof (rule that)
    show "fiber_alloc rt fn m = Some (p, (put_fiber p f m)\<lparr>allocator := a2\<rparr>)"
      using 1 2 p(1)
      by (simp add: fiber_alloc_def fiber_sized_alloc_def fiber_stack_alloc_def f_def put_fiber_def)
    show "wf_fiber rt f"
      using q(1) \<open>q \<le> q + FIBER_DEFAULT_STACK_SIZE\<close> by (simp add: f_def wf_fiber_def stack_ok_def)
  qed (use p q live1 live2 in \<open>auto simp: f_def\<close>)
qed

lemma alloc_fiber_sim:
  assumes env: "bench_env rt live mem_bytes sp" and rel: "bench_rel rt live mem_bytes sp s m"
    and k: "k < active_conn" and vac: "m k = Vacant"
  shows "\<exists>s'. alloc_async_worker_fb rt mem_bytes sp k s = Some s' \<and>
              bench_rel rt live mem_bytes sp s' (m(k := Fresh))"
proof -
  have laws: "allocator_laws rt live (2 * unat active_conn)"
    using env by (simp add: bench_env_def)
  have "Suc (card (live (allocator (mach s)))) < 2 * unat active_conn"
    using card_occupied [of k m, OF k vac] card_live [OF rel] by simp
  then obtain p q a2 f where
    fa: "fiber_alloc rt (async_worker mem_bytes sp) (mach s) =
        Some (p, (put_fiber p f (mach s))\<lparr>allocator := a2\<rparr>)"
    and live2: "live a2 = insert q (insert p (live (allocator (mach s))))"
    and fresh: "p \<notin> live (allocator (mach s))" "q \<notin> live (allocator (mach s))" "p \<noteq> q"
    and f: "buffer (stack f) = q" "wf_fiber rt f" "fiber_state f = ACTIVE"
      "entry f = async_worker mem_bytes sp"
      "stack_end (stack f) - buffer (stack f) = FIBER_DEFAULT_STACK_SIZE"
    by (rule fiber_alloc_fresh [OF laws])
  let ?s = "s\<lparr>mach := (put_fiber p f (mach s))\<lparr>allocator := a2\<rparr>, store := (store s)[unat k := p]\<rparr>"
  have len: "length (store s) = unat active_conn" and kl: "unat k < length (store s)"
    using rel k by (auto simp: bench_rel_def word_less_nat_alt)
  have live: "live (allocator (mach s)) = block s ` (occupied m \<times> UNIV)"
    using rel by (simp add: bench_rel_def)
  have other: "store ?s ! unat j = store s ! unat j" "store s ! unat j \<noteq> p"
    if "j \<in> occupied m" for j
  proof -
    have "j \<noteq> k"
      using that vac by (auto simp: occupied_def)
    then show "store ?s ! unat j = store s ! unat j"
      by (simp add: word_unat_eq_iff)
    have "block s (j, False) \<in> live (allocator (mach s))"
      using that live by blast
    then show "store s ! unat j \<noteq> p"
      using fresh(1) by (auto simp: block_def)
  qed
  have occ: "occupied (m(k := Fresh)) = insert k (occupied m)"
    using k by (auto simp: occupied_def)
  have knot: "k \<notin> occupied m"
    using vac by (simp add: occupied_def)
  have blk: "block ?s x = block s x" if "x \<in> occupied m \<times> UNIV" for x
    using that other by (cases x) (simp add: block_def Let_def)
  have blk_k: "block ?s (k, False) = p" "block ?s (k, True) = q"
    using kl f(1) by (simp_all add: block_def Let_def)
  have img: "block ?s ` (occupied m \<times> UNIV) = live (allocator (mach s))"
    using blk live by (simp cong: image_cong)
  have split: "insert k (occupied m) \<times> (UNIV :: bool set) =
      insert (k, False) (insert (k, True) (occupied m \<times> UNIV))"
    by (auto simp: UNIV_bool)
  have inj: "inj_on (block ?s) (occupied m \<times> UNIV)"
    using rel blk by (simp add: bench_rel_def cong: inj_on_cong)
  have "inj_on (block ?s) (insert k (occupied m) \<times> UNIV)"
    unfolding split inj_on_insert
    using inj img fresh blk_k knot by (auto simp del: Diff_insert0)
  moreover have "live a2 = block ?s ` (insert k (occupied m) \<times> UNIV)"
    unfolding split image_insert img blk_k using live2 by auto
  moreover have "worker_fiber rt mem_bytes sp f Fresh"
    using f by (simp add: worker_fiber_def)
  moreover have "\<exists>g. heap (mach ?s) (store ?s ! unat j) = Some g \<and>
      worker_fiber rt mem_bytes sp g ((m(k := Fresh)) j)" if "j \<in> occupied m" for j
    using that rel other [OF that] knot by (auto simp: bench_rel_def)
  ultimately have "bench_rel rt live mem_bytes sp ?s (m(k := Fresh))"
    using rel kl len by (simp add: bench_rel_def occ)
  then show ?thesis
    using fa kl by (simp add: alloc_async_worker_fb_def)
qed

lemma worker_frame_fits:
  assumes "bench_env rt live mem_bytes sp" and "worker_fiber rt mem_bytes sp f st"
  shows "frame_fits rt (stack f) (async_worker mem_bytes sp a)"
  using assms by (simp add: bench_env_def worker_fiber_def frame_fits_def)

lemma worker_settled:
  assumes "worker_fiber rt mem_bytes sp f st"
    and "case b of Yield a k \<Rightarrow> frame_fits rt (stack f) b | _ \<Rightarrow> True"
    and "(\<exists>a. b = async_worker mem_bytes sp a) \<and> st' = Suspended \<or> (\<exists>v. b = Return v) \<and> st' = Finished"
  shows "worker_fiber rt mem_bytes sp (settled rt f arg b) st'"
proof -
  have "wf_fiber rt (settled rt f arg b)"
    using assms(1,2) by (intro wf_settled(1)) (simp_all add: worker_fiber_def)
  with assms show ?thesis
    by (auto simp: worker_fiber_def settled_def async_worker_def async_worker_yield_fb_def)
qed

lemma resume_fresh_fiber_sim:
  assumes env: "bench_env rt live mem_bytes sp" and rel: "bench_rel rt live mem_bytes sp s m"
    and k: "k < active_conn" and st: "m k = Fresh"
  shows "\<exists>s'. resume_async_worker_fb rt k a s = Some (a, s') \<and>
              bench_rel rt live mem_bytes sp s' (m(k := Suspended))"
proof -
  obtain f where f: "unat k < length (store s)" "heap (mach s) (store s ! unat k) = Some f"
    "worker_fiber rt mem_bytes sp f Fresh"
    using bench_relD [OF rel k] st by (metis worker_state.distinct(1))
  let ?p = "store s ! unat k" and ?b = "async_worker mem_bytes sp a"
  have fits: "case ?b of Yield a k \<Rightarrow> frame_fits rt (stack f) ?b | _ \<Rightarrow> True"
    using worker_frame_fits [OF env f(3), of a] by (cases ?b) auto
  have norm: "asyncify_state (mach s) = Normal"
    using rel by (simp add: bench_rel_def)
  have "fiber_resume rt ?p a (mach s) = Some (a, FIBER_YIELD, resumed rt ?p a ?b (mach s))"
    using fiber_resume_fresh [OF norm f(2), of rt a ?b] f(3) fits
    by (simp add: worker_fiber_def async_worker_def async_worker_yield_fb_def resume_result_def)
  moreover have "bench_rel rt live mem_bytes sp
      (s\<lparr>mach := resumed rt ?p a ?b (mach s)\<rparr>) (m(k := Suspended))"
    using k st f norm worker_settled [OF f(3) fits, of Suspended a]
    by (intro bench_rel_put [OF rel, where f' = "settled rt f a ?b"]) (auto simp: resumed_def)
  ultimately show ?thesis
    using f(1) by (simp add: resume_async_worker_fb_def)
qed

lemma resume_suspended_fiber_sim:
  assumes env: "bench_env rt live mem_bytes sp" and rel: "bench_rel rt live mem_bytes sp s m"
    and k: "k < active_conn" and st: "m k = Suspended"
  shows "\<exists>s'. resume_async_worker_fb rt k stack_kb s = Some (1, s') \<and>
              bench_rel rt live mem_bytes sp s' (m(k := Finished))"
proof -
  obtain f where f: "unat k < length (store s)" "heap (mach s) (store s ! unat k) = Some f"
    "worker_fiber rt mem_bytes sp f Suspended"
    using bench_relD [OF rel k] st by (metis worker_state.distinct(3))
  let ?p = "store s ! unat k"
  have norm: "asyncify_state (mach s) = Normal"
    using rel by (simp add: bench_rel_def)
  have use: "stack_use mem_bytes sp stack_kb = Some ()"
    using env by (intro stack_use_benchmark) (simp add: bench_env_def)
  let ?rest = "\<lambda>kb. case stack_use mem_bytes sp kb of None \<Rightarrow> Trap | Some _ \<Rightarrow> Return 1"
  obtain a0 where "frames f = [Yield a0 ?rest]" and "wf_fiber rt f" and "fiber_state f = YIELDING"
    using f(3) by (auto simp: worker_fiber_def async_worker_def async_worker_yield_fb_def)
  then have "fiber_resume rt ?p stack_kb (mach s) =
      Some (1, FIBER_OK, resumed rt ?p stack_kb (Return 1) (mach s))"
    using fiber_resume_suspended [OF norm f(2), of rt a0 ?rest stack_kb "Return 1"] use
    by (simp add: resume_result_def)
  moreover have "bench_rel rt live mem_bytes sp
      (s\<lparr>mach := resumed rt ?p stack_kb (Return 1) (mach s)\<rparr>) (m(k := Finished))"
    using k st f norm worker_settled [OF f(3), of "Return 1" Finished stack_kb]
    by (intro bench_rel_put [OF rel, where f' = "settled rt f stack_kb (Return 1)"])
       (auto simp: resumed_def)
  ultimately show ?thesis
    using f(1) by (simp add: resume_async_worker_fb_def)
qed

lemma free_fiber_sim:
  assumes env: "bench_env rt live mem_bytes sp" and rel: "bench_rel rt live mem_bytes sp s m"
    and k: "k < active_conn" and st: "m k = Finished"
  shows "\<exists>s'. free_async_worker_fb rt k s = Some s' \<and>
              bench_rel rt live mem_bytes sp s' (m(k := Vacant))"
proof -
  obtain f where f: "unat k < length (store s)" "heap (mach s) (store s ! unat k) = Some f"
    using bench_relD [OF rel k] st by (metis worker_state.distinct(5))
  let ?p = "store s ! unat k" and ?a = "allocator (mach s)"
  let ?a2 = "rt_free rt ?p (rt_free rt (buffer (stack f)) ?a)"
  let ?s = "s\<lparr>mach := (mach s)\<lparr>allocator := ?a2, heap := (heap (mach s))(?p := None)\<rparr>\<rparr>"
  have laws: "allocator_laws rt live (2 * unat active_conn)"
    using env by (simp add: bench_env_def)
  have live: "live ?a = block s ` (occupied m \<times> UNIV)"
    and inj: "inj_on (block s) (occupied m \<times> UNIV)"
    using rel by (auto simp: bench_rel_def)
  have kocc: "k \<in> occupied m" and occ: "occupied (m(k := Vacant)) = occupied m - {k}"
    using k st by (auto simp: occupied_def)
  have blk_k: "block s (k, False) = ?p" "block s (k, True) = buffer (stack f)"
    using f by (simp_all add: block_def Let_def)
  have "?p \<noteq> buffer (stack f)"
    using inj_onD [OF inj, of "(k, False)" "(k, True)"] kocc blk_k by auto
  moreover have "block s (k, False) \<in> live ?a" "block s (k, True) \<in> live ?a"
    unfolding live using kocc by blast+
  ultimately have in_live: "?p \<in> live ?a - {buffer (stack f)}" "buffer (stack f) \<in> live ?a"
    by (simp_all add: blk_k)
  have live1: "live (rt_free rt (buffer (stack f)) ?a) = live ?a - {buffer (stack f)}"
    using allocator_laws_freeD [OF laws in_live(2)] .
  have live2: "live ?a2 = live ?a - {?p, buffer (stack f)}"
    using allocator_laws_freeD [OF laws, of ?p "rt_free rt (buffer (stack f)) ?a"] in_live(1)
    unfolding live1 by auto
  have other: "store s ! unat j \<noteq> ?p" if "j \<in> occupied m - {k}" for j
    using inj_onD [OF inj, of "(j, False)" "(k, False)"] that kocc by (auto simp: block_def)
  have blk: "block ?s x = block s x" if "x \<in> (occupied m - {k}) \<times> UNIV" for x
    using that other by (cases x) (auto simp: block_def Let_def)
  have split: "(occupied m - {k}) \<times> (UNIV :: bool set) = occupied m \<times> UNIV - {(k, False), (k, True)}"
    by (auto simp: UNIV_bool)
  have "block ?s ` ((occupied m - {k}) \<times> UNIV) = block s ` (occupied m \<times> UNIV - {(k, False), (k, True)})"
    unfolding split [symmetric] by (rule image_cong [OF refl]) (rule blk)
  also have "\<dots> = live ?a - {?p, buffer (stack f)}"
    using inj_on_image_set_diff [OF inj, of "occupied m \<times> UNIV" "{(k, False), (k, True)}"] kocc
    by (simp add: live blk_k)
  finally have img: "live ?a2 = block ?s ` ((occupied m - {k}) \<times> UNIV)"
    using live2 by simp
  have "inj_on (block ?s) ((occupied m - {k}) \<times> UNIV)"
    using inj_on_subset [OF inj, of "(occupied m - {k}) \<times> UNIV"] blk by (auto cong: inj_on_cong)
  then have "bench_rel rt live mem_bytes sp ?s (m(k := Vacant))"
    using rel img other unfolding bench_rel_def occ by auto
  then show ?thesis
    using f by (simp add: free_async_worker_fb_def fiber_free_def fiber_stack_free_def)
qed

interpretation fibers: worker_provider "fiber_ops rt mem_bytes sp"
    "\<lambda>s m. bench_env rt live mem_bytes sp \<and> bench_rel rt live mem_bytes sp s m"
  for rt :: "'a runtime" and live mem_bytes sp
  by unfold_locales
     (auto simp: fiber_ops_def dest: alloc_fiber_sim resume_fresh_fiber_sim
        resume_suspended_fiber_sim free_fiber_sim)

lemma bench_rel_init:
  "live a = {} \<Longrightarrow> bench_rel rt live mem_bytes sp (bench_init a) (\<lambda>_. Vacant)"
  by (simp add: bench_rel_def bench_init_def occupied_def)

text \<open>
  C4. The asyncify build of the c10m benchmark runs to completion without a trap and
  verifies: over any allocator that keeps its contract for up to \<open>2 * active_conn\<close> live
  blocks of at most 4096 bytes, and frames of \<open>async_worker\<close> that fit the default fiber
  stack, it counts exactly \<open>reference\<close> finished workers, exits with 0, and has returned
  every block to the allocator.
\<close>

theorem asyncify_main_verifies:
  assumes "bench_env rt live mem_bytes sp" and "live a = {}"
  shows "\<exists>s'. async_wl (fiber_ops rt mem_bytes sp) (bench_init a) = Some (reference, s') \<and>
              main (fiber_ops rt mem_bytes sp) (bench_init a) = Some (0, s') \<and>
              live (allocator (mach s')) = {}"
proof -
  have R: "bench_env rt live mem_bytes sp \<and> bench_rel rt live mem_bytes sp (bench_init a) (\<lambda>_. Vacant)"
    using assms(1) bench_rel_init [of live a rt mem_bytes sp, OF assms(2)] by simp
  have ref: "total_conn + active_conn = reference"
    by (simp add: param_defs)
  obtain s' where "async_wl (fiber_ops rt mem_bytes sp) (bench_init a) = Some (reference, s')"
    and "bench_rel rt live mem_bytes sp s' (\<lambda>_. Vacant)"
    using fibers.async_wl_correct [OF R] by (auto simp: ref)
  then show ?thesis
    by (simp add: main_def verify_def bench_rel_def occupied_def)
qed

text \<open>
  An allocator with these properties: the live blocks are a list, and \<open>malloc\<close> takes the
  first free one of 20001 slots of 8192 bytes.
\<close>

definition slot_addresses :: "c_ptr list" where
  "slot_addresses = map (\<lambda>j. of_nat (8192 * Suc j)) [0..<20001]"

definition slot_runtime :: "c_ptr list runtime" where
  "slot_runtime = \<lparr>rt_malloc = (\<lambda>n a. case find (\<lambda>p. p \<notin> set a) slot_addresses of
         None \<Rightarrow> (NULL, a) | Some p \<Rightarrow> (p, p # a)),
     rt_free = removeAll, rt_frame_bytes = (\<lambda>_. 64)\<rparr>"

lemma unat_slot_address: "j < 20001 \<Longrightarrow> unat (of_nat (8192 * Suc j) :: c_ptr) = 8192 * Suc j"
  by (subst unat_of_nat) simp

lemma distinct_slot_addresses: "distinct slot_addresses"
proof -
  have "inj_on (\<lambda>j. of_nat (8192 * Suc j) :: c_ptr) (set [0..<20001])"
  proof (rule inj_onI)
    fix i j assume "i \<in> set [0..<20001]" "j \<in> set [0..<20001]"
      and eq: "(of_nat (8192 * Suc i) :: c_ptr) = of_nat (8192 * Suc j)"
    then have "i < 20001" "j < 20001"
      by auto
    with arg_cong [OF eq, of unat] have "8192 * Suc i = 8192 * Suc j"
      by (simp only: unat_slot_address)
    then show "i = j"
      by simp
  qed
  then show ?thesis
    unfolding slot_addresses_def distinct_map by simp
qed

lemma slot_allocator_laws: "allocator_laws slot_runtime set (2 * unat active_conn)"
proof -
  have malloc: "p \<noteq> NULL \<and> p \<notin> set a \<and> unat p + unat n < 2 ^ 32 \<and> set a' = insert p (set a)"
    if n: "n \<le> FIBER_DEFAULT_STACK_SIZE" and room: "card (set a) < 2 * unat active_conn"
      and m: "rt_malloc slot_runtime n a = (p, a')" for n a p a'
  proof -
    have "\<not> set slot_addresses \<subseteq> set a"
    proof
      assume "set slot_addresses \<subseteq> set a"
      then have "card (set slot_addresses) \<le> card (set a)"
        by (intro card_mono) auto
      then show False
        using room distinct_card [OF distinct_slot_addresses]
        by (simp add: slot_addresses_def active_conn_def)
    qed
    then obtain q where q: "find (\<lambda>p. p \<notin> set a) slot_addresses = Some q"
      using find_None_iff [of "\<lambda>p. p \<notin> set a" slot_addresses]
      by (cases "find (\<lambda>p. p \<notin> set a) slot_addresses") auto
    with m have p: "p = q" "a' = p # a"
      by (auto simp: slot_runtime_def)
    from q obtain i where "i < length slot_addresses" "q = slot_addresses ! i" "q \<notin> set a"
      by (auto simp: find_Some_iff)
    then have "i < 20001" "q = of_nat (8192 * Suc i)"
      by (auto simp: slot_addresses_def simp del: of_nat_Suc of_nat_mult)
    then have "unat q = 8192 * Suc i"
      using unat_slot_address by simp
    moreover have "unat n \<le> 4096"
      using n by (simp add: FIBER_DEFAULT_STACK_SIZE_def word_le_nat_alt)
    ultimately show ?thesis
      using p \<open>q \<notin> set a\<close> \<open>i < 20001\<close> by auto
  qed
  have free: "set (rt_free slot_runtime p a) = set a - {p}" for p a
    by (simp add: slot_runtime_def)
  show ?thesis
    unfolding allocator_laws_def free by (intro conjI allI impI refl; drule (2) malloc; simp)
qed

theorem asyncify_main_verifies_witness:
  "\<exists>s'. async_wl (fiber_ops slot_runtime 131072 66560) (bench_init []) = Some (reference, s') \<and>
        main (fiber_ops slot_runtime 131072 66560) (bench_init []) = Some (0, s') \<and>
        set (allocator (mach s')) = {}"
proof (rule asyncify_main_verifies)
  show "bench_env slot_runtime set 131072 66560"
    using slot_allocator_laws
    by (simp add: bench_env_def stack_fits_def FIBER_DEFAULT_STACK_SIZE_def slot_runtime_def)
qed simp

end
