(* ===== verification/Wasi_Host.thy ===== *)
theory Wasi_Host
  imports C_Prelude
begin

text \<open>
  The boundary between wasi-libc and its host: the functions imported from the module
  \<open>wasi_snapshot_preview1\<close> and the wrappers around them
  (\<open>tinygo/lib/wasi-libc/libc-bottom-half/sources/__wasilibc_real.c\<close>, data types of
  \<open>headers/public/wasi/api.h\<close>).

  The host is not part of the program: it is a parameter \<^term>\<open>E\<close> of every operation.  Its
  reply to a call may depend on the whole history of calls, which the state records in
  \<open>calls\<close>; a statement that holds for every \<^term>\<open>E\<close> holds for every behaviour of the host,
  and a statement on \<open>calls\<close> says which capabilities the library exercises.  The outcome of
  \<open>malloc\<close> is a parameter in the same way: it may fail at any request.
\<close>

named_theorems wasi_defs \<open>the wrappers of the host calls\<close>
named_theorems wasi_consts \<open>numeric constants of the WASI interface and of the libc headers\<close>

type_synonym errno_t = u16

section \<open>Data of the interface\<close>

record fdstat =
  fs_filetype :: u8
  fs_flags :: u16
  fs_rights_base :: u64
  fs_rights_inheriting :: u64

record filestat =
  fst_dev :: u64
  fst_ino :: u64
  fst_filetype :: u8
  fst_nlink :: u64
  fst_size :: u64
  fst_atim :: u64
  fst_mtim :: u64
  fst_ctim :: u64

record prestat =
  pr_tag :: u8
  pr_name_len :: size_t

record event =
  ev_userdata :: u64
  ev_error :: u16
  ev_type :: u8
  ev_nbytes :: u64
  ev_flags :: u16

datatype subscription_u =
    Sub_clock u32 u64 u64 u16
  | Sub_fd_read u32
  | Sub_fd_write u32

record subscription =
  sub_userdata :: u64
  sub_u :: subscription_u

section \<open>Calls, replies and the library's base state\<close>

text \<open>
  One constructor per imported function.  A path argument carries the string the wrapper
  passes with its \<open>strlen\<close>; a read buffer is its list of iovec lengths, a write buffer the
  list of the byte sequences the iovecs point to.
\<close>

datatype (plugins only: code) wasi_call =
    Call_args_get
  | Call_args_sizes_get
  | Call_environ_get
  | Call_environ_sizes_get
  | Call_clock_res_get u32
  | Call_clock_time_get u32 u64
  | Call_fd_advise u32 u64 u64 u8
  | Call_fd_allocate u32 u64 u64
  | Call_fd_close u32
  | Call_fd_datasync u32
  | Call_fd_fdstat_get u32
  | Call_fd_fdstat_set_flags u32 u16
  | Call_fd_fdstat_set_rights u32 u64 u64
  | Call_fd_filestat_get u32
  | Call_fd_filestat_set_size u32 u64
  | Call_fd_filestat_set_times u32 u64 u64 u16
  | Call_fd_pread u32 "size_t list" u64
  | Call_fd_prestat_get u32
  | Call_fd_prestat_dir_name u32 size_t
  | Call_fd_pwrite u32 "u8 list list" u64
  | Call_fd_read u32 "size_t list"
  | Call_fd_readdir u32 size_t u64
  | Call_fd_renumber u32 u32
  | Call_fd_seek u32 u64 u8
  | Call_fd_sync u32
  | Call_fd_tell u32
  | Call_fd_write u32 "u8 list list"
  | Call_path_create_directory u32 string
  | Call_path_filestat_get u32 u32 string
  | Call_path_filestat_set_times u32 u32 string u64 u64 u16
  | Call_path_link u32 u32 string u32 string
  | Call_path_open u32 u32 string u16 u64 u64 u16
  | Call_path_readlink u32 string size_t
  | Call_path_remove_directory u32 string
  | Call_path_rename u32 string u32 string
  | Call_path_symlink string u32 string
  | Call_path_unlink_file u32 string
  | Call_poll_oneoff "subscription list" size_t
  | Call_sched_yield
  | Call_random_get size_t
  | Call_sock_accept u32 u16
  | Call_sock_recv u32 "size_t list" u16
  | Call_sock_send u32 "u8 list list" u16
  | Call_sock_shutdown u32 u8

text \<open>
  What the host writes back: the \<open>int32_t\<close> status and the out-parameters.  Each wrapper
  reads the fields of its own out-parameters only.
\<close>

record wasi_reply =
  status :: u32
  size_out :: size_t
  size2_out :: size_t
  u64_out :: u64
  fd_out :: u32
  roflags_out :: u16
  bytes_out :: "u8 list"
  ptrs_out :: "size_t list"
  fdstat_out :: fdstat
  filestat_out :: filestat
  prestat_out :: prestat
  events_out :: "event list"

text \<open>
  A failed allocation request sets \<open>errno\<close> unless it is too large to be tried (\<open>malloc.c\<close>,
  \<open>MALLOC_FAILURE_ACTION\<close>).  The reply may depend on the number of the request.
\<close>

datatype alloc_reply = Allocated | Failed_ENOMEM | Failed_silently

record env =
  host :: "wasi_call list \<Rightarrow> wasi_call \<Rightarrow> wasi_reply"
  allocator :: "nat \<Rightarrow> size_t \<Rightarrow> alloc_reply"
  chdir_linked :: bool

record libc =
  errno :: c_int
  calls :: "wasi_call list"
  allocs :: nat

definition call_host :: "env \<Rightarrow> wasi_call \<Rightarrow> 'a libc_scheme \<Rightarrow> wasi_reply \<times> 'a libc_scheme" where
  "call_host E c s = (host E (calls s) c, s\<lparr>calls := calls s @ [c]\<rparr>)"

definition alloc :: "env \<Rightarrow> size_t \<Rightarrow> 'a libc_scheme \<Rightarrow> bool \<times> 'a libc_scheme" where
  "alloc E n s =
     (let s' = s\<lparr>allocs := Suc (allocs s)\<rparr>
      in case allocator E (allocs s) n of
           Allocated \<Rightarrow> (True, s')
         | Failed_ENOMEM \<Rightarrow> (False, s'\<lparr>errno := 48\<rparr>)
         | Failed_silently \<Rightarrow> (False, s'))"

text \<open>
  \<open>calloc\<close> multiplies its arguments and fails when the product does not fit \<open>size_t\<close>.
\<close>

definition calloc :: "env \<Rightarrow> size_t \<Rightarrow> size_t \<Rightarrow> 'a libc_scheme \<Rightarrow> bool \<times> 'a libc_scheme" where
  "calloc E m n s =
     (if unat m * unat n < 2 ^ 32 then alloc E (m * n) s else (False, s))"

lemma call_host_simps [simp]:
  "calls (snd (call_host E c s)) = calls s @ [c]"
  "errno (snd (call_host E c s)) = errno s"
  "allocs (snd (call_host E c s)) = allocs s"
  "fst (call_host E c s) = host E (calls s) c"
  by (simp_all add: call_host_def)

definition memory_available :: "env \<Rightarrow> bool" where
  "memory_available E \<longleftrightarrow> (\<forall>i n. allocator E i n = Allocated)"

lemma alloc_available:
  "memory_available E \<Longrightarrow> alloc E n s = (True, s\<lparr>allocs := Suc (allocs s)\<rparr>)"
  by (simp add: alloc_def memory_available_def)

lemma alloc_calls [simp]: "calls (snd (alloc E n s)) = calls s"
  by (simp add: alloc_def Let_def split: alloc_reply.split)

lemma alloc_result:
  obtains (ok) "alloc E n s = (True, s\<lparr>allocs := Suc (allocs s)\<rparr>)"
  | (fail) e where "alloc E n s = (False, s\<lparr>allocs := Suc (allocs s), errno := e\<rparr>)"
proof (cases "allocator E (allocs s) n")
  case Failed_silently
  then have "alloc E n s = (False, s\<lparr>allocs := Suc (allocs s), errno := errno s\<rparr>)"
    by (simp add: alloc_def)
  then show ?thesis
    by (rule fail)
qed (simp_all add: alloc_def ok fail)

text \<open>A request that the allocator refuses, and one among the next \<open>n\<close> requests.\<close>

definition refused :: "env \<Rightarrow> nat \<Rightarrow> bool" where
  "refused E a \<longleftrightarrow> (\<exists>sz. allocator E a sz \<noteq> Allocated)"

definition refused_in :: "env \<Rightarrow> nat \<Rightarrow> nat \<Rightarrow> bool" where
  "refused_in E a n \<longleftrightarrow> (\<exists>i. a \<le> i \<and> i < a + n \<and> refused E i)"

lemma refused_inI: "refused E i \<Longrightarrow> a \<le> i \<Longrightarrow> i < a + n \<Longrightarrow> refused_in E a n"
  by (auto simp: refused_in_def)

lemma refused_in_mono: "refused_in E b k \<Longrightarrow> a \<le> b \<Longrightarrow> b + k \<le> a + n \<Longrightarrow> refused_in E a n"
  unfolding refused_in_def by (meson le_trans less_le_trans)

lemma available_not_refused: "memory_available E \<Longrightarrow> \<not> refused_in E a n"
  by (simp add: memory_available_def refused_in_def refused_def)

lemma alloc_outcome:
  obtains (success) "alloc E sz s = (True, s\<lparr>allocs := Suc (allocs s)\<rparr>)"
  | (failed) err where "alloc E sz s = (False, s\<lparr>allocs := Suc (allocs s), errno := err\<rparr>)" "refused E (allocs s)"
proof (cases "allocator E (allocs s) sz")
  case Allocated
  then show thesis
    using success by (simp add: alloc_def)
next
  case Failed_ENOMEM
  moreover from this have "refused E (allocs s)"
    unfolding refused_def by (metis alloc_reply.distinct(1))
  ultimately show thesis
    using failed [of 48] by (simp add: alloc_def)
next
  case Failed_silently
  moreover from this have "refused E (allocs s)"
    unfolding refused_def by (metis alloc_reply.distinct(3))
  ultimately show thesis
    using failed [of "errno s"] by (simp add: alloc_def)
qed

text \<open>Termination of the process is a result of its own.\<close>

datatype 'a outcome = Returned 'a | Exited u32

section \<open>The wrappers\<close>

definition wasi_args_get ::
  "env \<Rightarrow> 'a libc_scheme \<Rightarrow> errno_t \<times> size_t list \<times> u8 list \<times> 'a libc_scheme" where
  [wasi_defs]: "wasi_args_get E s =
     (let (r, s) = call_host E Call_args_get s in (ucast (status r), ptrs_out r, bytes_out r, s))"

definition wasi_args_sizes_get ::
  "env \<Rightarrow> 'a libc_scheme \<Rightarrow> errno_t \<times> size_t \<times> size_t \<times> 'a libc_scheme" where
  [wasi_defs]: "wasi_args_sizes_get E s =
     (let (r, s) = call_host E Call_args_sizes_get s in (ucast (status r), size_out r, size2_out r, s))"

definition wasi_environ_get ::
  "env \<Rightarrow> 'a libc_scheme \<Rightarrow> errno_t \<times> size_t list \<times> u8 list \<times> 'a libc_scheme" where
  [wasi_defs]: "wasi_environ_get E s =
     (let (r, s) = call_host E Call_environ_get s in (ucast (status r), ptrs_out r, bytes_out r, s))"

definition wasi_environ_sizes_get ::
  "env \<Rightarrow> 'a libc_scheme \<Rightarrow> errno_t \<times> size_t \<times> size_t \<times> 'a libc_scheme" where
  [wasi_defs]: "wasi_environ_sizes_get E s =
     (let (r, s) = call_host E Call_environ_sizes_get s in (ucast (status r), size_out r, size2_out r, s))"

definition wasi_clock_res_get ::
  "env \<Rightarrow> u32 \<Rightarrow> 'a libc_scheme \<Rightarrow> errno_t \<times> u64 \<times> 'a libc_scheme" where
  [wasi_defs]: "wasi_clock_res_get E clk s =
     (let (r, s) = call_host E (Call_clock_res_get clk) s in (ucast (status r), u64_out r, s))"

definition wasi_clock_time_get ::
  "env \<Rightarrow> u32 \<Rightarrow> u64 \<Rightarrow> 'a libc_scheme \<Rightarrow> errno_t \<times> u64 \<times> 'a libc_scheme" where
  [wasi_defs]: "wasi_clock_time_get E clk precision s =
     (let (r, s) = call_host E (Call_clock_time_get clk precision) s in (ucast (status r), u64_out r, s))"

definition wasi_fd_advise ::
  "env \<Rightarrow> u32 \<Rightarrow> u64 \<Rightarrow> u64 \<Rightarrow> u8 \<Rightarrow> 'a libc_scheme \<Rightarrow> errno_t \<times> 'a libc_scheme" where
  [wasi_defs]: "wasi_fd_advise E fd offset len advice s =
     (let (r, s) = call_host E (Call_fd_advise fd offset len advice) s in (ucast (status r), s))"

definition wasi_fd_allocate ::
  "env \<Rightarrow> u32 \<Rightarrow> u64 \<Rightarrow> u64 \<Rightarrow> 'a libc_scheme \<Rightarrow> errno_t \<times> 'a libc_scheme" where
  [wasi_defs]: "wasi_fd_allocate E fd offset len s =
     (let (r, s) = call_host E (Call_fd_allocate fd offset len) s in (ucast (status r), s))"

definition wasi_fd_close ::
  "env \<Rightarrow> u32 \<Rightarrow> 'a libc_scheme \<Rightarrow> errno_t \<times> 'a libc_scheme" where
  [wasi_defs]: "wasi_fd_close E fd s =
     (let (r, s) = call_host E (Call_fd_close fd) s in (ucast (status r), s))"

definition wasi_fd_datasync ::
  "env \<Rightarrow> u32 \<Rightarrow> 'a libc_scheme \<Rightarrow> errno_t \<times> 'a libc_scheme" where
  [wasi_defs]: "wasi_fd_datasync E fd s =
     (let (r, s) = call_host E (Call_fd_datasync fd) s in (ucast (status r), s))"

definition wasi_fd_fdstat_get ::
  "env \<Rightarrow> u32 \<Rightarrow> 'a libc_scheme \<Rightarrow> errno_t \<times> fdstat \<times> 'a libc_scheme" where
  [wasi_defs]: "wasi_fd_fdstat_get E fd s =
     (let (r, s) = call_host E (Call_fd_fdstat_get fd) s in (ucast (status r), fdstat_out r, s))"

definition wasi_fd_fdstat_set_flags ::
  "env \<Rightarrow> u32 \<Rightarrow> u16 \<Rightarrow> 'a libc_scheme \<Rightarrow> errno_t \<times> 'a libc_scheme" where
  [wasi_defs]: "wasi_fd_fdstat_set_flags E fd flags s =
     (let (r, s) = call_host E (Call_fd_fdstat_set_flags fd flags) s in (ucast (status r), s))"

definition wasi_fd_fdstat_set_rights ::
  "env \<Rightarrow> u32 \<Rightarrow> u64 \<Rightarrow> u64 \<Rightarrow> 'a libc_scheme \<Rightarrow> errno_t \<times> 'a libc_scheme" where
  [wasi_defs]: "wasi_fd_fdstat_set_rights E fd rights_base rights_inheriting s =
     (let (r, s) = call_host E (Call_fd_fdstat_set_rights fd rights_base rights_inheriting) s in (ucast (status r), s))"

definition wasi_fd_filestat_get ::
  "env \<Rightarrow> u32 \<Rightarrow> 'a libc_scheme \<Rightarrow> errno_t \<times> filestat \<times> 'a libc_scheme" where
  [wasi_defs]: "wasi_fd_filestat_get E fd s =
     (let (r, s) = call_host E (Call_fd_filestat_get fd) s in (ucast (status r), filestat_out r, s))"

definition wasi_fd_filestat_set_size ::
  "env \<Rightarrow> u32 \<Rightarrow> u64 \<Rightarrow> 'a libc_scheme \<Rightarrow> errno_t \<times> 'a libc_scheme" where
  [wasi_defs]: "wasi_fd_filestat_set_size E fd sz s =
     (let (r, s) = call_host E (Call_fd_filestat_set_size fd sz) s in (ucast (status r), s))"

definition wasi_fd_filestat_set_times ::
  "env \<Rightarrow> u32 \<Rightarrow> u64 \<Rightarrow> u64 \<Rightarrow> u16 \<Rightarrow> 'a libc_scheme \<Rightarrow> errno_t \<times> 'a libc_scheme" where
  [wasi_defs]: "wasi_fd_filestat_set_times E fd atim mtim fst_flags s =
     (let (r, s) = call_host E (Call_fd_filestat_set_times fd atim mtim fst_flags) s in (ucast (status r), s))"

definition wasi_fd_pread ::
  "env \<Rightarrow> u32 \<Rightarrow> size_t list \<Rightarrow> u64 \<Rightarrow> 'a libc_scheme \<Rightarrow> errno_t \<times> size_t \<times> u8 list \<times> 'a libc_scheme" where
  [wasi_defs]: "wasi_fd_pread E fd iovs offset s =
     (let (r, s) = call_host E (Call_fd_pread fd iovs offset) s in (ucast (status r), size_out r, bytes_out r, s))"

definition wasi_fd_prestat_get ::
  "env \<Rightarrow> u32 \<Rightarrow> 'a libc_scheme \<Rightarrow> errno_t \<times> prestat \<times> 'a libc_scheme" where
  [wasi_defs]: "wasi_fd_prestat_get E fd s =
     (let (r, s) = call_host E (Call_fd_prestat_get fd) s in (ucast (status r), prestat_out r, s))"

definition wasi_fd_prestat_dir_name ::
  "env \<Rightarrow> u32 \<Rightarrow> size_t \<Rightarrow> 'a libc_scheme \<Rightarrow> errno_t \<times> u8 list \<times> 'a libc_scheme" where
  [wasi_defs]: "wasi_fd_prestat_dir_name E fd path_len s =
     (let (r, s) = call_host E (Call_fd_prestat_dir_name fd path_len) s in (ucast (status r), bytes_out r, s))"

definition wasi_fd_pwrite ::
  "env \<Rightarrow> u32 \<Rightarrow> u8 list list \<Rightarrow> u64 \<Rightarrow> 'a libc_scheme \<Rightarrow> errno_t \<times> size_t \<times> 'a libc_scheme" where
  [wasi_defs]: "wasi_fd_pwrite E fd iovs offset s =
     (let (r, s) = call_host E (Call_fd_pwrite fd iovs offset) s in (ucast (status r), size_out r, s))"

definition wasi_fd_read ::
  "env \<Rightarrow> u32 \<Rightarrow> size_t list \<Rightarrow> 'a libc_scheme \<Rightarrow> errno_t \<times> size_t \<times> u8 list \<times> 'a libc_scheme" where
  [wasi_defs]: "wasi_fd_read E fd iovs s =
     (let (r, s) = call_host E (Call_fd_read fd iovs) s in (ucast (status r), size_out r, bytes_out r, s))"

definition wasi_fd_readdir ::
  "env \<Rightarrow> u32 \<Rightarrow> size_t \<Rightarrow> u64 \<Rightarrow> 'a libc_scheme \<Rightarrow> errno_t \<times> size_t \<times> u8 list \<times> 'a libc_scheme" where
  [wasi_defs]: "wasi_fd_readdir E fd buf_len cookie s =
     (let (r, s) = call_host E (Call_fd_readdir fd buf_len cookie) s in (ucast (status r), size_out r, bytes_out r, s))"

definition wasi_fd_renumber ::
  "env \<Rightarrow> u32 \<Rightarrow> u32 \<Rightarrow> 'a libc_scheme \<Rightarrow> errno_t \<times> 'a libc_scheme" where
  [wasi_defs]: "wasi_fd_renumber E fd to_fd s =
     (let (r, s) = call_host E (Call_fd_renumber fd to_fd) s in (ucast (status r), s))"

definition wasi_fd_seek ::
  "env \<Rightarrow> u32 \<Rightarrow> u64 \<Rightarrow> u8 \<Rightarrow> 'a libc_scheme \<Rightarrow> errno_t \<times> u64 \<times> 'a libc_scheme" where
  [wasi_defs]: "wasi_fd_seek E fd offset whence s =
     (let (r, s) = call_host E (Call_fd_seek fd offset whence) s in (ucast (status r), u64_out r, s))"

definition wasi_fd_sync ::
  "env \<Rightarrow> u32 \<Rightarrow> 'a libc_scheme \<Rightarrow> errno_t \<times> 'a libc_scheme" where
  [wasi_defs]: "wasi_fd_sync E fd s =
     (let (r, s) = call_host E (Call_fd_sync fd) s in (ucast (status r), s))"

definition wasi_fd_tell ::
  "env \<Rightarrow> u32 \<Rightarrow> 'a libc_scheme \<Rightarrow> errno_t \<times> u64 \<times> 'a libc_scheme" where
  [wasi_defs]: "wasi_fd_tell E fd s =
     (let (r, s) = call_host E (Call_fd_tell fd) s in (ucast (status r), u64_out r, s))"

definition wasi_fd_write ::
  "env \<Rightarrow> u32 \<Rightarrow> u8 list list \<Rightarrow> 'a libc_scheme \<Rightarrow> errno_t \<times> size_t \<times> 'a libc_scheme" where
  [wasi_defs]: "wasi_fd_write E fd iovs s =
     (let (r, s) = call_host E (Call_fd_write fd iovs) s in (ucast (status r), size_out r, s))"

definition wasi_path_create_directory ::
  "env \<Rightarrow> u32 \<Rightarrow> string \<Rightarrow> 'a libc_scheme \<Rightarrow> errno_t \<times> 'a libc_scheme" where
  [wasi_defs]: "wasi_path_create_directory E fd path s =
     (let (r, s) = call_host E (Call_path_create_directory fd path) s in (ucast (status r), s))"

definition wasi_path_filestat_get ::
  "env \<Rightarrow> u32 \<Rightarrow> u32 \<Rightarrow> string \<Rightarrow> 'a libc_scheme \<Rightarrow> errno_t \<times> filestat \<times> 'a libc_scheme" where
  [wasi_defs]: "wasi_path_filestat_get E fd flags path s =
     (let (r, s) = call_host E (Call_path_filestat_get fd flags path) s in (ucast (status r), filestat_out r, s))"

definition wasi_path_filestat_set_times ::
  "env \<Rightarrow> u32 \<Rightarrow> u32 \<Rightarrow> string \<Rightarrow> u64 \<Rightarrow> u64 \<Rightarrow> u16 \<Rightarrow> 'a libc_scheme \<Rightarrow> errno_t \<times> 'a libc_scheme" where
  [wasi_defs]: "wasi_path_filestat_set_times E fd flags path atim mtim fst_flags s =
     (let (r, s) = call_host E (Call_path_filestat_set_times fd flags path atim mtim fst_flags) s in (ucast (status r), s))"

definition wasi_path_link ::
  "env \<Rightarrow> u32 \<Rightarrow> u32 \<Rightarrow> string \<Rightarrow> u32 \<Rightarrow> string \<Rightarrow> 'a libc_scheme \<Rightarrow> errno_t \<times> 'a libc_scheme" where
  [wasi_defs]: "wasi_path_link E old_fd old_flags old_path new_fd new_path s =
     (let (r, s) = call_host E (Call_path_link old_fd old_flags old_path new_fd new_path) s in (ucast (status r), s))"

definition wasi_path_open ::
  "env \<Rightarrow> u32 \<Rightarrow> u32 \<Rightarrow> string \<Rightarrow> u16 \<Rightarrow> u64 \<Rightarrow> u64 \<Rightarrow> u16 \<Rightarrow> 'a libc_scheme \<Rightarrow> errno_t \<times> u32 \<times> 'a libc_scheme" where
  [wasi_defs]: "wasi_path_open E fd dirflags path oflags rights_base rights_inheriting fdflags s =
     (let (r, s) = call_host E (Call_path_open fd dirflags path oflags rights_base rights_inheriting fdflags) s in (ucast (status r), fd_out r, s))"

definition wasi_path_readlink ::
  "env \<Rightarrow> u32 \<Rightarrow> string \<Rightarrow> size_t \<Rightarrow> 'a libc_scheme \<Rightarrow> errno_t \<times> size_t \<times> u8 list \<times> 'a libc_scheme" where
  [wasi_defs]: "wasi_path_readlink E fd path buf_len s =
     (let (r, s) = call_host E (Call_path_readlink fd path buf_len) s in (ucast (status r), size_out r, bytes_out r, s))"

definition wasi_path_remove_directory ::
  "env \<Rightarrow> u32 \<Rightarrow> string \<Rightarrow> 'a libc_scheme \<Rightarrow> errno_t \<times> 'a libc_scheme" where
  [wasi_defs]: "wasi_path_remove_directory E fd path s =
     (let (r, s) = call_host E (Call_path_remove_directory fd path) s in (ucast (status r), s))"

definition wasi_path_rename ::
  "env \<Rightarrow> u32 \<Rightarrow> string \<Rightarrow> u32 \<Rightarrow> string \<Rightarrow> 'a libc_scheme \<Rightarrow> errno_t \<times> 'a libc_scheme" where
  [wasi_defs]: "wasi_path_rename E fd old_path new_fd new_path s =
     (let (r, s) = call_host E (Call_path_rename fd old_path new_fd new_path) s in (ucast (status r), s))"

definition wasi_path_symlink ::
  "env \<Rightarrow> string \<Rightarrow> u32 \<Rightarrow> string \<Rightarrow> 'a libc_scheme \<Rightarrow> errno_t \<times> 'a libc_scheme" where
  [wasi_defs]: "wasi_path_symlink E old_path fd new_path s =
     (let (r, s) = call_host E (Call_path_symlink old_path fd new_path) s in (ucast (status r), s))"

definition wasi_path_unlink_file ::
  "env \<Rightarrow> u32 \<Rightarrow> string \<Rightarrow> 'a libc_scheme \<Rightarrow> errno_t \<times> 'a libc_scheme" where
  [wasi_defs]: "wasi_path_unlink_file E fd path s =
     (let (r, s) = call_host E (Call_path_unlink_file fd path) s in (ucast (status r), s))"

definition wasi_poll_oneoff ::
  "env \<Rightarrow> subscription list \<Rightarrow> size_t \<Rightarrow> 'a libc_scheme \<Rightarrow> errno_t \<times> event list \<times> size_t \<times> 'a libc_scheme" where
  [wasi_defs]: "wasi_poll_oneoff E subs nsubscriptions s =
     (let (r, s) = call_host E (Call_poll_oneoff subs nsubscriptions) s in (ucast (status r), events_out r, size_out r, s))"

definition wasi_sched_yield ::
  "env \<Rightarrow> 'a libc_scheme \<Rightarrow> errno_t \<times> 'a libc_scheme" where
  [wasi_defs]: "wasi_sched_yield E s =
     (let (r, s) = call_host E Call_sched_yield s in (ucast (status r), s))"

definition wasi_random_get ::
  "env \<Rightarrow> size_t \<Rightarrow> 'a libc_scheme \<Rightarrow> errno_t \<times> u8 list \<times> 'a libc_scheme" where
  [wasi_defs]: "wasi_random_get E buf_len s =
     (let (r, s) = call_host E (Call_random_get buf_len) s in (ucast (status r), bytes_out r, s))"

definition wasi_sock_accept ::
  "env \<Rightarrow> u32 \<Rightarrow> u16 \<Rightarrow> 'a libc_scheme \<Rightarrow> errno_t \<times> u32 \<times> 'a libc_scheme" where
  [wasi_defs]: "wasi_sock_accept E fd flags s =
     (let (r, s) = call_host E (Call_sock_accept fd flags) s in (ucast (status r), fd_out r, s))"

definition wasi_sock_recv ::
  "env \<Rightarrow> u32 \<Rightarrow> size_t list \<Rightarrow> u16 \<Rightarrow> 'a libc_scheme \<Rightarrow> errno_t \<times> size_t \<times> u8 list \<times> u16 \<times> 'a libc_scheme" where
  [wasi_defs]: "wasi_sock_recv E fd ri_data ri_flags s =
     (let (r, s) = call_host E (Call_sock_recv fd ri_data ri_flags) s in (ucast (status r), size_out r, bytes_out r, roflags_out r, s))"

definition wasi_sock_send ::
  "env \<Rightarrow> u32 \<Rightarrow> u8 list list \<Rightarrow> u16 \<Rightarrow> 'a libc_scheme \<Rightarrow> errno_t \<times> size_t \<times> 'a libc_scheme" where
  [wasi_defs]: "wasi_sock_send E fd si_data si_flags s =
     (let (r, s) = call_host E (Call_sock_send fd si_data si_flags) s in (ucast (status r), size_out r, s))"

definition wasi_sock_shutdown ::
  "env \<Rightarrow> u32 \<Rightarrow> u8 \<Rightarrow> 'a libc_scheme \<Rightarrow> errno_t \<times> 'a libc_scheme" where
  [wasi_defs]: "wasi_sock_shutdown E fd how s =
     (let (r, s) = call_host E (Call_sock_shutdown fd how) s in (ucast (status r), s))"

text \<open>\<open>proc_exit\<close> does not return.\<close>

definition wasi_proc_exit :: "u32 \<Rightarrow> 'b outcome" where
  "wasi_proc_exit rval = Exited rval"

section \<open>Constants\<close>

text \<open>Error numbers: \<open>__WASI_ERRNO_*\<close>, which the libc headers reuse as \<open>E*\<close>.\<close>

abbreviation (input) EACCES :: "'a::len word" where "EACCES \<equiv> 2"
abbreviation (input) EAFNOSUPPORT :: "'a::len word" where "EAFNOSUPPORT \<equiv> 5"
abbreviation (input) EAGAIN :: "'a::len word" where "EAGAIN \<equiv> 6"
abbreviation (input) EBADF :: "'a::len word" where "EBADF \<equiv> 8"
abbreviation (input) EDESTADDRREQ :: "'a::len word" where "EDESTADDRREQ \<equiv> 17"
abbreviation (input) EEXIST :: "'a::len word" where "EEXIST \<equiv> 20"
abbreviation (input) EFAULT :: "'a::len word" where "EFAULT \<equiv> 21"
abbreviation (input) EINTR :: "'a::len word" where "EINTR \<equiv> 27"
abbreviation (input) EINVAL :: "'a::len word" where "EINVAL \<equiv> 28"
abbreviation (input) EIO :: "'a::len word" where "EIO \<equiv> 29"
abbreviation (input) EISDIR :: "'a::len word" where "EISDIR \<equiv> 31"
abbreviation (input) ENAMETOOLONG :: "'a::len word" where "ENAMETOOLONG \<equiv> 37"
abbreviation (input) ENOENT :: "'a::len word" where "ENOENT \<equiv> 44"
abbreviation (input) ENOMEM :: "'a::len word" where "ENOMEM \<equiv> 48"
abbreviation (input) ENOPROTOOPT :: "'a::len word" where "ENOPROTOOPT \<equiv> 50"
abbreviation (input) ENOSYS :: "'a::len word" where "ENOSYS \<equiv> 52"
abbreviation (input) ENOTCONN :: "'a::len word" where "ENOTCONN \<equiv> 53"
abbreviation (input) ENOTDIR :: "'a::len word" where "ENOTDIR \<equiv> 54"
abbreviation (input) ENOTSOCK :: "'a::len word" where "ENOTSOCK \<equiv> 57"
abbreviation (input) ENOTSUP :: "'a::len word" where "ENOTSUP \<equiv> 58"
abbreviation (input) ENOTTY :: "'a::len word" where "ENOTTY \<equiv> 59"
abbreviation (input) EOVERFLOW :: "'a::len word" where "EOVERFLOW \<equiv> 61"
abbreviation (input) EPIPE :: "'a::len word" where "EPIPE \<equiv> 64"
abbreviation (input) ERANGE :: "'a::len word" where "ERANGE \<equiv> 68"
abbreviation (input) ESPIPE :: "'a::len word" where "ESPIPE \<equiv> 70"
abbreviation (input) ENOTCAPABLE :: "'a::len word" where "ENOTCAPABLE \<equiv> 76"

text \<open>
  The common epilogue of the system-call wrappers: a nonzero WASI error becomes \<open>errno\<close> and
  the result \<open>-1\<close>.
\<close>

definition fail :: "'b::len word \<Rightarrow> 'a libc_scheme \<Rightarrow> c_int \<times> 'a libc_scheme" where
  "fail e s = (-1, s\<lparr>errno := ucast e\<rparr>)"

definition check_error :: "errno_t \<Rightarrow> 'a libc_scheme \<Rightarrow> c_int \<times> 'a libc_scheme" where
  "check_error error s = (if error \<noteq> 0 then fail error s else (0, s))"

text \<open>Exit codes of \<open>sysexits.h\<close>.\<close>

definition EX_SOFTWARE :: u32 where "EX_SOFTWARE = 70"
definition EX_OSERR :: u32 where "EX_OSERR = 71"

end
