(* ===== verification/Preopens.thy ===== *)
theory Preopens
  imports Wasi_Host
begin

text \<open>
  The table of preopened directories (\<open>libc-bottom-half/sources/preopens.c\<close>): registration
  into a growable array, prefix matching, the search for the directory that anchors an
  absolute path, and the constructor that fills the table from the host.

  A C string is the list of its characters before the terminator; reading at the length
  gives the terminator.  Lengths of strings are naturals (they are bounded by the memory),
  the capacity of the array is a \<open>size_t\<close> with its wrap-around.  \<^const>\<open>None\<close> is a write
  outside an object or a read of uninitialised memory.
\<close>

section \<open>Strings\<close>

definition char_at :: "string \<Rightarrow> nat \<Rightarrow> char" where
  "char_at p i = (if i < length p then p ! i else CHR 0x00)"

definition c_string :: "u8 list \<Rightarrow> string" where
  "c_string bs = takeWhile (\<lambda>c. c \<noteq> CHR 0x00) (map (\<lambda>b. char_of (unat b)) bs)"

abbreviation is_slash :: "char \<Rightarrow> bool" where
  "is_slash c \<equiv> c = CHR ''/''"

section \<open>The table\<close>

record preopen =
  po_prefix :: string
  po_fd :: u32

record preopen_libc = libc +
  preopens :: "preopen list"
  preopen_capacity :: size_t

definition sizeof_preopen :: size_t where
  "sizeof_preopen = 8"

definition assert_invariants :: "'a preopen_libc_scheme \<Rightarrow> bool" where
  "assert_invariants s \<longleftrightarrow>
     length (preopens s) \<le> unat (preopen_capacity s) \<and>
     (preopen_capacity s = 0 \<or>
        preopen_capacity s < preopen_capacity s * sizeof_preopen) \<and>
     (\<forall>pre \<in> set (preopens s). po_fd pre \<noteq> -1)"

definition resize :: "env \<Rightarrow> 'a preopen_libc_scheme \<Rightarrow> (c_int \<times> 'a preopen_libc_scheme) option" where
  "resize E s =
     (let start_capacity = 4;
          old_capacity = preopen_capacity s;
          new_capacity = (if old_capacity = 0 then start_capacity else old_capacity * 2);
          (ok, s) = calloc E sizeof_preopen new_capacity s
      in if \<not> ok then Some (-1, s)
         else if unat new_capacity < length (preopens s) then None
         else Some (0, s\<lparr>preopen_capacity := new_capacity\<rparr>))"

fun strip_prefixes :: "string \<Rightarrow> string" where
  "strip_prefixes [] = []"
| "strip_prefixes [c] = (if c = CHR ''/'' \<or> c = CHR ''.'' then [] else [c])"
| "strip_prefixes (c # d # cs) =
     (if c = CHR ''/'' then strip_prefixes (d # cs)
      else if c = CHR ''.'' \<and> d = CHR ''/'' then strip_prefixes cs
      else c # d # cs)"

definition internal_register_preopened_fd ::
  "env \<Rightarrow> u32 \<Rightarrow> string \<Rightarrow> 'a preopen_libc_scheme \<Rightarrow> (c_int \<times> 'a preopen_libc_scheme) option" where
  "internal_register_preopened_fd E fd relprefix s = do {
     (r, s) \<leftarrow> (if of_nat (length (preopens s)) = preopen_capacity s
               then resize E s else Some (0, s));
     if r \<noteq> 0 then Some (-1, s)
     else let prefix = strip_prefixes relprefix;
              (ok, s) = alloc E (of_nat (length prefix) + 1) s
          in if \<not> ok then Some (-1, s)
             else if unat (preopen_capacity s) \<le> length (preopens s) then None
             else Some (0, s\<lparr>preopens := preopens s @ [\<lparr>po_prefix = prefix, po_fd = fd\<rparr>]\<rparr>) }"

definition register_preopened_fd ::
  "env \<Rightarrow> c_int \<Rightarrow> string \<Rightarrow> 'a preopen_libc_scheme \<Rightarrow> (c_int \<times> 'a preopen_libc_scheme) option" where
  "register_preopened_fd E fd prefix s = internal_register_preopened_fd E fd prefix s"

section \<open>Matching and searching\<close>

primrec trim_slashes :: "string \<Rightarrow> nat \<Rightarrow> nat" where
  "trim_slashes prefix 0 = 0"
| "trim_slashes prefix (Suc i) =
     (if is_slash (prefix ! i) then trim_slashes prefix i else Suc i)"

definition prefix_matches :: "string \<Rightarrow> nat \<Rightarrow> string \<Rightarrow> bool" where
  "prefix_matches prefix prefix_len path =
     (if \<not> is_slash (char_at path 0) \<and> prefix_len = 0 then True
      else if take prefix_len path \<noteq> take prefix_len prefix then False
      else let last = char_at path (trim_slashes prefix prefix_len)
           in is_slash last \<or> last = CHR 0x00)"

primrec abspath_scan ::
  "preopen list \<Rightarrow> string \<Rightarrow> c_int \<Rightarrow> nat \<Rightarrow> string \<Rightarrow> c_int \<times> nat \<times> string" where
  "abspath_scan [] path fd match_len abs_prefix = (fd, match_len, abs_prefix)"
| "abspath_scan (pre # pres) path fd match_len abs_prefix =
     (let prefix = po_prefix pre; len = length prefix
      in if (fd = -1 \<or> match_len < len) \<and> prefix_matches prefix len path
         then abspath_scan pres path (po_fd pre) len prefix
         else abspath_scan pres path fd match_len abs_prefix)"

text \<open>The result is the descriptor with the two out-parameters, which are set on success.\<close>

definition find_abspath ::
  "string \<Rightarrow> 'a preopen_libc_scheme \<Rightarrow> (c_int \<times> string \<times> string) \<times> 'a preopen_libc_scheme" where
  "find_abspath path s =
     (let path = dropWhile is_slash path;
          (fd, match_len, abs_prefix) = abspath_scan (rev (preopens s)) path (-1) 0 []
      in if fd = -1 then ((-1, [], []), s\<lparr>errno := ENOENT\<rparr>)
         else let computed = dropWhile is_slash (drop match_len path);
                  computed = (if computed = [] then ''.'' else computed)
              in ((fd, abs_prefix, computed), s))"

section \<open>Filling the table from the host\<close>

text \<open>
  One turn of the loop of \<open>__wasilibc_populate_preopens\<close> for a directory: the buffer of
  \<open>pr_name_len + 1\<close> bytes has to be filled by the host.
\<close>

definition populate_dir ::
  "env \<Rightarrow> u32 \<Rightarrow> size_t \<Rightarrow> 'a preopen_libc_scheme \<Rightarrow> 'a preopen_libc_scheme outcome option" where
  "populate_dir E fd name_len s =
     (let (ok, s) = alloc E (name_len + 1) s
      in if \<not> ok then Some (Exited EX_SOFTWARE)
         else let (ret, bytes, s) = wasi_fd_prestat_dir_name E fd name_len s
              in if ret \<noteq> 0 then Some (Exited EX_OSERR)
                 else if name_len = -1 \<or> length bytes \<noteq> unat name_len then None
                 else do { (r, s) \<leftarrow> internal_register_preopened_fd E fd (c_string bytes) s;
                           Some (if r \<noteq> 0 then Exited EX_SOFTWARE else Returned s) })"

function populate_loop ::
  "env \<Rightarrow> u32 \<Rightarrow> 'a preopen_libc_scheme \<Rightarrow> 'a preopen_libc_scheme outcome option" where
  "populate_loop E fd s =
     (if fd = 0 then Some (Returned s)
      else let (ret, prestat, s) = wasi_fd_prestat_get E fd s
           in if ret = EBADF then Some (Returned s)
              else if ret \<noteq> 0 then Some (Exited EX_OSERR)
              else if pr_tag prestat = 0
              then (case populate_dir E fd (pr_name_len prestat) s of
                      Some (Returned s) \<Rightarrow> populate_loop E (fd + 1) s
                    | r \<Rightarrow> r)
              else populate_loop E (fd + 1) s)"
  by pat_completeness auto
termination
  by (relation "measure (\<lambda>(_, fd, _). unat (- fd))") (auto simp: unat_minus_succ)

declare populate_loop.simps [simp del]

definition populate_preopens ::
  "env \<Rightarrow> 'a preopen_libc_scheme \<Rightarrow> 'a preopen_libc_scheme outcome option" where
  "populate_preopens E s = populate_loop E 3 s"


section \<open>Registration keeps the invariant\<close>

lemma doubled_capacity:
  fixes c :: size_t
  assumes "c \<noteq> 0" and "c < c * sizeof_preopen"
    and "unat sizeof_preopen * unat (c * 2) < 2 ^ 32"
  shows "unat c < unat (c * 2)" and "c * 2 < c * 2 * sizeof_preopen"
proof -
  let ?n = "unat c"
  have n: "?n \<noteq> 0" "?n < 2 ^ 32"
    using assms(1) unsigned_less [of c] by (auto simp: unat_eq_0)
  have d: "unat (c * 2) = (?n * 2) mod 4294967296"
    by (simp add: unat_word_ariths)
  have e: "?n < (?n * 8) mod 4294967296"
    using assms(2) by (simp add: word_less_nat_alt sizeof_preopen_def unat_word_ariths)
  have f: "8 * ((?n * 2) mod 4294967296) < 4294967296"
    using assms(3) by (simp add: sizeof_preopen_def d)
  have "?n < (?n * 2) mod 4294967296"
  proof (cases "?n < 2147483648")
    case True
    then have "(?n * 2) mod 4294967296 = ?n * 2"
      by (intro mod_less) linarith
    then show ?thesis
      using n by linarith
  next
    case False
    then have twice: "(?n * 2) mod 4294967296 = ?n * 2 - 4294967296"
      using n by (intro mod_nat_eqI) simp_all
    have "(?n * 8) mod 4294967296 = ?n * 8 - 4 * 4294967296"
      using False f twice by (intro mod_nat_eqI) simp_all
    with e f twice False show ?thesis
      by simp
  qed
  then show *: "unat c < unat (c * 2)"
    by (simp only: d)
  have "unat (c * 2 * 8) = unat (c * 2) * 8"
    using assms(3) by (subst unat_mult_lem [THEN iffD1]) (simp_all add: sizeof_preopen_def)
  with * show "c * 2 < c * 2 * sizeof_preopen"
    by (simp add: word_less_nat_alt sizeof_preopen_def)
qed

lemma resize_safe:
  assumes inv: "assert_invariants s"
    and full: "of_nat (length (preopens s)) = preopen_capacity s"
  shows "\<exists>r s'. resize E s = Some (r, s') \<and> assert_invariants s' \<and>
           preopens s' = preopens s \<and> calls s' = calls s \<and>
           (r = 0 \<longrightarrow> length (preopens s') < unat (preopen_capacity s')) \<and>
           allocs s \<le> allocs s' \<and> allocs s' \<le> Suc (allocs s) \<and>
           (r = 0 \<or> r = -1 \<and> (refused E (allocs s) \<or> 2 ^ 28 \<le> length (preopens s)))"
proof -
  let ?c = "preopen_capacity s"
  have len: "length (preopens s) = unat ?c"
  proof -
    have "length (preopens s) < 2 ^ 32"
      using inv unsigned_less [of ?c, where ?'a = nat] by (simp add: assert_invariants_def)
    then show ?thesis
      unfolding full [symmetric] by (simp add: unat_of_nat)
  qed
  let ?new = "if ?c = 0 then 4 else ?c * 2"
  show ?thesis
  proof (cases "unat sizeof_preopen * unat ?new < 2 ^ 32")
    case True
    have grows: "unat ?c < unat ?new \<and> ?new < ?new * sizeof_preopen"
    proof (cases "?c = 0")
      case False
      then show ?thesis
        using doubled_capacity [of ?c] True inv by (simp add: assert_invariants_def)
    qed (simp add: sizeof_preopen_def)
    show ?thesis
      by (rule alloc_outcome [of E "sizeof_preopen * ?new" s])
         (use inv True grows len in
           \<open>auto simp: resize_def calloc_def assert_invariants_def Let_def\<close>)
  next
    case False
    have "unat ?new \<le> 2 * unat ?c" if "?c \<noteq> 0"
      using that by (simp add: unat_word_ariths)
    then have "2 ^ 28 \<le> length (preopens s)"
      using False len by (cases "?c = 0") (simp_all add: sizeof_preopen_def)
    then show ?thesis
      using False inv by (auto simp: resize_def calloc_def assert_invariants_def Let_def)
  qed
qed


lemma internal_register_safe:
  assumes "assert_invariants s" and "fd \<noteq> -1"
  shows "\<exists>r s'. internal_register_preopened_fd E fd prefix s = Some (r, s') \<and>
           assert_invariants s' \<and> allocs s' \<le> allocs s + 2 \<and> allocs s \<le> allocs s' \<and>
           (r = 0 \<and> preopens s' =
                preopens s @ [\<lparr>po_prefix = strip_prefixes prefix, po_fd = fd\<rparr>] \<or>
            r = -1 \<and> preopens s' = preopens s \<and>
              (refused_in E (allocs s) 2 \<or> 2 ^ 28 \<le> length (preopens s)))"
proof -
  let ?room = "if of_nat (length (preopens s)) = preopen_capacity s
               then resize E s else Some (0, s)"
  obtain r s1 where room: "?room = Some (r, s1)" and inv: "assert_invariants s1"
    and same: "preopens s1 = preopens s" and count: "allocs s \<le> allocs s1" "allocs s1 \<le> Suc (allocs s)"
    and r: "r = 0 \<or> r = -1 \<and> (refused E (allocs s) \<or> 2 ^ 28 \<le> length (preopens s))"
    and fits: "r = 0 \<Longrightarrow> length (preopens s1) < unat (preopen_capacity s1)"
  proof (cases "of_nat (length (preopens s)) = preopen_capacity s")
    case True
    then show ?thesis
      using resize_safe [OF assms(1) True, of E] that by auto
  next
    case False
    then have "length (preopens s) \<noteq> unat (preopen_capacity s)"
      by auto
    then show ?thesis
      using False assms(1) that [of 0 s] by (simp add: assert_invariants_def)
  qed
  show ?thesis
  proof (cases "r = 0")
    case True
    have "refused_in E (allocs s) 2" if "refused E (allocs s1)"
      using count by (intro refused_inI [OF that]) linarith+
    then show ?thesis
      by (rule_tac alloc_outcome [of E "of_nat (length (strip_prefixes prefix)) + 1" s1])
         (use True room inv same fits count assms(2) in
           \<open>auto simp: internal_register_preopened_fd_def assert_invariants_def Let_def\<close>)
  next
    case False
    moreover have "refused_in E (allocs s) 2" if "refused E (allocs s)"
      by (intro refused_inI [OF that]) linarith+
    ultimately show ?thesis
      using room inv same r count by (auto simp: internal_register_preopened_fd_def)
  qed
qed

text \<open>A normalised prefix never starts with a slash.\<close>

lemma strip_prefixes_relative: "strip_prefixes p \<noteq> [] \<Longrightarrow> \<not> is_slash (hd (strip_prefixes p))"
  by (induction p rule: strip_prefixes.induct) (auto split: if_splits)

text \<open>
  Registering a directory keeps the assertions the source states of its table, never
  writes outside it, and either appends exactly the normalised prefix (which has no leading
  slash) with its descriptor or fails and leaves the entries as they were.
\<close>

theorem register_preserves_invariants:
  assumes "assert_invariants s" and "fd \<noteq> -1"
  shows "\<exists>r s'. register_preopened_fd E fd prefix s = Some (r, s') \<and> assert_invariants s' \<and>
           (r = 0 \<and> (\<exists>p. preopens s' = preopens s @ [\<lparr>po_prefix = p, po_fd = fd\<rparr>] \<and>
                        p = strip_prefixes prefix \<and> (p = [] \<or> \<not> is_slash (hd p))) \<or>
            r = -1 \<and> preopens s' = preopens s)"
  using internal_register_safe [OF assms, of E prefix] strip_prefixes_relative [of prefix]
  by (auto simp: register_preopened_fd_def)

section \<open>The search finds the longest matching directory\<close>

text \<open>
  A prefix anchors a path when it is a sequence of complete leading components of the path
  (or, ending in a slash itself, of its leading text).
\<close>

definition anchors :: "string \<Rightarrow> string \<Rightarrow> bool" where
  "anchors prefix path \<longleftrightarrow>
     prefix = [] \<or>
     (\<exists>rest. path = prefix @ rest \<and>
        (is_slash (last prefix) \<or> rest = [] \<or> is_slash (hd rest)))"

lemma trim_slashes_le: "trim_slashes prefix n \<le> n"
  by (induction n) (auto intro: le_SucI)

lemma trim_slashes_slash:
  "trim_slashes prefix n < n \<Longrightarrow> is_slash (prefix ! trim_slashes prefix n)"
  by (induction n) (auto simp: less_Suc_eq split: if_splits)

lemma trim_slashes_eq:
  "prefix \<noteq> [] \<Longrightarrow> trim_slashes prefix (length prefix) = length prefix \<longleftrightarrow> \<not> is_slash (last prefix)"
proof (cases prefix rule: rev_cases)
  case (snoc ys y)
  then show ?thesis
    using trim_slashes_le [of prefix "length ys"] by auto
qed simp

lemma prefix_matches_anchors:
  assumes "CHR 0x00 \<notin> set path" and "\<not> is_slash (char_at path 0)"
  shows "prefix_matches prefix (length prefix) path \<longleftrightarrow> anchors prefix path"
proof (cases "prefix = []")
  case True
  then show ?thesis
    using assms by (simp add: prefix_matches_def anchors_def)
next
  case False
  show ?thesis
  proof (cases "take (length prefix) path = prefix")
    case True
    define rest where "rest = drop (length prefix) path"
    have path: "path = prefix @ rest"
      using True by (metis append_take_drop_id rest_def)
    show ?thesis
    proof (cases "is_slash (last prefix)")
      case True
      then have "trim_slashes prefix (length prefix) < length prefix"
        using trim_slashes_eq [OF False] trim_slashes_le [of prefix "length prefix"] by linarith
      with trim_slashes_slash [OF this] show ?thesis
        using False True path
        by (auto simp: prefix_matches_def anchors_def char_at_def nth_append)
    next
      case notslash: False
      have "char_at path (length prefix) = (case rest of [] \<Rightarrow> CHR 0x00 | c # _ \<Rightarrow> c)"
        by (simp add: path char_at_def nth_append split: list.split)
      moreover have "\<forall>c \<in> set rest. c \<noteq> CHR 0x00"
        using assms(1) path by auto
      ultimately show ?thesis
        using False notslash path trim_slashes_eq [OF False]
        by (auto simp: prefix_matches_def anchors_def split: list.splits)
    qed
  next
    case nomatch: False
    then show ?thesis
      using False by (auto simp: prefix_matches_def anchors_def)
  qed
qed

text \<open>
  The scan from a state \<open>(fd, match_len, abs_prefix)\<close> returns the first of the longest
  matching entries, or the state itself when no entry improves it.
\<close>

abbreviation matching :: "string \<Rightarrow> preopen \<Rightarrow> bool" where
  "matching path pre \<equiv> prefix_matches (po_prefix pre) (length (po_prefix pre)) path"

definition best_at :: "preopen list \<Rightarrow> string \<Rightarrow> nat \<Rightarrow> bool" where
  "best_at pres path i \<longleftrightarrow>
     i < length pres \<and> matching path (pres ! i) \<and>
     (\<forall>j < length pres. matching path (pres ! j) \<longrightarrow>
        length (po_prefix (pres ! j)) \<le> length (po_prefix (pres ! i)) \<and>
        (j < i \<longrightarrow> length (po_prefix (pres ! j)) < length (po_prefix (pres ! i))))"

lemma best_at_Cons_Suc:
  assumes "best_at pres path i"
    and "matching path pre \<Longrightarrow> length (po_prefix pre) < length (po_prefix (pres ! i))"
  shows "best_at (pre # pres) path (Suc i)"
  using assms by (auto simp: best_at_def nth_Cons split: nat.splits)

lemma best_at_Cons_0:
  assumes "matching path pre"
    and "\<forall>p \<in> set pres. matching path p \<longrightarrow> length (po_prefix p) \<le> length (po_prefix pre)"
  shows "best_at (pre # pres) path 0"
  using assms by (auto simp: best_at_def nth_Cons split: nat.splits)

lemma abspath_scan_best:
  assumes "\<forall>pre \<in> set pres. po_fd pre \<noteq> -1"
  shows "(fd = -1 \<longrightarrow> (\<forall>pre \<in> set pres. \<not> matching path pre)) \<and>
         (fd \<noteq> -1 \<longrightarrow> (\<forall>pre \<in> set pres. matching path pre \<longrightarrow> length (po_prefix pre) \<le> len)) \<and>
         abspath_scan pres path fd len ap = (fd, len, ap) \<or>
         (\<exists>i. best_at pres path i \<and> (fd \<noteq> -1 \<longrightarrow> len < length (po_prefix (pres ! i))) \<and>
            abspath_scan pres path fd len ap =
              (po_fd (pres ! i), length (po_prefix (pres ! i)), po_prefix (pres ! i)))"
  using assms
proof (induction pres arbitrary: fd len ap)
  case (Cons pre pres)
  let ?better = "(fd = -1 \<or> len < length (po_prefix pre)) \<and> matching path pre"
  have fds: "\<forall>pre \<in> set pres. po_fd pre \<noteq> -1" and fd: "po_fd pre \<noteq> -1"
    using Cons.prems by auto
  show ?case
  proof (cases ?better)
    case True
    then have step: "abspath_scan (pre # pres) path fd len ap =
        abspath_scan pres path (po_fd pre) (length (po_prefix pre)) (po_prefix pre)"
      by (simp add: Let_def)
    from Cons.IH [OF fds, of "po_fd pre" "length (po_prefix pre)" "po_prefix pre"] fd
    consider (keep) "\<forall>p \<in> set pres. matching path p \<longrightarrow> length (po_prefix p) \<le> length (po_prefix pre)"
        "abspath_scan pres path (po_fd pre) (length (po_prefix pre)) (po_prefix pre) =
           (po_fd pre, length (po_prefix pre), po_prefix pre)"
      | (later) i where "best_at pres path i"
          "length (po_prefix pre) < length (po_prefix (pres ! i))"
          "abspath_scan pres path (po_fd pre) (length (po_prefix pre)) (po_prefix pre) =
             (po_fd (pres ! i), length (po_prefix (pres ! i)), po_prefix (pres ! i))"
      by blast
    then show ?thesis
    proof cases
      case keep
      then show ?thesis
        using True step by (intro disjI2 exI [of _ 0]) (auto simp: best_at_Cons_0)
    next
      case later
      then show ?thesis
        using True step
        by (intro disjI2 exI [of _ "Suc i"]) (auto intro: best_at_Cons_Suc)
    qed
  next
    case False
    then have step: "abspath_scan (pre # pres) path fd len ap = abspath_scan pres path fd len ap"
      by (auto simp: Let_def)
    from Cons.IH [OF fds, of fd len ap] show ?thesis
    proof (elim disjE exE conjE)
      fix i
      assume "best_at pres path i" "fd \<noteq> -1 \<longrightarrow> len < length (po_prefix (pres ! i))"
        "abspath_scan pres path fd len ap =
           (po_fd (pres ! i), length (po_prefix (pres ! i)), po_prefix (pres ! i))"
      then show ?thesis
        using False step
        by (intro disjI2 exI [of _ "Suc i"]) (auto intro!: best_at_Cons_Suc)
    qed (use False step in auto)
  qed
qed simp

lemma best_at_rev:
  assumes "best_at (rev pres) path i"
  shows "\<exists>k < length pres. rev pres ! i = pres ! k \<and> matching path (pres ! k) \<and>
           (\<forall>j < length pres. matching path (pres ! j) \<longrightarrow>
              length (po_prefix (pres ! j)) \<le> length (po_prefix (pres ! k)) \<and>
              (k < j \<longrightarrow> length (po_prefix (pres ! j)) < length (po_prefix (pres ! k))))"
proof (intro exI [of _ "length pres - Suc i"] conjI allI impI)
  have i: "i < length pres"
    using assms by (simp add: best_at_def)
  then show "length pres - Suc i < length pres"
    by simp
  show eq: "rev pres ! i = pres ! (length pres - Suc i)"
    using i by (simp add: rev_nth)
  show "matching path (pres ! (length pres - Suc i))"
    using assms unfolding eq [symmetric] by (simp add: best_at_def)
  fix j
  assume j: "j < length pres" "matching path (pres ! j)"
  define j' where "j' = length pres - Suc j"
  have j': "j' < length pres" "rev pres ! j' = pres ! j"
    using j by (simp_all add: j'_def rev_nth)
  then have *: "length (po_prefix (pres ! j)) \<le> length (po_prefix (rev pres ! i))"
    "j' < i \<Longrightarrow> length (po_prefix (pres ! j)) < length (po_prefix (rev pres ! i))"
    using assms j unfolding best_at_def by (metis length_rev)+
  then show "length (po_prefix (pres ! j)) \<le> length (po_prefix (pres ! (length pres - Suc i)))"
    by (simp add: eq)
  assume "length pres - Suc i < j"
  then have "j' < i"
    using i j by (simp add: j'_def)
  then show "length (po_prefix (pres ! j)) < length (po_prefix (pres ! (length pres - Suc i)))"
    using * by (simp add: eq)
qed


lemma find_abspath_cases:
  fixes path :: string and s :: "'a preopen_libc_scheme"
  assumes "\<forall>pre \<in> set (preopens s). po_fd pre \<noteq> -1"
  defines "path' \<equiv> dropWhile is_slash path"
  obtains (none) "\<forall>pre \<in> set (preopens s). \<not> matching path' pre"
      "find_abspath path s = ((-1, [], []), s\<lparr>errno := ENOENT\<rparr>)"
  | (found) i where "best_at (rev (preopens s)) path' i"
      "find_abspath path s =
        (let pre = rev (preopens s) ! i;
             rel = dropWhile is_slash (drop (length (po_prefix pre)) path')
         in ((po_fd pre, po_prefix pre, if rel = [] then ''.'' else rel), s))"
proof -
  have fds: "\<forall>pre \<in> set (rev (preopens s)). po_fd pre \<noteq> -1"
    using assms by simp
  from abspath_scan_best [OF fds, of "-1" path' 0 "[]"] show ?thesis
  proof (elim disjE exE conjE)
    fix i
    assume best: "best_at (rev (preopens s)) path' i"
      and scan: "abspath_scan (rev (preopens s)) path' (-1) 0 [] =
        (po_fd (rev (preopens s) ! i), length (po_prefix (rev (preopens s) ! i)),
         po_prefix (rev (preopens s) ! i))"
    have "rev (preopens s) ! i \<in> set (preopens s)"
      using best unfolding best_at_def by (metis length_rev nth_mem set_rev)
    then have "po_fd (rev (preopens s) ! i) \<noteq> -1"
      using assms by auto
    with scan show ?thesis
      by (intro found [OF best]) (simp add: find_abspath_def path'_def [symmetric] Let_def)
  qed (use none in \<open>simp add: find_abspath_def path'_def [symmetric]\<close>)
qed

lemma not_slash_dropWhile: "\<not> is_slash (char_at (dropWhile is_slash path) 0)"
  using hd_dropWhile [of is_slash path]
  by (cases "dropWhile is_slash path") (auto simp: char_at_def)

lemma no_nul_dropWhile: "CHR 0x00 \<notin> set path \<Longrightarrow> CHR 0x00 \<notin> set (dropWhile P path)"
  using set_dropWhileD by fastforce

text \<open>What every successful search gives, whatever the table.\<close>

lemma abspath_scan_fd:
  "fst (abspath_scan pres path fd len ap) \<in> insert fd (po_fd ` set pres)"
  by (induction pres arbitrary: fd len ap) (auto simp: Let_def)

lemma find_abspath_found:
  assumes "find_abspath path s = ((fd, ap, rel), s')" and "fd \<noteq> -1"
  shows "fd \<in> po_fd ` set (preopens s)" and "rel \<noteq> [] \<and> \<not> is_slash (hd rel)" and "s' = s"
proof -
  let ?p = "dropWhile is_slash path"
  obtain fd' ml ap' where scan: "abspath_scan (rev (preopens s)) ?p (-1) 0 [] = (fd', ml, ap')"
    by (cases "abspath_scan (rev (preopens s)) ?p (-1) 0 []")
  have res: "fd' = fd" "s' = s" "rel = (let r = dropWhile is_slash (drop ml ?p)
      in if r = [] then ''.'' else r)"
    using assms unfolding find_abspath_def Let_def scan by (cases "fd' = -1"; simp)+
  then show "fd \<in> po_fd ` set (preopens s)" "s' = s"
    using abspath_scan_fd [of "rev (preopens s)" ?p "-1" 0 "[]"] scan assms(2) by auto
  show "rel \<noteq> [] \<and> \<not> is_slash (hd rel)"
    using res(3) hd_dropWhile [of is_slash "drop ml ?p"]
    by (cases "dropWhile is_slash (drop ml ?p) = []") (simp_all only: Let_def if_True if_False, auto)
qed

text \<open>
  C7. The search for an absolute path fails with \<open>ENOENT\<close> exactly when no registered
  directory anchors the path; otherwise it returns the descriptor and prefix of a longest
  anchoring directory, the most recently registered one among those of that length, and
  leaves the state alone.
\<close>

theorem find_abspath_longest_prefix:
  fixes path :: string and s :: "'a preopen_libc_scheme"
  assumes "assert_invariants s" and "CHR 0x00 \<notin> set path"
    and "find_abspath path s = ((fd, abs_prefix, rel), s')"
  defines "anchor j \<equiv> anchors (po_prefix (preopens s ! j)) (dropWhile is_slash path)"
    and "len j \<equiv> length (po_prefix (preopens s ! j))"
  shows "(\<forall>j < length (preopens s). \<not> anchor j) \<and>
           fd = -1 \<and> s' = s\<lparr>errno := ENOENT\<rparr> \<or>
         (\<exists>k < length (preopens s). anchor k \<and> fd = po_fd (preopens s ! k) \<and> fd \<noteq> -1 \<and>
            abs_prefix = po_prefix (preopens s ! k) \<and> s' = s \<and>
            (\<forall>j < length (preopens s). anchor j \<longrightarrow> len j \<le> len k \<and> (k < j \<longrightarrow> len j < len k)))"
proof -
  have fds: "\<forall>pre \<in> set (preopens s). po_fd pre \<noteq> -1"
    using assms(1) by (simp add: assert_invariants_def)
  have match: "matching (dropWhile is_slash path) pre \<longleftrightarrow>
      anchors (po_prefix pre) (dropWhile is_slash path)" for pre
    by (intro prefix_matches_anchors no_nul_dropWhile not_slash_dropWhile assms(2))
  from fds show ?thesis
  proof (cases rule: find_abspath_cases [of s path])
    case none
    then show ?thesis
      using assms(3) by (auto simp: match anchor_def)
  next
    case (found i)
    obtain k where "k < length (preopens s)" "rev (preopens s) ! i = preopens s ! k"
      "anchor k" "\<forall>j < length (preopens s). anchor j \<longrightarrow>
         len j \<le> len k \<and> (k < j \<longrightarrow> len j < len k)"
      using best_at_rev [OF found(1)] unfolding match anchor_def len_def by blast
    then show ?thesis
      using found(2) assms(3) fds by (intro disjI2 exI [of _ k]) (auto simp: Let_def)
  qed
qed

text \<open>
  The relative path handed to the \<open>*at\<close> calls is never empty and never absolute, and
  the anchoring prefix, some slashes and the relative path spell the path that was asked for
  (the relative path \<open>.\<close> standing for the directory itself).
\<close>

theorem find_abspath_relative_path:
  assumes "assert_invariants s" and "CHR 0x00 \<notin> set path"
    and "find_abspath path s = ((fd, abs_prefix, rel), s')" and "fd \<noteq> -1"
  shows "rel \<noteq> [] \<and> \<not> is_slash (hd rel) \<and>
         (\<exists>lead slashes. set lead \<union> set slashes \<subseteq> {CHR ''/''} \<and>
            (path = lead @ abs_prefix @ slashes @ rel \<or>
             rel = ''.'' \<and> path = lead @ abs_prefix @ slashes))"
proof -
  have fds: "\<forall>pre \<in> set (preopens s). po_fd pre \<noteq> -1"
    using assms(1) by (simp add: assert_invariants_def)
  define path' where "path' = dropWhile is_slash path"
  define tail where "tail = drop (length abs_prefix) path'"
  have match: "matching path' pre \<longleftrightarrow> anchors (po_prefix pre) path'" for pre
    unfolding path'_def
    by (intro prefix_matches_anchors no_nul_dropWhile not_slash_dropWhile assms(2))
  from fds have *: "anchors abs_prefix path' \<and>
      rel = (if dropWhile is_slash tail = [] then ''.'' else dropWhile is_slash tail)"
  proof (cases rule: find_abspath_cases [of s path])
    case (found i)
    define pre where "pre = rev (preopens s) ! i"
    have "matching path' pre"
      using found(1) by (simp add: best_at_def path'_def pre_def)
    moreover have "abs_prefix = po_prefix pre"
      and "rel = (let r = dropWhile is_slash (drop (length (po_prefix pre)) path')
                  in if r = [] then ''.'' else r)"
      using found(2) assms(3) unfolding pre_def [symmetric] path'_def [symmetric]
      by (simp_all only: Let_def prod.inject)
    ultimately show ?thesis
      unfolding match tail_def by (simp only: Let_def)
  qed (use assms in simp)
  have "path' = abs_prefix @ takeWhile is_slash tail @ dropWhile is_slash tail"
    using * unfolding tail_def anchors_def by auto
  then have split: "path = takeWhile is_slash path @ abs_prefix @ takeWhile is_slash tail @
      dropWhile is_slash tail"
    using takeWhile_dropWhile_id [of is_slash path] unfolding path'_def by simp
  have sl: "set (takeWhile is_slash path) \<union> set (takeWhile is_slash tail) \<subseteq> {CHR ''/''}"
    by (auto dest: set_takeWhileD)
  show ?thesis
  proof (cases "dropWhile is_slash tail = []")
    case True
    then have rel: "rel = ''.''"
      using * by simp
    moreover have "path = takeWhile is_slash path @ abs_prefix @ takeWhile is_slash tail"
      using split unfolding True append_Nil2 .
    ultimately show ?thesis
      by (intro conjI exI [of _ "takeWhile is_slash path"] exI [of _ "takeWhile is_slash tail"]
            sl disjI2) (simp_all add: rel)
  next
    case False
    then have "rel = dropWhile is_slash tail"
      using * by (simp only: if_False)
    with sl split False hd_dropWhile [OF False] show ?thesis
      by metis
  qed
qed


section \<open>The constructor registers what the host offers\<close>

text \<open>
  A host that offers the directories \<open>names\<close> on the descriptors from 3 on: it answers
  \<open>fd_prestat_get\<close> with the length of the name, \<open>EBADF\<close> behind the last one, and
  \<open>fd_prestat_dir_name\<close> with the bytes of the name, whatever was called before.
\<close>

definition offers :: "env \<Rightarrow> u8 list list \<Rightarrow> bool" where
  "offers E names \<longleftrightarrow> length names < 2 ^ 31 \<and>
     (\<forall>i < length names. length (names ! i) < 2 ^ 31) \<and>
     (\<forall>h. \<forall>i < length names.
        (let r = host E h (Call_fd_prestat_get (3 + of_nat i))
         in status r = 0 \<and> pr_tag (prestat_out r) = 0 \<and>
            pr_name_len (prestat_out r) = of_nat (length (names ! i))) \<and>
        (let r = host E h (Call_fd_prestat_dir_name (3 + of_nat i) (of_nat (length (names ! i))))
         in status r = 0 \<and> bytes_out r = names ! i)) \<and>
     (\<forall>h. status (host E h (Call_fd_prestat_get (3 + of_nat (length names)))) = EBADF)"

definition offered_from :: "nat \<Rightarrow> u8 list list \<Rightarrow> preopen list" where
  "offered_from i names =
     map (\<lambda>j. \<lparr>po_prefix = strip_prefixes (c_string (names ! j)), po_fd = 3 + of_nat j\<rparr>)
       [i..<length names]"

lemma offered_from_step:
  "i < length names \<Longrightarrow> offered_from i names =
     \<lparr>po_prefix = strip_prefixes (c_string (names ! i)), po_fd = 3 + of_nat i\<rparr>
       # offered_from (Suc i) names"
  by (simp add: offered_from_def upt_conv_Cons)

lemma fd_bounds:
  assumes "i < 2 ^ 31"
  shows "(3 + of_nat i :: u32) \<noteq> 0" and "(3 + of_nat i :: u32) \<noteq> -1"
proof -
  have "unat (of_nat i :: u32) = i"
    using assms by (simp add: unat_of_nat)
  then have *: "unat (3 + of_nat i :: u32) = 3 + i"
    using assms by (simp add: unat_word_ariths)
  then show "(3 + of_nat i :: u32) \<noteq> 0"
    by auto
  show "(3 + of_nat i :: u32) \<noteq> -1"
  proof
    assume "(3 + of_nat i :: u32) = -1"
    then have "3 + i = 4294967295"
      using * unat_minus_one_32 by metis
    with assms show False
      by simp
  qed
qed

lemma populate_dir_offered:
  assumes "offers E names" and "i < length names" and "assert_invariants s"
  shows "populate_dir E (3 + of_nat i) (of_nat (length (names ! i))) s = Some (Exited EX_SOFTWARE) \<and>
           (refused_in E (allocs s) 3 \<or> 2 ^ 28 \<le> length (preopens s)) \<or>
         (\<exists>s'. populate_dir E (3 + of_nat i) (of_nat (length (names ! i))) s = Some (Returned s') \<and>
            assert_invariants s' \<and> allocs s \<le> allocs s' \<and> allocs s' \<le> allocs s + 3 \<and>
            preopens s' = preopens s @
              [\<lparr>po_prefix = strip_prefixes (c_string (names ! i)), po_fd = 3 + of_nat i\<rparr>])"
proof -
  let ?fd = "3 + of_nat i :: u32" and ?n = "names ! i"
  have fd: "?fd \<noteq> -1"
    using assms by (intro fd_bounds) (simp add: offers_def)
  have len: "unat (of_nat (length ?n) :: size_t) = length ?n" "(of_nat (length ?n) :: size_t) \<noteq> -1"
  proof -
    have "length ?n < 2 ^ 31"
      using assms by (simp add: offers_def)
    then show *: "unat (of_nat (length ?n) :: size_t) = length ?n"
      by (simp add: unat_of_nat)
    with \<open>length ?n < 2 ^ 31\<close> show "(of_nat (length ?n) :: size_t) \<noteq> -1"
      using unat_minus_one_32 by auto
  qed
  show ?thesis
  proof (rule alloc_outcome [of E "of_nat (length ?n) + 1" s])
    let ?s1 = "s\<lparr>allocs := Suc (allocs s)\<rparr>"
    assume ok: "alloc E (of_nat (length ?n) + 1) s = (True, ?s1)"
    define s2 where "s2 = ?s1\<lparr>calls := calls s @ [Call_fd_prestat_dir_name ?fd (of_nat (length ?n))]\<rparr>"
    have name: "wasi_fd_prestat_dir_name E ?fd (of_nat (length ?n)) ?s1 = (0, ?n, s2)"
      using assms by (simp add: offers_def wasi_defs call_host_def Let_def s2_def)
    have inv: "assert_invariants s2" and same: "preopens s2 = preopens s" "allocs s2 = Suc (allocs s)"
      using assms(3) by (simp_all add: assert_invariants_def s2_def)
    have "refused_in E (allocs s) 3" if "refused_in E (Suc (allocs s)) 2"
      using that by (rule refused_in_mono) simp_all
    with internal_register_safe [OF inv fd, of E "c_string ?n"] show ?thesis
      by (auto simp: populate_dir_def ok name len same)
  next
    fix e
    assume "alloc E (of_nat (length ?n) + 1) s = (False, s\<lparr>allocs := Suc (allocs s), errno := e\<rparr>)"
      and "refused E (allocs s)"
    then show ?thesis
      using refused_inI [of E "allocs s" "allocs s" 3] by (simp add: populate_dir_def)
  qed
qed

lemma populate_loop_offered:
  assumes "offers E names" and "i \<le> length names" and "assert_invariants s"
  shows "populate_loop E (3 + of_nat i) s = Some (Exited EX_SOFTWARE) \<and>
           (refused_in E (allocs s) (3 * (length names - i)) \<or>
            2 ^ 28 < length (preopens s) + (length names - i)) \<or>
         (\<exists>s'. populate_loop E (3 + of_nat i) s = Some (Returned s') \<and> assert_invariants s' \<and>
            preopens s' = preopens s @ offered_from i names)"
  using assms(2,3)
proof (induction "length names - i" arbitrary: i s)
  case 0
  then have "i = length names"
    by simp
  moreover have "(3 + of_nat i :: u32) \<noteq> 0"
    using assms(1) 0 by (intro fd_bounds) (simp add: offers_def)
  ultimately show ?case
    using assms(1) 0
    by (simp add: populate_loop.simps [of E "3 + of_nat (length names)"] wasi_defs call_host_def
        offers_def offered_from_def assert_invariants_def)
next
  case (Suc k)
  then have i: "i < length names"
    by simp
  let ?fd = "3 + of_nat i :: u32"
  define s1 where "s1 = s\<lparr>calls := calls s @ [Call_fd_prestat_get ?fd]\<rparr>"
  have fd: "?fd \<noteq> 0"
    using assms(1) i by (intro fd_bounds) (simp add: offers_def)
  obtain st where get: "wasi_fd_prestat_get E ?fd s = (0, st, s1)" "pr_tag st = 0"
    "pr_name_len st = of_nat (length (names ! i))"
    using assms(1) i by (simp add: wasi_defs call_host_def offers_def Let_def s1_def)
  have s1: "assert_invariants s1" "preopens s1 = preopens s" "allocs s1 = allocs s"
    using Suc.prems by (simp_all add: s1_def assert_invariants_def)
  have loop: "populate_loop E ?fd s =
      (case populate_dir E ?fd (of_nat (length (names ! i))) s1 of
         Some (Returned s) \<Rightarrow> populate_loop E (?fd + 1) s | r \<Rightarrow> r)"
    using fd get by (simp add: populate_loop.simps [of E ?fd])
  have next_fd: "?fd + 1 = 3 + of_nat (Suc i)"
    by simp
  from populate_dir_offered [OF assms(1) i s1(1)] consider
    (exits) "populate_dir E ?fd (of_nat (length (names ! i))) s1 = Some (Exited EX_SOFTWARE)"
      "refused_in E (allocs s) 3 \<or> 2 ^ 28 \<le> length (preopens s)"
  | (adds) s2 where "populate_dir E ?fd (of_nat (length (names ! i))) s1 = Some (Returned s2)"
      "assert_invariants s2" "allocs s \<le> allocs s2" "allocs s2 \<le> allocs s + 3"
      "preopens s2 = preopens s @ [\<lparr>po_prefix = strip_prefixes (c_string (names ! i)), po_fd = ?fd\<rparr>]"
    unfolding s1(2,3) by blast
  then show ?case
  proof cases
    case exits
    have "refused_in E (allocs s) (3 * (length names - i))" if "refused_in E (allocs s) 3"
      using i by (intro refused_in_mono [OF that]) linarith+
    then show ?thesis
      using exits i by (auto simp: loop)
  next
    case (adds s2)
    have "populate_loop E ?fd s = populate_loop E (3 + of_nat (Suc i)) s2"
      by (simp only: loop next_fd adds(1) option.case outcome.case)
    moreover have "k = length names - Suc i" "Suc i \<le> length names"
      using Suc i by simp_all
    moreover have "refused_in E (allocs s) (3 * (length names - i))"
      if "refused_in E (allocs s2) (3 * (length names - Suc i))"
      using adds(3,4) i by (intro refused_in_mono [OF that]) linarith+
    ultimately show ?thesis
      using Suc.hyps(1) [of "Suc i" s2] adds(2,5) offered_from_step [OF i] i by auto
  qed
qed

text \<open>
  C8. Run against a host that offers the directories \<open>names\<close>, the constructor of the
  preopen table registers exactly the offered directories, in the order of their descriptors,
  and the table invariant holds.  It ends the process with \<open>EX_SOFTWARE\<close> instead only if the
  allocator refuses one of the at most three requests for each directory, or the table would
  have more than \<open>2\<^sup>28\<close> entries.
\<close>

theorem populate_preopens_complete:
  assumes "offers E names" and "assert_invariants s"
  shows "populate_preopens E s = Some (Exited EX_SOFTWARE) \<and>
           (refused_in E (allocs s) (3 * length names) \<or> 2 ^ 28 < length (preopens s) + length names) \<or>
         (\<exists>s'. populate_preopens E s = Some (Returned s') \<and> assert_invariants s' \<and>
            preopens s' = preopens s @
              map (\<lambda>j. \<lparr>po_prefix = strip_prefixes (c_string (names ! j)), po_fd = 3 + of_nat j\<rparr>)
                [0..<length names])"
  using populate_loop_offered [OF assms(1) _ assms(2), of 0]
  by (simp add: populate_preopens_def offered_from_def)


section \<open>Witnesses\<close>

text \<open>A host with two directories, \<open>/home\<close> and \<open>./tmp\<close>, that accepts every other call.\<close>

definition sample_names :: "u8 list list" where
  "sample_names = [[47, 104, 111, 109, 101], [46, 47, 116, 109, 112]]"

definition blank_reply :: wasi_reply where
  "blank_reply = \<lparr>status = 0, size_out = 0, size2_out = 0, u64_out = 0, fd_out = 7,
     roflags_out = 0, bytes_out = [], ptrs_out = [],
     fdstat_out = \<lparr>fs_filetype = 4, fs_flags = 0, fs_rights_base = 0, fs_rights_inheriting = 0\<rparr>,
     filestat_out = \<lparr>fst_dev = 0, fst_ino = 0, fst_filetype = 3, fst_nlink = 1, fst_size = 0,
       fst_atim = 0, fst_mtim = 0, fst_ctim = 0\<rparr>,
     prestat_out = \<lparr>pr_tag = 0, pr_name_len = 5\<rparr>, events_out = []\<rparr>"

definition sample_host :: "wasi_call list \<Rightarrow> wasi_call \<Rightarrow> wasi_reply" where
  "sample_host h c =
     (case c of
        Call_fd_prestat_get fd \<Rightarrow>
          if fd = 3 \<or> fd = 4 then blank_reply else blank_reply\<lparr>status := EBADF\<rparr>
      | Call_fd_prestat_dir_name fd _ \<Rightarrow> blank_reply\<lparr>bytes_out := sample_names ! (unat fd - 3)\<rparr>
      | _ \<Rightarrow> blank_reply)"

definition sample_env :: env where
  "sample_env = \<lparr>host = sample_host, allocator = (\<lambda>_ _. Allocated), chdir_linked = True\<rparr>"

definition sample_table :: "preopen list" where
  "sample_table = [\<lparr>po_prefix = [], po_fd = 3\<rparr>, \<lparr>po_prefix = ''home'', po_fd = 4\<rparr>,
     \<lparr>po_prefix = ''home/me'', po_fd = 5\<rparr>, \<lparr>po_prefix = ''home'', po_fd = 6\<rparr>]"

definition table_state :: preopen_libc where
  "table_state = \<lparr>errno = 0, calls = [], allocs = 0, preopens = sample_table, preopen_capacity = 4\<rparr>"

lemmas sample_defs = sample_env_def sample_host_def sample_names_def blank_reply_def
  table_state_def sample_table_def

lemma table_state_ok: "assert_invariants table_state"
  by (simp add: assert_invariants_def sample_defs sizeof_preopen_def)

lemma sample_offers: "offers sample_env sample_names"
  by (auto simp: offers_def sample_defs less_Suc_eq)

lemma sample_strings:
  "map c_string sample_names = [''/home'', ''./tmp'']"
  by code_simp

theorem register_preserves_invariants_witness:
  "\<exists>r s'. register_preopened_fd sample_env 7 ''/var'' table_state = Some (r, s') \<and>
     assert_invariants s' \<and>
     (r = 0 \<and> (\<exists>p. preopens s' = preopens table_state @ [\<lparr>po_prefix = p, po_fd = 7\<rparr>] \<and>
                  p = strip_prefixes ''/var'' \<and> (p = [] \<or> \<not> is_slash (hd p))) \<or>
      r = -1 \<and> preopens s' = preopens table_state)"
  by (rule register_preserves_invariants) (simp_all add: table_state_ok)

lemma sample_lookup:
  "find_abspath ''//home/you/x'' table_state = ((6, ''home'', ''you/x''), table_state)"
  by (simp add: find_abspath_def sample_defs prefix_matches_def char_at_def)

theorem find_abspath_longest_prefix_witness:
  "\<exists>k < length (preopens table_state).
     anchors (po_prefix (preopens table_state ! k)) (dropWhile is_slash ''//home/you/x'') \<and>
     6 = po_fd (preopens table_state ! k)"
  using find_abspath_longest_prefix [OF table_state_ok _ sample_lookup] by auto

theorem find_abspath_relative_path_witness:
  "\<exists>lead slashes. set lead \<union> set slashes \<subseteq> {CHR ''/''} \<and>
     (''//home/you/x'' = lead @ ''home'' @ slashes @ ''you/x'' \<or>
      ''you/x'' = ''.'' \<and> ''//home/you/x'' = lead @ ''home'' @ slashes)"
  using find_abspath_relative_path [OF table_state_ok _ sample_lookup] by simp

lemma sample_memory: "memory_available sample_env"
  by (simp add: memory_available_def sample_env_def)

theorem populate_preopens_complete_witness:
  "\<exists>s'. populate_preopens sample_env table_state = Some (Returned s') \<and> assert_invariants s' \<and>
     preopens s' = preopens table_state @
       [\<lparr>po_prefix = ''home'', po_fd = 3\<rparr>, \<lparr>po_prefix = ''tmp'', po_fd = 4\<rparr>]"
  using populate_preopens_complete [OF sample_offers table_state_ok] sample_strings
    available_not_refused [OF sample_memory]
  by (simp add: sample_names_def table_state_def sample_table_def)

end
