(* ===== verification/Wasi_Time.thy ===== *)
theory Wasi_Time
  imports Wasi_Host
begin

text \<open>
  Times and clocks of wasi-libc (\<open>cloudlibc/src/common/time.h\<close>, \<open>overflow.h\<close>,
  \<open>cloudlibc/src/libc/time\<close>, \<open>gettimeofday.c\<close>, \<open>sleep.c\<close>, \<open>usleep.c\<close>,
  \<open>sched_yield.c\<close>).  \<open>time_t\<close> is a signed 64-bit and \<open>long\<close> a signed 32-bit
  integer; WASI timestamps are unsigned 64-bit numbers of nanoseconds.
\<close>

section \<open>Data and conversions\<close>

record timespec =
  tv_sec :: u64
  tv_nsec :: u32

record timeval =
  tmv_sec :: u64
  tmv_usec :: u64

definition NSEC_PER_SEC :: int where
  "NSEC_PER_SEC = 1000000000"

text \<open>
  The overflow builtins compute with unbounded integers and report whether the result fits
  the type of the destination, here \<open>uint64_t\<close>; the destination receives the wrapped value.
\<close>

definition add_overflow :: "int \<Rightarrow> int \<Rightarrow> bool \<times> u64" where
  "add_overflow x y = (\<not> (0 \<le> x + y \<and> x + y < 2 ^ 64), of_int (x + y))"

definition mul_overflow :: "int \<Rightarrow> int \<Rightarrow> bool \<times> u64" where
  "mul_overflow x y = (\<not> (0 \<le> x * y \<and> x * y < 2 ^ 64), of_int (x * y))"

text \<open>\<^const>\<open>None\<close> is the result \<open>false\<close>.\<close>

definition timespec_to_timestamp_exact :: "timespec \<Rightarrow> u64 option" where
  "timespec_to_timestamp_exact ts =
     (if sint (tv_nsec ts) < 0 \<or> NSEC_PER_SEC \<le> sint (tv_nsec ts) then None
      else if sint (tv_sec ts) < 0 then None
      else let (o1, t) = mul_overflow (sint (tv_sec ts)) NSEC_PER_SEC
           in if o1 then None
              else let (o2, t) = add_overflow (uint t) (sint (tv_nsec ts))
                   in if o2 then None else Some t)"

definition timespec_to_timestamp_clamp :: "timespec \<Rightarrow> u64 option" where
  "timespec_to_timestamp_clamp ts =
     (if sint (tv_nsec ts) < 0 \<or> NSEC_PER_SEC \<le> sint (tv_nsec ts) then None
      else if sint (tv_sec ts) < 0 then Some 0
      else let (o1, t) = mul_overflow (sint (tv_sec ts)) NSEC_PER_SEC
           in if o1 then Some (-1)
              else let (o2, t) = add_overflow (uint t) (sint (tv_nsec ts))
                   in if o2 then Some (-1) else Some t)"

definition timestamp_to_timespec :: "u64 \<Rightarrow> timespec" where
  "timestamp_to_timespec t =
     \<lparr>tv_sec = t div of_int NSEC_PER_SEC, tv_nsec = ucast (t mod of_int NSEC_PER_SEC)\<rparr>"

definition timestamp_to_timeval :: "u64 \<Rightarrow> timeval" where
  "timestamp_to_timeval t =
     (let ts = timestamp_to_timespec t
      in \<lparr>tmv_sec = tv_sec ts, tmv_usec = scast (tv_nsec ts div 1000)\<rparr>)"

section \<open>The calendar helpers\<close>

text \<open>\<open>time_t\<close> values as integers; \<open>%\<close> truncates towards zero.\<close>

definition c_rem :: "int \<Rightarrow> int \<Rightarrow> int" where
  "c_rem a b = sgn a * (\<bar>a\<bar> mod \<bar>b\<bar>)"

definition is_leap :: "int \<Rightarrow> bool" where
  "is_leap year =
     (let year = c_rem year 400;
          year = (if year < 0 then year + 400 else year)
      in c_rem year 4 = 0 \<and> c_rem year 100 \<noteq> 0 \<or> year = 100)"

definition get_months :: "int \<Rightarrow> nat list" where
  "get_months year =
     (if is_leap year then [31, 29, 31, 30, 31, 30, 31, 31, 30, 31, 30, 31]
      else [31, 28, 31, 30, 31, 30, 31, 31, 30, 31, 30, 31])"

definition get_months_cumulative :: "int \<Rightarrow> nat list" where
  "get_months_cumulative year =
     (if is_leap year then [0, 31, 60, 91, 121, 152, 182, 213, 244, 274, 305, 335, 366]
      else [0, 31, 59, 90, 120, 151, 181, 212, 243, 273, 304, 334, 365])"

definition get_ydays :: "int \<Rightarrow> nat" where
  "get_ydays year = (if is_leap year then 366 else 365)"

section \<open>Clocks\<close>

definition CLOCK_REALTIME :: u32 where "CLOCK_REALTIME = 0"
definition CLOCK_MONOTONIC :: u32 where "CLOCK_MONOTONIC = 1"
definition CLOCK_PROCESS_CPUTIME_ID :: u32 where "CLOCK_PROCESS_CPUTIME_ID = 2"
definition CLOCK_THREAD_CPUTIME_ID :: u32 where "CLOCK_THREAD_CPUTIME_ID = 3"

definition clock_getres ::
  "env \<Rightarrow> u32 \<Rightarrow> 'a libc_scheme \<Rightarrow> (c_int \<times> timespec option) \<times> 'a libc_scheme" where
  "clock_getres E clock_id s =
     (let (error, ts, s) = wasi_clock_res_get E clock_id s
      in if error \<noteq> 0 then ((-1, None), s\<lparr>errno := ucast error\<rparr>)
         else ((0, Some (timestamp_to_timespec ts)), s))"

definition clock_gettime ::
  "env \<Rightarrow> u32 \<Rightarrow> 'a libc_scheme \<Rightarrow> (c_int \<times> timespec option) \<times> 'a libc_scheme" where
  "clock_gettime E clock_id s =
     (let (error, ts, s) = wasi_clock_time_get E clock_id 1 s
      in if error \<noteq> 0 then ((-1, None), s\<lparr>errno := ucast error\<rparr>)
         else ((0, Some (timestamp_to_timespec ts)), s))"

text \<open>
  The event is written by the host; reading it when the host reports success without an
  event is a read of an uninitialised local, \<^const>\<open>None\<close>.
\<close>

definition clock_nanosleep ::
  "env \<Rightarrow> u32 \<Rightarrow> c_int \<Rightarrow> timespec \<Rightarrow> 'a libc_scheme \<Rightarrow> (c_int \<times> 'a libc_scheme) option" where
  "clock_nanosleep E clock_id flags rqtp s =
     (if flags AND NOT 1 \<noteq> 0 then Some (EINVAL, s)
      else case timespec_to_timestamp_clamp rqtp of
             None \<Rightarrow> Some (EINVAL, s)
           | Some timeout \<Rightarrow>
               let sub = \<lparr>sub_userdata = 0, sub_u = Sub_clock clock_id timeout 0 (ucast flags)\<rparr>;
                   (error, evs, nevents, s) = wasi_poll_oneoff E [sub] 1 s
               in if error \<noteq> 0 then Some (ENOTSUP, s)
                  else case evs of
                         [] \<Rightarrow> None
                       | ev # _ \<Rightarrow> Some (if ev_error ev = 0 then 0 else ENOTSUP, s))"

definition nanosleep ::
  "env \<Rightarrow> timespec \<Rightarrow> 'a libc_scheme \<Rightarrow> (c_int \<times> 'a libc_scheme) option" where
  "nanosleep E rqtp s = do {
     (error, s) \<leftarrow> clock_nanosleep E CLOCK_REALTIME 0 rqtp s;
     Some (if error \<noteq> 0 then (-1, s\<lparr>errno := error\<rparr>) else (0, s)) }"

definition sleep :: "env \<Rightarrow> u32 \<Rightarrow> 'a libc_scheme \<Rightarrow> (u32 \<times> 'a libc_scheme) option" where
  "sleep E seconds s = do {
     (error, s) \<leftarrow> clock_nanosleep E CLOCK_REALTIME 0 \<lparr>tv_sec = ucast seconds, tv_nsec = 0\<rparr> s;
     Some (if error \<noteq> 0 then seconds else 0, s) }"

definition usleep :: "env \<Rightarrow> u32 \<Rightarrow> 'a libc_scheme \<Rightarrow> (c_int \<times> 'a libc_scheme) option" where
  "usleep E useconds s = do {
     (error, s) \<leftarrow> clock_nanosleep E CLOCK_REALTIME 0
        \<lparr>tv_sec = ucast (useconds div 1000000), tv_nsec = useconds mod 1000000 * 1000\<rparr> s;
     Some (if error \<noteq> 0 then (-1, s\<lparr>errno := error\<rparr>) else (0, s)) }"

text \<open>
  \<open>time\<close> and \<open>gettimeofday\<close> ignore the error of the host call; the timestamp is then
  whatever the host left in the variable, which starts as 0.  The model takes the host's
  out-value in both cases.
\<close>

definition time :: "env \<Rightarrow> 'a libc_scheme \<Rightarrow> u64 \<times> 'a libc_scheme" where
  "time E s =
     (let (_, ts, s) = wasi_clock_time_get E 0 (of_int NSEC_PER_SEC) s
      in (ts div of_int NSEC_PER_SEC, s))"

definition gettimeofday ::
  "env \<Rightarrow> bool \<Rightarrow> 'a libc_scheme \<Rightarrow> (c_int \<times> timeval option) \<times> 'a libc_scheme" where
  "gettimeofday E tp s =
     (if tp
      then let (_, ts, s) = wasi_clock_time_get E 0 1000 s
           in ((0, Some (timestamp_to_timeval ts)), s)
      else ((0, None), s))"

definition sched_yield :: "env \<Rightarrow> 'a libc_scheme \<Rightarrow> c_int \<times> 'a libc_scheme" where
  "sched_yield E s = (let (error, s) = wasi_sched_yield E s in check_error error s)"

definition C_Exit :: "c_int \<Rightarrow> 'b outcome" where
  "C_Exit code = wasi_proc_exit code"

section \<open>Properties of the conversions\<close>

lemma sint_of_nonneg:
  fixes w :: "'a::len word"
  assumes "uint w < 2 ^ (LENGTH('a) - 1)"
  shows "sint w = uint w"
  using assms
  by (simp add: sint_uint signed_take_bit_int_eq_self_iff order_trans [of _ 0])

text \<open>The two range conditions of a timespec that denotes a timestamp.\<close>

definition valid_nsec :: "timespec \<Rightarrow> bool" where
  "valid_nsec ts \<longleftrightarrow> 0 \<le> sint (tv_nsec ts) \<and> sint (tv_nsec ts) < NSEC_PER_SEC"

definition nanoseconds :: "timespec \<Rightarrow> int" where
  "nanoseconds ts = sint (tv_sec ts) * NSEC_PER_SEC + sint (tv_nsec ts)"

lemma uint_of_int_64: "0 \<le> i \<Longrightarrow> i < 2 ^ 64 \<Longrightarrow> uint (of_int i :: u64) = i"
  by (simp add: uint_word_of_int)

lemma to_timestamp_split:
  assumes "valid_nsec ts" and "0 \<le> sint (tv_sec ts)"
  shows "timespec_to_timestamp_exact ts =
           (if nanoseconds ts < 2 ^ 64 then Some (of_int (nanoseconds ts)) else None)"
    and "timespec_to_timestamp_clamp ts =
           Some (if nanoseconds ts < 2 ^ 64 then of_int (nanoseconds ts) else -1)"
proof -
  let ?p = "sint (tv_sec ts) * NSEC_PER_SEC"
  have p: "0 \<le> ?p" and n: "0 \<le> sint (tv_nsec ts)"
    using assms by (simp_all add: NSEC_PER_SEC_def valid_nsec_def)
  have "uint (of_int ?p :: u64) = ?p" if "?p < 2 ^ 64"
    using p that by (rule uint_of_int_64)
  then show "timespec_to_timestamp_exact ts =
           (if nanoseconds ts < 2 ^ 64 then Some (of_int (nanoseconds ts)) else None)"
    and "timespec_to_timestamp_clamp ts =
           Some (if nanoseconds ts < 2 ^ 64 then of_int (nanoseconds ts) else -1)"
    using assms p n
    by (auto simp: timespec_to_timestamp_exact_def timespec_to_timestamp_clamp_def valid_nsec_def
        mul_overflow_def add_overflow_def nanoseconds_def)
qed

lemma timestamp_to_timespec_ints:
  "sint (tv_sec (timestamp_to_timespec t)) = uint t div NSEC_PER_SEC"
  "sint (tv_nsec (timestamp_to_timespec t)) = uint t mod NSEC_PER_SEC"
proof -
  have "uint t < 2 ^ 64"
    using uint_lt2p [of t] by simp
  then have "uint t div 1000000000 < 2 ^ 63"
    by simp
  then show "sint (tv_sec (timestamp_to_timespec t)) = uint t div NSEC_PER_SEC"
    by (simp add: timestamp_to_timespec_def NSEC_PER_SEC_def uint_div sint_of_nonneg)
  have "uint (t mod 1000000000) = uint t mod 1000000000"
    by (simp add: uint_mod)
  moreover have "uint t mod 1000000000 < 1000000000"
    by simp
  ultimately show "sint (tv_nsec (timestamp_to_timespec t)) = uint t mod NSEC_PER_SEC"
    by (simp add: timestamp_to_timespec_def NSEC_PER_SEC_def sint_of_nonneg unsigned_ucast_eq
        take_bit_int_eq_self)
qed


lemma timestamp_to_timespec_valid:
  "valid_nsec (timestamp_to_timespec t)" "0 \<le> sint (tv_sec (timestamp_to_timespec t))"
  "nanoseconds (timestamp_to_timespec t) = uint t"
  by (simp_all add: valid_nsec_def nanoseconds_def timestamp_to_timespec_ints NSEC_PER_SEC_def
      pos_imp_zdiv_nonneg_iff)

lemma exact_of_timestamp: "timespec_to_timestamp_exact (timestamp_to_timespec t) = Some t"
  using timestamp_to_timespec_valid [of t] uint_lt2p [of t] by (simp add: to_timestamp_split)

text \<open>
  The exact conversion to a WASI timestamp and the conversion back are inverse to each
  other: it succeeds exactly on the timespecs that denote a timestamp, none of them is
  rounded, and every timestamp is reached.
\<close>

theorem timespec_timestamp_roundtrip:
  "timespec_to_timestamp_exact ts = Some t \<longleftrightarrow> ts = timestamp_to_timespec t"
proof
  assume *: "timespec_to_timestamp_exact ts = Some t"
  then have ok: "valid_nsec ts" "0 \<le> sint (tv_sec ts)"
    by (auto simp: timespec_to_timestamp_exact_def valid_nsec_def split: if_splits)
  then have lt: "nanoseconds ts < 2 ^ 64" and t: "t = of_int (nanoseconds ts)"
    using * by (simp_all add: to_timestamp_split split: if_splits)
  have "0 \<le> nanoseconds ts"
    using ok by (simp add: nanoseconds_def valid_nsec_def NSEC_PER_SEC_def)
  then have u: "uint t = nanoseconds ts"
    unfolding t using lt by (rule uint_of_int_64)
  have "sint (tv_sec (timestamp_to_timespec t)) = sint (tv_sec ts)"
    and "sint (tv_nsec (timestamp_to_timespec t)) = sint (tv_nsec ts)"
    using ok unfolding timestamp_to_timespec_ints u nanoseconds_def valid_nsec_def
    by (simp_all add: NSEC_PER_SEC_def)
  then show "ts = timestamp_to_timespec t"
    by (cases ts; cases "timestamp_to_timespec t") (auto intro: signed_word_eqI [where ?'a = int])
next
  assume "ts = timestamp_to_timespec t"
  then show "timespec_to_timestamp_exact ts = Some t"
    by (simp add: exact_of_timestamp)
qed

text \<open>
  The clamping conversion rejects exactly the timespecs with an invalid nanosecond
  field and otherwise returns the number of nanoseconds cut to the range of a timestamp.
\<close>

theorem timespec_clamp_saturates:
  "timespec_to_timestamp_clamp ts =
     (if valid_nsec ts then Some (of_int (max 0 (min (nanoseconds ts) (2 ^ 64 - 1)))) else None)"
proof (cases "valid_nsec ts \<and> 0 \<le> sint (tv_sec ts)")
  case True
  then have "0 \<le> nanoseconds ts"
    by (simp add: nanoseconds_def valid_nsec_def NSEC_PER_SEC_def)
  moreover have "(of_int (2 ^ 64 - 1) :: u64) = -1"
    by simp
  ultimately show ?thesis
    using True by (auto simp: to_timestamp_split min_def)
next
  case False
  show ?thesis
  proof (cases "valid_nsec ts")
    case True
    with False have "nanoseconds ts \<le> -1"
      by (simp add: nanoseconds_def valid_nsec_def NSEC_PER_SEC_def)
    then show ?thesis
      using True False by (auto simp: timespec_to_timestamp_clamp_def valid_nsec_def)
  next
    case False
    then show ?thesis
      by (auto simp: timespec_to_timestamp_clamp_def valid_nsec_def)
  qed
qed

section \<open>The calendar\<close>

lemma c_rem_normalised:
  assumes "0 < b"
  shows "(let r = c_rem a b in if r < 0 then r + b else r) = a mod b"
proof (cases "0 \<le> a")
  case True
  then show ?thesis
    using assms pos_mod_sign [of b a] by (cases "a = 0") (simp_all add: c_rem_def Let_def not_less)
next
  case False
  then have "c_rem a b = - ((- a) mod b)"
    using assms by (simp add: c_rem_def)
  moreover have "a mod b = (if (- a) mod b = 0 then 0 else b - (- a) mod b)"
    using zmod_zminus1_eq_if [of "- a" b] by simp
  moreover have "0 \<le> (- a) mod b"
    using assms by simp
  ultimately show ?thesis
    by (auto simp: Let_def)
qed

lemma c_rem_pos: "0 \<le> a \<Longrightarrow> 0 < b \<Longrightarrow> c_rem a b = a mod b"
  by (cases "a = 0") (simp_all add: c_rem_def)

text \<open>
  With years counted from 1900, as in \<open>struct tm\<close>, the leap-year test is the Gregorian
  rule, also for years before 1900; the table of month lengths adds up to the cumulative
  table and to the length of the year.
\<close>

theorem calendar_tables_gregorian:
  "(is_leap y \<longleftrightarrow>
      (if (y + 1900) mod 100 = 0 then (y + 1900) mod 400 = 0 else (y + 1900) mod 4 = 0)) \<and>
   get_months_cumulative y = map (\<lambda>m. sum_list (take m (get_months y))) [0..<13] \<and>
   get_ydays y = sum_list (get_months y)"
proof (intro conjI)
  define r where "r = y mod 400"
  have r: "0 \<le> r" "r < 400"
    by (simp_all add: r_def)
  have m: "(y + 1900) mod 4 = r mod 4" "(y + 1900) mod 100 = r mod 100"
    "(y + 1900) mod 400 = 0 \<longleftrightarrow> r = 100"
  proof -
    show "(y + 1900) mod 4 = r mod 4"
      using mod_mult_self1 [of y 475 4] by (simp add: r_def mod_mod_cancel)
    show "(y + 1900) mod 100 = r mod 100"
      using mod_mult_self1 [of y 19 100] by (simp add: r_def mod_mod_cancel)
    have "(y + 1900) mod 400 = (r + 300) mod 400"
      using mod_mult_self1 [of "y + 300" 4 400] by (simp add: r_def mod_simps add.assoc)
    also have "\<dots> = (if r < 100 then r + 300 else r - 100)"
      using r mod_pos_pos_trivial [of "r + 300" 400] mod_pos_pos_trivial [of "r - 100" 400]
        mod_add_self2 [of "r - 100" 400] by (auto simp: add.commute)
    finally show "(y + 1900) mod 400 = 0 \<longleftrightarrow> r = 100"
      using r by auto
  qed
  have "is_leap y \<longleftrightarrow> r mod 4 = 0 \<and> r mod 100 \<noteq> 0 \<or> r = 100"
    using c_rem_normalised [of 400 y] r
    by (auto simp: is_leap_def Let_def c_rem_pos r_def [symmetric] split: if_splits)
  also have "\<dots> \<longleftrightarrow>
      (if (y + 1900) mod 100 = 0 then (y + 1900) mod 400 = 0 else (y + 1900) mod 4 = 0)"
    unfolding m by auto
  finally show "is_leap y \<longleftrightarrow>
      (if (y + 1900) mod 100 = 0 then (y + 1900) mod 400 = 0 else (y + 1900) mod 4 = 0)" .
  show "get_months_cumulative y = map (\<lambda>m. sum_list (take m (get_months y))) [0..<13]"
    by (simp add: get_months_cumulative_def get_months_def upt_rec)
  show "get_ydays y = sum_list (get_months y)"
    by (simp add: get_ydays_def get_months_def)
qed


section \<open>Sleeping\<close>

lemma clamp_of_usec:
  "timespec_to_timestamp_clamp
     \<lparr>tv_sec = ucast (us div 1000000), tv_nsec = us mod 1000000 * 1000\<rparr> =
     Some (ucast us * 1000)"
  (is "timespec_to_timestamp_clamp ?ts = _")
proof -
  have us: "uint us < 2 ^ 32"
    using uint_lt2p [of us] by simp
  have m: "uint us mod 1000000 < 1000000" "0 \<le> uint us mod 1000000"
    by simp_all
  have "uint (us mod 1000000) = uint us mod 1000000"
    by (simp add: uint_mod)
  then have "uint (us mod 1000000 * 1000) = uint us mod 1000000 * 1000"
    using m by (simp add: uint_word_ariths)
  then have nsec: "sint (tv_nsec ?ts) = uint us mod 1000000 * 1000"
    using m by (simp add: sint_of_nonneg)
  have "uint us div 1000000 < 2 ^ 32"
    using us by simp
  then have sec: "sint (tv_sec ?ts) = uint us div 1000000"
    by (simp add: sint_of_nonneg uint_div unsigned_ucast_eq take_bit_int_eq_self
        pos_imp_zdiv_nonneg_iff)
  have n: "nanoseconds ?ts = uint us * 1000"
    unfolding nanoseconds_def nsec sec NSEC_PER_SEC_def
    using div_mult_mod_eq [of "uint us" 1000000] by linarith
  have v: "valid_nsec ?ts" "0 \<le> sint (tv_sec ?ts)"
    using m by (simp_all only: valid_nsec_def nsec sec NSEC_PER_SEC_def)
      (simp_all add: pos_imp_zdiv_nonneg_iff)
  have "(of_int (uint us * 1000) :: u64) = ucast us * 1000"
    by simp
  then show ?thesis
    using v us unfolding to_timestamp_split(2) [OF v] n by simp
qed

lemma clock_nanosleep_result:
  assumes "clock_nanosleep E clk 0 ts s = Some (r, s')"
    and "timespec_to_timestamp_clamp ts = Some t"
  shows "s' = s\<lparr>calls := calls s @
            [Call_poll_oneoff [\<lparr>sub_userdata = 0, sub_u = Sub_clock clk t 0 0\<rparr>] 1]\<rparr>"
    and "r = 0 \<or> r = ENOTSUP"
  using assms
  by (auto simp: clock_nanosleep_def wasi_defs call_host_def Let_def split: if_splits list.splits)

text \<open>
  \<open>usleep\<close> blocks in exactly one host call, a relative timer on the realtime clock of
  the requested number of microseconds (no overflow at any argument), and reports a failure
  of that call as \<open>ENOTSUP\<close> in \<open>errno\<close>.
\<close>

theorem usleep_requests_duration:
  assumes "usleep E us s = Some (r, s')"
  shows "calls s' = calls s @
           [Call_poll_oneoff
              [\<lparr>sub_userdata = 0, sub_u = Sub_clock CLOCK_REALTIME (ucast us * 1000) 0 0\<rparr>] 1] \<and>
         uint (ucast us * 1000 :: u64) = uint us * 1000 \<and>
         (r = 0 \<and> errno s' = errno s \<or> r = -1 \<and> errno s' = ENOTSUP)"
proof -
  obtain e s1 where
    call: "clock_nanosleep E CLOCK_REALTIME 0
             \<lparr>tv_sec = ucast (us div 1000000), tv_nsec = us mod 1000000 * 1000\<rparr> s = Some (e, s1)"
    and r: "(r, s') = (if e \<noteq> 0 then (-1, s1\<lparr>errno := e\<rparr>) else (0, s1))"
    using assms by (auto simp: usleep_def split: bind_splits)
  have "uint us < 2 ^ 32"
    using uint_lt2p [of us] by simp
  then have "uint (ucast us * 1000 :: u64) = uint us * 1000"
    by (simp add: uint_word_ariths unsigned_ucast_eq take_bit_int_eq_self)
  then show ?thesis
    using clock_nanosleep_result [OF call clamp_of_usec] r by (auto split: if_splits)
qed

definition idle_env :: env where
  "idle_env = \<lparr>host = (\<lambda>h c. \<lparr>status = 0, size_out = 1, size2_out = 0, u64_out = 0, fd_out = 0,
     roflags_out = 0, bytes_out = [], ptrs_out = [],
     fdstat_out = \<lparr>fs_filetype = 0, fs_flags = 0, fs_rights_base = 0, fs_rights_inheriting = 0\<rparr>,
     filestat_out = \<lparr>fst_dev = 0, fst_ino = 0, fst_filetype = 0, fst_nlink = 0, fst_size = 0,
       fst_atim = 0, fst_mtim = 0, fst_ctim = 0\<rparr>,
     prestat_out = \<lparr>pr_tag = 0, pr_name_len = 0\<rparr>,
     events_out = [\<lparr>ev_userdata = 0, ev_error = 0, ev_type = 0, ev_nbytes = 0, ev_flags = 0\<rparr>]\<rparr>),
     allocator = (\<lambda>_ _. Allocated), chdir_linked = False\<rparr>"

definition idle_libc :: libc where
  "idle_libc = \<lparr>errno = 0, calls = [], allocs = 0\<rparr>"

lemma idle_usleep:
  "usleep idle_env 1500000 idle_libc = Some (0, idle_libc\<lparr>calls := [Call_poll_oneoff
     [\<lparr>sub_userdata = 0, sub_u = Sub_clock CLOCK_REALTIME 1500000000 0 0\<rparr>] 1]\<rparr>)"
proof -
  have "timespec_to_timestamp_clamp \<lparr>tv_sec = 1, tv_nsec = 500000000\<rparr> = Some 1500000000"
    using clamp_of_usec [of 1500000] by simp
  then show ?thesis
    by (simp add: usleep_def clock_nanosleep_def wasi_defs call_host_def idle_env_def
        idle_libc_def)
qed

theorem usleep_requests_duration_witness:
  "\<exists>s'. usleep idle_env 1500000 idle_libc = Some (0, s') \<and>
     calls s' = [Call_poll_oneoff
       [\<lparr>sub_userdata = 0, sub_u = Sub_clock CLOCK_REALTIME 1500000000 0 0\<rparr>] 1] \<and> errno s' = 0"
  using idle_usleep usleep_requests_duration [OF idle_usleep] by (simp add: idle_libc_def)

end
