(* ===== verification/Wasi_Fs.thy ===== *)
theory Wasi_Fs
  imports Wasi_Time
begin

text \<open>
  The file-system operations on a directory descriptor and a relative path, the
  \<open>__wasilibc_nocwd_*\<close> functions of \<open>cloudlibc/src/libc\<close> (\<open>openat.c\<close>, \<open>faccessat.c\<close>,
  \<open>fstatat.c\<close>, \<open>mkdirat.c\<close>, \<open>utimensat.c\<close>, \<open>linkat.c\<close>, \<open>readlinkat.c\<close>,
  \<open>symlinkat.c\<close>, \<open>renameat.c\<close>), with \<open>stat_impl.h\<close>, \<open>fstat.c\<close>, \<open>futimens.c\<close>,
  \<open>__wasilibc_rmdirat.c\<close> and \<open>__wasilibc_unlinkat.c\<close>.

  The operations that make one host call and translate its error share the contract of the
  locale \<open>host_operation\<close>.
\<close>

section \<open>One host call, translated\<close>

locale host_operation =
  fixes op :: "env \<Rightarrow> 'a libc_scheme \<Rightarrow> c_int \<times> 'a libc_scheme"
    and c :: wasi_call
  assumes op_def: "op E s =
    (let (r, s') = call_host E c s in check_error (ucast (status r)) s')"
begin

lemma one_call: "calls (snd (op E s)) = calls s @ [c]"
  by (simp add: op_def call_host_def check_error_def fail_def)

lemma success_iff:
  "fst (op E s) = 0 \<longleftrightarrow> (ucast (status (host E (calls s) c)) :: errno_t) = 0"
  by (simp add: op_def call_host_def check_error_def fail_def)

lemma result:
  "op E s = (if (ucast (status (host E (calls s) c)) :: errno_t) = 0
             then (0, s\<lparr>calls := calls s @ [c]\<rparr>)
             else (-1, s\<lparr>calls := calls s @ [c],
                         errno := ucast (ucast (status (host E (calls s) c)) :: errno_t)\<rparr>))"
  by (simp add: op_def call_host_def check_error_def fail_def)

end

section \<open>Constants\<close>

abbreviation (input) RIGHTS_FD_DATASYNC :: u64 where "RIGHTS_FD_DATASYNC \<equiv> 0x1"
abbreviation (input) RIGHTS_FD_READ :: u64 where "RIGHTS_FD_READ \<equiv> 0x2"
abbreviation (input) RIGHTS_FD_SEEK :: u64 where "RIGHTS_FD_SEEK \<equiv> 0x4"
abbreviation (input) RIGHTS_FD_TELL :: u64 where "RIGHTS_FD_TELL \<equiv> 0x20"
abbreviation (input) RIGHTS_FD_WRITE :: u64 where "RIGHTS_FD_WRITE \<equiv> 0x40"
abbreviation (input) RIGHTS_FD_ALLOCATE :: u64 where "RIGHTS_FD_ALLOCATE \<equiv> 0x100"
abbreviation (input) RIGHTS_FD_READDIR :: u64 where "RIGHTS_FD_READDIR \<equiv> 0x4000"
abbreviation (input) RIGHTS_FD_FILESTAT_SET_SIZE :: u64 where
  "RIGHTS_FD_FILESTAT_SET_SIZE \<equiv> 0x400000"

abbreviation (input) O_NOFOLLOW :: c_int where "O_NOFOLLOW \<equiv> 0x01000000"
abbreviation (input) O_EXEC :: c_int where "O_EXEC \<equiv> 0x02000000"
abbreviation (input) O_RDONLY :: c_int where "O_RDONLY \<equiv> 0x04000000"
abbreviation (input) O_SEARCH :: c_int where "O_SEARCH \<equiv> 0x08000000"
abbreviation (input) O_WRONLY :: c_int where "O_WRONLY \<equiv> 0x10000000"
abbreviation (input) O_RDWR :: c_int where "O_RDWR \<equiv> 0x14000000"
abbreviation (input) O_ACCMODE :: c_int where "O_ACCMODE \<equiv> 0x1E000000"
abbreviation (input) O_DIRECTORY :: c_int where "O_DIRECTORY \<equiv> 0x2000"
abbreviation (input) O_NONBLOCK :: c_int where "O_NONBLOCK \<equiv> 4"

abbreviation (input) AT_SYMLINK_NOFOLLOW :: c_int where "AT_SYMLINK_NOFOLLOW \<equiv> 1"
abbreviation (input) AT_SYMLINK_FOLLOW :: c_int where "AT_SYMLINK_FOLLOW \<equiv> 2"
abbreviation (input) AT_REMOVEDIR :: c_int where "AT_REMOVEDIR \<equiv> 4"
abbreviation (input) AT_FDCWD :: c_int where "AT_FDCWD \<equiv> -2"

section \<open>Errors\<close>

definition errno_fixup_directory :: "u32 \<Rightarrow> errno_t \<Rightarrow> errno_t" where
  "errno_fixup_directory fd error = error"

definition errno_fixup_socket :: "u32 \<Rightarrow> errno_t \<Rightarrow> errno_t" where
  "errno_fixup_socket fd error = error"

section \<open>File status\<close>

record stat =
  st_dev :: u64
  st_ino :: u64
  st_nlink :: u64
  st_mode :: u32
  st_size :: u64
  st_atim :: timespec
  st_mtim :: timespec
  st_ctim :: timespec

abbreviation (input) S_IFBLK :: u32 where "S_IFBLK \<equiv> 0x6000"
abbreviation (input) S_IFCHR :: u32 where "S_IFCHR \<equiv> 0x2000"
abbreviation (input) S_IFDIR :: u32 where "S_IFDIR \<equiv> 0x4000"
abbreviation (input) S_IFLNK :: u32 where "S_IFLNK \<equiv> 0xa000"
abbreviation (input) S_IFREG :: u32 where "S_IFREG \<equiv> 0x8000"
abbreviation (input) S_IFSOCK :: u32 where "S_IFSOCK \<equiv> 0xc000"

definition S_IFMT :: u32 where
  "S_IFMT = S_IFBLK OR S_IFCHR OR S_IFDIR OR S_IFSOCK OR S_IFLNK OR S_IFREG OR S_IFSOCK"

definition S_ISDIR :: "u32 \<Rightarrow> bool" where
  "S_ISDIR m \<longleftrightarrow> m AND S_IFMT = S_IFDIR"

definition mode_of_filetype :: "u8 \<Rightarrow> u32" where
  "mode_of_filetype t =
     (if t = 1 then S_IFBLK else if t = 2 then S_IFCHR else if t = 3 then S_IFDIR
      else if t = 4 then S_IFREG else if t = 5 \<or> t = 6 then S_IFSOCK
      else if t = 7 then S_IFLNK else 0)"

definition to_public_stat :: "filestat \<Rightarrow> stat" where
  "to_public_stat f =
     \<lparr>st_dev = fst_dev f, st_ino = fst_ino f, st_nlink = fst_nlink f,
      st_mode = 0 OR mode_of_filetype (fst_filetype f), st_size = fst_size f,
      st_atim = timestamp_to_timespec (fst_atim f),
      st_mtim = timestamp_to_timespec (fst_mtim f),
      st_ctim = timestamp_to_timespec (fst_ctim f)\<rparr>"

text \<open>
  One of the two times of \<open>utimens_get_timestamps\<close>: \<open>UTIME_NOW\<close> is -1, \<open>UTIME_OMIT\<close> is -2
  in the nanosecond field.  The result is the timestamp and the flag bit to set.
\<close>

definition utimens_one :: "u16 \<Rightarrow> u16 \<Rightarrow> timespec \<Rightarrow> (u64 \<times> u16) option" where
  "utimens_one set_flag now_flag ts =
     (if tv_nsec ts = -1 then Some (0, now_flag)
      else if tv_nsec ts = -2 then Some (0, 0)
      else map_option (\<lambda>t. (t, set_flag)) (timespec_to_timestamp_exact ts))"

definition utimens_get_timestamps ::
  "(timespec \<times> timespec) option \<Rightarrow> (u64 \<times> u64 \<times> u16) option" where
  "utimens_get_timestamps tms =
     (case tms of
        None \<Rightarrow> Some (0, 0, 2 OR 8)
      | Some (t0, t1) \<Rightarrow> do {
          (atim, f0) \<leftarrow> utimens_one 1 2 t0;
          (mtim, f1) \<leftarrow> utimens_one 4 8 t1;
          Some (atim, mtim, 0 OR f0 OR f1) })"

definition fstat ::
  "env \<Rightarrow> u32 \<Rightarrow> 'a libc_scheme \<Rightarrow> (c_int \<times> stat option) \<times> 'a libc_scheme" where
  "fstat E fildes s =
     (let (error, internal_stat, s) = wasi_fd_filestat_get E fildes s
      in if error \<noteq> 0 then ((-1, None), s\<lparr>errno := ucast error\<rparr>)
         else ((0, Some (to_public_stat internal_stat)), s))"

definition nocwd_fstatat ::
  "env \<Rightarrow> u32 \<Rightarrow> string \<Rightarrow> c_int \<Rightarrow> 'a libc_scheme \<Rightarrow> (c_int \<times> stat option) \<times> 'a libc_scheme" where
  "nocwd_fstatat E fd path flag s =
     (let lookup_flags = (if flag AND AT_SYMLINK_NOFOLLOW = 0 then 1 else 0);
          (error, internal_stat, s) = wasi_path_filestat_get E fd lookup_flags path s
      in if error \<noteq> 0
         then ((-1, None), s\<lparr>errno := ucast (errno_fixup_directory fd error)\<rparr>)
         else ((0, Some (to_public_stat internal_stat)), s))"

definition futimens ::
  "env \<Rightarrow> u32 \<Rightarrow> (timespec \<times> timespec) option \<Rightarrow> 'a libc_scheme \<Rightarrow> c_int \<times> 'a libc_scheme" where
  "futimens E fd tms s =
     (case utimens_get_timestamps tms of
        None \<Rightarrow> fail (EINVAL :: errno_t) s
      | Some (atim, mtim, flags) \<Rightarrow>
          let (error, s) = wasi_fd_filestat_set_times E fd atim mtim flags s
          in check_error error s)"

definition nocwd_utimensat ::
  "env \<Rightarrow> u32 \<Rightarrow> string \<Rightarrow> (timespec \<times> timespec) option \<Rightarrow> c_int \<Rightarrow>
   'a libc_scheme \<Rightarrow> c_int \<times> 'a libc_scheme" where
  "nocwd_utimensat E fd path tms flag s =
     (case utimens_get_timestamps tms of
        None \<Rightarrow> fail (EINVAL :: errno_t) s
      | Some (atim, mtim, flags) \<Rightarrow>
          let lookup_flags = (if flag AND AT_SYMLINK_NOFOLLOW = 0 then 1 else 0);
              (error, s) = wasi_path_filestat_set_times E fd lookup_flags path atim mtim flags s
          in check_error (errno_fixup_directory fd error) s)"

section \<open>Opening\<close>

text \<open>
  The rights to ask for, from the access mode; \<^const>\<open>None\<close> is an invalid access mode.
\<close>

definition open_rights :: "c_int \<Rightarrow> u64 option" where
  "open_rights oflag =
     (let max0 = NOT (RIGHTS_FD_DATASYNC OR RIGHTS_FD_READ OR RIGHTS_FD_WRITE OR
                      RIGHTS_FD_ALLOCATE OR RIGHTS_FD_READDIR OR RIGHTS_FD_FILESTAT_SET_SIZE);
          acc = oflag AND O_ACCMODE
      in if acc = O_RDONLY \<or> acc = O_RDWR \<or> acc = O_WRONLY
         then let max1 = (if oflag AND O_RDONLY \<noteq> 0
                          then max0 OR (RIGHTS_FD_READ OR RIGHTS_FD_READDIR) else max0)
              in Some (if oflag AND O_WRONLY \<noteq> 0
                       then max1 OR (RIGHTS_FD_DATASYNC OR RIGHTS_FD_WRITE OR
                              RIGHTS_FD_ALLOCATE OR RIGHTS_FD_FILESTAT_SET_SIZE)
                       else max1)
         else if acc = O_EXEC then Some max0
         else if acc = O_SEARCH then Some max0
         else None)"

definition nocwd_openat_nomode ::
  "env \<Rightarrow> u32 \<Rightarrow> string \<Rightarrow> c_int \<Rightarrow> 'a libc_scheme \<Rightarrow> c_int \<times> 'a libc_scheme" where
  "nocwd_openat_nomode E fd path oflag s =
     (case open_rights oflag of
        None \<Rightarrow> fail (EINVAL :: errno_t) s
      | Some max_rights \<Rightarrow>
          let (error, fsb_cur, s) = wasi_fd_fdstat_get E fd s
          in if error \<noteq> 0 then fail error s
             else let lookup_flags = (if oflag AND O_NOFOLLOW = 0 then 1 else 0);
                      fs_flags = ucast (oflag AND 0xfff);
                      rights_base = max_rights AND fs_rights_inheriting fsb_cur;
                      rights_inheriting = fs_rights_inheriting fsb_cur;
                      (error, newfd, s) =
                        wasi_path_open E fd lookup_flags path
                          (ucast (signed_drop_bit 12 oflag AND 0xfff))
                          rights_base rights_inheriting fs_flags s
                  in if error \<noteq> 0 then fail (errno_fixup_directory fd error) s
                     else (newfd, s))"

definition nocwd_faccessat ::
  "env \<Rightarrow> u32 \<Rightarrow> string \<Rightarrow> c_int \<Rightarrow> c_int \<Rightarrow> 'a libc_scheme \<Rightarrow> c_int \<times> 'a libc_scheme" where
  "nocwd_faccessat E fd path amode flag s =
     (if amode AND NOT (0 OR 4 OR 2 OR 1) \<noteq> 0 \<or> flag AND NOT 0 \<noteq> 0
      then fail (EINVAL :: errno_t) s
      else let (error, file, s) = wasi_path_filestat_get E fd 1 path s
           in if error \<noteq> 0 then fail (errno_fixup_directory fd error) s
              else if amode \<noteq> 0
              then let (error, directory, s) = wasi_fd_fdstat_get E fd s
                   in if error \<noteq> 0 then fail error s
                      else let min0 = 0;
                               min1 = (if amode AND 4 \<noteq> 0
                                       then min0 OR (if fst_filetype file = 3
                                                     then RIGHTS_FD_READDIR else RIGHTS_FD_READ)
                                       else min0);
                               min2 = (if amode AND 2 \<noteq> 0 then min1 OR RIGHTS_FD_WRITE else min1)
                           in if min2 AND fs_rights_inheriting directory \<noteq> min2
                              then fail (EACCES :: errno_t) s
                              else (0, s)
              else (0, s))"

section \<open>Other operations on paths\<close>

definition nocwd_mkdirat_nomode ::
  "env \<Rightarrow> u32 \<Rightarrow> string \<Rightarrow> 'a libc_scheme \<Rightarrow> c_int \<times> 'a libc_scheme" where
  "nocwd_mkdirat_nomode E fd path s =
     (let (error, s) = wasi_path_create_directory E fd path s
      in check_error (errno_fixup_directory fd error) s)"

definition nocwd_linkat ::
  "env \<Rightarrow> u32 \<Rightarrow> string \<Rightarrow> u32 \<Rightarrow> string \<Rightarrow> c_int \<Rightarrow> 'a libc_scheme \<Rightarrow> c_int \<times> 'a libc_scheme" where
  "nocwd_linkat E fd1 path1 fd2 path2 flag s =
     (let lookup1_flags = (if flag AND AT_SYMLINK_FOLLOW \<noteq> 0 then 1 else 0);
          (error, s) = wasi_path_link E fd1 lookup1_flags path1 fd2 path2 s
      in check_error (errno_fixup_directory fd1 (errno_fixup_directory fd2 error)) s)"

definition nocwd_readlinkat ::
  "env \<Rightarrow> u32 \<Rightarrow> string \<Rightarrow> size_t \<Rightarrow> 'a libc_scheme \<Rightarrow> (c_int \<times> u8 list) \<times> 'a libc_scheme" where
  "nocwd_readlinkat E fd path bufsize s =
     (let (error, bufused, buf, s) = wasi_path_readlink E fd path bufsize s
      in if error \<noteq> 0
         then ((-1, buf), s\<lparr>errno := ucast (errno_fixup_directory fd error)\<rparr>)
         else ((bufused, buf), s))"

definition nocwd_symlinkat ::
  "env \<Rightarrow> string \<Rightarrow> u32 \<Rightarrow> string \<Rightarrow> 'a libc_scheme \<Rightarrow> c_int \<times> 'a libc_scheme" where
  "nocwd_symlinkat E path1 fd path2 s =
     (let (error, s) = wasi_path_symlink E path1 fd path2 s
      in check_error (errno_fixup_directory fd error) s)"

definition nocwd_renameat ::
  "env \<Rightarrow> u32 \<Rightarrow> string \<Rightarrow> u32 \<Rightarrow> string \<Rightarrow> 'a libc_scheme \<Rightarrow> c_int \<times> 'a libc_scheme" where
  "nocwd_renameat E oldfd old newfd new s =
     (let (error, s) = wasi_path_rename E oldfd old newfd new s
      in check_error (errno_fixup_directory oldfd (errno_fixup_directory newfd error)) s)"

definition nocwd_rmdirat ::
  "env \<Rightarrow> u32 \<Rightarrow> string \<Rightarrow> 'a libc_scheme \<Rightarrow> c_int \<times> 'a libc_scheme" where
  "nocwd_rmdirat E fd path s =
     (let (error, s) = wasi_path_remove_directory E fd path s
      in check_error (errno_fixup_directory fd error) s)"

definition nocwd_unlinkat ::
  "env \<Rightarrow> u32 \<Rightarrow> string \<Rightarrow> 'a libc_scheme \<Rightarrow> c_int \<times> 'a libc_scheme" where
  "nocwd_unlinkat E fd path s =
     (let (error, s) = wasi_path_unlink_file E fd path s in check_error error s)"

interpretation mkdir_op: host_operation
  "\<lambda>E. nocwd_mkdirat_nomode E fd path" "Call_path_create_directory fd path" for fd path
  by unfold_locales
     (simp add: nocwd_mkdirat_nomode_def wasi_defs errno_fixup_directory_def call_host_def)

interpretation link_op: host_operation
  "\<lambda>E. nocwd_linkat E fd1 path1 fd2 path2 flag"
  "Call_path_link fd1 (if flag AND AT_SYMLINK_FOLLOW \<noteq> 0 then 1 else 0) path1 fd2 path2"
  for fd1 path1 fd2 path2 flag
  by unfold_locales
     (simp add: nocwd_linkat_def wasi_defs errno_fixup_directory_def call_host_def)

interpretation symlink_op: host_operation
  "\<lambda>E. nocwd_symlinkat E path1 fd path2" "Call_path_symlink path1 fd path2" for path1 fd path2
  by unfold_locales
     (simp add: nocwd_symlinkat_def wasi_defs errno_fixup_directory_def call_host_def)

interpretation rename_op: host_operation
  "\<lambda>E. nocwd_renameat E oldfd old newfd new" "Call_path_rename oldfd old newfd new"
  for oldfd old newfd new
  by unfold_locales
     (simp add: nocwd_renameat_def wasi_defs errno_fixup_directory_def call_host_def)

interpretation rmdir_op: host_operation
  "\<lambda>E. nocwd_rmdirat E fd path" "Call_path_remove_directory fd path" for fd path
  by unfold_locales
     (simp add: nocwd_rmdirat_def wasi_defs errno_fixup_directory_def call_host_def)

interpretation unlink_op: host_operation
  "\<lambda>E. nocwd_unlinkat E fd path" "Call_path_unlink_file fd path" for fd path
  by unfold_locales (simp add: nocwd_unlinkat_def wasi_defs call_host_def)


section \<open>Properties\<close>

text \<open>
  The rights of WASI that belong to reading (\<open>FD_READ\<close>, \<open>FD_READDIR\<close>) and to writing
  (\<open>FD_DATASYNC\<close>, \<open>FD_WRITE\<close>, \<open>FD_ALLOCATE\<close>, \<open>FD_FILESTAT_SET_SIZE\<close>), by their bit numbers.
\<close>

definition mode_allows :: "c_int \<Rightarrow> nat \<Rightarrow> bool" where
  "mode_allows oflag k \<longleftrightarrow> (k \<in> {1, 14} \<longrightarrow> oflag AND O_RDONLY \<noteq> 0) \<and>
     (k \<in> {0, 6, 8, 22} \<longrightarrow> oflag AND O_WRONLY \<noteq> 0)"

lemma rights_bits:
  "bit RIGHTS_FD_DATASYNC k \<longleftrightarrow> k = 0" "bit RIGHTS_FD_READ k \<longleftrightarrow> k = 1"
  "bit RIGHTS_FD_WRITE k \<longleftrightarrow> k = 6" "bit RIGHTS_FD_ALLOCATE k \<longleftrightarrow> k = 8"
  "bit RIGHTS_FD_READDIR k \<longleftrightarrow> k = 14" "bit RIGHTS_FD_FILESTAT_SET_SIZE k \<longleftrightarrow> k = 22"
  using bit_exp_word [of 0 k, where ?'w = 64] bit_exp_word [of 1 k, where ?'w = 64]
    bit_exp_word [of 6 k, where ?'w = 64] bit_exp_word [of 8 k, where ?'w = 64]
    bit_exp_word [of 14 k, where ?'w = 64] bit_exp_word [of 22 k, where ?'w = 64]
  by simp_all

text \<open>The access bits of an open flag decide the bits of the rights.\<close>

lemma access_bits:
  fixes oflag :: c_int
  assumes "oflag AND O_ACCMODE = acc"
  shows "oflag AND O_RDONLY = acc AND O_RDONLY" and "oflag AND O_WRONLY = acc AND O_WRONLY"
proof -
  have "acc AND O_RDONLY = oflag AND (O_ACCMODE AND O_RDONLY)"
    and "acc AND O_WRONLY = oflag AND (O_ACCMODE AND O_WRONLY)"
    unfolding assms [symmetric] by (simp_all only: and.assoc)
  then show "oflag AND O_RDONLY = acc AND O_RDONLY" "oflag AND O_WRONLY = acc AND O_WRONLY"
    by simp_all
qed

lemma open_rights_bit:
  assumes "open_rights oflag = Some m" and "k < 64"
  shows "bit m k \<longleftrightarrow> mode_allows oflag k"
proof -
  define acc where "acc = oflag AND O_ACCMODE"
  note mode = access_bits [OF acc_def [symmetric]]
  let ?max = "NOT (RIGHTS_FD_DATASYNC OR RIGHTS_FD_READ OR RIGHTS_FD_WRITE OR
      RIGHTS_FD_ALLOCATE OR RIGHTS_FD_READDIR OR RIGHTS_FD_FILESTAT_SET_SIZE) :: u64"
  have max: "bit ?max k \<longleftrightarrow> k \<notin> {0, 1, 6, 8, 14, 22}"
    using assms(2) by (simp only: bit_not_iff bit_or_iff rights_bits) (auto simp: possible_bit_def)
  consider (access) "acc = O_RDONLY \<or> acc = O_RDWR \<or> acc = O_WRONLY"
    "m = (let max1 = (if oflag AND O_RDONLY \<noteq> 0 then ?max OR (RIGHTS_FD_READ OR RIGHTS_FD_READDIR) else ?max)
          in if oflag AND O_WRONLY \<noteq> 0
             then max1 OR (RIGHTS_FD_DATASYNC OR RIGHTS_FD_WRITE OR RIGHTS_FD_ALLOCATE OR RIGHTS_FD_FILESTAT_SET_SIZE)
             else max1)"
  | (other) "acc = O_EXEC \<or> acc = O_SEARCH" "m = ?max"
    using assms(1) unfolding open_rights_def Let_def acc_def [symmetric] by (auto split: if_splits)
  then show ?thesis
  proof cases
    case access
    then show ?thesis
      unfolding Let_def access(2) mode_allows_def by (auto simp only: bit_or_iff rights_bits max split: if_splits)
  next
    case other
    then have "oflag AND O_RDONLY = 0" "oflag AND O_WRONLY = 0"
      using mode by auto
    then show ?thesis
      unfolding other(2) max mode_allows_def by auto
  qed
qed

lemma openat_calls:
  assumes "nocwd_openat_nomode E fd path oflag s = (r, s')"
  shows "(open_rights oflag = None \<and> calls s' = calls s \<and> r = -1 \<and> errno s' = EINVAL) \<or>
         (\<exists>m. open_rights oflag = Some m \<and>
            (calls s' = calls s @ [Call_fd_fdstat_get fd] \<and> r = -1 \<or>
             calls s' = calls s @ [Call_fd_fdstat_get fd,
               Call_path_open fd (if oflag AND O_NOFOLLOW = 0 then 1 else 0) path
                 (ucast (signed_drop_bit 12 oflag AND 0xfff))
                 (m AND fs_rights_inheriting
                    (fdstat_out (host E (calls s) (Call_fd_fdstat_get fd))))
                 (fs_rights_inheriting (fdstat_out (host E (calls s) (Call_fd_fdstat_get fd))))
                 (ucast (oflag AND 0xfff))]))"
  using assms
  by (cases "open_rights oflag")
     (auto simp: nocwd_openat_nomode_def wasi_defs call_host_def fail_def Let_def
       split: if_splits)

text \<open>
  C11. Opening a file asks the host, with the path unchanged, for exactly those rights that
  the directory descriptor confers and the access mode allows: the rights to read a file or a
  directory only with an access mode that includes reading, the rights to write, to allocate,
  to synchronise data and to set the size only with one that includes writing, and every other
  right.  The rights to pass on are those of the directory, and the flags are those of the call.
\<close>

theorem openat_rights_confined:
  assumes "nocwd_openat_nomode E fd path oflag s = (r, s')"
    and "Call_path_open fd' lookup path' oflags base inh fl \<in> set (drop (length (calls s)) (calls s'))"
  shows "fd' = fd \<and> path' = path \<and>
         inh = fs_rights_inheriting (fdstat_out (host E (calls s) (Call_fd_fdstat_get fd))) \<and>
         (\<forall>k. bit base k \<longleftrightarrow> bit inh k \<and>
            (k \<in> {1, 14} \<longrightarrow> oflag AND O_RDONLY \<noteq> 0) \<and>
            (k \<in> {0, 6, 8, 22} \<longrightarrow> oflag AND O_WRONLY \<noteq> 0)) \<and>
         lookup = (if oflag AND O_NOFOLLOW = 0 then 1 else 0) \<and>
         oflags = ucast (signed_drop_bit 12 oflag AND 0xfff) \<and> fl = ucast (oflag AND 0xfff)"
proof -
  obtain m where m: "open_rights oflag = Some m"
    and call: "fd' = fd" "path' = path" "base = m AND inh"
      "inh = fs_rights_inheriting (fdstat_out (host E (calls s) (Call_fd_fdstat_get fd)))"
      "lookup = (if oflag AND O_NOFOLLOW = 0 then 1 else 0)"
      "oflags = ucast (signed_drop_bit 12 oflag AND 0xfff)" "fl = ucast (oflag AND 0xfff)"
    using openat_calls [OF assms(1)] assms(2) by auto
  have "bit base k \<longleftrightarrow> bit inh k \<and> mode_allows oflag k" for k
    using open_rights_bit [OF m, of k] bit_imp_le_length [of inh k] unfolding call(3) bit_and_iff by auto
  then show ?thesis
    unfolding mode_allows_def using call by blast
qed

text \<open>
  The file type survives the translation into \<open>st_mode\<close>: a status reports a directory
  exactly when the host's file type is a directory, different WASI file types give different
  modes except the two socket types, and the sizes and times are those of the host.
\<close>

theorem public_stat_faithful:
  "(S_ISDIR (st_mode (to_public_stat f)) \<longleftrightarrow> fst_filetype f = 3) \<and>
   (st_mode (to_public_stat f) = st_mode (to_public_stat g) \<longleftrightarrow>
      fst_filetype f = fst_filetype g \<or>
      {fst_filetype f, fst_filetype g} = {5, 6} \<or>
      {fst_filetype f, fst_filetype g} \<inter> {1..7} = {}) \<and>
   st_size (to_public_stat f) = fst_size f \<and>
   timespec_to_timestamp_exact (st_mtim (to_public_stat f)) = Some (fst_mtim f)"
proof (intro conjI)
  have range: "t \<in> {1..7} \<longleftrightarrow> t = 1 \<or> t = 2 \<or> t = 3 \<or> t = 4 \<or> t = 5 \<or> t = 6 \<or> t = 7" for t :: u8
  proof -
    have "t \<in> {1..7} \<longleftrightarrow> unat t \<in> {1..7}"
      by (simp add: word_le_nat_alt)
    also have "\<dots> \<longleftrightarrow> unat t \<in> {1, 2, 3, 4, 5, 6, 7}"
      by auto
    finally show ?thesis
      by (auto simp: word_unat_eq_iff)
  qed
  have pair: "{t, u} \<inter> {1..7} = {} \<longleftrightarrow> t \<notin> {1..7} \<and> u \<notin> {1..7}" for t u :: u8
    by blast
  show "S_ISDIR (st_mode (to_public_stat f)) \<longleftrightarrow> fst_filetype f = 3"
    by (simp add: to_public_stat_def mode_of_filetype_def S_ISDIR_def S_IFMT_def)
  show "st_mode (to_public_stat f) = st_mode (to_public_stat g) \<longleftrightarrow>
      fst_filetype f = fst_filetype g \<or>
      {fst_filetype f, fst_filetype g} = {5, 6} \<or>
      {fst_filetype f, fst_filetype g} \<inter> {1..7} = {}"
    unfolding pair range by (auto simp: to_public_stat_def mode_of_filetype_def doubleton_eq_iff)
qed (simp_all add: to_public_stat_def exact_of_timestamp)


text \<open>
  Each of the single-call operations on paths issues exactly its host call, succeeds
  exactly when the low 16 bits of the host's status are zero, and otherwise returns -1 with
  those bits in \<open>errno\<close>.
\<close>

lemma rename_reports_host_status:
  "nocwd_renameat E oldfd old newfd new s =
     (let c = Call_path_rename oldfd old newfd new;
          e = (ucast (status (host E (calls s) c)) :: errno_t)
      in if e = 0 then (0, s\<lparr>calls := calls s @ [c]\<rparr>)
         else (-1, s\<lparr>calls := calls s @ [c], errno := ucast e\<rparr>))"
  by (simp only: Let_def rename_op.result)

definition rights_env :: env where
  "rights_env = idle_env\<lparr>host := (\<lambda>h c. (host idle_env h c)\<lparr>fdstat_out :=
     \<lparr>fs_filetype = 3, fs_flags = 0, fs_rights_base = 0, fs_rights_inheriting = 0x46\<rparr>\<rparr>)\<rparr>"

theorem openat_rights_confined_witness:
  "nocwd_openat_nomode rights_env 3 ''f'' O_RDONLY idle_libc = (0, idle_libc\<lparr>calls :=
     [Call_fd_fdstat_get 3, Call_path_open 3 1 ''f'' 0 0x6 0x46 0]\<rparr>) \<and>
   bit (0x6 :: u64) 1 \<and> \<not> bit (0x6 :: u64) 6"
proof -
  let ?s' = "idle_libc\<lparr>calls := [Call_fd_fdstat_get 3,
      Call_path_open 3 1 ''f'' 0 0x6 0x46 0]\<rparr>"
  have run: "nocwd_openat_nomode rights_env 3 ''f'' O_RDONLY idle_libc = (0, ?s')"
    by (simp add: nocwd_openat_nomode_def open_rights_def wasi_defs call_host_def rights_env_def
        idle_env_def idle_libc_def)
  have "\<forall>k. bit (0x6 :: u64) k \<longleftrightarrow> bit (0x46 :: u64) k \<and>
      (k \<in> {1, 14} \<longrightarrow> O_RDONLY AND O_RDONLY \<noteq> 0) \<and> (k \<in> {0, 6, 8, 22} \<longrightarrow> O_RDONLY AND O_WRONLY \<noteq> 0)"
    using openat_rights_confined [OF run, of 3 1 "''f''" 0 "0x6" "0x46" 0] by (simp add: idle_libc_def)
  from spec [OF this, of 1] spec [OF this, of 6] run show ?thesis
    by simp
qed

end
