(* ===== verification/Relpath.thy ===== *)
theory Relpath
  imports Preopens Wasi_Fs
begin

text \<open>
  Resolving a path against the working directory and the preopened directories:
  \<open>make_absolute\<close> and \<open>__wasilibc_find_relpath_alloc\<close> of \<open>sources/chdir.c\<close> and
  \<open>__wasilibc_find_relpath\<close> of \<open>sources/preopens.c\<close>.

  The functions write their results into buffers that outlive the call, and the callers in
  \<open>posix.c\<close> keep pointers to them.  A buffer is a block of a small heap with its
  capacity, so that a copy that does not fit, the use of a freed block and the sharing of a
  block by two pointers are visible.  A pointer into memory of the caller is \<open>Lit\<close> with
  the string found there.  The static variables \<open>char *buf; size_t len\<close> that hold the
  buffers are the slots below; a \<open>char **\<close> argument is a slot.
\<close>

section \<open>Buffers\<close>

datatype cstr = Null | Heap nat | Lit string

text \<open>
  \<open>Make_absolute\<close> and \<open>Chdir\<close> are the statics of \<open>make_absolute\<close> and \<open>chdir\<close>, \<open>Relative\<close>
  and \<open>Relative_alt\<close> those of \<open>find_relpath\<close> and \<open>find_relpath_alt\<close> in \<open>posix.c\<close>, and
  \<open>Caller\<close> the buffer and length a caller passes to \<open>__wasilibc_find_relpath\<close>.
\<close>

datatype slot = Make_absolute | Chdir | Relative | Relative_alt | Caller

record paths_libc = preopen_libc +
  bufs :: "nat \<Rightarrow> (nat \<times> string) option"
  next_buf :: nat
  slots :: "slot \<Rightarrow> cstr \<times> size_t"
  wasilibc_cwd :: string
  cwd_mallocd :: bool

definition strlen :: "string \<Rightarrow> size_t" where
  "strlen p = of_nat (length p)"

definition deref :: "'a paths_libc_scheme \<Rightarrow> cstr \<Rightarrow> string option" where
  "deref s p = (case p of Null \<Rightarrow> None | Heap i \<Rightarrow> map_option snd (bufs s i) | Lit q \<Rightarrow> Some q)"

definition strcpy ::
  "cstr \<Rightarrow> string \<Rightarrow> 'a paths_libc_scheme \<Rightarrow> 'a paths_libc_scheme option" where
  "strcpy p src s =
     (case p of
        Heap i \<Rightarrow> (case bufs s i of
            Some (cap, _) \<Rightarrow> if length src < cap
              then Some (s\<lparr>bufs := (bufs s)(i \<mapsto> (cap, src))\<rparr>) else None
          | None \<Rightarrow> None)
      | _ \<Rightarrow> None)"

text \<open>A successful \<open>realloc\<close> returns a block of its own and releases the old one.\<close>

definition realloc ::
  "env \<Rightarrow> cstr \<Rightarrow> size_t \<Rightarrow> 'a paths_libc_scheme \<Rightarrow> (cstr \<times> 'a paths_libc_scheme) option" where
  "realloc E p n s =
     (let (ok, s) = alloc E n s; fresh = next_buf s
      in case p of
           Null \<Rightarrow> Some (if ok then (Heap fresh,
               s\<lparr>bufs := (bufs s)(fresh \<mapsto> (unat n, [])), next_buf := Suc fresh\<rparr>) else (Null, s))
         | Heap i \<Rightarrow> (case bufs s i of
             None \<Rightarrow> None
           | Some (_, q) \<Rightarrow> Some (if ok then (Heap fresh,
               s\<lparr>bufs := (bufs s)(i := None, fresh \<mapsto> (unat n, take (unat n) q)),
                 next_buf := Suc fresh\<rparr>) else (Null, s)))
         | Lit _ \<Rightarrow> None)"

definition set_slot :: "slot \<Rightarrow> cstr \<Rightarrow> size_t \<Rightarrow> 'a paths_libc_scheme \<Rightarrow> 'a paths_libc_scheme" where
  "set_slot x p n s = s\<lparr>slots := (slots s)(x := (p, n))\<rparr>"

text \<open>
  The idiom of both functions: enlarge the buffer of a slot to \<open>need\<close> bytes when its length
  is smaller.  The result tells whether the buffer can be used.
\<close>

definition grow :: "env \<Rightarrow> slot \<Rightarrow> size_t \<Rightarrow> 'a paths_libc_scheme \<Rightarrow> (bool \<times> 'a paths_libc_scheme) option" where
  "grow E x need s =
     (let (buf, len) = slots s x
      in if len < need
         then do { (tmp, s) \<leftarrow> realloc E buf need s;
                   Some (if tmp = Null then (False, s) else (True, set_slot x tmp need s)) }
         else Some (True, s))"

section \<open>Resolution\<close>

definition strip_dot :: "string \<Rightarrow> string" where
  "strip_dot path =
     (if char_at path 0 = CHR ''.'' \<and> is_slash (char_at path 1) then drop 2 path else path)"

definition make_absolute ::
  "env \<Rightarrow> string \<Rightarrow> 'a paths_libc_scheme \<Rightarrow> (cstr \<times> 'a paths_libc_scheme) option" where
  "make_absolute E path s =
     (if is_slash (char_at path 0) then Some (Lit path, s)
      else if path = [] \<or> path = ''.'' \<or> path = ''./'' then Some (Lit (wasilibc_cwd s), s)
      else let path = strip_dot path;
               cwd = wasilibc_cwd s
           in if cwd = [] then None
              else let cwd_len = strlen cwd;
                       path_len = strlen path;
                       need_slash = (if is_slash (last cwd) then 0 else 1);
                       alloc_len = cwd_len + path_len + 1 + need_slash
                   in do {
                     (ok, s) \<leftarrow> grow E Make_absolute alloc_len s;
                     if \<not> ok then Some (Null, s)
                     else do {
                       let buf = fst (slots s Make_absolute);
                       s \<leftarrow> strcpy buf (cwd @ (if need_slash = 1 then ''/'' else []) @ path) s;
                       Some (buf, s) } })"

text \<open>
  The result is the descriptor and \<open>abs_prefix\<close> (set on success); the relative path is left in
  the buffer of the slot.
\<close>

definition find_relpath_alloc ::
  "env \<Rightarrow> string \<Rightarrow> slot \<Rightarrow> bool \<Rightarrow> 'a paths_libc_scheme \<Rightarrow>
   ((c_int \<times> string) \<times> 'a paths_libc_scheme) option" where
  "find_relpath_alloc E path x can_realloc s = do {
     (abspath, s) \<leftarrow> make_absolute E path s;
     if abspath = Null then Some ((-1, []), s\<lparr>errno := ENOMEM\<rparr>)
     else do {
       abspath \<leftarrow> deref s abspath;
       let ((fd, abs_prefix, rel), s) = find_abspath abspath s;
       if fd = -1 then Some ((-1, []), s)
       else let rel_len = strlen rel
            in if snd (slots s x) < rel_len + 1 \<and> \<not> can_realloc
               then Some ((-1, abs_prefix), s\<lparr>errno := ERANGE\<rparr>)
               else do {
                 (ok, s) \<leftarrow> grow E x (rel_len + 1) s;
                 if \<not> ok then Some ((-1, abs_prefix), s\<lparr>errno := ENOMEM\<rparr>)
                 else do { s \<leftarrow> strcpy (fst (slots s x)) rel s;
                           Some ((fd, abs_prefix), s) } } } }"

text \<open>
  Without \<open>chdir\<close> in the program the relative path is a pointer into the argument.  The
  result is the descriptor, \<open>abs_prefix\<close> and \<open>*relative_path\<close>, a variable the caller has
  set to its buffer.
\<close>

definition find_relpath ::
  "env \<Rightarrow> string \<Rightarrow> 'a paths_libc_scheme \<Rightarrow>
   ((c_int \<times> string \<times> cstr) \<times> 'a paths_libc_scheme) option" where
  "find_relpath E path s =
     (if chdir_linked E
      then do { ((fd, abs_prefix), s) \<leftarrow> find_relpath_alloc E path Caller False s;
                Some ((fd, abs_prefix, fst (slots s Caller)), s) }
      else let ((fd, abs_prefix, rel), s) = find_abspath path s
           in Some ((fd, abs_prefix, if fd = -1 then fst (slots s Caller) else Lit rel), s))"

section \<open>The invariant of the buffers\<close>

definition buf_ok :: "'a paths_libc_scheme \<Rightarrow> cstr \<times> size_t \<Rightarrow> bool" where
  "buf_ok s b \<longleftrightarrow>
     b = (Null, 0) \<or>
     (\<exists>i q. fst b = Heap i \<and> i < next_buf s \<and> bufs s i = Some (unat (snd b), q))"

text \<open>
  Each buffer has the capacity its length variable records, and no two slots share a block.
\<close>

definition wf_bufs :: "'a paths_libc_scheme \<Rightarrow> bool" where
  "wf_bufs s \<longleftrightarrow>
     (\<forall>x. buf_ok s (slots s x)) \<and>
     (\<forall>x y. fst (slots s x) = fst (slots s y) \<and> fst (slots s x) \<noteq> Null \<longrightarrow> x = y)"

definition wf_cwd :: "string \<Rightarrow> bool" where
  "wf_cwd cwd \<longleftrightarrow> cwd \<noteq> [] \<and> is_slash (hd cwd) \<and> CHR 0x00 \<notin> set cwd"

definition wf_paths :: "'a paths_libc_scheme \<Rightarrow> bool" where
  "wf_paths s \<longleftrightarrow> assert_invariants s \<and> wf_bufs s \<and> wf_cwd (wasilibc_cwd s)"

lemma state_updates [simp]:
  "deref (s\<lparr>errno := e\<rparr>) p = deref s p" "deref (s\<lparr>allocs := a\<rparr>) p = deref s p"
  "deref (s\<lparr>calls := cs\<rparr>) p = deref s p" "deref (s\<lparr>slots := f\<rparr>) p = deref s p"
  "wf_bufs (s\<lparr>errno := e\<rparr>) = wf_bufs s" "wf_bufs (s\<lparr>allocs := a\<rparr>) = wf_bufs s"
  "wf_bufs (s\<lparr>calls := cs\<rparr>) = wf_bufs s"
  "assert_invariants (s\<lparr>errno := e\<rparr>) = assert_invariants s"
  "assert_invariants (s\<lparr>allocs := a\<rparr>) = assert_invariants s"
  "assert_invariants (s\<lparr>calls := cs\<rparr>) = assert_invariants s"
  by (simp_all add: deref_def wf_bufs_def buf_ok_def assert_invariants_def split: cstr.split)

text \<open>
  The effect of filling a slot: only the block of that slot, its variables and the
  allocator's state change.
\<close>

definition filled :: "slot \<Rightarrow> 'a paths_libc_scheme \<Rightarrow> 'a paths_libc_scheme \<Rightarrow> bool" where
  "filled x s s' \<longleftrightarrow>
     calls s' = calls s \<and> preopens s' = preopens s \<and>
     preopen_capacity s' = preopen_capacity s \<and> wasilibc_cwd s' = wasilibc_cwd s \<and>
     cwd_mallocd s' = cwd_mallocd s \<and> paths_libc.more s' = paths_libc.more s \<and> wf_bufs s' \<and>
     (\<forall>y. y \<noteq> x \<longrightarrow> slots s' y = slots s y \<and>
           deref s' (fst (slots s' y)) = deref s (fst (slots s y)))"


lemma filled_simps:
  assumes "filled x s s'"
  shows "calls s' = calls s" "preopens s' = preopens s" "preopen_capacity s' = preopen_capacity s"
    "wasilibc_cwd s' = wasilibc_cwd s" "cwd_mallocd s' = cwd_mallocd s"
    "paths_libc.more s' = paths_libc.more s" "wf_bufs s'"
  using assms by (simp_all add: filled_def)

lemma filled_errno [simp]: "filled x s (s'\<lparr>errno := e\<rparr>) = filled x s s'"
  by (simp add: filled_def)

lemma unat_strlen_Suc:
  "length src + 1 < 2 ^ 32 \<Longrightarrow> unat (strlen src + 1) = length src + 1"
  by (simp add: strlen_def unat_word_ariths unat_of_nat)

lemma wf_bufs_slot:
  assumes "wf_bufs s"
  obtains (null) "slots s x = (Null, 0)"
  | (block) i q where "fst (slots s x) = Heap i" "i < next_buf s"
      "bufs s i = Some (unat (snd (slots s x)), q)"
  using assms unfolding wf_bufs_def buf_ok_def by blast

lemma wf_bufs_other:
  assumes "wf_bufs s" and "fst (slots s x) = Heap i" and "y \<noteq> x"
  shows "fst (slots s y) \<noteq> Heap i"
  using assms unfolding wf_bufs_def by (metis cstr.distinct(1))

text \<open>Overwriting the block of a slot.\<close>

lemma overwrite_filled:
  assumes wf: "wf_bufs s" and blk: "fst (slots s x) = Heap i"
    and old: "bufs s i = Some (unat (snd (slots s x)), q)"
  shows "filled x s (s\<lparr>bufs := (bufs s)(i \<mapsto> (unat (snd (slots s x)), src))\<rparr>)"
    (is "filled x s ?s'")
proof -
  have "buf_ok ?s' (slots s y)" for y
    using wf old by (rule_tac x = y in wf_bufs_slot [OF wf]) (auto simp: buf_ok_def)
  then have "wf_bufs ?s'"
    using wf unfolding wf_bufs_def by simp blast
  moreover have "deref ?s' (fst (slots s y)) = deref s (fst (slots s y))" if "y \<noteq> x" for y
    using wf_bufs_other [OF wf blk that] by (simp add: deref_def split: cstr.split)
  ultimately show ?thesis
    by (simp add: filled_def)
qed

text \<open>Replacing the block of a slot by a fresh one.\<close>

definition release :: "cstr \<Rightarrow> (nat \<Rightarrow> 'b option) \<Rightarrow> nat \<Rightarrow> 'b option" where
  "release p h = (case p of Heap i \<Rightarrow> h(i := None) | _ \<Rightarrow> h)"

lemma replace_filled:
  assumes wf: "wf_bufs s"
  shows "filled x s (s\<lparr>allocs := a,
      bufs := (release (fst (slots s x)) (bufs s))(next_buf s \<mapsto> (unat n, src)),
      next_buf := Suc (next_buf s), slots := (slots s)(x := (Heap (next_buf s), n))\<rparr>)"
    (is "filled x s ?s'")
proof -
  have other: "buf_ok ?s' (slots s y) \<and> deref ?s' (fst (slots s y)) = deref s (fst (slots s y)) \<and>
      fst (slots s y) \<noteq> Heap (next_buf s)" if "y \<noteq> x" for y
  proof (rule wf_bufs_slot [OF wf, of y])
    fix i q
    assume y: "fst (slots s y) = Heap i" "i < next_buf s"
      "bufs s i = Some (unat (snd (slots s y)), q)"
    have "release (fst (slots s x)) (bufs s) i = bufs s i"
      using wf_bufs_other [OF wf y(1), of x] that by (auto simp: release_def split: cstr.split)
    with y show ?thesis
      by (simp add: buf_ok_def deref_def)
  qed (simp add: buf_ok_def deref_def)
  moreover have "buf_ok ?s' (Heap (next_buf s), n)"
    by (simp add: buf_ok_def)
  ultimately have "wf_bufs ?s'"
    using wf unfolding wf_bufs_def by (simp) (metis other)
  then show ?thesis
    using other by (simp add: filled_def)
qed

lemma fill_slot:
  assumes wf: "wf_bufs s" and len: "length src + 1 < 2 ^ 32"
  obtains
    (nomem) s' where "grow E x (strlen src + 1) s = Some (False, s')" "filled x s s'"
      "slots s' = slots s" "refused E (allocs s)" "allocs s' = Suc (allocs s)"
  | (copied) s1 s' where "grow E x (strlen src + 1) s = Some (True, s1)"
      "strcpy (fst (slots s1 x)) src s1 = Some s'" "filled x s s'" "slots s' = slots s1"
      "deref s' (fst (slots s' x)) = Some src"
      "fst (slots s' x) = fst (slots s x) \<or> deref s' (fst (slots s x)) = None"
      "allocs s \<le> allocs s'" "allocs s' \<le> Suc (allocs s)"
proof (cases "snd (slots s x) < strlen src + 1")
  case False
  then have fits: "length src < unat (snd (slots s x))"
    using unat_strlen_Suc [OF len] by (simp add: word_less_nat_alt)
  then obtain i q where i: "fst (slots s x) = Heap i"
    "bufs s i = Some (unat (snd (slots s x)), q)"
    by (rule_tac x = x in wf_bufs_slot [OF wf]) auto
  have "grow E x (strlen src + 1) s = Some (True, s)"
    using False by (cases "slots s x") (simp add: grow_def)
  moreover have "strcpy (fst (slots s x)) src s =
      Some (s\<lparr>bufs := (bufs s)(i \<mapsto> (unat (snd (slots s x)), src))\<rparr>)"
    using i fits by (simp add: strcpy_def)
  ultimately show ?thesis
    using i by (rule_tac copied [OF _ _ overwrite_filled [OF wf i]]) (simp_all add: deref_def)
next
  case True
  let ?n = "strlen src + 1"
  show ?thesis
  proof (rule alloc_outcome [of E ?n s])
    fix e
    assume no: "alloc E ?n s = (False, s\<lparr>allocs := Suc (allocs s), errno := e\<rparr>)"
      and "refused E (allocs s)"
    have "grow E x ?n s = Some (False, s\<lparr>allocs := Suc (allocs s), errno := e\<rparr>)"
      by (rule wf_bufs_slot [OF wf, of x])
         (use True no in \<open>auto simp: grow_def realloc_def split: prod.splits\<close>)
    moreover have "filled x s (s\<lparr>allocs := Suc (allocs s), errno := e\<rparr>)"
      using wf by (simp add: filled_def)
    ultimately show ?thesis
      by (rule nomem) (use \<open>refused E (allocs s)\<close> in simp_all)
  next
    assume yes: "alloc E ?n s = (True, s\<lparr>allocs := Suc (allocs s)\<rparr>)"
    have "\<exists>q. grow E x ?n s = Some (True, s\<lparr>allocs := Suc (allocs s),
        bufs := (release (fst (slots s x)) (bufs s))(next_buf s \<mapsto> (unat ?n, q)),
        next_buf := Suc (next_buf s), slots := (slots s)(x := (Heap (next_buf s), ?n))\<rparr>)"
    proof (rule wf_bufs_slot [OF wf, of x])
      fix i q
      assume "fst (slots s x) = Heap i" "bufs s i = Some (unat (snd (slots s x)), q)"
      then show ?thesis
        using True yes
        by (intro exI [of _ "take (unat ?n) q"], cases "slots s x")
           (simp add: grow_def realloc_def release_def set_slot_def Let_def)
    next
      assume "slots s x = (Null, 0)"
      then show ?thesis
        using True yes
        by (intro exI [of _ "[]"]) (simp add: grow_def realloc_def release_def set_slot_def Let_def)
    qed
    then obtain q where g: "grow E x ?n s = Some (True, s\<lparr>allocs := Suc (allocs s),
        bufs := (release (fst (slots s x)) (bufs s))(next_buf s \<mapsto> (unat ?n, q)),
        next_buf := Suc (next_buf s), slots := (slots s)(x := (Heap (next_buf s), ?n))\<rparr>)" ..
    have "deref (s\<lparr>allocs := Suc (allocs s), bufs := (release (fst (slots s x)) (bufs s))
          (next_buf s \<mapsto> (unat ?n, src)), next_buf := Suc (next_buf s),
          slots := (slots s)(x := (Heap (next_buf s), ?n))\<rparr>) (fst (slots s x)) = None"
      by (rule wf_bufs_slot [OF wf, of x]) (simp_all add: deref_def release_def)
    then show ?thesis
      by (rule_tac copied [OF g _ replace_filled [OF wf, where a = "Suc (allocs s)" and n = ?n and src = src]])
         (use unat_strlen_Suc [OF len] in \<open>simp_all add: strcpy_def deref_def\<close>)
  qed
qed


section \<open>Resolution is a function of the path, the working directory and the table\<close>

text \<open>The path the code means by making a path absolute.\<close>

definition absolute_path :: "string \<Rightarrow> string \<Rightarrow> string" where
  "absolute_path cwd path =
     (if is_slash (char_at path 0) then path
      else if path = [] \<or> path = ''.'' \<or> path = ''./'' then cwd
      else cwd @ (if is_slash (last cwd) then [] else ''/'') @ strip_dot path)"

lemma absolute_path_starts: "wf_cwd cwd \<Longrightarrow> is_slash (char_at (absolute_path cwd path) 0)"
  by (auto simp: absolute_path_def wf_cwd_def char_at_def hd_conv_nth nth_append)

lemma absolute_path_no_nul:
  assumes "wf_cwd cwd" and "CHR 0x00 \<notin> set path"
  shows "CHR 0x00 \<notin> set (absolute_path cwd path)"
proof -
  have "CHR 0x00 \<notin> set (strip_dot path)"
    using assms(2) by (auto simp: strip_dot_def dest: in_set_dropD)
  then show ?thesis
    using assms by (auto simp: absolute_path_def wf_cwd_def)
qed

lemma filled_refl: "wf_bufs s \<Longrightarrow> filled x s s"
  by (simp add: filled_def)

lemma make_absolute_correct:
  assumes wf: "wf_bufs s" "wf_cwd (wasilibc_cwd s)"
    and len: "length (absolute_path (wasilibc_cwd s) path) + 1 < 2 ^ 32"
  shows "\<exists>p s'. make_absolute E path s = Some (p, s') \<and> filled Make_absolute s s' \<and>
           allocs s \<le> allocs s' \<and> allocs s' \<le> Suc (allocs s) \<and> (p = Null \<longrightarrow> refused E (allocs s)) \<and>
           (p \<noteq> Null \<longrightarrow> deref s' p = Some (absolute_path (wasilibc_cwd s) path))"
proof (cases "is_slash (char_at path 0) \<or> path = [] \<or> path = ''.'' \<or> path = ''./''")
  case True
  then show ?thesis
    using wf(1) by (auto simp: make_absolute_def absolute_path_def deref_def filled_refl)
next
  case False
  let ?cwd = "wasilibc_cwd s"
  define slash :: size_t where "slash = (if is_slash (last ?cwd) then 0 else 1)"
  define full where "full = ?cwd @ (if slash = 1 then ''/'' else []) @ strip_dot path"
  have full: "absolute_path ?cwd path = full"
    using False by (simp add: absolute_path_def full_def slash_def)
  have alloc_len: "strlen ?cwd + strlen (strip_dot path) + 1 + slash = strlen full + 1"
    by (simp add: strlen_def full_def slash_def)
  have code: "make_absolute E path s = do {
      (ok, s) \<leftarrow> grow E Make_absolute (strlen full + 1) s;
      if \<not> ok then Some (Null, s)
      else do {
        let buf = fst (slots s Make_absolute);
        s \<leftarrow> strcpy buf full s;
        Some (buf, s) } }"
    using False wf(2)
    unfolding make_absolute_def Let_def slash_def [symmetric] alloc_len full_def [symmetric]
      wf_cwd_def
    by (simp only: de_Morgan_disj if_False simp_thms)
  have "length full + 1 < 2 ^ 32"
    using len by (simp add: full)
  with wf(1) show ?thesis
  proof (cases rule: fill_slot [where E = E and x = Make_absolute and src = full])
    case (nomem s')
    then show ?thesis
      by (simp add: code)
  next
    case (copied s1 s')
    moreover have "fst (slots s1 Make_absolute) \<noteq> Null"
      using copied(2) by (auto simp: strcpy_def)
    ultimately show ?thesis
      by (simp add: code full)
  qed
qed

definition filled2 :: "slot \<Rightarrow> 'a paths_libc_scheme \<Rightarrow> 'a paths_libc_scheme \<Rightarrow> bool" where
  "filled2 x s s' \<longleftrightarrow> (\<exists>s1. filled Make_absolute s s1 \<and> filled x s1 s')"

lemma filled2_simps:
  assumes "filled2 x s s'"
  shows "calls s' = calls s" "preopens s' = preopens s" "preopen_capacity s' = preopen_capacity s"
    "wasilibc_cwd s' = wasilibc_cwd s" "cwd_mallocd s' = cwd_mallocd s" "wf_bufs s'"
    "wf_paths s \<Longrightarrow> wf_paths s'"
    "y \<noteq> Make_absolute \<Longrightarrow> y \<noteq> x \<Longrightarrow> slots s' y = slots s y \<and>
       deref s' (fst (slots s' y)) = deref s (fst (slots s y))"
proof -
  obtain s1 where f: "filled Make_absolute s s1" "filled x s1 s'"
    using assms by (auto simp: filled2_def)
  then show "calls s' = calls s" "preopens s' = preopens s"
    "preopen_capacity s' = preopen_capacity s" "wasilibc_cwd s' = wasilibc_cwd s"
    "cwd_mallocd s' = cwd_mallocd s" "wf_bufs s'"
    by (simp_all add: filled_def)
  then show "wf_paths s \<Longrightarrow> wf_paths s'"
    by (simp add: wf_paths_def assert_invariants_def)
  show "y \<noteq> Make_absolute \<Longrightarrow> y \<noteq> x \<Longrightarrow> slots s' y = slots s y \<and>
       deref s' (fst (slots s' y)) = deref s (fst (slots s y))"
    using f unfolding filled_def by metis
qed

text \<open>
  The relative path has at most the length of the absolute one, or is the single dot.
\<close>

lemma find_abspath_length:
  assumes "find_abspath path s = ((fd, abs_prefix, rel), s')" and "path \<noteq> []" and "fd \<noteq> -1"
  shows "length rel \<le> length path"
proof -
  have drop_le: "length (dropWhile is_slash q) \<le> length q" for q
    by (rule length_dropWhile_le)
  obtain fd' ml ap' where scan:
    "abspath_scan (rev (preopens s)) (dropWhile is_slash path) (-1) 0 [] = (fd', ml, ap')"
    by (cases "abspath_scan (rev (preopens s)) (dropWhile is_slash path) (-1) 0 []")
  have "rel = (let r = dropWhile is_slash (drop ml (dropWhile is_slash path))
               in if r = [] then ''.'' else r)"
    using assms(1,3) unfolding find_abspath_def Let_def scan
    by (cases "fd' = -1") simp_all
  moreover have "length (dropWhile is_slash (drop ml (dropWhile is_slash path))) \<le> length path"
    using drop_le [of "drop ml (dropWhile is_slash path)"] drop_le [of path] by simp
  ultimately show ?thesis
    using assms(2) by (cases path) (simp_all only: Let_def split: if_split, auto)
qed

lemma find_abspath_state:
  "preopens s = preopens t \<Longrightarrow> fst (find_abspath path s) = fst (find_abspath path t)"
  "find_abspath path s = ((fd, ap, rel), s') \<Longrightarrow> s' = s \<or> fd = -1 \<and> s' = s\<lparr>errno := ENOENT\<rparr>"
  by (simp_all add: find_abspath_def Let_def split: prod.splits if_splits)

text \<open>
  Resolution with a growing buffer: it never leaves the buffers, either runs out of memory
  or computes the same descriptor and relative path as the search for the absolute path, and
  leaves the relative path in the buffer of the slot.
\<close>

lemma find_relpath_alloc_correct:
  assumes wf: "wf_paths s"
    and len: "length (absolute_path (wasilibc_cwd s) path) + 1 < 2 ^ 32"
    and x: "x \<noteq> Make_absolute"
    and res: "find_abspath (absolute_path (wasilibc_cwd s) path) s = ((fd, ap, rel), t)"
  shows "\<exists>fd' ap' s'. find_relpath_alloc E path x True s = Some ((fd', ap'), s') \<and>
           filled2 x s s' \<and>
           (fd' = -1 \<and> (errno s' = ENOMEM \<and> refused_in E (allocs s) 2 \<or> errno s' = ENOENT \<and> fd = -1) \<or>
            fd' = fd \<and> fd \<noteq> -1 \<and> ap' = ap \<and> deref s' (fst (slots s' x)) = Some rel \<and>
              (fst (slots s' x) = fst (slots s x) \<or> deref s' (fst (slots s x)) = None))"
proof -
  let ?abs = "absolute_path (wasilibc_cwd s) path"
  from wf have wf': "wf_bufs s" "wf_cwd (wasilibc_cwd s)"
    by (simp_all add: wf_paths_def)
  obtain p s1 where abs: "make_absolute E path s = Some (p, s1)" and f1: "filled Make_absolute s s1"
    and p: "p \<noteq> Null \<Longrightarrow> deref s1 p = Some ?abs"
    and count: "allocs s \<le> allocs s1" "allocs s1 \<le> Suc (allocs s)" "p = Null \<Longrightarrow> refused E (allocs s)"
    using make_absolute_correct [OF wf' len] by blast
  have wf1: "wf_bufs s1"
    using f1 by (simp add: filled_def)
  show ?thesis
  proof (cases "p = Null")
    case True
    have "refused_in E (allocs s) 2"
      by (intro refused_inI [OF count(3) [OF True]]) linarith+
    then show ?thesis
      using True abs f1 filled_refl [OF wf1, of x]
      by (auto simp: find_relpath_alloc_def filled2_def intro!: exI [of _ s1])
  next
    case False
    obtain fd1 ap1 rel1 t1 where res1: "find_abspath ?abs s1 = ((fd1, ap1, rel1), t1)"
      by (metis prod_cases3 prod.collapse)
    have same: "fd1 = fd" "ap1 = ap" "rel1 = rel"
      using find_abspath_state(1) [of s1 s ?abs] f1 res res1 by (simp_all add: filled_def)
    show ?thesis
    proof (cases "fd = -1")
      case True
      then have "t1 = s1\<lparr>errno := ENOENT\<rparr>"
        using res1 same by (auto simp: find_abspath_def Let_def split: prod.splits if_splits)
      then show ?thesis
        using abs False p res1 True same f1 filled_refl [OF wf1, of x]
        by (auto simp: find_relpath_alloc_def filled2_def intro!: exI [of _ s1])
    next
      case fd: False
      then have t1: "t1 = s1"
        using find_abspath_state(2) [OF res1] same by simp
      have "?abs \<noteq> []"
        using absolute_path_starts [OF wf'(2), of path] by (auto simp: char_at_def)
      then have "length rel + 1 < 2 ^ 32"
        using find_abspath_length [OF res _ fd] len by simp
      with wf1 show ?thesis
      proof (cases rule: fill_slot [where E = E and x = x and src = rel])
        case (nomem s2)
        have "refused_in E (allocs s) 2"
          using count(1,2) by (intro refused_inI [OF nomem(4)]) linarith+
        then show ?thesis
          using nomem(1,2) abs False p res1 fd same t1 f1
          by (auto simp: find_relpath_alloc_def filled2_def intro!: exI [of _ s1])
      next
        case (copied s2 s3)
        note copied = copied(1-6)
        moreover have "slots s1 x = slots s x"
          using f1 x by (simp add: filled_def)
        ultimately show ?thesis
          using abs False p res1 fd same t1 f1
          by (auto simp: find_relpath_alloc_def filled2_def intro!: exI [of _ s1])
      qed
    qed
  qed
qed


text \<open>
  C6. Resolving a path never reads or writes outside a buffer and keeps the invariant of
  the path state, and it makes no host call.  It succeeds if the search in the table of
  preopened directories for the path made absolute with the working directory succeeds and
  the allocator refuses neither of its at most two requests; descriptor, prefix and the
  relative path in the caller's buffer are then those of the search.  Otherwise it fails, with
  \<open>ENOMEM\<close> after a refused request and with \<open>ENOENT\<close> after a search that finds nothing.
\<close>

theorem resolution_refines_search:
  assumes "wf_paths s" and "x \<noteq> Make_absolute"
    and "length (absolute_path (wasilibc_cwd s) path) + 1 < 2 ^ 32"
  shows "\<exists>fd ap s'. find_relpath_alloc E path x True s = Some ((fd, ap), s') \<and>
           wf_paths s' \<and> calls s' = calls s \<and>
           (fd = -1 \<and> errno s' = ENOMEM \<and> refused_in E (allocs s) 2 \<or>
            fd = -1 \<and> errno s' = ENOENT \<and>
              fst (fst (find_abspath (absolute_path (wasilibc_cwd s) path) s)) = -1 \<or>
            fd \<noteq> -1 \<and> (\<exists>rel. find_abspath (absolute_path (wasilibc_cwd s) path) s =
                              ((fd, ap, rel), s) \<and>
                            deref s' (fst (slots s' x)) = Some rel))"
proof -
  obtain fd ap rel t where
    res: "find_abspath (absolute_path (wasilibc_cwd s) path) s = ((fd, ap, rel), t)"
    by (metis prod_cases3 prod.collapse)
  from find_relpath_alloc_correct [OF assms(1,3,2) res, of E]
  show ?thesis
    using find_abspath_state(2) [OF res] res filled2_simps(1,7) assms(1) by fastforce
qed

definition path_state :: paths_libc where
  "path_state = \<lparr>errno = 0, calls = [], allocs = 0, preopens = sample_table,
     preopen_capacity = 4, bufs = (\<lambda>_. None), next_buf = 0, slots = (\<lambda>_. (Null, 0)),
     wasilibc_cwd = ''/home/me'', cwd_mallocd = True\<rparr>"

lemma path_state_ok: "wf_paths path_state"
  by (simp add: wf_paths_def wf_bufs_def buf_ok_def wf_cwd_def assert_invariants_def
      path_state_def sample_table_def sizeof_preopen_def)

theorem resolution_refines_search_witness:
  "\<exists>s'. find_relpath_alloc sample_env ''./notes'' Relative True path_state = Some ((5, ''home/me''), s') \<and>
     wf_paths s' \<and> calls s' = [] \<and> deref s' (fst (slots s' Relative)) = Some ''notes''"
proof -
  have abs: "absolute_path (wasilibc_cwd path_state) ''./notes'' = ''/home/me/notes''"
    by (simp add: absolute_path_def path_state_def strip_dot_def char_at_def)
  have search: "find_abspath ''/home/me/notes'' path_state = ((5, ''home/me'', ''notes''), path_state)"
    by (simp add: find_abspath_def path_state_def sample_table_def prefix_matches_def char_at_def)
  from resolution_refines_search [OF path_state_ok, of Relative "''./notes''" sample_env] show ?thesis
    unfolding abs search using available_not_refused [OF sample_memory] by (auto simp: path_state_def)
qed

end
