(* ===== verification/Posix_Paths.thy ===== *)
theory Posix_Paths
  imports Relpath
begin

text \<open>
  The path functions of POSIX over the resolution of paths: \<open>sources/posix.c\<close> (functions
  that take a path), \<open>sources/at_fdcwd.c\<close> and \<open>unlinkat.c\<close> (functions that take a
  descriptor and a path).  The names carry the prefix \<open>posix_\<close>, or \<open>wasilibc_\<close> for the
  functions the sources name so.  \<open>opendir\<close> and \<open>scandir\<close> are with the directory streams.

  The contract the path functions rely on is the locale \<open>path_resolver\<close>; it holds of both
  static buffers of \<open>posix.c\<close>.
\<close>

section \<open>Resolution into a static buffer\<close>

definition find_relpath2 ::
  "env \<Rightarrow> string \<Rightarrow> slot \<Rightarrow> 'a paths_libc_scheme \<Rightarrow> (c_int \<times> 'a paths_libc_scheme) option" where
  "find_relpath2 E path x s =
     (if chdir_linked E
      then do { ((fd, _), s) \<leftarrow> find_relpath_alloc E path x True s; Some (fd, s) }
      else do { ((fd, _, rel), s) \<leftarrow> find_relpath E path s;
                Some (fd, if fd = -1 then s else set_slot x rel (snd (slots s x)) s) })"

definition posix_find_relpath ::
  "env \<Rightarrow> string \<Rightarrow> 'a paths_libc_scheme \<Rightarrow> (c_int \<times> cstr \<times> 'a paths_libc_scheme) option" where
  "posix_find_relpath E path s = do {
     (fd, s) \<leftarrow> find_relpath2 E path Relative s;
     Some (fd, fst (slots s Relative), s) }"

definition posix_find_relpath_alt ::
  "env \<Rightarrow> string \<Rightarrow> 'a paths_libc_scheme \<Rightarrow> (c_int \<times> cstr \<times> 'a paths_libc_scheme) option" where
  "posix_find_relpath_alt E path s = do {
     (fd, s) \<leftarrow> find_relpath2 E path Relative_alt s;
     Some (fd, fst (slots s Relative_alt), s) }"

text \<open>
  The shape of the functions with one path: without a preopened directory the result is
  \<open>err\<close> with \<open>ENOTCAPABLE\<close>, otherwise the operation \<open>k\<close> runs on the descriptor and the
  string found in the buffer.
\<close>

definition at_relpath ::
  "env \<Rightarrow> 'r \<Rightarrow> string \<Rightarrow> (u32 \<Rightarrow> string \<Rightarrow> 'a paths_libc_scheme \<Rightarrow> 'r \<times> 'a paths_libc_scheme) \<Rightarrow>
   'a paths_libc_scheme \<Rightarrow> ('r \<times> 'a paths_libc_scheme) option" where
  "at_relpath E err path k s = do {
     (dirfd, relative_path, s) \<leftarrow> posix_find_relpath E path s;
     if dirfd = -1 then Some (err, s\<lparr>errno := ENOTCAPABLE\<rparr>)
     else do { p \<leftarrow> deref s relative_path; Some (k dirfd p s) } }"

section \<open>Functions of one path\<close>

definition wasilibc_open_nomode ::
  "env \<Rightarrow> string \<Rightarrow> c_int \<Rightarrow> 'a paths_libc_scheme \<Rightarrow> (c_int \<times> 'a paths_libc_scheme) option" where
  "wasilibc_open_nomode E path oflag =
     at_relpath E (-1) path (\<lambda>dirfd p. nocwd_openat_nomode E dirfd p oflag)"

definition posix_open ::
  "env \<Rightarrow> string \<Rightarrow> c_int \<Rightarrow> 'a paths_libc_scheme \<Rightarrow> (c_int \<times> 'a paths_libc_scheme) option" where
  "posix_open E path oflag = wasilibc_open_nomode E path oflag"

definition posix_access ::
  "env \<Rightarrow> string \<Rightarrow> c_int \<Rightarrow> 'a paths_libc_scheme \<Rightarrow> (c_int \<times> 'a paths_libc_scheme) option" where
  "posix_access E path amode =
     at_relpath E (-1) path (\<lambda>dirfd p. nocwd_faccessat E dirfd p amode 0)"

definition posix_readlink ::
  "env \<Rightarrow> string \<Rightarrow> size_t \<Rightarrow> 'a paths_libc_scheme \<Rightarrow>
   ((c_int \<times> u8 list) \<times> 'a paths_libc_scheme) option" where
  "posix_readlink E path bufsize =
     at_relpath E (-1, []) path (\<lambda>dirfd p. nocwd_readlinkat E dirfd p bufsize)"

definition posix_stat ::
  "env \<Rightarrow> string \<Rightarrow> 'a paths_libc_scheme \<Rightarrow>
   ((c_int \<times> stat option) \<times> 'a paths_libc_scheme) option" where
  "posix_stat E path = at_relpath E (-1, None) path (\<lambda>dirfd p. nocwd_fstatat E dirfd p 0)"

definition posix_lstat ::
  "env \<Rightarrow> string \<Rightarrow> 'a paths_libc_scheme \<Rightarrow>
   ((c_int \<times> stat option) \<times> 'a paths_libc_scheme) option" where
  "posix_lstat E path =
     at_relpath E (-1, None) path (\<lambda>dirfd p. nocwd_fstatat E dirfd p AT_SYMLINK_NOFOLLOW)"

text \<open>\<open>struct utimbuf\<close> is the pair of its two times.\<close>

definition posix_utime ::
  "env \<Rightarrow> string \<Rightarrow> (u64 \<times> u64) option \<Rightarrow> 'a paths_libc_scheme \<Rightarrow>
   (c_int \<times> 'a paths_libc_scheme) option" where
  "posix_utime E path tms =
     at_relpath E (-1) path (\<lambda>dirfd p. nocwd_utimensat E dirfd p
       (map_option (\<lambda>(actime, modtime).
          (\<lparr>tv_sec = actime, tv_nsec = 0\<rparr>, \<lparr>tv_sec = modtime, tv_nsec = 0\<rparr>)) tms) 0)"

text \<open>
  Microseconds are multiplied in the signed type \<open>suseconds_t\<close>, where an overflow is undefined
  (\<^const>\<open>None\<close>), and the product is converted to the 32 bits of \<open>tv_nsec\<close>.  This happens only
  after the path has been resolved.
\<close>

definition timespec_of_timeval :: "timeval \<Rightarrow> timespec option" where
  "timespec_of_timeval t =
     (if - (2 ^ 63) \<le> sint (tmv_usec t) * 1000 \<and> sint (tmv_usec t) * 1000 < 2 ^ 63
      then Some \<lparr>tv_sec = tmv_sec t, tv_nsec = ucast (tmv_usec t * 1000)\<rparr> else None)"

definition utimes_times :: "(timeval \<times> timeval) option \<Rightarrow> (timespec \<times> timespec) option option" where
  "utimes_times tms = (case tms of
      None \<Rightarrow> Some None
    | Some (t0, t1) \<Rightarrow> do {
        u0 \<leftarrow> timespec_of_timeval t0;
        u1 \<leftarrow> timespec_of_timeval t1;
        Some (Some (u0, u1)) })"

definition posix_utimes ::
  "env \<Rightarrow> string \<Rightarrow> (timeval \<times> timeval) option \<Rightarrow> 'a paths_libc_scheme \<Rightarrow>
   (c_int \<times> 'a paths_libc_scheme) option" where
  "posix_utimes E path tms s = do {
     (dirfd, relative_path, s) \<leftarrow> posix_find_relpath E path s;
     if dirfd = -1 then Some (-1, s\<lparr>errno := ENOTCAPABLE\<rparr>)
     else do {
       p \<leftarrow> deref s relative_path;
       ts \<leftarrow> utimes_times tms;
       Some (nocwd_utimensat E dirfd p ts 0 s) } }"

definition posix_unlink ::
  "env \<Rightarrow> string \<Rightarrow> 'a paths_libc_scheme \<Rightarrow> (c_int \<times> 'a paths_libc_scheme) option" where
  "posix_unlink E path = at_relpath E (-1) path (\<lambda>dirfd p. nocwd_unlinkat E dirfd p)"

definition posix_rmdir ::
  "env \<Rightarrow> string \<Rightarrow> 'a paths_libc_scheme \<Rightarrow> (c_int \<times> 'a paths_libc_scheme) option" where
  "posix_rmdir E path = at_relpath E (-1) path (\<lambda>dirfd p. nocwd_rmdirat E dirfd p)"

definition remove_at ::
  "env \<Rightarrow> u32 \<Rightarrow> string \<Rightarrow> 'a libc_scheme \<Rightarrow> c_int \<times> 'a libc_scheme" where
  "remove_at E dirfd p s =
     (let (r, s) = nocwd_unlinkat E dirfd p s
      in if r \<noteq> 0 \<and> (errno s = EISDIR \<or> errno s = ENOTCAPABLE)
         then let (r, s) = nocwd_rmdirat E dirfd p s
              in (r, if errno s = ENOTDIR then s\<lparr>errno := ENOTCAPABLE\<rparr> else s)
         else (r, s))"

definition posix_remove ::
  "env \<Rightarrow> string \<Rightarrow> 'a paths_libc_scheme \<Rightarrow> (c_int \<times> 'a paths_libc_scheme) option" where
  "posix_remove E path = at_relpath E (-1) path (\<lambda>dirfd p. remove_at E dirfd p)"

definition posix_mkdir ::
  "env \<Rightarrow> string \<Rightarrow> 'a paths_libc_scheme \<Rightarrow> (c_int \<times> 'a paths_libc_scheme) option" where
  "posix_mkdir E path = at_relpath E (-1) path (\<lambda>dirfd p. nocwd_mkdirat_nomode E dirfd p)"

definition posix_symlink ::
  "env \<Rightarrow> string \<Rightarrow> string \<Rightarrow> 'a paths_libc_scheme \<Rightarrow> (c_int \<times> 'a paths_libc_scheme) option" where
  "posix_symlink E target linkpath =
     at_relpath E (-1) linkpath (\<lambda>dirfd p. nocwd_symlinkat E target dirfd p)"

definition wasilibc_access ::
  "env \<Rightarrow> string \<Rightarrow> c_int \<Rightarrow> c_int \<Rightarrow> 'a paths_libc_scheme \<Rightarrow>
   (c_int \<times> 'a paths_libc_scheme) option" where
  "wasilibc_access E path mode flags =
     at_relpath E (-1) path (\<lambda>dirfd p. nocwd_faccessat E dirfd p mode flags)"

definition wasilibc_utimens ::
  "env \<Rightarrow> string \<Rightarrow> (timespec \<times> timespec) option \<Rightarrow> c_int \<Rightarrow> 'a paths_libc_scheme \<Rightarrow>
   (c_int \<times> 'a paths_libc_scheme) option" where
  "wasilibc_utimens E path tms flags =
     at_relpath E (-1) path (\<lambda>dirfd p. nocwd_utimensat E dirfd p tms flags)"

definition wasilibc_stat ::
  "env \<Rightarrow> string \<Rightarrow> c_int \<Rightarrow> 'a paths_libc_scheme \<Rightarrow>
   ((c_int \<times> stat option) \<times> 'a paths_libc_scheme) option" where
  "wasilibc_stat E path flags =
     at_relpath E (-1, None) path (\<lambda>dirfd p. nocwd_fstatat E dirfd p flags)"

definition wasilibc_link_oldat ::
  "env \<Rightarrow> u32 \<Rightarrow> string \<Rightarrow> string \<Rightarrow> c_int \<Rightarrow> 'a paths_libc_scheme \<Rightarrow>
   (c_int \<times> 'a paths_libc_scheme) option" where
  "wasilibc_link_oldat E olddirfd oldpath newpath flags =
     at_relpath E (-1) newpath (\<lambda>dirfd p. nocwd_linkat E olddirfd oldpath dirfd p flags)"

definition wasilibc_link_newat ::
  "env \<Rightarrow> string \<Rightarrow> u32 \<Rightarrow> string \<Rightarrow> c_int \<Rightarrow> 'a paths_libc_scheme \<Rightarrow>
   (c_int \<times> 'a paths_libc_scheme) option" where
  "wasilibc_link_newat E oldpath newdirfd newpath flags =
     at_relpath E (-1) oldpath (\<lambda>dirfd p. nocwd_linkat E dirfd p newdirfd newpath flags)"

definition wasilibc_rename_oldat ::
  "env \<Rightarrow> u32 \<Rightarrow> string \<Rightarrow> string \<Rightarrow> 'a paths_libc_scheme \<Rightarrow>
   (c_int \<times> 'a paths_libc_scheme) option" where
  "wasilibc_rename_oldat E fromdirfd from to =
     at_relpath E (-1) to (\<lambda>dirfd p. nocwd_renameat E fromdirfd from dirfd p)"

definition wasilibc_rename_newat ::
  "env \<Rightarrow> string \<Rightarrow> u32 \<Rightarrow> string \<Rightarrow> 'a paths_libc_scheme \<Rightarrow>
   (c_int \<times> 'a paths_libc_scheme) option" where
  "wasilibc_rename_newat E from todirfd to =
     at_relpath E (-1) from (\<lambda>dirfd p. nocwd_renameat E dirfd p todirfd to)"

section \<open>Functions of two paths\<close>

text \<open>
  \<open>link\<close> and \<open>rename\<close> resolve the first path into the alternative buffer, so that the
  second resolution does not disturb it.
\<close>

definition at_two_relpaths ::
  "env \<Rightarrow> string \<Rightarrow> string \<Rightarrow>
   (u32 \<Rightarrow> string \<Rightarrow> u32 \<Rightarrow> string \<Rightarrow> 'a paths_libc_scheme \<Rightarrow> c_int \<times> 'a paths_libc_scheme) \<Rightarrow>
   'a paths_libc_scheme \<Rightarrow> (c_int \<times> 'a paths_libc_scheme) option" where
  "at_two_relpaths E old new k s = do {
     (old_dirfd, old_relative_path, s) \<leftarrow> posix_find_relpath_alt E old s;
     if old_dirfd \<noteq> -1
     then do {
       (new_dirfd, new_relative_path, s) \<leftarrow> posix_find_relpath E new s;
       if new_dirfd \<noteq> -1
       then do { p \<leftarrow> deref s old_relative_path;
                 q \<leftarrow> deref s new_relative_path;
                 Some (k old_dirfd p new_dirfd q s) }
       else Some (-1, s\<lparr>errno := ENOTCAPABLE\<rparr>) }
     else Some (-1, s\<lparr>errno := ENOTCAPABLE\<rparr>) }"

definition posix_link ::
  "env \<Rightarrow> string \<Rightarrow> string \<Rightarrow> 'a paths_libc_scheme \<Rightarrow> (c_int \<times> 'a paths_libc_scheme) option" where
  "posix_link E old new =
     at_two_relpaths E old new (\<lambda>fd1 p fd2 q. nocwd_linkat E fd1 p fd2 q 0)"

definition posix_rename ::
  "env \<Rightarrow> string \<Rightarrow> string \<Rightarrow> 'a paths_libc_scheme \<Rightarrow> (c_int \<times> 'a paths_libc_scheme) option" where
  "posix_rename E old new =
     at_two_relpaths E old new (\<lambda>fd1 p fd2 q. nocwd_renameat E fd1 p fd2 q)"

text \<open>\<open>__wasilibc_link\<close> resolves both paths into the same buffer.\<close>

definition wasilibc_link ::
  "env \<Rightarrow> string \<Rightarrow> string \<Rightarrow> c_int \<Rightarrow> 'a paths_libc_scheme \<Rightarrow>
   (c_int \<times> 'a paths_libc_scheme) option" where
  "wasilibc_link E oldpath newpath flags s = do {
     (old_dirfd, old_relative_path, s) \<leftarrow> posix_find_relpath E oldpath s;
     (new_dirfd, new_relative_path, s) \<leftarrow> posix_find_relpath E newpath s;
     if old_dirfd = -1 \<or> new_dirfd = -1 then Some (-1, s\<lparr>errno := ENOTCAPABLE\<rparr>)
     else do { p \<leftarrow> deref s old_relative_path;
               q \<leftarrow> deref s new_relative_path;
               Some (nocwd_linkat E old_dirfd p new_dirfd q flags s) } }"

section \<open>Functions of a descriptor and a path\<close>

abbreviation needs_lookup :: "c_int \<Rightarrow> string \<Rightarrow> bool" where
  "needs_lookup dirfd path \<equiv> dirfd = AT_FDCWD \<or> is_slash (char_at path 0)"

definition posix_openat ::
  "env \<Rightarrow> c_int \<Rightarrow> string \<Rightarrow> c_int \<Rightarrow> 'a paths_libc_scheme \<Rightarrow>
   (c_int \<times> 'a paths_libc_scheme) option" where
  "posix_openat E dirfd pathname flags s =
     (if needs_lookup dirfd pathname then posix_open E pathname flags s
      else Some (nocwd_openat_nomode E dirfd pathname flags s))"

definition posix_symlinkat ::
  "env \<Rightarrow> string \<Rightarrow> c_int \<Rightarrow> string \<Rightarrow> 'a paths_libc_scheme \<Rightarrow>
   (c_int \<times> 'a paths_libc_scheme) option" where
  "posix_symlinkat E target dirfd linkpath s =
     (if needs_lookup dirfd linkpath then posix_symlink E target linkpath s
      else Some (nocwd_symlinkat E target dirfd linkpath s))"

definition posix_readlinkat ::
  "env \<Rightarrow> c_int \<Rightarrow> string \<Rightarrow> size_t \<Rightarrow> 'a paths_libc_scheme \<Rightarrow>
   ((c_int \<times> u8 list) \<times> 'a paths_libc_scheme) option" where
  "posix_readlinkat E dirfd pathname bufsiz s =
     (if needs_lookup dirfd pathname then posix_readlink E pathname bufsiz s
      else Some (nocwd_readlinkat E dirfd pathname bufsiz s))"

definition posix_mkdirat ::
  "env \<Rightarrow> c_int \<Rightarrow> string \<Rightarrow> 'a paths_libc_scheme \<Rightarrow> (c_int \<times> 'a paths_libc_scheme) option" where
  "posix_mkdirat E dirfd pathname s =
     (if needs_lookup dirfd pathname then posix_mkdir E pathname s
      else Some (nocwd_mkdirat_nomode E dirfd pathname s))"

definition posix_faccessat ::
  "env \<Rightarrow> c_int \<Rightarrow> string \<Rightarrow> c_int \<Rightarrow> c_int \<Rightarrow> 'a paths_libc_scheme \<Rightarrow>
   (c_int \<times> 'a paths_libc_scheme) option" where
  "posix_faccessat E dirfd pathname mode flags s =
     (if needs_lookup dirfd pathname then wasilibc_access E pathname mode flags s
      else Some (nocwd_faccessat E dirfd pathname mode flags s))"

definition posix_fstatat ::
  "env \<Rightarrow> c_int \<Rightarrow> string \<Rightarrow> c_int \<Rightarrow> 'a paths_libc_scheme \<Rightarrow>
   ((c_int \<times> stat option) \<times> 'a paths_libc_scheme) option" where
  "posix_fstatat E dirfd pathname flags s =
     (if needs_lookup dirfd pathname then wasilibc_stat E pathname flags s
      else Some (nocwd_fstatat E dirfd pathname flags s))"

definition posix_utimensat ::
  "env \<Rightarrow> c_int \<Rightarrow> string \<Rightarrow> (timespec \<times> timespec) option \<Rightarrow> c_int \<Rightarrow> 'a paths_libc_scheme \<Rightarrow>
   (c_int \<times> 'a paths_libc_scheme) option" where
  "posix_utimensat E dirfd pathname tms flags s =
     (if needs_lookup dirfd pathname then wasilibc_utimens E pathname tms flags s
      else Some (nocwd_utimensat E dirfd pathname tms flags s))"

definition posix_linkat ::
  "env \<Rightarrow> c_int \<Rightarrow> string \<Rightarrow> c_int \<Rightarrow> string \<Rightarrow> c_int \<Rightarrow> 'a paths_libc_scheme \<Rightarrow>
   (c_int \<times> 'a paths_libc_scheme) option" where
  "posix_linkat E olddirfd oldpath newdirfd newpath flags s =
     (if needs_lookup olddirfd oldpath \<and> needs_lookup newdirfd newpath
      then wasilibc_link E oldpath newpath flags s
      else if needs_lookup olddirfd oldpath
      then wasilibc_link_newat E oldpath newdirfd newpath flags s
      else if needs_lookup newdirfd newpath
      then wasilibc_link_oldat E olddirfd oldpath newpath flags s
      else Some (nocwd_linkat E olddirfd oldpath newdirfd newpath flags s))"

definition posix_renameat ::
  "env \<Rightarrow> c_int \<Rightarrow> string \<Rightarrow> c_int \<Rightarrow> string \<Rightarrow> 'a paths_libc_scheme \<Rightarrow>
   (c_int \<times> 'a paths_libc_scheme) option" where
  "posix_renameat E olddirfd oldpath newdirfd newpath s =
     (if needs_lookup olddirfd oldpath \<and> needs_lookup newdirfd newpath
      then posix_rename E oldpath newpath s
      else if needs_lookup olddirfd oldpath
      then wasilibc_rename_newat E oldpath newdirfd newpath s
      else if needs_lookup newdirfd newpath
      then wasilibc_rename_oldat E olddirfd oldpath newpath s
      else Some (nocwd_renameat E olddirfd oldpath newdirfd newpath s))"

definition wasilibc_unlinkat ::
  "env \<Rightarrow> c_int \<Rightarrow> string \<Rightarrow> 'a paths_libc_scheme \<Rightarrow> (c_int \<times> 'a paths_libc_scheme) option" where
  "wasilibc_unlinkat E dirfd path s =
     (if needs_lookup dirfd path then posix_unlink E path s
      else Some (nocwd_unlinkat E dirfd path s))"

definition wasilibc_rmdirat ::
  "env \<Rightarrow> c_int \<Rightarrow> string \<Rightarrow> 'a paths_libc_scheme \<Rightarrow> (c_int \<times> 'a paths_libc_scheme) option" where
  "wasilibc_rmdirat E dirfd path s =
     (if needs_lookup dirfd path then posix_rmdir E path s
      else Some (nocwd_rmdirat E dirfd path s))"

definition posix_unlinkat ::
  "env \<Rightarrow> c_int \<Rightarrow> string \<Rightarrow> c_int \<Rightarrow> 'a paths_libc_scheme \<Rightarrow>
   (c_int \<times> 'a paths_libc_scheme) option" where
  "posix_unlinkat E fd path flag s =
     (if flag AND AT_REMOVEDIR \<noteq> 0 then wasilibc_rmdirat E fd path s
      else wasilibc_unlinkat E fd path s)"


section \<open>Which calls reach the host\<close>

definition relative_path :: "string \<Rightarrow> bool" where
  "relative_path p \<longleftrightarrow> p \<noteq> [] \<and> \<not> is_slash (hd p)"

text \<open>
  A host call is anchored in a set of descriptors when every path it names is relative to
  one of them (the target of a symbolic link is data, not a path that is followed).
\<close>

definition anchored :: "u32 set \<Rightarrow> wasi_call \<Rightarrow> bool" where
  "anchored F c =
     (case c of
        Call_path_create_directory fd p \<Rightarrow> fd \<in> F \<and> relative_path p
      | Call_path_filestat_get fd _ p \<Rightarrow> fd \<in> F \<and> relative_path p
      | Call_path_filestat_set_times fd _ p _ _ _ \<Rightarrow> fd \<in> F \<and> relative_path p
      | Call_path_link fd _ p fd' p' \<Rightarrow>
          fd \<in> F \<and> relative_path p \<and> fd' \<in> F \<and> relative_path p'
      | Call_path_open fd _ p _ _ _ _ \<Rightarrow> fd \<in> F \<and> relative_path p
      | Call_path_readlink fd p _ \<Rightarrow> fd \<in> F \<and> relative_path p
      | Call_path_remove_directory fd p \<Rightarrow> fd \<in> F \<and> relative_path p
      | Call_path_rename fd p fd' p' \<Rightarrow>
          fd \<in> F \<and> relative_path p \<and> fd' \<in> F \<and> relative_path p'
      | Call_path_symlink _ fd p \<Rightarrow> fd \<in> F \<and> relative_path p
      | Call_path_unlink_file fd p \<Rightarrow> fd \<in> F \<and> relative_path p
      | Call_fd_fdstat_get fd \<Rightarrow> fd \<in> F
      | _ \<Rightarrow> False)"

text \<open>A step that makes anchored calls and changes nothing else but \<open>errno\<close>.\<close>

definition host_step :: "u32 set \<Rightarrow> 'a libc_scheme \<Rightarrow> 'a libc_scheme \<Rightarrow> bool" where
  "host_step F t t' \<longleftrightarrow>
     t' = t\<lparr>calls := calls t', errno := errno t'\<rparr> \<and>
     take (length (calls t)) (calls t') = calls t \<and>
     (\<forall>c \<in> set (drop (length (calls t)) (calls t')). anchored F c)"

named_theorems nocwd_defs \<open>the operations on a descriptor and a relative path\<close>

lemmas [nocwd_defs] = nocwd_openat_nomode_def nocwd_faccessat_def nocwd_fstatat_def
  nocwd_mkdirat_nomode_def nocwd_utimensat_def nocwd_linkat_def nocwd_readlinkat_def
  nocwd_symlinkat_def nocwd_renameat_def nocwd_rmdirat_def nocwd_unlinkat_def
  fail_def check_error_def call_host_def

lemma nocwd_host_step:
  assumes "fd \<in> F" and "relative_path p"
  shows "host_step F t (snd (nocwd_openat_nomode E fd p oflag t))"
    and "host_step F t (snd (nocwd_faccessat E fd p amode flag t))"
    and "host_step F t (snd (nocwd_fstatat E fd p flag t))"
    and "host_step F t (snd (nocwd_mkdirat_nomode E fd p t))"
    and "host_step F t (snd (nocwd_utimensat E fd p tms flag t))"
    and "host_step F t (snd (nocwd_readlinkat E fd p n t))"
    and "host_step F t (snd (nocwd_symlinkat E target fd p t))"
    and "host_step F t (snd (nocwd_rmdirat E fd p t))"
    and "host_step F t (snd (nocwd_unlinkat E fd p t))"
    and "host_step F t (snd (remove_at E fd p t))"
  using assms
  by (auto simp: nocwd_defs wasi_defs remove_at_def host_step_def anchored_def Let_def
      split: option.splits if_splits)

lemma nocwd_host_step2:
  assumes "fd \<in> F" and "relative_path p" and "fd' \<in> F" and "relative_path p'"
  shows "host_step F t (snd (nocwd_linkat E fd p fd' p' flag t))"
    and "host_step F t (snd (nocwd_renameat E fd p fd' p' t))"
  using assms
  by (auto simp: nocwd_defs wasi_defs host_step_def anchored_def Let_def split: if_splits)


section \<open>The contract of resolution\<close>

definition paths_inv :: "env \<Rightarrow> 'a paths_libc_scheme \<Rightarrow> bool" where
  "paths_inv E s \<longleftrightarrow> assert_invariants s \<and>
     (chdir_linked E \<longrightarrow> wf_bufs s \<and> wf_cwd (wasilibc_cwd s))"

text \<open>Paths are C strings of less than half a gigabyte, so that two of them fit the memory.\<close>

definition path_fits :: "'a paths_libc_scheme \<Rightarrow> string \<Rightarrow> bool" where
  "path_fits s path \<longleftrightarrow> CHR 0x00 \<notin> set path \<and> length path < 2 ^ 29 \<and>
     length (wasilibc_cwd s) < 2 ^ 29"

definition preopen_fds :: "'a preopen_libc_scheme \<Rightarrow> u32 set" where
  "preopen_fds s = po_fd ` set (preopens s)"

definition same_paths :: "'a paths_libc_scheme \<Rightarrow> 'a paths_libc_scheme \<Rightarrow> bool" where
  "same_paths s s' \<longleftrightarrow> preopens s' = preopens s \<and> wasilibc_cwd s' = wasilibc_cwd s"

text \<open>The result of a library call that stays inside the preopened directories.\<close>

definition confined :: "env \<Rightarrow> 'a paths_libc_scheme \<Rightarrow> 'a paths_libc_scheme \<Rightarrow> bool" where
  "confined E s s' \<longleftrightarrow> paths_inv E s' \<and> same_paths s s' \<and>
     take (length (calls s)) (calls s') = calls s \<and>
     (\<forall>c \<in> set (drop (length (calls s)) (calls s')). anchored (preopen_fds s) c)"

lemma confined_host_step:
  assumes "paths_inv E s" and "host_step (preopen_fds s) s s'"
  shows "confined E s s'"
proof -
  obtain cs e where s': "s' = s\<lparr>calls := cs, errno := e\<rparr>"
    using assms(2) unfolding host_step_def by blast
  then have "paths_inv E s' \<and> same_paths s s'"
    using assms(1) by (simp add: paths_inv_def same_paths_def)
  then show ?thesis
    using assms(2) by (simp add: confined_def host_step_def)
qed

lemma confined_trans:
  assumes "confined E s t" and "confined E t u"
  shows "confined E s u"
proof -
  obtain cs ds where c: "calls t = calls s @ cs" "calls u = calls t @ ds"
    using assms unfolding confined_def by (metis append_take_drop_id)
  have F: "preopen_fds t = preopen_fds s"
    using assms by (simp add: confined_def same_paths_def preopen_fds_def)
  show ?thesis
    using assms unfolding confined_def c F by (auto simp: same_paths_def)
qed

lemma confined_errno: "confined E s s' \<Longrightarrow> confined E s (s'\<lparr>errno := e\<rparr>)"
  by (auto simp: confined_def paths_inv_def same_paths_def)

locale path_resolver =
  fixes resolve ::
    "env \<Rightarrow> string \<Rightarrow> 'a paths_libc_scheme \<Rightarrow> (c_int \<times> cstr \<times> 'a paths_libc_scheme) option"
    and keeps :: "'a paths_libc_scheme \<Rightarrow> cstr \<Rightarrow> bool"
  assumes resolve_ok: "paths_inv E s \<Longrightarrow> path_fits s path \<Longrightarrow>
    \<exists>fd p s'. resolve E path s = Some (fd, p, s') \<and> confined E s s' \<and> calls s' = calls s \<and>
      (fd \<noteq> -1 \<longrightarrow> fd \<in> preopen_fds s \<and>
         (\<exists>rel. deref s' p = Some rel \<and> relative_path rel)) \<and>
      (\<forall>q. keeps s q \<longrightarrow> deref s' q = deref s q)"
begin

lemma run_confined:
  assumes "paths_inv E s" and "path_fits s path"
    and k: "\<And>fd rel t. fd \<in> preopen_fds s \<Longrightarrow> relative_path rel \<Longrightarrow>
        host_step (preopen_fds s) t (snd (k fd rel t))"
  shows "\<exists>r s'. (do {
     (dirfd, relative_path, s) \<leftarrow> resolve E path s;
     if dirfd = -1 then Some (err, s\<lparr>errno := ENOTCAPABLE\<rparr>)
     else do { p \<leftarrow> deref s relative_path; Some (k dirfd p s) } }) = Some (r, s') \<and>
     confined E s s'"
proof -
  obtain fd p s1 where res: "resolve E path s = Some (fd, p, s1)" and c1: "confined E s s1"
    and ok: "fd \<noteq> -1 \<Longrightarrow> fd \<in> preopen_fds s \<and> (\<exists>rel. deref s1 p = Some rel \<and> relative_path rel)"
    using resolve_ok [OF assms(1,2)] by blast
  show ?thesis
  proof (cases "fd = -1")
    case True
    then show ?thesis
      using res confined_errno [OF c1] by simp
  next
    case False
    then obtain rel where rel: "deref s1 p = Some rel" "relative_path rel" and fd: "fd \<in> preopen_fds s"
      using ok by blast
    have F: "preopen_fds s1 = preopen_fds s" and inv: "paths_inv E s1"
      using c1 by (simp_all add: confined_def same_paths_def preopen_fds_def)
    have "confined E s1 (snd (k fd rel s1))"
      using confined_host_step [OF inv] k [OF fd rel(2)] F by simp
    then show ?thesis
      using res False rel confined_trans [OF c1] by (simp) (metis prod.collapse)
  qed
qed

end


lemma absolute_path_length:
  assumes "path_fits s path"
  shows "length (absolute_path (wasilibc_cwd s) path) < 2 ^ 30"
proof -
  have "length (strip_dot path) \<le> length path"
    by (simp add: strip_dot_def)
  moreover have "length (absolute_path (wasilibc_cwd s) path) \<le>
      length (wasilibc_cwd s) + 1 + max (length path) (length (strip_dot path))"
    by (auto simp: absolute_path_def)
  ultimately show ?thesis
    using assms by (auto simp: path_fits_def max_def)
qed

lemma absolute_path_fits:
  "path_fits s path \<Longrightarrow> length (absolute_path (wasilibc_cwd s) path) + 1 < 2 ^ 32"
  using absolute_path_length [of s path] by simp

lemma find_relpath2_ok:
  assumes inv: "paths_inv E s" and fits: "path_fits s path"
    and x: "x \<noteq> Make_absolute" "y \<noteq> Make_absolute" "y \<noteq> x"
  shows "\<exists>fd s'. find_relpath2 E path x s = Some (fd, s') \<and> confined E s s' \<and>
           calls s' = calls s \<and>
           (fd \<noteq> -1 \<longrightarrow> fd \<in> preopen_fds s \<and>
              (\<exists>rel. deref s' (fst (slots s' x)) = Some rel \<and> relative_path rel)) \<and>
           deref s' (fst (slots s y)) = deref s (fst (slots s y))"
proof (cases "chdir_linked E")
  case True
  then have wf: "wf_paths s"
    using inv by (simp add: paths_inv_def wf_paths_def)
  obtain fd ap rel t where
    res: "find_abspath (absolute_path (wasilibc_cwd s) path) s = ((fd, ap, rel), t)"
    by (metis prod_cases3 prod.collapse)
  obtain fd' ap' s' where run: "find_relpath_alloc E path x True s = Some ((fd', ap'), s')"
    and f: "filled2 x s s'"
    and ok: "fd' = -1 \<or> fd' = fd \<and> fd \<noteq> -1 \<and> deref s' (fst (slots s' x)) = Some rel"
    using find_relpath_alloc_correct [OF wf absolute_path_fits [OF fits] x(1) res, of E] by blast
  have "confined E s s'" and "calls s' = calls s"
    using filled2_simps(1-6) [OF f] filled2_simps(7) [OF f wf] inv
    by (auto simp: confined_def same_paths_def paths_inv_def wf_paths_def)
  moreover have "fd \<noteq> -1 \<Longrightarrow> fd \<in> preopen_fds s \<and> relative_path rel"
    using find_abspath_found [OF res] by (simp add: preopen_fds_def relative_path_def)
  moreover have "deref s' (fst (slots s y)) = deref s (fst (slots s y))"
    using filled2_simps(8) [OF f x(2,3)] by metis
  ultimately show ?thesis
    using True run ok by (auto simp: find_relpath2_def)
next
  case False
  obtain fd ap rel t where res: "find_abspath path s = ((fd, ap, rel), t)"
    by (metis prod_cases3 prod.collapse)
  show ?thesis
  proof (cases "fd = -1")
    case True
    then have "t = s\<lparr>errno := ENOENT\<rparr> \<or> t = s"
      using find_abspath_state(2) [OF res] by auto
    then have "confined E s t \<and> calls t = calls s \<and> slots t = slots s \<and>
        deref t (fst (slots s y)) = deref s (fst (slots s y))"
      using inv by (auto simp: confined_def paths_inv_def same_paths_def)
    then show ?thesis
      using False True res by (simp add: find_relpath2_def find_relpath_def)
  next
    case found: False
    have "fd \<in> preopen_fds s" "relative_path rel" "t = s"
      using find_abspath_found [OF res found] by (simp_all add: preopen_fds_def relative_path_def)
    moreover have "confined E s (set_slot x (Lit rel) n s)" for n
      using inv False
      by (simp add: confined_def paths_inv_def same_paths_def set_slot_def assert_invariants_def)
    ultimately show ?thesis
      using False found res
      by (auto simp: find_relpath2_def find_relpath_def set_slot_def deref_def split: cstr.split)
  qed
qed

interpretation relative: path_resolver posix_find_relpath "\<lambda>s q. q = fst (slots s Relative_alt)"
proof
  fix E :: env and s :: "'a paths_libc_scheme" and path :: string
  assume "paths_inv E s" "path_fits s path"
  from find_relpath2_ok [OF this, of Relative Relative_alt]
  show "\<exists>fd p s'. posix_find_relpath E path s = Some (fd, p, s') \<and> confined E s s' \<and>
      calls s' = calls s \<and> (fd \<noteq> -1 \<longrightarrow> fd \<in> preopen_fds s \<and>
         (\<exists>rel. deref s' p = Some rel \<and> relative_path rel)) \<and>
      (\<forall>q. q = fst (slots s Relative_alt) \<longrightarrow> deref s' q = deref s q)"
    by (auto simp: posix_find_relpath_def)
qed

interpretation relative_alt: path_resolver posix_find_relpath_alt "\<lambda>s q. q = fst (slots s Relative)"
proof
  fix E :: env and s :: "'a paths_libc_scheme" and path :: string
  assume "paths_inv E s" "path_fits s path"
  from find_relpath2_ok [OF this, of Relative_alt Relative]
  show "\<exists>fd p s'. posix_find_relpath_alt E path s = Some (fd, p, s') \<and> confined E s s' \<and>
      calls s' = calls s \<and> (fd \<noteq> -1 \<longrightarrow> fd \<in> preopen_fds s \<and>
         (\<exists>rel. deref s' p = Some rel \<and> relative_path rel)) \<and>
      (\<forall>q. q = fst (slots s Relative) \<longrightarrow> deref s' q = deref s q)"
    by (auto simp: posix_find_relpath_alt_def)
qed


section \<open>Confinement\<close>

text \<open>
  The second resolution of \<open>link\<close> and \<open>rename\<close> leaves the first relative path intact: the
  operation runs on the two paths that were resolved.
\<close>

lemma two_relpaths_confined:
  assumes inv: "paths_inv E s" and fits: "path_fits s old" "path_fits s new"
    and k: "\<And>fd p fd' p' t. fd \<in> preopen_fds s \<Longrightarrow> relative_path p \<Longrightarrow>
        fd' \<in> preopen_fds s \<Longrightarrow> relative_path p' \<Longrightarrow>
        host_step (preopen_fds s) t (snd (k fd p fd' p' t))"
  shows "\<exists>r s'. at_two_relpaths E old new k s = Some (r, s') \<and> confined E s s'"
proof -
  obtain fd1 p1 s1 where r1: "posix_find_relpath_alt E old s = Some (fd1, p1, s1)"
    and c1: "confined E s s1" and ok1: "fd1 \<noteq> -1 \<Longrightarrow> fd1 \<in> preopen_fds s \<and>
      (\<exists>rel. deref s1 p1 = Some rel \<and> relative_path rel)"
    using relative_alt.resolve_ok [OF inv fits(1)] by blast
  have p1: "p1 = fst (slots s1 Relative_alt)"
    using r1 by (auto simp: posix_find_relpath_alt_def split: bind_splits)
  have inv1: "paths_inv E s1" and fits1: "path_fits s1 new" and F1: "preopen_fds s1 = preopen_fds s"
    using c1 fits(2) by (simp_all add: confined_def same_paths_def path_fits_def preopen_fds_def)
  obtain fd2 p2 s2 where r2: "posix_find_relpath E new s1 = Some (fd2, p2, s2)"
    and c2: "confined E s1 s2" and ok2: "fd2 \<noteq> -1 \<Longrightarrow> fd2 \<in> preopen_fds s \<and>
      (\<exists>rel. deref s2 p2 = Some rel \<and> relative_path rel)" and kept: "deref s2 p1 = deref s1 p1"
    using relative.resolve_ok [OF inv1 fits1] unfolding F1 p1 by blast
  show ?thesis
  proof (cases "fd1 = -1 \<or> fd2 = -1")
    case True
    then show ?thesis
      using r1 r2 confined_errno [OF c1] confined_errno [OF confined_trans [OF c1 c2]]
      by (auto simp: at_two_relpaths_def)
  next
    case False
    then obtain rel1 rel2 where rel: "deref s2 p1 = Some rel1" "relative_path rel1"
      "deref s2 p2 = Some rel2" "relative_path rel2" "fd1 \<in> preopen_fds s" "fd2 \<in> preopen_fds s"
      using ok1 ok2 kept by auto
    have inv2: "paths_inv E s2" and F2: "preopen_fds s2 = preopen_fds s"
      using c2 F1 by (simp_all add: confined_def same_paths_def preopen_fds_def)
    have "confined E s2 (snd (k fd1 rel1 fd2 rel2 s2))"
      using confined_host_step [OF inv2] k [OF rel(5,2,6,4)] F2 by simp
    then have "confined E s (snd (k fd1 rel1 fd2 rel2 s2))"
      using c1 c2 confined_trans by blast
    then show ?thesis
      using False r1 r2 rel by (simp add: at_two_relpaths_def) (metis prod.collapse)
  qed
qed

datatype (plugins only: code) path_request =
    Open string c_int | Access string c_int | Readlink string size_t | Stat string
  | Lstat string | Utime string "(u64 \<times> u64) option" | Utimes string "(timeval \<times> timeval) option"
  | Unlink string | Rmdir string | Remove string | Mkdir string | Symlink string string
  | Link string string | Rename string string

definition run_request ::
  "env \<Rightarrow> path_request \<Rightarrow> 'a paths_libc_scheme \<Rightarrow> 'a paths_libc_scheme option" where
  "run_request E req s =
     (case req of
        Open p oflag \<Rightarrow> map_option snd (posix_open E p oflag s)
      | Access p amode \<Rightarrow> map_option snd (posix_access E p amode s)
      | Readlink p n \<Rightarrow> map_option snd (posix_readlink E p n s)
      | Stat p \<Rightarrow> map_option snd (posix_stat E p s)
      | Lstat p \<Rightarrow> map_option snd (posix_lstat E p s)
      | Utime p tms \<Rightarrow> map_option snd (posix_utime E p tms s)
      | Utimes p tms \<Rightarrow> map_option snd (posix_utimes E p tms s)
      | Unlink p \<Rightarrow> map_option snd (posix_unlink E p s)
      | Rmdir p \<Rightarrow> map_option snd (posix_rmdir E p s)
      | Remove p \<Rightarrow> map_option snd (posix_remove E p s)
      | Mkdir p \<Rightarrow> map_option snd (posix_mkdir E p s)
      | Symlink target p \<Rightarrow> map_option snd (posix_symlink E target p s)
      | Link p q \<Rightarrow> map_option snd (posix_link E p q s)
      | Rename p q \<Rightarrow> map_option snd (posix_rename E p q s))"

definition request_paths :: "path_request \<Rightarrow> string list" where
  "request_paths req =
     (case req of
        Open p _ \<Rightarrow> [p] | Access p _ \<Rightarrow> [p] | Readlink p _ \<Rightarrow> [p] | Stat p \<Rightarrow> [p] | Lstat p \<Rightarrow> [p]
      | Utime p _ \<Rightarrow> [p] | Utimes p _ \<Rightarrow> [p] | Unlink p \<Rightarrow> [p] | Rmdir p \<Rightarrow> [p] | Remove p \<Rightarrow> [p]
      | Mkdir p \<Rightarrow> [p] | Symlink _ p \<Rightarrow> [p] | Link p q \<Rightarrow> [p, q] | Rename p q \<Rightarrow> [p, q])"

text \<open>The arguments for which the conversion of the times of \<open>utimes\<close> is defined.\<close>

definition times_defined :: "path_request \<Rightarrow> bool" where
  "times_defined req = (case req of Utimes _ tms \<Rightarrow> utimes_times tms \<noteq> None | _ \<Rightarrow> True)"

lemma times_defined_usec:
  "times_defined (Utimes p (Some (t0, t1))) \<longleftrightarrow>
     (\<forall>t \<in> {t0, t1}. \<bar>sint (tmv_usec t)\<bar> \<le> 9223372036854775)"
  by (auto simp: times_defined_def utimes_times_def timespec_of_timeval_def split: bind_splits)

lemma posix_utimes_defined:
  "utimes_times tms = Some ts \<Longrightarrow>
     posix_utimes E path tms = at_relpath E (-1) path (\<lambda>dirfd p. nocwd_utimensat E dirfd p ts 0)"
  by (rule ext) (simp add: posix_utimes_def at_relpath_def cong: if_cong)

text \<open>Times that \<open>utimes\<close> ought to refuse pass as nanoseconds after the conversion.\<close>

lemma utimes_truncates_microseconds:
  "utimes_times (Some (\<lparr>tmv_sec = 5, tmv_usec = 4294968\<rparr>, \<lparr>tmv_sec = 5, tmv_usec = 0\<rparr>)) =
     Some (Some (\<lparr>tv_sec = 5, tv_nsec = 704\<rparr>, \<lparr>tv_sec = 5, tv_nsec = 0\<rparr>))"
  by code_simp

fun run_requests ::
  "env \<Rightarrow> path_request list \<Rightarrow> 'a paths_libc_scheme \<Rightarrow> 'a paths_libc_scheme option" where
  "run_requests E [] s = Some s"
| "run_requests E (req # reqs) s = do { s \<leftarrow> run_request E req s; run_requests E reqs s }"

lemmas posix_one_path_defs = posix_open_def wasilibc_open_nomode_def posix_access_def
  posix_readlink_def posix_stat_def posix_lstat_def posix_utime_def
  posix_unlink_def posix_rmdir_def posix_remove_def posix_mkdir_def posix_symlink_def

lemma at_relpath_confined:
  assumes "paths_inv E s" and "path_fits s path"
    and "\<And>fd rel t. fd \<in> preopen_fds s \<Longrightarrow> relative_path rel \<Longrightarrow>
        host_step (preopen_fds s) t (snd (k fd rel t))"
  shows "\<exists>s'. map_option snd (at_relpath E err path k s) = Some s' \<and> confined E s s'"
  using relative.run_confined [OF assms(1,2), where k = k and err = err, OF assms(3)] unfolding at_relpath_def by auto

lemma run_request_confined:
  assumes "paths_inv E s" and "\<forall>p \<in> set (request_paths req). path_fits s p" and "times_defined req"
  shows "\<exists>s'. run_request E req s = Some s' \<and> confined E s s'"
proof (cases req)
  case (Link p q)
  then show ?thesis
    using assms two_relpaths_confined [OF assms(1), of p q, OF _ _ nocwd_host_step2(1)]
    by (fastforce simp: run_request_def posix_link_def request_paths_def)
next
  case (Rename p q)
  then show ?thesis
    using assms two_relpaths_confined [OF assms(1), of p q, OF _ _ nocwd_host_step2(2)]
    by (fastforce simp: run_request_def posix_rename_def request_paths_def)
next
  case (Utimes p tms)
  then obtain ts where "utimes_times tms = Some ts"
    using assms(3) by (auto simp: times_defined_def)
  then show ?thesis
    using assms(1,2) unfolding Utimes
    by (auto simp: run_request_def request_paths_def posix_utimes_defined
        simp del: map_option_eq_Some intro!: at_relpath_confined nocwd_host_step)
qed (use assms in \<open>auto simp: run_request_def posix_one_path_defs request_paths_def
       simp del: map_option_eq_Some intro!: at_relpath_confined nocwd_host_step\<close>)

text \<open>
  C5. Whatever the host answers and whatever allocations fail, a program that uses the path
  functions of POSIX in any order, with microseconds that do not overflow when they are
  converted, never reads or writes outside the library's buffers, keeps the invariant of the
  path state, and only ever hands the host paths that are relative, non-empty and anchored at
  one of the preopened descriptors.
\<close>

theorem posix_calls_stay_in_preopens:
  assumes "paths_inv E s" and "\<forall>req \<in> set reqs. \<forall>p \<in> set (request_paths req). path_fits s p"
    and "\<forall>req \<in> set reqs. times_defined req"
  shows "\<exists>s'. run_requests E reqs s = Some s' \<and> paths_inv E s' \<and> preopens s' = preopens s \<and>
           (\<exists>cs. calls s' = calls s @ cs \<and> (\<forall>c \<in> set cs. anchored (preopen_fds s) c))"
proof -
  have "\<exists>s'. run_requests E reqs s = Some s' \<and> confined E s s'"
    using assms
  proof (induction reqs arbitrary: s)
    case Nil
    then show ?case
      by (simp add: confined_def same_paths_def)
  next
    case (Cons req reqs)
    then obtain s1 where s1: "run_request E req s = Some s1" "confined E s s1"
      using run_request_confined [of E s req] by auto
    moreover have "\<forall>req \<in> set reqs. \<forall>p \<in> set (request_paths req). path_fits s1 p"
      using Cons.prems(2) s1(2) by (simp add: confined_def same_paths_def path_fits_def)
    ultimately obtain s2 where "run_requests E reqs s1 = Some s2" "confined E s1 s2"
      using Cons.IH [of s1] Cons.prems(3) by (auto simp: confined_def)
    then show ?case
      using s1 confined_trans by fastforce
  qed
  then show ?thesis
    unfolding confined_def same_paths_def by (metis append_take_drop_id)
qed

definition sample_time :: timeval where
  "sample_time = \<lparr>tmv_sec = 5, tmv_usec = 250000\<rparr>"

theorem posix_calls_stay_in_preopens_witness:
  "\<exists>s'. run_requests sample_env [Open ''notes'' O_RDONLY, Utimes ''notes'' (Some (sample_time, sample_time)), Rename ''/home/a'' ''b''] path_state = Some s' \<and>
     paths_inv sample_env s' \<and> preopens s' = preopens path_state \<and>
     (\<exists>cs. calls s' = calls path_state @ cs \<and> (\<forall>c \<in> set cs. anchored (preopen_fds path_state) c))"
proof (rule posix_calls_stay_in_preopens)
  show "paths_inv sample_env path_state"
    using path_state_ok by (simp add: paths_inv_def wf_paths_def)
  show "\<forall>req \<in> set [Open ''notes'' O_RDONLY, Utimes ''notes'' (Some (sample_time, sample_time)), Rename ''/home/a'' ''b''].
      \<forall>p \<in> set (request_paths req). path_fits path_state p"
    by (simp add: request_paths_def path_fits_def path_state_def)
  show "\<forall>req \<in> set [Open ''notes'' O_RDONLY, Utimes ''notes'' (Some (sample_time, sample_time)), Rename ''/home/a'' ''b'']. times_defined req"
    by (simp add: times_defined_def utimes_times_def timespec_of_timeval_def sample_time_def)
qed


section \<open>Two paths in one buffer\<close>

lemma relative_resolution:
  assumes "paths_inv E s" and "chdir_linked E" and "path_fits s path"
    and "posix_find_relpath E path s = Some (fd, p, s')"
  shows "calls s' = calls s" and "paths_inv E s'" and "same_paths s s'"
    and "p = fst (slots s' Relative)"
    and "fd \<noteq> -1 \<Longrightarrow> fst (slots s' Relative) = fst (slots s Relative) \<or>
           deref s' (fst (slots s Relative)) = None"
proof -
  obtain fd1 p1 s1 where "posix_find_relpath E path s = Some (fd1, p1, s1)" "confined E s s1"
    "calls s1 = calls s"
    using relative.resolve_ok [OF assms(1,3)] by blast
  then show "calls s' = calls s" "paths_inv E s'" "same_paths s s'"
    using assms(4) by (simp_all add: confined_def)
  have wf: "wf_paths s"
    using assms(1,2) by (simp add: paths_inv_def wf_paths_def)
  obtain fd0 ap rel t where
    "find_abspath (absolute_path (wasilibc_cwd s) path) s = ((fd0, ap, rel), t)"
    by (metis prod_cases3 prod.collapse)
  from find_relpath_alloc_correct [OF wf absolute_path_fits [OF assms(3)] _ this, of Relative E]
  obtain fd2 ap2 s2 where "find_relpath_alloc E path Relative True s = Some ((fd2, ap2), s2)"
    "fd2 = -1 \<or> fst (slots s2 Relative) = fst (slots s Relative) \<or>
       deref s2 (fst (slots s Relative)) = None"
    by auto
  then show "p = fst (slots s' Relative)"
    and "fd \<noteq> -1 \<Longrightarrow> fst (slots s' Relative) = fst (slots s Relative) \<or>
           deref s' (fst (slots s Relative)) = None"
    using assms(2,4) by (auto simp: posix_find_relpath_def find_relpath2_def)
qed

text \<open>
  C10. In a program that links \<open>chdir\<close>, \<open>__wasilibc_link\<close> (and with it \<open>linkat\<close> on two
  paths that need a lookup) never links the file it was asked for: whenever it completes and
  issues the link, the old path it passes to the host is the new path, since the second
  resolution has overwritten the buffer of the first.
\<close>

theorem wasilibc_link_passes_new_path_twice:
  assumes "paths_inv E s" and "chdir_linked E" and "path_fits s old" and "path_fits s new"
    and "wasilibc_link E old new flags s = Some (r, s')"
    and "Call_path_link fd1 l p1 fd2 p2 \<in> set (drop (length (calls s)) (calls s'))"
  shows "p1 = p2"
proof -
  obtain d1 b1 s1 where r1: "posix_find_relpath E old s = Some (d1, b1, s1)"
    using assms(5) by (auto simp: wasilibc_link_def split: bind_splits)
  obtain d2 b2 s2 where r2: "posix_find_relpath E new s1 = Some (d2, b2, s2)"
    using assms(5) r1 by (auto simp: wasilibc_link_def split: bind_splits)
  note one = relative_resolution [OF assms(1-3) r1]
  have fits: "path_fits s1 new"
    using assms(4) one(3) by (simp add: same_paths_def path_fits_def)
  note two = relative_resolution [OF one(2) assms(2) fits r2]
  have calls: "calls s2 = calls s"
    using one(1) two(1) by simp
  show ?thesis
  proof (cases "d1 = -1 \<or> d2 = -1")
    case True
    then show ?thesis
      using assms(5,6) r1 r2 calls by (auto simp: wasilibc_link_def)
  next
    case False
    then obtain q1 q2 where q: "deref s2 b1 = Some q1" "deref s2 b2 = Some q2"
      and run: "(r, s') = nocwd_linkat E d1 q1 d2 q2 flags s2"
      using assms(5) r1 r2 by (auto simp: wasilibc_link_def split: bind_splits)
    have "b2 = b1"
      using two(4,5) one(4) q(1) False by auto
    then have "q1 = q2"
      using q by simp
    moreover have "calls s' = calls s @ [Call_path_link d1
        (if flags AND AT_SYMLINK_FOLLOW \<noteq> 0 then 1 else 0) q1 d2 q2]"
      using link_op.one_call [of E d1 q1 d2 q2 flags s2] run calls by (metis snd_conv)
    ultimately show ?thesis
      using assms(6) by simp
  qed
qed

definition link_result :: "paths_libc option" where
  "link_result = map_option snd (wasilibc_link sample_env ''/home/aaaa'' ''/home/b'' 0 path_state)"

lemma link_result_calls:
  "map_option calls link_result = Some [Call_path_link 6 0 ''b'' 6 ''b'']"
  by (simp add: link_result_def wasilibc_link_def posix_find_relpath_def find_relpath2_def
      find_relpath_alloc_def make_absolute_def find_abspath_def grow_def realloc_def strcpy_def
      set_slot_def alloc_def sample_defs path_state_def prefix_matches_def char_at_def strlen_def
      deref_def nocwd_linkat_def wasi_defs call_host_def check_error_def errno_fixup_directory_def
      Let_def)

theorem wasilibc_link_passes_new_path_twice_witness:
  "\<exists>r s'. wasilibc_link sample_env ''/home/aaaa'' ''/home/b'' 0 path_state = Some (r, s') \<and>
     Call_path_link 6 0 ''b'' 6 ''b'' \<in> set (calls s') \<and> ''b'' = ''b''"
proof -
  obtain r s' where run:
    "wasilibc_link sample_env ''/home/aaaa'' ''/home/b'' 0 path_state = Some (r, s')"
    and calls: "calls s' = [Call_path_link 6 0 ''b'' 6 ''b'']"
    using link_result_calls by (auto simp: link_result_def)
  have "paths_inv sample_env path_state" "chdir_linked sample_env"
    "path_fits path_state ''/home/aaaa''" "path_fits path_state ''/home/b''"
    using path_state_ok by (simp_all add: paths_inv_def wf_paths_def path_fits_def path_state_def
        sample_env_def)
  from wasilibc_link_passes_new_path_twice [OF this run, of 6 0 "''b''" 6 "''b''"]
  show ?thesis
    using run calls by (simp add: path_state_def)
qed

end
