(* ===== verification/Cwd.thy ===== *)
theory Cwd
  imports Posix_Paths
begin

text \<open>
  The working directory: \<open>chdir\<close> (\<open>sources/chdir.c\<close>) and \<open>getcwd\<close> (\<open>sources/getcwd.c\<close>).
  The string \<open>__wasilibc_cwd\<close> is read and replaced as a whole; its block is never shared
  (\<open>getcwd\<close> copies it), so the model keeps its value and the flag that tells whether it has
  to be freed.
\<close>

section \<open>Operations\<close>

definition posix_chdir ::
  "env \<Rightarrow> string \<Rightarrow> 'a paths_libc_scheme \<Rightarrow> (c_int \<times> 'a paths_libc_scheme) option" where
  "posix_chdir E path s = do {
     ((parent_fd, abs), s) \<leftarrow> find_relpath_alloc E path Chdir True s;
     if parent_fd = -1 then Some (-1, s)
     else do {
       relative_buf \<leftarrow> deref s (fst (slots s Chdir));
       ((ret, dirinfo), s) \<leftarrow> posix_fstatat E parent_fd relative_buf 0 s;
       if ret = -1 then Some (-1, s)
       else do {
         dirinfo \<leftarrow> dirinfo;
         if \<not> S_ISDIR (st_mode dirinfo) then Some (-1, s\<lparr>errno := ENOTDIR\<rparr>)
         else do {
           relative_buf \<leftarrow> deref s (fst (slots s Chdir));
           let abs_len = strlen abs;
           let copy_relative = (relative_buf \<noteq> ''.'');
           let mid = (copy_relative \<and> abs \<noteq> []);
           let new_size = 1 + abs_len + (if mid then 1 else 0) +
                        (if copy_relative then strlen relative_buf else 0) + 1;
           let (ok, s) = alloc E new_size s;
           if \<not> ok then Some (-1, s\<lparr>errno := ENOMEM\<rparr>)
           else let new_cwd = ''/'' @ abs @ (if mid then ''/'' else []) @
                                (if copy_relative then relative_buf else [])
                in if unat new_size \<le> length new_cwd then None
                   else Some (0, s\<lparr>wasilibc_cwd := new_cwd, cwd_mallocd := True\<rparr>) } } } }"

text \<open>
  \<open>getcwd\<close> with a buffer of \<open>bufsize\<close> bytes (\<^const>\<open>Some\<close> bufsize) or with a null pointer; the
  result is the string at the returned pointer, \<^const>\<open>None\<close> for a null pointer.
\<close>

definition posix_getcwd ::
  "env \<Rightarrow> size_t option \<Rightarrow> 'a paths_libc_scheme \<Rightarrow> string option \<times> 'a paths_libc_scheme" where
  "posix_getcwd E buf s =
     (case buf of
        None \<Rightarrow>
          let (ok, s) = alloc E (strlen (wasilibc_cwd s) + 1) s
          in if \<not> ok then (None, s\<lparr>errno := ENOMEM\<rparr>) else (Some (wasilibc_cwd s), s)
      | Some bufsize \<Rightarrow>
          let len = strlen (wasilibc_cwd s)
          in if bufsize < len + 1 then (None, s\<lparr>errno := ERANGE\<rparr>)
             else (Some (wasilibc_cwd s), s))"

section \<open>The search on a path rebuilt from its result\<close>

lemma best_at_unique: "best_at pres path i \<Longrightarrow> best_at pres path j \<Longrightarrow> i = j"
  unfolding best_at_def by (metis leD linorder_neqE_nat)

lemma anchors_prefix_length: "anchors p path \<Longrightarrow> length p \<le> length path \<or> p = []"
  by (auto simp: anchors_def)

lemma anchors_self: "anchors p p"
  by (simp add: anchors_def)

text \<open>Searching for the prefix that was found finds it again.\<close>

lemma find_abspath_prefix:
  assumes fds: "\<forall>pre \<in> set (preopens s). po_fd pre \<noteq> -1" and nul: "CHR 0x00 \<notin> set path"
    and res: "find_abspath path s = ((fd, ap, rel), s)" and found: "fd \<noteq> -1"
  shows "find_abspath (''/'' @ ap) s = ((fd, ap, ''.''), s)"
proof -
  let ?p = "dropWhile is_slash path" and ?R = "rev (preopens s)"
  have matchp: "matching ?p pre \<longleftrightarrow> anchors (po_prefix pre) ?p" for pre
    by (intro prefix_matches_anchors no_nul_dropWhile not_slash_dropWhile nul)
  from fds obtain i where best: "best_at ?R ?p i" and i: "fd = po_fd (?R ! i)" "ap = po_prefix (?R ! i)"
    using res found by (cases rule: find_abspath_cases [of s path]) (auto simp: Let_def)
  have apm: "anchors ap ?p"
    using best by (simp add: best_at_def i matchp)
  then have ap: "\<exists>rest. ?p = ap @ rest"
    by (auto simp: anchors_def)
  then have nul_ap: "CHR 0x00 \<notin> set ap"
    using nul no_nul_dropWhile [OF nul, of is_slash] by auto
  have head: "\<not> is_slash (char_at ap 0)"
  proof -
    obtain rest where "?p = ap @ rest"
      using ap by blast
    then show ?thesis
      using not_slash_dropWhile [of path] by (cases ap) (auto simp: char_at_def simp del: dropWhile_eq_Nil_conv)
  qed
  then have strip: "dropWhile is_slash (''/'' @ ap) = ap"
    by (cases ap) (auto simp: char_at_def)
  have matcha: "matching ap pre \<longleftrightarrow> anchors (po_prefix pre) ap" for pre
    by (intro prefix_matches_anchors nul_ap head)
  have best': "best_at ?R ap i"
    unfolding best_at_def
  proof (intro conjI allI impI)
    show "i < length ?R"
      using best by (simp add: best_at_def)
    show "matching ap (?R ! i)"
      using matcha [of "?R ! i"] anchors_self [of ap] i(2) by simp
    fix j
    assume j: "j < length ?R" "matching ap (?R ! j)"
    then have le: "length (po_prefix (?R ! j)) \<le> length ap"
      using anchors_prefix_length [of "po_prefix (?R ! j)" ap] by (auto simp: matcha)
    then show "length (po_prefix (?R ! j)) \<le> length (po_prefix (?R ! i))"
      by (simp add: i(2))
    assume "j < i"
    show "length (po_prefix (?R ! j)) < length (po_prefix (?R ! i))"
    proof (rule ccontr)
      assume "\<not> ?thesis"
      then have "length (po_prefix (?R ! j)) = length ap"
        using le by (simp add: i(2))
      moreover have "anchors (po_prefix (?R ! j)) ap"
        using j(2) matcha by blast
      ultimately have "po_prefix (?R ! j) = ap"
        by (auto simp: anchors_def)
      then have "matching ?p (?R ! j)"
        using apm matchp [of "?R ! j"] by simp
      then show False
        using best j(1) \<open>j < i\<close> \<open>po_prefix (?R ! j) = ap\<close> unfolding best_at_def i(2)
        by (metis less_irrefl)
    qed
  qed
  from fds show ?thesis
  proof (cases rule: find_abspath_cases [of s "''/'' @ ap"])
    case none
    have "?R ! i \<in> set (preopens s)"
      using best unfolding best_at_def by (metis length_rev nth_mem set_rev)
    then show ?thesis
      using none(1) best' unfolding strip best_at_def by blast
  next
    case (found i')
    then have "i' = i"
      using best' best_at_unique unfolding strip by blast
    then show ?thesis
      using found(2) unfolding strip by (simp add: i Let_def)
  qed
qed


section \<open>Changing the directory\<close>

definition rebuild :: "string \<Rightarrow> string \<Rightarrow> string" where
  "rebuild ap rel =
     ''/'' @ ap @ (if rel \<noteq> ''.'' \<and> ap \<noteq> [] then ''/'' else []) @ (if rel \<noteq> ''.'' then rel else [])"

lemma wf_cwd_rebuild:
  "CHR 0x00 \<notin> set ap \<Longrightarrow> CHR 0x00 \<notin> set rel \<Longrightarrow> wf_cwd (rebuild ap rel)"
  by (simp add: wf_cwd_def rebuild_def)

lemma nocwd_fstatat_result:
  obtains (error) e where "nocwd_fstatat E fd p flag s =
      ((-1, None), s\<lparr>calls := calls s @ [Call_path_filestat_get fd
         (if flag AND AT_SYMLINK_NOFOLLOW = 0 then 1 else 0) p], errno := e\<rparr>)"
  | (ok) f where "nocwd_fstatat E fd p flag s =
      ((0, Some (to_public_stat f)), s\<lparr>calls := calls s @ [Call_path_filestat_get fd
         (if flag AND AT_SYMLINK_NOFOLLOW = 0 then 1 else 0) p]\<rparr>)"
  by (cases "(ucast (status (host E (calls s) (Call_path_filestat_get fd
         (if flag AND AT_SYMLINK_NOFOLLOW = 0 then 1 else 0) p))) :: errno_t) = 0")
     (auto simp: nocwd_fstatat_def wasi_defs call_host_def Let_def)

text \<open>The parts of a found path are pieces of it.\<close>

lemma find_abspath_pieces:
  assumes "assert_invariants s" and "CHR 0x00 \<notin> set path"
    and "find_abspath path s = ((fd, ap, rel), s)" and "fd \<noteq> -1"
  shows "CHR 0x00 \<notin> set ap" and "CHR 0x00 \<notin> set rel" and "length ap \<le> length path"
proof -
  let ?p = "dropWhile is_slash path"
  have fds: "\<forall>pre \<in> set (preopens s). po_fd pre \<noteq> -1"
    using assms(1) by (simp add: assert_invariants_def)
  have match: "matching ?p pre \<longleftrightarrow> anchors (po_prefix pre) ?p" for pre
    by (intro prefix_matches_anchors no_nul_dropWhile not_slash_dropWhile assms(2))
  from fds have *: "anchors ap ?p \<and> (rel = ''.'' \<or> set rel \<subseteq> set ?p)"
  proof (cases rule: find_abspath_cases [of s path])
    case (found i)
    define pre where "pre = rev (preopens s) ! i"
    have "matching ?p pre"
      using found(1) by (simp add: best_at_def pre_def)
    moreover have "ap = po_prefix pre"
      and "rel = (let r = dropWhile is_slash (drop (length (po_prefix pre)) ?p)
                  in if r = [] then ''.'' else r)"
      using found(2) assms(3) unfolding pre_def [symmetric] by (simp_all only: Let_def prod.inject)
    moreover have "set (dropWhile is_slash (drop n ?p)) \<subseteq> set ?p" for n
      by (meson in_set_dropD set_dropWhileD subsetI)
    ultimately show ?thesis
      unfolding match Let_def by (metis (full_types))
  qed (use assms in simp)
  have nul: "CHR 0x00 \<notin> set ?p"
    by (rule no_nul_dropWhile [OF assms(2)])
  have "ap = [] \<or> (\<exists>rest. ?p = ap @ rest)"
    using * by (auto simp: anchors_def)
  then show "CHR 0x00 \<notin> set ap" "length ap \<le> length path"
    using nul length_dropWhile_le [of is_slash path] by auto
  show "CHR 0x00 \<notin> set rel"
    using * nul by auto
qed

lemma strlen_sum:
  assumes "length a + length b + 3 < 2 ^ 32"
  shows "unat (1 + strlen a + (if P then 1 else 0) + (if Q then strlen b else 0) + 1) =
           length a + (if P then 1 else 0) + (if Q then length b else 0) + 2"
proof -
  let ?n = "length a + (if P then 1 else 0) + (if Q then length b else 0) + 2"
  have "1 + strlen a + (if P then 1 else 0) + (if Q then strlen b else 0) + 1 = of_nat ?n"
    by (simp add: strlen_def)
  moreover have "?n < 2 ^ 32"
    using assms by auto
  ultimately show ?thesis
    by (simp only: unat_of_nat take_bit_nat_eq_self) (simp add: take_bit_nat_eq_self)
qed

lemma posix_chdir_correct:
  assumes wf: "wf_paths s" and fits: "path_fits s path"
    and at: "\<forall>pre \<in> set (preopens s). po_fd pre \<noteq> AT_FDCWD"
  shows "\<exists>r s'. posix_chdir E path s = Some (r, s') \<and> wf_paths s' \<and> preopens s' = preopens s \<and>
           (r = -1 \<and> wasilibc_cwd s' = wasilibc_cwd s \<or>
            r = 0 \<and> (\<exists>fd ap rel. find_abspath (absolute_path (wasilibc_cwd s) path) s =
                                  ((fd, ap, rel), s) \<and> fd \<noteq> -1 \<and>
                                wasilibc_cwd s' = rebuild ap rel))"
proof -
  let ?abs = "absolute_path (wasilibc_cwd s) path"
  obtain fd ap rel t where res: "find_abspath ?abs s = ((fd, ap, rel), t)"
    by (metis prod_cases3 prod.collapse)
  obtain fd' ap' s1 where run: "find_relpath_alloc E path Chdir True s = Some ((fd', ap'), s1)"
    and f: "filled2 Chdir s s1"
    and ok: "fd' = -1 \<or> fd' = fd \<and> fd \<noteq> -1 \<and> ap' = ap \<and> deref s1 (fst (slots s1 Chdir)) = Some rel"
    using find_relpath_alloc_correct [OF wf absolute_path_fits [OF fits] _ res, of Chdir E] by blast
  have wf1: "wf_paths s1" and same: "preopens s1 = preopens s" "wasilibc_cwd s1 = wasilibc_cwd s"
    using filled2_simps(2,4) [OF f] filled2_simps(7) [OF f wf] by simp_all
  show ?thesis
  proof (cases "fd' = -1")
    case True
    then show ?thesis
      using run wf1 same by (simp add: posix_chdir_def)
  next
    case False
    then have *: "fd' = fd" "fd \<noteq> -1" "ap' = ap" "deref s1 (fst (slots s1 Chdir)) = Some rel"
      using ok by auto
    have t: "t = s" and fdin: "fd \<in> po_fd ` set (preopens s)" and rel: "rel \<noteq> []" "\<not> is_slash (hd rel)"
      using find_abspath_found [OF res *(2)] by simp_all
    have nul: "CHR 0x00 \<notin> set ?abs"
      using fits wf by (intro absolute_path_no_nul) (simp_all add: path_fits_def wf_paths_def)
    have inv: "assert_invariants s"
      using wf by (simp add: wf_paths_def)
    note pieces = find_abspath_pieces [OF inv nul res [unfolded t] *(2)]
    have abs_ne: "?abs \<noteq> []"
      using absolute_path_starts [of "wasilibc_cwd s" path] wf by (auto simp: char_at_def wf_paths_def)
    have small: "length ap + length rel + 3 < 2 ^ 32"
      using pieces(3) find_abspath_length [OF res abs_ne *(2)] absolute_path_length [OF fits]
      by simp
    have stat: "posix_fstatat E fd rel 0 s1 = Some (nocwd_fstatat E fd rel 0 s1)"
      using fdin at rel by (cases rel) (auto simp: posix_fstatat_def char_at_def)
    show ?thesis
    proof (rule nocwd_fstatat_result [of E fd rel 0 s1])
      fix e
      assume "nocwd_fstatat E fd rel 0 s1 = ((-1, None), s1\<lparr>calls := calls s1 @
        [Call_path_filestat_get fd (if (0 :: c_int) AND AT_SYMLINK_NOFOLLOW = 0 then 1 else 0) rel],
        errno := e\<rparr>)"
      then show ?thesis
        using run * stat wf1 same by (simp add: posix_chdir_def wf_paths_def)
    next
      fix g
      let ?s2 = "s1\<lparr>calls := calls s1 @
        [Call_path_filestat_get fd (if (0 :: c_int) AND AT_SYMLINK_NOFOLLOW = 0 then 1 else 0) rel]\<rparr>"
      assume g: "nocwd_fstatat E fd rel 0 s1 = ((0, Some (to_public_stat g)), ?s2)"
      show ?thesis
      proof (cases "S_ISDIR (st_mode (to_public_stat g))")
        case False
        then show ?thesis
          using run * stat g wf1 same by (simp add: posix_chdir_def wf_paths_def)
      next
        case True
        let ?n = "1 + strlen ap + (if rel \<noteq> ''.'' \<and> ap \<noteq> [] then 1 else 0) +
          (if rel \<noteq> ''.'' then strlen rel else 0) + 1"
        have len: "\<not> unat ?n \<le> length (rebuild ap rel)"
          using strlen_sum [OF small, of "rel \<noteq> ''.'' \<and> ap \<noteq> []" "rel \<noteq> ''.''"]
          by (auto simp: rebuild_def)
        have code: "posix_chdir E path s =
            (let (ok, s) = alloc E ?n ?s2
             in if \<not> ok then Some (-1, s\<lparr>errno := ENOMEM\<rparr>)
                else if unat ?n \<le> length (rebuild ap rel) then None
                else Some (0, s\<lparr>wasilibc_cwd := rebuild ap rel, cwd_mallocd := True\<rparr>))"
          using run * stat g True
          by (simp add: posix_chdir_def rebuild_def Let_def split: prod.split)
        have wf2: "wf_paths (?s2\<lparr>allocs := a, wasilibc_cwd := rebuild ap rel, cwd_mallocd := True\<rparr>)"
          for a
          using wf1 wf_cwd_rebuild [OF pieces(1,2)]
          by (simp add: wf_paths_def wf_bufs_def buf_ok_def assert_invariants_def) blast
        show ?thesis
        proof (rule alloc_result [of E ?n ?s2])
          assume "alloc E ?n ?s2 = (True, ?s2\<lparr>allocs := Suc (allocs ?s2)\<rparr>)"
          then show ?thesis
            using len wf2 same res t *(2) unfolding code by auto
        next
          fix e
          assume "alloc E ?n ?s2 = (False, ?s2\<lparr>allocs := Suc (allocs ?s2), errno := e\<rparr>)"
          then show ?thesis
            using wf1 same unfolding code by (simp add: wf_paths_def)
        qed
      qed
    qed
  qed
qed


text \<open>
  C9. \<open>chdir\<close> never leaves its buffers and keeps the invariant of the path state: the
  working directory stays an absolute path.  When it fails, the working directory is
  unchanged; when it succeeds, \<open>getcwd\<close> returns the prefix and relative path that the
  argument was resolved to.
\<close>

theorem chdir_updates_cwd:
  assumes "wf_paths s" and "path_fits s path" and "\<forall>pre \<in> set (preopens s). po_fd pre \<noteq> AT_FDCWD"
  shows "\<exists>r s'. posix_chdir E path s = Some (r, s') \<and> wf_paths s' \<and>
           (r = -1 \<and> wasilibc_cwd s' = wasilibc_cwd s \<or>
            r = 0 \<and> (\<exists>fd ap rel. find_abspath (absolute_path (wasilibc_cwd s) path) s =
                                  ((fd, ap, rel), s) \<and>
                       (\<forall>n. strlen (rebuild ap rel) + 1 \<le> n \<longrightarrow>
                          posix_getcwd E (Some n) s' = (Some (rebuild ap rel), s'))))"
proof -
  obtain r s' where run: "posix_chdir E path s = Some (r, s')" "wf_paths s'"
    and alt: "r = -1 \<and> wasilibc_cwd s' = wasilibc_cwd s \<or>
            r = 0 \<and> (\<exists>fd ap rel. find_abspath (absolute_path (wasilibc_cwd s) path) s =
                                  ((fd, ap, rel), s) \<and> fd \<noteq> -1 \<and>
                                wasilibc_cwd s' = rebuild ap rel)"
    using posix_chdir_correct [OF assms, of E] by blast
  have get: "strlen (wasilibc_cwd s') + 1 \<le> n \<Longrightarrow>
      posix_getcwd E (Some n) s' = (Some (wasilibc_cwd s'), s')" for n
    by (simp add: posix_getcwd_def not_less [symmetric])
  show ?thesis
    using run alt get by fastforce
qed

theorem chdir_updates_cwd_witness:
  "\<exists>r s'. posix_chdir sample_env ''work'' path_state = Some (r, s') \<and> wf_paths s'"
proof -
  have "path_fits path_state ''work''" "\<forall>pre \<in> set (preopens path_state). po_fd pre \<noteq> AT_FDCWD"
    by (simp_all add: path_fits_def path_state_def sample_table_def)
  from chdir_updates_cwd [OF path_state_ok this, of sample_env] show ?thesis
    by blast
qed

end
