(* ===== verification/Wasi_Fd.thy ===== *)
theory Wasi_Fd
  imports Posix_Paths
begin

text \<open>
  Operations on open descriptors (\<open>cloudlibc/src/libc/\<close>: \<open>unistd\<close>, \<open>sys/uio\<close>, \<open>fcntl\<close>,
  \<open>sys/ioctl\<close>; \<open>sources/\<close>: \<open>isatty.c\<close>, \<open>getentropy.c\<close>, \<open>truncate.c\<close>,
  \<open>__wasilibc_fd_renumber.c\<close>, \<open>__wasilibc_tell.c\<close>, \<open>__wasilibc_dt.c\<close>).

  A reading operation returns its count with the bytes the host has put into the buffers, a
  writing one takes the bytes the buffer holds.  An \<open>iovec\<close> array is a list; reading it
  beyond its end (a count larger than the array) is undefined behaviour, \<^const>\<open>None\<close>.
\<close>

section \<open>Single calls with their error translations\<close>

definition translate :: "errno_t \<Rightarrow> errno_t \<Rightarrow> errno_t" where
  "translate e error = (if error = ENOTCAPABLE then e else error)"

definition close :: "env \<Rightarrow> u32 \<Rightarrow> 'a libc_scheme \<Rightarrow> c_int \<times> 'a libc_scheme" where
  "close E fildes s =
     (let (error, s) = wasi_fd_close E fildes s
      in if error \<noteq> 0 then fail error s else (0, s))"

definition fdatasync :: "env \<Rightarrow> u32 \<Rightarrow> 'a libc_scheme \<Rightarrow> c_int \<times> 'a libc_scheme" where
  "fdatasync E fildes s =
     (let (error, s) = wasi_fd_datasync E fildes s
      in if error \<noteq> 0 then fail (translate EBADF error) s else (0, s))"

definition fsync :: "env \<Rightarrow> u32 \<Rightarrow> 'a libc_scheme \<Rightarrow> c_int \<times> 'a libc_scheme" where
  "fsync E fildes s =
     (let (error, s) = wasi_fd_sync E fildes s
      in if error \<noteq> 0 then fail (translate EINVAL error) s else (0, s))"

definition ftruncate :: "env \<Rightarrow> u32 \<Rightarrow> u64 \<Rightarrow> 'a libc_scheme \<Rightarrow> c_int \<times> 'a libc_scheme" where
  "ftruncate E fildes len s =
     (if sint len < 0 then fail (EINVAL :: errno_t) s
      else let (error, s) = wasi_fd_filestat_set_size E fildes len s
           in if error \<noteq> 0 then fail error s else (0, s))"

definition fd_renumber :: "env \<Rightarrow> u32 \<Rightarrow> u32 \<Rightarrow> 'a libc_scheme \<Rightarrow> c_int \<times> 'a libc_scheme" where
  "fd_renumber E fd newfd s =
     (let (error, s) = wasi_fd_renumber E fd newfd s
      in if error \<noteq> 0 then fail error s else (0, s))"

text \<open>The 64-bit result \<open>-1\<close> of \<open>lseek\<close> and \<open>tell\<close>; \<open>whence\<close> is cut to the host's 8 bits.\<close>

definition fail64 :: "errno_t \<Rightarrow> 'a libc_scheme \<Rightarrow> u64 \<times> 'a libc_scheme" where
  "fail64 e s = (-1, s\<lparr>errno := ucast e\<rparr>)"

definition lseek :: "env \<Rightarrow> u32 \<Rightarrow> u64 \<Rightarrow> c_int \<Rightarrow> 'a libc_scheme \<Rightarrow> u64 \<times> 'a libc_scheme" where
  "lseek E fildes offset whence s =
     (let (error, new_offset, s) = wasi_fd_seek E fildes offset (ucast whence) s
      in if error \<noteq> 0 then fail64 (translate ESPIPE error) s else (new_offset, s))"

definition wasilibc_tell :: "env \<Rightarrow> u32 \<Rightarrow> 'a libc_scheme \<Rightarrow> u64 \<times> 'a libc_scheme" where
  "wasilibc_tell E fildes s =
     (let (error, offset, s) = wasi_fd_tell E fildes s
      in if error \<noteq> 0 then fail64 (translate ESPIPE error) s else (offset, s))"

text \<open>\<open>posix_fadvise\<close> and \<open>posix_fallocate\<close> return the error instead of setting \<open>errno\<close>.\<close>

definition posix_fadvise ::
  "env \<Rightarrow> u32 \<Rightarrow> u64 \<Rightarrow> u64 \<Rightarrow> c_int \<Rightarrow> 'a libc_scheme \<Rightarrow> c_int \<times> 'a libc_scheme" where
  "posix_fadvise E fd offset len advice s =
     (if sint offset < 0 \<or> sint len < 0 then (EINVAL, s)
      else let (error, s) = wasi_fd_advise E fd offset len (ucast advice) s in (ucast error, s))"

definition posix_fallocate ::
  "env \<Rightarrow> u32 \<Rightarrow> u64 \<Rightarrow> u64 \<Rightarrow> 'a libc_scheme \<Rightarrow> c_int \<times> 'a libc_scheme" where
  "posix_fallocate E fd offset len s =
     (if sint offset < 0 \<or> sint len < 0 then (EINVAL, s)
      else let (error, s) = wasi_fd_allocate E fd offset len s in (ucast error, s))"

definition getentropy ::
  "env \<Rightarrow> size_t \<Rightarrow> 'a libc_scheme \<Rightarrow> (c_int \<times> u8 list) \<times> 'a libc_scheme" where
  "getentropy E len s =
     (if 256 < len then ((-1, []), s\<lparr>errno := EIO\<rparr>)
      else let (r, buffer, s) = wasi_random_get E len s
           in if r \<noteq> 0 then ((-1, buffer), s\<lparr>errno := ucast r\<rparr>) else ((0, buffer), s))"

definition isatty :: "env \<Rightarrow> u32 \<Rightarrow> 'a libc_scheme \<Rightarrow> c_int \<times> 'a libc_scheme" where
  "isatty E fd s =
     (let (r, statbuf, s) = wasi_fd_fdstat_get E fd s
      in if r \<noteq> 0 then (0, s\<lparr>errno := ucast r\<rparr>)
         else if fs_filetype statbuf \<noteq> 2 \<or>
                 fs_rights_base statbuf AND (RIGHTS_FD_SEEK OR RIGHTS_FD_TELL) \<noteq> 0
         then (0, s\<lparr>errno := ENOTTY\<rparr>)
         else (1, s))"

section \<open>Reading and writing\<close>

type_synonym 'a read_result = "(c_int \<times> u8 list) \<times> 'a"

definition c_read ::
  "env \<Rightarrow> u32 \<Rightarrow> size_t \<Rightarrow> 'a libc_scheme \<Rightarrow> 'a libc_scheme read_result" where
  "c_read E fildes nbyte s =
     (let (error, bytes_read, buf, s) = wasi_fd_read E fildes [nbyte] s
      in if error \<noteq> 0 then ((-1, buf), s\<lparr>errno := ucast (translate EBADF error)\<rparr>)
         else ((bytes_read, buf), s))"

definition c_write :: "env \<Rightarrow> u32 \<Rightarrow> u8 list \<Rightarrow> 'a libc_scheme \<Rightarrow> c_int \<times> 'a libc_scheme" where
  "c_write E fildes buf s =
     (let (error, bytes_written, s) = wasi_fd_write E fildes [buf] s
      in if error \<noteq> 0 then fail (translate EBADF error) s else (bytes_written, s))"

text \<open>
  \<open>pread\<close> and \<open>pwrite\<close> find out whether a missing capability means that the descriptor is
  not open for the direction (\<open>EBADF\<close>) or cannot seek (\<open>ESPIPE\<close>).
\<close>

definition refine_error :: "env \<Rightarrow> u64 \<Rightarrow> u32 \<Rightarrow> errno_t \<Rightarrow> 'a libc_scheme \<Rightarrow> errno_t \<times> 'a libc_scheme" where
  "refine_error E right fildes error s =
     (if error = ENOTCAPABLE
      then let (r, fds, s) = wasi_fd_fdstat_get E fildes s
           in (if r = 0 then if fs_rights_base fds AND right = 0 then EBADF else ESPIPE
               else error, s)
      else (error, s))"

definition pread ::
  "env \<Rightarrow> u32 \<Rightarrow> size_t \<Rightarrow> u64 \<Rightarrow> 'a libc_scheme \<Rightarrow> 'a libc_scheme read_result" where
  "pread E fildes nbyte offset s =
     (if sint offset < 0 then ((-1, []), s\<lparr>errno := EINVAL\<rparr>)
      else let (error, bytes_read, buf, s) = wasi_fd_pread E fildes [nbyte] offset s
           in if error \<noteq> 0
              then let (error, s) = refine_error E RIGHTS_FD_READ fildes error s
                   in ((-1, buf), s\<lparr>errno := ucast error\<rparr>)
              else ((bytes_read, buf), s))"

definition pwrite ::
  "env \<Rightarrow> u32 \<Rightarrow> u8 list \<Rightarrow> u64 \<Rightarrow> 'a libc_scheme \<Rightarrow> c_int \<times> 'a libc_scheme" where
  "pwrite E fildes buf offset s =
     (if sint offset < 0 then fail (EINVAL :: errno_t) s
      else let (error, bytes_written, s) = wasi_fd_pwrite E fildes [buf] offset s
           in if error \<noteq> 0
              then let (error, s) = refine_error E RIGHTS_FD_WRITE fildes error s in fail error s
              else (bytes_written, s))"

definition vector :: "'b list \<Rightarrow> c_int \<Rightarrow> 'b list option" where
  "vector iov iovcnt = (if unat iovcnt \<le> length iov then Some (take (unat iovcnt) iov) else None)"

definition readv ::
  "env \<Rightarrow> u32 \<Rightarrow> size_t list \<Rightarrow> c_int \<Rightarrow> 'a libc_scheme \<Rightarrow> 'a libc_scheme read_result option" where
  "readv E fildes iov iovcnt s =
     (if sint iovcnt < 0 then Some ((-1, []), s\<lparr>errno := EINVAL\<rparr>)
      else do {
        iovs \<leftarrow> vector iov iovcnt;
        let (error, bytes_read, buf, s) = wasi_fd_read E fildes iovs s;
        Some (if error \<noteq> 0 then ((-1, buf), s\<lparr>errno := ucast error\<rparr>)
              else ((bytes_read, buf), s)) })"

definition writev ::
  "env \<Rightarrow> u32 \<Rightarrow> u8 list list \<Rightarrow> c_int \<Rightarrow> 'a libc_scheme \<Rightarrow> (c_int \<times> 'a libc_scheme) option" where
  "writev E fildes iov iovcnt s =
     (if sint iovcnt < 0 then Some (fail (EINVAL :: errno_t) s)
      else do {
        iovs \<leftarrow> vector iov iovcnt;
        let (error, bytes_written, s) = wasi_fd_write E fildes iovs s;
        Some (if error \<noteq> 0 then fail error s else (bytes_written, s)) })"

definition preadv ::
  "env \<Rightarrow> u32 \<Rightarrow> size_t list \<Rightarrow> c_int \<Rightarrow> u64 \<Rightarrow> 'a libc_scheme \<Rightarrow> 'a libc_scheme read_result option" where
  "preadv E fildes iov iovcnt offset s =
     (if sint iovcnt < 0 \<or> sint offset < 0 then Some ((-1, []), s\<lparr>errno := EINVAL\<rparr>)
      else do {
        iovs \<leftarrow> vector iov iovcnt;
        let (error, bytes_read, buf, s) = wasi_fd_pread E fildes iovs offset s;
        Some (if error \<noteq> 0 then ((-1, buf), s\<lparr>errno := ucast error\<rparr>)
              else ((bytes_read, buf), s)) })"

definition pwritev ::
  "env \<Rightarrow> u32 \<Rightarrow> u8 list list \<Rightarrow> c_int \<Rightarrow> u64 \<Rightarrow> 'a libc_scheme \<Rightarrow> (c_int \<times> 'a libc_scheme) option" where
  "pwritev E fildes iov iovcnt offset s =
     (if sint iovcnt < 0 \<or> sint offset < 0 then Some (fail (EINVAL :: errno_t) s)
      else do {
        iovs \<leftarrow> vector iov iovcnt;
        let (error, bytes_written, s) = wasi_fd_pwrite E fildes iovs offset s;
        Some (if error \<noteq> 0 then fail error s else (bytes_written, s)) })"

section \<open>Control operations\<close>

text \<open>The third argument of \<open>fcntl\<close> is read by \<open>F_SETFL\<close> only.\<close>

definition access_mode :: "u64 \<Rightarrow> c_int" where
  "access_mode rights =
     (if rights AND (RIGHTS_FD_READ OR RIGHTS_FD_READDIR) \<noteq> 0
      then if rights AND RIGHTS_FD_WRITE \<noteq> 0 then O_RDWR else O_RDONLY
      else if rights AND RIGHTS_FD_WRITE \<noteq> 0 then O_WRONLY
      else O_SEARCH)"

definition fcntl :: "env \<Rightarrow> u32 \<Rightarrow> c_int \<Rightarrow> c_int \<Rightarrow> 'a libc_scheme \<Rightarrow> c_int \<times> 'a libc_scheme" where
  "fcntl E fildes cmd flags s =
     (if cmd = 1 then (1, s)
      else if cmd = 2 then (0, s)
      else if cmd = 3
      then let (error, fds, s) = wasi_fd_fdstat_get E fildes s
           in if error \<noteq> 0 then fail error s
              else (ucast (fs_flags fds) OR access_mode (fs_rights_base fds), s)
      else if cmd = 4
      then let (error, s) = wasi_fd_fdstat_set_flags E fildes (ucast (flags AND 0xfff)) s
           in if error \<noteq> 0 then fail error s else (0, s)
      else fail (EINVAL :: errno_t) s)"

text \<open>
  \<open>ioctl\<close>: the result carries the value stored through the pointer argument, if any; \<open>arg\<close>
  is the value it points to.  The host fills at most the two events there is room for.
\<close>

fun fionread_scan :: "event list \<Rightarrow> (errno_t, c_int) sum" where
  "fionread_scan [] = Inr 0"
| "fionread_scan (event # events) =
     (if ev_error event \<noteq> 0 then Inl (ev_error event)
      else if ev_type event = 1 then Inr (ucast (ev_nbytes event))
      else fionread_scan events)"

definition ioctl ::
  "env \<Rightarrow> u32 \<Rightarrow> c_int \<Rightarrow> c_int \<Rightarrow> 'a libc_scheme \<Rightarrow>
   ((c_int \<times> c_int option) \<times> 'a libc_scheme) option" where
  "ioctl E fildes request arg s =
     (if request = 1
      then let (error, events, nevents, s) =
                 wasi_poll_oneoff E
                   [\<lparr>sub_userdata = 0, sub_u = Sub_fd_read fildes\<rparr>,
                    \<lparr>sub_userdata = 0, sub_u = Sub_clock CLOCK_MONOTONIC 0 0 0\<rparr>] 2 s
           in if error \<noteq> 0 then Some ((-1, None), s\<lparr>errno := ucast error\<rparr>)
              else do {
                events \<leftarrow> vector events nevents;
                if length events > 2 then None
                else case fionread_scan events of
                  Inl e \<Rightarrow> Some ((-1, None), s\<lparr>errno := ucast e\<rparr>)
                | Inr n \<Rightarrow> Some ((0, Some n), s) }
      else if request = 2
      then let (error, fds, s) = wasi_fd_fdstat_get E fildes s
           in if error \<noteq> 0 then Some ((-1, None), s\<lparr>errno := ucast error\<rparr>)
              else let fs_flags = (if arg \<noteq> 0 then fs_flags fds OR 4 else fs_flags fds AND NOT 4);
                       (error, s) = wasi_fd_fdstat_set_flags E fildes fs_flags s
                   in if error \<noteq> 0 then Some ((-1, None), s\<lparr>errno := ucast error\<rparr>)
                      else Some ((0, None), s)
      else Some ((-1, None), s\<lparr>errno := EINVAL\<rparr>))"

text \<open>Conversions between file modes and directory entry types (\<open>DT_SOCK\<close> is not defined).\<close>

definition wasilibc_iftodt :: "c_int \<Rightarrow> c_int" where
  "wasilibc_iftodt x =
     (if x = S_IFDIR then 3 else if x = S_IFCHR then 2 else if x = S_IFBLK then 1
      else if x = S_IFREG then 4 else if x = S_IFSOCK then 6 else if x = S_IFLNK then 7 else 0)"

definition wasilibc_dttoif :: "c_int \<Rightarrow> c_int" where
  "wasilibc_dttoif x =
     (if x = 3 then S_IFDIR else if x = 2 then S_IFCHR else if x = 1 then S_IFBLK
      else if x = 4 then S_IFREG else if x = 6 then S_IFSOCK else if x = 7 then S_IFLNK
      else S_IFSOCK)"

section \<open>Truncating a file by name\<close>

definition truncate ::
  "env \<Rightarrow> string \<Rightarrow> u64 \<Rightarrow> 'a paths_libc_scheme \<Rightarrow> (c_int \<times> 'a paths_libc_scheme) option" where
  "truncate E path len s = do {
     (fd, s) \<leftarrow> wasilibc_open_nomode E path O_WRONLY s;
     if sint fd < 0 then Some (-1, s)
     else let (result, s) = ftruncate E fd len s
          in if result \<noteq> 0
             then let save_errno = errno s;
                      s = snd (close E fd s)
                  in Some (-1, s\<lparr>errno := save_errno\<rparr>)
             else Some (close E fd s) }"

section \<open>Missing capabilities\<close>

text \<open>
  An operation that makes one host call and reports a missing capability under another error
  number: \<open>ok\<close> and \<open>bad\<close> are its results.
\<close>

locale translated_operation =
  fixes op :: "env \<Rightarrow> 'a libc_scheme \<Rightarrow> 'r \<times> 'a libc_scheme"
    and c :: wasi_call
    and e :: errno_t
    and ok bad :: "wasi_reply \<Rightarrow> 'r"
  assumes op_def: "op E s =
      (let (r, s') = call_host E c s; error = ucast (status r)
       in if error = 0 then (ok r, s')
          else (bad r, s'\<lparr>errno := ucast (translate e error)\<rparr>))"
    and other: "e \<noteq> ENOTCAPABLE"
begin

lemma hides_capability:
  assumes "errno s \<noteq> ENOTCAPABLE"
  shows "errno (snd (op E s)) \<noteq> ENOTCAPABLE"
proof -
  have inj: "(ucast x :: c_int) \<noteq> ENOTCAPABLE" if "x \<noteq> ENOTCAPABLE" for x :: errno_t
  proof
    assume "(ucast x :: c_int) = ENOTCAPABLE"
    then have "uint x = uint (ENOTCAPABLE :: errno_t)"
      by (simp add: word_uint_eq_iff uint_up_ucast is_up)
    then show False
      using that by (simp only: word_uint_eq_iff)
  qed
  show ?thesis
    using assms other by (simp add: op_def call_host_def Let_def inj translate_def)
qed

lemma one_call: "calls (snd (op E s)) = calls s @ [c]"
  by (simp add: op_def call_host_def Let_def)

end

lemmas operation_defs = wasi_defs call_host_def fail_def fail64_def Let_def

interpretation fdatasync_op: translated_operation
  "\<lambda>E. fdatasync E fildes" "Call_fd_datasync fildes" EBADF "\<lambda>_. 0" "\<lambda>_. -1"
  by unfold_locales (simp_all add: fdatasync_def operation_defs)

interpretation fsync_op: translated_operation
  "\<lambda>E. fsync E fildes" "Call_fd_sync fildes" EINVAL "\<lambda>_. 0" "\<lambda>_. -1"
  by unfold_locales (simp_all add: fsync_def operation_defs)

interpretation lseek_op: translated_operation
  "\<lambda>E. lseek E fildes offset whence" "Call_fd_seek fildes offset (ucast whence)" ESPIPE
  u64_out "\<lambda>_. -1"
  by unfold_locales (simp_all add: lseek_def operation_defs)

interpretation tell_op: translated_operation
  "\<lambda>E. wasilibc_tell E fildes" "Call_fd_tell fildes" ESPIPE u64_out "\<lambda>_. -1"
  by unfold_locales (simp_all add: wasilibc_tell_def operation_defs)

interpretation read_op: translated_operation
  "\<lambda>E. c_read E fildes nbyte" "Call_fd_read fildes [nbyte]" EBADF
  "\<lambda>r. (size_out r, bytes_out r)" "\<lambda>r. (-1, bytes_out r)"
  by unfold_locales (simp_all add: c_read_def operation_defs)

interpretation write_op: translated_operation
  "\<lambda>E. c_write E fildes buf" "Call_fd_write fildes [buf]" EBADF size_out "\<lambda>_. -1"
  by unfold_locales (simp_all add: c_write_def operation_defs)

text \<open>
  The WASI-specific error \<open>ENOTCAPABLE\<close>, which POSIX does not know, never reaches a
  program through the elementary operations on a descriptor, whatever the host answers.
\<close>

theorem capability_errors_translated:
  assumes "errno s \<noteq> ENOTCAPABLE"
  shows "errno (snd (c_read E fd n s)) \<noteq> ENOTCAPABLE \<and>
         errno (snd (c_write E fd buf s)) \<noteq> ENOTCAPABLE \<and>
         errno (snd (lseek E fd offset whence s)) \<noteq> ENOTCAPABLE \<and>
         errno (snd (wasilibc_tell E fd s)) \<noteq> ENOTCAPABLE \<and>
         errno (snd (fsync E fd s)) \<noteq> ENOTCAPABLE \<and>
         errno (snd (fdatasync E fd s)) \<noteq> ENOTCAPABLE"
  using assms
  by (intro conjI read_op.hides_capability write_op.hides_capability lseek_op.hides_capability
      tell_op.hides_capability fsync_op.hides_capability fdatasync_op.hides_capability)

definition uncapable_env :: env where
  "uncapable_env = idle_env\<lparr>host := (\<lambda>h c. (host idle_env h c)\<lparr>status := ENOTCAPABLE\<rparr>)\<rparr>"

theorem capability_errors_translated_witness:
  "errno (snd (c_read uncapable_env 4 16 idle_libc)) = EBADF \<and>
   errno (snd (c_read uncapable_env 4 16 idle_libc)) \<noteq> ENOTCAPABLE \<and>
   errno (snd (lseek uncapable_env 4 0 0 idle_libc)) = ESPIPE"
  using capability_errors_translated [of idle_libc uncapable_env 4 16 "[]" 0 0]
  by (simp add: c_read_def lseek_def operation_defs translate_def uncapable_env_def idle_libc_def)

section \<open>Access modes\<close>

lemma and_and_swap:
  fixes m i k :: u64
  shows "(m AND i) AND k = i AND (m AND k)"
  by (simp add: ac_simps)

lemma granted_access_mode:
  assumes m: "open_rights oflag = Some m" and acc: "oflag AND O_ACCMODE \<noteq> O_EXEC"
    and inh: "inh AND RIGHTS_FD_READ \<noteq> 0" "inh AND RIGHTS_FD_WRITE \<noteq> 0"
  shows "access_mode (m AND inh) = oflag AND O_ACCMODE"
proof -
  define a where "a = oflag AND O_ACCMODE"
  note bits = access_bits [OF a_def [symmetric]]
  have rd: "inh AND (RIGHTS_FD_READ OR RIGHTS_FD_READDIR) \<noteq> 0"
  proof
    assume "inh AND (RIGHTS_FD_READ OR RIGHTS_FD_READDIR) = 0"
    then have "(inh AND (RIGHTS_FD_READ OR RIGHTS_FD_READDIR)) AND RIGHTS_FD_READ = 0"
      by simp
    then have "inh AND ((RIGHTS_FD_READ OR RIGHTS_FD_READDIR) AND RIGHTS_FD_READ) = 0"
      by (simp only: and.assoc)
    with inh(1) show False
      by simp
  qed
  have "a \<in> {O_RDONLY, O_RDWR, O_WRONLY, O_SEARCH}"
    using m acc by (auto simp: open_rights_def a_def [symmetric] Let_def split: if_splits)
  then consider "a = O_RDONLY" | "a = O_RDWR" | "a = O_WRONLY" | "a = O_SEARCH"
    by blast
  then show ?thesis
    using m inh rd unfolding a_def [symmetric] access_mode_def and_and_swap
    by cases (auto simp: open_rights_def a_def [symmetric] Let_def bits)
qed

text \<open>
  What \<open>open\<close> asked for is what \<open>fcntl(fd, F_GETFL)\<close> reports: on a host that grants the
  requested rights and flags, below a directory that passes the rights to read and write on,
  the access mode and the status flags of the new descriptor are those of the open flags
  (for every mode but \<open>O_EXEC\<close>, which WASI cannot tell from \<open>O_SEARCH\<close>).
\<close>

theorem fcntl_reports_open_mode:
  assumes "nocwd_openat_nomode E dirfd path oflag s = (fd, s1)"
    and "calls s1 = calls s @ [Call_fd_fdstat_get dirfd,
           Call_path_open dirfd lookup path oflags base inh fl]"
    and "inh AND RIGHTS_FD_READ \<noteq> 0" and "inh AND RIGHTS_FD_WRITE \<noteq> 0"
    and "oflag AND O_ACCMODE \<noteq> O_EXEC"
    and "host E (calls s1) (Call_fd_fdstat_get fd) = r" and "status r = 0"
    and "fs_rights_base (fdstat_out r) = base" and "fs_flags (fdstat_out r) = fl"
  shows "fst (fcntl E fd 3 x s1) = oflag AND (O_ACCMODE OR 0xfff)"
proof -
  obtain m where m: "open_rights oflag = Some m" and "base = m AND inh"
    and fl: "fl = ucast (oflag AND 0xfff)"
    using openat_calls [OF assms(1)] assms(2) by auto
  then have mode: "access_mode base = oflag AND O_ACCMODE"
    using granted_access_mode [OF m assms(5,3,4)] by simp
  have "(ucast fl :: c_int) = oflag AND 0xfff"
  proof -
    have mask: "(0xfff :: c_int) = mask 12"
      by (simp add: mask_eq_exp_minus_1)
    show ?thesis
      unfolding fl mask by (rule bit_word_eqI) (auto simp: bit_simps)
  qed
  moreover have "oflag AND (O_ACCMODE OR 0xfff) = (oflag AND O_ACCMODE) OR (oflag AND 0xfff)"
    by (rule bit.conj_disj_distrib)
  ultimately show ?thesis
    using assms(6-9) mode by (simp add: fcntl_def operation_defs or.commute)
qed

section \<open>Non-blocking mode and pending input\<close>

lemma bit_one_flag:
  fixes f k :: u16
  assumes "\<And>i. bit k i \<longleftrightarrow> i = n"
  shows "bit (if c then f OR k else f AND NOT k) i \<longleftrightarrow> (if i = n then c else bit f i)"
  using assms bit_imp_le_length [of f i] by (auto simp: bit_simps)

text \<open>
  \<open>ioctl(fd, FIONBIO)\<close> sets or clears exactly the non-blocking flag: the flags it hands
  to the host agree with the flags it has read in every other position.
\<close>

theorem fionbio_changes_one_flag:
  assumes "ioctl E fd 2 arg s = Some ((0, v), s')"
  shows "\<exists>f. calls s' = calls s @ [Call_fd_fdstat_get fd, Call_fd_fdstat_set_flags fd f] \<and>
             (bit f 2 \<longleftrightarrow> arg \<noteq> 0) \<and>
             (\<forall>i. i = 2 \<or>
                (bit f i \<longleftrightarrow> bit (fs_flags (fdstat_out (host E (calls s) (Call_fd_fdstat_get fd)))) i))"
proof -
  let ?f = "fs_flags (fdstat_out (host E (calls s) (Call_fd_fdstat_get fd)))"
  let ?g = "if arg \<noteq> 0 then ?f OR 4 else ?f AND NOT 4"
  have "calls s' = calls s @ [Call_fd_fdstat_get fd, Call_fd_fdstat_set_flags fd ?g]"
    using assms
    by (cases "arg = 0") (simp_all add: ioctl_def operation_defs split: if_split_asm, safe, simp_all)
  moreover have four: "bit (4 :: u16) i \<longleftrightarrow> i = 2" for i
    using bit_exp_iff [of 2 i, where ?'a = u16] by auto
  have "bit ?g i \<longleftrightarrow> (if i = 2 then arg \<noteq> 0 else bit ?f i)" for i
    by (rule bit_one_flag [OF four])
  ultimately show ?thesis
    by (intro exI [of _ ?g]) simp
qed

lemma fionread_scan_first:
  "fionread_scan evs =
     (case List.find (\<lambda>e. ev_error e \<noteq> 0 \<or> ev_type e = 1) evs of
        None \<Rightarrow> Inr 0
      | Some e \<Rightarrow> if ev_error e \<noteq> 0 then Inl (ev_error e) else Inr (ucast (ev_nbytes e)))"
  by (induction evs) auto

text \<open>
  \<open>ioctl(fd, FIONREAD)\<close> polls the descriptor once together with a timer that has already
  expired, so that it does not block, and reports the byte count of the first read event;
  an error of an earlier event is reported instead, and no event at all means 0.
\<close>

theorem fionread_reports_first_event:
  assumes "host E (calls s) (Call_poll_oneoff
             [\<lparr>sub_userdata = 0, sub_u = Sub_fd_read fd\<rparr>,
              \<lparr>sub_userdata = 0, sub_u = Sub_clock CLOCK_MONOTONIC 0 0 0\<rparr>] 2) = r"
    and "status r = 0" and "length (events_out r) \<le> 2" and "size_out r = of_nat (length (events_out r))"
  shows "\<exists>s'. ioctl E fd 1 arg s =
           Some (case List.find (\<lambda>e. ev_error e \<noteq> 0 \<or> ev_type e = 1) (events_out r) of
                   None \<Rightarrow> ((0, Some 0), s')
                 | Some e \<Rightarrow> if ev_error e \<noteq> 0 then ((-1, None), s'\<lparr>errno := ucast (ev_error e)\<rparr>)
                             else ((0, Some (ucast (ev_nbytes e))), s')) \<and>
         errno s' = errno s"
proof -
  have n: "unat (of_nat (length (events_out r)) :: size_t) = length (events_out r)"
    using assms(3) by (simp add: unat_of_nat take_bit_nat_eq_self)
  then have "vector (events_out r) (size_out r) = Some (events_out r)"
    by (simp add: vector_def assms(4))
  then show ?thesis
    using assms
    by (simp add: ioctl_def operation_defs fionread_scan_first split: option.split) auto
qed

section \<open>File types\<close>

text \<open>
  The two conversions between modes and directory entry types are inverse to each other
  on the types \<open>stat\<close> can report, and the mode of a file has the entry type of its WASI file
  type; only datagram sockets are reported as stream sockets.
\<close>

theorem file_type_conversions:
  "(wasilibc_iftodt (wasilibc_dttoif x) = x \<longleftrightarrow> x \<in> {1, 2, 3, 4, 6, 7}) \<and>
   wasilibc_iftodt (mode_of_filetype t) =
     (if t = 5 then 6 else if t \<in> {1, 2, 3, 4, 6, 7} then ucast t else 0)"
  by (simp add: wasilibc_iftodt_def wasilibc_dttoif_def mode_of_filetype_def)

section \<open>Truncating by name\<close>

text \<open>The error of the two steps of \<open>truncate\<close> on a descriptor: setting the size, closing.\<close>

definition set_size_error :: "env \<Rightarrow> wasi_call list \<Rightarrow> u32 \<Rightarrow> u64 \<Rightarrow> errno_t" where
  "set_size_error E h fd len =
     (if sint len < 0 then EINVAL else ucast (status (host E h (Call_fd_filestat_set_size fd len))))"

definition set_size_calls :: "u32 \<Rightarrow> u64 \<Rightarrow> wasi_call list" where
  "set_size_calls fd len = (if sint len < 0 then [] else [Call_fd_filestat_set_size fd len])"

lemma ftruncate_result:
  "ftruncate E fd len s =
     (let s' = s\<lparr>calls := calls s @ set_size_calls fd len\<rparr>; e = set_size_error E (calls s) fd len
      in if e = 0 then (0, s') else (-1, s'\<lparr>errno := ucast e\<rparr>))"
  by (simp add: ftruncate_def operation_defs set_size_error_def set_size_calls_def)

lemma close_result:
  "close E fd s =
     (let s' = s\<lparr>calls := calls s @ [Call_fd_close fd]\<rparr>;
          e = (ucast (status (host E (calls s) (Call_fd_close fd))) :: errno_t)
      in if e = 0 then (0, s') else (-1, s'\<lparr>errno := ucast e\<rparr>))"
  by (simp add: close_def operation_defs)

text \<open>
  C16. \<open>truncate\<close> never leaves the library's buffers and never leaks a descriptor: whatever the
  host answers, a descriptor it has opened is closed exactly once, last, and the error it
  reports is that of the first step that failed, not one of closing the file after it.
\<close>

theorem truncate_closes_and_reports_first_error:
  assumes "paths_inv E s" and "path_fits s path"
  shows "\<exists>fd s1 r s'. wasilibc_open_nomode E path O_WRONLY s = Some (fd, s1) \<and>
           truncate E path len s = Some (r, s') \<and>
           (if sint fd < 0 then r = -1 \<and> s' = s1
            else let size_error = set_size_error E (calls s1) fd len;
                     close_error = (ucast (status (host E (calls s1 @ set_size_calls fd len)
                                      (Call_fd_close fd))) :: errno_t)
                 in calls s' = calls s1 @ set_size_calls fd len @ [Call_fd_close fd] \<and>
                    (if size_error = 0 \<and> close_error = 0 then r = 0 \<and> errno s' = errno s1
                     else r = -1 \<and>
                       errno s' = ucast (if size_error \<noteq> 0 then size_error else close_error)))"
proof -
  obtain fd s1 where opened: "wasilibc_open_nomode E path O_WRONLY s = Some (fd, s1)"
    using run_request_confined [OF assms(1), of "Open path O_WRONLY"] assms(2)
    by (auto simp: run_request_def request_paths_def posix_open_def times_defined_def)
  have step: "truncate E path len s =
      (if sint fd < 0 then Some (-1, s1)
       else let (result, s) = ftruncate E fd len s1
            in if result \<noteq> 0
               then Some (-1, (snd (close E fd s))\<lparr>errno := errno s\<rparr>)
               else Some (close E fd s))"
    by (simp add: truncate_def opened Let_def split: prod.split)
  show ?thesis
    unfolding opened step ftruncate_result close_result
    by (cases "sint fd < 0") (auto simp: Let_def)
qed

section \<open>The theorems at concrete inputs\<close>

lemma path_state_request:
  "paths_inv sample_env path_state" "path_fits path_state ''f''"
  using path_state_ok
  by (simp_all add: paths_inv_def wf_paths_def path_fits_def path_state_def)

theorem truncate_closes_and_reports_first_error_witness:
  "\<exists>fd s1. wasilibc_open_nomode sample_env ''f'' O_WRONLY path_state = Some (fd, s1) \<and>
     (\<exists>r s'. truncate sample_env ''f'' 10 path_state = Some (r, s'))"
  using truncate_closes_and_reports_first_error [OF path_state_request, of 10] by blast

definition granting_env :: env where
  "granting_env = idle_env\<lparr>host := (\<lambda>h c. (host idle_env h c)\<lparr>fd_out := 5, fdstat_out :=
     \<lparr>fs_filetype = 3, fs_flags = 0, fs_rights_base = 0x2, fs_rights_inheriting = 0x42\<rparr>\<rparr>)\<rparr>"

theorem fcntl_reports_open_mode_witness:
  "fst (fcntl granting_env 5 3 0 (snd (nocwd_openat_nomode granting_env 3 ''f'' O_RDONLY idle_libc))) =
     O_RDONLY"
proof -
  let ?s1 = "idle_libc\<lparr>calls := [Call_fd_fdstat_get 3,
      Call_path_open 3 1 ''f'' 0 0x2 0x42 0]\<rparr>"
  have run: "nocwd_openat_nomode granting_env 3 ''f'' O_RDONLY idle_libc = (5, ?s1)"
    by (simp add: nocwd_openat_nomode_def open_rights_def wasi_defs call_host_def granting_env_def
        idle_env_def idle_libc_def)
  have new: "calls ?s1 = calls idle_libc @ [Call_fd_fdstat_get 3,
      Call_path_open 3 1 ''f'' 0 0x2 0x42 0]"
    by (simp add: idle_libc_def)
  show ?thesis
    using fcntl_reports_open_mode [OF run new _ _ _ refl, of 0] unfolding run
    by (simp add: granting_env_def idle_env_def)
qed

theorem fionbio_changes_one_flag_witness:
  "\<exists>f. calls (snd (the (ioctl idle_env 4 2 1 idle_libc))) =
         [Call_fd_fdstat_get 4, Call_fd_fdstat_set_flags 4 f] \<and> bit f 2"
proof -
  have "ioctl idle_env 4 2 1 idle_libc = Some ((0, None), idle_libc\<lparr>calls :=
      [Call_fd_fdstat_get 4, Call_fd_fdstat_set_flags 4
         (fs_flags (fdstat_out (host idle_env [] (Call_fd_fdstat_get 4))) OR 4)]\<rparr>)"
    by (simp add: ioctl_def operation_defs idle_env_def idle_libc_def)
  from fionbio_changes_one_flag [OF this] this show ?thesis
    by (auto simp: idle_libc_def)
qed

definition readable_env :: env where
  "readable_env = idle_env\<lparr>host := (\<lambda>h c. (host idle_env h c)\<lparr>size_out := 1, events_out :=
     [\<lparr>ev_userdata = 0, ev_error = 0, ev_type = 1, ev_nbytes = 12, ev_flags = 0\<rparr>]\<rparr>)\<rparr>"

theorem fionread_reports_first_event_witness:
  "\<exists>s'. ioctl readable_env 4 1 0 idle_libc = Some ((0, Some 12), s')"
  using fionread_reports_first_event [OF refl, of readable_env idle_libc 4 0]
  by (auto simp: readable_env_def idle_env_def)

end
