(* ===== verification/Wasi_Socket.thy ===== *)
theory Wasi_Socket
  imports Wasi_Fd
begin

text \<open>
  Sockets: \<open>cloudlibc/src/libc/sys/socket/\<close> (\<open>getsockopt\<close>, \<open>recv\<close>, \<open>send\<close>, \<open>shutdown\<close>) and
  \<open>sources/accept.c\<close>.  Buffers behind pointers are byte lists; a null pointer is
  \<^const>\<open>None\<close>, and writing through it or beyond the end of the buffer is undefined behaviour.
\<close>

section \<open>Operations\<close>

abbreviation (input) MSG_PEEK :: c_int where "MSG_PEEK \<equiv> 1"
abbreviation (input) MSG_WAITALL :: c_int where "MSG_WAITALL \<equiv> 2"
abbreviation (input) SOCK_NONBLOCK :: c_int where "SOCK_NONBLOCK \<equiv> 0x4000"
abbreviation (input) SOCK_CLOEXEC :: c_int where "SOCK_CLOEXEC \<equiv> 0x2000"
abbreviation (input) SOL_SOCKET :: c_int where "SOL_SOCKET \<equiv> 0x7fffffff"
abbreviation (input) SO_TYPE :: c_int where "SO_TYPE \<equiv> 3"

text \<open>The bytes of an \<open>int\<close>, lowest first.\<close>

definition int_bytes :: "c_int \<Rightarrow> u8 list" where
  "int_bytes v = map (\<lambda>i. ucast (drop_bit (8 * i) v)) [0..<4]"

definition write_front :: "u8 list \<Rightarrow> u8 list \<Rightarrow> u8 list option" where
  "write_front data buf =
     (if length data \<le> length buf then Some (data @ drop (length data) buf) else None)"

text \<open>
  The result of \<open>getsockopt\<close> carries the new contents of \<open>option_value\<close> and \<open>*option_len\<close>.
\<close>

definition getsockopt ::
  "env \<Rightarrow> u32 \<Rightarrow> c_int \<Rightarrow> c_int \<Rightarrow> u8 list \<Rightarrow> u32 \<Rightarrow> 'a libc_scheme \<Rightarrow>
   ((c_int \<times> u8 list \<times> u32) \<times> 'a libc_scheme) option" where
  "getsockopt E sock level option_name option_value option_len s =
     (let err = (\<lambda>e s. Some ((-1, option_value, option_len), s\<lparr>errno := e\<rparr>))
      in if level \<noteq> SOL_SOCKET then err ENOPROTOOPT s
         else if option_name = SO_TYPE
         then let (error, fsb, s) = wasi_fd_fdstat_get E sock s
              in if error \<noteq> 0 then err EBADF s
                 else if fs_filetype fsb \<noteq> 5 \<and> fs_filetype fsb \<noteq> 6 then err ENOTSOCK s
                 else do {
                   let value = ucast (fs_filetype fsb);
                   let n = (if option_len < 4 then unat option_len else 4);
                   buf \<leftarrow> write_front (take n (int_bytes value)) option_value;
                   Some ((0, buf, 4), s) }
         else err ENOPROTOOPT s)"

definition recv ::
  "env \<Rightarrow> u32 \<Rightarrow> size_t \<Rightarrow> c_int \<Rightarrow> 'a libc_scheme \<Rightarrow> 'a libc_scheme read_result" where
  "recv E sock len flags s =
     (if flags AND NOT (MSG_PEEK OR MSG_WAITALL) \<noteq> 0 then ((-1, []), s\<lparr>errno := ENOTSUP\<rparr>)
      else let (error, ro_datalen, buf, ro_flags, s) = wasi_sock_recv E sock [len] (ucast flags) s
           in if error \<noteq> 0 then ((-1, buf), s\<lparr>errno := ucast (errno_fixup_socket sock error)\<rparr>)
              else ((ro_datalen, buf), s))"

definition send ::
  "env \<Rightarrow> u32 \<Rightarrow> u8 list \<Rightarrow> c_int \<Rightarrow> 'a libc_scheme \<Rightarrow> c_int \<times> 'a libc_scheme" where
  "send E sock buf flags s =
     (if flags \<noteq> 0 then fail (ENOTSUP :: errno_t) s
      else let (error, so_datalen, s) = wasi_sock_send E sock [buf] 0 s
           in if error \<noteq> 0 then fail (errno_fixup_socket sock error) s
              else (so_datalen, s))"

definition shutdown :: "env \<Rightarrow> u32 \<Rightarrow> c_int \<Rightarrow> 'a libc_scheme \<Rightarrow> c_int \<times> 'a libc_scheme" where
  "shutdown E sock how s =
     (if how \<noteq> 1 \<and> how \<noteq> 2 \<and> how \<noteq> 3 then fail (EINVAL :: errno_t) s
      else let (error, s) = wasi_sock_shutdown E sock (ucast how) s
           in if error \<noteq> 0 then fail (errno_fixup_socket sock error) s
              else (ucast error, s))"

text \<open>
  The tail of \<open>accept\<close> and \<open>accept4\<close>: \<open>*addrlen\<close> bytes at \<open>addr\<close> are cleared, the two
  bytes of \<open>sa_family\<close> are set to \<open>AF_UNSPEC\<close> and \<open>*addrlen\<close> becomes
  \<open>sizeof(struct sockaddr)\<close>, 16 for the alignment of its first member.
\<close>

definition fill_address :: "u8 list option \<Rightarrow> u32 option \<Rightarrow> (u8 list \<times> u32) option" where
  "fill_address addr addrlen = do {
     addr \<leftarrow> addr;
     addrlen \<leftarrow> addrlen;
     addr \<leftarrow> write_front (replicate (unat addrlen) 0) addr;
     addr \<leftarrow> write_front [0, 0] addr;
     Some (addr, 16) }"

type_synonym 's accept_result = "((c_int \<times> (u8 list \<times> u32) option) \<times> 's) option"

definition accept ::
  "env \<Rightarrow> u32 \<Rightarrow> u8 list option \<Rightarrow> u32 option \<Rightarrow> 'a libc_scheme \<Rightarrow> 'a libc_scheme accept_result" where
  "accept E sock addr addrlen s =
     (let (error, ret, s) = wasi_sock_accept E sock 0 s
      in if error \<noteq> 0 then Some ((-1, None), s\<lparr>errno := ucast error\<rparr>)
         else do { a \<leftarrow> fill_address addr addrlen; Some ((ret, Some a), s) })"

definition accept4 ::
  "env \<Rightarrow> u32 \<Rightarrow> u8 list option \<Rightarrow> u32 option \<Rightarrow> c_int \<Rightarrow> 'a libc_scheme \<Rightarrow>
   'a libc_scheme accept_result" where
  "accept4 E sock addr addrlen flags s =
     (if flags AND NOT (SOCK_NONBLOCK OR SOCK_CLOEXEC) \<noteq> 0
      then Some ((-1, None), s\<lparr>errno := EINVAL\<rparr>)
      else let (error, ret, s) =
                 wasi_sock_accept E sock (if flags AND SOCK_NONBLOCK \<noteq> 0 then 4 else 0) s
           in if error \<noteq> 0 then Some ((-1, None), s\<lparr>errno := ucast error\<rparr>)
              else do { a \<leftarrow> fill_address addr addrlen; Some ((ret, Some a), s) })"

section \<open>Accepting a connection\<close>

lemma write_front_some: "write_front data buf = Some b \<longleftrightarrow> length data \<le> length buf \<and> b = data @ drop (length data) buf"
  by (auto simp: write_front_def)

lemma clear_front:
  "[0, 0] @ drop 2 (replicate k 0 @ drop k buf) =
     replicate (max 2 k) (0 :: u8) @ drop (max 2 k) buf"
proof -
  consider "k = 0" | "k = 1" | j where "k = Suc (Suc j)"
    by (metis One_nat_def not0_implies_Suc)
  then show ?thesis
    by cases (simp_all add: numeral_2_eq_2 drop_Cons')
qed

lemma fill_address_some:
  assumes "unat n \<le> length buf" and "2 \<le> length buf"
  shows "fill_address (Some buf) (Some n) =
           Some (replicate (max 2 (unat n)) 0 @ drop (max 2 (unat n)) buf, 16)"
proof -
  have "fill_address (Some buf) (Some n) =
      Some ([0, 0] @ drop 2 (replicate (unat n) 0 @ drop (unat n) buf), 16)"
    using assms by (simp add: fill_address_def write_front_def numeral_2_eq_2)
  then show ?thesis
    by (simp only: clear_front)
qed

text \<open>
  C17. On a buffer for at least the address family, \<open>accept\<close> and \<open>accept4\<close> return the
  descriptor of the host and an address of the unspecified family and leave the rest of the
  buffer alone; without a buffer, which POSIX allows, a successful \<open>accept\<close> writes through a
  null pointer.
\<close>

theorem accept_needs_address_buffer:
  assumes "status (host E (calls s) (Call_sock_accept sock 0)) = 0"
    and "unat n \<le> length buf" and "2 \<le> length buf"
  shows "accept E sock None None s = None \<and>
         accept E sock (Some buf) (Some n) s =
           Some ((fd_out (host E (calls s) (Call_sock_accept sock 0)),
                  Some (replicate (max 2 (unat n)) 0 @ drop (max 2 (unat n)) buf, 16)),
                 s\<lparr>calls := calls s @ [Call_sock_accept sock 0]\<rparr>)"
proof
  show "accept E sock None None s = None"
    using assms by (simp add: accept_def operation_defs fill_address_def)
  show "accept E sock (Some buf) (Some n) s =
           Some ((fd_out (host E (calls s) (Call_sock_accept sock 0)),
                  Some (replicate (max 2 (unat n)) 0 @ drop (max 2 (unat n)) buf, 16)),
                 s\<lparr>calls := calls s @ [Call_sock_accept sock 0]\<rparr>)"
    using assms by (simp add: accept_def operation_defs fill_address_some)
qed

theorem accept_needs_address_buffer_witness:
  "accept idle_env 4 None None idle_libc = None \<and>
   (\<exists>fd s'. accept idle_env 4 (Some [7, 7, 7, 7]) (Some 3) idle_libc =
      Some ((fd, Some (replicate 3 0 @ [7], 16)), s'))"
proof -
  have "status (host idle_env (calls idle_libc) (Call_sock_accept 4 0)) = 0"
    by (simp add: idle_env_def)
  from accept_needs_address_buffer [OF this, of 3 "[7, 7, 7, 7]"] show ?thesis
    by (simp add: max_def)
qed

section \<open>Flags\<close>

lemma and_not_mask_less:
  fixes f :: c_int
  assumes "f AND NOT (mask n) = 0" and "n \<le> LENGTH('b::len)"
  shows "uint (ucast f :: 'b word) = uint f"
proof -
  have "bit f i \<Longrightarrow> i < n" for i
  proof (rule ccontr)
    assume "bit f i" "\<not> i < n"
    then have "bit (f AND NOT (mask n)) i"
      using bit_imp_le_length [of f i] by (simp add: bit_simps)
    then show False
      by (simp add: assms(1))
  qed
  then have "f = take_bit n f"
    by (intro bit_word_eqI) (auto simp: bit_simps)
  then have "uint f < 2 ^ n"
    by (metis take_bit_int_less_exp unsigned_take_bit_eq)
  then show ?thesis
    using order_less_le_trans [OF _ power_increasing [OF assms(2), of "2 :: int"]]
    by (simp add: unsigned_ucast_eq take_bit_int_eq_self)
qed

text \<open>
  The socket calls hand the host only flags it knows, unchanged by the narrowing from
  \<open>int\<close>: whatever else is asked for is rejected without a host call.
\<close>

theorem socket_flags_validated:
  "(calls (snd (recv E sock len flags s)) = calls s \<and> errno (snd (recv E sock len flags s)) = ENOTSUP \<or>
    (\<exists>f. calls (snd (recv E sock len flags s)) = calls s @ [Call_sock_recv sock [len] f] \<and>
         uint f = uint flags \<and> uint f \<le> 3)) \<and>
   (calls (snd (shutdown E sock how s)) = calls s \<and> errno (snd (shutdown E sock how s)) = EINVAL \<or>
    (\<exists>h. calls (snd (shutdown E sock how s)) = calls s @ [Call_sock_shutdown sock h] \<and>
         uint h = uint how \<and> uint h \<in> {1, 2, 3}))"
proof
  show "calls (snd (shutdown E sock how s)) = calls s \<and> errno (snd (shutdown E sock how s)) = EINVAL \<or>
    (\<exists>h. calls (snd (shutdown E sock how s)) = calls s @ [Call_sock_shutdown sock h] \<and>
         uint h = uint how \<and> uint h \<in> {1, 2, 3})"
  proof (cases "how \<in> {1, 2, 3}")
    case True
    then show ?thesis
      by (intro disjI2 exI [of _ "ucast how"]) (auto simp: shutdown_def operation_defs)
  qed (simp add: shutdown_def fail_def)
  show "calls (snd (recv E sock len flags s)) = calls s \<and> errno (snd (recv E sock len flags s)) = ENOTSUP \<or>
    (\<exists>f. calls (snd (recv E sock len flags s)) = calls s @ [Call_sock_recv sock [len] f] \<and>
         uint f = uint flags \<and> uint f \<le> 3)"
  proof (cases "flags AND NOT (MSG_PEEK OR MSG_WAITALL) = 0")
    case True
    then have "flags AND NOT (mask 2) = 0"
      by (simp add: mask_eq_exp_minus_1)
    then have eq: "uint (ucast flags :: u16) = uint flags" "uint (ucast flags :: 2 word) = uint flags"
      using and_not_mask_less [of flags 2, where ?'b = 16] and_not_mask_less [of flags 2, where ?'b = 2]
      by simp_all
    then have "uint flags \<le> 3"
      using uint_lt2p [of "ucast flags :: 2 word"] by simp
    then show ?thesis
      using True eq by (intro disjI2 exI [of _ "ucast flags"]) (simp add: recv_def operation_defs)
  qed (simp add: recv_def)
qed

text \<open>
  \<open>getsockopt(SO_TYPE)\<close> succeeds exactly on sockets, writes the socket type in as many
  bytes as the caller has room for, at most four, and no others.
\<close>

theorem getsockopt_reports_type:
  assumes "unat n \<le> length buf"
    and "host E (calls s) (Call_fd_fdstat_get sock) = r" and "status r = 0"
  shows "\<exists>s'. getsockopt E sock SOL_SOCKET SO_TYPE buf n s =
           Some (if fs_filetype (fdstat_out r) \<in> {5, 6}
                 then ((0, take (min 4 (unat n)) (int_bytes (ucast (fs_filetype (fdstat_out r)))) @
                           drop (min 4 (unat n)) buf, 4), s')
                 else ((-1, buf, n), s')) \<and>
         calls s' = calls s @ [Call_fd_fdstat_get sock]"
proof -
  have len: "length (int_bytes v) = 4" for v
    by (simp add: int_bytes_def)
  have m: "(if n < 4 then unat n else 4) = min 4 (unat n)"
    by (simp add: word_less_nat_alt min_def)
  show ?thesis
    using assms by (auto simp: getsockopt_def operation_defs write_front_def m len)
qed

theorem getsockopt_reports_type_witness:
  "\<exists>s'. getsockopt granting_env 4 SOL_SOCKET SO_TYPE [9, 9] 2 idle_libc = Some ((-1, [9, 9], 2), s')"
  using getsockopt_reports_type [of 2 "[9, 9]" granting_env idle_libc 4, OF _ refl]
  by (auto simp: granting_env_def idle_env_def)

end
