(* ===== verification/Wasi_Poll.thy ===== *)
theory Wasi_Poll
  imports Wasi_Fd "HOL-Library.Multiset"
begin

text \<open>
  Waiting for descriptors: \<open>poll\<close> (\<open>poll/poll.c\<close>), \<open>select\<close> and \<open>pselect\<close> (\<open>sys/select\<close>)
  and the descriptor sets of \<open>__fd_set.h\<close>.

  An \<open>fd_set\<close> is the list of its first \<open>__nfds\<close> entries; the entry behind the last of the
  \<open>FD_SETSIZE\<close> entries cannot be written (\<^const>\<open>None\<close>).  The array of \<open>poll\<close> starts at
  the address \<open>base\<close>: the address of an entry is the user data of its subscriptions, and the
  library writes through the user data the host hands back, which is undefined behaviour
  unless it is the address of an entry.
\<close>

section \<open>Descriptor sets\<close>

type_synonym fd_set = "c_int list"

definition FD_SETSIZE :: nat where "FD_SETSIZE = 1024"

fun FD_CLR :: "c_int \<Rightarrow> fd_set \<Rightarrow> fd_set" where
  "FD_CLR fd [] = []"
| "FD_CLR fd (x # xs) =
     (if x = fd then (if xs = [] then [] else last xs # butlast xs) else x # FD_CLR fd xs)"

fun FD_ISSET :: "c_int \<Rightarrow> fd_set \<Rightarrow> bool" where
  "FD_ISSET fd [] = False"
| "FD_ISSET fd (x # xs) = (if x = fd then True else FD_ISSET fd xs)"

definition FD_SET :: "c_int \<Rightarrow> fd_set \<Rightarrow> fd_set option" where
  "FD_SET fd fds =
     (if FD_ISSET fd fds then Some fds
      else if length fds < FD_SETSIZE then Some (fds @ [fd]) else None)"

definition FD_ZERO :: fd_set where "FD_ZERO = []"

definition FD_COPY :: "fd_set \<Rightarrow> fd_set" where "FD_COPY from = from"

section \<open>poll\<close>

record pollfd =
  pf_fd :: c_int
  pf_events :: u16
  pf_revents :: u16

abbreviation (input) POLLRDNORM :: u16 where "POLLRDNORM \<equiv> 1"
abbreviation (input) POLLWRNORM :: u16 where "POLLWRNORM \<equiv> 2"
abbreviation (input) POLLERR :: u16 where "POLLERR \<equiv> 0x1000"
abbreviation (input) POLLHUP :: u16 where "POLLHUP \<equiv> 0x2000"
abbreviation (input) POLLNVAL :: u16 where "POLLNVAL \<equiv> 0x4000"

abbreviation (input) EVENTTYPE_FD_READ :: u8 where "EVENTTYPE_FD_READ \<equiv> 1"
abbreviation (input) EVENTTYPE_FD_WRITE :: u8 where "EVENTTYPE_FD_WRITE \<equiv> 2"

text \<open>The subscriptions of the entries from address \<open>addr\<close> on; \<^const>\<open>None\<close> is the exit with \<open>ENOSYS\<close>.\<close>

definition entry_subscriptions :: "c_ptr \<Rightarrow> pollfd \<Rightarrow> subscription list" where
  "entry_subscriptions addr pf =
     (if pf_events pf AND POLLRDNORM \<noteq> 0
      then [\<lparr>sub_userdata = ucast addr, sub_u = Sub_fd_read (pf_fd pf)\<rparr>] else []) @
     (if pf_events pf AND POLLWRNORM \<noteq> 0
      then [\<lparr>sub_userdata = ucast addr, sub_u = Sub_fd_write (pf_fd pf)\<rparr>] else [])"

fun poll_subscriptions :: "c_ptr \<Rightarrow> pollfd list \<Rightarrow> subscription list option" where
  "poll_subscriptions addr [] = Some []"
| "poll_subscriptions addr (pf # pfs) =
     (if sint (pf_fd pf) < 0 then poll_subscriptions (addr + 8) pfs
      else let subs = entry_subscriptions addr pf
           in if subs = [] then None
              else map_option ((@) subs) (poll_subscriptions (addr + 8) pfs))"

definition timeout_subscription :: "c_int \<Rightarrow> subscription list" where
  "timeout_subscription timeout =
     (if 0 \<le> sint timeout
      then [\<lparr>sub_userdata = 0, sub_u = Sub_clock CLOCK_REALTIME (scast timeout * 1000000) 0 0\<rparr>]
      else [])"

definition event_bits :: "event \<Rightarrow> u16" where
  "event_bits ev =
     (if ev_error ev = EBADF then POLLNVAL
      else if ev_error ev = EPIPE then POLLHUP
      else if ev_error ev \<noteq> 0 then POLLERR
      else let hup = (if ev_flags ev AND 1 \<noteq> 0 then POLLHUP else 0)
           in if ev_type ev = EVENTTYPE_FD_READ then POLLRDNORM OR hup
              else if ev_type ev = EVENTTYPE_FD_WRITE then POLLWRNORM OR hup
              else 0)"

definition entry_at :: "c_ptr \<Rightarrow> nat \<Rightarrow> u64 \<Rightarrow> nat option" where
  "entry_at base n userdata = List.find (\<lambda>i. base + 8 * of_nat i = ucast userdata) [0..<n]"

fun set_revents :: "c_ptr \<Rightarrow> event list \<Rightarrow> pollfd list \<Rightarrow> pollfd list option" where
  "set_revents base [] fds = Some fds"
| "set_revents base (ev # evs) fds =
     (if ev_type ev = EVENTTYPE_FD_READ \<or> ev_type ev = EVENTTYPE_FD_WRITE
      then do {
        i \<leftarrow> entry_at base (length fds) (ev_userdata ev);
        let pf = fds ! i;
        set_revents base evs (fds[i := pf\<lparr>pf_revents := pf_revents pf OR event_bits ev\<rparr>]) }
      else set_revents base evs fds)"

definition clear_revents :: "pollfd \<Rightarrow> pollfd" where
  "clear_revents pf = pf\<lparr>pf_revents := 0\<rparr>"

definition finish_revents :: "pollfd \<Rightarrow> pollfd" where
  "finish_revents pf =
     (if pf_revents pf AND POLLHUP \<noteq> 0
      then pf\<lparr>pf_revents := pf_revents pf AND NOT POLLWRNORM\<rparr> else pf)"

definition count_revents :: "pollfd list \<Rightarrow> c_int" where
  "count_revents fds = of_nat (length (filter (\<lambda>pf. pf_revents pf \<noteq> 0) fds))"

definition poll ::
  "env \<Rightarrow> c_ptr \<Rightarrow> pollfd list \<Rightarrow> c_int \<Rightarrow> 'a libc_scheme \<Rightarrow>
   ((c_int \<times> pollfd list) \<times> 'a libc_scheme) option" where
  "poll E base fds timeout s =
     (case poll_subscriptions base fds of
        None \<Rightarrow> Some ((-1, fds), s\<lparr>errno := ENOSYS\<rparr>)
      | Some subs \<Rightarrow>
          let subs = subs @ timeout_subscription timeout;
              maxevents = 2 * of_nat (length fds) + 1 :: size_t
          in if unat maxevents < length subs then None
             else let (error, events, nevents, s) = wasi_poll_oneoff E subs (of_nat (length subs)) s
                  in if error \<noteq> 0
                     then Some ((-1, fds), s\<lparr>errno := if subs = [] then ENOTSUP else ucast error\<rparr>)
                     else do {
                       events \<leftarrow> vector events nevents;
                       if length subs < length events then None
                       else do {
                         fds \<leftarrow> set_revents base events (map clear_revents fds);
                         let fds = map finish_revents fds;
                         Some ((count_revents fds, fds), s) } })"

section \<open>select\<close>

definition fd_set_subscriptions :: "(u32 \<Rightarrow> subscription_u) \<Rightarrow> c_int \<Rightarrow> fd_set \<Rightarrow> subscription list" where
  "fd_set_subscriptions sub nfds fds =
     map (\<lambda>fd. \<lparr>sub_userdata = scast fd, sub_u = sub fd\<rparr>) (filter (\<lambda>fd. sint fd < sint nfds) fds)"

definition clock_subscription :: "timespec option \<Rightarrow> subscription list option" where
  "clock_subscription timeout = (case timeout of
      None \<Rightarrow> Some []
    | Some ts \<Rightarrow> map_option (\<lambda>t. [\<lparr>sub_userdata = 0, sub_u = Sub_clock CLOCK_REALTIME t 0 0\<rparr>])
        (timespec_to_timestamp_clamp ts))"

definition select_subscriptions ::
  "c_int \<Rightarrow> fd_set \<Rightarrow> fd_set \<Rightarrow> subscription list \<Rightarrow> subscription list" where
  "select_subscriptions nfds R W clock =
     (fd_set_subscriptions Sub_fd_read nfds R @ fd_set_subscriptions Sub_fd_write nfds W) @ clock"

definition is_fd_event :: "event \<Rightarrow> bool" where
  "is_fd_event ev \<longleftrightarrow> ev_type ev = EVENTTYPE_FD_READ \<or> ev_type ev = EVENTTYPE_FD_WRITE"

definition collect_fds :: "u8 \<Rightarrow> event list \<Rightarrow> fd_set option" where
  "collect_fds t events =
     (let fds = map (\<lambda>ev. ucast (ev_userdata ev)) (filter (\<lambda>ev. ev_type ev = t) events)
      in if length fds \<le> FD_SETSIZE then Some fds else None)"

text \<open>
  A null pointer for a set is \<^const>\<open>None\<close>; the result has the contents of the sets that
  \<open>readfds\<close> and \<open>writefds\<close> point to after the call.  Two null pointers are both replaced by
  a pointer to the same empty set.  The signal mask is not used.
\<close>

definition pselect ::
  "env \<Rightarrow> c_int \<Rightarrow> fd_set option \<Rightarrow> fd_set option \<Rightarrow> fd_set option \<Rightarrow> timespec option \<Rightarrow>
   'a libc_scheme \<Rightarrow> ((c_int \<times> fd_set option \<times> fd_set option) \<times> 'a libc_scheme) option" where
  "pselect E nfds readfds writefds errorfds timeout s =
     (let err = (\<lambda>e s. Some ((-1, readfds, writefds), s\<lparr>errno := e\<rparr>))
      in if sint nfds < 0 then err EINVAL s
         else if (case errorfds of None \<Rightarrow> False | Some fds \<Rightarrow> fds \<noteq> []) then err ENOSYS s
         else let rfds = (case readfds of None \<Rightarrow> FD_ZERO | Some fds \<Rightarrow> fds);
                  wfds = (case writefds of None \<Rightarrow> FD_ZERO | Some fds \<Rightarrow> fds)
              in case clock_subscription timeout of
                   None \<Rightarrow> err EINVAL s
                 | Some clock \<Rightarrow>
                     let subs = select_subscriptions nfds rfds wfds clock;
                         (error, events, nevents, s) =
                           wasi_poll_oneoff E subs (of_nat (length subs)) s
                     in if error \<noteq> 0 then err (if subs = [] then ENOTSUP else ucast error) s
                        else do {
                          events \<leftarrow> vector events nevents;
                          if length subs < length events then None
                          else if \<exists>ev \<in> set events. is_fd_event ev \<and> ev_error ev = EBADF
                          then err EBADF s
                          else do {
                            r \<leftarrow> collect_fds EVENTTYPE_FD_READ events;
                            w \<leftarrow> collect_fds EVENTTYPE_FD_WRITE events;
                            let n = length r + length w;
                            let shared = (readfds = None \<and> writefds = None);
                            if shared \<and> FD_SETSIZE < n then None
                            else Some ((of_nat (if shared then n + n else n),
                                   map_option (\<lambda>_. r) readfds, map_option (\<lambda>_. w) writefds), s) } })"

definition select ::
  "env \<Rightarrow> c_int \<Rightarrow> fd_set option \<Rightarrow> fd_set option \<Rightarrow> fd_set option \<Rightarrow> timeval option \<Rightarrow>
   'a libc_scheme \<Rightarrow> ((c_int \<times> fd_set option \<times> fd_set option) \<times> 'a libc_scheme) option" where
  "select E nfds readfds writefds errorfds timeout s =
     (case timeout of
        Some tv \<Rightarrow>
          if sint (tmv_usec tv) < 0 \<or> 1000000 \<le> sint (tmv_usec tv)
          then Some ((-1, readfds, writefds), s\<lparr>errno := EINVAL\<rparr>)
          else pselect E nfds readfds writefds errorfds
                 (Some \<lparr>tv_sec = tmv_sec tv, tv_nsec = ucast (tmv_usec tv) * 1000\<rparr>) s
      | None \<Rightarrow> pselect E nfds readfds writefds errorfds None s)"

section \<open>Descriptor sets are sets\<close>

text \<open>The contract of a finite set of descriptors with a fixed capacity.\<close>

locale descriptor_sets =
  fixes wf :: "'s \<Rightarrow> bool" and abs :: "'s \<Rightarrow> c_int set"
    and isset :: "c_int \<Rightarrow> 's \<Rightarrow> bool" and add :: "c_int \<Rightarrow> 's \<Rightarrow> 's option"
    and clr :: "c_int \<Rightarrow> 's \<Rightarrow> 's" and zero :: 's and capacity :: nat
  assumes zero: "wf zero" "abs zero = {}"
    and isset: "wf A \<Longrightarrow> isset x A \<longleftrightarrow> x \<in> abs A"
    and clr: "wf A \<Longrightarrow> wf (clr x A) \<and> abs (clr x A) = abs A - {x}"
    and add: "wf A \<Longrightarrow> x \<in> abs A \<or> card (abs A) < capacity \<Longrightarrow>
                \<exists>B. add x A = Some B \<and> wf B \<and> abs B = insert x (abs A)"
    and full: "wf A \<Longrightarrow> x \<notin> abs A \<Longrightarrow> capacity \<le> card (abs A) \<Longrightarrow> add x A = None"
    and bounded: "wf A \<Longrightarrow> finite (abs A) \<and> card (abs A) \<le> capacity"
begin

fun add_all :: "c_int list \<Rightarrow> 's \<Rightarrow> 's option" where
  "add_all [] A = Some A"
| "add_all (x # xs) A = do { B \<leftarrow> add x A; add_all xs B }"

lemma add_all_set:
  "wf A \<Longrightarrow> card (abs A \<union> set xs) \<le> capacity \<Longrightarrow>
     \<exists>B. add_all xs A = Some B \<and> wf B \<and> abs B = abs A \<union> set xs"
proof (induction xs arbitrary: A)
  case (Cons x xs)
  have fin: "finite (abs A \<union> set (x # xs))"
    using bounded [OF Cons.prems(1)] by simp
  have "x \<in> abs A \<or> card (abs A) < capacity"
  proof (rule disjCI)
    assume "\<not> card (abs A) < capacity"
    then have "card (abs A) = card (abs A \<union> set (x # xs))"
      using Cons.prems(2) card_mono [OF fin, of "abs A"] bounded [OF Cons.prems(1)] by auto
    then show "x \<in> abs A"
      using card_subset_eq [OF fin, of "abs A"] by auto
  qed
  then obtain B where B: "add x A = Some B" "wf B" "abs B = insert x (abs A)"
    using add [OF Cons.prems(1)] by blast
  have "abs B \<union> set xs = abs A \<union> set (x # xs)"
    using B(3) by auto
  then show ?case
    using Cons.IH [OF B(2)] Cons.prems(2) B(1) by simp
qed simp

end

definition wf_fd_set :: "fd_set \<Rightarrow> bool" where
  "wf_fd_set fds \<longleftrightarrow> distinct fds \<and> length fds \<le> FD_SETSIZE"

lemma FD_ISSET_set: "FD_ISSET fd fds \<longleftrightarrow> fd \<in> set fds"
  by (induction fds) auto

lemma FD_CLR_mset: "mset (FD_CLR fd fds) = mset fds - {#fd#}"
proof (induction fds)
  case (Cons x xs)
  have "mset (last xs # butlast xs) = mset xs" if "xs \<noteq> []"
  proof -
    have "mset xs = mset (butlast xs @ [last xs])"
      using append_butlast_last_id [OF that] by metis
    then show ?thesis
      by simp
  qed
  with Cons show ?case
    by auto
qed simp

lemma FD_CLR_wf:
  assumes "wf_fd_set fds"
  shows "wf_fd_set (FD_CLR fd fds)" and "set (FD_CLR fd fds) = set fds - {fd}"
proof -
  let ?A = "FD_CLR fd fds"
  have m: "mset ?A = mset (remove1 fd fds)"
    by (simp add: FD_CLR_mset)
  have "distinct ?A"
    using assms m by (metis distinct_count_atmost_1 distinct_remove1 mset_eq_imp_distinct_iff wf_fd_set_def)
  moreover have "length ?A \<le> length fds"
    using m by (metis length_remove1 mset_eq_length diff_le_self order_refl)
  ultimately show "wf_fd_set ?A"
    using assms by (simp add: wf_fd_set_def)
  show "set ?A = set fds - {fd}"
    using assms mset_eq_setD [OF m] by (simp add: wf_fd_set_def set_remove1_eq)
qed

interpretation fd_sets: descriptor_sets wf_fd_set set FD_ISSET FD_SET FD_CLR FD_ZERO FD_SETSIZE
  by unfold_locales
    (auto simp: FD_ZERO_def FD_ISSET_set FD_CLR_wf FD_SET_def wf_fd_set_def distinct_card
      FD_CLR_wf [unfolded wf_fd_set_def])

text \<open>
  The macros on \<open>fd_set\<close> implement finite sets of at most \<open>FD_SETSIZE\<close> descriptors:
  membership, removal and insertion are those of sets, insertion is defined exactly when
  there is room, and all of them keep the entries distinct.
\<close>

theorem fd_set_refines_set:
  assumes "wf_fd_set A"
  shows "(FD_ISSET x A \<longleftrightarrow> x \<in> set A) \<and>
         wf_fd_set (FD_CLR x A) \<and> set (FD_CLR x A) = set A - {x} \<and>
         (if x \<in> set A \<or> card (set A) < FD_SETSIZE
          then \<exists>B. FD_SET x A = Some B \<and> wf_fd_set B \<and> set B = insert x (set A)
          else FD_SET x A = None)"
  using fd_sets.isset [OF assms, of x] fd_sets.clr [OF assms, of x] fd_sets.add [OF assms, of x]
    fd_sets.full [OF assms, of x] by auto

theorem fd_set_refines_set_witness:
  "set (FD_CLR 4 [3, 4, 5]) = {3, 5} \<and> wf_fd_set (FD_CLR 4 [3, 4, 5])"
  using fd_set_refines_set [of "[3, 4, 5]" 4] by (auto simp: wf_fd_set_def FD_SETSIZE_def)

section \<open>What poll reports\<close>

text \<open>
  The host answers each subscription with at most one event, which carries the user data and
  the type of its subscription.
\<close>

definition sub_key :: "subscription \<Rightarrow> u64 \<times> u8" where
  "sub_key sub = (sub_userdata sub,
     case sub_u sub of Sub_clock _ _ _ _ \<Rightarrow> 0 | Sub_fd_read _ \<Rightarrow> 1 | Sub_fd_write _ \<Rightarrow> 2)"

definition ev_key :: "event \<Rightarrow> u64 \<times> u8" where
  "ev_key ev = (ev_userdata ev, ev_type ev)"

definition answers :: "subscription list \<Rightarrow> wasi_reply \<Rightarrow> bool" where
  "answers subs r \<longleftrightarrow> status r = 0 \<and> size_out r = of_nat (length (events_out r)) \<and>
     mset (map ev_key (events_out r)) \<subseteq># mset (map sub_key subs)"

lemma answers_length: "answers subs r \<Longrightarrow> length (events_out r) \<le> length subs"
  unfolding answers_def by (metis length_map size_mset size_mset_mono)

lemma answers_key:
  assumes "answers subs r" and "ev \<in> set (events_out r)"
  shows "\<exists>sub \<in> set subs. ev_key ev = sub_key sub"
proof -
  have "ev_key ev \<in># mset (map ev_key (events_out r))"
    using assms(2) by simp
  then have "ev_key ev \<in># mset (map sub_key subs)"
    using assms(1) unfolding answers_def by (meson mset_subset_eqD)
  then show ?thesis
    by auto
qed

lemma answers_vector:
  assumes "answers subs r" and "length subs < 2 ^ 32"
  shows "vector (events_out r) (size_out r) = Some (events_out r)"
proof -
  have "length (events_out r) < 2 ^ 32"
    using answers_length [OF assms(1)] assms(2) by simp
  then have "unat (of_nat (length (events_out r)) :: size_t) = length (events_out r)"
    by (simp add: unat_of_nat take_bit_nat_eq_self)
  then show ?thesis
    using assms(1) by (simp add: vector_def answers_def)
qed

text \<open>The array of \<open>poll\<close> lies in memory, so its entries have different addresses.\<close>

definition array_fits :: "c_ptr \<Rightarrow> pollfd list \<Rightarrow> bool" where
  "array_fits base fds \<longleftrightarrow> unat base + 8 * length fds < 2 ^ 32"

abbreviation entry_address :: "c_ptr \<Rightarrow> nat \<Rightarrow> c_ptr" where
  "entry_address base i \<equiv> base + 8 * of_nat i"

lemma entry_address_inj:
  assumes "array_fits base fds" and "i < length fds" and "j < length fds"
    and "entry_address base i = entry_address base j"
  shows "i = j"
proof -
  have "of_nat (8 * i) = (of_nat (8 * j) :: c_ptr)"
    using assms(4) by simp
  moreover have "unat (of_nat (8 * k) :: c_ptr) = 8 * k" if "k < length fds" for k
    using that assms(1) by (intro of_nat_inverse [OF refl]) (simp add: array_fits_def)
  ultimately have "8 * i = 8 * j"
    using assms(2,3) by metis
  then show ?thesis
    by simp
qed

lemma entry_at_address:
  assumes "array_fits base fds" and "i < length fds" and "ucast u = entry_address base i"
  shows "entry_at base (length fds) u = Some i"
proof -
  have "find (\<lambda>j. entry_address base j = entry_address base i) [0..<length fds] = Some i"
    unfolding find_Some_iff
    using assms(2) entry_address_inj [OF assms(1) _ assms(2)]
    by (intro exI [of _ i]) (auto dest: order.strict_trans)
  then show ?thesis
    by (simp add: entry_at_def assms(3))
qed

text \<open>The bits that the events at the address of an entry add up to.\<close>

definition bits_at :: "c_ptr \<Rightarrow> event list \<Rightarrow> u16" where
  "bits_at addr evs =
     foldr (\<lambda>ev b. (if is_fd_event ev \<and> ucast (ev_userdata ev) = addr then event_bits ev else 0) OR b)
       evs 0"

lemma bits_at_simps [simp]:
  "bits_at addr [] = 0"
  "bits_at addr (ev # evs) =
     (if is_fd_event ev \<and> ucast (ev_userdata ev) = addr then event_bits ev else 0) OR bits_at addr evs"
  by (simp_all add: bits_at_def)

lemma bit_bits_at:
  "bit (bits_at addr evs) k \<longleftrightarrow>
     (\<exists>ev \<in> set evs. is_fd_event ev \<and> ucast (ev_userdata ev) = addr \<and> bit (event_bits ev) k)"
  by (induction evs) (auto simp: bit_or_iff)

lemma set_revents_result:
  assumes "array_fits base fds"
    and "\<forall>ev \<in> set evs. is_fd_event ev \<longrightarrow>
           (\<exists>i < length fds. ucast (ev_userdata ev) = entry_address base i)"
  shows "set_revents base evs fds =
           Some (map (\<lambda>i. (fds ! i)\<lparr>pf_revents := pf_revents (fds ! i) OR
                         bits_at (entry_address base i) evs\<rparr>) [0..<length fds])"
  using assms
proof (induction evs arbitrary: fds)
  case Nil
  then show ?case
    by (simp add: map_nth)
next
  case (Cons ev evs)
  show ?case
  proof (cases "is_fd_event ev")
    case False
    then show ?thesis
      using Cons by (simp add: is_fd_event_def)
  next
    case True
    then obtain i where i: "i < length fds" "ucast (ev_userdata ev) = entry_address base i"
      using Cons.prems(2) by auto
    let ?fds = "fds[i := (fds ! i)\<lparr>pf_revents := pf_revents (fds ! i) OR event_bits ev\<rparr>]"
    have fits: "array_fits base ?fds"
      using Cons.prems(1) by (simp add: array_fits_def)
    have "set_revents base (ev # evs) fds = set_revents base evs ?fds"
      using True i entry_at_address [OF Cons.prems(1) i] by (simp add: is_fd_event_def Let_def)
    also have "\<dots> = Some (map (\<lambda>j. (?fds ! j)\<lparr>pf_revents := pf_revents (?fds ! j) OR
        bits_at (entry_address base j) evs\<rparr>) [0..<length ?fds])"
      using Cons.prems(2) by (intro Cons.IH fits) simp
    also have "\<dots> = Some (map (\<lambda>j. (fds ! j)\<lparr>pf_revents := pf_revents (fds ! j) OR
        bits_at (entry_address base j) (ev # evs)\<rparr>) [0..<length fds])"
      using True i entry_address_inj [OF Cons.prems(1) i(1)]
      by (auto simp: nth_list_update or.assoc)
    finally show ?thesis .
  qed
qed

lemma poll_subscriptions_member:
  assumes "poll_subscriptions base fds = Some subs" and "sub \<in> set subs"
  shows "\<exists>i < length fds. sub_userdata sub = ucast (entry_address base i) \<and>
           0 \<le> sint (pf_fd (fds ! i)) \<and>
           (sub_u sub = Sub_fd_read (pf_fd (fds ! i)) \<and> bit (pf_events (fds ! i)) 0 \<or>
            sub_u sub = Sub_fd_write (pf_fd (fds ! i)) \<and> bit (pf_events (fds ! i)) 1)"
  using assms
proof (induction fds arbitrary: base subs)
  case (Cons pf pfs)
  have bits: "pf_events pf AND 1 \<noteq> 0 \<longleftrightarrow> bit (pf_events pf) 0"
    "pf_events pf AND 2 \<noteq> 0 \<longleftrightarrow> bit (pf_events pf) 1"
    using and_exp_eq_0_iff_not_bit [of "pf_events pf" 0] and_exp_eq_0_iff_not_bit [of "pf_events pf" 1]
    by simp_all
  show ?case
  proof (cases "0 \<le> sint (pf_fd pf) \<and> sub \<in> set (entry_subscriptions base pf)")
    case True
    then show ?thesis
      by (intro exI [of _ 0]) (auto simp: entry_subscriptions_def bits split: if_splits)
  next
    case False
    obtain subs' where "poll_subscriptions (base + 8) pfs = Some subs'" "sub \<in> set subs'"
      using Cons.prems False by (auto simp: Let_def split: if_splits)
    from Cons.IH [OF this] obtain i where "i < length pfs"
      "sub_userdata sub = ucast (entry_address (base + 8) i)" "0 \<le> sint (pf_fd (pfs ! i))"
      "sub_u sub = Sub_fd_read (pf_fd (pfs ! i)) \<and> bit (pf_events (pfs ! i)) 0 \<or>
       sub_u sub = Sub_fd_write (pf_fd (pfs ! i)) \<and> bit (pf_events (pfs ! i)) 1"
      by blast
    then show ?thesis
      by (intro exI [of _ "Suc i"]) (simp add: algebra_simps)
  qed
qed simp

lemma poll_subscriptions_length:
  "poll_subscriptions base fds = Some subs \<Longrightarrow> length subs \<le> 2 * length fds"
proof (induction fds arbitrary: base subs)
  case (Cons pf pfs)
  have "length (entry_subscriptions base pf) \<le> 2"
    by (simp add: entry_subscriptions_def)
  then show ?case
    using Cons.prems Cons.IH by (fastforce simp: Let_def split: if_splits)
qed simp

text \<open>The bits an event can set are those of its type and the three error conditions.\<close>

lemma event_bits_bit:
  assumes "bit (event_bits ev) k"
  shows "k \<in> {12, 13, 14} \<or> k = 0 \<and> ev_type ev = 1 \<or> k = 1 \<and> ev_type ev = 2"
proof -
  obtain err hup nval rd wr :: u16
    where names: "err = 0x1000" "hup = 0x2000" "nval = 0x4000" "rd = 1" "wr = 2"
    by simp
  have "bit err k \<longleftrightarrow> k = 12" "bit hup k \<longleftrightarrow> k = 13" "bit nval k \<longleftrightarrow> k = 14"
    "bit rd k \<longleftrightarrow> k = 0" "bit wr k \<longleftrightarrow> k = 1"
    using bit_exp_word [of 12 k, where ?'w = 16] bit_exp_word [of 13 k, where ?'w = 16]
      bit_exp_word [of 14 k, where ?'w = 16] bit_exp_word [of 0 k, where ?'w = 16]
      bit_exp_word [of 1 k, where ?'w = 16] unfolding names by simp_all
  then show ?thesis
    using assms unfolding event_bits_def Let_def names [symmetric]
    by (auto simp: bit_or_iff split: if_splits)
qed

lemma ucast_up_down [simp]: "(ucast (ucast p :: u64) :: c_ptr) = p"
  by (rule bit_word_eqI) (auto simp: bit_simps)

lemma entry_of_event:
  assumes subs: "poll_subscriptions base fds = Some subs"
    and ans: "answers (subs @ timeout_subscription timeout) r"
    and ev: "ev \<in> set (events_out r)" "is_fd_event ev"
  shows "\<exists>i < length fds. ucast (ev_userdata ev) = entry_address base i \<and>
           0 \<le> sint (pf_fd (fds ! i)) \<and>
           (ev_type ev = 1 \<and> bit (pf_events (fds ! i)) 0 \<or>
            ev_type ev = 2 \<and> bit (pf_events (fds ! i)) 1)"
proof -
  obtain sub where sub: "sub \<in> set (subs @ timeout_subscription timeout)" "ev_key ev = sub_key sub"
    using answers_key [OF ans ev(1)] by blast
  then have "sub \<in> set subs"
    using ev(2)
    by (auto simp: timeout_subscription_def ev_key_def sub_key_def is_fd_event_def split: if_splits)
  from poll_subscriptions_member [OF subs this] show ?thesis
    using sub(2) by (auto simp: ev_key_def sub_key_def)
qed

abbreviation polled :: "c_ptr \<Rightarrow> pollfd list \<Rightarrow> event list \<Rightarrow> nat \<Rightarrow> pollfd" where
  "polled base fds evs i \<equiv>
     finish_revents ((fds ! i)\<lparr>pf_revents := bits_at (entry_address base i) evs\<rparr>)"

lemma poll_result:
  assumes fits: "array_fits base fds" and subs: "poll_subscriptions base fds = Some subs"
    and all: "all = subs @ timeout_subscription timeout"
    and r: "r = host E (calls s) (Call_poll_oneoff all (of_nat (length all)))"
    and ans: "answers all r"
  shows "poll E base fds timeout s =
           (let F = map (polled base fds (events_out r)) [0..<length fds]
            in Some ((count_revents F, F),
                     s\<lparr>calls := calls s @ [Call_poll_oneoff all (of_nat (length all))]\<rparr>))"
proof -
  have small: "2 * length fds + 1 < 2 ^ 32"
    using fits by (simp add: array_fits_def)
  have len: "length all \<le> 2 * length fds + 1"
    using poll_subscriptions_length [OF subs] by (simp add: all timeout_subscription_def)
  have "2 * of_nat (length fds) + 1 = (of_nat (2 * length fds + 1) :: size_t)"
    by simp
  then have maxevents: "unat (2 * of_nat (length fds) + 1 :: size_t) = 2 * length fds + 1"
    using small by (simp only: unat_of_nat) (simp add: take_bit_nat_eq_self)
  have vec: "vector (events_out r) (size_out r) = Some (events_out r)"
    using answers_vector [OF ans] len small by simp
  have fits0: "array_fits base (map clear_revents fds)"
    using fits by (simp add: array_fits_def)
  have "set_revents base (events_out r) (map clear_revents fds) =
      Some (map (\<lambda>i. (map clear_revents fds ! i)\<lparr>pf_revents := pf_revents (map clear_revents fds ! i) OR
        bits_at (entry_address base i) (events_out r)\<rparr>) [0..<length fds])"
    using set_revents_result [OF fits0, of "events_out r"]
      entry_of_event [OF subs ans [unfolded all]] by fastforce
  also have "\<dots> = Some (map (\<lambda>i. (fds ! i)\<lparr>pf_revents := bits_at (entry_address base i) (events_out r)\<rparr>)
      [0..<length fds])"
    by (simp add: clear_revents_def)
  finally have set: "set_revents base (events_out r) (map clear_revents fds) = \<dots>" .
  have "status r = 0"
    using ans by (simp add: answers_def)
  then show ?thesis
    using subs maxevents len vec set answers_length [OF ans]
    by (simp add: poll_def operation_defs all [symmetric] r [symmetric] comp_def)
qed

lemma bit_without_flag:
  fixes b h w :: u16
  assumes "b AND h \<noteq> 0 \<longleftrightarrow> bit b m" and "bit w k \<longleftrightarrow> k = n"
  shows "bit (if b AND h \<noteq> 0 then b AND NOT w else b) k \<longleftrightarrow> bit b k \<and> \<not> (k = n \<and> bit b m)"
  using assms bit_imp_le_length [of b k] by (auto simp: bit_simps)

lemma bit_polled:
  "bit (pf_revents (polled base fds evs i)) k \<longleftrightarrow>
     bit (bits_at (entry_address base i) evs) k \<and>
     \<not> (k = 1 \<and> bit (bits_at (entry_address base i) evs) 13)"
proof -
  let ?b = "bits_at (entry_address base i) evs"
  have "?b AND 2 ^ 13 \<noteq> 0 \<longleftrightarrow> bit ?b 13"
    by (simp only: and_exp_eq_0_iff_not_bit not_not)
  then have hup: "?b AND POLLHUP \<noteq> 0 \<longleftrightarrow> bit ?b 13"
    by simp
  have wr: "bit POLLWRNORM k \<longleftrightarrow> k = 1"
    using bit_exp_word [of 1 k, where ?'w = 16] by simp
  have "pf_revents (polled base fds evs i) = (if ?b AND POLLHUP \<noteq> 0 then ?b AND NOT POLLWRNORM else ?b)"
    by (simp add: finish_revents_def)
  then show ?thesis
    by (simp only: bit_without_flag [OF hup wr])
qed

lemma polled_same [simp]:
  "pf_fd (polled base fds evs i) = pf_fd (fds ! i)"
  "pf_events (polled base fds evs i) = pf_events (fds ! i)"
  by (simp_all add: finish_revents_def)

text \<open>The events of entry \<open>i\<close> among the host's answer.\<close>

definition events_of :: "c_ptr \<Rightarrow> nat \<Rightarrow> event list \<Rightarrow> event set" where
  "events_of base i evs =
     {ev \<in> set evs. is_fd_event ev \<and> ucast (ev_userdata ev) = entry_address base i}"

lemma bit_event_bits_0: "bit (event_bits ev) 0 \<longleftrightarrow> ev_error ev = 0 \<and> ev_type ev = 1"
  by (auto simp: event_bits_def Let_def bit_or_iff)

lemma polled_revents_confined:
  assumes subs: "poll_subscriptions base fds = Some subs" and fits: "array_fits base fds"
    and ans: "answers (subs @ timeout_subscription timeout) r" and i: "i < length fds"
    and k: "bit (pf_revents (polled base fds (events_out r) i)) k"
  shows "0 \<le> sint (pf_fd (fds ! i)) \<and> (k \<in> {12, 13, 14} \<or> bit (pf_events (fds ! i)) k)"
proof -
  obtain ev where ev: "ev \<in> set (events_out r)" "is_fd_event ev"
    "ucast (ev_userdata ev) = entry_address base i" "bit (event_bits ev) k"
    using k unfolding bit_polled bit_bits_at by blast
  obtain j where j: "j < length fds" "ucast (ev_userdata ev) = entry_address base j"
    "0 \<le> sint (pf_fd (fds ! j))"
    "ev_type ev = 1 \<and> bit (pf_events (fds ! j)) 0 \<or> ev_type ev = 2 \<and> bit (pf_events (fds ! j)) 1"
    using entry_of_event [OF subs ans ev(1,2)] by blast
  have "j = i"
    using entry_address_inj [OF fits j(1) i] j(2) ev(3) by simp
  then show ?thesis
    using j(3,4) event_bits_bit [OF ev(4)] by auto
qed

text \<open>
  C14. What \<open>poll\<close> returns is what POSIX promises, for any host that answers each subscription
  at most once: the call succeeds with the number of entries whose \<open>revents\<close> is not zero;
  \<open>fd\<close> and \<open>events\<close> are unchanged; \<open>revents\<close> holds only requested conditions and the three
  error conditions and is 0 for a negative descriptor; hang-up and writability exclude each
  other; and an entry is reported readable exactly when the host has reported so.
\<close>

theorem poll_meets_posix:
  assumes "array_fits base fds" and "poll_subscriptions base fds = Some subs"
    and "all = subs @ timeout_subscription timeout"
    and "r = host E (calls s) (Call_poll_oneoff all (of_nat (length all)))" and "answers all r"
  shows "\<exists>n fds' s'. poll E base fds timeout s = Some ((n, fds'), s') \<and>
           unat n = length (filter (\<lambda>pf. pf_revents pf \<noteq> 0) fds') \<and> length fds' = length fds \<and>
           (\<forall>i < length fds. pf_fd (fds' ! i) = pf_fd (fds ! i) \<and>
              pf_events (fds' ! i) = pf_events (fds ! i) \<and>
              (\<forall>k. bit (pf_revents (fds' ! i)) k \<longrightarrow>
                 0 \<le> sint (pf_fd (fds ! i)) \<and> (k \<in> {12, 13, 14} \<or> bit (pf_events (fds ! i)) k)) \<and>
              \<not> (bit (pf_revents (fds' ! i)) 13 \<and> bit (pf_revents (fds' ! i)) 1) \<and>
              (bit (pf_revents (fds' ! i)) 0 \<longleftrightarrow>
                 (\<exists>ev \<in> events_of base i (events_out r). ev_error ev = 0 \<and> ev_type ev = 1)))"
proof -
  let ?F = "map (polled base fds (events_out r)) [0..<length fds]"
  have "length (filter (\<lambda>pf. pf_revents pf \<noteq> 0) ?F) < 2 ^ 32"
    using assms(1) length_filter_le [of "\<lambda>pf. pf_revents pf \<noteq> 0" ?F] by (simp add: array_fits_def)
  then have n: "unat (count_revents ?F) = length (filter (\<lambda>pf. pf_revents pf \<noteq> 0) ?F)"
    by (simp add: count_revents_def unat_of_nat take_bit_nat_eq_self)
  have nth: "?F ! i = polled base fds (events_out r) i" if "i < length fds" for i
    using that by simp
  have confined: "0 \<le> sint (pf_fd (fds ! i)) \<and> (k \<in> {12, 13, 14} \<or> bit (pf_events (fds ! i)) k)"
    if "i < length fds" "bit (pf_revents (polled base fds (events_out r) i)) k" for i k
    using polled_revents_confined [OF assms(2,1) _ that] assms(3,5) by simp
  have hup: "\<not> (bit (pf_revents (polled base fds (events_out r) i)) 13 \<and>
      bit (pf_revents (polled base fds (events_out r) i)) 1)" for i
    unfolding bit_polled by simp
  have readable: "bit (pf_revents (polled base fds (events_out r) i)) 0 \<longleftrightarrow>
      (\<exists>ev \<in> events_of base i (events_out r). ev_error ev = 0 \<and> ev_type ev = 1)" for i
    unfolding bit_polled bit_bits_at bit_event_bits_0 events_of_def by auto
  show ?thesis
    unfolding poll_result [OF assms] Let_def option.inject prod.inject
  proof (intro exI conjI allI impI)
    show "unat (count_revents ?F) = length (filter (\<lambda>pf. pf_revents pf \<noteq> 0) ?F)"
      by (rule n)
  qed (use nth confined hup readable in auto)
qed

section \<open>What select reports\<close>

lemma ucast_scast_up_down [simp]: "(ucast (scast fd :: u64) :: c_int) = fd"
  by (rule bit_word_eqI) (auto simp: bit_simps)

definition below :: "c_int \<Rightarrow> fd_set \<Rightarrow> fd_set" where
  "below nfds fds = filter (\<lambda>fd. sint fd < sint nfds) fds"

lemma clock_subscription_keys:
  "clock_subscription timeout = Some clock \<Longrightarrow> sub \<in> set clock \<Longrightarrow> snd (sub_key sub) = 0"
  by (auto simp: clock_subscription_def sub_key_def split: option.splits)

lemma filter_keys:
  assumes "clock_subscription timeout = Some clock"
  shows "map (ucast \<circ> fst) (filter (\<lambda>key. snd key = 1) (map sub_key (select_subscriptions nfds R W clock))) =
           below nfds R"
    and "map (ucast \<circ> fst) (filter (\<lambda>key. snd key = 2) (map sub_key (select_subscriptions nfds R W clock))) =
           below nfds W"
proof -
  have key: "sub_key \<lparr>sub_userdata = u, sub_u = Sub_fd_read fd\<rparr> = (u, 1)"
    "sub_key \<lparr>sub_userdata = u, sub_u = Sub_fd_write fd\<rparr> = (u, 2)" for u fd
    by (simp_all add: sub_key_def)
  have clock: "filter (\<lambda>key. snd key = t) (map sub_key clock) = []" if "t \<noteq> 0" for t
    using clock_subscription_keys [OF assms] that by (auto simp: filter_empty_conv)
  have all: "filter (\<lambda>key. snd key = t) (map (\<lambda>fd. (scast fd :: u64, t')) fds) =
      (if t = t' then map (\<lambda>fd. (scast fd, t')) fds else [])" for t t' :: u8 and fds :: fd_set
    by (auto simp: filter_empty_conv)
  show "map (ucast \<circ> fst) (filter (\<lambda>key. snd key = 1)
      (map sub_key (select_subscriptions nfds R W clock))) = below nfds R"
    "map (ucast \<circ> fst) (filter (\<lambda>key. snd key = 2)
      (map sub_key (select_subscriptions nfds R W clock))) = below nfds W"
    unfolding select_subscriptions_def fd_set_subscriptions_def map_append map_map comp_def key
      filter_append below_def
    using clock [of 1] clock [of 2] by (simp_all add: all comp_def)
qed

text \<open>The descriptors of the events of one type.\<close>

definition ready :: "u8 \<Rightarrow> event list \<Rightarrow> fd_set" where
  "ready t evs = map (\<lambda>ev. ucast (ev_userdata ev)) (filter (\<lambda>ev. ev_type ev = t) evs)"

lemma ready_subset:
  assumes "answers subs r"
  shows "mset (ready t (events_out r)) \<subseteq>#
           mset (map (ucast \<circ> fst) (filter (\<lambda>key. snd key = t) (map sub_key subs)))"
proof -
  have "ready t (events_out r) =
      map (ucast \<circ> fst) (filter (\<lambda>key. snd key = t) (map ev_key (events_out r)))"
    by (simp add: ready_def filter_map ev_key_def comp_def)
  then have "mset (ready t (events_out r)) =
      image_mset (ucast \<circ> fst) (filter_mset (\<lambda>key. snd key = t) (mset (map ev_key (events_out r))))"
    by (simp only: mset_map mset_filter)
  also have "\<dots> \<subseteq># image_mset (ucast \<circ> fst) (filter_mset (\<lambda>key. snd key = t) (mset (map sub_key subs)))"
    using assms unfolding answers_def by (intro image_mset_subseteq_mono multiset_filter_mono) simp
  finally show ?thesis
    by (simp only: mset_map mset_filter)
qed

lemma wf_fd_set_submset:
  assumes "mset A \<subseteq># mset (below nfds B)" and "wf_fd_set B"
  shows "wf_fd_set A" and "set A \<subseteq> {fd \<in> set B. sint fd < sint nfds}"
proof -
  have B: "distinct (below nfds B)" "length (below nfds B) \<le> FD_SETSIZE"
    using assms(2) order_trans [OF length_filter_le [of "\<lambda>fd. sint fd < sint nfds" B]]
    unfolding below_def wf_fd_set_def by (blast intro: distinct_filter)+
  have "length A \<le> length (below nfds B)"
    using size_mset_mono [OF assms(1)] by simp
  moreover have "distinct A"
    unfolding distinct_count_atmost_1
  proof
    fix a
    have "count (mset (below nfds B)) a \<le> 1"
      using B(1) unfolding distinct_count_atmost_1 by simp
    then have "count (mset A) a \<le> 1"
      using mset_subset_eq_count [OF assms(1), of a] by linarith
    then show "count (mset A) a = (if a \<in> set A then 1 else 0)"
      by (cases "a \<in> set A") (auto simp: le_Suc_eq)
  qed
  ultimately show "wf_fd_set A"
    using B(2) by (simp add: wf_fd_set_def)
  show "set A \<subseteq> {fd \<in> set B. sint fd < sint nfds}"
    using set_mset_mono [OF assms(1)] by (simp add: below_def)
qed

lemma pselect_result:
  assumes "0 \<le> sint nfds" and clock: "clock_subscription timeout = Some clock"
    and wf: "wf_fd_set R" "wf_fd_set W" and all: "all = select_subscriptions nfds R W clock"
    and r: "r = host E (calls s) (Call_poll_oneoff all (of_nat (length all)))" and ans: "answers all r"
    and ok: "\<forall>ev \<in> set (events_out r). is_fd_event ev \<longrightarrow> ev_error ev \<noteq> EBADF"
  shows "pselect E nfds (Some R) (Some W) None timeout s =
           Some ((of_nat (length (ready 1 (events_out r)) + length (ready 2 (events_out r))),
                  Some (ready 1 (events_out r)), Some (ready 2 (events_out r))),
                 s\<lparr>calls := calls s @ [Call_poll_oneoff all (of_nat (length all))]\<rparr>)"
proof -
  have "length clock \<le> 1"
    using clock by (auto simp: clock_subscription_def split: option.splits)
  moreover have le: "length (fd_set_subscriptions sub nfds fds) \<le> length fds" for sub fds
    by (simp add: fd_set_subscriptions_def)
  ultimately have "length all \<le> length R + (length W + 1)"
    using le [of Sub_fd_read R] le [of Sub_fd_write W]
    unfolding all select_subscriptions_def length_append by linarith
  then have vec: "vector (events_out r) (size_out r) = Some (events_out r)"
    using wf by (intro answers_vector [OF ans]) (simp add: wf_fd_set_def FD_SETSIZE_def)
  have "wf_fd_set (ready 1 (events_out r))" "wf_fd_set (ready 2 (events_out r))"
    using wf_fd_set_submset(1) [OF _ wf(1)] wf_fd_set_submset(1) [OF _ wf(2)]
      ready_subset [OF ans, of 1] ready_subset [OF ans, of 2] filter_keys [OF clock, of nfds R W]
    unfolding all by simp_all
  then have "collect_fds 1 (events_out r) = Some (ready 1 (events_out r))"
    "collect_fds 2 (events_out r) = Some (ready 2 (events_out r))"
    by (simp_all add: collect_fds_def ready_def wf_fd_set_def)
  moreover have "status r = 0"
    using ans by (simp add: answers_def)
  ultimately show ?thesis
    using assms(1) vec answers_length [OF ans] ok clock
    by (simp add: pselect_def operation_defs all [symmetric] r [symmetric]) blast
qed

text \<open>
  C15. \<open>pselect\<close> succeeds on every host that answers each subscription at most once and names
  no bad descriptor: it never writes outside the two sets, leaves in the first exactly the
  descriptors the host has reported as readable and in the second exactly those it has
  reported as writable, which are members of that set below \<open>nfds\<close>, without duplicates, and
  returns the number of members of both.
\<close>

theorem pselect_returns_ready_descriptors:
  assumes "0 \<le> sint nfds" and "clock_subscription timeout = Some clock"
    and "wf_fd_set R" and "wf_fd_set W" and "all = select_subscriptions nfds R W clock"
    and "r = host E (calls s) (Call_poll_oneoff all (of_nat (length all)))" and "answers all r"
    and "\<forall>ev \<in> set (events_out r). is_fd_event ev \<longrightarrow> ev_error ev \<noteq> EBADF"
  shows "\<exists>n R' W' s'. pselect E nfds (Some R) (Some W) None timeout s = Some ((n, Some R', Some W'), s') \<and>
           wf_fd_set R' \<and> set R' \<subseteq> {fd \<in> set R. sint fd < sint nfds} \<and>
           wf_fd_set W' \<and> set W' \<subseteq> {fd \<in> set W. sint fd < sint nfds} \<and>
           unat n = card (set R') + card (set W') \<and>
           (\<forall>fd. FD_ISSET fd R' \<longleftrightarrow> (\<exists>ev \<in> set (events_out r). ev_type ev = 1 \<and> ucast (ev_userdata ev) = fd)) \<and>
           (\<forall>fd. FD_ISSET fd W' \<longleftrightarrow> (\<exists>ev \<in> set (events_out r). ev_type ev = 2 \<and> ucast (ev_userdata ev) = fd))"
proof -
  have sub: "mset (ready 1 (events_out r)) \<subseteq># mset (below nfds R)"
    "mset (ready 2 (events_out r)) \<subseteq># mset (below nfds W)"
    using ready_subset [OF assms(7), of 1] ready_subset [OF assms(7), of 2]
      filter_keys [OF assms(2), of nfds R W] unfolding assms(5) by simp_all
  note R = wf_fd_set_submset [OF sub(1) assms(3)] and W = wf_fd_set_submset [OF sub(2) assms(4)]
  have "length (ready 1 (events_out r)) + length (ready 2 (events_out r)) < 2 ^ 32"
    using R(1) W(1) by (simp add: wf_fd_set_def FD_SETSIZE_def)
  then have n: "unat (of_nat (length (ready 1 (events_out r)) + length (ready 2 (events_out r))) :: c_int) =
      card (set (ready 1 (events_out r))) + card (set (ready 2 (events_out r)))"
    using R(1) W(1)
    by (simp only: unat_of_nat) (simp add: take_bit_nat_eq_self distinct_card wf_fd_set_def)
  have "fd \<in> set (ready t (events_out r)) \<longleftrightarrow>
      (\<exists>ev \<in> set (events_out r). ev_type ev = t \<and> ucast (ev_userdata ev) = fd)" for fd t
    by (auto simp: ready_def)
  then show ?thesis
    unfolding pselect_result [OF assms] FD_ISSET_set option.inject prod.inject
    using R W n by blast
qed

section \<open>The theorems at concrete inputs\<close>

definition one_entry :: "pollfd list" where
  "one_entry = [\<lparr>pf_fd = 4, pf_events = 1, pf_revents = 0\<rparr>]"

definition read_event :: "u64 \<Rightarrow> event" where
  "read_event u = \<lparr>ev_userdata = u, ev_error = 0, ev_type = 1, ev_nbytes = 12, ev_flags = 0\<rparr>"

definition reading_env :: "u64 \<Rightarrow> env" where
  "reading_env u = idle_env\<lparr>host := (\<lambda>h c. (host idle_env h c)\<lparr>size_out := 1,
     events_out := [read_event u]\<rparr>)\<rparr>"

theorem poll_meets_posix_witness:
  "\<exists>n fds' s'. poll (reading_env 64) 64 one_entry (-1) idle_libc = Some ((n, fds'), s') \<and>
     length fds' = 1 \<and> bit (pf_revents (fds' ! 0)) 0"
proof -
  let ?subs = "[\<lparr>sub_userdata = 64, sub_u = Sub_fd_read 4\<rparr>] :: subscription list"
  let ?r = "host (reading_env 64) (calls idle_libc) (Call_poll_oneoff ?subs (of_nat (length ?subs)))"
  have "array_fits 64 one_entry"
    by (simp add: array_fits_def one_entry_def)
  moreover have "poll_subscriptions 64 one_entry = Some ?subs"
    by (simp add: one_entry_def entry_subscriptions_def)
  moreover have "?subs = ?subs @ timeout_subscription (-1)"
    by (simp add: timeout_subscription_def)
  moreover have "answers ?subs ?r"
    by (simp add: answers_def reading_env_def idle_env_def read_event_def ev_key_def sub_key_def)
  moreover have "read_event 64 \<in> events_of 64 0 (events_out ?r)"
    by (simp add: events_of_def reading_env_def is_fd_event_def read_event_def)
  ultimately show ?thesis
    using poll_meets_posix [of 64 one_entry ?subs ?subs "-1" ?r "reading_env 64" idle_libc]
    by (fastforce simp: one_entry_def read_event_def)
qed

definition ready_env :: env where
  "ready_env = idle_env\<lparr>host := (\<lambda>h c. (host idle_env h c)\<lparr>size_out := 2,
     events_out := [read_event 4, (read_event 6)\<lparr>ev_type := 2\<rparr>]\<rparr>)\<rparr>"

theorem pselect_returns_ready_descriptors_witness:
  "\<exists>n R' W' s'. pselect ready_env 8 (Some [4, 5]) (Some [5, 6]) None None idle_libc =
      Some ((n, Some R', Some W'), s') \<and> FD_ISSET 4 R' \<and> \<not> FD_ISSET 5 R' \<and> FD_ISSET 6 W' \<and> \<not> FD_ISSET 5 W'"
proof -
  let ?subs = "[\<lparr>sub_userdata = 4, sub_u = Sub_fd_read 4\<rparr>, \<lparr>sub_userdata = 5, sub_u = Sub_fd_read 5\<rparr>,
    \<lparr>sub_userdata = 5, sub_u = Sub_fd_write 5\<rparr>, \<lparr>sub_userdata = 6, sub_u = Sub_fd_write 6\<rparr>] :: subscription list"
  let ?r = "host ready_env (calls idle_libc) (Call_poll_oneoff ?subs (of_nat (length ?subs)))"
  have events: "events_out ?r = [read_event 4, (read_event 6)\<lparr>ev_type := 2\<rparr>]"
    by (simp add: ready_env_def)
  have "clock_subscription None = Some []"
    by (simp add: clock_subscription_def)
  moreover have "?subs = select_subscriptions 8 [4, 5] [5, 6] []"
    by (simp add: select_subscriptions_def fd_set_subscriptions_def)
  moreover have "answers ?subs ?r"
    by (simp add: answers_def ready_env_def idle_env_def read_event_def ev_key_def sub_key_def)
  moreover have "\<forall>ev \<in> set (events_out ?r). is_fd_event ev \<longrightarrow> ev_error ev \<noteq> EBADF"
    unfolding events by (simp add: read_event_def)
  moreover have "wf_fd_set [4, 5]" "wf_fd_set [5, 6]"
    by (simp_all add: wf_fd_set_def FD_SETSIZE_def)
  ultimately obtain n R' W' s' where
    "pselect ready_env 8 (Some [4, 5]) (Some [5, 6]) None None idle_libc = Some ((n, Some R', Some W'), s')"
    "\<forall>fd. FD_ISSET fd R' \<longleftrightarrow> (\<exists>ev \<in> set (events_out ?r). ev_type ev = 1 \<and> ucast (ev_userdata ev) = fd)"
    "\<forall>fd. FD_ISSET fd W' \<longleftrightarrow> (\<exists>ev \<in> set (events_out ?r). ev_type ev = 2 \<and> ucast (ev_userdata ev) = fd)"
    using pselect_returns_ready_descriptors
      [of 8 None "[]" "[4, 5]" "[5, 6]" ?subs ?r ready_env idle_libc] by auto
  then show ?thesis
    unfolding events by (auto simp: read_event_def)
qed

end
