(* ===== verification/Qsort.thy ===== *)
theory Qsort
  imports C_Prelude
begin

unbundle bit_operations_syntax

text \<open>
  Sorting and searching arrays: \<open>qsort\<close> (\<open>libc-top-half/musl/src/stdlib/qsort.c\<close>), Dijkstra's
  smoothsort on a forest of heaps of Leonardo sizes, and \<open>bsearch\<close> (\<open>bsearch.c\<close>).

  The array is a list of bytes; a pointer into it is its offset.  Elements are \<open>width\<close> bytes
  that the comparison function (a parameter) is given.  An operation returns \<^const>\<open>None\<close> when
  it leaves the array, one of the auxiliary arrays \<open>ar\<close> and \<open>lp\<close>, shifts a word by its width
  or more, or counts the trailing zeros of 0, which \<open>__builtin_ctz\<close> leaves undefined.
\<close>

section \<open>The shape of the forest\<close>

text \<open>
  The bit vector \<open>p\<close> of two words: bit \<open>i\<close> is set if there is a heap of order \<open>pshift + i\<close>.
\<close>

type_synonym bitvec = "u32 \<times> u32"

definition ntz :: "u32 \<Rightarrow> nat option" where
  "ntz x = (if x = 0 then None else Some (length (takeWhile (\<lambda>i. \<not> bit x i) [0..<32])))"

definition pntz :: "bitvec \<Rightarrow> nat option" where
  "pntz p = do {
     r \<leftarrow> ntz (fst p - 1);
     if r \<noteq> 0 then Some r
     else do {
       z \<leftarrow> ntz (snd p);
       let r = 32 + z;
       if r \<noteq> 32 then Some r else Some 0 } }"

definition shl :: "bitvec \<Rightarrow> nat \<Rightarrow> bitvec option" where
  "shl p n =
     (let (p0, p1, n) = (if n \<ge> 32 then (0, fst p, n - 32) else (fst p, snd p, n))
      in if n = 0 \<or> n \<ge> 32 then None
         else Some (push_bit n p0, push_bit n p1 OR drop_bit (32 - n) p0))"

definition shr :: "bitvec \<Rightarrow> nat \<Rightarrow> bitvec option" where
  "shr p n =
     (let (p0, p1, n) = (if n \<ge> 32 then (snd p, 0, n - 32) else (fst p, snd p, n))
      in if n = 0 \<or> n \<ge> 32 then None
         else Some (drop_bit n p0 OR push_bit (32 - n) p1, drop_bit n p1))"

section \<open>Memory\<close>

definition load :: "'b list \<Rightarrow> nat \<Rightarrow> nat \<Rightarrow> 'b list option" where
  "load m a n = (if a + n \<le> length m then Some (take n (drop a m)) else None)"

definition store_bytes :: "'b list \<Rightarrow> nat \<Rightarrow> 'b list \<Rightarrow> 'b list option" where
  "store_bytes m a bs =
     (if a + length bs \<le> length m then Some (take a m @ bs @ drop (a + length bs) m) else None)"

text \<open>\<open>memcpy\<close> within the array, for areas that do not overlap.\<close>

definition copy_bytes :: "'b list \<Rightarrow> nat \<Rightarrow> nat \<Rightarrow> nat \<Rightarrow> 'b list option" where
  "copy_bytes m dst src n =
     (if dst + n \<le> src \<or> src + n \<le> dst
      then do { bs \<leftarrow> load m src n; store_bytes m dst bs }
      else None)"

definition sub_ptr :: "nat \<Rightarrow> nat \<Rightarrow> nat option" where
  "sub_ptr a n = (if n \<le> a then Some (a - n) else None)"

definition lp_at :: "nat list \<Rightarrow> nat \<Rightarrow> nat option" where
  "lp_at lp i = (if i < length lp then Some (lp ! i) else None)"

definition AR_SIZE :: nat where "AR_SIZE = 14 * 4 + 1"
definition LP_SIZE :: nat where "LP_SIZE = 12 * 4"

section \<open>Rotating elements\<close>

fun copy_down :: "nat list \<Rightarrow> 'b list \<Rightarrow> nat \<Rightarrow> 'b list \<Rightarrow> 'b list option" where
  "copy_down [] tmp l m = Some m"
| "copy_down [a] tmp l m = store_bytes m a tmp"
| "copy_down (a # b # ar) tmp l m = Option.bind (copy_bytes m a b l) (copy_down (b # ar) tmp l)"

function cycle_loop :: "nat \<Rightarrow> nat list \<Rightarrow> 'b list \<Rightarrow> 'b list option" where
  "cycle_loop width ar m =
     (if width = 0 then Some m
      else let l = (if 256 < width then 256 else width)
           in case load m (hd ar) l of
                None \<Rightarrow> None
              | Some tmp \<Rightarrow> (case copy_down ar tmp l m of
                  None \<Rightarrow> None
                | Some m \<Rightarrow> cycle_loop (width - l) (map (\<lambda>a. a + l) ar) m))"
  by pat_completeness auto
termination
  by (relation "measure fst") auto

declare cycle_loop.simps [simp del]

definition cycle :: "nat \<Rightarrow> nat list \<Rightarrow> 'b list \<Rightarrow> 'b list option" where
  "cycle width ar m =
     (if length ar < 2 then Some m
      else if AR_SIZE \<le> length ar then None
      else cycle_loop width ar m)"

section \<open>Heaps\<close>

definition child_ptrs :: "nat \<Rightarrow> nat list \<Rightarrow> nat \<Rightarrow> nat \<Rightarrow> (nat \<times> nat) option" where
  "child_ptrs width lp head pshift = do {
     rt \<leftarrow> sub_ptr head width;
     n \<leftarrow> lp_at lp (pshift - 2);
     lf \<leftarrow> sub_ptr rt n;
     Some (rt, lf) }"

text \<open>The entries of \<open>ar\<close> on the way down.\<close>

function sift_loop ::
  "('b list \<Rightarrow> 'b list \<Rightarrow> int) \<Rightarrow> nat \<Rightarrow> nat list \<Rightarrow> 'b list \<Rightarrow> nat list \<Rightarrow> nat \<Rightarrow> nat \<Rightarrow> nat list option" where
  "sift_loop cmp width lp m ar head pshift =
     (if pshift \<le> 1 then Some ar
      else case child_ptrs width lp head pshift of
          None \<Rightarrow> None
        | Some (rt, lf) \<Rightarrow> (case (load m (hd ar) width, load m lf width, load m rt width) of
            (Some x, Some l, Some r) \<Rightarrow>
              if cmp x l \<ge> 0 \<and> cmp x r \<ge> 0 then Some ar
              else if AR_SIZE \<le> length ar then None
              else if cmp l r \<ge> 0 then sift_loop cmp width lp m (ar @ [lf]) lf (pshift - 1)
              else sift_loop cmp width lp m (ar @ [rt]) rt (pshift - 2)
          | _ \<Rightarrow> None))"
  by pat_completeness auto
termination
  by (relation "measure (\<lambda>(cmp, width, lp, m, ar, head, pshift). pshift)") auto

definition sift ::
  "('b list \<Rightarrow> 'b list \<Rightarrow> int) \<Rightarrow> nat \<Rightarrow> nat list \<Rightarrow> nat \<Rightarrow> nat \<Rightarrow> 'b list \<Rightarrow> 'b list option" where
  "sift cmp width lp head pshift m = do {
     ar \<leftarrow> sift_loop cmp width lp m [head] head pshift;
     cycle width ar m }"

text \<open>
  The loop of \<open>trinkle\<close> over the roots of the heaps to the left; its result is the head, its
  order, the entries of \<open>ar\<close> and the flag \<open>trusty\<close> at the end.
\<close>

function trinkle_loop ::
  "('b list \<Rightarrow> 'b list \<Rightarrow> int) \<Rightarrow> nat \<Rightarrow> nat list \<Rightarrow> 'b list \<Rightarrow> nat list \<Rightarrow> nat \<Rightarrow> bitvec \<Rightarrow> nat \<Rightarrow> bool \<Rightarrow>
   (nat \<times> nat \<times> nat list \<times> bool) option" where
  "trinkle_loop cmp width lp m ar head p pshift trusty =
     (if p = (1, 0) then Some (head, pshift, ar, trusty)
      else case Option.bind (lp_at lp pshift) (sub_ptr head) of
          None \<Rightarrow> None
        | Some stepson \<Rightarrow> (case (load m stepson width, load m (hd ar) width) of
            (Some s, Some x) \<Rightarrow>
              if cmp s x \<le> 0 then Some (head, pshift, ar, trusty)
              else (case (if \<not> trusty \<and> pshift > 1
                          then do {
                            (rt, lf) \<leftarrow> child_ptrs width lp head pshift;
                            r \<leftarrow> load m rt width;
                            l \<leftarrow> load m lf width;
                            Some (cmp r s \<ge> 0 \<or> cmp l s \<ge> 0) }
                          else Some False) of
                  None \<Rightarrow> None
                | Some True \<Rightarrow> Some (head, pshift, ar, trusty)
                | Some False \<Rightarrow>
                    if AR_SIZE \<le> length ar then None
                    else case pntz p of
                        None \<Rightarrow> None
                      | Some trail \<Rightarrow> (case shr p trail of
                          None \<Rightarrow> None
                        | Some p \<Rightarrow>
                            trinkle_loop cmp width lp m (ar @ [stepson]) stepson p (pshift + trail) False))
          | _ \<Rightarrow> None))"
  by pat_completeness auto
termination
  by (relation "measure (\<lambda>(cmp, width, lp, m, ar, head, p, pshift, trusty). AR_SIZE - length ar)") auto

declare sift_loop.simps [simp del] trinkle_loop.simps [simp del]

definition trinkle ::
  "('b list \<Rightarrow> 'b list \<Rightarrow> int) \<Rightarrow> nat \<Rightarrow> nat list \<Rightarrow> nat \<Rightarrow> bitvec \<Rightarrow> nat \<Rightarrow> bool \<Rightarrow> 'b list \<Rightarrow> 'b list option" where
  "trinkle cmp width lp head p pshift trusty m = do {
     (head, pshift, ar, trusty) \<leftarrow> trinkle_loop cmp width lp m [head] head p pshift trusty;
     if \<not> trusty
     then do { m \<leftarrow> cycle width ar m; sift cmp width lp head pshift m }
     else Some m }"

section \<open>Sorting\<close>

text \<open>The Leonardo numbers, scaled by the width of the elements, up to the size of the array.\<close>

function lp_loop :: "nat \<Rightarrow> nat \<Rightarrow> nat list \<Rightarrow> nat list option" where
  "lp_loop width sz lp =
     (if LP_SIZE \<le> length lp then None
      else let v = (lp ! (length lp - 2) + lp ! (length lp - 1) + width) mod 2 ^ 32
           in if v < sz then lp_loop width sz (lp @ [v]) else Some (lp @ [v]))"
  by pat_completeness auto
termination
  by (relation "measure (\<lambda>(width, sz, lp). LP_SIZE - length lp)") auto

declare lp_loop.simps [simp del]

definition grow_step ::
  "('b list \<Rightarrow> 'b list \<Rightarrow> int) \<Rightarrow> nat \<Rightarrow> nat list \<Rightarrow> nat \<Rightarrow> nat \<Rightarrow> bitvec \<Rightarrow> nat \<Rightarrow> 'b list \<Rightarrow>
   (bitvec \<times> nat \<times> 'b list) option" where
  "grow_step cmp width lp high head p pshift m = do {
     (p, pshift, m) \<leftarrow> (if fst p AND 3 = 3
       then do {
         m \<leftarrow> sift cmp width lp head pshift m;
         p \<leftarrow> shr p 2;
         Some (p, pshift + 2, m) }
       else if pshift = 0 then None
       else do {
         n \<leftarrow> lp_at lp (pshift - 1);
         m \<leftarrow> (if n \<ge> high - head then trinkle cmp width lp head p pshift False m
               else sift cmp width lp head pshift m);
         if pshift = 1 then do { p \<leftarrow> shl p 1; Some (p, 0, m) }
         else do { p \<leftarrow> shl p (pshift - 1); Some (p, 1, m) } });
     Some ((fst p OR 1, snd p), pshift, m) }"

partial_function (option) grow_loop ::
  "('b list \<Rightarrow> 'b list \<Rightarrow> int) \<Rightarrow> nat \<Rightarrow> nat list \<Rightarrow> nat \<Rightarrow> nat \<Rightarrow> bitvec \<Rightarrow> nat \<Rightarrow> 'b list \<Rightarrow>
   (nat \<times> bitvec \<times> nat \<times> 'b list) option" where
  "grow_loop cmp width lp high head p pshift m =
     (if head < high
      then Option.bind (grow_step cmp width lp high head p pshift m)
             (\<lambda>(p, pshift, m). grow_loop cmp width lp high (head + width) p pshift m)
      else Some (head, p, pshift, m))"

definition shrink_step ::
  "('b list \<Rightarrow> 'b list \<Rightarrow> int) \<Rightarrow> nat \<Rightarrow> nat list \<Rightarrow> nat \<Rightarrow> bitvec \<Rightarrow> nat \<Rightarrow> 'b list \<Rightarrow>
   (bitvec \<times> nat \<times> 'b list) option" where
  "shrink_step cmp width lp head p pshift m =
     (if pshift \<le> 1
      then do {
        trail \<leftarrow> pntz p;
        p \<leftarrow> shr p trail;
        Some (p, pshift + trail, m) }
      else do {
        p \<leftarrow> shl p 2;
        let pshift = pshift - 2;
        let p = (fst p XOR 7, snd p);
        p \<leftarrow> shr p 1;
        n \<leftarrow> lp_at lp pshift;
        l \<leftarrow> sub_ptr head (n + width);
        m \<leftarrow> trinkle cmp width lp l p (pshift + 1) True m;
        p \<leftarrow> shl p 1;
        let p = (fst p OR 1, snd p);
        r \<leftarrow> sub_ptr head width;
        m \<leftarrow> trinkle cmp width lp r p pshift True m;
        Some (p, pshift, m) })"

partial_function (option) shrink_loop ::
  "('b list \<Rightarrow> 'b list \<Rightarrow> int) \<Rightarrow> nat \<Rightarrow> nat list \<Rightarrow> nat \<Rightarrow> bitvec \<Rightarrow> nat \<Rightarrow> 'b list \<Rightarrow> 'b list option" where
  "shrink_loop cmp width lp head p pshift m =
     (if pshift \<noteq> 1 \<or> p \<noteq> (1, 0)
      then Option.bind (shrink_step cmp width lp head p pshift m)
             (\<lambda>(p, pshift, m). Option.bind (sub_ptr head width)
               (\<lambda>head. shrink_loop cmp width lp head p pshift m))
      else Some m)"

declare grow_loop.simps [code] shrink_loop.simps [code]

definition qsort_r :: "('b list \<Rightarrow> 'b list \<Rightarrow> int) \<Rightarrow> nat \<Rightarrow> nat \<Rightarrow> 'b list \<Rightarrow> 'b list option" where
  "qsort_r cmp nel width m =
     (let sz = width * nel mod 2 ^ 32
      in if sz = 0 then Some m
         else do {
           lp \<leftarrow> lp_loop width sz [width, width];
           (head, p, pshift, m) \<leftarrow> grow_loop cmp width lp (sz - width) 0 (1, 0) 1 m;
           m \<leftarrow> trinkle cmp width lp head p pshift False m;
           shrink_loop cmp width lp head p pshift m })"

text \<open>\<open>qsort\<close> passes its comparison function through a wrapper.\<close>

definition wrapper_cmp :: "'b list \<Rightarrow> 'b list \<Rightarrow> ('b list \<Rightarrow> 'b list \<Rightarrow> int) \<Rightarrow> int" where
  "wrapper_cmp v1 v2 cmp = cmp v1 v2"

definition qsort :: "('b list \<Rightarrow> 'b list \<Rightarrow> int) \<Rightarrow> nat \<Rightarrow> nat \<Rightarrow> 'b list \<Rightarrow> 'b list option" where
  "qsort cmp nel width m = qsort_r (\<lambda>v1 v2. wrapper_cmp v1 v2 cmp) nel width m"

section \<open>Searching\<close>

function bsearch_loop ::
  "('k \<Rightarrow> 'b list \<Rightarrow> int) \<Rightarrow> 'k \<Rightarrow> nat \<Rightarrow> 'b list \<Rightarrow> nat \<Rightarrow> nat \<Rightarrow> nat option option" where
  "bsearch_loop cmp key width m base nel =
     (if nel > 0
      then let try_ptr = base + width * (nel div 2)
           in case load m try_ptr width of
                None \<Rightarrow> None
              | Some v \<Rightarrow>
                  let s = cmp key v
                  in if s < 0 then bsearch_loop cmp key width m base (nel div 2)
                     else if s > 0 then bsearch_loop cmp key width m (try_ptr + width) (nel - (nel div 2 + 1))
                     else Some (Some try_ptr)
      else Some None)"
  by pat_completeness auto
termination
  by (relation "measure (\<lambda>(cmp, key, width, m, base, nel). nel)") auto

declare bsearch_loop.simps [simp del]

definition bsearch :: "('k \<Rightarrow> 'b list \<Rightarrow> int) \<Rightarrow> 'k \<Rightarrow> nat \<Rightarrow> nat \<Rightarrow> 'b list \<Rightarrow> nat option option" where
  "bsearch cmp key nel width m = bsearch_loop cmp key width m 0 nel"

end
