(* ===== verification/Comparison.thy ===== *)
theory Comparison
  imports Main
begin

text \<open>
  Comparison functions as the callers of \<open>qsort\<close>, \<open>bsearch\<close> and \<open>tsearch\<close> promise them: the
  sign of the result orders the arguments.
\<close>

definition comparison :: "('k \<Rightarrow> 'k \<Rightarrow> int) \<Rightarrow> bool" where
  "comparison cmp \<longleftrightarrow> (\<forall>a b. cmp a b > 0 \<longleftrightarrow> cmp b a < 0) \<and>
     (\<forall>a b c. cmp a b \<le> 0 \<longrightarrow> cmp b c \<le> 0 \<longrightarrow> cmp a c \<le> 0)"

locale comparing =
  fixes cmp :: "'k \<Rightarrow> 'k \<Rightarrow> int"
  assumes comparison: "comparison cmp"
begin

lemma flip: "cmp a b > 0 \<longleftrightarrow> cmp b a < 0"
  using comparison by (simp add: comparison_def)

lemma cmp_trans_le: "cmp a b \<le> 0 \<Longrightarrow> cmp b c \<le> 0 \<Longrightarrow> cmp a c \<le> 0"
  using comparison unfolding comparison_def by blast

lemma cmp_le_less: "cmp a b \<le> 0 \<Longrightarrow> cmp b c < 0 \<Longrightarrow> cmp a c < 0"
  using cmp_trans_le [of c a b] flip [of c a] flip [of c b] by (meson not_less)

lemma cmp_less_le: "cmp a b < 0 \<Longrightarrow> cmp b c \<le> 0 \<Longrightarrow> cmp a c < 0"
  using cmp_trans_le [of b c a] flip [of c a] flip [of b a] by (meson not_less)

lemma cmp_self: "cmp a a = 0"
  using flip [of a a] by (cases "cmp a a" "0 :: int" rule: linorder_cases) simp_all

lemma cmp_sym: "cmp a b = 0 \<Longrightarrow> cmp b a = 0"
  using flip [of a b] flip [of b a] by (metis less_irrefl linorder_neqE)

lemma ge_iff: "0 \<le> cmp a b \<longleftrightarrow> cmp b a \<le> 0"
  using flip [of b a] by (meson not_less)

lemma cmp_linear: "cmp a b \<le> 0 \<or> cmp b a \<le> 0"
  using flip [of a b] by (meson less_imp_le not_less)

end

definition ascending :: "('k \<Rightarrow> 'k \<Rightarrow> int) \<Rightarrow> 'k list \<Rightarrow> bool" where
  "ascending cmp = sorted_wrt (\<lambda>a b. cmp a b < 0)"

end
