(* ===== verification/Smoothsort.thy ===== *)
theory Smoothsort
  imports Comparison "HOL-Library.Multiset"
begin

text \<open>
  Smoothsort on lists of elements: heaps of Leonardo sizes laid out in an array, forests of
  such heaps with ascending roots, and what sifting and trinkling do to them.
\<close>

section \<open>Heaps\<close>

fun leo :: "nat \<Rightarrow> nat" where
  "leo 0 = 1"
| "leo (Suc 0) = 1"
| "leo (Suc (Suc k)) = leo (Suc k) + leo k + 1"

lemma leo_pos: "0 < leo k"
  by (induction k rule: leo.induct) auto

lemma leo_le_Suc: "leo k \<le> leo (Suc k)"
  by (cases k rule: leo.cases) auto

lemma leo_mono: "i \<le> j \<Longrightarrow> leo i \<le> leo j"
  using lift_Suc_mono_le [of leo, OF leo_le_Suc] .

text \<open>The heap of order \<open>k\<close> with root \<open>r\<close> occupies the \<open>leo k\<close> positions up to \<open>r\<close>.\<close>

fun heap :: "('e \<Rightarrow> 'e \<Rightarrow> int) \<Rightarrow> nat \<Rightarrow> nat \<Rightarrow> 'e list \<Rightarrow> bool" where
  "heap cmp 0 r a = True"
| "heap cmp (Suc 0) r a = True"
| "heap cmp (Suc (Suc k)) r a \<longleftrightarrow>
     cmp (a ! (r - 1)) (a ! r) \<le> 0 \<and> cmp (a ! (r - 1 - leo k)) (a ! r) \<le> 0 \<and>
     heap cmp k (r - 1) a \<and> heap cmp (Suc k) (r - 1 - leo k) a"

fun kids :: "('e \<Rightarrow> 'e \<Rightarrow> int) \<Rightarrow> nat \<Rightarrow> nat \<Rightarrow> 'e list \<Rightarrow> bool" where
  "kids cmp (Suc (Suc k)) r a \<longleftrightarrow> heap cmp k (r - 1) a \<and> heap cmp (Suc k) (r - 1 - leo k) a"
| "kids cmp k r a = True"

lemma heap_kids: "heap cmp k r a \<Longrightarrow> kids cmp k r a"
  by (cases k rule: leo.cases) auto

lemma heap_cong:
  assumes "leo k \<le> r + 1" and "\<And>i. r < i + leo k \<Longrightarrow> i \<le> r \<Longrightarrow> b ! i = a ! i"
  shows "heap cmp k r b = heap cmp k r a"
  using assms
proof (induction cmp k r a rule: heap.induct)
  case (3 cmp k r a)
  have here: "b ! r = a ! r" "b ! (r - 1) = a ! (r - 1)" "b ! (r - 1 - leo k) = a ! (r - 1 - leo k)"
    using "3.prems" leo_pos [of k] leo_pos [of "Suc k"] by auto
  moreover have "heap cmp k (r - 1) b = heap cmp k (r - 1) a"
    using "3.prems" by (intro "3.IH"(1)) auto
  moreover have "heap cmp (Suc k) (r - 1 - leo k) b = heap cmp (Suc k) (r - 1 - leo k) a"
    using "3.prems" by (intro "3.IH"(2)) auto
  ultimately show ?case
    by simp
qed simp_all

lemma kids_cong:
  assumes "leo k \<le> r + 1" and "\<And>i. r < i + leo k \<Longrightarrow> i < r \<Longrightarrow> b ! i = a ! i"
  shows "kids cmp k r b = kids cmp k r a"
proof (cases k rule: leo.cases)
  case (3 j)
  have "heap cmp j (r - 1) b = heap cmp j (r - 1) a"
    using assms leo_pos [of "Suc j"] by (intro heap_cong) (auto simp: 3)
  moreover have "heap cmp (Suc j) (r - 1 - leo j) b = heap cmp (Suc j) (r - 1 - leo j) a"
    using assms leo_pos [of j] by (intro heap_cong) (auto simp: 3)
  ultimately show ?thesis
    by (simp add: 3)
qed simp_all

section \<open>Sifting\<close>

text \<open>The element \<open>x\<close> moves down from position \<open>r\<close> to its place.\<close>

fun sift_e :: "('e \<Rightarrow> 'e \<Rightarrow> int) \<Rightarrow> nat \<Rightarrow> nat \<Rightarrow> 'e \<Rightarrow> 'e list \<Rightarrow> 'e list" where
  "sift_e cmp (Suc (Suc k)) r x a =
     (if cmp x (a ! (r - 1 - leo k)) \<ge> 0 \<and> cmp x (a ! (r - 1)) \<ge> 0 then a[r := x]
      else if cmp (a ! (r - 1 - leo k)) (a ! (r - 1)) \<ge> 0
           then sift_e cmp (Suc k) (r - 1 - leo k) x (a[r := a ! (r - 1 - leo k)])
           else sift_e cmp k (r - 1) x (a[r := a ! (r - 1)]))"
| "sift_e cmp k r x a = a[r := x]"

lemma length_sift_e [simp]: "length (sift_e cmp k r x a) = length a"
  by (induction cmp k r x a rule: sift_e.induct) auto

lemma mset_move:
  assumes "i < length a" "j < length a" "i \<noteq> j"
  shows "mset ((a[i := a ! j])[j := x]) = mset (a[i := x])"
  using assms by (simp add: mset_update)

lemma child_bounds:
  assumes "leo (Suc (Suc k)) \<le> r + 1"
  shows "r - 1 < r" "r - 1 - leo k < r - 1" "leo k \<le> (r - 1) + 1" "leo (Suc k) \<le> (r - 1 - leo k) + 1"
    "(r - 1 - leo k) + leo k = r - 1"
  using assms leo_pos [of k] leo_pos [of "Suc k"] by auto

lemma sift_e_mset:
  assumes "leo k \<le> r + 1" and "r < length a"
  shows "mset (sift_e cmp k r x a) = mset (a[r := x])"
  using assms
proof (induction cmp k r x a rule: sift_e.induct)
  case (1 cmp k r x a)
  note bounds = child_bounds [OF "1.prems"(1)]
  have move: "mset ((a[r := a ! j])[j := x]) = mset (a[r := x])" if "j < r" for j
    using that "1.prems"(2) by (intro mset_move) auto
  show ?case
    using 1 bounds move [of "r - 1"] move [of "r - 1 - leo k"] by simp
qed simp_all

lemma sift_e_outside:
  assumes "leo k \<le> r + 1" and "r < i \<or> i + leo k \<le> r"
  shows "sift_e cmp k r x a ! i = a ! i"
  using assms
proof (induction cmp k r x a rule: sift_e.induct)
  case (1 cmp k r x a)
  note bounds = child_bounds [OF "1.prems"(1)]
  have sub: "r - 1 - leo k < i \<or> i + leo (Suc k) \<le> r - 1 - leo k" "r - 1 < i \<or> i + leo k \<le> r - 1" "i \<noteq> r"
    using "1.prems" bounds leo_pos [of k] by auto
  show ?case
    using "1.IH" bounds(3,4) sub by simp
qed (use leo_pos in auto)

section \<open>Sifting makes a heap\<close>

context comparing
begin

lemma sift_e_root:
  assumes "leo k \<le> r + 1" and "r < length a"
  shows "sift_e cmp k r x a ! r = x \<or>
    (\<exists>j. k = Suc (Suc j) \<and> (sift_e cmp k r x a ! r = a ! (r - 1) \<or> sift_e cmp k r x a ! r = a ! (r - 1 - leo j)))"
proof (cases k rule: leo.cases)
  case (3 j)
  note bounds = child_bounds [OF assms(1) [unfolded 3]]
  have "sift_e cmp (Suc j) (r - 1 - leo j) x b ! r = b ! r" "sift_e cmp j (r - 1) x b ! r = b ! r" for b
    using bounds by (intro sift_e_outside; linarith)+
  then show ?thesis
    using assms(2) by (simp add: 3)
qed (use assms(2) in simp_all)

lemma sift_e_ge:
  fixes x :: 'k
  assumes "leo (Suc (Suc j)) \<le> r + 1" and "r < length a"
  defines "v \<equiv> sift_e cmp (Suc (Suc j)) r x a ! r"
  shows "cmp x v \<le> 0" "cmp (a ! (r - 1)) v \<le> 0" "cmp (a ! (r - 1 - leo j)) v \<le> 0"
proof -
  define l u where "l = a ! (r - 1 - leo j)" and "u = a ! (r - 1)"
  note bounds = child_bounds [OF assms(1)]
  have "sift_e cmp (Suc j) (r - 1 - leo j) x b ! r = b ! r" "sift_e cmp j (r - 1) x b ! r = b ! r" for b
    using bounds by (intro sift_e_outside; linarith)+
  then have "v = (if cmp l x \<le> 0 \<and> cmp u x \<le> 0 then x else if cmp u l \<le> 0 then l else u)"
    using assms(2) unfolding v_def sift_e.simps ge_iff l_def u_def by simp
  then have "cmp x v \<le> 0 \<and> cmp u v \<le> 0 \<and> cmp l v \<le> 0"
    using cmp_linear [of x l] cmp_linear [of x u] cmp_linear [of l u] cmp_self
      cmp_trans_le [of x l u] cmp_trans_le [of x u l] by auto
  then show "cmp x v \<le> 0" "cmp (a ! (r - 1)) v \<le> 0" "cmp (a ! (r - 1 - leo j)) v \<le> 0"
    by (simp_all add: l_def u_def)
qed

lemma sift_e_ge_self:
  assumes "leo k \<le> r + 1" and "r < length a"
  shows "cmp x (sift_e cmp k r x a ! r) \<le> 0"
proof (cases k rule: leo.cases)
  case (3 j)
  then show ?thesis
    using sift_e_ge(1) [of j r a x] assms by simp
qed (use assms(2) cmp_self in simp_all)

lemma sift_e_le:
  assumes "leo k \<le> r + 1" and "r < length a" and "cmp x b \<le> 0"
    and "\<And>j. k = Suc (Suc j) \<Longrightarrow> cmp (a ! (r - 1)) b \<le> 0 \<and> cmp (a ! (r - 1 - leo j)) b \<le> 0"
  shows "cmp (sift_e cmp k r x a ! r) b \<le> 0"
  using sift_e_root [OF assms(1,2), of x] assms(3,4) by auto

lemma sift_e_heap:
  assumes "leo k \<le> r + 1" and "r < length a" and "kids cmp k r a"
  shows "heap cmp k r (sift_e cmp k r x a)"
  using assms
proof (induction k arbitrary: r a rule: leo.induct)
  case (3 k)
  let ?l = "r - 1 - leo k"
  note bounds = child_bounds [OF "3.prems"(1)]
  have heaps: "heap cmp k (r - 1) a" "heap cmp (Suc k) ?l a"
    using "3.prems"(3) by simp_all
  have stop: "heap cmp (Suc (Suc k)) r (a[r := x])" if "cmp (a ! ?l) x \<le> 0" "cmp (a ! (r - 1)) x \<le> 0"
  proof -
    have "heap cmp k (r - 1) (a[r := x])" "heap cmp (Suc k) ?l (a[r := x])"
      using heaps heap_cong [OF bounds(3), of "a[r := x]" a cmp] heap_cong [OF bounds(4), of "a[r := x]" a cmp] bounds
      by auto
    then show ?thesis
      using that "3.prems"(2) bounds by simp
  qed
  have left: "heap cmp (Suc (Suc k)) r (sift_e cmp (Suc k) ?l x (a[r := a ! ?l]))"
    if "cmp x (a ! ?l) \<le> 0" "cmp (a ! (r - 1)) (a ! ?l) \<le> 0"
  proof -
    let ?b = "a[r := a ! ?l]" and ?c = "sift_e cmp (Suc k) ?l x (a[r := a ! ?l])"
    have "kids cmp (Suc k) ?l ?b"
      using heap_kids [OF heaps(2)] kids_cong [OF bounds(4), of ?b a cmp] bounds by simp
    then have "heap cmp (Suc k) ?l ?c"
      using "3.prems"(2) bounds by (intro "3.IH"(1)) auto
    moreover have out: "?c ! i = a ! i" if "?l < i" "i \<noteq> r" for i
      using sift_e_outside [OF bounds(4), of i cmp x ?b] that by simp
    then have "heap cmp k (r - 1) ?c"
      using heaps(1) heap_cong [OF bounds(3), of ?c a cmp] bounds by simp
    moreover have "?c ! r = a ! ?l" "?c ! (r - 1) = a ! (r - 1)"
      using sift_e_outside [OF bounds(4) disjI1, of r cmp x ?b] out [of "r - 1"] bounds(1,2) "3.prems"(2) by simp_all
    moreover have "cmp (?c ! ?l) (a ! ?l) \<le> 0"
      using heaps(2) that(1) bounds "3.prems"(2) by (intro sift_e_le) auto
    ultimately show ?thesis
      using that(2) by simp
  qed
  have right: "heap cmp (Suc (Suc k)) r (sift_e cmp k (r - 1) x (a[r := a ! (r - 1)]))"
    if "cmp x (a ! (r - 1)) \<le> 0" "cmp (a ! ?l) (a ! (r - 1)) \<le> 0"
  proof -
    let ?b = "a[r := a ! (r - 1)]" and ?c = "sift_e cmp k (r - 1) x (a[r := a ! (r - 1)])"
    have "kids cmp k (r - 1) ?b"
      using heap_kids [OF heaps(1)] kids_cong [OF bounds(3), of ?b a cmp] bounds by simp
    then have "heap cmp k (r - 1) ?c"
      using "3.prems"(2) bounds by (intro "3.IH"(2)) auto
    moreover have out: "?c ! i = a ! i" if "i \<le> ?l" for i
      using sift_e_outside [OF bounds(3), of i cmp x ?b] that bounds by simp
    then have "heap cmp (Suc k) ?l ?c"
      using heaps(2) heap_cong [OF bounds(4), of ?c a cmp] by simp
    moreover have "?c ! r = a ! (r - 1)" "?c ! ?l = a ! ?l"
      using sift_e_outside [OF bounds(3) disjI1, of r cmp x ?b] out [of ?l] bounds(1) "3.prems"(2) by simp_all
    moreover have "cmp (?c ! (r - 1)) (a ! (r - 1)) \<le> 0"
      using heaps(1) that(1) bounds "3.prems"(2) by (intro sift_e_le) auto
    ultimately show ?thesis
      using that(2) by simp
  qed
  show ?case
    using stop left right cmp_linear [of x "a ! ?l"] cmp_linear [of x "a ! (r - 1)"] cmp_linear [of "a ! ?l" "a ! (r - 1)"]
      cmp_trans_le [of x "a ! ?l" "a ! (r - 1)"] cmp_trans_le [of x "a ! (r - 1)" "a ! ?l"]
    unfolding sift_e.simps ge_iff by auto
qed simp_all

lemma heap_max:
  assumes "heap cmp k r a" and "leo k \<le> r + 1" and "r < i + leo k" and "i \<le> r"
  shows "cmp (a ! i) (a ! r) \<le> 0"
  using assms
proof (induction k arbitrary: r rule: leo.induct)
  case (3 k)
  note bounds = child_bounds [OF "3.prems"(2)]
  consider "i = r" | "i < r" "r - 1 < i + leo k" | "i + leo k \<le> r - 1"
    using "3.prems"(4) by linarith
  then show ?case
  proof cases
    case 1
    then show ?thesis
      by (simp add: cmp_self)
  next
    case 2
    then have "cmp (a ! i) (a ! (r - 1)) \<le> 0"
      using "3.prems"(1) bounds by (intro "3.IH"(2)) auto
    then show ?thesis
      using cmp_trans_le "3.prems"(1) by (metis heap.simps(3))
  next
    case 3
    then have "cmp (a ! i) (a ! (r - 1 - leo k)) \<le> 0"
      using "3.prems" bounds by (intro "3.IH"(1)) auto
    then show ?thesis
      using cmp_trans_le "3.prems"(1) by (metis heap.simps(3))
  qed
qed (auto simp: cmp_self le_less_Suc_eq)

end

section \<open>Forests\<close>

text \<open>Heaps of the orders \<open>ks\<close>, the last heap first, on the first \<open>n\<close> positions.\<close>

fun forest :: "('e \<Rightarrow> 'e \<Rightarrow> int) \<Rightarrow> nat list \<Rightarrow> nat \<Rightarrow> 'e list \<Rightarrow> bool" where
  "forest cmp [] n a \<longleftrightarrow> n = 0"
| "forest cmp (k # ks) n a \<longleftrightarrow> leo k \<le> n \<and> heap cmp k (n - 1) a \<and> forest cmp ks (n - leo k) a"

text \<open>The roots ascend.\<close>

fun rooted :: "('e \<Rightarrow> 'e \<Rightarrow> int) \<Rightarrow> nat list \<Rightarrow> nat \<Rightarrow> 'e list \<Rightarrow> bool" where
  "rooted cmp (k # k' # ks) n a \<longleftrightarrow>
     cmp (a ! (n - leo k - 1)) (a ! (n - 1)) \<le> 0 \<and> rooted cmp (k' # ks) (n - leo k) a"
| "rooted cmp ks n a = True"

lemma forest_cong: "(\<And>i. i < n \<Longrightarrow> b ! i = a ! i) \<Longrightarrow> forest cmp ks n b = forest cmp ks n a"
proof (induction ks arbitrary: n)
  case (Cons k ks)
  have "heap cmp k (n - 1) b = heap cmp k (n - 1) a" if "leo k \<le> n"
    using that Cons.prems leo_pos [of k] by (intro heap_cong) auto
  then show ?case
    using Cons leo_pos [of k] by auto
qed simp

lemma forest_pos: "forest cmp ks n a \<Longrightarrow> ks \<noteq> [] \<Longrightarrow> 0 < n"
  using leo_pos by (cases ks) (auto intro: less_le_trans)

lemma rooted_cong:
  "(\<And>i. i < n \<Longrightarrow> b ! i = a ! i) \<Longrightarrow> forest cmp ks n a \<Longrightarrow> rooted cmp ks n b = rooted cmp ks n a"
proof (induction cmp ks n a rule: rooted.induct)
  case (1 cmp k k' ks n a)
  have "0 < leo k" "0 < leo k'"
    by (simp_all add: leo_pos)
  then show ?case
    using 1 by auto
qed simp_all

lemma rooted_tl: "rooted cmp (k # ks) n a \<Longrightarrow> rooted cmp ks (n - leo k) a"
  by (cases ks) auto

lemma heapI:
  "kids cmp k r a \<Longrightarrow>
   (\<And>j. k = Suc (Suc j) \<Longrightarrow> cmp (a ! (r - 1)) (a ! r) \<le> 0 \<and> cmp (a ! (r - 1 - leo j)) (a ! r) \<le> 0) \<Longrightarrow>
   heap cmp k r a"
  by (cases k rule: leo.cases) auto

definition rearranged :: "nat \<Rightarrow> 'e list \<Rightarrow> 'e list \<Rightarrow> bool" where
  "rearranged n a b \<longleftrightarrow> length b = length a \<and> mset b = mset a \<and> drop n b = drop n a"

lemma rearranged_refl [simp]: "rearranged n a a"
  by (simp add: rearranged_def)

lemma rearranged_trans: "rearranged n a b \<Longrightarrow> rearranged n b c \<Longrightarrow> rearranged n a c"
  by (simp add: rearranged_def)

lemma rearranged_length: "rearranged n a b \<Longrightarrow> length b = length a"
  by (simp add: rearranged_def)

lemma rearranged_nth:
  assumes "rearranged n a b" and "n \<le> i" and "i < length a"
  shows "b ! i = a ! i"
proof -
  have same: "length b = length a" "drop n b = drop n a"
    using assms(1) by (simp_all add: rearranged_def)
  have "b ! i = drop n b ! (i - n)" "a ! i = drop n a ! (i - n)"
    using assms(2,3) same(1) by simp_all
  then show ?thesis
    by (simp only: same(2))
qed

lemma rearranged_mono: "rearranged n a b \<Longrightarrow> n \<le> n' \<Longrightarrow> rearranged n' a b"
  unfolding rearranged_def by (metis drop_drop le_add_diff_inverse2)

lemma rearranged_prefix:
  assumes "rearranged n a b"
  shows "mset (take n b) = mset (take n a)"
proof -
  have "mset c = mset (take n c) + mset (drop n c)" for c :: "'a list"
    by (metis append_take_drop_id mset_append)
  moreover have "mset b = mset a" "drop n b = drop n a"
    using assms by (simp_all add: rearranged_def)
  ultimately have "mset (take n b) + mset (drop n a) = mset (take n a) + mset (drop n a)"
    by metis
  then show ?thesis
    by simp
qed

lemma rearranged_prefix_set: "rearranged n a b \<Longrightarrow> set (take n b) = set (take n a)"
  using rearranged_prefix by (metis set_mset_mset)

lemma rearrangedI:
  assumes "length b = length a" and "mset b = mset a" and "\<And>i. n \<le> i \<Longrightarrow> i < length a \<Longrightarrow> b ! i = a ! i"
  shows "rearranged n a b"
  using assms by (auto simp: rearranged_def intro: nth_equalityI)

context comparing
begin

lemma forest_max:
  assumes "forest cmp ks n a" and "rooted cmp ks n a" and "ks \<noteq> []" and "i < n"
  shows "cmp (a ! i) (a ! (n - 1)) \<le> 0"
  using assms
proof (induction ks arbitrary: n)
  case (Cons k ks)
  show ?case
  proof (cases "n \<le> i + leo k")
    case True
    then show ?thesis
      using Cons.prems by (intro heap_max [of k "n - 1"]) auto
  next
    case False
    then obtain k' ks' where ks: "ks = k' # ks'"
      using Cons.prems(1) by (cases ks) auto
    have "cmp (a ! i) (a ! (n - leo k - 1)) \<le> 0"
      using Cons.prems False by (intro Cons.IH) (auto simp: ks)
    then show ?thesis
      using Cons.prems(2) cmp_trans_le ks by auto
  qed
qed simp

end

section \<open>Trinkling\<close>

text \<open>
  The element \<open>x\<close>, at the root of the last heap, moves left along the roots to the heap
  where it belongs, and is sifted there.
\<close>

definition trinkle_stop :: "('e \<Rightarrow> 'e \<Rightarrow> int) \<Rightarrow> nat \<Rightarrow> nat \<Rightarrow> 'e \<Rightarrow> bool \<Rightarrow> 'e list \<Rightarrow> bool" where
  "trinkle_stop cmp k r s trusty a \<longleftrightarrow>
     \<not> trusty \<and> 1 < k \<and> (cmp (a ! (r - 1)) s \<ge> 0 \<or> cmp (a ! (r - 1 - leo (k - 2))) s \<ge> 0)"

definition trinkle_end :: "('e \<Rightarrow> 'e \<Rightarrow> int) \<Rightarrow> nat \<Rightarrow> nat \<Rightarrow> 'e \<Rightarrow> bool \<Rightarrow> 'e list \<Rightarrow> 'e list" where
  "trinkle_end cmp k r x trusty a = (if trusty then a[r := x] else sift_e cmp k r x a)"

fun trinkle_e :: "('e \<Rightarrow> 'e \<Rightarrow> int) \<Rightarrow> nat list \<Rightarrow> nat \<Rightarrow> 'e \<Rightarrow> bool \<Rightarrow> 'e list \<Rightarrow> 'e list" where
  "trinkle_e cmp (k # k' # ks) n x trusty a =
     (let s = a ! (n - leo k - 1)
      in if cmp s x \<le> 0 \<or> trinkle_stop cmp k (n - 1) s trusty a then trinkle_end cmp k (n - 1) x trusty a
         else trinkle_e cmp (k' # ks) (n - leo k) x False (a[n - 1 := s]))"
| "trinkle_e cmp [k] n x trusty a = trinkle_end cmp k (n - 1) x trusty a"
| "trinkle_e cmp [] n x trusty a = a"

context comparing
begin

lemma trinkle_end_result:
  assumes "leo k \<le> n" and "n \<le> length a" and "kids cmp k (n - 1) a" and "trusty \<Longrightarrow> heap cmp k (n - 1) (a[n - 1 := x])"
  defines "b \<equiv> trinkle_end cmp k (n - 1) x trusty a"
  shows "rearranged n (a[n - 1 := x]) b" "heap cmp k (n - 1) b" "\<And>i. i + leo k < n \<Longrightarrow> b ! i = a ! i"
    "cmp x (b ! (n - 1)) \<le> 0"
    "trinkle_stop cmp k (n - 1) s trusty a \<Longrightarrow> cmp s (b ! (n - 1)) \<le> 0"
proof -
  have n: "leo k \<le> n - 1 + 1" "n - 1 < length a" "0 < n"
    using assms(1,2) leo_pos [of k] by auto
  show "rearranged n (a[n - 1 := x]) b"
  proof (rule rearrangedI)
    show "length b = length (a[n - 1 := x])"
      by (simp add: b_def trinkle_end_def)
    show "mset b = mset (a[n - 1 := x])"
      using sift_e_mset [OF n(1,2)] by (simp add: b_def trinkle_end_def)
    show "b ! i = a[n - 1 := x] ! i" if "n \<le> i" for i
    proof -
      have "n - 1 < i"
        using that n(3) by simp
      then show ?thesis
        using sift_e_outside [OF n(1) disjI1, of i cmp x a] by (simp add: b_def trinkle_end_def)
    qed
  qed
  show "heap cmp k (n - 1) b"
    using assms(4) sift_e_heap [OF n(1,2) assms(3)] by (simp add: b_def trinkle_end_def)
  show "b ! i = a ! i" if "i + leo k < n" for i
  proof -
    have "i + leo k \<le> n - 1" "i \<noteq> n - 1"
      using that leo_pos [of k] by auto
    then show ?thesis
      using sift_e_outside [OF n(1) disjI2, of i cmp x a] by (simp add: b_def trinkle_end_def)
  qed
  show "cmp x (b ! (n - 1)) \<le> 0"
    using sift_e_ge_self [OF n(1,2)] n(2) by (simp add: b_def trinkle_end_def cmp_self)
  show "cmp s (b ! (n - 1)) \<le> 0" if stop: "trinkle_stop cmp k (n - 1) s trusty a"
  proof -
    obtain j where k: "k = Suc (Suc j)"
      using stop by (cases k rule: leo.cases) (auto simp: trinkle_stop_def)
    have "\<not> trusty"
      using stop by (simp add: trinkle_stop_def)
    then have b: "b = sift_e cmp (Suc (Suc j)) (n - 1) x a"
      by (simp add: b_def trinkle_end_def k)
    have "cmp s (a ! (n - 1 - 1)) \<le> 0 \<or> cmp s (a ! (n - 1 - 1 - leo j)) \<le> 0"
      using stop unfolding trinkle_stop_def ge_iff k by auto
    then show ?thesis
      using sift_e_ge(2,3) [OF n(1) [unfolded k] n(2), of x] cmp_trans_le unfolding b by blast
  qed
qed

lemma trinkle_e_result:
  assumes "forest cmp ks (n - leo k) a" and "rooted cmp ks (n - leo k) a"
    and "leo k \<le> n" and "n \<le> length a" and "kids cmp k (n - 1) a"
    and "trusty \<Longrightarrow> heap cmp k (n - 1) (a[n - 1 := x])"
  shows "rearranged n (a[n - 1 := x]) (trinkle_e cmp (k # ks) n x trusty a) \<and>
    forest cmp (k # ks) n (trinkle_e cmp (k # ks) n x trusty a) \<and>
    rooted cmp (k # ks) n (trinkle_e cmp (k # ks) n x trusty a)"
  using assms
proof (induction ks arbitrary: k n a trusty)
  case Nil
  then show ?case
    using trinkle_end_result(1,2) [OF Nil.prems(3-6)] by simp
next
  case (Cons k' ks)
  define n' where "n' = n - leo k"
  define s where "s = a ! (n' - 1)"
  have n': "0 < n'" "leo k' \<le> n'" "n' \<le> n - 1" "n' < length a" "n' - 1 < n - 1" "n - 1 < length a" "0 < n"
    using Cons.prems(1,3,4) leo_pos [of k] leo_pos [of k'] by (auto simp: n'_def)
  show ?case
  proof (cases "cmp s x \<le> 0 \<or> trinkle_stop cmp k (n - 1) s trusty a")
    case True
    let ?b = "trinkle_end cmp k (n - 1) x trusty a"
    note end_result = trinkle_end_result [OF Cons.prems(3-6)]
    have b: "trinkle_e cmp (k # k' # ks) n x trusty a = ?b"
      using True by (simp add: s_def n'_def)
    have below: "?b ! i = a ! i" if "i < n'" for i
      using end_result(3) [where i = i] that by (simp add: n'_def)
    have "forest cmp (k' # ks) n' ?b" "rooted cmp (k' # ks) n' ?b"
      using Cons.prems(1,2) forest_cong [of n' ?b a cmp "k' # ks"] rooted_cong [of n' ?b a cmp "k' # ks"] below
      by (simp_all add: n'_def del: forest.simps)
    moreover have "cmp s (?b ! (n - 1)) \<le> 0"
      using True end_result(4) end_result(5) [where s = s] cmp_trans_le [of s x] by blast
    moreover have "?b ! (n' - 1) = s"
      using below n'(1) by (simp add: s_def)
    ultimately show ?thesis
      using b end_result(1,2) Cons.prems(3) by (simp add: n'_def del: trinkle_e.simps)
  next
    case False
    then have less: "cmp x s \<le> 0" and go: "\<not> trinkle_stop cmp k (n - 1) s trusty a"
      using cmp_linear by blast+
    let ?a = "a[n - 1 := s]" and ?b = "trinkle_e cmp (k' # ks) n' x False (a[n - 1 := s])"
    have b: "trinkle_e cmp (k # k' # ks) n x trusty a = ?b"
      using False by (simp add: s_def n'_def)
    have old: "forest cmp (k' # ks) n' a" "rooted cmp (k' # ks) n' a"
      using Cons.prems(1,2) by (simp_all add: n'_def)
    have pre: "forest cmp (k' # ks) n' ?a" "rooted cmp (k' # ks) n' ?a"
      using old forest_cong [of n' ?a a cmp "k' # ks"] rooted_cong [of n' ?a a cmp "k' # ks"] n'
      by (simp_all del: forest.simps)
    have len: "n' \<le> length ?a"
      using n' by simp
    have kid: "kids cmp k' (n' - 1) ?a"
      using pre(1) by (simp add: heap_kids)
    have r: "rearranged n' (?a[n' - 1 := x]) ?b" "forest cmp (k' # ks) n' ?b" "rooted cmp (k' # ks) n' ?b"
      using Cons.IH [of n' k' ?a False, OF _ _ n'(2) len kid] pre rooted_tl [OF pre(2)]
      by (simp_all del: trinkle_e.simps)
    have above: "?b ! i = ?a ! i" if "n' \<le> i" "i < length a" for i
      using rearranged_nth [OF r(1) that(1)] that n'(1) by simp
    have kept: "?b ! i = a ! i" if "n' \<le> i" "i < n - 1" for i
      using above [of i] that n' by simp
    have root: "?b ! (n - 1) = s"
      using above [OF n'(3)] n' by simp
    have "kids cmp k (n - 1) ?b"
      using Cons.prems(3,5) kept n'(7) by (subst kids_cong [of k "n - 1" ?b a]) (auto simp: n'_def)
    moreover have "cmp (?b ! (n - 1 - 1)) s \<le> 0 \<and> cmp (?b ! (n - 1 - 1 - leo j)) s \<le> 0" if k: "k = Suc (Suc j)" for j
    proof -
      have bounds: "n' \<le> n - 1 - 1" "n' \<le> n - 1 - 1 - leo j" "n - 1 - 1 < n - 1" "n - 1 - 1 - leo j < n - 1"
        using Cons.prems(3) leo_pos [of j] leo_pos [of "Suc j"] unfolding n'_def k by auto
      have "cmp (a ! (n - 1 - 1)) s \<le> 0 \<and> cmp (a ! (n - 1 - 1 - leo j)) s \<le> 0"
      proof (cases trusty)
        case True
        then have "cmp (a ! (n - 1 - 1)) x \<le> 0" "cmp (a ! (n - 1 - 1 - leo j)) x \<le> 0"
          using Cons.prems(6) n'(6) bounds unfolding k by simp_all
        then show ?thesis
          using less cmp_trans_le by blast
      next
        case False
        then show ?thesis
          using go k by (auto simp: trinkle_stop_def)
      qed
      then show ?thesis
        using kept bounds by simp
    qed
    ultimately have heap: "heap cmp k (n - 1) ?b"
      using root heapI [of cmp k "n - 1" ?b] by (simp only:)
    have "?b ! (n' - 1) \<in> set (take n' (?a[n' - 1 := x]))"
      unfolding rearranged_prefix_set [OF r(1), symmetric] using rearranged_length [OF r(1)] n'
      by (auto simp: in_set_conv_nth intro!: exI [of _ "n' - 1"])
    then obtain i where "i < n'" "?b ! (n' - 1) = ?a[n' - 1 := x] ! i"
      using n' by (auto simp: in_set_conv_nth)
    then have "?b ! (n' - 1) = x \<or> ?b ! (n' - 1) = a ! i" "cmp (a ! i) s \<le> 0"
      using n' forest_max [OF old, of i] by (auto simp: s_def nth_list_update)
    then have last: "cmp (?b ! (n' - 1)) s \<le> 0"
      using less by auto
    have "rearranged n (a[n - 1 := x]) ?b"
    proof (rule rearrangedI)
      show "length ?b = length (a[n - 1 := x])"
        using rearranged_length [OF r(1)] by simp
      show "mset ?b = mset (a[n - 1 := x])"
        using r(1) mset_move [of "n - 1" a "n' - 1" x] n' by (simp add: rearranged_def s_def)
      show "?b ! i = a[n - 1 := x] ! i" if "n \<le> i" "i < length (a[n - 1 := x])" for i
        using above [of i] that n' by simp
    qed
    then show ?thesis
      unfolding b using heap last root r(2,3) Cons.prems(3) by (simp add: n'_def)
  qed
qed

end

end
