(* ===== verification/Smoothsort_Phases.thy ===== *)
theory Smoothsort_Phases
  imports Smoothsort
begin

text \<open>
  The two phases of smoothsort on lists of elements.  While the forest grows, a heap is
  either finished, with all roots up to it ascending, or so many elements are still to come
  that it will be merged; at the end every heap is finished.  While the forest shrinks, its
  last root is the greatest element that is left.
\<close>

section \<open>The orders of the heaps\<close>

fun gaps :: "nat list \<Rightarrow> bool" where
  "gaps (k # k' # ks) \<longleftrightarrow> k + 2 \<le> k' \<and> gaps (k' # ks)"
| "gaps ks = True"

fun spaced :: "nat list \<Rightarrow> bool" where
  "spaced (k # k' # ks) \<longleftrightarrow> k < k' \<and> (k = 0 \<longrightarrow> k' = 1) \<and> gaps (k' # ks)"
| "spaced [k] \<longleftrightarrow> k \<noteq> 0"
| "spaced [] = False"

lemma gaps_tl: "gaps (k # ks) \<Longrightarrow> gaps ks"
  by (cases ks) auto

lemma spaced_merge: "spaced (k # Suc k # ks) \<Longrightarrow> spaced (Suc (Suc k) # ks)"
  by (cases ks) auto

lemma spaced_single:
  assumes "spaced (k # ks)" and "\<And>k' ks'. ks = k' # ks' \<Longrightarrow> k' \<noteq> Suc k"
  shows "k \<noteq> 0" "spaced ((if k = 1 then 0 else 1) # k # ks)"
  using assms by (cases ks; force)+

lemma spaced_split: "spaced (Suc (Suc k) # ks) \<Longrightarrow> spaced (k # Suc k # ks)"
  by (cases ks) auto

lemma spaced_tl: "spaced (k # k' # ks) \<Longrightarrow> spaced (k' # ks)"
  by (cases ks) auto

section \<open>Growing\<close>

fun tail_ok :: "('e \<Rightarrow> 'e \<Rightarrow> int) \<Rightarrow> nat \<Rightarrow> nat list \<Rightarrow> nat \<Rightarrow> 'e list \<Rightarrow> bool" where
  "tail_ok cmp N [] n a \<longleftrightarrow> n = 0"
| "tail_ok cmp N (k # ks) n a \<longleftrightarrow> leo k \<le> n \<and> heap cmp k (n - 1) a \<and>
     (leo (k - 1) < N - n \<and> tail_ok cmp N ks (n - leo k) a \<or> forest cmp (k # ks) n a \<and> rooted cmp (k # ks) n a)"

text \<open>The last heap still has to be sifted.\<close>

definition grown :: "('e \<Rightarrow> 'e \<Rightarrow> int) \<Rightarrow> nat \<Rightarrow> nat \<Rightarrow> nat list \<Rightarrow> nat \<Rightarrow> 'e list \<Rightarrow> bool" where
  "grown cmp N k ks n a \<longleftrightarrow> spaced (k # ks) \<and> leo k \<le> n \<and> n \<le> N \<and> length a = N \<and> kids cmp k (n - 1) a \<and>
     tail_ok cmp N ks (n - leo k) a"

lemma tail_ok_cong: "(\<And>i. i < n \<Longrightarrow> b ! i = a ! i) \<Longrightarrow> tail_ok cmp N ks n b = tail_ok cmp N ks n a"
proof (induction ks arbitrary: n)
  case (Cons k ks)
  have "heap cmp k (n - 1) b = heap cmp k (n - 1) a" if "leo k \<le> n"
    using that Cons.prems leo_pos [of k] by (intro heap_cong) auto
  moreover have "tail_ok cmp N ks (n - leo k) b = tail_ok cmp N ks (n - leo k) a"
    using Cons by simp
  moreover have "forest cmp (k # ks) n b = forest cmp (k # ks) n a"
    using Cons.prems by (rule forest_cong)
  moreover have "rooted cmp (k # ks) n b = rooted cmp (k # ks) n a" if "forest cmp (k # ks) n a"
    using Cons.prems that by (rule rooted_cong)
  ultimately show ?case
    by (auto simp del: forest.simps)
qed simp

lemma tail_ok_tl: "tail_ok cmp N (k # ks) n a \<Longrightarrow> tail_ok cmp N ks (n - leo k) a"
  by (cases ks) (auto dest: rooted_tl)

text \<open>Heaps are finished when not enough elements remain for a merge.\<close>

lemma tail_ok_finished:
  assumes "tail_ok cmp N ks n a" and "\<And>k ks'. ks = k # ks' \<Longrightarrow> N - n \<le> leo (k - 1)"
  shows "forest cmp ks n a" "rooted cmp ks n a"
  using assms by (cases ks; force)+

context comparing
begin

lemma sifted:
  assumes "grown cmp N k ks n a"
  defines "b \<equiv> sift_e cmp k (n - 1) (a ! (n - 1)) a"
  shows "mset b = mset a" "length b = N" "heap cmp k (n - 1) b" "tail_ok cmp N ks (n - leo k) b"
    "0 < n" "leo k \<le> n" "n \<le> N"
proof -
  have n: "leo k \<le> n - 1 + 1" "n - 1 < length a" "0 < n" "leo k \<le> n" "n \<le> N" "length a = N"
    and kid: "kids cmp k (n - 1) a" and tail: "tail_ok cmp N ks (n - leo k) a"
    using assms(1) leo_pos [of k] by (auto simp: grown_def)
  show "mset b = mset a"
    using sift_e_mset [OF n(1,2), of cmp "a ! (n - 1)"] by (simp add: b_def)
  show "length b = N"
    using n(6) by (simp add: b_def)
  show "heap cmp k (n - 1) b"
    unfolding b_def by (rule sift_e_heap [OF n(1,2) kid])
  have "b ! i = a ! i" if "i < n - leo k" for i
  proof -
    have "i + leo k \<le> n - 1"
      using that n(3) by linarith
    then show ?thesis
      unfolding b_def by (intro sift_e_outside [OF n(1) disjI2])
  qed
  then show "tail_ok cmp N ks (n - leo k) b"
    using tail tail_ok_cong [of "n - leo k" b a] by simp
  show "0 < n" "leo k \<le> n" "n \<le> N"
    by (fact n)+
qed

lemma grown_merge:
  assumes "grown cmp N k (Suc k # ks) n a" and "n < N"
  shows "grown cmp N (Suc (Suc k)) ks (n + 1) (sift_e cmp k (n - 1) (a ! (n - 1)) a)"
proof -
  let ?b = "sift_e cmp k (n - 1) (a ! (n - 1)) a"
  note s = sifted [OF assms(1)]
  have "spaced (Suc (Suc k) # ks)"
    using assms(1) spaced_merge by (simp add: grown_def)
  moreover have "leo (Suc k) \<le> n - leo k" "heap cmp (Suc k) (n - leo k - 1) ?b"
    using s(4) by simp_all
  moreover have "tail_ok cmp N ks (n - leo k - leo (Suc k)) ?b"
    using tail_ok_tl [OF s(4)] .
  ultimately show ?thesis
    using s(2,3,5) assms(2) leo_pos [of k] leo_pos [of "Suc k"] by (simp add: grown_def add.commute)
qed

lemma grown_next:
  assumes "heap cmp k (n - 1) b" and "leo k \<le> n" and "n < N" and "length b = N"
    and "spaced (k # ks)" and "\<And>k' ks'. ks = k' # ks' \<Longrightarrow> k' \<noteq> Suc k"
    and "leo (k - 1) < N - n \<and> tail_ok cmp N ks (n - leo k) b \<or> forest cmp (k # ks) n b \<and> rooted cmp (k # ks) n b"
  shows "grown cmp N (if k = 1 then 0 else 1) (k # ks) (n + 1) b"
proof -
  have "tail_ok cmp N (k # ks) n b"
    using assms(1,2,7) by simp
  moreover define j :: nat where "j = (if k = 1 then 0 else 1)"
  moreover have "leo j = 1" "kids cmp j n b"
    by (simp_all add: j_def)
  moreover have "spaced (j # k # ks)"
    unfolding j_def by (rule spaced_single(2) [OF assms(5,6)])
  ultimately show ?thesis
    using assms(3,4) unfolding grown_def j_def [symmetric] by (simp del: tail_ok.simps spaced.simps)
qed

lemma grown_sift:
  assumes "grown cmp N k ks n a" and "n < N" and "\<And>k' ks'. ks = k' # ks' \<Longrightarrow> k' \<noteq> Suc k"
    and "leo (k - 1) < N - n"
  shows "grown cmp N (if k = 1 then 0 else 1) (k # ks) (n + 1) (sift_e cmp k (n - 1) (a ! (n - 1)) a)"
  using sifted [OF assms(1)] assms by (intro grown_next) (auto simp: grown_def)

lemma trinkled:
  assumes "forest cmp ks (n - leo k) a" "rooted cmp ks (n - leo k) a" "leo k \<le> n" "n \<le> length a"
    "kids cmp k (n - 1) a" "trusty \<Longrightarrow> heap cmp k (n - 1) a"
  defines "b \<equiv> trinkle_e cmp (k # ks) n (a ! (n - 1)) trusty a"
  shows "rearranged n a b" "forest cmp (k # ks) n b" "rooted cmp (k # ks) n b"
  using trinkle_e_result [OF assms(1-5), of trusty "a ! (n - 1)"] assms(6) by (simp_all add: b_def)

lemma finished_last:
  assumes "grown cmp N k ks n a" and "N - n \<le> leo (k - 1)" and "k \<noteq> 0"
    and "\<And>k' ks'. ks = k' # ks' \<Longrightarrow> k' \<noteq> Suc k"
  shows "forest cmp ks (n - leo k) a" "rooted cmp ks (n - leo k) a"
proof -
  have tail: "tail_ok cmp N ks (n - leo k) a" and n: "leo k \<le> n" "n \<le> N"
    using assms(1) by (simp_all add: grown_def)
  obtain j where k: "k = Suc j"
    using assms(3) by (cases k) auto
  have "N - (n - leo k) \<le> leo (k' - 1)" if "ks = k' # ks'" for k' ks'
  proof -
    have "Suc (Suc j) < k'"
      using assms(1,4) that by (auto simp: grown_def k)
    then have "leo (Suc (Suc j)) \<le> leo (k' - 1)"
      by (intro leo_mono) simp
    then show ?thesis
      using assms(2) n by (simp add: k)
  qed
  then show "forest cmp ks (n - leo k) a" "rooted cmp ks (n - leo k) a"
    using tail_ok_finished [OF tail] by blast+
qed

lemma grown_trinkle:
  assumes "grown cmp N k ks n a" and "n < N" and "\<And>k' ks'. ks = k' # ks' \<Longrightarrow> k' \<noteq> Suc k"
    and "N - n \<le> leo (k - 1)" and "k \<noteq> 0"
  defines "b \<equiv> trinkle_e cmp (k # ks) n (a ! (n - 1)) False a"
  shows "grown cmp N (if k = 1 then 0 else 1) (k # ks) (n + 1) b" "mset b = mset a"
proof -
  have n: "leo k \<le> n" "n \<le> length a" "kids cmp k (n - 1) a" "length a = N" "spaced (k # ks)"
    using assms(1) by (simp_all add: grown_def)
  note t = trinkled [OF finished_last [OF assms(1,4,5,3)] n(1-3), where trusty = False, folded b_def, simplified]
  show "grown cmp N (if k = 1 then 0 else 1) (k # ks) (n + 1) b"
    using t n assms(2,3) rearranged_length [OF t(1)] by (intro grown_next) auto
  show "mset b = mset a"
    using t(1) by (simp add: rearranged_def)
qed

lemma grown_end:
  assumes "grown cmp N k ks N a"
  defines "b \<equiv> trinkle_e cmp (k # ks) N (a ! (N - 1)) False a"
  shows "rearranged N a b" "forest cmp (k # ks) N b" "rooted cmp (k # ks) N b"
proof -
  have n: "leo k \<le> N" "N \<le> length a" "kids cmp k (N - 1) a" "spaced (k # ks)"
    and tail: "tail_ok cmp N ks (N - leo k) a"
    using assms(1) by (simp_all add: grown_def)
  have "N - (N - leo k) \<le> leo (k' - 1)" if "ks = k' # ks'" for k' ks'
  proof -
    have "k \<le> k' - 1"
      using n(4) that by auto
    then have "leo k \<le> leo (k' - 1)"
      by (rule leo_mono)
    then show ?thesis
      using n(1) by simp
  qed
  then have "forest cmp ks (N - leo k) a" "rooted cmp ks (N - leo k) a"
    using tail_ok_finished [OF tail] by blast+
  from trinkled [OF this n(1-3), where trusty = False]
  show "rearranged N a b" "forest cmp (k # ks) N b" "rooted cmp (k # ks) N b"
    by (simp_all add: b_def)
qed

end

section \<open>Shrinking\<close>

definition settled :: "('e \<Rightarrow> 'e \<Rightarrow> int) \<Rightarrow> nat \<Rightarrow> 'e list \<Rightarrow> bool" where
  "settled cmp n a \<longleftrightarrow> (\<forall>i j. i < j \<and> n \<le> j \<and> j < length a \<longrightarrow> cmp (a ! i) (a ! j) \<le> 0)"

lemma settled_rearranged:
  assumes "settled cmp n a" and "rearranged m a b" and "m \<le> n"
  shows "settled cmp n b"
  unfolding settled_def
proof (intro allI impI)
  fix i j
  assume ij: "i < j \<and> n \<le> j \<and> j < length b"
  have j: "b ! j = a ! j" "j < length a"
    using ij assms(2,3) rearranged_nth [OF assms(2), of j] by (simp_all add: rearranged_length)
  show "cmp (b ! i) (b ! j) \<le> 0"
  proof (cases "m \<le> i")
    case True
    then show ?thesis
      using assms(1) rearranged_nth [OF assms(2) True] ij j by (auto simp: settled_def)
  next
    case False
    then have "b ! i \<in> set (take m b)"
      using ij by (auto simp: in_set_conv_nth intro!: exI [of _ i])
    then obtain i' where "i' < m" "b ! i = a ! i'"
      unfolding rearranged_prefix_set [OF assms(2)] by (auto simp: in_set_conv_nth)
    then show ?thesis
      using assms(1,3) ij j by (auto simp: settled_def)
  qed
qed

context comparing
begin

lemma settled_step:
  assumes "settled cmp n a" and "forest cmp ks n a" and "rooted cmp ks n a" and "ks \<noteq> []"
  shows "settled cmp (n - 1) a"
  unfolding settled_def
proof (intro allI impI)
  fix i j
  assume ij: "i < j \<and> n - 1 \<le> j \<and> j < length a"
  show "cmp (a ! i) (a ! j) \<le> 0"
  proof (cases "n \<le> j")
    case True
    then show ?thesis
      using assms(1) ij by (auto simp: settled_def)
  next
    case False
    then have "j = n - 1" "i < n"
      using ij by auto
    then show ?thesis
      using forest_max [OF assms(2-4)] by simp
  qed
qed

text \<open>The greatest element is the last heap, or the root of the last heap, which is split.\<close>

lemma shrink_drop:
  assumes "forest cmp (k # ks) n a" and "rooted cmp (k # ks) n a" and "k \<le> 1"
  shows "forest cmp ks (n - 1) a" "rooted cmp ks (n - 1) a"
proof -
  have "leo k = 1"
    using assms(3) by (cases k) auto
  then show "forest cmp ks (n - 1) a" "rooted cmp ks (n - 1) a"
    using assms rooted_tl [OF assms(2)] by simp_all
qed

lemma shrink_split:
  assumes "forest cmp (Suc (Suc k) # ks) n a" and "rooted cmp (Suc (Suc k) # ks) n a" and "n \<le> length a"
  defines "b \<equiv> trinkle_e cmp (Suc k # ks) (n - 1 - leo k) (a ! (n - 1 - leo k - 1)) True a"
  defines "c \<equiv> trinkle_e cmp (k # Suc k # ks) (n - 1) (b ! (n - 1 - 1)) True b"
  shows "rearranged (n - 1) a c" "forest cmp (k # Suc k # ks) (n - 1) c" "rooted cmp (k # Suc k # ks) (n - 1) c"
    "leo k < n - 1" "length b = length a"
proof -
  have n: "leo (Suc k) + leo k + 1 \<le> n" and heap: "heap cmp (Suc (Suc k)) (n - 1) a"
    and rest: "forest cmp ks (n - leo (Suc (Suc k))) a" "rooted cmp ks (n - leo (Suc (Suc k))) a"
    using assms(1) rooted_tl [OF assms(2)] by simp_all
  have pos: "0 < leo k" "0 < leo (Suc k)"
    by (simp_all add: leo_pos)
  have eq: "n - leo (Suc (Suc k)) = n - 1 - leo k - leo (Suc k)" "n - 1 - leo k - 1 = n - 1 - 1 - leo k"
    by simp_all
  have left: "heap cmp (Suc k) (n - 1 - leo k - 1) a"
    using heap by (simp add: eq)
  have b: "rearranged (n - 1 - leo k) a b" "forest cmp (Suc k # ks) (n - 1 - leo k) b"
      "rooted cmp (Suc k # ks) (n - 1 - leo k) b"
    using trinkled [where k = "Suc k" and trusty = True, OF rest [unfolded eq(1)] _ _ heap_kids [OF left] left] n assms(3)
    by (simp_all add: b_def)
  have right: "heap cmp k (n - 1 - 1) b"
    using heap n pos assms(3) rearranged_nth [OF b(1)] by (subst heap_cong [of k _ b a]) auto
  have c: "rearranged (n - 1) b c" "forest cmp (k # Suc k # ks) (n - 1) c" "rooted cmp (k # Suc k # ks) (n - 1) c"
    using trinkled [where k = k and trusty = True, OF b(2,3) _ _ heap_kids [OF right] right] n assms(3)
      rearranged_length [OF b(1)] by (simp_all add: c_def)
  show "rearranged (n - 1) a c"
    using rearranged_trans [OF rearranged_mono [OF b(1)] c(1)] by simp
  show "forest cmp (k # Suc k # ks) (n - 1) c" "rooted cmp (k # Suc k # ks) (n - 1) c"
    by (fact c)+
  show "leo k < n - 1"
    using n pos by simp
  show "length b = length a"
    by (rule rearranged_length [OF b(1)])
qed

end

end
