(* ===== verification/Qsort_Bits.thy ===== *)
theory Qsort_Bits
  imports Qsort Smoothsort_Phases
begin

unbundle bit_operations_syntax

text \<open>
  The bit vector of \<open>qsort\<close> and the orders of the heaps that it stands for: what the shifts
  and the count of trailing zeros do to the list of orders.
\<close>

definition vbit :: "bitvec \<Rightarrow> nat \<Rightarrow> bool" where
  "vbit p i = (if i < 32 then bit (fst p) i else bit (snd p) (i - 32))"

lemma vbit_less: "vbit p i \<Longrightarrow> i < 64"
  using bit_imp_le_length [of "snd p" "i - 32"] by (cases "i < 32") (auto simp: vbit_def)

lemma vbit_eq_iff: "p = q \<longleftrightarrow> (\<forall>i. vbit p i = vbit q i)"
proof
  assume eq: "\<forall>i. vbit p i = vbit q i"
  have "bit (fst p) i = bit (fst q) i" "bit (snd p) i = bit (snd q) i" for i
    using eq [rule_format, of i] eq [rule_format, of "32 + i"] bit_imp_le_length [of "fst p" i]
      bit_imp_le_length [of "fst q" i] by (auto simp: vbit_def split: if_splits)
  then show "p = q"
    by (simp add: prod_eq_iff bit_eq_iff)
qed simp

lemma shl_bits:
  assumes "0 < n" and "n < 32"
  obtains q where "shl p n = Some q" "\<And>i. vbit q i \<longleftrightarrow> i < 64 \<and> n \<le> i \<and> vbit p (i - n)"
proof -
  let ?q = "(push_bit n (fst p), push_bit n (snd p) OR drop_bit (32 - n) (fst p))"
  have "shl p n = Some ?q"
    using assms by (simp add: shl_def)
  moreover have "vbit ?q i \<longleftrightarrow> i < 64 \<and> n \<le> i \<and> vbit p (i - n)" for i
  proof -
    consider "i < 32" | "32 \<le> i" "i < 32 + n" | "32 + n \<le> i"
      by linarith
    then show ?thesis
    proof cases
      case 1
      then show ?thesis
        by (auto simp: vbit_def bit_simps)
    next
      case 2
      have "bit (drop_bit (32 - n) (fst p)) (i - 32) = bit (fst p) (i - n)"
        using 2 assms by (simp add: bit_drop_bit_eq)
      then show ?thesis
        using 2 assms by (auto simp: vbit_def bit_simps)
    next
      case 3
      have "\<not> bit (drop_bit (32 - n) (fst p)) (i - 32)"
        using 3 assms by (auto simp: bit_drop_bit_eq dest: bit_imp_le_length)
      then show ?thesis
        using 3 assms bit_imp_le_length [of "snd p" "i - n - 32"] by (auto simp: vbit_def bit_simps add.commute)
    qed
  qed
  ultimately show thesis
    using that by blast
qed

lemma shr_bits:
  assumes "0 < n" and "n < 32"
  obtains q where "shr p n = Some q" "\<And>i. vbit q i \<longleftrightarrow> vbit p (i + n)"
proof -
  let ?q = "(drop_bit n (fst p) OR push_bit (32 - n) (snd p), drop_bit n (snd p))"
  have "shr p n = Some ?q"
    using assms by (simp add: shr_def)
  moreover have "vbit ?q i \<longleftrightarrow> vbit p (i + n)" for i
  proof -
    consider "i + n < 32" | "i < 32" "32 \<le> i + n" | "32 \<le> i"
      by linarith
    then show ?thesis
    proof cases
      case 1
      then show ?thesis
        using assms by (auto simp: vbit_def bit_simps add.commute)
    next
      case 2
      have "\<not> bit (fst p) (i + n)"
        using 2 by (auto dest: bit_imp_le_length)
      moreover have "i - (32 - n) = i + n - 32"
        using 2 assms by simp
      ultimately show ?thesis
        using 2 assms by (auto simp: vbit_def bit_simps add.commute)
    next
      case 3
      have "i - 32 + n = i + n - 32"
        using 3 by simp
      then show ?thesis
        using 3 by (auto simp: vbit_def bit_simps add.commute)
    qed
  qed
  ultimately show thesis
    using that by blast
qed

lemma ntz_lowest:
  assumes "bit x i" and "\<And>j. j < i \<Longrightarrow> \<not> bit x j"
  shows "ntz x = Some i"
proof -
  have i: "i < 32"
    using assms(1) by (auto dest: bit_imp_le_length)
  then have "[0..<32] = [0..<i] @ [i..<32]" "[i..<32] = i # [Suc i..<32]"
    using upt_add_eq_append [of 0 i "32 - i"] by (simp_all add: upt_conv_Cons)
  then have "takeWhile (\<lambda>j. \<not> bit x j) [0..<32] = [0..<i]"
    using assms by (auto simp: takeWhile_append)
  moreover have "x \<noteq> 0"
    using assms(1) by auto
  ultimately show ?thesis
    by (simp add: ntz_def)
qed

lemma bit_mask_word: "i < 32 \<Longrightarrow> bit (mask n :: u32) i \<longleftrightarrow> i < n"
  by (simp add: bit_mask_iff)

lemma and_mask_eq_mask:
  fixes x :: u32
  assumes "n \<le> 32"
  shows "x AND mask n = mask n \<longleftrightarrow> (\<forall>i<n. bit x i)"
proof
  assume eq: "x AND mask n = mask n"
  show "\<forall>i<n. bit x i"
  proof (intro allI impI)
    fix i
    assume "i < n"
    then have "bit (x AND mask n) i"
      unfolding eq using assms by (simp add: bit_mask_word)
    then show "bit x i"
      by (simp add: bit_and_iff)
  qed
next
  assume "\<forall>i<n. bit x i"
  then show "x AND mask n = mask n"
    by (intro bit_eqI) (auto simp: bit_and_iff bit_mask_iff)
qed

text \<open>Bit \<open>i\<close> stands for the heap of order \<open>k + i\<close>.\<close>

definition shape :: "bitvec \<Rightarrow> nat \<Rightarrow> nat list \<Rightarrow> bool" where
  "shape p k ks \<longleftrightarrow> (\<forall>i. vbit p i \<longleftrightarrow> k + i \<in> set (k # ks)) \<and> (\<forall>j\<in>set ks. k < j)"

lemma gaps_less: "gaps (k # ks) \<Longrightarrow> j \<in> set ks \<Longrightarrow> k + 2 \<le> j"
proof (induction ks arbitrary: k)
  case (Cons k' ks)
  then show ?case
    by fastforce
qed simp

lemma spaced_less: "spaced (k # ks) \<Longrightarrow> j \<in> set ks \<Longrightarrow> k < j"
  using gaps_less by (cases ks) fastforce+

lemma shape_bit0: "shape p k ks \<Longrightarrow> vbit p 0"
  by (simp add: shape_def)

lemma shape_single: "shape p k ks \<Longrightarrow> p = (1, 0) \<longleftrightarrow> ks = []"
proof -
  assume shape: "shape p k ks"
  have one: "vbit (1, 0) i \<longleftrightarrow> i = 0" for i
    by (simp add: vbit_def bit_simps)
  show ?thesis
  proof
    assume p: "p = (1, 0)"
    show "ks = []"
    proof (rule ccontr)
      assume "ks \<noteq> []"
      then obtain j where j: "j \<in> set ks"
        by fastforce
      then have "k < j"
        using shape by (simp add: shape_def)
      then show False
        using shape p one [of "j - k"] j by (auto simp: shape_def)
    qed
  next
    assume "ks = []"
    then show "p = (1, 0)"
      using shape one by (auto simp: vbit_eq_iff shape_def)
  qed
qed

lemma shape_merge: "shape p k ks \<Longrightarrow> spaced (k # ks) \<Longrightarrow> fst p AND 3 = 3 \<longleftrightarrow> (\<exists>ks'. ks = Suc k # ks')"
proof -
  assume shape: "shape p k ks" and spaced: "spaced (k # ks)"
  have "fst p AND 3 = 3 \<longleftrightarrow> bit (fst p) 0 \<and> bit (fst p) 1"
  proof -
    have three: "(3 :: u32) = mask 2"
      by (simp add: mask_eq_exp_minus_1)
    show ?thesis
      unfolding three and_mask_eq_mask [of 2 "fst p", simplified] by (auto simp: less_2_cases_iff)
  qed
  also have "\<dots> \<longleftrightarrow> vbit p 0 \<and> vbit p 1"
    by (simp add: vbit_def)
  also have "\<dots> \<longleftrightarrow> Suc k \<in> set ks"
    using shape by (simp add: shape_def)
  also have "\<dots> \<longleftrightarrow> (\<exists>ks'. ks = Suc k # ks')"
    using spaced gaps_less by (cases ks) fastforce+
  finally show ?thesis .
qed

lemma vbit_or_one: "vbit (fst p OR 1, snd p) i \<longleftrightarrow> i = 0 \<or> vbit p i"
  by (auto simp: vbit_def bit_simps)

lemma shape_pntz:
  assumes shape: "shape p k (k' # ks)" and spaced: "spaced (k # k' # ks)" and "k' - k < 32"
  shows "pntz p = Some (k' - k)"
proof -
  have k: "k < k'"
    using shape by (simp add: shape_def)
  have low: "\<not> vbit p i" if "0 < i" "i < k' - k" for i
  proof -
    have "k + i < k'"
      using that by linarith
    then have "k + i \<notin> set (k' # ks)"
      using spaced gaps_less [of k' ks] by fastforce
    then show ?thesis
      using shape that by (auto simp: shape_def)
  qed
  have odd: "bit (fst p) 0" and bits: "bit (fst p) i = vbit p i" if "i < 32" for i
    using shape_bit0 [OF shape] that by (simp_all add: vbit_def)
  have "fst p - 1 = fst p AND NOT 1"
  proof -
    have "fst p = (fst p AND NOT 1) + 1"
    proof -
      have "(fst p AND NOT 1) AND 1 = 0"
        by (intro bit_eqI) (auto simp: bit_simps)
      then have "(fst p AND NOT 1) + 1 = (fst p AND NOT 1) OR 1"
        by (rule disjunctive_add_eq_or)
      also have "\<dots> = fst p"
      proof (rule bit_eqI)
        show "bit ((fst p AND NOT 1) OR 1) n = bit (fst p) n" if "possible_bit TYPE(32 word) n" for n
          using odd [of 0] that by (cases "n = 0") (auto simp: bit_simps)
      qed
      finally show ?thesis ..
    qed
    then show ?thesis
      by (metis add_diff_cancel_right')
  qed
  then have bit: "bit (fst p - 1) i \<longleftrightarrow> 0 < i \<and> bit (fst p) i" for i
    by (auto simp: bit_simps dest: bit_imp_le_length)
  have "ntz (fst p - 1) = Some (k' - k)"
  proof (rule ntz_lowest)
    have "vbit p (k' - k)"
      using shape k by (simp add: shape_def)
    then show "bit (fst p - 1) (k' - k)"
      using assms(3) k by (simp add: bit bits)
    show "\<not> bit (fst p - 1) j" if "j < k' - k" for j
      using low [of j] that assms(3) by (auto simp: bit bits)
  qed
  then show ?thesis
    using k by (simp add: pntz_def)
qed

lemma shape_shr:
  assumes shape: "shape p k (k' # ks)" and spaced: "spaced (k # k' # ks)" and "k' - k < 32"
  obtains q where "shr p (k' - k) = Some q" "shape q k' ks"
proof -
  have k: "k < k'" "\<And>j. j \<in> set ks \<Longrightarrow> k' < j"
    using shape spaced gaps_less [of k' ks] by (force simp: shape_def)+
  obtain q where q: "shr p (k' - k) = Some q" "\<And>i. vbit q i \<longleftrightarrow> vbit p (i + (k' - k))"
    using shr_bits [of "k' - k" p] k(1) assms(3) by auto
  have "vbit q i \<longleftrightarrow> k' + i \<in> set (k' # ks)" for i
  proof -
    have "vbit p (i + (k' - k)) \<longleftrightarrow> k + (i + (k' - k)) \<in> set (k # k' # ks)"
      using shape by (simp only: shape_def)
    moreover have "k + (i + (k' - k)) = k' + i"
      using k(1) by simp
    ultimately have "vbit q i \<longleftrightarrow> k' + i \<in> set (k # k' # ks)"
      by (simp only: q(2))
    then show ?thesis
      using k(1) by simp
  qed
  then show thesis
    using that [OF q(1)] k(2) by (simp add: shape_def)
qed

lemma shape_merged:
  assumes shape: "shape p k (Suc k # ks)" and spaced: "spaced (k # Suc k # ks)"
  obtains q where "shr p 2 = Some q" "shape (fst q OR 1, snd q) (Suc (Suc k)) ks"
proof -
  have k: "Suc (Suc k) < j" if "j \<in> set ks" for j
    using spaced gaps_less [of "Suc k" ks j] that by simp
  obtain q where q: "shr p 2 = Some q" "\<And>i. vbit q i \<longleftrightarrow> vbit p (i + 2)"
    using shr_bits [of 2 p] by auto
  have "vbit (fst q OR 1, snd q) i \<longleftrightarrow> Suc (Suc k) + i \<in> set (Suc (Suc k) # ks)" for i
    using shape by (auto simp: vbit_or_one q(2) shape_def)
  then show thesis
    using that [OF q(1)] k by (simp add: shape_def)
qed

lemma shape_added:
  assumes shape: "shape p k ks" and "j < k" and "k - j < 32" and "\<And>i. i \<in> set (k # ks) \<Longrightarrow> i < j + 64"
  obtains q where "shl p (k - j) = Some q" "shape (fst q OR 1, snd q) j (k # ks)"
proof -
  obtain q where q: "shl p (k - j) = Some q" "\<And>i. vbit q i \<longleftrightarrow> i < 64 \<and> k - j \<le> i \<and> vbit p (i - (k - j))"
    using shl_bits [of "k - j" p] assms(2,3) by auto
  have "vbit (fst q OR 1, snd q) i \<longleftrightarrow> j + i \<in> set (j # k # ks)" for i
  proof -
    have "vbit p (i - (k - j)) \<longleftrightarrow> j + i \<in> set (k # ks)" if "k - j \<le> i"
    proof -
      have "vbit p (i - (k - j)) \<longleftrightarrow> k + (i - (k - j)) \<in> set (k # ks)"
        using shape by (simp only: shape_def)
      moreover have "k + (i - (k - j)) = j + i"
        using that assms(2) by simp
      ultimately show ?thesis
        by (simp only:)
    qed
    moreover have "k - j \<le> i \<and> i < 64" if "j + i \<in> set (k # ks)"
      using that shape assms(4) [OF that] by (auto simp: shape_def)
    ultimately show ?thesis
      unfolding vbit_or_one q(2) by auto
  qed
  moreover have "\<forall>i\<in>set (k # ks). j < i"
    using shape assms(2) by (auto simp: shape_def)
  ultimately show thesis
    using that [OF q(1)] unfolding shape_def by blast
qed

text \<open>A heap of order \<open>k + 2\<close> is replaced by the heaps of its subtrees, one after the other.\<close>

lemma shape_split:
  assumes shape: "shape p (Suc (Suc k)) ks" and "\<And>i. i \<in> set ks \<Longrightarrow> i < k + 64"
  obtains q r t where "shl p 2 = Some q" "shr (fst q XOR 7, snd q) 1 = Some r" "shape r (Suc k) ks"
    "shl r 1 = Some t" "shape (fst t OR 1, snd t) k (Suc k # ks)"
proof -
  obtain q where q: "shl p 2 = Some q" "\<And>i. vbit q i \<longleftrightarrow> i < 64 \<and> 2 \<le> i \<and> vbit p (i - 2)"
    using shl_bits [of 2 p] by auto
  have seven: "bit (7 :: u32) i \<longleftrightarrow> i < 3" for i
  proof -
    have mask: "(7 :: u32) = mask 3"
      by (simp add: mask_eq_exp_minus_1)
    show ?thesis
      unfolding mask by (auto simp: bit_mask_iff)
  qed
  have xor: "vbit (fst q XOR 7, snd q) i \<longleftrightarrow> vbit q i \<noteq> (i < 3)" for i
    by (simp only: vbit_def bit_xor_iff seven fst_conv snd_conv) auto
  obtain r where r: "shr (fst q XOR 7, snd q) 1 = Some r" "\<And>i. vbit r i \<longleftrightarrow> vbit (fst q XOR 7, snd q) (i + 1)"
    using shr_bits [of 1 "(fst q XOR 7, snd q)"] by auto
  have ks: "Suc (Suc k) < j" if "j \<in> set ks" for j
    using shape that by (simp add: shape_def)
  have "vbit r i \<longleftrightarrow> Suc k + i \<in> set (Suc k # ks)" for i
  proof -
    consider "i = 0" | "i = 1" | j where "i = Suc (Suc j)"
      by (cases i rule: leo.cases) auto
    then show ?thesis
    proof cases
      case 1
      then show ?thesis
        by (simp add: r(2) xor q(2))
    next
      case 2
      then show ?thesis
        using ks shape_bit0 [OF shape] by (force simp: r(2) xor q(2))
    next
      case (3 j)
      then show ?thesis
        using shape assms(2) [of "Suc k + i"] by (auto simp: r(2) xor q(2) shape_def)
    qed
  qed
  moreover have "\<forall>j\<in>set ks. Suc k < j"
    using ks Suc_lessD by blast
  ultimately have shape': "shape r (Suc k) ks"
    unfolding shape_def by blast
  have "i < k + 64" if "i \<in> set (Suc k # ks)" for i
    using that assms(2) by auto
  then obtain t where "shl r (Suc k - k) = Some t" "shape (fst t OR 1, snd t) k (Suc k # ks)"
    by (rule shape_added [OF shape', of k, rotated 2]) simp_all
  then show thesis
    using that [OF q(1) r(1) shape'] by simp
qed

end
