(* ===== verification/Qsort_Mem.thy ===== *)
theory Qsort_Mem
  imports Qsort_Bits
begin

text \<open>
  The array of bytes as a list of elements: rotating elements in chunks of 256 bytes, sifting
  and trinkling do to the elements what the operations on lists do.
\<close>

section \<open>Elements\<close>

definition elems :: "nat \<Rightarrow> 'b list \<Rightarrow> 'b list list" where
  "elems w m = map (\<lambda>i. take w (drop (i * w) m)) [0..<length m div w]"

definition array :: "nat \<Rightarrow> nat \<Rightarrow> 'b list \<Rightarrow> bool" where
  "array w N m \<longleftrightarrow> 0 < w \<and> length m = N * w"

lemma length_elems: "array w N m \<Longrightarrow> length (elems w m) = N"
  by (simp add: elems_def array_def)

lemma elem_fits: "i < N \<Longrightarrow> i * w + w \<le> N * (w :: nat)"
  using mult_le_mono1 [of "Suc i" N w] by simp

lemma nth_elems: "array w N m \<Longrightarrow> i < N \<Longrightarrow> elems w m ! i = take w (drop (i * w) m)"
  by (simp add: elems_def array_def)

lemma load_elem: "array w N m \<Longrightarrow> i < N \<Longrightarrow> load m (i * w) w = Some (elems w m ! i)"
  using elem_fits [of i N w] by (simp add: load_def nth_elems) (simp add: array_def)

lemma elems_eqI:
  assumes "array w N m" and "array w N m'" and "i < N" and "j < N"
    and "\<And>k. k < w \<Longrightarrow> m' ! (i * w + k) = m ! (j * w + k)"
  shows "elems w m' ! i = elems w m ! j"
  using assms elem_fits [of i N w] elem_fits [of j N w]
  by (simp add: nth_elems) (rule nth_equalityI; simp add: array_def)

lemma concat_elems: "array w N m \<Longrightarrow> concat (elems w m) = m"
proof -
  assume a: "array w N m"
  have "concat (map (\<lambda>i. take w (drop (i * w) m)) [0..<n]) = take (n * w) m" for n
  proof (induction n)
    case (Suc n)
    have "take (Suc n * w) m = take (n * w) m @ take w (drop (n * w) m)"
      by (metis add.commute mult_Suc take_add)
    then show ?case
      using Suc by simp
  qed simp
  then show ?thesis
    using a by (simp add: elems_def array_def)
qed

section \<open>Copying\<close>

lemma store_bytes_result:
  assumes "a + length bs \<le> length m"
  shows "\<exists>m'. store_bytes m a bs = Some m' \<and> length m' = length m \<and>
    (\<forall>k<length bs. m' ! (a + k) = bs ! k) \<and> (\<forall>x. x < a \<or> a + length bs \<le> x \<longrightarrow> x < length m \<longrightarrow> m' ! x = m ! x)"
  using assms by (auto simp: store_bytes_def nth_append min_def)

lemma copy_bytes_result:
  assumes "a + l \<le> b \<or> b + l \<le> a" and "a + l \<le> length m" and "b + l \<le> length m"
  obtains m' where "copy_bytes m a b l = Some m'" "length m' = length m"
    "\<And>k. k < l \<Longrightarrow> m' ! (a + k) = m ! (b + k)" "\<And>x. x < a \<or> a + l \<le> x \<Longrightarrow> x < length m \<Longrightarrow> m' ! x = m ! x"
proof -
  let ?bs = "take l (drop b m)"
  have len: "length ?bs = l"
    using assms(3) by simp
  have "a + length ?bs \<le> length m"
    using assms(2) len by simp
  from store_bytes_result [OF this] obtain m' where "store_bytes m a ?bs = Some m'" "length m' = length m"
    "\<forall>k<length ?bs. m' ! (a + k) = ?bs ! k" "\<forall>x. x < a \<or> a + length ?bs \<le> x \<longrightarrow> x < length m \<longrightarrow> m' ! x = m ! x"
    by blast
  then show thesis
    using assms len by (intro that [of m']) (auto simp: copy_bytes_def load_def)
qed

definition apart :: "nat \<Rightarrow> nat \<Rightarrow> nat \<Rightarrow> bool" where
  "apart l a b \<longleftrightarrow> a + l \<le> b \<or> b + l \<le> a"

lemma copy_down_result:
  assumes "ar \<noteq> []" and "sorted_wrt (apart l) ar" and "\<forall>a\<in>set ar. a + l \<le> length m" and "length tmp = l"
  shows "\<exists>m'. copy_down ar tmp l m = Some m' \<and> length m' = length m \<and>
    (\<forall>j<length ar. \<forall>k<l. m' ! (ar ! j + k) = (if Suc j < length ar then m ! (ar ! Suc j + k) else tmp ! k)) \<and>
    (\<forall>x<length m. (\<forall>a\<in>set ar. x < a \<or> a + l \<le> x) \<longrightarrow> m' ! x = m ! x)"
  using assms
proof (induction ar tmp l m rule: copy_down.induct)
  case (2 a tmp l m)
  then obtain m' where "store_bytes m a tmp = Some m'" "length m' = length m" "\<forall>k<l. m' ! (a + k) = tmp ! k"
    "\<forall>x. x < a \<or> a + l \<le> x \<longrightarrow> x < length m \<longrightarrow> m' ! x = m ! x"
    using store_bytes_result [of a tmp m] by auto
  then show ?case
    by auto
next
  case (3 a b ar tmp l m)
  obtain m1 where m1: "copy_bytes m a b l = Some m1" "length m1 = length m"
    "\<And>k. k < l \<Longrightarrow> m1 ! (a + k) = m ! (b + k)" "\<And>x. x < a \<or> a + l \<le> x \<Longrightarrow> x < length m \<Longrightarrow> m1 ! x = m ! x"
    using copy_bytes_result [of a l b m] "3.prems" by (auto simp: apart_def)
  obtain m' where m': "copy_down (b # ar) tmp l m1 = Some m'" "length m' = length m1"
    "\<And>j k. j < length (b # ar) \<Longrightarrow> k < l \<Longrightarrow>
       m' ! ((b # ar) ! j + k) = (if Suc j < length (b # ar) then m1 ! ((b # ar) ! Suc j + k) else tmp ! k)"
    "\<And>x. x < length m1 \<Longrightarrow> (\<forall>a\<in>set (b # ar). x < a \<or> a + l \<le> x) \<Longrightarrow> m' ! x = m1 ! x"
  proof -
    have "b # ar \<noteq> []" "sorted_wrt (apart l) (b # ar)" "\<forall>c\<in>set (b # ar). c + l \<le> length m1"
      using "3.prems"(2,3) m1(2) by simp_all
    from "3.IH" [OF m1(1) this "3.prems"(4)] that show thesis
      by blast
  qed
  have sep: "a + l \<le> c \<or> c + l \<le> a" "c + l \<le> length m" if "c \<in> set (b # ar)" for c
    using "3.prems"(2,3) that by (auto simp: apart_def)
  have same: "m1 ! (c + k) = m ! (c + k)" if "c \<in> set (b # ar)" "k < l" for c k
    using sep [OF that(1)] that(2) by (intro m1(4)) auto
  have later: "m' ! ((b # ar) ! j + k) = (if Suc j < length (b # ar) then m ! ((b # ar) ! Suc j + k) else tmp ! k)"
    if "j < length (b # ar)" "k < l" for j k
    using m'(3) [OF that] same [of "(b # ar) ! Suc j" k] that nth_mem [of "Suc j" "b # ar"] by simp
  have first: "m' ! (a + k) = m ! (b + k)" if "k < l" for k
  proof -
    have "\<forall>c\<in>set (b # ar). a + k < c \<or> c + l \<le> a + k"
      using sep that by fastforce
    then have "m' ! (a + k) = m1 ! (a + k)"
      using that "3.prems"(3) m1(2) by (intro m'(4)) auto
    then show ?thesis
      using m1(3) [OF that] by simp
  qed
  have "m' ! ((a # b # ar) ! j + k) =
      (if Suc j < length (a # b # ar) then m ! ((a # b # ar) ! Suc j + k) else tmp ! k)"
    if "j < length (a # b # ar)" "k < l" for j k
    using first later [of "j - 1" k] that by (cases j) auto
  moreover have "m' ! x = m ! x" if "x < length m" "\<forall>c\<in>set (a # b # ar). x < c \<or> c + l \<le> x" for x
    using m'(4) [of x] m1(2,4) that by auto
  moreover have "copy_down (a # b # ar) tmp l m = Some m'"
    using m1(1) m'(1) by simp
  moreover have "length m' = length m"
    using m'(2) m1(2) by simp
  ultimately show ?case
    by (intro exI [of _ m'] conjI allI impI) blast+
qed simp

section \<open>Rotating elements\<close>

text \<open>The position whose element moves to the \<open>j\<close>-th position of a path.\<close>

definition next_pos :: "nat list \<Rightarrow> nat \<Rightarrow> nat" where
  "next_pos ps j = (if Suc j < length ps then ps ! Suc j else hd ps)"

lemma apart_elements:
  assumes "i \<noteq> j" and "d + l \<le> w"
  shows "apart l (i * w + d) (j * w + d)"
proof -
  have "i * w + w \<le> j * w \<or> j * w + w \<le> i * w"
    using assms(1) elem_fits [of i j w] elem_fits [of j i w] by (meson linorder_neqE_nat)
  then show ?thesis
    using assms(2) by (auto simp: apart_def)
qed

lemma sorted_apart: "distinct ps \<Longrightarrow> d + l \<le> w \<Longrightarrow> sorted_wrt (apart l) (map (\<lambda>i. i * w + d) ps)"
  by (induction ps) (auto intro: apart_elements)

lemma cycle_loop_result:
  assumes "distinct ps" and "ps \<noteq> []" and "\<forall>i\<in>set ps. i < N" and "array w N m" and "n \<le> w"
  shows "\<exists>m'. cycle_loop n (map (\<lambda>i. i * w + (w - n)) ps) m = Some m' \<and> length m' = length m \<and>
    (\<forall>j<length ps. \<forall>k<w. m' ! (ps ! j * w + k) =
       (if w - n \<le> k then m ! (next_pos ps j * w + k) else m ! (ps ! j * w + k))) \<and>
    (\<forall>i<N. i \<notin> set ps \<longrightarrow> (\<forall>k<w. m' ! (i * w + k) = m ! (i * w + k)))"
  using assms
proof (induction n arbitrary: m rule: less_induct)
  case (less n)
  show ?case
  proof (cases "n = 0")
    case True
    then show ?thesis
      using less.prems by (intro exI [of _ m]) (auto simp: cycle_loop.simps)
  next
    case False
    define l where "l = (if 256 < n then 256 else n)"
    define d where "d = w - n"
    have l: "0 < l" "l \<le> n" "d + l \<le> w" "w - (n - l) = d + l"
      using False less.prems(5) by (auto simp: l_def d_def)
    let ?ar = "map (\<lambda>i. i * w + d) ps"
    have len: "length m = N * w"
      using less.prems(4) by (simp add: array_def)
    have inside: "i * w + d + l \<le> length m" if "i < N" for i
      using elem_fits [OF that, of w] l(3) len by simp
    have hd: "hd ?ar = hd ps * w + d" "hd ps < N"
      using less.prems(2,3) by (simp_all add: hd_map)
    let ?tmp = "take l (drop (hd ps * w + d) m)"
    have tmp: "load m (hd ?ar) l = Some ?tmp" "length ?tmp = l" "\<And>k. k < l \<Longrightarrow> ?tmp ! k = m ! (hd ps * w + d + k)"
      using inside [OF hd(2)] by (auto simp: load_def hd)
    have "?ar \<noteq> []" "sorted_wrt (apart l) ?ar" "\<forall>a\<in>set ?ar. a + l \<le> length m"
      using less.prems(1-3) sorted_apart [OF less.prems(1) l(3)] inside by auto
    from copy_down_result [OF this tmp(2)] obtain m1 where
      m1: "copy_down ?ar ?tmp l m = Some m1" "length m1 = length m"
      "\<forall>j<length ?ar. \<forall>k<l. m1 ! (?ar ! j + k) = (if Suc j < length ?ar then m ! (?ar ! Suc j + k) else ?tmp ! k)"
      "\<forall>x<length m. (\<forall>a\<in>set ?ar. x < a \<or> a + l \<le> x) \<longrightarrow> m1 ! x = m ! x"
      by blast
    have moved: "m1 ! (ps ! j * w + (d + k)) = m ! (next_pos ps j * w + (d + k))" if "j < length ps" "k < l" for j k
      using m1(3) [rule_format, of j k] that tmp(3) [OF that(2)] by (auto simp: next_pos_def add.assoc)
    have kept: "m1 ! (i * w + k) = m ! (i * w + k)" if "i < N" "k < w" "i \<notin> set ps \<or> k < d \<or> d + l \<le> k" for i k
    proof -
      have "i * w + k < c * w + d \<or> c * w + d + l \<le> i * w + k" if "c \<in> set ps" for c
      proof (cases "c = i")
        case True
        then show ?thesis
          using \<open>c \<in> set ps\<close> \<open>i \<notin> set ps \<or> k < d \<or> d + l \<le> k\<close> by auto
      next
        case False
        then have "i * w + w \<le> c * w \<or> c * w + w \<le> i * w"
          using elem_fits [of i c w] elem_fits [of c i w] by (meson linorder_neqE_nat)
        then show ?thesis
          using \<open>k < w\<close> l(3) by auto
      qed
      then show ?thesis
        using m1(4) elem_fits [OF that(1), of w] that(2) len by auto
    qed
    have arr: "array w N m1"
      using m1(2) less.prems(4) by (simp add: array_def)
    have shift: "map (\<lambda>a. a + l) ?ar = map (\<lambda>i. i * w + (w - (n - l))) ps"
      by (simp add: l(4) add.assoc)
    obtain m' where m': "cycle_loop (n - l) (map (\<lambda>i. i * w + (w - (n - l))) ps) m1 = Some m'" "length m' = length m1"
      "\<forall>j<length ps. \<forall>k<w. m' ! (ps ! j * w + k) =
         (if d + l \<le> k then m1 ! (next_pos ps j * w + k) else m1 ! (ps ! j * w + k))"
      "\<forall>i<N. i \<notin> set ps \<longrightarrow> (\<forall>k<w. m' ! (i * w + k) = m1 ! (i * w + k))"
    proof -
      have "n - l < n" "n - l \<le> w"
        using l(1,2) less.prems(5) by simp_all
      from less.IH [OF this(1) less.prems(1-3) arr this(2)] that show thesis
        unfolding l(4) by blast
    qed
    have run: "cycle_loop n (map (\<lambda>i. i * w + (w - n)) ps) m = Some m'"
      unfolding d_def [symmetric] using False tmp(1) m1(1) m'(1) [folded shift]
      by (subst cycle_loop.simps) (simp add: Let_def flip: l_def del: map_map)
    have np: "next_pos ps j < N" if "j < length ps" for j
      using that less.prems(2,3) by (auto simp: next_pos_def)
    have "m' ! (ps ! j * w + k) = (if d \<le> k then m ! (next_pos ps j * w + k) else m ! (ps ! j * w + k))"
      if jk: "j < length ps" "k < w" for j k
    proof -
      have pj: "ps ! j < N"
        using jk(1) less.prems(3) by simp
      consider "k < d" | "d \<le> k" "k < d + l" | "d + l \<le> k"
        by linarith
      then show ?thesis
      proof cases
        case 1
        then show ?thesis
          using m'(3) jk kept [OF pj jk(2)] by simp
      next
        case 2
        then show ?thesis
          using m'(3) jk moved [OF jk(1), of "k - d"] by simp
      next
        case 3
        then show ?thesis
          using m'(3) jk kept [OF np [OF jk(1)] jk(2)] by simp
      qed
    qed
    moreover have "m' ! (i * w + k) = m ! (i * w + k)" if "i < N" "i \<notin> set ps" "k < w" for i k
      using m'(4) that kept [of i k] by simp
    moreover have "length m' = length m"
      using m'(2) m1(2) by simp
    ultimately show ?thesis
      using run unfolding d_def by (intro exI [of _ m'] conjI allI impI) blast+
  qed
qed

text \<open>The same on lists of elements.\<close>

fun shift_path :: "nat list \<Rightarrow> 'e \<Rightarrow> 'e list \<Rightarrow> 'e list" where
  "shift_path [] x a = a"
| "shift_path [p] x a = a[p := x]"
| "shift_path (p # q # ps) x a = shift_path (q # ps) x (a[p := a ! q])"

lemma length_shift_path [simp]: "length (shift_path ps x a) = length a"
  by (induction ps x a rule: shift_path.induct) auto

lemma shift_path_nth:
  assumes "distinct ps" and "\<forall>i\<in>set ps. i < length a"
  shows "\<forall>j<length ps. shift_path ps x a ! (ps ! j) = (if Suc j < length ps then a ! (ps ! Suc j) else x)"
    "\<forall>i. i \<notin> set ps \<longrightarrow> shift_path ps x a ! i = a ! i"
  using assms
proof (induction ps x a rule: shift_path.induct)
  case (3 p q ps x a)
  {
    case 1
    have out: "shift_path (q # ps) x (a[p := a ! q]) ! p = a ! q"
      using "3.IH"(2) 1 by simp
    have "shift_path (q # ps) x (a[p := a ! q]) ! ((q # ps) ! j) =
        (if Suc j < length (q # ps) then a ! ((q # ps) ! Suc j) else x)" if "j < length (q # ps)" for j
    proof -
      have "(q # ps) ! Suc j \<noteq> p" if "Suc j < length (q # ps)"
        using 1(1) nth_mem [OF that] by auto
      then show ?thesis
        using "3.IH"(1) 1 that by auto
    qed
    note rest = this
    show ?case
    proof (intro allI impI)
      fix j
      assume "j < length (p # q # ps)"
      then show "shift_path (p # q # ps) x a ! ((p # q # ps) ! j) =
          (if Suc j < length (p # q # ps) then a ! ((p # q # ps) ! Suc j) else x)"
        using out rest [of "j - 1"] by (cases j) auto
    qed
  next
    case 2
    then show ?case
      using "3.IH"(2) by auto
  }
qed auto

lemma cycle_result:
  assumes "distinct ps" and "ps \<noteq> []" and "\<forall>i\<in>set ps. i < N" and "array w N m" and "length ps < AR_SIZE"
  obtains m' where "cycle w (map (\<lambda>i. i * w) ps) m = Some m'" "array w N m'"
    "elems w m' = shift_path ps (elems w m ! hd ps) (elems w m)"
proof (cases "length ps < 2")
  case True
  then obtain p where "ps = [p]"
    using assms(2) by (cases ps; cases "tl ps") auto
  then show thesis
    using assms(4) by (intro that [of m]) (auto simp: cycle_def)
next
  case False
  obtain m' where m': "cycle_loop w (map (\<lambda>i. i * w + (w - w)) ps) m = Some m'" "length m' = length m"
    "\<forall>j<length ps. \<forall>k<w. m' ! (ps ! j * w + k) = m ! (next_pos ps j * w + k)"
    "\<forall>i<N. i \<notin> set ps \<longrightarrow> (\<forall>k<w. m' ! (i * w + k) = m ! (i * w + k))"
    using cycle_loop_result [OF assms(1-4) order_refl] by auto
  have arr: "array w N m'"
    using m'(2) assms(4) by (simp add: array_def)
  have "elems w m' = shift_path ps (elems w m ! hd ps) (elems w m)"
  proof (rule nth_equalityI)
    show "length (elems w m') = length (shift_path ps (elems w m ! hd ps) (elems w m))"
      using arr assms(4) by (simp add: length_elems)
    fix i
    assume "i < length (elems w m')"
    then have i: "i < N"
      using arr by (simp add: length_elems)
    show "elems w m' ! i = shift_path ps (elems w m ! hd ps) (elems w m) ! i"
    proof (cases "i \<in> set ps")
      case True
      then obtain j where j: "j < length ps" "i = ps ! j"
        by (auto simp: in_set_conv_nth)
      have np: "next_pos ps j < N"
        using j(1) assms(2,3) by (auto simp: next_pos_def)
      have "elems w m' ! i = elems w m ! next_pos ps j"
        using m'(3) j i by (intro elems_eqI [OF assms(4) arr _ np]) auto
      then show ?thesis
        using shift_path_nth(1) [OF assms(1), of "elems w m" "elems w m ! hd ps"] j assms(3,4)
        by (simp add: length_elems next_pos_def)
    next
      case False
      then have "elems w m' ! i = elems w m ! i"
        using m'(4) i by (intro elems_eqI [OF assms(4) arr]) auto
      then show ?thesis
        using shift_path_nth(2) [OF assms(1), of "elems w m" "elems w m ! hd ps"] False assms(3,4)
        by (simp add: length_elems)
    qed
  qed
  then show thesis
    using False m'(1) arr assms(5) by (intro that [of m']) (simp_all add: cycle_def)
qed

end
