(* ===== verification/Qsort_Heaps.thy ===== *)
theory Qsort_Heaps
  imports Qsort_Mem Qsort_Bits
begin

text \<open>
  \<open>sift\<close> and \<open>trinkle\<close> on the array of bytes do to its elements what the functions on lists
  do: the entries of \<open>ar\<close> are the path that the element takes.
\<close>

section \<open>Sifting\<close>

fun sift_path :: "('e \<Rightarrow> 'e \<Rightarrow> int) \<Rightarrow> nat \<Rightarrow> nat \<Rightarrow> 'e \<Rightarrow> 'e list \<Rightarrow> nat list" where
  "sift_path cmp (Suc (Suc k)) r x a =
     (if cmp x (a ! (r - 1 - leo k)) \<ge> 0 \<and> cmp x (a ! (r - 1)) \<ge> 0 then []
      else if cmp (a ! (r - 1 - leo k)) (a ! (r - 1)) \<ge> 0
           then (r - 1 - leo k) # sift_path cmp (Suc k) (r - 1 - leo k) x a
           else (r - 1) # sift_path cmp k (r - 1) x a)"
| "sift_path cmp k r x a = []"

lemma sift_path_less:
  assumes "leo k \<le> r + 1"
  shows "\<forall>i\<in>set (sift_path cmp k r x a). i < r"
  using assms
proof (induction k arbitrary: r rule: leo.induct)
  case (3 k)
  note bounds = child_bounds [OF "3.prems"]
  have "\<forall>i\<in>set (sift_path cmp (Suc k) (r - 1 - leo k) x a). i < r - 1 - leo k"
    "\<forall>i\<in>set (sift_path cmp k (r - 1) x a). i < r - 1"
    using "3.IH" bounds by blast+
  then have "\<forall>i\<in>set (sift_path cmp (Suc k) (r - 1 - leo k) x a). i < r"
    "\<forall>i\<in>set (sift_path cmp k (r - 1) x a). i < r"
    using bounds(1,2) by (meson less_trans)+
  then show ?case
    using bounds(1,2) by simp
qed simp_all

lemma sift_path_distinct:
  assumes "leo k \<le> r + 1"
  shows "distinct (r # sift_path cmp k r x a)"
  using assms
proof (induction k arbitrary: r rule: leo.induct)
  case (3 k)
  note bounds = child_bounds [OF "3.prems"]
  have "distinct ((r - 1 - leo k) # sift_path cmp (Suc k) (r - 1 - leo k) x a)"
    "distinct ((r - 1) # sift_path cmp k (r - 1) x a)"
    using "3.IH" bounds by blast+
  then have "distinct (sift_path cmp (Suc (Suc k)) r x a)"
    by simp
  moreover have "r \<notin> set (sift_path cmp (Suc (Suc k)) r x a)"
    using sift_path_less [OF "3.prems", of cmp x a] by blast
  ultimately show ?case
    unfolding distinct.simps by blast
qed simp_all

lemma sift_path_length: "length (sift_path cmp k r x a) \<le> k"
  by (induction cmp k r x a rule: sift_path.induct) auto

lemma sift_path_cong:
  assumes "leo k \<le> r + 1" and "\<And>i. i < r \<Longrightarrow> b ! i = a ! i"
  shows "sift_path cmp k r x b = sift_path cmp k r x a"
  using assms
proof (induction k arbitrary: r rule: leo.induct)
  case (3 k)
  note bounds = child_bounds [OF "3.prems"(1)]
  have "b ! (r - 1) = a ! (r - 1)" "b ! (r - 1 - leo k) = a ! (r - 1 - leo k)"
    using "3.prems"(2) bounds(1,2) by (meson less_trans)+
  moreover have "sift_path cmp (Suc k) (r - 1 - leo k) x b = sift_path cmp (Suc k) (r - 1 - leo k) x a"
    using "3.prems"(2) bounds by (intro "3.IH"(1)) auto
  moreover have "sift_path cmp k (r - 1) x b = sift_path cmp k (r - 1) x a"
    using "3.prems"(2) bounds by (intro "3.IH"(2)) auto
  ultimately show ?case
    by (simp only: sift_path.simps)
qed simp_all

lemma shift_sift_path:
  assumes "leo k \<le> r + 1" and "r < length a"
  shows "shift_path (r # sift_path cmp k r x a) x a = sift_e cmp k r x a"
  using assms
proof (induction k arbitrary: r a rule: leo.induct)
  case (3 k)
  define l u where "l = r - 1 - leo k" and "u = r - 1"
  have bounds: "u < r" "l < u" "leo k \<le> u + 1" "leo (Suc k) \<le> l + 1"
    using child_bounds [OF "3.prems"(1)] by (simp_all add: l_def u_def)
  have cong: "sift_path cmp (Suc k) l x (a[r := v]) = sift_path cmp (Suc k) l x a"
    "sift_path cmp k u x (a[r := v]) = sift_path cmp k u x a" for v
    by (rule sift_path_cong [OF bounds(4)], use bounds in simp)
      (rule sift_path_cong [OF bounds(3)], use bounds in simp)
  have "shift_path (l # sift_path cmp (Suc k) l x a) x (a[r := a ! l]) = sift_e cmp (Suc k) l x (a[r := a ! l])"
    "shift_path (u # sift_path cmp k u x a) x (a[r := a ! u]) = sift_e cmp k u x (a[r := a ! u])"
    using "3.IH"(1) [of l "a[r := a ! l]"] "3.IH"(2) [of u "a[r := a ! u]"] bounds "3.prems"(2) by (simp_all add: cong)
  then show ?case
    unfolding sift_path.simps sift_e.simps l_def [symmetric] unfolding u_def [symmetric] by simp
qed simp_all

lemma sift_e_upd:
  assumes "leo k \<le> r + 1"
  shows "sift_e cmp k r x (a[r := y]) = sift_e cmp k r x a"
proof (cases k rule: leo.cases)
  case (3 j)
  show ?thesis
    using child_bounds [OF assms [unfolded 3]] by (simp add: 3)
qed simp_all

definition lp_ok :: "nat \<Rightarrow> nat \<Rightarrow> nat list \<Rightarrow> bool" where
  "lp_ok w K lp \<longleftrightarrow> K < length lp \<and> (\<forall>i\<le>K. lp ! i = leo i * w)"

lemma lp_at_ok: "lp_ok w K lp \<Longrightarrow> k \<le> K \<Longrightarrow> lp_at lp k = Some (leo k * w)"
  by (simp add: lp_ok_def lp_at_def)

lemma sub_ptr_elem: "j \<le> i \<Longrightarrow> sub_ptr (i * w) (j * w) = Some ((i - j) * w)"
  by (simp add: sub_ptr_def diff_mult_distrib)

lemma child_ptrs_elem:
  assumes "lp_ok w K lp" and "leo (Suc (Suc k)) \<le> r + 1" and "k \<le> K"
  shows "child_ptrs w lp (r * w) (Suc (Suc k)) = Some ((r - 1) * w, (r - 1 - leo k) * w)"
proof -
  note bounds = child_bounds [OF assms(2)]
  have "sub_ptr (r * w) w = Some ((r - 1) * w)"
    using sub_ptr_elem [of 1 r w] bounds by simp
  moreover have "sub_ptr ((r - 1) * w) (leo k * w) = Some ((r - 1 - leo k) * w)"
    using bounds by (intro sub_ptr_elem) simp
  ultimately show ?thesis
    using lp_at_ok [OF assms(1,3)] by (simp add: child_ptrs_def)
qed

lemma sift_loop_path:
  assumes "array w N m" and "lp_ok w K lp" and "load m (hd ar) w = Some x" and "ar \<noteq> []"
    and "leo k \<le> r + 1" and "r < N" and "k \<le> K" and "length ar + k \<le> AR_SIZE"
  shows "sift_loop cmp w lp m ar (r * w) k = Some (ar @ map (\<lambda>i. i * w) (sift_path cmp k r x (elems w m)))"
  using assms(3-8)
proof (induction k arbitrary: ar r rule: leo.induct)
  case (3 k)
  note bounds = child_bounds [OF "3.prems"(3)]
  let ?l = "r - 1 - leo k" and ?a = "elems w m"
  have loads: "load m (?l * w) w = Some (?a ! ?l)" "load m ((r - 1) * w) w = Some (?a ! (r - 1))"
    using load_elem [OF assms(1)] bounds "3.prems"(4) by simp_all
  have kids: "child_ptrs w lp (r * w) (Suc (Suc k)) = Some ((r - 1) * w, ?l * w)"
    using "3.prems"(5) by (intro child_ptrs_elem [OF assms(2) "3.prems"(3)]) simp
  have left: "sift_loop cmp w lp m (ar @ [?l * w]) (?l * w) (Suc k) =
      Some ((ar @ [?l * w]) @ map (\<lambda>i. i * w) (sift_path cmp (Suc k) ?l x ?a))"
    using "3.prems" bounds by (intro "3.IH"(1)) auto
  have right: "sift_loop cmp w lp m (ar @ [(r - 1) * w]) ((r - 1) * w) k =
      Some ((ar @ [(r - 1) * w]) @ map (\<lambda>i. i * w) (sift_path cmp k (r - 1) x ?a))"
    using "3.prems" bounds by (intro "3.IH"(2)) auto
  show ?case
    using left right loads kids "3.prems"(1,6)
    by (subst sift_loop.simps) (simp add: AR_SIZE_def)
qed (simp_all add: sift_loop.simps)

lemma sift_result:
  assumes "array w N m" and "lp_ok w K lp" and "leo k \<le> r + 1" and "r < N" and "k \<le> K" and "k + 1 < AR_SIZE"
  obtains m' where "sift cmp w lp (r * w) k m = Some m'" "array w N m'"
    "elems w m' = sift_e cmp k r (elems w m ! r) (elems w m)"
proof -
  let ?a = "elems w m"
  let ?ps = "r # sift_path cmp k r (?a ! r) ?a"
  have loop: "sift_loop cmp w lp m [r * w] (r * w) k = Some (map (\<lambda>i. i * w) ?ps)"
    using sift_loop_path [OF assms(1,2), of "[r * w]" "?a ! r" k r cmp] load_elem [OF assms(1,4)] assms(3-6) by simp
  have dist: "distinct ?ps"
    by (rule sift_path_distinct [OF assms(3)])
  have less: "\<forall>i\<in>set ?ps. i < N"
    using sift_path_less [OF assms(3), of cmp "?a ! r" ?a] assms(4) by auto
  have size: "length ?ps < AR_SIZE"
    using sift_path_length [of cmp k r "?a ! r" ?a] assms(6) by simp
  obtain m' where "cycle w (map (\<lambda>i. i * w) ?ps) m = Some m'" "array w N m'"
    "elems w m' = shift_path ?ps (?a ! hd ?ps) ?a"
    by (rule cycle_result [OF dist _ less assms(1) size]) simp
  then show thesis
    using loop shift_sift_path [OF assms(3), of ?a cmp "?a ! r"] assms(1,4)
    by (intro that [of m']) (simp_all add: sift_def length_elems del: shift_path.simps)
qed

section \<open>Trinkling\<close>

text \<open>The roots that the element passes, then the order and the end of the heap it reaches.\<close>

fun trinkle_path ::
  "('e \<Rightarrow> 'e \<Rightarrow> int) \<Rightarrow> nat list \<Rightarrow> nat \<Rightarrow> 'e \<Rightarrow> bool \<Rightarrow> 'e list \<Rightarrow> nat list \<times> nat \<times> nat \<times> bool" where
  "trinkle_path cmp (k # k' # ks) n x trusty a =
     (if cmp (a ! (n - leo k - 1)) x \<le> 0 \<or> trinkle_stop cmp k (n - 1) (a ! (n - leo k - 1)) trusty a
      then ([], k, n, trusty)
      else case trinkle_path cmp (k' # ks) (n - leo k) x False a of (ps, t) \<Rightarrow> ((n - leo k - 1) # ps, t))"
| "trinkle_path cmp [k] n x trusty a = ([], k, n, trusty)"
| "trinkle_path cmp [] n x trusty a = ([], 0, n, trusty)"

fun sizes :: "nat list \<Rightarrow> nat \<Rightarrow> bool" where
  "sizes [] n \<longleftrightarrow> n = 0"
| "sizes (k # ks) n \<longleftrightarrow> leo k \<le> n \<and> sizes ks (n - leo k)"

lemma forest_sizes: "forest cmp ks n a \<Longrightarrow> sizes ks n"
  by (induction ks arbitrary: n) auto

lemma trinkle_path_props:
  assumes "trinkle_path cmp (k # ks) n x trusty a = (ps, k', n', t)" and "sizes (k # ks) n"
  shows "\<forall>i\<in>set ps. i < n - 1" "distinct ((n - 1) # ps)" "last ((n - 1) # ps) = n' - 1" "leo k' \<le> n'" "n' \<le> n"
    "length ps \<le> length ks" "t \<Longrightarrow> ps = [] \<and> trusty \<and> n' = n" "k' \<in> set (k # ks)"
proof -
  have "(\<forall>i\<in>set ps. i < n - 1) \<and> distinct ((n - 1) # ps) \<and> last ((n - 1) # ps) = n' - 1 \<and> leo k' \<le> n' \<and> n' \<le> n \<and>
    length ps \<le> length ks \<and> (t \<longrightarrow> ps = [] \<and> trusty \<and> n' = n) \<and> k' \<in> set (k # ks)"
    using assms
  proof (induction ks arbitrary: k n trusty ps)
    case (Cons k1 ks)
    have less: "n - leo k - 1 < n - 1" "0 < n - leo k"
      using Cons.prems(2) leo_pos [of k] leo_pos [of k1] by auto
    show ?case
    proof (cases "ps = []")
      case True
      then show ?thesis
        using Cons.prems by (auto split: if_splits prod.splits)
    next
      case False
      then obtain qs where qs: "trinkle_path cmp (k1 # ks) (n - leo k) x False a = (qs, k', n', t)"
        "ps = (n - leo k - 1) # qs"
        using Cons.prems(1) by (auto split: if_splits prod.splits)
      have "(\<forall>i\<in>set qs. i < n - leo k - 1) \<and> distinct ((n - leo k - 1) # qs) \<and>
          last ((n - leo k - 1) # qs) = n' - 1 \<and> leo k' \<le> n' \<and> n' \<le> n - leo k \<and>
          length qs \<le> length ks \<and> (t \<longrightarrow> qs = [] \<and> False \<and> n' = n - leo k) \<and> k' \<in> set (k1 # ks)"
        using Cons.IH [OF qs(1)] Cons.prems(2) by simp
      then show ?thesis
        using less qs(2) by auto
    qed
  qed auto
  then show "\<forall>i\<in>set ps. i < n - 1" "distinct ((n - 1) # ps)" "last ((n - 1) # ps) = n' - 1" "leo k' \<le> n'" "n' \<le> n"
    "length ps \<le> length ks" "t \<Longrightarrow> ps = [] \<and> trusty \<and> n' = n" "k' \<in> set (k # ks)"
    by blast+
qed

lemma trinkle_path_cong:
  assumes "\<And>i. i < n \<Longrightarrow> b ! i = a ! i" and "sizes (k # ks) n"
  shows "trinkle_path cmp (k # ks) n x trusty b = trinkle_path cmp (k # ks) n x trusty a"
  using assms
proof (induction ks arbitrary: k n trusty)
  case (Cons k1 ks)
  have pos: "0 < leo k" "leo k \<le> n" "0 < n - leo k"
    using Cons.prems(2) leo_pos [of k] leo_pos [of k1] by auto
  have "b ! (n - leo k - 1) = a ! (n - leo k - 1)" "b ! (n - 1 - 1) = a ! (n - 1 - 1)"
    "b ! (n - 1 - 1 - leo (k - 2)) = a ! (n - 1 - 1 - leo (k - 2))"
    using pos by (auto intro!: Cons.prems(1))
  moreover have "trinkle_path cmp (k1 # ks) (n - leo k) x False b = trinkle_path cmp (k1 # ks) (n - leo k) x False a"
    using Cons.prems by (intro Cons.IH) auto
  ultimately show ?case
    unfolding trinkle_path.simps trinkle_stop_def by (simp only:)
qed simp

lemma trinkle_e_path:
  assumes "trinkle_path cmp (k # ks) n x trusty a = (ps, k', n', t)" and "sizes (k # ks) n" and "n \<le> length a"
  shows "trinkle_e cmp (k # ks) n x trusty a =
    (if t then a[n - 1 := x] else sift_e cmp k' (n' - 1) x (shift_path ((n - 1) # ps) x a))"
  using assms
proof (induction ks arbitrary: k n trusty ps a)
  case Nil
  then show ?case
    using sift_e_upd [of k "n - 1" cmp x a x] leo_pos [of k] by (auto simp: trinkle_end_def)
next
  case (Cons k1 ks)
  let ?s = "a ! (n - leo k - 1)"
  have pos: "0 < leo k" "leo k \<le> n" "0 < n - leo k" "0 < n"
    using Cons.prems(2) leo_pos [of k] leo_pos [of k1] by auto
  show ?case
  proof (cases "cmp ?s x \<le> 0 \<or> trinkle_stop cmp k (n - 1) ?s trusty a")
    case True
    then have "ps = []" "k' = k" "n' = n" "t = trusty"
      using Cons.prems(1) by (auto split: if_splits)
    then show ?thesis
      using True sift_e_upd [of k "n - 1" cmp x a x] pos by (simp add: Let_def trinkle_end_def)
  next
    case False
    then obtain qs where qs: "trinkle_path cmp (k1 # ks) (n - leo k) x False a = (qs, k', n', t)"
      "ps = (n - leo k - 1) # qs"
      using Cons.prems(1) by (auto split: if_splits prod.splits)
    have sz: "sizes (k1 # ks) (n - leo k)"
      using Cons.prems(2) by simp
    have "\<not> t"
      using trinkle_path_props(7) [OF qs(1) sz] by blast
    have "trinkle_path cmp (k1 # ks) (n - leo k) x False (a[n - 1 := ?s]) = (qs, k', n', t)"
      unfolding qs(1) [symmetric] using pos by (intro trinkle_path_cong [OF _ sz]) auto
    from Cons.IH [OF this sz] have "trinkle_e cmp (k1 # ks) (n - leo k) x False (a[n - 1 := ?s]) =
        sift_e cmp k' (n' - 1) x (shift_path ((n - leo k - 1) # qs) x (a[n - 1 := ?s]))"
      using Cons.prems(3) \<open>\<not> t\<close> by simp
    then show ?thesis
      using False \<open>\<not> t\<close> qs(2) by (simp add: Let_def)
  qed
qed


text \<open>The gaps between orders up to 32 are below the width of a word.\<close>

lemma gap_below_word: "spaced (k # k' # ks) \<Longrightarrow> k' \<le> 32 \<Longrightarrow> k' - k < 32"
  by auto

lemma trinkle_loop_path:
  assumes "array w N m" and "lp_ok w K lp" and "load m (hd ar) w = Some x" and "ar \<noteq> []"
    and "shape p k ks" and "spaced (k # ks)" and "sizes (k # ks) n" and "n \<le> N"
    and "\<forall>j\<in>set (k # ks). j \<le> K" and "\<forall>j\<in>set ks. j \<le> 32" and "length ar + length ks \<le> AR_SIZE"
  shows "trinkle_loop cmp w lp m ar ((n - 1) * w) p k trusty =
    (case trinkle_path cmp (k # ks) n x trusty (elems w m) of
       (ps, k', n', t) \<Rightarrow> Some ((n' - 1) * w, k', ar @ map (\<lambda>i. i * w) ps, t))"
  using assms(3-11)
proof (induction ks arbitrary: k n ar p trusty)
  case Nil
  then show ?case
    by (subst trinkle_loop.simps) (simp add: shape_single)
next
  case (Cons k1 ks)
  let ?a = "elems w m"
  define r s where "r = n - 1" and "s = n - leo k - 1"
  have pos: "0 < leo k" "leo k \<le> n" "0 < n - leo k" "0 < n"
    using Cons.prems(5) leo_pos [of k] leo_pos [of k1] by auto
  have le: "leo k \<le> r" "s = r - leo k" "r < N" "s < N"
    using pos Cons.prems(6) by (auto simp: r_def s_def)
  have p: "p \<noteq> (1, 0)"
    using shape_single [OF Cons.prems(3)] by simp
  have stepson: "Option.bind (lp_at lp k) (sub_ptr (r * w)) = Some (s * w)"
    using lp_at_ok [OF assms(2), of k] sub_ptr_elem [OF le(1)] Cons.prems(7) by (simp add: le(2))
  have loads: "load m (s * w) w = Some (?a ! s)"
    using load_elem [OF assms(1)] le by simp
  have test: "(if \<not> trusty \<and> k > 1
      then do {
        (rt, lf) \<leftarrow> child_ptrs w lp (r * w) k;
        v \<leftarrow> load m rt w;
        u \<leftarrow> load m lf w;
        Some (cmp v (?a ! s) \<ge> 0 \<or> cmp u (?a ! s) \<ge> 0) }
      else Some False) = Some (trinkle_stop cmp k r (?a ! s) trusty ?a)"
  proof (cases "\<not> trusty \<and> 1 < k")
    case True
    then obtain j where k: "k = Suc (Suc j)"
      by (cases k rule: leo.cases) auto
    have j: "leo (Suc (Suc j)) \<le> r + 1" "j \<le> K"
      using pos Cons.prems(7) by (auto simp: r_def k)
    have "r - 1 < N" "r - 1 - leo j < N"
      using le(3) by auto
    then show ?thesis
      using True child_ptrs_elem [OF assms(2) j] load_elem [OF assms(1)]
      by (simp add: k trinkle_stop_def)
  qed (auto simp: trinkle_stop_def)
  have gap: "k1 - k < 32"
    using Cons.prems(4,8) by (intro gap_below_word) auto
  note ntz = shape_pntz [OF Cons.prems(3,4) gap]
  obtain q where q: "shr p (k1 - k) = Some q" "shape q k1 ks"
    by (rule shape_shr [OF Cons.prems(3,4) gap])
  have k1: "k + (k1 - k) = k1"
    using Cons.prems(4) by auto
  have rec: "trinkle_loop cmp w lp m (ar @ [s * w]) (s * w) q k1 False =
      (case trinkle_path cmp (k1 # ks) (n - leo k) x False ?a of
        (ps, k', n', t) \<Rightarrow> Some ((n' - 1) * w, k', (ar @ [s * w]) @ map (\<lambda>i. i * w) ps, t))"
    unfolding s_def using Cons.prems spaced_tl [OF Cons.prems(4)] q(2) by (intro Cons.IH) auto
  have room: "\<not> AR_SIZE \<le> length ar"
    using Cons.prems(9) by simp
  have r: "n - Suc 0 = r"
    by (simp add: r_def)
  have "trinkle_loop cmp w lp m ar (r * w) p k trusty =
      (if cmp (?a ! s) x \<le> 0 \<or> trinkle_stop cmp k r (?a ! s) trusty ?a then Some (r * w, k, ar, trusty)
       else trinkle_loop cmp w lp m (ar @ [s * w]) (s * w) q k1 False)"
    using Cons.prems(1)
    by (subst trinkle_loop.simps, unfold stepson option.case loads prod.case, unfold if_not_P [OF p],
        simp only: option.case prod.case test) (simp add: room ntz q(1) k1 split: bool.split)
  then show ?case
    unfolding trinkle_path.simps r_def [symmetric] s_def [symmetric] rec
    by (simp add: r split: prod.split)
qed

lemma trinkle_result:
  assumes "array w N m" and "lp_ok w K lp" and "shape p k ks" and "spaced (k # ks)" and "sizes (k # ks) n" and "n \<le> N"
    and "\<forall>j\<in>set (k # ks). j \<le> K" and "\<forall>j\<in>set ks. j \<le> 32" and "length ks + 1 < AR_SIZE" and "K + 1 < AR_SIZE"
  obtains m' where "trinkle cmp w lp ((n - 1) * w) p k trusty m = Some m'" "array w N m'"
    "elems w m' = trinkle_e cmp (k # ks) n (elems w m ! (n - 1)) trusty (elems w m)"
proof -
  let ?a = "elems w m"
  obtain ps k' n' t where path: "trinkle_path cmp (k # ks) n (?a ! (n - 1)) trusty ?a = (ps, k', n', t)"
    by (metis prod_cases4)
  note props = trinkle_path_props [OF path assms(5)]
  have n: "n - 1 < N" "n' - 1 < N" "leo k' \<le> n' - 1 + 1" "0 < n'"
    using props(4,5) assms(6) leo_pos [of k'] by auto
  have loop: "trinkle_loop cmp w lp m [(n - 1) * w] ((n - 1) * w) p k trusty =
      Some ((n' - 1) * w, k', map (\<lambda>i. i * w) ((n - 1) # ps), t)"
    using trinkle_loop_path [OF assms(1,2) _ _ assms(3-8), of "[(n - 1) * w]" "?a ! (n - 1)" cmp trusty]
      load_elem [OF assms(1) n(1)] assms(9) unfolding path by simp
  have element: "trinkle_e cmp (k # ks) n (?a ! (n - 1)) trusty ?a =
      (if t then ?a[n - 1 := ?a ! (n - 1)] else sift_e cmp k' (n' - 1) (?a ! (n - 1)) (shift_path ((n - 1) # ps) (?a ! (n - 1)) ?a))"
    using trinkle_e_path [OF path assms(5)] assms(1,6) by (simp add: length_elems)
  show thesis
  proof (cases t)
    case True
    then show thesis
      using loop element assms(1) by (intro that [of m]) (simp_all add: trinkle_def)
  next
    case False
    have less: "\<forall>i\<in>set ((n - 1) # ps). i < N"
      using props(1) n(1) by auto
    have size: "length ((n - 1) # ps) < AR_SIZE"
      using props(6) assms(9) by simp
    obtain m1 where m1: "cycle w (map (\<lambda>i. i * w) ((n - 1) # ps)) m = Some m1" "array w N m1"
      "elems w m1 = shift_path ((n - 1) # ps) (?a ! hd ((n - 1) # ps)) ?a"
      by (rule cycle_result [OF props(2) _ less assms(1) size]) simp
    have "elems w m1 ! (n' - 1) = ?a ! (n - 1)"
    proof -
      have "shift_path ((n - 1) # ps) (?a ! (n - 1)) ?a ! (((n - 1) # ps) ! length ps) = ?a ! (n - 1)"
        using shift_path_nth(1) [OF props(2), of ?a "?a ! (n - 1)"] less assms(1) by (simp add: length_elems)
      moreover have "((n - 1) # ps) ! length ps = n' - 1"
        using props(3) last_conv_nth [of "(n - 1) # ps"] by simp
      ultimately show ?thesis
        by (simp add: m1(3))
    qed
    moreover have "k' \<le> K"
      using props(8) assms(7) by blast
    moreover obtain m2 where "sift cmp w lp ((n' - 1) * w) k' m1 = Some m2" "array w N m2"
      "elems w m2 = sift_e cmp k' (n' - 1) (elems w m1 ! (n' - 1)) (elems w m1)"
      by (rule sift_result [OF m1(2) assms(2) n(3,2) \<open>k' \<le> K\<close>]) (use \<open>k' \<le> K\<close> assms(10) in simp)
    ultimately show thesis
      using loop element False m1(1,3) by (intro that [of m2]) (simp_all add: trinkle_def)
  qed
qed

section \<open>The bound on the number of elements\<close>

text \<open>
  The Leonardo number of order 33 bounds the number of elements for which the gaps between
  the orders of neighbouring heaps are below the width of a word.
\<close>

fun leo_iter :: "nat \<Rightarrow> nat \<Rightarrow> nat \<Rightarrow> nat" where
  "leo_iter 0 a b = a"
| "leo_iter (Suc n) a b = leo_iter n b (a + b + 1)"

lemma leo_iter: "leo_iter n (leo i) (leo (Suc i)) = leo (i + n)"
  by (induction n arbitrary: i) (simp, metis add.commute add_Suc_shift leo.simps(3) leo_iter.simps(2))

lemma leo_iter_numeral: "leo_iter (numeral v) a b = leo_iter (pred_numeral v) b (a + b + 1)" "leo_iter 1 a b = b"
  by (simp_all add: numeral_eq_Suc)

lemma leo_33: "leo 33 = 11405773"
proof -
  have "leo_iter 33 1 1 = 11405773"
    by (simp add: leo_iter_numeral del: One_nat_def)
  then show ?thesis
    using leo_iter [of 33 0, unfolded leo.simps(1,2) add_0] by (simp only:)
qed

lemma leo_less: "i < j \<Longrightarrow> 1 \<le> i \<Longrightarrow> leo i < leo j"
proof -
  assume "i < j" "1 \<le> i"
  then obtain h where "i = Suc h" "leo (Suc (Suc h)) \<le> leo j"
    by (metis Suc_le_eq leo_mono not0_implies_Suc not_one_le_zero)
  then show "leo i < leo j"
    by simp
qed

lemma order_le: "leo j \<le> leo K \<Longrightarrow> 1 \<le> K \<Longrightarrow> j \<le> K"
  using leo_less [of K j] by (meson not_le)

lemma sizes_mem: "sizes ks n \<Longrightarrow> j \<in> set ks \<Longrightarrow> leo j \<le> n"
  by (induction ks arbitrary: n) force+

lemma spaced_distinct: "spaced ks \<Longrightarrow> distinct ks"
proof (induction ks)
  case (Cons k ks)
  have "k \<notin> set ks"
    using spaced_less [OF Cons.prems] by blast
  moreover have "distinct ks"
    using Cons spaced_tl by (cases ks) auto
  ultimately show ?case
    by simp
qed simp

lemma order_bounds:
  assumes "sizes (k # ks) n" and "spaced (k # ks)" and "n \<le> leo 33" and "n \<le> leo K" and "1 \<le> K"
  shows "\<forall>j\<in>set (k # ks). j \<le> K" "\<forall>j\<in>set ks. j \<le> 32" "length ks + 1 < AR_SIZE" "k \<le> 33"
proof -
  show "\<forall>j\<in>set (k # ks). j \<le> K"
    using sizes_mem [OF assms(1)] assms(4,5) by (meson order_le order_trans)
  have "sizes ks (n - leo k)"
    using assms(1) by simp
  show small: "\<forall>j\<in>set ks. j \<le> 32"
  proof
    fix j
    assume "j \<in> set ks"
    then have "leo j \<le> n - leo k"
      using sizes_mem assms(1) by (metis sizes.simps(2))
    moreover have "leo k \<le> n" "0 < leo k"
      using assms(1) leo_pos [of k] by simp_all
    ultimately have "leo j < leo 33"
      using assms(3) by linarith
    then have "\<not> 33 \<le> j"
      using leo_mono [of 33 j] by (meson not_le)
    then show "j \<le> 32"
      by simp
  qed
  have "distinct ks"
    using spaced_distinct [OF assms(2)] by simp
  then have "length ks = card (set ks)"
    by (simp add: distinct_card)
  also have "\<dots> \<le> card {..32 :: nat}"
    using small by (intro card_mono) auto
  finally show "length ks + 1 < AR_SIZE"
    by (simp add: AR_SIZE_def)
  show "k \<le> 33"
    using sizes_mem [OF assms(1), of k] assms(3) by (intro order_le [of k 33]) auto
qed

end
