(* ===== verification/Qsort_Loops.thy ===== *)
theory Qsort_Loops
  imports Qsort_Heaps
begin

text \<open>
  The loops of \<open>qsort\<close>: the table of Leonardo numbers, the forest growing over the array and
  the forest shrinking from it.  Every step is defined, so none leaves the array, the table
  or the stack \<open>ar\<close>, or shifts by too much.
\<close>

unbundle bit_operations_syntax

section \<open>The table of Leonardo numbers\<close>

definition table_ok :: "nat \<Rightarrow> nat \<Rightarrow> nat \<Rightarrow> nat list \<Rightarrow> bool" where
  "table_ok w N K lp \<longleftrightarrow> lp_ok w K lp \<and> N \<le> leo 33 \<and> N \<le> leo K \<and> 1 \<le> K \<and> K + 1 < AR_SIZE"

lemma leo_next_le: "2 \<le> l \<Longrightarrow> leo l \<le> 3 * leo (l - 1)"
proof -
  assume "2 \<le> l"
  then obtain j where "l = Suc (Suc j)"
    by (cases l rule: leo.cases) auto
  then show "leo l \<le> 3 * leo (l - 1)"
    using leo_le_Suc [of j] leo_pos [of "Suc j"] by simp
qed

lemma lp_loop_result:
  assumes "2 \<le> l" and "l = 2 \<or> leo (l - 1) < N" and "0 < w" and "0 < N" and "N \<le> leo 33" and "3 * (N * w) < 2 ^ 32"
  obtains K lp where "lp_loop w (N * w) (map (\<lambda>i. leo i * w) [0..<l]) = Some lp" "table_ok w N K lp"
proof -
  have "\<exists>K lp. lp_loop w (N * w) (map (\<lambda>i. leo i * w) [0..<l]) = Some lp \<and> table_ok w N K lp"
    using assms(1,2)
  proof (induction "34 - l" arbitrary: l rule: less_induct)
    case less
    let ?lp = "map (\<lambda>i. leo i * w) [0..<l]"
    have small: "l \<le> 33"
    proof (cases "l = 2")
      case False
      then have "leo (l - 1) < leo 33"
        using less.prems(2) assms(5) by simp
      then have "\<not> 33 \<le> l - 1"
        using leo_mono [of 33 "l - 1"] by (meson not_le)
      then show ?thesis
        by simp
    qed simp
    obtain j where j: "l = Suc (Suc j)"
      using less.prems(1) by (cases l rule: leo.cases) auto
    have "leo (l - 1) \<le> N"
      using less.prems(2) assms(4) by auto
    then have "leo l \<le> 3 * N"
      using leo_next_le [OF less.prems(1)] by simp
    then have "leo l * w \<le> 3 * N * w"
      by (rule mult_le_mono1)
    then have "leo l * w < 2 ^ 32"
      using assms(6) unfolding mult.assoc by (rule le_less_trans)
    moreover have "?lp ! (length ?lp - 2) + ?lp ! (length ?lp - 1) + w = leo l * w"
      by (simp add: j nth_append algebra_simps del: upt_Suc)
    ultimately have v: "(?lp ! (length ?lp - 2) + ?lp ! (length ?lp - 1) + w) mod 2 ^ 32 = leo l * w"
      by (metis mod_less)
    have app: "?lp @ [leo l * w] = map (\<lambda>i. leo i * w) [0..<Suc l]"
      by simp
    have step: "lp_loop w (N * w) ?lp =
        (if leo l * w < N * w then lp_loop w (N * w) (map (\<lambda>i. leo i * w) [0..<Suc l])
         else Some (map (\<lambda>i. leo i * w) [0..<Suc l]))"
      using small by (subst lp_loop.simps) (simp only: v app Let_def, simp add: LP_SIZE_def)
    show ?case
    proof (cases "leo l * w < N * w")
      case True
      then have "leo (Suc l - 1) < N"
        by simp
      then show ?thesis
        using less.hyps [of "Suc l"] less.prems(1) small True by (simp add: step del: upt_Suc)
    next
      case False
      then have "N \<le> leo l"
        using assms(3) by simp
      then have "table_ok w N l (map (\<lambda>i. leo i * w) [0..<Suc l])"
        using less.prems(1) small assms(5) by (auto simp: table_ok_def lp_ok_def AR_SIZE_def nth_append simp del: upt_Suc)
      then show ?thesis
        using False unfolding step by auto
    qed
  qed
  then show thesis
    using that by blast
qed

section \<open>Sifting and trinkling a forest that fits\<close>

lemma tail_ok_sizes: "tail_ok cmp N ks n a \<Longrightarrow> sizes ks n"
  by (induction ks arbitrary: n) (auto simp: forest_sizes)

lemma grown_sizes: "grown cmp N k ks n a \<Longrightarrow> sizes (k # ks) n"
  by (auto simp: grown_def tail_ok_sizes)

lemma table_bounds:
  assumes "table_ok w N K lp" and "sizes (k # ks) n" and "spaced (k # ks)" and "n \<le> N"
  shows "\<forall>j\<in>set (k # ks). j \<le> K" "\<forall>j\<in>set ks. j \<le> 32" "length ks + 1 < AR_SIZE" "k \<le> 33"
  using order_bounds [OF assms(2,3), of K] assms(1,4) by (auto simp: table_ok_def)

lemma sift_fits:
  assumes "table_ok w N K lp" and "array w N m" and "sizes (k # ks) n" and "spaced (k # ks)" and "n \<le> N"
  obtains m' where "sift cmp w lp ((n - 1) * w) k m = Some m'" "array w N m'"
    "elems w m' = sift_e cmp k (n - 1) (elems w m ! (n - 1)) (elems w m)"
proof -
  have n: "leo k \<le> n - 1 + 1" "n - 1 < N"
    using assms(3,5) leo_pos [of k] by auto
  have K: "lp_ok w K lp" "k \<le> K" "k + 1 < AR_SIZE"
    using assms(1) table_bounds(1) [OF assms(1,3-5)] by (auto simp: table_ok_def)
  show thesis
    by (rule sift_result [OF assms(2) K(1) n K(2,3)]) (rule that)
qed

lemma trinkle_fits:
  assumes "table_ok w N K lp" and "array w N m" and "shape p k ks" and "sizes (k # ks) n" and "spaced (k # ks)" and "n \<le> N"
  obtains m' where "trinkle cmp w lp ((n - 1) * w) p k trusty m = Some m'" "array w N m'"
    "elems w m' = trinkle_e cmp (k # ks) n (elems w m ! (n - 1)) trusty (elems w m)"
proof -
  have K: "lp_ok w K lp" "K + 1 < AR_SIZE"
    using assms(1) by (simp_all add: table_ok_def)
  show thesis
    by (rule trinkle_result [OF assms(2) K(1) assms(3,5,4,6) table_bounds(1-3) [OF assms(1,4-6)] K(2)]) (rule that)
qed

lemma ptr_diff: "n \<le> N \<Longrightarrow> 0 < n \<Longrightarrow> (N - 1) * w - (n - 1) * w = (N - n) * (w :: nat)"
  by (metis Suc_pred' diff_Suc_Suc diff_mult_distrib less_le_trans minus_nat.simps(1) diff_Suc_1)

section \<open>Growing\<close>

text \<open>What the callers of \<open>qsort\<close> promise of the function that compares two elements.\<close>

locale sorting = comparing cmp for cmp :: "'b list \<Rightarrow> 'b list \<Rightarrow> int"
begin

lemma grow_merge:
  assumes "table_ok w N K lp" and "array w N m" and "shape p k (Suc k # ks)" and "n < N"
    and "grown cmp N k (Suc k # ks) n (elems w m)"
  obtains p' m' where "grow_step cmp w lp high ((n - 1) * w) p k m = Some (p', Suc (Suc k), m')"
    "shape p' (Suc (Suc k)) ks" "array w N m'" "grown cmp N (Suc (Suc k)) ks (n + 1) (elems w m')"
    "mset (elems w m') = mset (elems w m)"
proof -
  have spaced: "spaced (k # Suc k # ks)"
    using assms(5) by (simp add: grown_def)
  obtain m' where m': "sift cmp w lp ((n - 1) * w) k m = Some m'" "array w N m'"
    "elems w m' = sift_e cmp k (n - 1) (elems w m ! (n - 1)) (elems w m)"
    by (rule sift_fits [OF assms(1,2) grown_sizes [OF assms(5)] spaced less_imp_le [OF assms(4)]])
  obtain q where q: "shr p 2 = Some q" "shape (fst q OR 1, snd q) (Suc (Suc k)) ks"
    by (rule shape_merged [OF assms(3) spaced])
  have "fst p AND 3 = 3"
    using shape_merge [OF assms(3) spaced] by simp
  then have "grow_step cmp w lp high ((n - 1) * w) p k m = Some ((fst q OR 1, snd q), Suc (Suc k), m')"
    using m'(1) q(1) by (simp add: grow_step_def)
  then show thesis
    by (rule that [OF _ q(2) m'(2)]) (simp_all only: m'(3) grown_merge [OF assms(5,4)] sifted(1) [OF assms(5)])
qed

lemma grow_add:
  assumes "table_ok w N K lp" and "array w N m" and "shape p k ks" and "n < N"
    and "grown cmp N k ks n (elems w m)" and single: "\<And>k' ks'. ks = k' # ks' \<Longrightarrow> k' \<noteq> Suc k"
  obtains p' m' where
    "grow_step cmp w lp ((N - 1) * w) ((n - 1) * w) p k m = Some (p', if k = 1 then 0 else 1, m')"
    "shape p' (if k = 1 then 0 else 1) (k # ks)" "array w N m'"
    "grown cmp N (if k = 1 then 0 else 1) (k # ks) (n + 1) (elems w m')"
    "mset (elems w m') = mset (elems w m)"
proof -
  define j :: nat where "j = (if k = 1 then 0 else 1)"
  have spaced: "spaced (k # ks)" and n: "leo k \<le> n" "0 < n" "n \<le> N"
    using assms(4,5) leo_pos [of k] by (auto simp: grown_def)
  have k0: "k \<noteq> 0"
    by (rule spaced_single(1) [OF spaced single])
  note sz = grown_sizes [OF assms(5)]
  note bounds = table_bounds [OF assms(1) sz spaced n(3)]
  have "leo k < leo 33"
    using n(1) assms(1,4) by (simp add: table_ok_def)
  then have "\<not> 33 \<le> k"
    using leo_mono [of 33 k] by (meson not_le)
  then have shift: "j < k" "k - j < 32" "\<And>i. i \<in> set (k # ks) \<Longrightarrow> i < j + 64"
    using k0 bounds(2) by (auto simp: j_def)
  obtain q where q: "shl p (k - j) = Some q" "shape (fst q OR 1, snd q) j (k # ks)"
    by (rule shape_added [OF assms(3) shift])
  have "\<not> fst p AND 3 = 3"
    using shape_merge [OF assms(3) spaced] single by blast
  moreover have lp: "lp_at lp (k - 1) = Some (leo (k - 1) * w)"
    using assms(1) bounds(1) by (intro lp_at_ok) (auto simp: table_ok_def)
  moreover have cond: "leo (k - 1) * w \<ge> (N - 1) * w - (n - 1) * w \<longleftrightarrow> N - n \<le> leo (k - 1)"
    using assms(2) unfolding ptr_diff [OF n(3,2)] by (simp add: array_def)
  ultimately have step: "grow_step cmp w lp ((N - 1) * w) ((n - 1) * w) p k m = Some ((fst q OR 1, snd q), j, m')"
    if "(if N - n \<le> leo (k - 1) then trinkle cmp w lp ((n - 1) * w) p k False m
         else sift cmp w lp ((n - 1) * w) k m) = Some m'" for m'
    using that q(1) k0 unfolding grow_step_def j_def by (cases "k = 1") (simp_all cong: if_cong)
  show thesis
  proof (cases "N - n \<le> leo (k - 1)")
    case True
    obtain m' where m': "trinkle cmp w lp ((n - 1) * w) p k False m = Some m'" "array w N m'"
      "elems w m' = trinkle_e cmp (k # ks) n (elems w m ! (n - 1)) False (elems w m)"
      by (rule trinkle_fits [OF assms(1-3) sz spaced n(3)])
    then show thesis
      using that [OF _ _ m'(2)] step q(2) True grown_trinkle [OF assms(5,4) single True k0]
      unfolding j_def [symmetric] by simp
  next
    case False
    obtain m' where m': "sift cmp w lp ((n - 1) * w) k m = Some m'" "array w N m'"
      "elems w m' = sift_e cmp k (n - 1) (elems w m ! (n - 1)) (elems w m)"
      by (rule sift_fits [OF assms(1,2) sz spaced n(3)])
    then show thesis
      using that [OF _ _ m'(2)] step q(2) False grown_sift [OF assms(5,4) single] sifted(1) [OF assms(5)]
      unfolding j_def [symmetric] by simp
  qed
qed

lemma grow_step_result:
  assumes "table_ok w N K lp" and "array w N m" and "shape p k ks" and "n < N" and "grown cmp N k ks n (elems w m)"
  obtains p' k' ks' m' where "grow_step cmp w lp ((N - 1) * w) ((n - 1) * w) p k m = Some (p', k', m')"
    "shape p' k' ks'" "array w N m'" "grown cmp N k' ks' (n + 1) (elems w m')"
    "mset (elems w m') = mset (elems w m)"
proof (cases "\<exists>ks'. ks = Suc k # ks'")
  case True
  then obtain ks' where ks: "ks = Suc k # ks'"
    by blast
  show thesis
    by (rule grow_merge [OF assms(1,2) assms(3) [unfolded ks] assms(4) assms(5) [unfolded ks]]) (rule that)
next
  case False
  show thesis
    by (rule grow_add [OF assms], use False in blast) (rule that)
qed

lemma grow_loop_result:
  assumes "table_ok w N K lp" and "array w N m" and "shape p k ks" and "0 < n" and "n \<le> N"
    and "grown cmp N k ks n (elems w m)"
  obtains p' k' ks' m' where "grow_loop cmp w lp ((N - 1) * w) ((n - 1) * w) p k m = Some ((N - 1) * w, p', k', m')"
    "shape p' k' ks'" "array w N m'" "grown cmp N k' ks' N (elems w m')" "mset (elems w m') = mset (elems w m)"
proof -
  have "\<exists>p' k' ks' m'. grow_loop cmp w lp ((N - 1) * w) ((n - 1) * w) p k m = Some ((N - 1) * w, p', k', m') \<and>
    shape p' k' ks' \<and> array w N m' \<and> grown cmp N k' ks' N (elems w m') \<and> mset (elems w m') = mset (elems w m)"
    using assms(2-6)
  proof (induction "N - n" arbitrary: n p k ks m)
    case 0
    then show ?case
      by (subst grow_loop.simps) auto
  next
    case (Suc d)
    have n: "n < N"
      using Suc.hyps(2) by simp
    obtain p' k' ks' m' where step: "grow_step cmp w lp ((N - 1) * w) ((n - 1) * w) p k m = Some (p', k', m')"
      "shape p' k' ks'" "array w N m'" "grown cmp N k' ks' (n + 1) (elems w m')" "mset (elems w m') = mset (elems w m)"
      by (rule grow_step_result [OF assms(1) Suc.prems(1,2) n Suc.prems(5)])
    have head: "(n - 1) * w < (N - 1) * w" "(n - 1) * w + w = (n + 1 - 1) * w"
      using n Suc.prems(1,3) by (cases n; simp add: array_def)+
    have "d = N - (n + 1)"
      using Suc.hyps(2) by simp
    from Suc.hyps(1) [OF this step(3,2) _ _ step(4)] show ?case
      using n step(1,5) head by (subst grow_loop.simps) simp
  qed
  then show thesis
    using that by blast
qed

end

section \<open>Shrinking\<close>

definition shrunk :: "('b list \<Rightarrow> 'b list \<Rightarrow> int) \<Rightarrow> nat \<Rightarrow> nat \<Rightarrow> bitvec \<Rightarrow> nat \<Rightarrow> nat list \<Rightarrow> nat \<Rightarrow> 'b list \<Rightarrow> bool" where
  "shrunk cmp w N p k ks n m \<longleftrightarrow> array w N m \<and> shape p k ks \<and> spaced (k # ks) \<and> n \<le> N \<and>
     forest cmp (k # ks) n (elems w m) \<and> rooted cmp (k # ks) n (elems w m) \<and> settled cmp n (elems w m)"

context sorting
begin

lemma shrink_single:
  assumes "table_ok w N K lp" and "shrunk cmp w N p k (k1 # ks) n m" and "k \<le> 1"
  obtains p' where "shrink_step cmp w lp ((n - 1) * w) p k m = Some (p', k1, m)" "shrunk cmp w N p' k1 ks (n - 1) m" "1 < n"
proof -
  have inv: "array w N m" "shape p k (k1 # ks)" "spaced (k # k1 # ks)" "n \<le> N" "forest cmp (k # k1 # ks) n (elems w m)"
      "rooted cmp (k # k1 # ks) n (elems w m)" "settled cmp n (elems w m)"
    using assms(2) by (simp_all add: shrunk_def)
  have gap: "k1 - k < 32"
    using table_bounds(2) [OF assms(1) forest_sizes [OF inv(5)] inv(3,4)] by (intro gap_below_word [OF inv(3)]) simp
  obtain q where q: "shr p (k1 - k) = Some q" "shape q k1 ks"
    by (rule shape_shr [OF inv(2,3) gap])
  have k1: "k + (k1 - k) = k1"
    using inv(3) by auto
  note drop = shrink_drop [OF inv(5,6) assms(3)]
  have "shrunk cmp w N q k1 ks (n - 1) m"
    using inv q(2) drop spaced_tl [OF inv(3)] settled_step [OF inv(7,5,6)] by (simp add: shrunk_def del: forest.simps)
  moreover have "shrink_step cmp w lp ((n - 1) * w) p k m = Some (q, k1, m)"
    using assms(3) shape_pntz [OF inv(2,3) gap] q(1) k1 by (simp add: shrink_step_def)
  moreover have "1 < n"
    using forest_pos [OF drop(1)] by simp
  ultimately show thesis
    using that by blast
qed

lemma shrink_heap:
  assumes "table_ok w N K lp" and "shrunk cmp w N p (Suc (Suc k)) ks n m"
  obtains p' m' where "shrink_step cmp w lp ((n - 1) * w) p (Suc (Suc k)) m = Some (p', k, m')"
    "shrunk cmp w N p' k (Suc k # ks) (n - 1) m'" "1 < n" "mset (elems w m') = mset (elems w m)"
proof -
  let ?a = "elems w m"
  have inv: "array w N m" "shape p (Suc (Suc k)) ks" "spaced (Suc (Suc k) # ks)" "n \<le> N"
      "forest cmp (Suc (Suc k) # ks) n ?a" "rooted cmp (Suc (Suc k) # ks) n ?a" "settled cmp n ?a"
    using assms(2) by (simp_all add: shrunk_def)
  note sz = forest_sizes [OF inv(5)] and bounds = table_bounds [OF assms(1) forest_sizes [OF inv(5)] inv(3,4)]
  note split = shrink_split [OF inv(5,6)]
  have len: "n \<le> length ?a"
    using inv(1,4) by (simp add: length_elems)
  have spaced: "spaced (k # Suc k # ks)" "spaced (Suc k # ks)"
    using spaced_split [OF inv(3)] spaced_tl by blast+
  have "i < k + 64" if "i \<in> set ks" for i
    using bounds(2) that by force
  then obtain q r t where q: "shl p 2 = Some q" "shr (fst q XOR 7, snd q) 1 = Some r" "shape r (Suc k) ks"
      "shl r 1 = Some t" "shape (fst t OR 1, snd t) k (Suc k # ks)"
    by (rule shape_split [OF inv(2)])
  have lp: "lp_at lp k = Some (leo k * w)"
    using assms(1) bounds(1) by (intro lp_at_ok) (auto simp: table_ok_def)
  have n: "leo k < n - 1" "1 < n"
    using split(4) [OF len] by auto
  have ptrs: "sub_ptr ((n - 1) * w) (leo k * w + w) = Some ((n - 1 - leo k - 1) * w)"
      "sub_ptr ((n - 1) * w) w = Some ((n - 1 - 1) * w)"
    using sub_ptr_elem [of "leo k + 1" "n - 1" w] sub_ptr_elem [of 1 "n - 1" w] n by (simp_all add: add.commute)
  have sz1: "sizes (Suc k # ks) (n - 1 - leo k)" and sz2: "sizes (k # Suc k # ks) (n - 1)"
    using sz n by (auto simp: add.commute)
  obtain m1 where m1: "trinkle cmp w lp ((n - 1 - leo k - 1) * w) r (Suc k) True m = Some m1" "array w N m1"
    "elems w m1 = trinkle_e cmp (Suc k # ks) (n - 1 - leo k) (?a ! (n - 1 - leo k - 1)) True ?a"
    using inv(4) by (elim trinkle_fits [OF assms(1) inv(1) q(3) sz1 spaced(2), rotated]) simp
  obtain m2 where m2: "trinkle cmp w lp ((n - 1 - 1) * w) (fst t OR 1, snd t) k True m1 = Some m2" "array w N m2"
    "elems w m2 = trinkle_e cmp (k # Suc k # ks) (n - 1) (elems w m1 ! (n - 1 - 1)) True (elems w m1)"
    using inv(4) by (elim trinkle_fits [OF assms(1) m1(2) q(5) sz2 spaced(1), rotated]) simp
  note sp = split(1-3) [OF len, folded m1(3), folded m2(3)]
  have "settled cmp (n - 1) (elems w m2)"
    by (rule settled_rearranged [OF settled_step [OF inv(7,5,6)] sp(1)]) simp_all
  then have "shrunk cmp w N (fst t OR 1, snd t) k (Suc k # ks) (n - 1) m2"
    using m2(2) q(5) spaced(1) inv(4) sp(2,3) unfolding shrunk_def by simp
  moreover have "shrink_step cmp w lp ((n - 1) * w) p (Suc (Suc k)) m = Some ((fst t OR 1, snd t), k, m2)"
    using q(1,2,4) lp ptrs m1(1) m2(1) by (simp add: shrink_step_def)
  ultimately show thesis
    using that n(2) sp(1) by (simp add: rearranged_def)
qed

lemma shrink_loop_result:
  assumes "table_ok w N K lp" and "shrunk cmp w N p k ks n m"
  obtains m' where "shrink_loop cmp w lp ((n - 1) * w) p k m = Some m'" "array w N m'"
    "settled cmp 1 (elems w m')" "mset (elems w m') = mset (elems w m)"
proof -
  have "\<exists>m'. shrink_loop cmp w lp ((n - 1) * w) p k m = Some m' \<and> array w N m' \<and>
    settled cmp 1 (elems w m') \<and> mset (elems w m') = mset (elems w m)"
    using assms(2)
  proof (induction n arbitrary: p k ks m)
    case 0
    then show ?case
      using leo_pos [of k] by (simp add: shrunk_def)
  next
    case (Suc n)
    have shape: "shape p k ks" and spaced: "spaced (k # ks)"
      using Suc.prems by (simp_all add: shrunk_def)
    have step: ?case
      if "shrink_step cmp w lp ((Suc n - 1) * w) p k m = Some (p', k', m')" "shrunk cmp w N p' k' ks' (Suc n - 1) m'"
        "1 < Suc n" "mset (elems w m') = mset (elems w m)" "k \<noteq> 1 \<or> p \<noteq> (1, 0)" for p' k' ks' m'
    proof -
      have "sub_ptr (n * w) w = Some ((n - 1) * w)"
        using sub_ptr_elem [of 1 n w] that(3) by simp
      then show ?thesis
        using that Suc.IH [of p' k' ks' m'] by (subst shrink_loop.simps) auto
    qed
    consider "k = 1" "ks = []" | k1 ks1 where "k \<le> 1" "ks = k1 # ks1" | j where "k = Suc (Suc j)"
      using spaced by (cases k rule: leo.cases; cases ks) auto
    then show ?case
    proof cases
      case 1
      then have "n = 0" "p = (1, 0)"
        using Suc.prems shape_single [OF shape] by (auto simp: shrunk_def)
      then show ?thesis
        using Suc.prems 1 by (subst shrink_loop.simps) (simp add: shrunk_def)
    next
      case 2
      then have "p \<noteq> (1, 0)"
        using shape_single [OF shape] by simp
      then show ?thesis
        using shrink_single [OF assms(1) Suc.prems [unfolded 2(2)] 2(1)] step by metis
    next
      case 3
      then show ?thesis
        using shrink_heap [OF assms(1) Suc.prems [unfolded 3]] step by (metis One_nat_def nat.distinct(1) nat.inject)
    qed
  qed
  then show thesis
    using that by blast
qed

end

end
