(* ===== verification/Search_Tree.thy ===== *)
theory Search_Tree
  imports C_Prelude
begin

text \<open>
  Search trees: \<open>tsearch\<close>, \<open>tdelete\<close>, \<open>tfind\<close>, \<open>twalk\<close> and \<open>tdestroy\<close> of
  \<open>libc-top-half/musl/src/search\<close>, AVL trees with stored heights that are balanced along an
  explicit stack of links.

  The nodes live in a store that maps addresses to nodes; a link is the address of a pointer
  to a node, that is of the root variable or of one of the two child fields of a node.  An
  operation returns \<^const>\<open>None\<close> when it follows a null or dangling pointer or overruns its
  stack of links.  The keys, the comparison function and the allocator are parameters.
\<close>

section \<open>Nodes and links\<close>

type_synonym node_ptr = "u32 option"

record 'k node =
  nkey :: 'k
  child0 :: node_ptr
  child1 :: node_ptr
  nheight :: int

record 'k tree_state =
  st_root :: node_ptr
  st_nodes :: "u32 \<rightharpoonup> 'k node"

definition MAXH :: nat where "MAXH = 4 * 8 * 3 div 2"

datatype link = Rootp | Child_link u32 bool

definition node_child :: "bool \<Rightarrow> 'k node \<Rightarrow> node_ptr" where
  "node_child dir n = (if dir then child1 n else child0 n)"

definition with_child :: "bool \<Rightarrow> node_ptr \<Rightarrow> 'k node \<Rightarrow> 'k node" where
  "with_child dir q n = (if dir then n\<lparr>child1 := q\<rparr> else n\<lparr>child0 := q\<rparr>)"

definition get_child :: "u32 \<Rightarrow> bool \<Rightarrow> 'k tree_state \<Rightarrow> node_ptr option" where
  "get_child p dir s = map_option (node_child dir) (st_nodes s p)"

definition set_child :: "u32 \<Rightarrow> bool \<Rightarrow> node_ptr \<Rightarrow> 'k tree_state \<Rightarrow> 'k tree_state option" where
  "set_child p dir q s = (case st_nodes s p of
      None \<Rightarrow> None
    | Some n \<Rightarrow> Some (s\<lparr>st_nodes := (st_nodes s)(p \<mapsto> with_child dir q n)\<rparr>))"

definition set_height :: "u32 \<Rightarrow> int \<Rightarrow> 'k tree_state \<Rightarrow> 'k tree_state option" where
  "set_height p h s = (case st_nodes s p of
      None \<Rightarrow> None
    | Some n \<Rightarrow> Some (s\<lparr>st_nodes := (st_nodes s)(p \<mapsto> n\<lparr>nheight := h\<rparr>)\<rparr>))"

fun get_link :: "link \<Rightarrow> 'k tree_state \<Rightarrow> node_ptr option" where
  "get_link Rootp s = Some (st_root s)"
| "get_link (Child_link p dir) s = get_child p dir s"

fun set_link :: "link \<Rightarrow> node_ptr \<Rightarrow> 'k tree_state \<Rightarrow> 'k tree_state option" where
  "set_link Rootp q s = Some (s\<lparr>st_root := q\<rparr>)"
| "set_link (Child_link p dir) q s = set_child p dir q s"

section \<open>Balancing\<close>

fun node_height :: "node_ptr \<Rightarrow> 'k tree_state \<Rightarrow> int option" where
  "node_height None s = Some 0"
| "node_height (Some n) s = map_option nheight (st_nodes s n)"

text \<open>\<open>dir\<close> is the deeper side of \<open>x\<close>, the node that the link \<open>p\<close> points to.\<close>

definition rot_double :: "u32 \<Rightarrow> u32 \<Rightarrow> u32 \<Rightarrow> bool \<Rightarrow> int \<Rightarrow> 'k tree_state \<Rightarrow> 'k tree_state option" where
  "rot_double x y z dir hz s = do {
     b \<leftarrow> get_child z (\<not> dir) s;
     s \<leftarrow> set_child x dir b s;
     c \<leftarrow> get_child z dir s;
     s \<leftarrow> set_child y (\<not> dir) c s;
     s \<leftarrow> set_child z (\<not> dir) (Some x) s;
     s \<leftarrow> set_child z dir (Some y) s;
     s \<leftarrow> set_height x hz s;
     s \<leftarrow> set_height y hz s;
     set_height z (hz + 1) s }"

definition rot_single :: "u32 \<Rightarrow> u32 \<Rightarrow> node_ptr \<Rightarrow> bool \<Rightarrow> int \<Rightarrow> 'k tree_state \<Rightarrow> 'k tree_state option" where
  "rot_single x y z dir hz s = do {
     s \<leftarrow> set_child x dir z s;
     s \<leftarrow> set_child y (\<not> dir) (Some x) s;
     s \<leftarrow> set_height x (hz + 1) s;
     set_height y (hz + 2) s }"

definition rot :: "link \<Rightarrow> u32 \<Rightarrow> bool \<Rightarrow> 'k tree_state \<Rightarrow> (int \<times> 'k tree_state) option" where
  "rot p x dir s = do {
     y \<leftarrow> get_child x dir s;
     y \<leftarrow> y;
     z \<leftarrow> get_child y (\<not> dir) s;
     hx \<leftarrow> node_height (Some x) s;
     hz \<leftarrow> node_height z s;
     d \<leftarrow> get_child y dir s;
     hd \<leftarrow> node_height d s;
     (z, s) \<leftarrow> (if hz > hd
       then do { z \<leftarrow> z; s \<leftarrow> rot_double x y z dir hz s; Some (z, s) }
       else do { s \<leftarrow> rot_single x y z dir hz s; Some (y, s) });
     s \<leftarrow> set_link p (Some z) s;
     h \<leftarrow> node_height (Some z) s;
     Some (h - hx, s) }"

definition tsearch_balance :: "link \<Rightarrow> 'k tree_state \<Rightarrow> (int \<times> 'k tree_state) option" where
  "tsearch_balance p s = do {
     n \<leftarrow> get_link p s;
     n \<leftarrow> n;
     a0 \<leftarrow> get_child n False s;
     h0 \<leftarrow> node_height a0 s;
     a1 \<leftarrow> get_child n True s;
     h1 \<leftarrow> node_height a1 s;
     if (h0 - h1 + 1) mod 2 ^ 32 < 3
     then do {
       old \<leftarrow> node_height (Some n) s;
       let h = (if h0 < h1 then h1 + 1 else h0 + 1);
       s \<leftarrow> set_height n h s;
       Some (h - old, s) }
     else rot p n (h0 < h1) s }"

section \<open>Operations\<close>

text \<open>
  The search of \<open>tsearch\<close>: the node that was found, or the stack of links (the last one
  first) to the place of the new node.
\<close>

function tsearch_loop ::
  "('k \<Rightarrow> 'k \<Rightarrow> int) \<Rightarrow> 'k \<Rightarrow> 'k tree_state \<Rightarrow> link list \<Rightarrow> node_ptr \<Rightarrow> (u32 + link list) option" where
  "tsearch_loop cmp key s a n = (case n of
      None \<Rightarrow> Some (Inr a)
    | Some p \<Rightarrow> (case st_nodes s p of
        None \<Rightarrow> None
      | Some nd \<Rightarrow>
          let c = cmp key (nkey nd)
          in if c = 0 then Some (Inl p)
             else if MAXH \<le> length a then None
             else tsearch_loop cmp key s (Child_link p (c > 0) # a) (node_child (c > 0) nd)))"
  by pat_completeness auto
termination
  by (relation "measure (\<lambda>(cmp, key, s, a, n). MAXH - length a)") auto

fun insert_up :: "link list \<Rightarrow> 'k tree_state \<Rightarrow> 'k tree_state option" where
  "insert_up [] s = Some s"
| "insert_up (l # a) s = (case tsearch_balance l s of
      None \<Rightarrow> None
    | Some (d, s) \<Rightarrow> if d \<noteq> 0 then insert_up a s else Some s)"

definition tsearch ::
  "('k \<Rightarrow> 'k \<Rightarrow> int) \<Rightarrow> ((u32 \<rightharpoonup> 'k node) \<Rightarrow> node_ptr) \<Rightarrow> 'k \<Rightarrow> bool \<Rightarrow> 'k tree_state \<Rightarrow>
   (node_ptr \<times> 'k tree_state) option" where
  "tsearch cmp malloc key rootp s =
     (if \<not> rootp then Some (None, s)
      else case tsearch_loop cmp key s [Rootp] (st_root s) of
          None \<Rightarrow> None
        | Some (Inl n) \<Rightarrow> Some (Some n, s)
        | Some (Inr a) \<Rightarrow> (case malloc (st_nodes s) of
              None \<Rightarrow> Some (None, s)
            | Some r \<Rightarrow> do {
                let s = s\<lparr>st_nodes := (st_nodes s)(r \<mapsto>
                  \<lparr>nkey = key, child0 = None, child1 = None, nheight = 1\<rparr>)\<rparr>;
                s \<leftarrow> set_link (hd a) (Some r) s;
                s \<leftarrow> insert_up (tl a) s;
                Some (Some r, s) }))"

text \<open>The search of \<open>tdelete\<close> has room for one more link and gives up at a null pointer.\<close>

function tdelete_loop ::
  "('k \<Rightarrow> 'k \<Rightarrow> int) \<Rightarrow> 'k \<Rightarrow> 'k tree_state \<Rightarrow> link list \<Rightarrow> node_ptr \<Rightarrow>
   (u32 \<times> link list) option option" where
  "tdelete_loop cmp key s a n = (case n of
      None \<Rightarrow> Some None
    | Some p \<Rightarrow> (case st_nodes s p of
        None \<Rightarrow> None
      | Some nd \<Rightarrow>
          let c = cmp key (nkey nd)
          in if c = 0 then Some (Some (p, a))
             else if MAXH + 1 \<le> length a then None
             else tdelete_loop cmp key s (Child_link p (c > 0) # a) (node_child (c > 0) nd)))"
  by pat_completeness auto
termination
  by (relation "measure (\<lambda>(cmp, key, s, a, n). MAXH + 1 - length a)") auto

function rightmost_loop :: "'k tree_state \<Rightarrow> link list \<Rightarrow> u32 \<Rightarrow> (u32 \<times> link list) option" where
  "rightmost_loop s a n = (case get_child n True s of
      None \<Rightarrow> None
    | Some None \<Rightarrow> Some (n, a)
    | Some (Some m) \<Rightarrow>
        if MAXH + 1 \<le> length a then None else rightmost_loop s (Child_link n True # a) m)"
  by pat_completeness auto
termination
  by (relation "measure (\<lambda>(s, a, n). MAXH + 1 - length a)") auto

declare tsearch_loop.simps [simp del] tdelete_loop.simps [simp del] rightmost_loop.simps [simp del]

fun delete_up :: "link list \<Rightarrow> 'k tree_state \<Rightarrow> 'k tree_state option" where
  "delete_up [] s = None"
| "delete_up [l] s = Some s"
| "delete_up (l # l' # a) s = (case tsearch_balance l s of
      None \<Rightarrow> None
    | Some (d, s) \<Rightarrow> if d \<noteq> 0 then delete_up (l' # a) s else Some s)"

text \<open>The node to free, the links to it, its only child, with the key moved up if needed.\<close>

definition unlink_target ::
  "u32 \<Rightarrow> link list \<Rightarrow> 'k tree_state \<Rightarrow> (u32 \<times> link list \<times> node_ptr \<times> 'k tree_state) option" where
  "unlink_target n a s = do {
     l \<leftarrow> get_child n False s;
     case l of
       Some m \<Rightarrow>
         if MAXH + 1 \<le> length a then None
         else do {
           (m, a) \<leftarrow> rightmost_loop s (Child_link n False # a) m;
           nd \<leftarrow> st_nodes s m;
           deleted \<leftarrow> st_nodes s n;
           let s = s\<lparr>st_nodes := (st_nodes s)(n \<mapsto> deleted\<lparr>nkey := nkey nd\<rparr>)\<rparr>;
           child \<leftarrow> get_child m False s;
           Some (m, a, child, s) }
     | None \<Rightarrow> do { child \<leftarrow> get_child n True s; Some (n, a, child, s) } }"

definition tdelete ::
  "('k \<Rightarrow> 'k \<Rightarrow> int) \<Rightarrow> 'k \<Rightarrow> bool \<Rightarrow> 'k tree_state \<Rightarrow> (node_ptr \<times> 'k tree_state) option" where
  "tdelete cmp key rootp s =
     (if \<not> rootp then Some (None, s)
      else case tdelete_loop cmp key s [Rootp, Rootp] (st_root s) of
          None \<Rightarrow> None
        | Some None \<Rightarrow> Some (None, s)
        | Some (Some (n, a)) \<Rightarrow> do {
            parent \<leftarrow> get_link (hd (tl a)) s;
            (n, a, child, s) \<leftarrow> unlink_target n a s;
            let s = s\<lparr>st_nodes := (st_nodes s)(n := None)\<rparr>;
            s \<leftarrow> set_link (hd a) child s;
            s \<leftarrow> delete_up (tl a) s;
            Some (parent, s) })"

partial_function (option) tfind_loop ::
  "('k \<Rightarrow> 'k \<Rightarrow> int) \<Rightarrow> 'k \<Rightarrow> 'k tree_state \<Rightarrow> node_ptr \<Rightarrow> node_ptr option" where
  "tfind_loop cmp key s n = (case n of
      None \<Rightarrow> Some None
    | Some p \<Rightarrow> (case st_nodes s p of
        None \<Rightarrow> None
      | Some nd \<Rightarrow>
          let c = cmp key (nkey nd)
          in if c = 0 then Some (Some p) else tfind_loop cmp key s (node_child (c > 0) nd)))"

definition tfind :: "('k \<Rightarrow> 'k \<Rightarrow> int) \<Rightarrow> 'k \<Rightarrow> bool \<Rightarrow> 'k tree_state \<Rightarrow> node_ptr option" where
  "tfind cmp key rootp s = (if \<not> rootp then Some None else tfind_loop cmp key s (st_root s))"

datatype visit = Preorder | Postorder | Endorder | Leaf_visit

text \<open>The calls of the action, in order: node, kind of visit, depth.\<close>

partial_function (option) walk ::
  "'k tree_state \<Rightarrow> node_ptr \<Rightarrow> nat \<Rightarrow> (u32 \<times> visit \<times> nat) list option" where
  "walk s r d = (case r of
      None \<Rightarrow> Some []
    | Some p \<Rightarrow> (case st_nodes s p of
        None \<Rightarrow> None
      | Some nd \<Rightarrow>
          if nheight nd = 1 then Some [(p, Leaf_visit, d)]
          else Option.bind (walk s (child0 nd) (d + 1)) (\<lambda>l.
            Option.bind (walk s (child1 nd) (d + 1)) (\<lambda>r.
              Some ((p, Preorder, d) # l @ (p, Postorder, d) # r @ [(p, Endorder, d)])))))"

definition twalk :: "'k tree_state \<Rightarrow> (u32 \<times> visit \<times> nat) list option" where
  "twalk s = walk s (st_root s) 0"

text \<open>The keys that are passed to \<open>freekey\<close> and the nodes that remain.\<close>

partial_function (option) tdestroy_nodes ::
  "node_ptr \<Rightarrow> (u32 \<rightharpoonup> 'k node) \<Rightarrow> ('k list \<times> (u32 \<rightharpoonup> 'k node)) option" where
  "tdestroy_nodes r H = (case r of
      None \<Rightarrow> Some ([], H)
    | Some p \<Rightarrow> (case H p of
        None \<Rightarrow> None
      | Some nd \<Rightarrow>
          Option.bind (tdestroy_nodes (child0 nd) H) (\<lambda>(ks, H).
            Option.bind (H p) (\<lambda>nd.
              Option.bind (tdestroy_nodes (child1 nd) H) (\<lambda>(ks', H).
                Option.bind (H p) (\<lambda>nd. Some (ks @ ks' @ [nkey nd], H(p := None))))))))"

definition tdestroy :: "bool \<Rightarrow> 'k tree_state \<Rightarrow> ('k list \<times> (u32 \<rightharpoonup> 'k node)) option" where
  "tdestroy freekey s =
     map_option (\<lambda>(ks, H). (if freekey then ks else [], H)) (tdestroy_nodes (st_root s) (st_nodes s))"

end
