(* ===== verification/Search_Tree_Inv.thy ===== *)
theory Search_Tree_Inv
  imports Search_Tree
begin

text \<open>
  The trees that a store of nodes represents.  A tree carries the addresses of its nodes, so
  that a store that holds it is determined by it; a stack of links corresponds to a path in
  the tree, that is to a list of frames around a subtree.  Balancing at a link keeps the
  order of the keys and restores the AVL condition.
\<close>

section \<open>Trees\<close>

datatype 'k tree = Leaf | Node (addr: u32) (left: "'k tree") (key: 'k) (stored: int) (right: "'k tree")

fun root_ptr :: "'k tree \<Rightarrow> node_ptr" where
  "root_ptr Leaf = None"
| "root_ptr (Node p l k h r) = Some p"

fun inorder :: "'k tree \<Rightarrow> 'k list" where
  "inorder Leaf = []"
| "inorder (Node p l k h r) = inorder l @ k # inorder r"

fun addrs :: "'k tree \<Rightarrow> u32 list" where
  "addrs Leaf = []"
| "addrs (Node p l k h r) = addrs l @ p # addrs r"

fun ht :: "'k tree \<Rightarrow> int" where
  "ht Leaf = 0"
| "ht (Node p l k h r) = h"

fun avl :: "'k tree \<Rightarrow> bool" where
  "avl Leaf = True"
| "avl (Node p l k h r) \<longleftrightarrow> \<bar>ht l - ht r\<bar> \<le> 1 \<and> h = max (ht l) (ht r) + 1 \<and> avl l \<and> avl r"

fun holds :: "(u32 \<rightharpoonup> 'k node) \<Rightarrow> 'k tree \<Rightarrow> bool" where
  "holds H Leaf = True"
| "holds H (Node p l k h r) \<longleftrightarrow>
     H p = Some \<lparr>nkey = k, child0 = root_ptr l, child1 = root_ptr r, nheight = h\<rparr> \<and> holds H l \<and> holds H r"

text \<open>The node whose child on side \<open>dir\<close> is \<open>t\<close> and whose other child is \<open>u\<close>.\<close>

definition node_on :: "bool \<Rightarrow> u32 \<Rightarrow> 'k tree \<Rightarrow> 'k \<Rightarrow> int \<Rightarrow> 'k tree \<Rightarrow> 'k tree" where
  "node_on dir p t k h u = (if dir then Node p u k h t else Node p t k h u)"

lemma holds_cong: "(\<And>p. p \<in> set (addrs t) \<Longrightarrow> H' p = H p) \<Longrightarrow> holds H' t = holds H t"
  by (induction t) auto

lemma holds_upd: "p \<notin> set (addrs t) \<Longrightarrow> holds (H(p := n)) t = holds H t"
  by (rule holds_cong) auto

lemma ht_nonneg: "avl t \<Longrightarrow> 0 \<le> ht t"
  by (induction t) auto

lemma ht_pos: "avl t \<Longrightarrow> t \<noteq> Leaf \<Longrightarrow> 1 \<le> ht t"
  by (cases t) (auto dest: ht_nonneg)

lemma ht_zero: "avl t \<Longrightarrow> ht t = 0 \<longleftrightarrow> t = Leaf"
  using ht_pos by (cases "t = Leaf") fastforce+

lemma root_ptr_addrs: "root_ptr t = Some p \<Longrightarrow> p \<in> set (addrs t)"
  by (cases t) auto

lemma node_height_holds: "holds (st_nodes s) t \<Longrightarrow> node_height (root_ptr t) s = Some (ht t)"
  by (cases t) auto

lemma node_on_simps [simp]:
  "root_ptr (node_on dir p t k h u) = Some p"
  "ht (node_on dir p t k h u) = h"
  "set (addrs (node_on dir p t k h u)) = insert p (set (addrs t) \<union> set (addrs u))"
  "distinct (addrs (node_on dir p t k h u)) \<longleftrightarrow>
     p \<notin> set (addrs t) \<and> p \<notin> set (addrs u) \<and> distinct (addrs t) \<and> distinct (addrs u) \<and>
     set (addrs t) \<inter> set (addrs u) = {}"
  "avl (node_on dir p t k h u) \<longleftrightarrow> \<bar>ht t - ht u\<bar> \<le> 1 \<and> h = max (ht t) (ht u) + 1 \<and> avl t \<and> avl u"
  "node_on dir p t k h u \<noteq> Leaf"
  by (auto simp: node_on_def)

lemma holds_node_on:
  "holds H (node_on dir p t k h u) \<longleftrightarrow>
     (\<exists>n. H p = Some n \<and> nkey n = k \<and> node_child dir n = root_ptr t \<and> node_child (\<not> dir) n = root_ptr u \<and>
       nheight n = h) \<and> holds H t \<and> holds H u"
  by (auto simp: node_on_def node_child_def)

lemma inorder_node_on:
  "inorder (node_on dir p t k h u) = (if dir then inorder u @ k # inorder t else inorder t @ k # inorder u)"
  by (simp add: node_on_def)

lemma node_on_cases:
  assumes "t \<noteq> Leaf"
  obtains p u k h v where "t = node_on dir p u k h v"
  using assms by (cases t; cases dir) (auto simp: node_on_def)

section \<open>Paths\<close>

text \<open>A frame is a node around a hole on side \<open>fr_dir\<close>.\<close>

datatype 'k frame = Frame (fr_dir: bool) (fr_addr: u32) (fr_key: 'k) (fr_height: int) (fr_other: "'k tree")

fun fill1 :: "'k frame \<Rightarrow> 'k tree \<Rightarrow> 'k tree" where
  "fill1 (Frame dir p k h u) t = node_on dir p t k h u"

primrec fill :: "'k frame list \<Rightarrow> 'k tree \<Rightarrow> 'k tree" where
  "fill [] t = t"
| "fill (c # cs) t = fill cs (fill1 c t)"

fun path_link :: "'k frame list \<Rightarrow> link" where
  "path_link [] = Rootp"
| "path_link (Frame dir p k h u # cs) = Child_link p dir"

fun path_links :: "'k frame list \<Rightarrow> link list" where
  "path_links [] = [Rootp]"
| "path_links (c # cs) = path_link (c # cs) # path_links cs"

definition represents :: "'k tree_state \<Rightarrow> 'k tree \<Rightarrow> bool" where
  "represents s t \<longleftrightarrow> st_root s = root_ptr t \<and> holds (st_nodes s) t \<and> distinct (addrs t) \<and>
     dom (st_nodes s) = set (addrs t)"

lemma path_links_simps [simp]:
  "hd (path_links cs) = path_link cs" "path_links cs \<noteq> []" "length (path_links cs) = Suc (length cs)"
  by (induction cs) auto

text \<open>Replacing the subtree in the hole, with the pointer at the link.\<close>

fun holds_path :: "(u32 \<rightharpoonup> 'k node) \<Rightarrow> 'k frame list \<Rightarrow> node_ptr \<Rightarrow> bool" where
  "holds_path H [] q = True"
| "holds_path H (Frame dir p k h u # cs) q \<longleftrightarrow>
     (\<exists>n. H p = Some n \<and> nkey n = k \<and> node_child dir n = q \<and> node_child (\<not> dir) n = root_ptr u \<and>
       nheight n = h) \<and> holds H u \<and> holds_path H cs (Some p)"

fun path_addrs :: "'k frame list \<Rightarrow> u32 list" where
  "path_addrs [] = []"
| "path_addrs (Frame dir p k h u # cs) = p # addrs u @ path_addrs cs"

fun path_root :: "'k frame list \<Rightarrow> node_ptr \<Rightarrow> node_ptr" where
  "path_root [] q = q"
| "path_root (Frame dir p k h u # cs) q = path_root cs (Some p)"

lemma holds_fill_iff: "holds H (fill cs t) \<longleftrightarrow> holds_path H cs (root_ptr t) \<and> holds H t"
  by (induction cs "root_ptr t" arbitrary: t rule: path_root.induct) (auto simp: holds_node_on)

lemma addrs_fill: "set (addrs (fill cs t)) = set (path_addrs cs) \<union> set (addrs t)"
  by (induction cs "root_ptr t" arbitrary: t rule: path_root.induct) auto

lemma distinct_fill_iff:
  "distinct (addrs (fill cs t)) \<longleftrightarrow>
     distinct (path_addrs cs) \<and> distinct (addrs t) \<and> set (path_addrs cs) \<inter> set (addrs t) = {}"
  by (induction cs "root_ptr t" arbitrary: t rule: path_root.induct) auto

lemma root_fill: "root_ptr (fill cs t) = path_root cs (root_ptr t)"
  by (induction cs "root_ptr t" arbitrary: t rule: path_root.induct) auto

lemma holds_path_cong:
  "(\<And>p. p \<in> set (path_addrs cs) \<Longrightarrow> H' p = H p) \<Longrightarrow> holds_path H' cs q = holds_path H cs q"
proof (induction H cs q rule: holds_path.induct)
  case (2 H dir p k h u cs q)
  then show ?case
    using holds_cong [of u H' H] by auto
qed simp

lemma holds_path_upd: "p \<notin> set (path_addrs cs) \<Longrightarrow> holds_path (H(p := n)) cs q = holds_path H cs q"
  by (rule holds_path_cong) auto

lemma represents_fill:
  "represents s (fill cs t) \<longleftrightarrow>
     st_root s = path_root cs (root_ptr t) \<and> holds_path (st_nodes s) cs (root_ptr t) \<and> holds (st_nodes s) t \<and>
     distinct (path_addrs cs) \<and> distinct (addrs t) \<and> set (path_addrs cs) \<inter> set (addrs t) = {} \<and>
     dom (st_nodes s) = set (path_addrs cs) \<union> set (addrs t)"
  by (auto simp: represents_def root_fill holds_fill_iff distinct_fill_iff addrs_fill)

lemma get_link_path:
  assumes "holds_path (st_nodes s) cs q" and "st_root s = path_root cs q"
  shows "get_link (path_link cs) s = Some q"
  using assms by (cases "(cs, q)" rule: path_root.cases) (auto simp: get_child_def)

lemma with_child_simps [simp]:
  "node_child dir (with_child dir q n) = q"
  "node_child (\<not> dir) (with_child dir q n) = node_child (\<not> dir) n"
  "node_child dir (with_child (\<not> dir) q n) = node_child dir n"
  "nkey (with_child d q n) = nkey n"
  "nheight (with_child d q n) = nheight n"
  "node_child d (n\<lparr>nheight := h\<rparr>) = node_child d n"
  "node_child d (n\<lparr>nkey := k\<rparr>) = node_child d n"
  by (simp_all add: with_child_def node_child_def)

lemma set_link_path:
  assumes "holds_path (st_nodes s) cs q0" and "st_root s = path_root cs q0" and "distinct (path_addrs cs)"
  obtains s' where "set_link (path_link cs) q s = Some s'" "st_root s' = path_root cs q"
    "holds_path (st_nodes s') cs q" "dom (st_nodes s') = dom (st_nodes s)"
    "\<And>p. p \<notin> set (path_addrs cs) \<Longrightarrow> st_nodes s' p = st_nodes s p"
proof (cases "(cs, q)" rule: path_root.cases)
  case (1 q')
  then show thesis
    by (intro that [of "s\<lparr>st_root := q\<rparr>"]) simp_all
next
  case (2 dir p k h u cs' q')
  then obtain n where n: "st_nodes s p = Some n" "nkey n = k" "node_child (\<not> dir) n = root_ptr u" "nheight n = h"
      "holds (st_nodes s) u" "holds_path (st_nodes s) cs' (Some p)"
    using assms(1) by auto
  let ?s = "s\<lparr>st_nodes := (st_nodes s)(p \<mapsto> with_child dir q n)\<rparr>"
  have "holds (st_nodes ?s) u" "holds_path (st_nodes ?s) cs' (Some p)"
    using assms(3) 2 n(5,6) by (auto simp: holds_upd holds_path_upd)
  then show thesis
    using 2 n assms(2)
    by (intro that [of ?s]) (auto simp: set_child_def)
qed

text \<open>The tree in the hole is exchanged and the link set to its root.\<close>

lemma represents_replace:
  assumes rep: "represents s (fill cs t)"
    and same: "\<And>p. p \<in> set (path_addrs cs) \<Longrightarrow> H p = st_nodes s p"
    and new: "holds H t'" "distinct (addrs t')" "set (path_addrs cs) \<inter> set (addrs t') = {}"
      "dom H = set (path_addrs cs) \<union> set (addrs t')"
  obtains s' where "set_link (path_link cs) (root_ptr t') (s\<lparr>st_nodes := H\<rparr>) = Some s'"
    "represents s' (fill cs t')" "\<And>p. p \<in> set (addrs t') \<Longrightarrow> st_nodes s' p = H p"
proof -
  let ?s = "s\<lparr>st_nodes := H\<rparr>"
  have "holds_path (st_nodes ?s) cs (root_ptr t)" "st_root ?s = path_root cs (root_ptr t)" "distinct (path_addrs cs)"
    using rep holds_path_cong [of cs H "st_nodes s" "root_ptr t"] same by (simp_all add: represents_fill)
  then obtain s' where s': "set_link (path_link cs) (root_ptr t') ?s = Some s'"
    "st_root s' = path_root cs (root_ptr t')" "holds_path (st_nodes s') cs (root_ptr t')"
    "dom (st_nodes s') = dom (st_nodes ?s)" "\<And>p. p \<notin> set (path_addrs cs) \<Longrightarrow> st_nodes s' p = st_nodes ?s p"
    by (rule set_link_path) blast
  have kept: "st_nodes s' p = H p" if "p \<in> set (addrs t')" for p
    using s'(5) [of p] that new(3) by auto
  moreover have "represents s' (fill cs t')"
    using rep new s' holds_cong [of t' "st_nodes s'" H] kept by (simp add: represents_fill)
  ultimately show thesis
    using that s'(1) by blast
qed

section \<open>Rotations\<close>

lemma rot_single_result:
  assumes "st_nodes s x = Some nx" "st_nodes s y = Some ny" "x \<noteq> y"
  shows "rot_single x y z dir hz s = Some (s\<lparr>st_nodes := (st_nodes s)
    (x \<mapsto> (with_child dir z nx)\<lparr>nheight := hz + 1\<rparr>, y \<mapsto> (with_child (\<not> dir) (Some x) ny)\<lparr>nheight := hz + 2\<rparr>)\<rparr>)"
  using assms by (auto simp: rot_single_def set_child_def set_height_def fun_eq_iff)

lemma rot_double_result:
  assumes "st_nodes s x = Some nx" "st_nodes s y = Some ny" "st_nodes s z = Some nz" "x \<noteq> y" "x \<noteq> z" "y \<noteq> z"
  shows "rot_double x y z dir hz s = Some (s\<lparr>st_nodes := (st_nodes s)
    (x \<mapsto> (with_child dir (node_child (\<not> dir) nz) nx)\<lparr>nheight := hz\<rparr>,
     y \<mapsto> (with_child (\<not> dir) (node_child dir nz) ny)\<lparr>nheight := hz\<rparr>,
     z \<mapsto> (with_child dir (Some y) (with_child (\<not> dir) (Some x) nz))\<lparr>nheight := hz + 1\<rparr>)\<rparr>)"
  using assms by (auto simp: rot_double_def get_child_def set_child_def set_height_def fun_eq_iff)

lemma set_link_lens: "st_nodes s p = Some n \<Longrightarrow> get_child p dir s = Some (node_child dir n)"
  by (simp add: get_child_def)

lemma rot_result:
  assumes rep: "represents s (fill cs (node_on dir x y kx hx a))"
    and y: "y = node_on dir py d ky hy z" and avl: "avl y" "avl a" and deep: "ht y = ht a + 2"
  obtains t s' where "rot (path_link cs) x dir s = Some (ht t - hx, s')" "represents s' (fill cs t)"
    "avl t" "inorder t = inorder (node_on dir x y kx hx a)"
    "set (addrs t) = set (addrs (node_on dir x y kx hx a))" "ht t = ht y \<or> ht t = ht y + 1"
proof -
  let ?t = "node_on dir x y kx hx a" and ?H = "st_nodes s"
  have hold: "holds ?H ?t" and dist: "distinct (addrs ?t)" and apart: "set (path_addrs cs) \<inter> set (addrs ?t) = {}"
    and dom: "dom ?H = set (path_addrs cs) \<union> set (addrs ?t)"
    using rep by (simp_all add: represents_fill)
  obtain nx where nx: "?H x = Some nx" "nkey nx = kx" "node_child dir nx = Some py"
      "node_child (\<not> dir) nx = root_ptr a" "nheight nx = hx" "holds ?H a" "holds ?H y"
    using hold y by (auto simp: holds_node_on)
  obtain ny where ny: "?H py = Some ny" "nkey ny = ky" "node_child dir ny = root_ptr d"
      "node_child (\<not> dir) ny = root_ptr z" "holds ?H d" "holds ?H z"
    using nx(7) unfolding y by (auto simp: holds_node_on)
  note heights = node_height_holds [OF ny(5)] node_height_holds [OF ny(6)]
  show thesis
  proof (cases "ht z > ht d")
    case True
    then have "z \<noteq> Leaf"
      using avl(1) ht_nonneg [of d] by (auto simp: y)
    then obtain pz c kz hz b where z: "z = node_on dir pz c kz hz b"
      by (rule node_on_cases)
    obtain nz where nz: "?H pz = Some nz" "nkey nz = kz" "node_child dir nz = root_ptr c"
        "node_child (\<not> dir) nz = root_ptr b" "holds ?H c" "holds ?H b" "nheight nz = hz"
      using ny(6) unfolding z by (auto simp: holds_node_on)
    let ?t' = "node_on dir pz (node_on dir py d ky hz c) kz (hz + 1) (node_on dir x b kx hz a)"
    let ?H' = "?H(x \<mapsto> (with_child dir (node_child (\<not> dir) nz) nx)\<lparr>nheight := hz\<rparr>,
       py \<mapsto> (with_child (\<not> dir) (node_child dir nz) ny)\<lparr>nheight := hz\<rparr>,
       pz \<mapsto> (with_child dir (Some py) (with_child (\<not> dir) (Some x) nz))\<lparr>nheight := hz + 1\<rparr>)"
    have neq: "x \<noteq> py" "x \<noteq> pz" "py \<noteq> pz"
      using dist by (auto simp: y z)
    have "holds ?H' ?t'"
      using dist nx ny nz neq unfolding holds_node_on by (auto simp: y z holds_upd)
    moreover have "distinct (addrs ?t')" "set (path_addrs cs) \<inter> set (addrs ?t') = {}"
      using dist apart by (auto simp: y z)
    moreover have "dom ?H' = set (path_addrs cs) \<union> set (addrs ?t')"
      using dom by (auto simp: y z)
    moreover have "?H' p = ?H p" if "p \<in> set (path_addrs cs)" for p
      using that apart by (auto simp: y z)
    ultimately obtain s' where s': "set_link (path_link cs) (root_ptr ?t') (s\<lparr>st_nodes := ?H'\<rparr>) = Some s'"
      "represents s' (fill cs ?t')" "\<And>p. p \<in> set (addrs ?t') \<Longrightarrow> st_nodes s' p = ?H' p"
      using represents_replace [OF rep, of ?H' ?t'] by blast
    have "rot (path_link cs) x dir s = Some (ht ?t' - hx, s')"
      using nx(1,3,5) ny(1,3,4) nz(1,7) heights(1) True s'(1) s'(3) [of pz] rot_double_result [OF nx(1) ny(1) nz(1) neq, of dir hz] z
      by (simp add: rot_def set_link_lens)
    moreover have "avl ?t'" "ht ?t' = ht y"
      using avl deep True by (auto simp: y z)
    moreover have "inorder ?t' = inorder ?t" "set (addrs ?t') = set (addrs ?t)"
      by (auto simp: y z inorder_node_on)
    ultimately show thesis
      using that s'(2) by blast
  next
    case False
    let ?t' = "node_on dir py d ky (ht z + 2) (node_on dir x z kx (ht z + 1) a)"
    let ?H' = "?H(x \<mapsto> (with_child dir (root_ptr z) nx)\<lparr>nheight := ht z + 1\<rparr>,
       py \<mapsto> (with_child (\<not> dir) (Some x) ny)\<lparr>nheight := ht z + 2\<rparr>)"
    have neq: "x \<noteq> py"
      using dist by (auto simp: y)
    have "holds ?H' ?t'"
      using dist nx ny neq unfolding holds_node_on by (auto simp: y holds_upd)
    moreover have "distinct (addrs ?t')" "set (path_addrs cs) \<inter> set (addrs ?t') = {}"
      using dist apart by (auto simp: y)
    moreover have "dom ?H' = set (path_addrs cs) \<union> set (addrs ?t')"
      using dom by (auto simp: y)
    moreover have "?H' p = ?H p" if "p \<in> set (path_addrs cs)" for p
      using that apart by (auto simp: y)
    ultimately obtain s' where s': "set_link (path_link cs) (root_ptr ?t') (s\<lparr>st_nodes := ?H'\<rparr>) = Some s'"
      "represents s' (fill cs ?t')" "\<And>p. p \<in> set (addrs ?t') \<Longrightarrow> st_nodes s' p = ?H' p"
      using represents_replace [OF rep, of ?H' ?t'] by blast
    have "rot (path_link cs) x dir s = Some (ht ?t' - hx, s')"
      using nx(1,3,5) ny(1,3,4) heights False s'(1) s'(3) [of py] rot_single_result [OF nx(1) ny(1) neq, of "root_ptr z" dir "ht z"]
      by (simp add: rot_def set_link_lens)
    moreover have "avl ?t'" "ht ?t' = ht y \<or> ht ?t' = ht y + 1"
      using avl deep False by (auto simp: y)
    moreover have "inorder ?t' = inorder ?t" "set (addrs ?t') = set (addrs ?t)"
      by (auto simp: y inorder_node_on)
    ultimately show thesis
      using that s'(2) by blast
  qed
qed

lemma wrapped_difference: "\<bar>d\<bar> \<le> 2 \<Longrightarrow> (d + 1) mod 2 ^ 32 < (3 :: int) \<longleftrightarrow> \<bar>d\<bar> \<le> 1"
proof -
  assume "\<bar>d\<bar> \<le> 2"
  then consider "d = - 2" | "d = - 1" | "d = 0" | "d = 1" | "d = 2"
    by linarith
  then show "(d + 1) mod 2 ^ 32 < (3 :: int) \<longleftrightarrow> \<bar>d\<bar> \<le> 1"
    by cases simp_all
qed

lemma balance_rotates:
  assumes rep: "represents s (fill cs (Node p l k h r))"
    and avl: "avl l" "avl r" and deep: "\<bar>ht l - ht r\<bar> = 2"
  obtains t s' where "rot (path_link cs) p (ht l < ht r) s = Some (ht t - h, s')" "represents s' (fill cs t)"
    "avl t" "inorder t = inorder (Node p l k h r)" "set (addrs t) = set (addrs (Node p l k h r))"
    "ht t = max (ht l) (ht r) \<or> ht t = max (ht l) (ht r) + 1"
proof (cases "ht l < ht r")
  case True
  then have deep: "ht r = ht l + 2" "r \<noteq> Leaf"
    using ht_nonneg [OF avl(1)] deep by auto
  obtain p' u k' h' v where r: "r = node_on True p' u k' h' v"
    using deep(2) by (rule node_on_cases)
  have node: "Node p l k h r = node_on True p r k h l"
    by (simp add: node_on_def)
  obtain t s' where "rot (path_link cs) p True s = Some (ht t - h, s')" "represents s' (fill cs t)"
    "avl t" "inorder t = inorder (node_on True p r k h l)" "set (addrs t) = set (addrs (node_on True p r k h l))"
    "ht t = ht r \<or> ht t = ht r + 1"
    by (rule rot_result [OF rep [unfolded node] r avl(2,1) deep(1)])
  with True show thesis
    unfolding node [symmetric] by (intro that [of t s']) simp_all
next
  case False
  then have deep: "ht l = ht r + 2" "l \<noteq> Leaf"
    using ht_nonneg [OF avl(2)] deep by auto
  obtain p' u k' h' v where l: "l = node_on False p' u k' h' v"
    using deep(2) by (rule node_on_cases)
  have node: "Node p l k h r = node_on False p l k h r"
    by (simp add: node_on_def)
  obtain t s' where "rot (path_link cs) p False s = Some (ht t - h, s')" "represents s' (fill cs t)"
    "avl t" "inorder t = inorder (node_on False p l k h r)" "set (addrs t) = set (addrs (node_on False p l k h r))"
    "ht t = ht l \<or> ht t = ht l + 1"
    by (rule rot_result [OF rep [unfolded node] l avl deep(1)])
  with False show thesis
    unfolding node [symmetric] by (intro that [of t s']) simp_all
qed

text \<open>
  Balancing a node whose subtrees are balanced and differ by two at most: the result is
  balanced, has the same keys and nodes, and the change of the height is returned.
\<close>

lemma balance_result:
  assumes rep: "represents s (fill cs (Node p l k h r))"
    and avl: "avl l" "avl r" and diff: "\<bar>ht l - ht r\<bar> \<le> 2"
  obtains t s' where "tsearch_balance (path_link cs) s = Some (ht t - h, s')" "represents s' (fill cs t)"
    "avl t" "inorder t = inorder (Node p l k h r)" "set (addrs t) = set (addrs (Node p l k h r))"
    "\<bar>ht l - ht r\<bar> \<le> 1 \<Longrightarrow> ht t = max (ht l) (ht r) + 1"
    "\<bar>ht l - ht r\<bar> = 2 \<Longrightarrow> ht t = max (ht l) (ht r) \<or> ht t = max (ht l) (ht r) + 1"
proof -
  have link: "get_link (path_link cs) s = Some (Some p)"
    using rep get_link_path [of s cs] by (simp add: represents_fill)
  have node: "st_nodes s p = Some \<lparr>nkey = k, child0 = root_ptr l, child1 = root_ptr r, nheight = h\<rparr>"
    and sub: "holds (st_nodes s) l" "holds (st_nodes s) r"
    using rep by (simp_all add: represents_fill)
  have start: "tsearch_balance (path_link cs) s =
      (if \<bar>ht l - ht r\<bar> \<le> 1
       then map_option (Pair ((if ht l < ht r then ht r + 1 else ht l + 1) - h))
         (set_height p (if ht l < ht r then ht r + 1 else ht l + 1) s)
       else rot (path_link cs) p (ht l < ht r) s)"
    using wrapped_difference [OF diff] sub [THEN node_height_holds] node
    by (simp add: tsearch_balance_def link get_child_def node_child_def set_height_def Let_def)
  show thesis
  proof (cases "\<bar>ht l - ht r\<bar> \<le> 1")
    case True
    let ?h = "if ht l < ht r then ht r + 1 else ht l + 1"
    let ?H = "(st_nodes s)(p \<mapsto> \<lparr>nkey = k, child0 = root_ptr l, child1 = root_ptr r, nheight = ?h\<rparr>)"
    have "represents (s\<lparr>st_nodes := ?H\<rparr>) (fill cs (Node p l k ?h r))"
      using rep by (auto simp: represents_fill holds_upd holds_path_upd)
    moreover have "tsearch_balance (path_link cs) s = Some (?h - h, s\<lparr>st_nodes := ?H\<rparr>)"
      using True node unfolding start by (simp add: set_height_def)
    ultimately show thesis
      using True avl by (intro that [of "Node p l k ?h r" "s\<lparr>st_nodes := ?H\<rparr>"]) auto
  next
    case False
    then have deep: "\<bar>ht l - ht r\<bar> = 2"
      using diff by linarith
    from balance_rotates [OF rep avl this] obtain t s' where
      t: "rot (path_link cs) p (ht l < ht r) s = Some (ht t - h, s')" "represents s' (fill cs t)"
      "avl t" "inorder t = inorder (Node p l k h r)" "set (addrs t) = set (addrs (Node p l k h r))"
      "ht t = max (ht l) (ht r) \<or> ht t = max (ht l) (ht r) + 1" .
    with False show thesis
      by (intro that [of t s']) (simp_all add: start)
  qed
qed

section \<open>Balancing upwards\<close>

lemma avl_fill1: "avl (fill1 c a) \<Longrightarrow> avl b \<Longrightarrow> ht b = ht a \<Longrightarrow> avl (fill1 c b)"
  by (cases c) simp

lemma ht_fill1: "ht (fill1 c a) = ht (fill1 c b)"
  by (cases c) simp

lemma avl_fill_hole: "avl (fill cs a) \<Longrightarrow> avl a"
proof (induction cs arbitrary: a)
  case (Cons c cs)
  then have "avl (fill1 c a)"
    by simp
  then show ?case
    by (cases c) simp
qed simp

lemma avl_fill_same:
  assumes "avl (fill cs a)" and "avl b" and "ht b = ht a"
  shows "avl (fill cs b)"
  using assms
proof (induction cs arbitrary: a b)
  case (Cons c cs)
  have "avl (fill1 c a)"
    using Cons.prems(1) by (simp add: avl_fill_hole)
  then have "avl (fill1 c b)"
    using Cons.prems(2,3) by (rule avl_fill1)
  then show ?case
    using Cons.IH [of "fill1 c a" "fill1 c b", OF _ _ ht_fill1] Cons.prems(1) by simp
qed simp

text \<open>The keys before and after the hole.\<close>

fun path_left :: "'k frame list \<Rightarrow> 'k list" where
  "path_left [] = []"
| "path_left (Frame dir p k h u # cs) = path_left cs @ (if dir then inorder u @ [k] else [])"

fun path_right :: "'k frame list \<Rightarrow> 'k list" where
  "path_right [] = []"
| "path_right (Frame dir p k h u # cs) = (if dir then [] else k # inorder u) @ path_right cs"

lemma inorder_fill: "inorder (fill cs t) = path_left cs @ inorder t @ path_right cs"
  by (induction cs "root_ptr t" arbitrary: t rule: path_root.induct) (auto simp: inorder_node_on)

text \<open>
  A balanced tree \<open>t\<close> has replaced \<open>t0\<close> at the end of a path of a balanced tree, and its
  height differs by one at most: balancing upwards along the path gives a balanced tree.
\<close>

lemma insert_up_result:
  assumes "represents s (fill cs t)" and "avl (fill cs t0)" and "avl t" and "\<bar>ht t - ht t0\<bar> \<le> 1"
  shows "\<exists>s' T. insert_up (tl (path_links cs)) s = Some s' \<and> represents s' T \<and> avl T \<and>
    inorder T = inorder (fill cs t) \<and> set (addrs T) = set (addrs (fill cs t))"
  using assms
proof (induction cs arbitrary: s t t0)
  case (Cons c cs)
  obtain dir p k h u where c: "c = Frame dir p k h u"
    by (cases c)
  define l r where "l = (if dir then u else t)" and "r = (if dir then t else u)"
  have node: "fill1 c t = Node p l k h r"
    by (simp add: c l_def r_def node_on_def)
  have old: "avl (fill1 c t0)"
    using Cons.prems(2) avl_fill_hole [of cs "fill1 c t0"] by simp
  then have sub: "avl l" "avl r" "\<bar>ht l - ht r\<bar> \<le> 2"
    and h: "h = max (ht t0) (ht u) + 1" "\<bar>ht t0 - ht u\<bar> \<le> 1"
    using Cons.prems(3,4) by (auto simp: c l_def r_def)
  have lr: "max (ht l) (ht r) = max (ht t) (ht u)" "\<bar>ht l - ht r\<bar> = \<bar>ht t - ht u\<bar>"
    by (auto simp: l_def r_def max.commute)
  have "represents s (fill cs (Node p l k h r))"
    using Cons.prems(1) node by simp
  then obtain t' s' where
    t': "tsearch_balance (path_link cs) s = Some (ht t' - h, s')" "represents s' (fill cs t')" "avl t'"
      "inorder t' = inorder (fill1 c t)" "set (addrs t') = set (addrs (fill1 c t))"
      "\<bar>ht l - ht r\<bar> \<le> 1 \<Longrightarrow> ht t' = max (ht l) (ht r) + 1"
      "\<bar>ht l - ht r\<bar> = 2 \<Longrightarrow> ht t' = max (ht l) (ht r) \<or> ht t' = max (ht l) (ht r) + 1"
    unfolding node by (rule balance_result [OF _ sub]) blast
  have change: "\<bar>ht t' - h\<bar> \<le> 1"
    using t'(6,7) sub(3) h Cons.prems(4) unfolding lr by linarith
  have links: "path_links cs = path_link cs # tl (path_links cs)"
    by (metis list.collapse path_links_simps(1,2))
  have same: "inorder (fill cs t') = inorder (fill (c # cs) t)"
    "set (addrs (fill cs t')) = set (addrs (fill (c # cs) t))"
    using t'(4,5) by (simp_all add: inorder_fill addrs_fill)
  show ?case
  proof (cases "ht t' = h")
    case True
    have "avl (fill cs t')"
      using Cons.prems(2) t'(3) True avl_fill_same [of cs "fill1 c t0" t'] by (simp add: c)
    then show ?thesis
      using t'(1,2) True same by (subst path_links.simps, subst links) (simp, blast)
  next
    case False
    have "\<exists>s'' T. insert_up (tl (path_links cs)) s' = Some s'' \<and> represents s'' T \<and> avl T \<and>
      inorder T = inorder (fill cs t') \<and> set (addrs T) = set (addrs (fill cs t'))"
      using Cons.IH [OF t'(2) _ t'(3), of "fill1 c t0"] Cons.prems(2) change by (simp add: c)
    then show ?thesis
      using t'(1) False same by (subst path_links.simps, subst links) simp
  qed
qed auto

lemma delete_up_insert_up: "delete_up (ls @ [l]) s = insert_up ls s"
proof (induction ls arbitrary: s)
  case (Cons l' ls)
  then show ?case
    by (cases ls) (auto split: option.splits)
qed simp

section \<open>The height of balanced trees\<close>

fun min_nodes :: "nat \<Rightarrow> nat" where
  "min_nodes 0 = 0"
| "min_nodes (Suc 0) = 1"
| "min_nodes (Suc (Suc h)) = min_nodes (Suc h) + min_nodes h + 1"

lemma min_nodes_mono: "min_nodes h \<le> min_nodes (Suc h)"
  by (induction h rule: min_nodes.induct) auto

lemma min_nodes_double: "min_nodes (Suc h) \<le> 2 * min_nodes h + 1"
  using min_nodes_mono by (cases h rule: min_nodes.cases) auto

lemma min_nodes_growth: "4 * (min_nodes h + 1) \<le> min_nodes (h + 3) + 1"
proof (cases h)
  case (Suc i)
  then show ?thesis
    using min_nodes_double [of i] by (simp add: numeral_eq_Suc)
qed (simp add: numeral_eq_Suc)

lemma min_nodes_power: "5 * 4 ^ k \<le> min_nodes (3 * k + 3) + 1"
proof (induction k)
  case (Suc k)
  then show ?case
    using min_nodes_growth [of "3 * k + 3"] by (simp add: algebra_simps)
qed (simp add: numeral_eq_Suc)

lemma min_nodes_le:
  assumes "avl t"
  shows "min_nodes (nat (ht t)) \<le> length (addrs t)"
  using assms
proof (induction t)
  case (Node p l k h r)
  define a b where "a = nat (ht l)" and "b = nat (ht r)"
  have sub: "min_nodes a \<le> length (addrs l)" "min_nodes b \<le> length (addrs r)" "ht l = int a" "ht r = int b"
    using Node ht_nonneg by (auto simp: a_def b_def)
  have mono: "min_nodes i \<le> min_nodes j" if "i \<le> j" for i j
    using lift_Suc_mono_le [of min_nodes, OF min_nodes_mono that] .
  have "nat h = Suc (max a b)" "a \<le> b + 1" "b \<le> a + 1"
    using Node.prems sub(3,4) by auto
  moreover have "min_nodes (Suc (max a b)) \<le> min_nodes a + min_nodes b + 1"
  proof (cases "max a b")
    case (Suc m)
    have "min_nodes (Suc m) + min_nodes m \<le> min_nodes a + min_nodes b"
      using Suc calculation(2,3) mono [of m a] mono [of m b] by (cases "a \<le> b") auto
    then show ?thesis
      using Suc by simp
  qed simp
  ultimately show ?case
    using sub(1,2) by simp
qed simp

text \<open>There are at most \<open>2 ^ 32\<close> nodes, so that the stacks of links are high enough.\<close>

lemma avl_height_bound:
  assumes "avl t" and "distinct (addrs t)"
  shows "ht t < 48"
proof (rule ccontr)
  assume "\<not> ht t < 48"
  then have "48 \<le> nat (ht t)"
    by simp
  then have "min_nodes 48 \<le> min_nodes (nat (ht t))"
    using lift_Suc_mono_le [of min_nodes, OF min_nodes_mono] by blast
  moreover have "5 * 4 ^ 15 \<le> min_nodes 48 + 1"
    using min_nodes_power [of 15] by simp
  moreover have "length (addrs t) \<le> 2 ^ 32"
    using distinct_card [OF assms(2)] card_mono [OF finite subset_UNIV, of "set (addrs t)"] by (simp add: card_word)
  ultimately show False
    using min_nodes_le [OF assms(1)] by simp
qed

end
