(* ===== verification/Refined_Calls.thy ===== *)
theory Refined_Calls
  imports Main
begin

text \<open>
  Sequences of calls of a component against its specification: when every single call is
  defined, keeps the invariant and meets the specification, then so does every sequence.
\<close>

fun run_calls :: "('q \<Rightarrow> 's \<Rightarrow> ('r \<times> 's) option) \<Rightarrow> 'q list \<Rightarrow> 's \<Rightarrow> ('r list \<times> 's) option" where
  "run_calls step [] s = Some ([], s)"
| "run_calls step (q # qs) s = (case step q s of
      None \<Rightarrow> None
    | Some (r, s) \<Rightarrow> map_option (\<lambda>(rs, s). (r # rs, s)) (run_calls step qs s))"

fun spec_run :: "('q \<Rightarrow> 'a \<Rightarrow> 'r \<Rightarrow> 'a \<Rightarrow> bool) \<Rightarrow> 'q list \<Rightarrow> 'a \<Rightarrow> 'r list \<Rightarrow> 'a \<Rightarrow> bool" where
  "spec_run spec [] a rs b \<longleftrightarrow> rs = [] \<and> b = a"
| "spec_run spec (q # qs) a rs b \<longleftrightarrow>
     (\<exists>r rs' a'. rs = r # rs' \<and> spec q a r a' \<and> spec_run spec qs a' rs' b)"

locale refined_calls =
  fixes step :: "'q \<Rightarrow> 's \<Rightarrow> ('r \<times> 's) option"
    and inv :: "'s \<Rightarrow> bool"
    and abs :: "'s \<Rightarrow> 'a"
    and spec :: "'q \<Rightarrow> 'a \<Rightarrow> 'r \<Rightarrow> 'a \<Rightarrow> bool"
  assumes call: "inv s \<Longrightarrow> \<exists>r s'. step q s = Some (r, s') \<and> inv s' \<and> spec q (abs s) r (abs s')"
begin

lemma calls:
  "inv s \<Longrightarrow> \<exists>rs s'. run_calls step qs s = Some (rs, s') \<and> inv s' \<and> spec_run spec qs (abs s) rs (abs s')"
proof (induction qs arbitrary: s)
  case (Cons q qs)
  from call [OF Cons.prems, of q] obtain r s1 where
    one: "step q s = Some (r, s1)" "inv s1" "spec q (abs s) r (abs s1)"
    by blast
  from Cons.IH [OF one(2)] obtain rs s' where
    "run_calls step qs s1 = Some (rs, s')" "inv s'" "spec_run spec qs (abs s1) rs (abs s')"
    by blast
  with one show ?case
    by auto
qed simp

end

end
