(* ===== verification/Search_Tree_Ops.thy ===== *)
theory Search_Tree_Ops
  imports Search_Tree_Inv Refined_Calls Comparison
begin

text \<open>
  The operations on search trees implement a set of keys: \<open>tsearch\<close> adds a key, \<open>tdelete\<close>
  removes one, \<open>tfind\<close> finds one, all up to the equivalence of the comparison function;
  \<open>twalk\<close> visits the nodes in order and \<open>tdestroy\<close> frees every node once.
\<close>

section \<open>Searching\<close>

text \<open>The turns taken on the way to a key.\<close>

fun path_ok :: "('k \<Rightarrow> 'k \<Rightarrow> int) \<Rightarrow> 'k \<Rightarrow> 'k frame list \<Rightarrow> bool" where
  "path_ok cmp x [] = True"
| "path_ok cmp x (Frame dir p k h u # cs) \<longleftrightarrow> (if dir then cmp x k > 0 else cmp x k < 0) \<and> path_ok cmp x cs"

fun find_path :: "('k \<Rightarrow> 'k \<Rightarrow> int) \<Rightarrow> 'k \<Rightarrow> 'k frame list \<Rightarrow> 'k tree \<Rightarrow> 'k frame list \<times> 'k tree" where
  "find_path cmp x cs Leaf = (cs, Leaf)"
| "find_path cmp x cs (Node p l k h r) =
     (if cmp x k = 0 then (cs, Node p l k h r)
      else if cmp x k > 0 then find_path cmp x (Frame True p k h l # cs) r
      else find_path cmp x (Frame False p k h r # cs) l)"

lemma find_path_fill:
  assumes "find_path cmp x cs t = (cs', t')"
  shows "fill cs' t' = fill cs t" "path_ok cmp x cs \<Longrightarrow> path_ok cmp x cs'"
    "t' \<noteq> Leaf \<Longrightarrow> cmp x (key t') = 0"
  using assms
  by (induction cmp x cs t rule: find_path.induct) (auto simp: node_on_def split: if_splits)

lemma child_heights: "avl (Node p l k h r) \<Longrightarrow> ht l < h \<and> ht r < h"
  by auto

lemma tsearch_loop_path:
  assumes "holds (st_nodes s) t" and "avl t" and "int (length cs) + ht t < 48"
    and "find_path cmp x cs t = (cs', t')"
  shows "tsearch_loop cmp x s (path_links cs) (root_ptr t) =
    Some (case t' of Leaf \<Rightarrow> Inr (path_links cs') | Node p l k h r \<Rightarrow> Inl p)"
  using assms
proof (induction cmp x cs t rule: find_path.induct)
  case (1 cmp x cs)
  then show ?case
    by (simp add: tsearch_loop.simps)
next
  case (2 cmp x cs p l k h r)
  have room: "\<not> MAXH \<le> length (path_links cs)"
    using "2.prems"(2,3) child_heights [OF "2.prems"(2)] ht_nonneg [of l] by (auto simp: MAXH_def)
  show ?case
    using 2 room child_heights [OF "2.prems"(2)]
    by (subst tsearch_loop.simps) (auto simp: Let_def node_child_def)
qed

lemma tdelete_loop_path:
  assumes "holds (st_nodes s) t" and "avl t" and "int (length cs) + ht t < 48"
    and "find_path cmp x cs t = (cs', t')"
  shows "tdelete_loop cmp x s (path_links cs @ [Rootp]) (root_ptr t) =
    Some (case t' of Leaf \<Rightarrow> None | Node p l k h r \<Rightarrow> Some (p, path_links cs' @ [Rootp]))"
  using assms
proof (induction cmp x cs t rule: find_path.induct)
  case (1 cmp x cs)
  then show ?case
    by (simp add: tdelete_loop.simps)
next
  case (2 cmp x cs p l k h r)
  have room: "\<not> MAXH + 1 \<le> length (path_links cs @ [Rootp])"
    using "2.prems"(2,3) child_heights [OF "2.prems"(2)] ht_nonneg [of l] by (auto simp: MAXH_def)
  show ?case
    using 2 room child_heights [OF "2.prems"(2)]
    by (subst tdelete_loop.simps) (auto simp: Let_def node_child_def)
qed

lemma tfind_loop_path:
  assumes "holds (st_nodes s) t" and "find_path cmp x cs t = (cs', t')"
  shows "tfind_loop cmp x s (root_ptr t) = Some (root_ptr t')"
  using assms
proof (induction cmp x cs t rule: find_path.induct)
  case (1 cmp x cs)
  then show ?case
    by (auto simp: tfind_loop.simps)
next
  case (2 cmp x cs p l k h r)
  then show ?case
    by (subst tfind_loop.simps) (auto simp: Let_def node_child_def)
qed

section \<open>Paths and keys\<close>

lemma path_height: "avl (fill cs t) \<Longrightarrow> int (length cs) + ht t \<le> ht (fill cs t)"
proof (induction cs arbitrary: t)
  case (Cons c cs)
  have "ht t < ht (fill1 c t)"
    using avl_fill_hole [of cs "fill1 c t"] Cons.prems by (cases c) auto
  then show ?case
    using Cons by force
qed simp

lemma fill_append: "fill (es @ cs) t = fill cs (fill es t)"
  by (induction es arbitrary: t) auto

text \<open>Balancing moves nodes but leaves each node its key.\<close>

definition node_keys :: "'k tree_state \<Rightarrow> u32 \<rightharpoonup> 'k" where
  "node_keys s p = map_option nkey (st_nodes s p)"

lemma setters_keep_keys:
  "set_child p dir q s = Some s' \<Longrightarrow> node_keys s' = node_keys s"
  "set_height p h s = Some s' \<Longrightarrow> node_keys s' = node_keys s"
  "set_link l q s = Some s' \<Longrightarrow> node_keys s' = node_keys s"
proof -
  show child: "node_keys s' = node_keys s" if "set_child p dir q s = Some s'" for p dir
    using that by (auto simp: set_child_def node_keys_def fun_eq_iff split: option.splits)
  show "set_height p h s = Some s' \<Longrightarrow> node_keys s' = node_keys s"
    by (auto simp: set_height_def node_keys_def fun_eq_iff split: option.splits)
  show "set_link l q s = Some s' \<Longrightarrow> node_keys s' = node_keys s"
    using child by (cases l) (auto simp: node_keys_def)
qed

lemma rot_keeps_keys: "rot l x dir s = Some (d, s') \<Longrightarrow> node_keys s' = node_keys s"
  by (auto simp: rot_def rot_double_def rot_single_def bind_eq_Some_conv split: if_splits
      dest!: setters_keep_keys)

lemma balance_keeps_keys: "tsearch_balance l s = Some (d, s') \<Longrightarrow> node_keys s' = node_keys s"
  by (auto simp: tsearch_balance_def bind_eq_Some_conv Let_def split: if_splits
      dest!: setters_keep_keys rot_keeps_keys)

lemma insert_up_keeps_keys: "insert_up ls s = Some s' \<Longrightarrow> node_keys s' = node_keys s"
  by (induction ls arbitrary: s) (auto split: option.splits prod.splits if_splits dest: balance_keeps_keys)

definition stored_keys :: "'k tree_state \<Rightarrow> 'k set" where
  "stored_keys s = ran (node_keys s)"

lemma holds_node:
  "holds H t \<Longrightarrow> p \<in> set (addrs t) \<Longrightarrow> \<exists>n. H p = Some n \<and> nkey n \<in> set (inorder t)"
  by (induction t) auto

lemma holds_key:
  "holds H t \<Longrightarrow> k \<in> set (inorder t) \<Longrightarrow> \<exists>p n. H p = Some n \<and> nkey n = k"
  by (induction t) fastforce+

lemma stored_keys_represents: "represents s t \<Longrightarrow> stored_keys s = set (inorder t)"
proof -
  assume rep: "represents s t"
  have "k \<in> set (inorder t)" if "st_nodes s p = Some n" "nkey n = k" for k p n
    using holds_node [of "st_nodes s" t p] rep that by (auto simp: represents_def)
  moreover have "\<exists>p n. st_nodes s p = Some n \<and> nkey n = k" if "k \<in> set (inorder t)" for k
    using holds_key [of "st_nodes s" t k] rep that by (auto simp: represents_def)
  ultimately show ?thesis
    by (fastforce simp: stored_keys_def ran_def node_keys_def)
qed

lemma rightmost_result:
  assumes "holds (st_nodes s) (Node p l k h r)" and "avl (Node p l k h r)" and "int (length cs) + h < 48"
  shows "\<exists>es m l' k' h'. rightmost_loop s (path_links cs @ [Rootp]) p = Some (m, path_links (es @ cs) @ [Rootp]) \<and>
    Node p l k h r = fill es (Node m l' k' h' Leaf) \<and> path_right es = []"
  using assms
proof (induction r arbitrary: cs p l k h)
  case Leaf
  then show ?case
    by (intro exI [of _ "[]"] exI [of _ p] exI [of _ l] exI [of _ k] exI [of _ h])
      (simp add: rightmost_loop.simps get_child_def node_child_def)
next
  case (Node p' l' k' h' r')
  let ?c = "Frame True p k h l"
  have "0 \<le> ht l'" "0 \<le> ht r'"
    using Node.prems(2) ht_nonneg by auto
  then have heights: "h' < h" "2 \<le> h"
    using Node.prems(2) by auto
  have "\<exists>es m l'' k'' h''. rightmost_loop s (path_links (?c # cs) @ [Rootp]) p' = Some (m, path_links (es @ ?c # cs) @ [Rootp]) \<and>
      Node p' l' k' h' r' = fill es (Node m l'' k'' h'' Leaf) \<and> path_right es = []"
    using Node.prems heights by (intro Node.IH(2)) auto
  then obtain es m l'' k'' h'' where
    ih: "rightmost_loop s (path_links (?c # cs) @ [Rootp]) p' = Some (m, path_links (es @ ?c # cs) @ [Rootp])"
      "Node p' l' k' h' r' = fill es (Node m l'' k'' h'' Leaf)" "path_right es = []"
    by blast
  have "rightmost_loop s (path_links cs @ [Rootp]) p = rightmost_loop s (path_links (?c # cs) @ [Rootp]) p'"
    using Node.prems heights
    by (subst rightmost_loop.simps) (auto simp: get_child_def node_child_def MAXH_def)
  moreover have "path_right (es @ [?c]) = []"
    using ih(3) by (induction es rule: path_right.induct) (auto split: if_splits)
  moreover have "Node p l k h (Node p' l' k' h' r') = fill (es @ [?c]) (Node m l'' k'' h'' Leaf)"
    unfolding fill_append using ih(2) by (simp add: node_on_def flip: ih(2))
  ultimately show ?case
    using ih(1) by (intro exI [of _ "es @ [?c]"]) auto
qed

section \<open>Order\<close>

text \<open>A state whose nodes form a balanced search tree, and nothing else.\<close>

definition tree_of :: "('k \<Rightarrow> 'k \<Rightarrow> int) \<Rightarrow> 'k tree_state \<Rightarrow> 'k tree \<Rightarrow> bool" where
  "tree_of cmp s T \<longleftrightarrow> represents s T \<and> avl T \<and> ascending cmp (inorder T)"

context comparing
begin

lemma path_sides:
  assumes "path_ok cmp x cs" and "ascending cmp (path_left cs @ ys @ path_right cs)"
  shows "(\<forall>y\<in>set (path_left cs). cmp y x < 0) \<and> (\<forall>y\<in>set (path_right cs). cmp x y < 0)"
  using assms
proof (induction cs arbitrary: ys)
  case (Cons c cs)
  obtain dir p k h u where c: "c = Frame dir p k h u"
    by (cases c)
  show ?case
  proof (cases dir)
    case True
    have IH: "(\<forall>y\<in>set (path_left cs). cmp y x < 0) \<and> (\<forall>y\<in>set (path_right cs). cmp x y < 0)"
      using Cons.IH [of "inorder u @ k # ys"] Cons.prems True by (simp add: c)
    have k: "cmp k x < 0"
      using Cons.prems(1) True flip [of x k] by (simp add: c)
    have "\<forall>y\<in>set (inorder u). cmp y k < 0"
      using Cons.prems(2) True by (simp add: c ascending_def sorted_wrt_append)
    then have "\<forall>y\<in>set (inorder u). cmp y x < 0"
      using cmp_less_le [of _ k x] k by (simp add: less_imp_le)
    then show ?thesis
      using IH True k by (auto simp: c)
  next
    case False
    have IH: "(\<forall>y\<in>set (path_left cs). cmp y x < 0) \<and> (\<forall>y\<in>set (path_right cs). cmp x y < 0)"
      using Cons.IH [of "ys @ k # inorder u"] Cons.prems False by (simp add: c)
    have k: "cmp x k < 0"
      using Cons.prems(1) False by (simp add: c)
    have "\<forall>y\<in>set (inorder u). cmp k y < 0"
      using Cons.prems(2) False by (simp add: c ascending_def sorted_wrt_append)
    then have "\<forall>y\<in>set (inorder u). cmp x y < 0"
      using cmp_le_less [of x k] k by (simp add: less_imp_le)
    then show ?thesis
      using IH False k by (auto simp: c)
  qed
qed simp

text \<open>Where the search for a key ends, and what that says of the keys.\<close>

lemma search_ends:
  assumes "ascending cmp (inorder T)" and path: "find_path cmp x [] T = (cs, t)"
  shows "T = fill cs t" "\<forall>y\<in>set (path_left cs). cmp y x < 0" "\<forall>y\<in>set (path_right cs). cmp x y < 0"
    "t = Leaf \<Longrightarrow> y \<in> set (inorder T) \<Longrightarrow> cmp x y \<noteq> 0"
    "t = Node p l k h r \<Longrightarrow> cmp x k = 0"
    "t = Node p l k h r \<Longrightarrow> {y \<in> set (inorder T). cmp x y \<noteq> 0} = set (path_left cs @ inorder l @ inorder r @ path_right cs)"
proof -
  show T: "T = fill cs t"
    using find_path_fill(1) [OF path] by simp
  have "path_ok cmp x cs"
    using find_path_fill(2) [OF path] by simp
  then have sides: "(\<forall>y\<in>set (path_left cs). cmp y x < 0) \<and> (\<forall>y\<in>set (path_right cs). cmp x y < 0)"
    using assms(1) by (intro path_sides [of x cs "inorder t"]) (simp_all add: T inorder_fill)
  then show "\<forall>y\<in>set (path_left cs). cmp y x < 0" "\<forall>y\<in>set (path_right cs). cmp x y < 0"
    by simp_all
  have out: "cmp x y \<noteq> 0" if "y \<in> set (path_left cs) \<union> set (path_right cs)" for y
    using that sides cmp_sym [of x y] by auto
  then show "t = Leaf \<Longrightarrow> y \<in> set (inorder T) \<Longrightarrow> cmp x y \<noteq> 0"
    by (auto simp: T inorder_fill)
  show k: "t = Node p l k h r \<Longrightarrow> cmp x k = 0"
    using find_path_fill(3) [OF path] by simp
  show "{y \<in> set (inorder T). cmp x y \<noteq> 0} = set (path_left cs @ inorder l @ inorder r @ path_right cs)"
    if t: "t = Node p l k h r"
  proof -
    have asc: "ascending cmp (inorder l @ k # inorder r)"
      using assms(1) by (simp add: T t inorder_fill ascending_def sorted_wrt_append)
    have "cmp x y \<noteq> 0" if "y \<in> set (inorder l) \<union> set (inorder r)" for y
    proof
      assume "cmp x y = 0"
      moreover have "cmp y x = 0" "cmp k x = 0"
        using calculation cmp_sym k [OF t] by blast+
      ultimately have "cmp k y \<le> 0" "cmp y k \<le> 0"
        using cmp_trans_le [of k x y] cmp_trans_le [of y x k] k [OF t] by simp_all
      moreover have "cmp y k < 0 \<or> cmp k y < 0"
        using asc that by (auto simp: ascending_def sorted_wrt_append)
      ultimately show False
        using flip [of k y] flip [of y k] by linarith
    qed
    with out k [OF t] show ?thesis
      by (auto simp: T t inorder_fill)
  qed
qed

lemma tree_ofD:
  assumes "tree_of cmp s T" and "find_path cmp x [] T = (cs, t)"
  shows "represents s (fill cs t)" "avl (fill cs t)" "holds (st_nodes s) T" "st_root s = root_ptr T"
    "avl T" "ht T < 48" "avl t" "int (length cs) + ht t < 48"
proof -
  have T: "T = fill cs t"
    using search_ends(1) assms by (simp add: tree_of_def)
  show "represents s (fill cs t)" "avl (fill cs t)" "holds (st_nodes s) T" "st_root s = root_ptr T" "avl T"
    using assms(1) by (simp_all add: tree_of_def represents_def flip: T)
  then show small: "ht T < 48" and "avl t"
    using avl_height_bound [of T] assms(1) avl_fill_hole [of cs t] by (simp_all add: tree_of_def represents_def T)
  show "int (length cs) + ht t < 48"
    using path_height [of cs t] small \<open>avl T\<close> by (simp add: T)
qed

lemma tfind_result:
  assumes "tree_of cmp s T"
  shows "\<exists>r. tfind cmp x True s = Some r \<and> (case r of
      None \<Rightarrow> \<forall>y\<in>set (inorder T). cmp x y \<noteq> 0
    | Some p \<Rightarrow> \<exists>y\<in>set (inorder T). node_keys s p = Some y \<and> cmp x y = 0)"
proof -
  obtain cs t where path: "find_path cmp x [] T = (cs, t)"
    by fastforce
  note tree = tree_ofD [OF assms path]
  have asc: "ascending cmp (inorder T)"
    using assms by (simp add: tree_of_def)
  have "tfind cmp x True s = Some (root_ptr t)"
    using tfind_loop_path [OF tree(3) path] tree(4) by (simp add: tfind_def)
  moreover have "case root_ptr t of None \<Rightarrow> \<forall>y\<in>set (inorder T). cmp x y \<noteq> 0
    | Some p \<Rightarrow> \<exists>y\<in>set (inorder T). node_keys s p = Some y \<and> cmp x y = 0"
  proof (cases t)
    case Leaf
    then show ?thesis
      using search_ends(4) [OF asc path] by simp
  next
    case (Node p l k h r)
    then show ?thesis
      using search_ends(1,5) [OF asc path] tree(1) by (simp add: represents_fill inorder_fill node_keys_def)
  qed
  ultimately show ?thesis
    by blast
qed

lemma tsearch_result:
  assumes inv: "tree_of cmp s T" and fresh: "\<And>p. malloc (st_nodes s) = Some p \<Longrightarrow> st_nodes s p = None"
  shows "\<exists>r s' T'. tsearch cmp malloc x True s = Some (r, s') \<and> tree_of cmp s' T' \<and> (case r of
      None \<Rightarrow> s' = s \<and> malloc (st_nodes s) = None \<and> (\<forall>y\<in>set (inorder T). cmp x y \<noteq> 0)
    | Some p \<Rightarrow> (\<exists>y. node_keys s' p = Some y \<and> cmp x y = 0) \<and>
        set (inorder T') = set (inorder T) \<union> (if \<exists>y\<in>set (inorder T). cmp x y = 0 then {} else {x}))"
proof -
  obtain cs t where path: "find_path cmp x [] T = (cs, t)"
    by fastforce
  note tree = tree_ofD [OF inv path]
  have asc: "ascending cmp (inorder T)"
    using inv by (simp add: tree_of_def)
  note ends = search_ends [OF asc path]
  have start: "tsearch_loop cmp x s [Rootp] (st_root s) =
      Some (case t of Leaf \<Rightarrow> Inr (path_links cs) | Node p l k h r \<Rightarrow> Inl p)"
    using tsearch_loop_path [OF tree(3,5) _ path] tree(4,6) by simp
  show ?thesis
  proof (cases t)
    case (Node p l k h r)
    then have "tsearch cmp malloc x True s = Some (Some p, s)" "node_keys s p = Some k" "cmp x k = 0"
      "k \<in> set (inorder T)"
      using start tree(1) ends(1,5) by (simp_all add: tsearch_def represents_fill node_keys_def inorder_fill)
    then show ?thesis
      using inv by (intro exI [of _ "Some p"] exI [of _ s] exI [of _ T]) auto
  next
    case Leaf
    note absent = ends(4) [OF Leaf]
    show ?thesis
    proof (cases "malloc (st_nodes s)")
      case None
      then have "tsearch cmp malloc x True s = Some (None, s)"
        using start Leaf by (simp add: tsearch_def)
      then show ?thesis
        using inv None absent by (intro exI [of _ None] exI [of _ s] exI [of _ T]) auto
    next
      case (Some p)
      let ?n = "\<lparr>nkey = x, child0 = None, child1 = None, nheight = 1\<rparr>"
      let ?t = "Node p Leaf x 1 Leaf" and ?H = "(st_nodes s)(p \<mapsto> ?n)"
      have new: "p \<notin> dom (st_nodes s)"
        using fresh [OF Some] by auto
      then have "p \<notin> set (path_addrs cs)"
        using tree(1) by (simp add: represents_fill)
      then obtain s1 where s1: "set_link (path_link cs) (Some p) (s\<lparr>st_nodes := ?H\<rparr>) = Some s1"
        "represents s1 (fill cs ?t)" "node_keys s1 p = Some x"
        using represents_replace [OF tree(1), of ?H ?t] tree(1) Leaf
        by (force simp: represents_fill node_keys_def)
      have "avl (fill cs Leaf)"
        using tree(2) Leaf by simp
      from insert_up_result [OF s1(2) this] obtain s2 T' where s2:
        "insert_up (tl (path_links cs)) s1 = Some s2" "represents s2 T'" "avl T'" "inorder T' = inorder (fill cs ?t)"
        by auto
      have "ascending cmp (inorder T')"
        using asc ends(2,3) cmp_less_le unfolding s2(4) ends(1) inorder_fill Leaf
        by (auto simp: ascending_def sorted_wrt_append)
      then have "tree_of cmp s2 T'"
        using s2 by (simp add: tree_of_def)
      moreover have "tsearch cmp malloc x True s = Some (Some p, s2)"
        using start Leaf Some s1(1) s2(1) by (simp add: tsearch_def)
      moreover have "node_keys s2 p = Some x"
        using insert_up_keeps_keys [OF s2(1)] s1(3) by simp
      moreover have "set (inorder T') = insert x (set (inorder T))"
        by (auto simp: s2(4) ends(1) Leaf inorder_fill)
      ultimately show ?thesis
        using absent by (intro exI [of _ "Some p"] exI [of _ s2] exI [of _ T']) (auto simp: cmp_self)
    qed
  qed
qed

lemma delete_at:
  assumes rep: "represents s (fill cs t)" and avl: "avl (fill cs t)"
    and t: "t = Node p Leaf k h u \<or> t = Node p u k h Leaf"
  obtains s' T where "(do { s \<leftarrow> set_link (path_link cs) (root_ptr u) (s\<lparr>st_nodes := (st_nodes s)(p := None)\<rparr>);
      delete_up (tl (path_links cs @ [Rootp])) s }) = Some s'"
    "represents s' T" "avl T" "inorder T = path_left cs @ inorder u @ path_right cs"
proof -
  let ?H = "(st_nodes s)(p := None)"
  have parts: "holds (st_nodes s) u" "p \<notin> set (addrs u)" "distinct (addrs u)" "set (addrs t) = insert p (set (addrs u))"
    "p \<notin> set (path_addrs cs)"
    using rep t by (auto simp: represents_fill)
  have new: "holds ?H u" "set (path_addrs cs) \<inter> set (addrs u) = {}" "dom ?H = set (path_addrs cs) \<union> set (addrs u)"
    "\<And>q. q \<in> set (path_addrs cs) \<Longrightarrow> ?H q = st_nodes s q"
    using rep parts by (auto simp: represents_fill holds_upd)
  obtain s1 where s1: "set_link (path_link cs) (root_ptr u) (s\<lparr>st_nodes := ?H\<rparr>) = Some s1"
    "represents s1 (fill cs u)"
    by (rule represents_replace [OF rep new(4,1) parts(3) new(2,3)])
  have "avl t"
    using avl by (rule avl_fill_hole)
  then have "avl u" "\<bar>ht u - ht t\<bar> \<le> 1"
    using t ht_nonneg [of u] by auto
  from insert_up_result [OF s1(2) avl this] obtain s2 T where s2:
    "insert_up (tl (path_links cs)) s1 = Some s2" "represents s2 T" "avl T" "inorder T = inorder (fill cs u)"
    by auto
  moreover have "delete_up (tl (path_links cs @ [Rootp])) s1 = insert_up (tl (path_links cs)) s1"
    by (simp add: delete_up_insert_up)
  ultimately show thesis
    using s1(1) by (intro that [of s2 T]) (simp_all add: inorder_fill)
qed

text \<open>The key of a node is overwritten.\<close>

lemma represents_rekey:
  assumes rep: "represents s (fill cs (Node p l k h r))" and "st_nodes s p = Some n"
  shows "represents (s\<lparr>st_nodes := (st_nodes s)(p \<mapsto> n\<lparr>nkey := k'\<rparr>)\<rparr>) (fill cs (Node p l k' h r))"
  using assms by (auto simp: represents_fill holds_upd holds_path_upd)

lemma path_link_Cons: "path_link (c # cs) = Child_link (fr_addr c) (fr_dir c)"
  by (cases c) simp

lemma path_links_rekey:
  "path_links (es @ Frame dir p k h u # cs) = path_links (es @ Frame dir p k' h u # cs)"
  by (induction es) (simp_all add: path_link_Cons)

lemma unlink_result:
  assumes rep: "represents s (fill cs (Node p l k h r))" and avl: "avl (fill cs (Node p l k h r))"
    and room: "int (length cs) + h < 48"
  obtains m cs' u t s' k' h' where
    "unlink_target p (path_links cs @ [Rootp]) s = Some (m, path_links cs' @ [Rootp], root_ptr u, s')"
    "represents s' (fill cs' t)" "avl (fill cs' t)" "t = Node m Leaf k' h' u \<or> t = Node m u k' h' Leaf"
    "path_left cs' @ inorder u @ path_right cs' = path_left cs @ inorder l @ inorder r @ path_right cs"
proof (cases l)
  case Leaf
  then show thesis
    using rep avl
    by (intro that [of p cs r s "Node p Leaf k h r" k h])
      (simp_all add: unlink_target_def get_child_def node_child_def represents_fill)
next
  case (Node p1 l1 k1 h1 r1)
  let ?n = "\<lparr>nkey = k, child0 = root_ptr l, child1 = root_ptr r, nheight = h\<rparr>"
  let ?c = "Frame False p k h r"
  have here: "st_nodes s p = Some ?n" "holds (st_nodes s) l"
    using rep by (simp_all add: represents_fill)
  have "avl (Node p l k h r)"
    using avl by (rule avl_fill_hole)
  then have l: "avl l" "ht l < h"
    by auto
  then have "int (length (?c # cs)) + h1 < 48"
    using room Node by simp
  then obtain es m l' k' h' where
    right: "rightmost_loop s (path_links (?c # cs) @ [Rootp]) p1 = Some (m, path_links (es @ ?c # cs) @ [Rootp])"
    and fill: "l = fill es (Node m l' k' h' Leaf)" and es: "path_right es = []"
    using rightmost_result [of s p1 l1 k1 h1 r1 "?c # cs"] here(2) l(1) unfolding Node by blast
  let ?s = "s\<lparr>st_nodes := (st_nodes s)(p \<mapsto> ?n\<lparr>nkey := k'\<rparr>)\<rparr>"
  let ?cs = "es @ Frame False p k' h r # cs" and ?t = "Node m l' k' h' Leaf"
  have tree: "fill ?cs ?t = fill cs (Node p l k' h r)"
    by (simp add: fill_append fill node_on_def)
  have rep': "represents ?s (fill ?cs ?t)"
    unfolding tree by (rule represents_rekey [OF rep here(1)])
  have m: "st_nodes s m = Some \<lparr>nkey = k', child0 = root_ptr l', child1 = None, nheight = h'\<rparr>"
    using here(2) unfolding fill holds_fill_iff by simp
  have "p \<notin> set (addrs l)"
    using rep by (simp add: represents_fill)
  then have "m \<noteq> p"
    unfolding fill addrs_fill by auto
  have "\<not> MAXH + 1 \<le> length (path_links cs @ [Rootp])"
    using room l ht_nonneg [OF l(1)] by (simp add: MAXH_def)
  then have "unlink_target p (path_links cs @ [Rootp]) s = Some (m, path_links ?cs @ [Rootp], root_ptr l', ?s)"
    using right here(1) m \<open>m \<noteq> p\<close> unfolding path_links_rekey [where k = k and k' = k']
    by (simp add: unlink_target_def get_child_def node_child_def Node)
  moreover have "avl (fill ?cs ?t)"
    unfolding tree using avl_fill_same [OF avl, of "Node p l k' h r"] \<open>avl (Node p l k h r)\<close> by simp
  moreover have "path_left ?cs @ inorder l' @ path_right ?cs = path_left cs @ inorder l @ inorder r @ path_right cs"
  proof -
    have "inorder (fill ?cs l') = path_left cs @ inorder (fill es l') @ k' # inorder r @ path_right cs"
      by (simp add: fill_append inorder_fill inorder_node_on)
    moreover have "inorder (fill es l') @ [k'] = inorder l"
      by (simp add: fill inorder_fill es)
    ultimately show ?thesis
      by (metis append.assoc append_Cons append_Nil inorder_fill)
  qed
  ultimately show thesis
    using rep' by (intro that [of m ?cs l' ?s ?t k' h']) simp_all
qed

lemma tdelete_result:
  assumes inv: "tree_of cmp s T"
  shows "\<exists>r s' T'. tdelete cmp x True s = Some (r, s') \<and> tree_of cmp s' T' \<and>
    (r = None \<longleftrightarrow> (\<forall>y\<in>set (inorder T). cmp x y \<noteq> 0)) \<and> (r = None \<longrightarrow> s' = s) \<and>
    set (inorder T') = {y \<in> set (inorder T). cmp x y \<noteq> 0}"
proof -
  obtain cs t where path: "find_path cmp x [] T = (cs, t)"
    by fastforce
  note tree = tree_ofD [OF inv path]
  have asc: "ascending cmp (inorder T)"
    using inv by (simp add: tree_of_def)
  note ends = search_ends [OF asc path]
  have start: "tdelete_loop cmp x s [Rootp, Rootp] (st_root s) =
      Some (case t of Leaf \<Rightarrow> None | Node p l k h r \<Rightarrow> Some (p, path_links cs @ [Rootp]))"
    using tdelete_loop_path [OF tree(3,5) _ path] tree(4,6) by simp
  show ?thesis
  proof (cases t)
    case Leaf
    then have "tdelete cmp x True s = Some (None, s)" "{y \<in> set (inorder T). cmp x y \<noteq> 0} = set (inorder T)"
      using start ends(4) by (auto simp: tdelete_def)
    then show ?thesis
      using inv ends(4) [OF Leaf] by (intro exI [of _ None] exI [of _ s] exI [of _ T]) auto
  next
    case (Node p l k h r)
    note rep = tree(1) [unfolded Node] and avl = tree(2) [unfolded Node]
    have room: "int (length cs) + h < 48"
      using tree(8) by (simp add: Node)
    obtain m cs' u t' s1 k' h' where
      target: "unlink_target p (path_links cs @ [Rootp]) s = Some (m, path_links cs' @ [Rootp], root_ptr u, s1)"
      and hole: "represents s1 (fill cs' t')" "avl (fill cs' t')" "t' = Node m Leaf k' h' u \<or> t' = Node m u k' h' Leaf"
      and keys: "path_left cs' @ inorder u @ path_right cs' = path_left cs @ inorder l @ inorder r @ path_right cs"
      by (rule unlink_result [OF rep avl room])
    obtain s2 T' where
      s2: "(do { s \<leftarrow> set_link (path_link cs') (root_ptr u) (s1\<lparr>st_nodes := (st_nodes s1)(m := None)\<rparr>);
        delete_up (tl (path_links cs' @ [Rootp])) s }) = Some s2"
      and T': "represents s2 T'" "avl T'" "inorder T' = path_left cs' @ inorder u @ path_right cs'"
      by (rule delete_at [OF hole])
    have "\<exists>q. get_link (hd (tl (path_links cs @ [Rootp]))) s = Some (Some q)"
    proof (cases cs)
      case Nil
      then show ?thesis
        using rep by (simp add: represents_def)
    next
      case (Cons c cs1)
      have "get_link (path_link cs1) s = Some (root_ptr (fill1 c (Node p l k h r)))"
        using rep get_link_path [of s cs1] by (simp add: Cons represents_fill)
      then show ?thesis
        by (cases c) (simp add: Cons)
    qed
    then obtain q where "get_link (hd (tl (path_links cs @ [Rootp]))) s = Some (Some q)"
      by blast
    then have "tdelete cmp x True s = Some (Some q, s2)"
      using start Node target s2 by (simp add: tdelete_def bind_eq_Some_conv)
    moreover have "tree_of cmp s2 T'"
      using T' asc unfolding keys ends(1) Node
      by (auto simp: tree_of_def inorder_fill ascending_def sorted_wrt_append)
    moreover have "set (inorder T') = {y \<in> set (inorder T). cmp x y \<noteq> 0}"
      unfolding ends(6) [OF Node] T'(3) keys ..
    moreover have "k \<in> set (inorder T)" "cmp x k = 0"
      using ends(1,5) Node by (simp_all add: inorder_fill)
    ultimately show ?thesis
      by (intro exI [of _ "Some q"] exI [of _ s2] exI [of _ T']) auto
  qed
qed

end

section \<open>Requests\<close>

datatype 'k request = Tsearch 'k | Tdelete 'k | Tfind 'k

text \<open>A call on a valid \<open>rootp\<close>, and the key of the node that it returns.\<close>

fun tree_request ::
  "('k \<Rightarrow> 'k \<Rightarrow> int) \<Rightarrow> ((u32 \<rightharpoonup> 'k node) \<Rightarrow> node_ptr) \<Rightarrow> 'k request \<Rightarrow> 'k tree_state \<Rightarrow>
   ((bool \<times> 'k option) \<times> 'k tree_state) option" where
  "tree_request cmp malloc (Tsearch x) s = (case tsearch cmp malloc x True s of
      None \<Rightarrow> None
    | Some (r, s') \<Rightarrow> Some ((r \<noteq> None, Option.bind r (node_keys s')), s'))"
| "tree_request cmp malloc (Tdelete x) s = (case tdelete cmp x True s of
      None \<Rightarrow> None
    | Some (r, s') \<Rightarrow> Some ((r \<noteq> None, None), s'))"
| "tree_request cmp malloc (Tfind x) s = (case tfind cmp x True s of
      None \<Rightarrow> None
    | Some r \<Rightarrow> Some ((r \<noteq> None, Option.bind r (node_keys s)), s))"

text \<open>
  The same on a set of keys.  The first part of a result tells whether the pointer is not
  null; \<open>tsearch\<close> fails to add a key only if the allocator has no memory for one more node
  beside as many nodes as there are keys.
\<close>

definition out_of_nodes :: "((u32 \<rightharpoonup> 'k node) \<Rightarrow> node_ptr) \<Rightarrow> nat \<Rightarrow> bool" where
  "out_of_nodes malloc n \<longleftrightarrow> (\<exists>H. card (dom H) = n \<and> malloc H = None)"

fun key_spec :: "('k \<Rightarrow> 'k \<Rightarrow> int) \<Rightarrow> (nat \<Rightarrow> bool) \<Rightarrow> 'k request \<Rightarrow> 'k set \<Rightarrow> bool \<times> 'k option \<Rightarrow> 'k set \<Rightarrow> bool" where
  "key_spec cmp full (Tsearch x) K r K' \<longleftrightarrow>
     (if \<exists>y\<in>K. cmp x y = 0 then K' = K \<and> (\<exists>y\<in>K. cmp x y = 0 \<and> r = (True, Some y))
      else K' = K \<and> r = (False, None) \<and> full (card K) \<or> K' = insert x K \<and> r = (True, Some x))"
| "key_spec cmp full (Tdelete x) K r K' \<longleftrightarrow>
     K' = {y \<in> K. cmp x y \<noteq> 0} \<and> r = (\<exists>y\<in>K. cmp x y = 0, None)"
| "key_spec cmp full (Tfind x) K r K' \<longleftrightarrow>
     K' = K \<and> (if \<exists>y\<in>K. cmp x y = 0 then \<exists>y\<in>K. cmp x y = 0 \<and> r = (True, Some y) else r = (False, None))"

end
