(* ===== verification/Search_Tree_Calls.thy ===== *)
theory Search_Tree_Calls
  imports Search_Tree_Ops
begin

text \<open>
  Properties of the search trees: sequences of calls against a set of keys, the walk over a
  tree and its destruction.  Strings compared with \<open>strcmp\<close>
  (\<open>libc-top-half/musl/src/string/strcmp.c\<close>) are the instance of the comparison.
\<close>

section \<open>Strings as keys\<close>

fun strcmp :: "u8 list \<Rightarrow> u8 list \<Rightarrow> int" where
  "strcmp (l # ls) (r # rs) = (if l = r \<and> l \<noteq> 0 then strcmp ls rs else uint l - uint r)"
| "strcmp [] (r # rs) = 0 - uint r"
| "strcmp (l # ls) [] = uint l - 0"
| "strcmp [] [] = 0"

lemma strcmp_flip: "strcmp r l = - strcmp l r"
  by (induction l r rule: strcmp.induct) auto

lemma strcmp_trans: "strcmp a b \<le> 0 \<Longrightarrow> strcmp b c \<le> 0 \<Longrightarrow> strcmp a c \<le> 0"
proof (induction a b arbitrary: c rule: strcmp.induct)
  case (1 l ls r rs)
  then show ?case
    by (cases c) (auto split: if_splits simp: word_uint_eq_iff)
next
  case (2 r rs)
  then show ?case
    by (cases c) (auto split: if_splits)
next
  case (3 l ls)
  then show ?case
    using uint_ge_0 [of l] by (cases c) (auto split: if_splits simp: uint_0_iff)
next
  case 4
  then show ?case
    by (cases c) auto
qed

lemma comparison_strcmp: "comparison strcmp"
  unfolding comparison_def using strcmp_trans strcmp_flip by (metis neg_0_less_iff_less)

interpretation string_keys: comparing strcmp
  by unfold_locales (rule comparison_strcmp)

section \<open>Walks\<close>

fun visits :: "nat \<Rightarrow> 'k tree \<Rightarrow> (u32 \<times> visit \<times> nat) list" where
  "visits d Leaf = []"
| "visits d (Node p l k h r) =
     (if l = Leaf \<and> r = Leaf then [(p, Leaf_visit, d)]
      else (p, Preorder, d) # visits (d + 1) l @ (p, Postorder, d) # visits (d + 1) r @ [(p, Endorder, d)])"

lemma height_one: "avl (Node p l k h r) \<Longrightarrow> h = 1 \<longleftrightarrow> l = Leaf \<and> r = Leaf"
  using ht_zero [of l] ht_zero [of r] ht_nonneg [of l] ht_nonneg [of r] by auto

lemma walk_visits: "holds (st_nodes s) t \<Longrightarrow> avl t \<Longrightarrow> walk s (root_ptr t) d = Some (visits d t)"
proof (induction t arbitrary: d)
  case Leaf
  then show ?case
    by (simp add: walk.simps)
next
  case (Node p l k h r)
  then show ?case
    using height_one [of p l k h r] by (subst walk.simps) auto
qed

definition visited_in_order :: "(u32 \<times> visit \<times> nat) list \<Rightarrow> u32 list" where
  "visited_in_order vs = map fst (filter (\<lambda>(p, v, d). v = Postorder \<or> v = Leaf_visit) vs)"

lemma visits_in_order: "visited_in_order (visits d t) = addrs t"
  by (induction d t rule: visits.induct) (auto simp: visited_in_order_def)

lemma addrs_keys: "holds (st_nodes s) t \<Longrightarrow> map (node_keys s) (addrs t) = map Some (inorder t)"
  by (induction t) (auto simp: node_keys_def)

fun postorder :: "'k tree \<Rightarrow> 'k list" where
  "postorder Leaf = []"
| "postorder (Node p l k h r) = postorder l @ postorder r @ [k]"

lemma set_postorder: "length (postorder t) = length (addrs t)" "set (postorder t) = set (inorder t)"
  by (induction t) auto

lemma tdestroy_nodes_result:
  assumes "holds H t" and "distinct (addrs t)"
  shows "tdestroy_nodes (root_ptr t) H = Some (postorder t, H |` (- set (addrs t)))"
  using assms
proof (induction t arbitrary: H)
  case Leaf
  then show ?case
    by (simp add: tdestroy_nodes.simps)
next
  case (Node p l k h r)
  let ?H = "H |` (- set (addrs l))"
  have l: "tdestroy_nodes (root_ptr l) H = Some (postorder l, ?H)"
    using Node by simp
  have "holds ?H r"
    using Node.prems by (subst holds_cong [of r ?H H]) (auto simp: restrict_map_def)
  then have r: "tdestroy_nodes (root_ptr r) ?H = Some (postorder r, ?H |` (- set (addrs r)))"
    using Node by simp
  have "(?H |` (- set (addrs r)))(p := None) = H |` (- set (addrs (Node p l k h r)))"
    by (auto simp: fun_eq_iff restrict_map_def)
  then show ?case
    using Node.prems l r by (subst tdestroy_nodes.simps) (simp add: restrict_map_def)
qed

section \<open>Properties\<close>

definition empty_tree :: "'k tree_state" where
  "empty_tree = \<lparr>st_root = None, st_nodes = Map.empty\<rparr>"

definition fresh_nodes :: "((u32 \<rightharpoonup> 'k node) \<Rightarrow> node_ptr) \<Rightarrow> bool" where
  "fresh_nodes malloc \<longleftrightarrow> (\<forall>H p. malloc H = Some p \<longrightarrow> H p = None)"

definition tree_inv :: "('k \<Rightarrow> 'k \<Rightarrow> int) \<Rightarrow> 'k tree_state \<Rightarrow> bool" where
  "tree_inv cmp s \<longleftrightarrow> (\<exists>T. tree_of cmp s T)"

lemma ascending_distinct:
  assumes "comparison cmp" and "ascending cmp ks"
  shows "distinct ks"
proof -
  have "cmp k k = 0" for k
    using assms(1) by (simp add: comparing.cmp_self comparing.intro)
  then show ?thesis
    using assms(2) by (induction ks) (auto simp: ascending_def)
qed

lemma length_addrs: "length (addrs t) = length (inorder t)"
  by (induction t) auto

lemma tree_counts:
  assumes "comparison cmp" and "tree_of cmp s T"
  shows "card (dom (st_nodes s)) = card (stored_keys s)"
proof -
  have "card (dom (st_nodes s)) = length (addrs T)"
    using assms(2) by (simp add: tree_of_def represents_def distinct_card)
  moreover have "card (stored_keys s) = length (inorder T)"
    using assms ascending_distinct [of cmp "inorder T"] stored_keys_represents [of s T]
    by (simp add: tree_of_def distinct_card)
  ultimately show ?thesis
    by (simp add: length_addrs)
qed

lemma tree_request_spec:
  assumes cmp: "comparison cmp" and fresh: "fresh_nodes malloc" and "tree_inv cmp s"
  shows "\<exists>r s'. tree_request cmp malloc q s = Some (r, s') \<and> tree_inv cmp s' \<and>
    key_spec cmp (out_of_nodes malloc) q (stored_keys s) r (stored_keys s')"
proof -
  have laws: "comparing cmp"
    using cmp by (rule comparing.intro)
  obtain T where T: "tree_of cmp s T"
    using assms(3) by (auto simp: tree_inv_def)
  have K: "stored_keys s = set (inorder T)"
    using T stored_keys_represents [of s T] by (simp add: tree_of_def)
  have K': "stored_keys s' = set (inorder T')" if "tree_of cmp s' T'" for s' T'
    using that stored_keys_represents [of s' T'] by (simp add: tree_of_def)
  show ?thesis
  proof (cases q)
    case (Tsearch x)
    have "\<And>p. malloc (st_nodes s) = Some p \<Longrightarrow> st_nodes s p = None"
      using fresh by (auto simp: fresh_nodes_def)
    from comparing.tsearch_result [where malloc = malloc and x = x, OF laws T this] obtain r s' T' where
      res: "tsearch cmp malloc x True s = Some (r, s')" "tree_of cmp s' T'"
        "case r of None \<Rightarrow> s' = s \<and> malloc (st_nodes s) = None \<and> (\<forall>y\<in>set (inorder T). cmp x y \<noteq> 0)
         | Some p \<Rightarrow> (\<exists>y. node_keys s' p = Some y \<and> cmp x y = 0) \<and>
             set (inorder T') = set (inorder T) \<union> (if \<exists>y\<in>set (inorder T). cmp x y = 0 then {} else {x})"
      by blast
    have mem: "y \<in> set (inorder T')" if "node_keys s' p = Some y" for p y
      using that K' [OF res(2)] by (auto simp: stored_keys_def ran_def)
    show ?thesis
    proof (cases r)
      case None
      then have "out_of_nodes malloc (card (stored_keys s))"
        using res(3) tree_counts [OF cmp T] by (auto simp: out_of_nodes_def)
      then show ?thesis
        using None res K assms(3) by (simp add: Tsearch)
    next
      case (Some p)
      then obtain y where y: "node_keys s' p = Some y" "cmp x y = 0" "y \<in> set (inorder T')"
        using res(3) mem by auto
      have K'': "stored_keys s' = set (inorder T) \<union> (if \<exists>y\<in>set (inorder T). cmp x y = 0 then {} else {x})"
        using res(3) Some K' [OF res(2)] by simp
      have "key_spec cmp (out_of_nodes malloc) (Tsearch x) (set (inorder T)) (True, Some y) (stored_keys s')"
        using y K'' K' [OF res(2)] by (cases "\<exists>y\<in>set (inorder T). cmp x y = 0") auto
      moreover have "tree_request cmp malloc (Tsearch x) s = Some ((True, Some y), s')"
        using res(1) Some y(1) by simp
      moreover have "tree_inv cmp s'"
        using res(2) by (auto simp: tree_inv_def)
      ultimately show ?thesis
        unfolding Tsearch K by blast
    qed
  next
    case (Tdelete x)
    from comparing.tdelete_result [OF laws T, of x] obtain r s' T' where
      "tdelete cmp x True s = Some (r, s')" "tree_of cmp s' T'"
      "r = None \<longleftrightarrow> (\<forall>y\<in>set (inorder T). cmp x y \<noteq> 0)" "set (inorder T') = {y \<in> set (inorder T). cmp x y \<noteq> 0}"
      by blast
    then show ?thesis
      using K K' by (auto simp: Tdelete tree_inv_def)
  next
    case (Tfind x)
    from comparing.tfind_result [OF laws T, of x] obtain r where
      "tfind cmp x True s = Some r" "case r of None \<Rightarrow> \<forall>y\<in>set (inorder T). cmp x y \<noteq> 0
       | Some p \<Rightarrow> \<exists>y\<in>set (inorder T). node_keys s p = Some y \<and> cmp x y = 0"
      by blast
    then show ?thesis
      using K assms(3) by (auto simp: Tfind split: option.splits)
  qed
qed

interpretation tree_calls: refined_calls "tree_request cmp malloc"
  "\<lambda>s. comparison cmp \<and> fresh_nodes malloc \<and> tree_inv cmp s" stored_keys "key_spec cmp (out_of_nodes malloc)"
  for cmp :: "'k \<Rightarrow> 'k \<Rightarrow> int" and malloc
  by unfold_locales (use tree_request_spec in blast)

lemma stored_keys_empty: "stored_keys empty_tree = {}"
  by (simp add: stored_keys_def node_keys_def empty_tree_def ran_def)

text \<open>
  C22. Search trees implement sets of keys: every sequence of \<open>tsearch\<close>, \<open>tdelete\<close> and
  \<open>tfind\<close> calls on a tree that is empty at first runs without following a bad pointer or
  overrunning a stack of links, whichever allocations fail, and returns what the same calls
  on a set of keys return (up to the equivalence of the comparison function); a new key is
  refused only if the allocator has no further node beside one for every key.  Afterwards
  there is exactly one node for every key, and the tree is balanced, with a height below
  \<open>MAXH\<close>.
\<close>

theorem search_tree_refines_set:
  assumes "comparison cmp" and "fresh_nodes malloc"
  shows "\<exists>rs s T. run_calls (tree_request cmp malloc) qs empty_tree = Some (rs, s) \<and>
    spec_run (key_spec cmp (out_of_nodes malloc)) qs {} rs (stored_keys s) \<and> card (dom (st_nodes s)) = card (stored_keys s) \<and>
    tree_of cmp s T \<and> ht T < int MAXH"
proof -
  have "tree_of cmp empty_tree Leaf"
    by (simp add: tree_of_def represents_def empty_tree_def ascending_def)
  then have "tree_inv cmp empty_tree"
    by (auto simp: tree_inv_def)
  then obtain rs s where run: "run_calls (tree_request cmp malloc) qs empty_tree = Some (rs, s)"
    "spec_run (key_spec cmp (out_of_nodes malloc)) qs {} rs (stored_keys s)" "tree_inv cmp s"
    using tree_calls.calls [of cmp malloc empty_tree qs] assms by (auto simp: stored_keys_empty)
  then obtain T where T: "tree_of cmp s T"
    by (auto simp: tree_inv_def)
  then have "ht T < int MAXH"
    using avl_height_bound [of T] by (simp add: tree_of_def represents_def MAXH_def)
  then show ?thesis
    using run T tree_counts [OF assms(1) T] by blast
qed

text \<open>
  On a search tree \<open>twalk\<close> visits every node with its depth, a node without children once
  as a leaf and any other node three times, around its subtrees, and the nodes that are
  visited as a leaf or for the second time come in the order of their keys; \<open>tdestroy\<close> passes
  every key to \<open>freekey\<close> once and frees every node.
\<close>

theorem walk_and_destroy:
  assumes "tree_of cmp s T"
  shows "twalk s = Some (visits 0 T) \<and>
    map (node_keys s) (visited_in_order (visits 0 T)) = map Some (inorder T) \<and> ascending cmp (inorder T) \<and>
    tdestroy True s = Some (postorder T, Map.empty) \<and> tdestroy False s = Some ([], Map.empty) \<and>
    length (postorder T) = length (inorder T) \<and> set (postorder T) = stored_keys s"
proof -
  have T: "st_root s = root_ptr T" "holds (st_nodes s) T" "distinct (addrs T)" "dom (st_nodes s) = set (addrs T)"
    "avl T" "ascending cmp (inorder T)" "stored_keys s = set (inorder T)"
    using assms stored_keys_represents [of s T] by (simp_all add: tree_of_def represents_def)
  have "st_nodes s |` (- set (addrs T)) = Map.empty"
    unfolding T(4) [symmetric] by (auto simp: fun_eq_iff restrict_map_def)
  then have "tdestroy_nodes (st_root s) (st_nodes s) = Some (postorder T, Map.empty)"
    using tdestroy_nodes_result [OF T(2,3)] T(1) by simp
  then show ?thesis
    using walk_visits [OF T(2,5), of 0] addrs_keys [OF T(2)] T
    by (simp add: twalk_def tdestroy_def visits_in_order set_postorder length_addrs)
qed

section \<open>Instances\<close>

definition two_nodes :: "(u32 \<rightharpoonup> u8 list node) \<Rightarrow> node_ptr" where
  "two_nodes H = (if H 16 = None then Some 16 else if H 32 = None then Some 32 else None)"

lemma fresh_two_nodes: "fresh_nodes two_nodes"
  by (simp add: fresh_nodes_def two_nodes_def)

lemma two_nodes_limit: "out_of_nodes two_nodes n \<Longrightarrow> 2 \<le> n"
proof -
  assume "out_of_nodes two_nodes n"
  then obtain H where H: "card (dom H) = n" "two_nodes H = None"
    by (auto simp: out_of_nodes_def)
  then have "{16, 32} \<subseteq> dom H"
    by (auto simp: two_nodes_def split: if_splits)
  then have "card {16, 32 :: u32} \<le> n"
    unfolding H(1) [symmetric] by (intro card_mono) simp_all
  then show ?thesis
    by simp
qed

theorem search_tree_refines_set_witness:
  "\<exists>s T. run_calls (tree_request strcmp two_nodes) [Tsearch [98], Tsearch [97], Tdelete [98], Tfind [97]] empty_tree =
      Some ([(True, Some [98]), (True, Some [97]), (True, None), (True, Some [97])], s) \<and>
    stored_keys s = {[97]} \<and> card (dom (st_nodes s)) = 1 \<and> tree_of strcmp s T \<and> ht T < int MAXH"
proof -
  let ?qs = "[Tsearch [98], Tsearch [97], Tdelete [98], Tfind [97]] :: u8 list request list"
  have room: "\<not> out_of_nodes two_nodes 0" "\<not> out_of_nodes two_nodes 1"
    using two_nodes_limit [of 0] two_nodes_limit [of 1] by auto
  obtain rs s T where run: "run_calls (tree_request strcmp two_nodes) ?qs empty_tree = Some (rs, s)"
    "spec_run (key_spec strcmp (out_of_nodes two_nodes)) ?qs {} rs (stored_keys s)"
    "card (dom (st_nodes s)) = card (stored_keys s)" "tree_of strcmp s T" "ht T < int MAXH"
    using search_tree_refines_set [OF comparison_strcmp fresh_two_nodes, of ?qs] by blast
  let ?spec = "key_spec strcmp (out_of_nodes two_nodes)"
  obtain r1 r2 r3 r4 K1 K2 K3 where steps: "rs = [r1, r2, r3, r4]" "?spec (Tsearch [98]) {} r1 K1"
    "?spec (Tsearch [97]) K1 r2 K2" "?spec (Tdelete [98]) K2 r3 K3" "?spec (Tfind [97]) K3 r4 (stored_keys s)"
    using run(2) unfolding spec_run.simps by blast
  have one: "r1 = (True, Some [98])" "K1 = {[98]}"
    using steps(2) room(1) by simp_all
  have two: "r2 = (True, Some [97])" "K2 = {[97], [98]}"
    using steps(3) room(2) by (simp_all add: one)
  have three: "r3 = (True, None)" "K3 = {[97]}"
    using steps(4) by (auto simp: two)
  have "r4 = (True, Some [97])" "stored_keys s = {[97]}"
    using steps(5) by (simp_all add: three)
  then have "rs = [(True, Some [98]), (True, Some [97]), (True, None), (True, Some [97])] \<and> stored_keys s = {[97]}"
    using steps(1) one two three by simp
  then show ?thesis
    using run by auto
qed

theorem walk_and_destroy_witness:
  "\<exists>s T. tree_of strcmp s T \<and> inorder T = [[97], [98]] \<and> twalk s = Some (visits 0 T) \<and>
    map (node_keys s) (visited_in_order (visits 0 T)) = map Some (inorder T) \<and> ascending strcmp (inorder T) \<and>
    tdestroy True s = Some (postorder T, Map.empty) \<and> tdestroy False s = Some ([], Map.empty) \<and>
    length (postorder T) = length (inorder T) \<and> set (postorder T) = stored_keys s"
proof -
  let ?T = "Node 16 (Node 32 Leaf [97] 1 Leaf) [98] 2 Leaf"
  let ?s = "\<lparr>st_root = Some 16, st_nodes =
    [16 \<mapsto> \<lparr>nkey = [98], child0 = Some 32, child1 = None, nheight = 2\<rparr>,
     32 \<mapsto> \<lparr>nkey = [97], child0 = None, child1 = None, nheight = 1\<rparr>]\<rparr>"
  have "tree_of strcmp ?s ?T"
    by (auto simp: tree_of_def represents_def ascending_def)
  from walk_and_destroy [OF this] show ?thesis
    using \<open>tree_of strcmp ?s ?T\<close> by (intro exI [of _ ?s] exI [of _ ?T]) simp
qed

end
