(* ===== verification/Qsort_Calls.thy ===== *)
theory Qsort_Calls
  imports Qsort_Loops Search_Tree_Calls
begin

text \<open>
  \<open>qsort\<close> sorts every array of at most 11405773 elements, and \<open>bsearch\<close> finds in it what is
  there.  The bound is the Leonardo number of order 33: up to it the gaps in the bit vector
  of the forest stay below the width of a word.
\<close>

interpretation string_sorting: sorting strcmp
  by unfold_locales

section \<open>Sorting\<close>

context sorting
begin

lemma settled_sorted: "settled cmp 1 a \<Longrightarrow> sorted_wrt (\<lambda>x y. cmp x y \<le> 0) a"
  unfolding settled_def sorted_wrt_iff_nth_less by auto

lemma shape_one: "shape (1, 0) 1 []"
  by (simp add: shape_def vbit_def bit_simps)

lemma grown_one: "0 < N \<Longrightarrow> length a = N \<Longrightarrow> grown cmp N 1 [] 1 a"
  by (simp add: grown_def)

lemma qsort_r_result:
  assumes "0 < w" and "0 < N" and "N \<le> leo 33" and "3 * (N * w) < 2 ^ 32" and "length m = N * w"
  obtains m' where "qsort_r cmp N w m = Some m'" "length m' = length m"
    "sorted_wrt (\<lambda>x y. cmp x y \<le> 0) (elems w m')" "mset (elems w m') = mset (elems w m)"
proof -
  have arr: "array w N m"
    using assms(1,5) by (simp add: array_def)
  have two: "(2 :: nat) \<le> 2" "(2 :: nat) = 2 \<or> leo (2 - 1) < N"
    by simp_all
  obtain K lp where lp: "lp_loop w (N * w) (map (\<lambda>i. leo i * w) [0..<2]) = Some lp" "table_ok w N K lp"
    by (rule lp_loop_result [OF two assms(1-4)])
  obtain p k ks m1 where grow: "grow_loop cmp w lp ((N - 1) * w) ((1 - 1) * w) (1, 0) 1 m = Some ((N - 1) * w, p, k, m1)"
    "shape p k ks" "array w N m1" "grown cmp N k ks N (elems w m1)" "mset (elems w m1) = mset (elems w m)"
    by (rule grow_loop_result [OF lp(2) arr shape_one _ _ grown_one [OF assms(2) length_elems [OF arr]]])
      (use assms(2) in simp_all)
  have spaced: "spaced (k # ks)"
    using grow(4) by (simp add: grown_def)
  obtain m2 where trinkle: "trinkle cmp w lp ((N - 1) * w) p k False m1 = Some m2" "array w N m2"
    "elems w m2 = trinkle_e cmp (k # ks) N (elems w m1 ! (N - 1)) False (elems w m1)"
    by (rule trinkle_fits [OF lp(2) grow(3,2) grown_sizes [OF grow(4)] spaced order_refl])
  note fin = grown_end [OF grow(4), folded trinkle(3)]
  have "settled cmp N (elems w m2)"
    using trinkle(2) by (simp add: settled_def length_elems)
  then have "shrunk cmp w N p k ks N m2"
    using trinkle(2) grow(2) spaced fin(2,3) unfolding shrunk_def by simp
  then obtain m3 where shrink: "shrink_loop cmp w lp ((N - 1) * w) p k m2 = Some m3" "array w N m3"
    "settled cmp 1 (elems w m3)" "mset (elems w m3) = mset (elems w m2)"
    by (rule shrink_loop_result [OF lp(2)])
  have sz: "w * N mod 2 ^ 32 = N * w" "N * w \<noteq> 0" "N * w - w = (N - 1) * w"
    using assms(1,2,4) by (simp add: mult.commute, simp, simp add: diff_mult_distrib)
  have "qsort_r cmp N w m = Some m3"
    using lp(1) grow(1) trinkle(1) shrink(1) sz unfolding qsort_r_def Let_def by (simp add: upt_rec)
  moreover have "mset (elems w m3) = mset (elems w m)"
    using shrink(4) fin(1) grow(5) by (simp add: rearranged_def)
  ultimately show thesis
    using that shrink(2) settled_sorted [OF shrink(3)] assms(5) by (simp add: array_def)
qed

end

lemma qsort_result:
  assumes "comparison cmp" and "length m = nel * width" and "nel \<le> 11405773" and "3 * (nel * width) < 2 ^ 32"
  obtains m' where "qsort cmp nel width m = Some m'" "length m' = length m"
    "sorted_wrt (\<lambda>x y. cmp x y \<le> 0) (elems width m')" "mset (elems width m') = mset (elems width m)"
proof (cases "nel = 0 \<or> width = 0")
  case True
  then have "qsort cmp nel width m = Some m" "elems width m = []"
    using assms(2) by (auto simp: qsort_def qsort_r_def elems_def)
  then show thesis
    using that by simp
next
  case False
  have srt: "sorting cmp"
    using assms(1) by (simp add: sorting_def comparing_def)
  show thesis
    by (rule sorting.qsort_r_result [OF srt, of width nel m])
      (use False assms that in \<open>simp_all add: qsort_def wrapper_cmp_def leo_33\<close>)
qed

text \<open>
  C23. For a comparison function that orders the elements, \<open>qsort\<close> on an array of at most
  11405773 elements returns: no pointer leaves the array, neither of the auxiliary arrays
  overflows and no shift is undefined.  The elements are the same with their multiplicity,
  and in ascending order.
\<close>

theorem qsort_sorts:
  assumes "comparison cmp" and "length m = nel * width" and "nel \<le> 11405773" and "3 * (nel * width) < 2 ^ 32"
  shows "\<exists>m'. qsort cmp nel width m = Some m' \<and> length m' = length m \<and>
    sorted_wrt (\<lambda>x y. cmp x y \<le> 0) (elems width m') \<and> mset (elems width m') = mset (elems width m)"
  by (rule qsort_result [OF assms]) blast

lemma qsort_sorts_witness:
  "\<exists>m'. qsort strcmp 3 2 [3, 1, 2, 2, 1, 2] = Some m' \<and> length m' = length [3, 1, 2, 2, 1, 2 :: u8] \<and>
    sorted_wrt (\<lambda>x y. strcmp x y \<le> 0) (elems 2 m') \<and> mset (elems 2 m') = {#[3, 1], [2, 2], [1, 2]#}"
proof -
  have "elems 2 [3, 1, 2, 2, 1, 2 :: u8] = [[3, 1], [2, 2], [1, 2]]"
    by code_simp
  then show ?thesis
    using qsort_sorts [of strcmp "[3, 1, 2, 2, 1, 2]" 3 2] comparison_strcmp by simp
qed

section \<open>Searching\<close>

text \<open>
  The array is partitioned by the key: first the elements that the key is greater than,
  then those it is equal to, then the rest.
\<close>

definition partitioned :: "('k \<Rightarrow> 'e \<Rightarrow> int) \<Rightarrow> 'k \<Rightarrow> 'e list \<Rightarrow> bool" where
  "partitioned cmp ky a \<longleftrightarrow> sorted_wrt (\<lambda>x y. sgn (cmp ky y) \<le> sgn (cmp ky x)) a"

lemma bsearch_loop_result:
  assumes "array w N m" and "partitioned cmp ky (elems w m)" and "lo + nel \<le> N"
    and "\<forall>i<N. cmp ky (elems w m ! i) = 0 \<longrightarrow> lo \<le> i \<and> i < lo + nel"
  obtains "bsearch_loop cmp ky w m (lo * w) nel = Some None" "\<forall>v\<in>set (elems w m). cmp ky v \<noteq> 0"
  | i where "bsearch_loop cmp ky w m (lo * w) nel = Some (Some (i * w))" "i < N" "cmp ky (elems w m ! i) = 0"
proof -
  let ?a = "elems w m"
  have ord: "sgn (cmp ky (?a ! j)) \<le> sgn (cmp ky (?a ! i))" if "i < j" "j < N" for i j
    using assms(1,2) that by (simp add: partitioned_def sorted_wrt_iff_nth_less length_elems)
  have "bsearch_loop cmp ky w m (lo * w) nel = Some None \<and> (\<forall>v\<in>set ?a. cmp ky v \<noteq> 0) \<or>
    (\<exists>i. bsearch_loop cmp ky w m (lo * w) nel = Some (Some (i * w)) \<and> i < N \<and> cmp ky (?a ! i) = 0)"
    using assms(3,4)
  proof (induction nel arbitrary: lo rule: less_induct)
    case (less nel)
    show ?case
    proof (cases "nel = 0")
      case True
      have "cmp ky v \<noteq> 0" if "v \<in> set ?a" for v
        using that less.prems(2) True assms(1) by (auto simp: in_set_conv_nth length_elems)
      then show ?thesis
        using True by (simp add: bsearch_loop.simps)
    next
      case False
      define mid where "mid = lo + nel div 2"
      have mid: "mid < N" "lo \<le> mid" "nel div 2 < nel"
        using False less.prems(1) by (auto simp: mid_def)
      have ptr: "lo * w + w * (nel div 2) = mid * w" "mid * w + w = Suc mid * w"
        by (simp_all add: mid_def algebra_simps)
      have step: "bsearch_loop cmp ky w m (lo * w) nel =
          (if cmp ky (?a ! mid) < 0 then bsearch_loop cmp ky w m (lo * w) (nel div 2)
           else if cmp ky (?a ! mid) > 0 then bsearch_loop cmp ky w m (Suc mid * w) (nel - (nel div 2 + 1))
           else Some (Some (mid * w)))"
        using False load_elem [OF assms(1) mid(1)] by (subst bsearch_loop.simps) (simp add: ptr Let_def del: mult_Suc)
      consider "cmp ky (?a ! mid) < 0" | "cmp ky (?a ! mid) > 0" | "cmp ky (?a ! mid) = 0"
        by linarith
      then show ?thesis
      proof cases
        case 1
        have "lo \<le> i \<and> i < lo + nel div 2" if "i < N" "cmp ky (?a ! i) = 0" for i
        proof -
          have "\<not> mid \<le> i"
            using ord [of mid i] that 1 by (cases "mid = i") (auto simp: le_less)
          then show ?thesis
            using less.prems(2) that by (simp add: mid_def)
        qed
        then show ?thesis
          using less.IH [of "nel div 2" lo] mid less.prems(1) 1 unfolding step by simp
      next
        case 2
        have "Suc mid \<le> i \<and> i < Suc mid + (nel - (nel div 2 + 1))" if "i < N" "cmp ky (?a ! i) = 0" for i
        proof -
          have "\<not> i \<le> mid"
            using ord [of i mid] that 2 mid(1) by (cases "mid = i") (auto simp: le_less)
          moreover have "i < lo + nel"
            using less.prems(2) that by blast
          ultimately show ?thesis
            using mid by (simp add: mid_def)
        qed
        then show ?thesis
          using less.IH [of "nel - (nel div 2 + 1)" "Suc mid"] mid less.prems(1) 2 False
          unfolding step by (simp add: mid_def del: mult_Suc)
      next
        case 3
        then show ?thesis
          using mid(1) unfolding step by auto
      qed
    qed
  qed
  then show thesis
    using that by blast
qed

lemma bsearch_result:
  assumes "length m = nel * width" and "0 < width" and "partitioned cmp ky (elems width m)"
  obtains "bsearch cmp ky nel width m = Some None" "\<forall>v\<in>set (elems width m). cmp ky v \<noteq> 0"
  | i where "bsearch cmp ky nel width m = Some (Some (i * width))" "i < nel" "cmp ky (elems width m ! i) = 0"
proof -
  have "array width nel m"
    using assms(1,2) by (simp add: array_def)
  from bsearch_loop_result [OF this assms(3), of 0 nel] show thesis
    using that by (auto simp: bsearch_def)
qed

lemma sorted_partitioned:
  assumes "comparison cmp" and "sorted_wrt (\<lambda>x y. cmp x y \<le> 0) a"
  shows "partitioned cmp ky a"
  unfolding partitioned_def
proof (rule sorted_wrt_mono_rel [OF _ assms(2)])
  fix x y
  assume "cmp x y \<le> 0"
  have cmp: "comparing cmp"
    using assms(1) by (simp add: comparing_def)
  have "cmp ky y > 0 \<Longrightarrow> cmp ky x > 0" "cmp ky y = 0 \<Longrightarrow> cmp ky x \<ge> 0"
    using \<open>cmp x y \<le> 0\<close> comparing.flip [OF cmp] comparing.cmp_le_less [OF cmp] comparing.cmp_less_le [OF cmp]
      comparing.ge_iff [OF cmp] comparing.cmp_trans_le [OF cmp] comparing.cmp_sym [OF cmp] by (metis order_refl)+
  then show "sgn (cmp ky y) \<le> sgn (cmp ky x)"
    by (auto simp: sgn_if)
qed

text \<open>
  C24. An array sorted with \<open>qsort\<close> can be searched with \<open>bsearch\<close> and the same comparison
  function: the search returns, with the address of an element equal to the key if the array
  had one before it was sorted, and with the null pointer otherwise.
\<close>

theorem bsearch_after_qsort:
  assumes "comparison cmp" and "length m = nel * width" and "nel \<le> 11405773" and "3 * (nel * width) < 2 ^ 32"
    and "0 < width"
  shows "\<exists>m' r. qsort cmp nel width m = Some m' \<and> bsearch cmp ky nel width m' = Some r \<and>
    (case r of
       None \<Rightarrow> \<forall>v\<in>set (elems width m). cmp ky v \<noteq> 0
     | Some a \<Rightarrow> \<exists>i<nel. a = i * width \<and> cmp ky (elems width m' ! i) = 0 \<and> elems width m' ! i \<in> set (elems width m))"
proof -
  obtain m' where m': "qsort cmp nel width m = Some m'" "length m' = length m"
    "sorted_wrt (\<lambda>x y. cmp x y \<le> 0) (elems width m')" "mset (elems width m') = mset (elems width m)"
    by (rule qsort_result [OF assms(1-4)])
  have len: "length m' = nel * width"
    using m'(2) assms(2) by simp
  have set_eq: "set (elems width m') = set (elems width m)"
    using m'(4) by (metis set_mset_mset)
  have size: "length (elems width m') = nel"
    using len assms(5) by (simp add: elems_def)
  show ?thesis
  proof (rule bsearch_result [OF len assms(5) sorted_partitioned [OF assms(1) m'(3)], of ky])
    assume "bsearch cmp ky nel width m' = Some None" "\<forall>v\<in>set (elems width m'). cmp ky v \<noteq> 0"
    then show ?thesis
      using m'(1) set_eq by auto
  next
    fix i
    assume i: "bsearch cmp ky nel width m' = Some (Some (i * width))" "i < nel" "cmp ky (elems width m' ! i) = 0"
    then have "elems width m' ! i \<in> set (elems width m)"
      using size nth_mem set_eq by blast
    then show ?thesis
      using m'(1) i by (intro exI [of _ m'] exI [of _ "Some (i * width)"]) auto
  qed
qed

lemma bsearch_after_qsort_witness:
  "\<exists>m' r. qsort strcmp 3 2 [3, 1, 2, 2, 1, 2] = Some m' \<and> bsearch strcmp [2, 2] 3 2 m' = Some r \<and>
    (case r of
       None \<Rightarrow> \<forall>v\<in>set [[3, 1], [2, 2], [1, 2]]. strcmp [2, 2] v \<noteq> 0
     | Some a \<Rightarrow> \<exists>i<3. a = i * 2 \<and> strcmp [2, 2] (elems 2 m' ! i) = 0 \<and> elems 2 m' ! i \<in> set [[3, 1], [2, 2], [1, 2]])"
proof -
  have "elems 2 [3, 1, 2, 2, 1, 2 :: u8] = [[3, 1], [2, 2], [1, 2]]"
    by code_simp
  from bsearch_after_qsort [OF comparison_strcmp, of "[3, 1, 2, 2, 1, 2]" 3 2 "[2, 2]", unfolded this]
  show ?thesis
    by simp
qed

section \<open>Gaps of a word's width\<close>

text \<open>
  A forest whose two last heaps are 32 orders apart, which takes more elements than the bound
  above, has the bit vector \<open>(1, p1)\<close> with \<open>p1\<close> odd: \<open>pntz\<close> then counts the trailing zeros of 0,
  and the shifts by 32 shift a word by its width.
\<close>

lemma word_gap_undefined: "pntz (1, p1) = None \<and> shl p 32 = None \<and> shr p 32 = None"
  by (simp add: pntz_def ntz_def shl_def shr_def)

end
