(* ===== verification/Wasi_Dirent.thy ===== *)
theory Wasi_Dirent
  imports Wasi_Fd Qsort_Calls
begin

text \<open>
  Directory streams: \<open>cloudlibc/src/libc/dirent/\<close> (\<open>fdopendir\<close>, \<open>readdir\<close>, \<open>scandirat\<close>,
  \<open>opendirat\<close>, \<open>closedir\<close>, \<open>fdclosedir\<close>, \<open>rewinddir\<close>, \<open>seekdir\<close>, \<open>telldir\<close>, \<open>dirfd\<close>) and
  their path forms in \<open>sources/posix.c\<close> and \<open>sources/at_fdcwd.c\<close>.

  The read buffer of a stream is the list of the bytes the host has put there; reading behind
  them, like growing a buffer whose doubled size wraps around to 0 (the source then loops
  forever), is \<^const>\<open>None\<close>.  \<open>readdir\<close> and the loop of \<open>scandirat\<close> may run for ever on a
  host that keeps returning entries to be skipped; they are partial functions whose result
  is then \<^const>\<open>None\<close>.
\<close>

section \<open>Entries as the host encodes them\<close>

record wasi_dirent =
  de_next :: u64
  de_ino :: u64
  de_namlen :: u32
  de_type :: u8

definition sizeof_dirent :: size_t where "sizeof_dirent = 24"

definition le_word :: "u8 list \<Rightarrow> 'w::len word" where
  "le_word bytes = foldr (\<lambda>b a. ucast b OR push_bit 8 a) bytes 0"

definition dirent_header :: "u8 list \<Rightarrow> wasi_dirent" where
  "dirent_header bytes =
     \<lparr>de_next = le_word (take 8 bytes), de_ino = le_word (take 8 (drop 8 bytes)),
      de_namlen = le_word (take 4 (drop 16 bytes)), de_type = bytes ! 20\<rparr>"

definition fetch :: "u8 list \<Rightarrow> size_t \<Rightarrow> size_t \<Rightarrow> u8 list option" where
  "fetch buffer pos len =
     (if unat pos + unat len \<le> length buffer
      then Some (take (unat len) (drop (unat pos) buffer)) else None)"

section \<open>Streams\<close>

text \<open>The object returned by \<open>readdir\<close>: its name without the terminating NUL.\<close>

record dirent =
  d_ino :: u64
  d_type :: u8
  d_name :: "u8 list"

text \<open>The read buffer and the cookie, which \<open>struct _DIR\<close> and \<open>scandirat\<close> have in common.\<close>

record dirbuf =
  dir_cookie :: u64
  dir_buffer :: "u8 list"
  dir_processed :: size_t
  dir_size :: size_t
  dir_used :: size_t

record DIR = dirbuf +
  dir_fd :: u32
  dirent_size :: size_t

definition DIRENT_DEFAULT_BUFFER_SIZE :: size_t where
  "DIRENT_DEFAULT_BUFFER_SIZE = 4096"

definition sizeof_DIR :: size_t where "sizeof_DIR = 40"

definition offsetof_d_name :: size_t where "offsetof_d_name = 9"

definition fdopendir :: "env \<Rightarrow> u32 \<Rightarrow> 'a libc_scheme \<Rightarrow> (DIR option \<times> 'a libc_scheme) option" where
  "fdopendir E fd s =
     (let (ok, s) = alloc E sizeof_DIR s
      in if \<not> ok then Some (None, s)
         else let (ok, s) = alloc E DIRENT_DEFAULT_BUFFER_SIZE s
              in if \<not> ok then Some (None, s)
                 else let (error, used, bytes, s) =
                            wasi_fd_readdir E fd DIRENT_DEFAULT_BUFFER_SIZE 0 s
                      in if unat DIRENT_DEFAULT_BUFFER_SIZE < length bytes then None
                         else if error \<noteq> 0
                         then Some (None, s\<lparr>errno := ucast (errno_fixup_directory fd error)\<rparr>)
                         else Some (Some \<lparr>dir_cookie = 0, dir_buffer = bytes, dir_processed = 0,
                                dir_size = DIRENT_DEFAULT_BUFFER_SIZE, dir_used = used,
                                dir_fd = fd, dirent_size = 1\<rparr>, s))"

text \<open>
  The loop of \<open>GROW\<close>: after 32 doublings the size is 0 and the loop does not end any more.
\<close>

primrec grow_size :: "nat \<Rightarrow> size_t \<Rightarrow> size_t \<Rightarrow> size_t option" where
  "grow_size 0 new_size target = None"
| "grow_size (Suc n) new_size target =
     (if new_size < target then grow_size n (new_size * 2) target else Some new_size)"

text \<open>The new size is \<^const>\<open>None\<close> when \<open>realloc\<close> has failed.\<close>

definition GROW ::
  "env \<Rightarrow> size_t \<Rightarrow> size_t \<Rightarrow> 'a libc_scheme \<Rightarrow> (size_t option \<times> 'a libc_scheme) option" where
  "GROW E buffer_size target s =
     (if buffer_size < target
      then do { n \<leftarrow> grow_size 33 buffer_size target;
                let (ok, s) = alloc E n s;
                Some (if ok then Some n else None, s) }
      else Some (Some buffer_size, s))"

text \<open>The label \<open>read_entries\<close>; the flag tells whether the host call has succeeded.\<close>

definition read_entries ::
  "env \<Rightarrow> DIR \<Rightarrow> 'a libc_scheme \<Rightarrow> ((bool \<times> DIR) \<times> 'a libc_scheme) option" where
  "read_entries E D s =
     (let D = D\<lparr>dir_used := dir_size D, dir_processed := dir_size D\<rparr>;
          (error, used, bytes, s) = wasi_fd_readdir E (dir_fd D) (dir_size D) (dir_cookie D) s
      in if unat (dir_size D) < length bytes then None
         else if error \<noteq> 0
         then Some ((False, D\<lparr>dir_buffer := bytes\<rparr>), s\<lparr>errno := ucast error\<rparr>)
         else Some ((True, D\<lparr>dir_buffer := bytes, dir_used := used, dir_processed := 0\<rparr>), s))"

partial_function (option) readdir ::
  "env \<Rightarrow> DIR \<Rightarrow> 'a libc_scheme \<Rightarrow> ((dirent option \<times> DIR) \<times> 'a libc_scheme) option" where
  "readdir E D s =
     (let buffer_left = dir_used D - dir_processed D
      in if buffer_left < sizeof_dirent
         then if dir_used D < dir_size D then Some ((None, D), s)
              else do { ((ok, D), s) \<leftarrow> read_entries E D s;
                        if ok then readdir E D s else Some ((None, D), s) }
         else do {
           header \<leftarrow> fetch (dir_buffer D) (dir_processed D) sizeof_dirent;
           let entry = dirent_header header;
           let entry_size = sizeof_dirent + de_namlen entry;
           if de_namlen entry = 0
           then readdir E (D\<lparr>dir_processed := dir_processed D + entry_size\<rparr>) s
           else if buffer_left < entry_size
           then do {
             (n, s) \<leftarrow> GROW E (dir_size D) entry_size s;
             case n of
               None \<Rightarrow> Some ((None, D), s)
             | Some n \<Rightarrow> do {
                 ((ok, D), s) \<leftarrow> read_entries E (D\<lparr>dir_size := n\<rparr>) s;
                 if ok then readdir E D s else Some ((None, D), s) } }
           else do {
             name \<leftarrow> fetch (dir_buffer D) (dir_processed D + sizeof_dirent) (de_namlen entry);
             if 0 \<in> set name
             then readdir E (D\<lparr>dir_processed := dir_processed D + entry_size\<rparr>) s
             else do {
               (n, s) \<leftarrow> GROW E (dirent_size D) (offsetof_d_name + de_namlen entry + 1) s;
               case n of
                 None \<Rightarrow> Some ((None, D), s)
               | Some n \<Rightarrow>
                   if unat n < unat offsetof_d_name + length name + 1 then None
                   else Some ((Some \<lparr>d_ino = de_ino entry, d_type = de_type entry, d_name = name\<rparr>,
                               D\<lparr>dirent_size := n, dir_cookie := de_next entry,
                                 dir_processed := dir_processed D + entry_size\<rparr>), s) } } })"

definition fdclosedir :: "DIR \<Rightarrow> u32" where
  "fdclosedir D = dir_fd D"

definition closedir :: "env \<Rightarrow> DIR \<Rightarrow> 'a libc_scheme \<Rightarrow> c_int \<times> 'a libc_scheme" where
  "closedir E D s = close E (fdclosedir D) s"

definition rewinddir :: "DIR \<Rightarrow> DIR" where
  "rewinddir D = D\<lparr>dir_cookie := 0, dir_used := dir_size D, dir_processed := dir_size D\<rparr>"

text \<open>\<open>long\<close> has 32 bits.\<close>

definition seekdir :: "DIR \<Rightarrow> u32 \<Rightarrow> DIR" where
  "seekdir D loc = D\<lparr>dir_cookie := ucast loc, dir_used := dir_size D, dir_processed := dir_size D\<rparr>"

definition telldir :: "DIR \<Rightarrow> u32" where
  "telldir D = ucast (dir_cookie D)"

definition dirfd :: "DIR \<Rightarrow> u32" where
  "dirfd D = dir_fd D"

definition nocwd_opendirat ::
  "env \<Rightarrow> u32 \<Rightarrow> string \<Rightarrow> 'a libc_scheme \<Rightarrow> (DIR option \<times> 'a libc_scheme) option" where
  "nocwd_opendirat E dir dirname s =
     (let (fd, s) = nocwd_openat_nomode E dir dirname (O_RDONLY OR O_NONBLOCK OR O_DIRECTORY) s
      in if fd = -1 then Some (None, s)
         else do { (result, s) \<leftarrow> fdopendir E fd s;
                   Some (result, if result = None then snd (close E fd s) else s) })"

section \<open>Scanning a directory\<close>

text \<open>
  The locals of \<open>scandirat\<close>: the buffer, and the result array with its capacity.  The flag in
  the result of the loop is false for the exits to the label \<open>bad\<close>.
\<close>

record scan = dirbuf +
  dirents :: "dirent list"
  dirents_size :: size_t

definition scan_read :: "env \<Rightarrow> u32 \<Rightarrow> scan \<Rightarrow> 'a libc_scheme \<Rightarrow> ((bool \<times> scan) \<times> 'a libc_scheme) option" where
  "scan_read E fd C s =
     (let (error, used, bytes, s) = wasi_fd_readdir E fd (dir_size C) (dir_cookie C) s
      in if unat (dir_size C) < length bytes then None
         else if error \<noteq> 0 then Some ((False, C), s\<lparr>errno := ucast error\<rparr>)
         else Some ((True, C\<lparr>dir_buffer := bytes, dir_used := used, dir_processed := 0\<rparr>), s))"

definition scan_add :: "env \<Rightarrow> dirent \<Rightarrow> scan \<Rightarrow> 'a libc_scheme \<Rightarrow> ((bool \<times> scan) \<times> 'a libc_scheme) option" where
  "scan_add E d C s =
     (if of_nat (length (dirents C)) = dirents_size C
      then let n = (if dirents_size C < 8 then 8 else dirents_size C * 2);
               (ok, s) = alloc E (n * 4) s
           in if \<not> ok then Some ((False, C), s)
              else if unat (n * 4) < 4 * (length (dirents C) + 1) then None
              else Some ((True, C\<lparr>dirents_size := n, dirents := dirents C @ [d]\<rparr>), s)
      else Some ((True, C\<lparr>dirents := dirents C @ [d]\<rparr>), s))"

partial_function (option) scan_loop ::
  "env \<Rightarrow> u32 \<Rightarrow> (dirent \<Rightarrow> bool) \<Rightarrow> scan \<Rightarrow> 'a libc_scheme \<Rightarrow> ((bool \<times> scan) \<times> 'a libc_scheme) option" where
  "scan_loop E fd sel C s =
     (let buffer_left = dir_used C - dir_processed C
      in if buffer_left < sizeof_dirent
         then if dir_used C < dir_size C then Some ((True, C), s)
              else do { ((ok, C), s) \<leftarrow> scan_read E fd C s;
                        if ok then scan_loop E fd sel C s else Some ((False, C), s) }
         else do {
           header \<leftarrow> fetch (dir_buffer C) (dir_processed C) sizeof_dirent;
           let entry = dirent_header header;
           let entry_size = sizeof_dirent + de_namlen entry;
           if de_namlen entry = 0
           then scan_loop E fd sel (C\<lparr>dir_processed := dir_processed C + entry_size\<rparr>) s
           else if buffer_left < entry_size
           then do {
             n \<leftarrow> grow_size 33 (dir_size C) entry_size;
             let (ok, s) = alloc E n s;
             if \<not> ok then Some ((False, C\<lparr>dir_size := n\<rparr>), s)
             else do { ((ok, C), s) \<leftarrow> scan_read E fd (C\<lparr>dir_size := n\<rparr>) s;
                       if ok then scan_loop E fd sel C s else Some ((False, C), s) } }
           else do {
             name \<leftarrow> fetch (dir_buffer C) (dir_processed C + sizeof_dirent) (de_namlen entry);
             let C = C\<lparr>dir_processed := dir_processed C + entry_size\<rparr>;
             if 0 \<in> set name then scan_loop E fd sel C s
             else do {
               let size = offsetof_d_name + de_namlen entry + 1;
               let (ok, s) = alloc E size s;
               if \<not> ok then Some ((False, C), s)
               else if unat size < unat offsetof_d_name + length name + 1 then None
               else do {
                 let d = \<lparr>d_ino = de_ino entry, d_type = de_type entry, d_name = name\<rparr>;
                 let C = C\<lparr>dir_cookie := de_next entry\<rparr>;
                 ((ok, C), s) \<leftarrow> (if sel d then scan_add E d C s else Some ((True, C), s));
                 if ok then scan_loop E fd sel C s else Some ((False, C), s) } } } })"

text \<open>
  The array that \<open>qsort\<close> sorts holds pointers.  A pointer is the number of its entry, and
  in memory it is the sequence of its four bytes, each tagged with the pointer and its
  position; four bytes that do not belong together are no pointer.  The comparison
  function of the caller follows the two pointers it is given.
\<close>

definition sizeof_ptr :: nat where "sizeof_ptr = 4"

definition ptr_bytes :: "nat \<Rightarrow> (nat \<times> nat) list" where
  "ptr_bytes p = map (Pair p) [0..<sizeof_ptr]"

definition load_ptr :: "(nat \<times> nat) list \<Rightarrow> nat option" where
  "load_ptr bs = (case bs of
      [] \<Rightarrow> None
    | (p, _) # _ \<Rightarrow> if bs = ptr_bytes p then Some p else None)"

definition sort_dirents :: "(dirent \<Rightarrow> dirent \<Rightarrow> int) \<Rightarrow> dirent list \<Rightarrow> dirent list option" where
  "sort_dirents compar ds = do {
     m \<leftarrow> qsort (\<lambda>a b. compar (ds ! fst (hd a)) (ds ! fst (hd b))) (length ds) sizeof_ptr
            (concat (map ptr_bytes [0..<length ds]));
     ps \<leftarrow> those (map load_ptr (elems sizeof_ptr m));
     Some (map ((!) ds) ps) }"

text \<open>\<open>alphasort\<close> (\<open>musl/src/dirent/alphasort.c\<close>), with \<open>strcoll\<close> the comparison of bytes.\<close>

definition alphasort :: "dirent \<Rightarrow> dirent \<Rightarrow> int" where
  "alphasort a b = strcmp (d_name a) (d_name b)"

text \<open>The result carries the array stored to \<open>*namelist\<close>.\<close>

definition nocwd_scandirat ::
  "env \<Rightarrow> u32 \<Rightarrow> string \<Rightarrow> (dirent \<Rightarrow> bool) option \<Rightarrow> (dirent \<Rightarrow> dirent \<Rightarrow> int) \<Rightarrow>
   'a libc_scheme \<Rightarrow> ((c_int \<times> dirent list option) \<times> 'a libc_scheme) option" where
  "nocwd_scandirat E at_fd dir sel compar s =
     (let sel = (case sel of None \<Rightarrow> (\<lambda>_. True) | Some sel \<Rightarrow> sel);
          (fd, s) = nocwd_openat_nomode E at_fd dir (O_RDONLY OR O_NONBLOCK OR O_DIRECTORY) s
      in if fd = -1 then Some ((-1, None), s)
         else let (ok, s) = alloc E DIRENT_DEFAULT_BUFFER_SIZE s
              in if \<not> ok then Some ((-1, None), snd (close E fd s))
                 else do {
                   ((ok, C), s) \<leftarrow> scan_loop E fd sel
                      \<lparr>dir_cookie = 0, dir_buffer = [], dir_processed = DIRENT_DEFAULT_BUFFER_SIZE,
                       dir_size = DIRENT_DEFAULT_BUFFER_SIZE, dir_used = DIRENT_DEFAULT_BUFFER_SIZE,
                       dirents = [], dirents_size = 0\<rparr> s;
                   let s = snd (close E fd s);
                   if \<not> ok then Some ((-1, None), s)
                   else do {
                     ds \<leftarrow> sort_dirents compar (dirents C);
                     Some ((of_nat (length (dirents C)), Some ds), s) } })"

section \<open>Directories by path\<close>

definition posix_opendir ::
  "env \<Rightarrow> string \<Rightarrow> 'a paths_libc_scheme \<Rightarrow> (DIR option \<times> 'a paths_libc_scheme) option" where
  "posix_opendir E dirname s = do {
     (at_fd, relative_path, s) \<leftarrow> posix_find_relpath E dirname s;
     if at_fd = -1 then Some (None, s\<lparr>errno := ENOTCAPABLE\<rparr>)
     else do { p \<leftarrow> deref s relative_path; nocwd_opendirat E at_fd p s } }"

definition posix_scandir ::
  "env \<Rightarrow> string \<Rightarrow> (dirent \<Rightarrow> bool) option \<Rightarrow> (dirent \<Rightarrow> dirent \<Rightarrow> int) \<Rightarrow>
   'a paths_libc_scheme \<Rightarrow> ((c_int \<times> dirent list option) \<times> 'a paths_libc_scheme) option" where
  "posix_scandir E dir sel compar s = do {
     (at_fd, relative_path, s) \<leftarrow> posix_find_relpath E dir s;
     if at_fd = -1 then Some ((-1, None), s\<lparr>errno := ENOTCAPABLE\<rparr>)
     else do { p \<leftarrow> deref s relative_path; nocwd_scandirat E at_fd p sel compar s } }"

definition posix_opendirat ::
  "env \<Rightarrow> c_int \<Rightarrow> string \<Rightarrow> 'a paths_libc_scheme \<Rightarrow> (DIR option \<times> 'a paths_libc_scheme) option" where
  "posix_opendirat E at_fd path s =
     (if needs_lookup at_fd path then posix_opendir E path s else nocwd_opendirat E at_fd path s)"

definition posix_scandirat ::
  "env \<Rightarrow> c_int \<Rightarrow> string \<Rightarrow> (dirent \<Rightarrow> bool) option \<Rightarrow> (dirent \<Rightarrow> dirent \<Rightarrow> int) \<Rightarrow>
   'a paths_libc_scheme \<Rightarrow> ((c_int \<times> dirent list option) \<times> 'a paths_libc_scheme) option" where
  "posix_scandirat E at_fd dir sel compar s =
     (if needs_lookup at_fd dir then posix_scandir E dir sel compar s
      else nocwd_scandirat E at_fd dir sel compar s)"

section \<open>Encoding and decoding of entries\<close>

record dir_entry =
  en_next :: u64
  en_ino :: u64
  en_type :: u8
  en_name :: "u8 list"

primrec word_bytes :: "nat \<Rightarrow> 'w::len word \<Rightarrow> u8 list" where
  "word_bytes 0 w = []"
| "word_bytes (Suc n) w = ucast w # word_bytes n (drop_bit 8 w)"

lemma length_word_bytes [simp]: "length (word_bytes n w) = n"
  by (induction n arbitrary: w) simp_all

lemma le_word_Cons: "le_word (b # bs) = ucast b OR push_bit 8 (le_word bs)"
  by (simp add: le_word_def)

lemma le_word_word_bytes: "le_word (word_bytes n w) = take_bit (8 * n) w"
proof (induction n arbitrary: w)
  case (Suc n)
  show ?case
    unfolding word_bytes.simps le_word_Cons Suc.IH
    by (rule bit_word_eqI) (auto simp: bit_simps)
qed (simp add: le_word_def)

definition encode :: "dir_entry \<Rightarrow> u8 list" where
  "encode e = word_bytes 8 (en_next e) @ word_bytes 8 (en_ino e) @
     word_bytes 4 (of_nat (length (en_name e)) :: u32) @ [en_type e, 0, 0, 0] @ en_name e"

definition valid_entry :: "dir_entry \<Rightarrow> bool" where
  "valid_entry e \<longleftrightarrow> en_name e \<noteq> [] \<and> 0 \<notin> set (en_name e) \<and> 24 + length (en_name e) \<le> 2 ^ 31"

abbreviation encodes :: "dir_entry list \<Rightarrow> u8 list" where
  "encodes es \<equiv> concat (map encode es)"

lemma length_encode: "length (encode e) = 24 + length (en_name e)"
  by (simp add: encode_def)

lemma take_bit_word_full: "take_bit 32 (w :: u32) = w" "take_bit 64 (v :: u64) = v"
  by (simp_all add: take_bit_word_eq_self)

lemma dirent_header_encode:
  "dirent_header (take 24 (encode e)) =
     \<lparr>de_next = en_next e, de_ino = en_ino e, de_namlen = of_nat (length (en_name e)), de_type = en_type e\<rparr>"
proof -
  let ?n = "word_bytes 8 (en_next e)" and ?i = "word_bytes 8 (en_ino e)"
    and ?l = "word_bytes 4 (of_nat (length (en_name e)) :: u32)"
  have bytes: "take 24 (encode e) = ?n @ ?i @ ?l @ [en_type e, 0, 0, 0]"
    by (simp add: encode_def)
  have "take 8 (take 24 (encode e)) = ?n" "take 8 (drop 8 (take 24 (encode e))) = ?i"
    "take 4 (drop 16 (take 24 (encode e))) = ?l" "take 24 (encode e) ! 20 = en_type e"
    unfolding bytes by (simp_all add: nth_append)
  then show ?thesis
    by (simp add: dirent_header_def le_word_word_bytes take_bit_word_full)
qed

lemma drop_encode_name: "take (length (en_name e)) (drop 24 (encode e)) = en_name e"
  by (simp add: encode_def)

section \<open>Growing a buffer\<close>

lemma unat_of_nat_32: "n < 2 ^ 32 \<Longrightarrow> unat (of_nat n :: size_t) = n"
  by (simp add: unat_of_nat take_bit_nat_eq_self)

lemma unat_exp_32:
  assumes "m < 32"
  shows "unat (2 ^ m :: size_t) = 2 ^ m"
  using unat_of_nat_32 [of "2 ^ m"] power_strict_increasing [OF assms, of "2 :: nat"] by simp

lemma grow_size_result:
  assumes "m \<le> 31" and "unat target \<le> 2 ^ 31" and "31 < f + m"
  shows "\<exists>m'. m \<le> m' \<and> m' \<le> 31 \<and> target \<le> 2 ^ m' \<and> grow_size f (2 ^ m) target = Some (2 ^ m')"
  using assms
proof (induction f arbitrary: m)
  case (Suc f)
  show ?case
  proof (cases "(2 ^ m :: size_t) < target")
    case True
    then have "m < 31"
      using Suc.prems unat_exp_32 [of m]
      by (cases "m = 31") (auto simp: word_less_nat_alt)
    then obtain m' where m': "Suc m \<le> m'" "m' \<le> 31" "target \<le> 2 ^ m'"
      "grow_size f (2 ^ Suc m) target = Some (2 ^ m')"
      using Suc.IH [of "Suc m"] Suc.prems by auto
    then show ?thesis
      using True by (intro exI [of _ m']) (simp add: mult.commute)
  next
    case False
    then show ?thesis
      using Suc.prems by (intro exI [of _ m]) auto
  qed
qed simp

definition buffer_size_ok :: "size_t \<Rightarrow> bool" where
  "buffer_size_ok n \<longleftrightarrow> (\<exists>m \<le> 31. n = 2 ^ m)"

lemma GROW_result:
  assumes "buffer_size_ok n" and "unat target \<le> 2 ^ 31" and "memory_available E"
  shows "\<exists>n' a. GROW E n target s = Some (Some n', s\<lparr>allocs := a\<rparr>) \<and> buffer_size_ok n' \<and>
           target \<le> n' \<and> n \<le> n'"
proof (cases "n < target")
  case True
  obtain m where m: "m \<le> 31" "n = 2 ^ m"
    using assms(1) by (auto simp: buffer_size_ok_def)
  obtain m' where m': "m \<le> m'" "m' \<le> 31" "target \<le> 2 ^ m'" "grow_size 33 n target = Some (2 ^ m')"
    using grow_size_result [OF m(1) assms(2), of 33] m by auto
  have "n \<le> 2 ^ m'"
    using m m' unat_exp_32 [of m] unat_exp_32 [of m'] by (simp add: word_le_nat_alt)
  then show ?thesis
    using True m' alloc_available [OF assms(3), of "2 ^ m'" s]
    by (auto simp: GROW_def buffer_size_ok_def)
next
  case False
  then have "GROW E n target s = Some (Some n, s\<lparr>allocs := allocs s\<rparr>)"
    by (simp add: GROW_def)
  then show ?thesis
    using False assms(1) by (metis linorder_not_less order_refl)
qed

section \<open>A stream at a position of its directory\<close>

text \<open>
  The host serves the directory \<open>dir\<close> on a descriptor: from the cookie of a position on it
  writes the encoded entries, as many bytes as the buffer has room for, possibly cutting the
  last entry.  The cookie of a position is the one of the entry before it.
\<close>

definition cookie_at :: "dir_entry list \<Rightarrow> nat \<Rightarrow> u64" where
  "cookie_at dir k = (if k = 0 then 0 else en_next (dir ! (k - 1)))"

definition serves :: "env \<Rightarrow> u32 \<Rightarrow> dir_entry list \<Rightarrow> bool" where
  "serves E fd dir \<longleftrightarrow>
     (\<forall>h n. \<forall>k \<le> length dir.
        (let r = host E h (Call_fd_readdir fd n (cookie_at dir k))
         in status r = 0 \<and> bytes_out r = take (unat n) (encodes (drop k dir)) \<and>
            size_out r = of_nat (length (bytes_out r))))"

abbreviation left :: "'b dirbuf_scheme \<Rightarrow> nat" where
  "left D \<equiv> unat (dir_used D) - unat (dir_processed D)"

text \<open>
  The unread bytes in the buffer are the next bytes of the directory, and all that is left
  of it when the buffer is not full.
\<close>

definition stream_at :: "dir_entry list \<Rightarrow> 'b dirbuf_scheme \<Rightarrow> nat \<Rightarrow> bool" where
  "stream_at dir D k \<longleftrightarrow> k \<le> length dir \<and> dir_cookie D = cookie_at dir k \<and>
     buffer_size_ok (dir_size D) \<and> 24 \<le> dir_size D \<and>
     dir_processed D \<le> dir_used D \<and> dir_used D \<le> dir_size D \<and>
     left D \<le> length (encodes (drop k dir)) \<and>
     (left D = 0 \<or> unat (dir_used D) \<le> length (dir_buffer D)) \<and>
     take (left D) (drop (unat (dir_processed D)) (dir_buffer D)) = take (left D) (encodes (drop k dir)) \<and>
     (dir_used D = dir_size D \<or> left D = length (encodes (drop k dir)))"

lemma unat_left: "stream_at dir D k \<Longrightarrow> unat (dir_used D - dir_processed D) = left D"
  by (simp add: stream_at_def unat_sub)

text \<open>A buffer the host has just filled.\<close>

lemma stream_at_filled:
  fixes D :: "'b dirbuf_scheme"
  assumes "k \<le> length dir" and "dir_cookie D = cookie_at dir k"
    and "buffer_size_ok (dir_size D)" and "24 \<le> dir_size D"
    and b: "b = take (unat (dir_size D)) (encodes (drop k dir))"
    and D': "D' = D\<lparr>dir_buffer := b, dir_used := of_nat (length b), dir_processed := 0\<rparr>"
  shows "stream_at dir D' k" and "left D' = min (unat (dir_size D)) (length (encodes (drop k dir)))"
    and "dir_used D' < dir_size D' \<or> encodes (drop k dir) \<noteq> []"
proof -
  have le: "length b \<le> unat (dir_size D)"
    by (simp add: b)
  then have n: "unat (of_nat (length b) :: size_t) = length b"
    using unsigned_less [of "dir_size D", where ?'a = nat] by (intro unat_of_nat_32) simp
  then have left: "left D' = length b"
    by (simp add: D')
  show "stream_at dir D' k"
    using assms(1-4) left n le
    by (auto simp: stream_at_def D' b word_le_nat_alt word_unat_eq_iff min_def)
  show "left D' = min (unat (dir_size D)) (length (encodes (drop k dir)))"
    unfolding left b by (simp add: min.commute)
  show "dir_used D' < dir_size D' \<or> encodes (drop k dir) \<noteq> []"
  proof (rule disjCI)
    assume "\<not> encodes (drop k dir) \<noteq> []"
    then have "b = []"
      by (simp add: b)
    then show "dir_used D' < dir_size D'"
      using assms(4) by (simp add: D' word_less_nat_alt word_le_nat_alt)
  qed
qed

lemma serves_reply:
  assumes "serves E fd dir" and "k \<le> length dir"
    and "b = take (unat n) (encodes (drop k dir))"
  shows "wasi_fd_readdir E fd n (cookie_at dir k) s =
           (0, of_nat (length b), b, s\<lparr>calls := calls s @ [Call_fd_readdir fd n (cookie_at dir k)]\<rparr>)"
proof -
  let ?r = "host E (calls s) (Call_fd_readdir fd n (cookie_at dir k))"
  have "status ?r = 0" "bytes_out ?r = b" "size_out ?r = of_nat (length b)"
    using assms unfolding serves_def Let_def by metis+
  then show ?thesis
    by (simp add: operation_defs)
qed

lemma read_entries_result:
  assumes "serves E (dir_fd D) dir" and "k \<le> length dir" and "dir_cookie D = cookie_at dir k"
    and "buffer_size_ok (dir_size D)" and "24 \<le> dir_size D"
  shows "\<exists>D' c. read_entries E D s = Some ((True, D'), s\<lparr>calls := c\<rparr>) \<and> stream_at dir D' k \<and>
           dir_fd D' = dir_fd D \<and> dir_size D' = dir_size D \<and> dirent_size D' = dirent_size D \<and>
           left D' = min (unat (dir_size D)) (length (encodes (drop k dir))) \<and>
           (dir_used D' < dir_size D' \<or> encodes (drop k dir) \<noteq> [])"
proof -
  let ?b = "take (unat (dir_size D)) (encodes (drop k dir))"
  define D' where "D' = D\<lparr>dir_buffer := ?b, dir_used := of_nat (length ?b), dir_processed := 0\<rparr>"
  have "length ?b \<le> unat (dir_size D)"
    by simp
  then have "read_entries E D s = Some ((True, D'), s\<lparr>calls := calls s @
      [Call_fd_readdir (dir_fd D) (dir_size D) (cookie_at dir k)]\<rparr>)"
    using serves_reply [OF assms(1,2) refl, of "dir_size D" s]
    by (simp add: read_entries_def assms(3) D'_def)
  moreover have "dir_fd D' = dir_fd D" "dir_size D' = dir_size D" "dirent_size D' = dirent_size D"
    by (simp_all add: D'_def)
  ultimately show ?thesis
    using stream_at_filled [OF assms(2-5) refl D'_def] by blast
qed

lemma encodes_drop:
  "k < length dir \<Longrightarrow> encodes (drop k dir) = encode (dir ! k) @ encodes (drop (Suc k) dir)"
  by (metis Cons_nth_drop_Suc concat.simps(2) list.simps(9))

definition dirent_of :: "dir_entry \<Rightarrow> dirent" where
  "dirent_of e = \<lparr>d_ino = en_ino e, d_type = en_type e, d_name = en_name e\<rparr>"

text \<open>What the buffer holds of the entry at the position.\<close>

lemma stream_at_entry:
  assumes at: "stream_at dir D k" and k: "k < length dir" and v: "valid_entry (dir ! k)"
  shows "24 \<le> left D \<Longrightarrow> fetch (dir_buffer D) (dir_processed D) sizeof_dirent =
           Some (take 24 (encode (dir ! k)))"
    and "24 + length (en_name (dir ! k)) \<le> left D \<Longrightarrow>
         fetch (dir_buffer D) (dir_processed D + sizeof_dirent) (of_nat (length (en_name (dir ! k)))) =
           Some (en_name (dir ! k))"
proof -
  let ?e = "dir ! k" and ?b = "drop (unat (dir_processed D)) (dir_buffer D)"
  have eq: "take (left D) ?b = take (left D) (encode ?e @ encodes (drop (Suc k) dir))"
    using at by (simp add: stream_at_def encodes_drop [OF k])
  have room: "unat (dir_processed D) + n \<le> length (dir_buffer D)" if "n \<le> left D" "0 < n" for n
  proof -
    have "unat (dir_processed D) \<le> unat (dir_used D)" "unat (dir_used D) \<le> length (dir_buffer D)"
      using at that unfolding stream_at_def word_le_nat_alt by linarith+
    then show ?thesis
      using that by linarith
  qed
  have take: "take n (drop i ?b) = take n (drop i (encode ?e))"
    if "i + n \<le> left D" "i + n \<le> length (encode ?e)" for i n
  proof -
    have "take n (drop i ?b) = take n (drop i (take (left D) ?b))"
      using that by (simp add: drop_take min_def)
    also have "\<dots> = take n (drop i (encode ?e))"
      unfolding eq using that by (simp add: drop_take min_def)
    finally show ?thesis .
  qed
  show "fetch (dir_buffer D) (dir_processed D) sizeof_dirent = Some (take 24 (encode ?e))"
    if "24 \<le> left D"
    using room [OF that] take [of 0 24] that by (simp add: fetch_def sizeof_dirent_def length_encode)
  show "fetch (dir_buffer D) (dir_processed D + sizeof_dirent) (of_nat (length (en_name ?e))) =
      Some (en_name ?e)" if full: "24 + length (en_name ?e) \<le> left D"
  proof -
    have "unat (dir_processed D) + 24 < 2 ^ 32"
      using full unsigned_less [of "dir_used D", where ?'a = nat] by simp
    then have p: "unat (dir_processed D + sizeof_dirent) = unat (dir_processed D) + 24"
      by (simp add: sizeof_dirent_def unat_word_ariths)
    have n: "unat (of_nat (length (en_name ?e)) :: size_t) = length (en_name ?e)"
      using v by (intro unat_of_nat_32) (simp add: valid_entry_def)
    show ?thesis
      using room [OF full] full take [of 24 "length (en_name ?e)"] drop_encode_name [of ?e]
      unfolding fetch_def p n by (simp add: length_encode drop_drop add.commute)
  qed
qed

text \<open>Moving on by one entry that is completely in the buffer.\<close>

lemma stream_at_advance:
  assumes at: "stream_at dir D k" and k: "k < length dir" and v: "valid_entry (dir ! k)"
    and full: "24 + length (en_name (dir ! k)) \<le> left D"
    and sel: "dir_cookie D' = en_next (dir ! k)" "dir_size D' = dir_size D"
      "dir_used D' = dir_used D" "dir_buffer D' = dir_buffer D"
      "dir_processed D' = dir_processed D + (sizeof_dirent + of_nat (length (en_name (dir ! k))))"
  shows "stream_at dir D' (Suc k)"
proof -
  let ?len = "24 + length (en_name (dir ! k))" and ?p = "unat (dir_processed D)"
  have used: "?p \<le> unat (dir_used D)" "unat (dir_used D) < 2 ^ 32"
    using at unsigned_less [of "dir_used D", where ?'a = nat]
    by (simp_all add: stream_at_def word_le_nat_alt)
  have "?len < 2 ^ 32"
    using v by (simp add: valid_entry_def)
  moreover have sum: "sizeof_dirent + of_nat (length (en_name (dir ! k))) = (of_nat ?len :: size_t)"
    by (simp add: sizeof_dirent_def)
  ultimately have "unat (sizeof_dirent + of_nat (length (en_name (dir ! k))) :: size_t) = ?len"
    by (simp only: unat_of_nat_32)
  moreover have "?p + ?len < 2 ^ 32"
    using full used by linarith
  ultimately have p: "unat (dir_processed D + (sizeof_dirent + of_nat (length (en_name (dir ! k))))) = ?p + ?len"
    by (simp add: unat_word_ariths)
  have left: "unat (dir_used D) - (?p + ?len) = left D - ?len"
    by simp
  have rest: "length (encodes (drop k dir)) = ?len + length (encodes (drop (Suc k) dir))"
    by (simp add: encodes_drop [OF k] length_encode)
  have eq: "take (left D) (drop ?p (dir_buffer D)) =
      take (left D) (encode (dir ! k) @ encodes (drop (Suc k) dir))"
    using at by (simp add: stream_at_def encodes_drop [OF k])
  have "take (left D - ?len) (drop (?p + ?len) (dir_buffer D)) =
      drop ?len (take (left D) (drop ?p (dir_buffer D)))"
    by (simp add: drop_take add.commute)
  also have "\<dots> = take (left D - ?len) (encodes (drop (Suc k) dir))"
    unfolding eq using full by (simp add: drop_take length_encode)
  finally have pending: "take (left D - ?len) (drop (?p + ?len) (dir_buffer D)) =
      take (left D - ?len) (encodes (drop (Suc k) dir))" .
  have le: "?p + ?len \<le> unat (dir_used D)"
    using full used by linarith
  have proc: "unat (dir_processed D') = ?p + ?len"
    using p by (simp add: sel)
  have cookie: "dir_cookie D' = cookie_at dir (Suc k)"
    by (simp add: sel cookie_at_def)
  have "left D' = left D - ?len"
    unfolding proc sel(3) by simp
  moreover have "left D \<le> length (encodes (drop k dir))"
    "left D = 0 \<or> unat (dir_used D) \<le> length (dir_buffer D)"
    "dir_used D = dir_size D \<or> left D = length (encodes (drop k dir))"
    using at by (simp_all add: stream_at_def)
  moreover have "buffer_size_ok (dir_size D)" "24 \<le> dir_size D" "dir_used D \<le> dir_size D"
    using at by (simp_all add: stream_at_def)
  moreover have "dir_processed D' \<le> dir_used D'"
    unfolding word_le_nat_alt proc sel(3) by (rule le)
  ultimately show ?thesis
    unfolding stream_at_def sel(2-4) cookie proc using k pending rest full by auto
qed

lemma readdir_full:
  assumes at: "stream_at dir D k" and ds0: "buffer_size_ok (dirent_size D)" and k: "k < length dir" and v: "valid_entry (dir ! k)"
    and mem: "memory_available E" and full: "24 + length (en_name (dir ! k)) \<le> left D"
  shows "\<exists>D' a. readdir E D s = Some ((Some (dirent_of (dir ! k)), D'), s\<lparr>allocs := a\<rparr>) \<and>
           stream_at dir D' (Suc k) \<and> buffer_size_ok (dirent_size D') \<and> dir_fd D' = dir_fd D"
proof -
  let ?e = "dir ! k" and ?n = "of_nat (length (en_name (dir ! k))) :: size_t"
  have len: "length (en_name ?e) \<noteq> 0" "24 + length (en_name ?e) \<le> 2 ^ 31" "0 \<notin> set (en_name ?e)"
    using v by (auto simp: valid_entry_def)
  then have n: "unat ?n = length (en_name ?e)" "?n \<noteq> 0"
    using unat_of_nat_32 [of "length (en_name ?e)"] by auto
  have es: "unat (sizeof_dirent + ?n) = 24 + length (en_name ?e)"
    and ds: "unat (offsetof_d_name + ?n + 1) = 10 + length (en_name ?e)"
    using unat_of_nat_32 [of "24 + length (en_name ?e)"] unat_of_nat_32 [of "10 + length (en_name ?e)"] len(2)
    by (simp_all add: sizeof_dirent_def offsetof_d_name_def ac_simps)
  have "buffer_size_ok (dirent_size D)" "unat (offsetof_d_name + ?n + 1) \<le> 2 ^ 31"
    using ds0 ds len(2) by simp_all
  from GROW_result [OF this mem, of s] obtain m a where
    grow: "GROW E (dirent_size D) (offsetof_d_name + ?n + 1) s = Some (Some m, s\<lparr>allocs := a\<rparr>)"
    and m: "buffer_size_ok m" "offsetof_d_name + ?n + 1 \<le> m"
    by blast
  have room: "\<not> unat m < unat offsetof_d_name + length (en_name ?e) + 1"
    using m(2) ds by (simp add: word_le_nat_alt offsetof_d_name_def)
  have "\<not> dir_used D - dir_processed D < sizeof_dirent"
    "\<not> dir_used D - dir_processed D < sizeof_dirent + ?n"
    using full es unat_left [OF at] by (simp_all add: word_less_nat_alt sizeof_dirent_def)
  then have "readdir E D s = Some ((Some (dirent_of ?e),
      D\<lparr>dirent_size := m, dir_cookie := en_next ?e,
        dir_processed := dir_processed D + (sizeof_dirent + ?n)\<rparr>), s\<lparr>allocs := a\<rparr>)"
    using stream_at_entry [OF at k v] full n len(3) grow room
    by (subst readdir.simps) (simp add: dirent_header_encode dirent_of_def)
  moreover have "stream_at dir (D\<lparr>dirent_size := m, dir_cookie := en_next ?e,
      dir_processed := dir_processed D + (sizeof_dirent + ?n)\<rparr>) (Suc k)"
    by (rule stream_at_advance [OF at k v full]) simp_all
  ultimately show ?thesis
    using m(1) by auto
qed

section \<open>Reading the next entry\<close>

definition delivers :: "dir_entry list \<Rightarrow> nat \<Rightarrow> DIR \<Rightarrow> 'a libc_scheme \<Rightarrow>
   ((dirent option \<times> DIR) \<times> 'a libc_scheme) option \<Rightarrow> bool" where
  "delivers dir k D s res \<longleftrightarrow> (\<exists>D' s'. res = Some ((Some (dirent_of (dir ! k)), D'), s') \<and>
     stream_at dir D' (Suc k) \<and> buffer_size_ok (dirent_size D') \<and> dir_fd D' = dir_fd D \<and>
     errno s' = errno s)"

lemma readdir_full_delivers:
  assumes "stream_at dir D k" and "buffer_size_ok (dirent_size D)" and "k < length dir" and "valid_entry (dir ! k)"
    and "memory_available E" and "24 + length (en_name (dir ! k)) \<le> left D"
  shows "delivers dir k D s (readdir E D s)"
  using readdir_full [OF assms, of s] by (fastforce simp: delivers_def)

lemma readdir_partial_delivers:
  assumes at: "stream_at dir D k" and ds: "buffer_size_ok (dirent_size D)" and k: "k < length dir" and v: "valid_entry (dir ! k)"
    and mem: "memory_available E" and serves: "serves E (dir_fd D) dir"
    and left: "24 \<le> left D" "left D < 24 + length (en_name (dir ! k))"
  shows "delivers dir k D s (readdir E D s)"
proof -
  let ?e = "dir ! k" and ?n = "of_nat (length (en_name (dir ! k))) :: size_t"
  have len: "length (en_name ?e) \<noteq> 0" "24 + length (en_name ?e) \<le> 2 ^ 31"
    using v by (auto simp: valid_entry_def)
  then have n: "?n \<noteq> 0"
    using unat_of_nat_32 [of "length (en_name ?e)"] by auto
  have es: "unat (sizeof_dirent + ?n) = 24 + length (en_name ?e)"
    using unat_of_nat_32 [of "24 + length (en_name ?e)"] len(2) by (simp add: sizeof_dirent_def)
  have "buffer_size_ok (dir_size D)" "unat (sizeof_dirent + ?n) \<le> 2 ^ 31"
    using at es len(2) by (simp_all add: stream_at_def)
  from GROW_result [OF this mem, of s] obtain m a where
    grow: "GROW E (dir_size D) (sizeof_dirent + ?n) s = Some (Some m, s\<lparr>allocs := a\<rparr>)"
    and m: "buffer_size_ok m" "sizeof_dirent + ?n \<le> m" "dir_size D \<le> m"
    by blast
  let ?s1 = "s\<lparr>allocs := a\<rparr>" and ?D1 = "D\<lparr>dir_size := m\<rparr>"
  have "serves E (dir_fd ?D1) dir" "k \<le> length dir" "dir_cookie ?D1 = cookie_at dir k"
    "buffer_size_ok (dir_size ?D1)" "24 \<le> dir_size ?D1"
    using serves k at m by (auto simp: stream_at_def)
  from read_entries_result [OF this, of ?s1] obtain D' c where
    read: "read_entries E ?D1 ?s1 = Some ((True, D'), ?s1\<lparr>calls := c\<rparr>)"
    and at': "stream_at dir D' k" and D': "dir_fd D' = dir_fd D" "dirent_size D' = dirent_size D"
      "left D' = min (unat m) (length (encodes (drop k dir)))"
    by auto
  have "24 + length (en_name ?e) \<le> left D'"
    using m(2) es by (simp add: D'(3) word_le_nat_alt encodes_drop [OF k] length_encode)
  from readdir_full_delivers [OF at' _ k v mem this, of "?s1\<lparr>calls := c\<rparr>"]
  have "delivers dir k D s (readdir E D' (?s1\<lparr>calls := c\<rparr>))"
    using ds by (auto simp: delivers_def D'(1,2))
  moreover have "readdir E D s = readdir E D' (?s1\<lparr>calls := c\<rparr>)"
    using left n es unat_left [OF at] stream_at_entry(1) [OF at k v left(1)] grow read
    by (subst readdir.simps)
       (simp add: word_less_nat_alt sizeof_dirent_def dirent_header_encode)
  ultimately show ?thesis
    by simp
qed

lemma readdir_delivers:
  assumes at: "stream_at dir D k" and ds: "buffer_size_ok (dirent_size D)" and k: "k < length dir" and v: "valid_entry (dir ! k)"
    and mem: "memory_available E" and serves: "serves E (dir_fd D) dir"
  shows "delivers dir k D s (readdir E D s)"
proof -
  have whole: "delivers dir k D s (readdir E D s)" if "stream_at dir D k" "buffer_size_ok (dirent_size D)"
      "24 \<le> left D" "serves E (dir_fd D) dir" for D and s :: "'a libc_scheme"
    using readdir_full_delivers [OF that(1,2) k v mem]
      readdir_partial_delivers [OF that(1,2) k v mem that(4,3)] by (meson not_le)
  show ?thesis
  proof (cases "24 \<le> left D")
    case False
    have rest: "length (encodes (drop k dir)) = 24 + length (en_name (dir ! k)) +
        length (encodes (drop (Suc k) dir))"
      by (simp add: encodes_drop [OF k] length_encode)
    then have used: "dir_used D = dir_size D"
      using at False by (auto simp: stream_at_def)
    have pre: "dir_cookie D = cookie_at dir k" "buffer_size_ok (dir_size D)" "24 \<le> dir_size D"
      using at by (auto simp: stream_at_def)
    from read_entries_result [OF serves less_imp_le [OF k] pre, of s] obtain D' c where
      read: "read_entries E D s = Some ((True, D'), s\<lparr>calls := c\<rparr>)"
      and at': "stream_at dir D' k" and D': "dir_fd D' = dir_fd D" "dirent_size D' = dirent_size D"
        "left D' = min (unat (dir_size D)) (length (encodes (drop k dir)))"
      by auto
    have "24 \<le> left D'"
      using pre(3) by (simp add: D'(3) rest word_le_nat_alt)
    from whole [OF at' _ this, of "s\<lparr>calls := c\<rparr>"] have "delivers dir k D s (readdir E D' (s\<lparr>calls := c\<rparr>))"
      using serves ds by (auto simp: delivers_def D'(1,2))
    moreover have "readdir E D s = readdir E D' (s\<lparr>calls := c\<rparr>)"
      using False used unat_left [OF at] read
      by (subst readdir.simps) (simp add: word_less_nat_alt sizeof_dirent_def)
    ultimately show ?thesis
      by simp
  qed (rule whole [OF at ds _ serves])
qed

lemma readdir_at_end:
  assumes at: "stream_at dir D (length dir)" and serves: "serves E (dir_fd D) dir"
  shows "\<exists>D' s'. readdir E D s = Some ((None, D'), s') \<and> errno s' = errno s \<and>
           stream_at dir D' (length dir) \<and> dir_fd D' = dir_fd D"
proof -
  have left: "left D = 0"
    using at by (simp add: stream_at_def)
  then have less: "dir_used D - dir_processed D < sizeof_dirent"
    using unat_left [OF at] by (simp add: word_less_nat_alt sizeof_dirent_def)
  show ?thesis
  proof (cases "dir_used D < dir_size D")
    case True
    then show ?thesis
      using less at by (subst readdir.simps) auto
  next
    case False
    have pre: "dir_cookie D = cookie_at dir (length dir)" "buffer_size_ok (dir_size D)" "24 \<le> dir_size D"
      using at by (auto simp: stream_at_def)
    from read_entries_result [OF serves order_refl pre, of s] obtain D' c where
      read: "read_entries E D s = Some ((True, D'), s\<lparr>calls := c\<rparr>)"
      and at': "stream_at dir D' (length dir)" and D': "dir_fd D' = dir_fd D" "dir_used D' < dir_size D'"
        "left D' = 0"
      by auto
    have "dir_used D' - dir_processed D' < sizeof_dirent"
      using unat_left [OF at'] D'(3) by (simp add: word_less_nat_alt sizeof_dirent_def)
    then have "readdir E D' (s\<lparr>calls := c\<rparr>) = Some ((None, D'), s\<lparr>calls := c\<rparr>)"
      using D'(2) by (subst readdir.simps) simp
    moreover have "readdir E D s = readdir E D' (s\<lparr>calls := c\<rparr>)"
      using less False read by (subst readdir.simps) simp
    ultimately show ?thesis
      using at' D'(1) by simp
  qed
qed

section \<open>Listing a directory\<close>

text \<open>The results of \<open>n\<close> successive calls of \<open>readdir\<close>.\<close>

primrec read_n ::
  "nat \<Rightarrow> env \<Rightarrow> DIR \<Rightarrow> 'a libc_scheme \<Rightarrow> ((dirent option list \<times> DIR) \<times> 'a libc_scheme) option" where
  "read_n 0 E D s = Some (([], D), s)"
| "read_n (Suc n) E D s = do {
     ((e, D), s) \<leftarrow> readdir E D s;
     ((es, D), s) \<leftarrow> read_n n E D s;
     Some ((e # es, D), s) }"

lemma read_n_lists:
  assumes "stream_at dir D k" and "buffer_size_ok (dirent_size D)" and "serves E (dir_fd D) dir" and "memory_available E"
    and "\<forall>e \<in> set dir. valid_entry e"
  shows "\<exists>D' s'. read_n (Suc (length dir - k)) E D s =
           Some ((map (Some \<circ> dirent_of) (drop k dir) @ [None], D'), s') \<and>
           errno s' = errno s \<and> dir_fd D' = dir_fd D \<and> stream_at dir D' (length dir)"
  using assms
proof (induction "length dir - k" arbitrary: k D s)
  case 0
  then have "k = length dir"
    by (simp add: stream_at_def)
  then show ?case
    using readdir_at_end [of dir D E s] 0 by auto
next
  case (Suc n)
  then have k: "k < length dir"
    by simp
  obtain D1 s1 where step: "readdir E D s = Some ((Some (dirent_of (dir ! k)), D1), s1)"
    and at: "stream_at dir D1 (Suc k)" "buffer_size_ok (dirent_size D1)"
    and D1: "dir_fd D1 = dir_fd D" "errno s1 = errno s"
    using readdir_delivers [OF Suc.prems(1,2) k _ Suc.prems(4,3), of s] Suc.prems(5) k
    by (auto simp: delivers_def)
  have n: "Suc (length dir - k) = Suc (Suc (length dir - Suc k))"
    using k by simp
  obtain D' s' where "read_n (Suc (length dir - Suc k)) E D1 s1 =
      Some ((map (Some \<circ> dirent_of) (drop (Suc k) dir) @ [None], D'), s')"
    "errno s' = errno s" "dir_fd D' = dir_fd D" "stream_at dir D' (length dir)"
  proof -
    have "n = length dir - Suc k"
      using Suc.hyps(2) by simp
    from Suc.hyps(1) [OF this at _ Suc.prems(4,5), of s1] that show thesis
      using Suc.prems(3) D1 by metis
  qed
  moreover have "drop k dir = dir ! k # drop (Suc k) dir"
    by (rule Cons_nth_drop_Suc [OF k, symmetric])
  ultimately show ?case
    unfolding n read_n.simps(2) [of "Suc (length dir - Suc k)"] by (simp add: step del: read_n.simps)
qed

lemma fdopendir_result:
  assumes serves: "serves E fd dir" and mem: "memory_available E"
  shows "\<exists>D s'. fdopendir E fd s = Some (Some D, s') \<and> stream_at dir D 0 \<and>
           buffer_size_ok (dirent_size D) \<and> dir_fd D = fd \<and> errno s' = errno s"
proof -
  define D0 where "D0 = \<lparr>dir_cookie = 0, dir_buffer = [], dir_processed = 0,
    dir_size = DIRENT_DEFAULT_BUFFER_SIZE, dir_used = 0, dir_fd = fd, dirent_size = 1\<rparr>"
  let ?s = "s\<lparr>allocs := Suc (Suc (allocs s))\<rparr>"
  have size: "DIRENT_DEFAULT_BUFFER_SIZE = 2 ^ 12"
    by (simp add: DIRENT_DEFAULT_BUFFER_SIZE_def)
  have "(1 :: size_t) = 2 ^ 0"
    by simp
  then have "buffer_size_ok DIRENT_DEFAULT_BUFFER_SIZE" "buffer_size_ok 1"
    unfolding buffer_size_ok_def size by (metis numeral_le_iff rel_simps zero_le)+
  then have "serves E (dir_fd D0) dir" "0 \<le> length dir" "dir_cookie D0 = cookie_at dir 0"
    "buffer_size_ok (dir_size D0)" "24 \<le> dir_size D0"
    using serves by (simp_all add: D0_def cookie_at_def DIRENT_DEFAULT_BUFFER_SIZE_def)
  from read_entries_result [OF this, of ?s] obtain D c where
    read: "read_entries E D0 ?s = Some ((True, D), ?s\<lparr>calls := c\<rparr>)" and D: "stream_at dir D 0" "dirent_size D = 1" "dir_fd D = fd"
    by (auto simp: D0_def)
  from read have "fdopendir E fd s = Some (Some D, ?s\<lparr>calls := c\<rparr>)"
    by (auto simp: fdopendir_def read_entries_def operation_defs alloc_available [OF mem] D0_def
        split: if_splits)
  then show ?thesis
    using D \<open>buffer_size_ok 1\<close> by auto
qed

text \<open>
  C12. Whatever the sizes of the entries, reading a directory delivers exactly its entries, in
  order, and then the end: on a host that serves the directory in pieces of the buffer's
  size, cutting entries where the buffer ends, \<open>fdopendir\<close> succeeds, each call of \<open>readdir\<close>
  returns after finitely many host calls, the last one returns \<open>NULL\<close> with \<open>errno\<close>
  unchanged.
\<close>

theorem readdir_lists_directory:
  assumes "serves E fd dir" and "\<forall>e \<in> set dir. valid_entry e" and "memory_available E"
  shows "\<exists>D s1 D' s2. fdopendir E fd s = Some (Some D, s1) \<and>
           read_n (Suc (length dir)) E D s1 = Some ((map (Some \<circ> dirent_of) dir @ [None], D'), s2) \<and>
           errno s2 = errno s \<and> dirfd D' = fd"
proof -
  obtain D s1 where D: "fdopendir E fd s = Some (Some D, s1)" "stream_at dir D 0" "buffer_size_ok (dirent_size D)"
    "dir_fd D = fd" "errno s1 = errno s"
    using fdopendir_result [OF assms(1,3)] by blast
  then show ?thesis
    using read_n_lists [of dir D 0 E s1] assms by (auto simp: dirfd_def)
qed

text \<open>
  \<open>telldir\<close> and \<open>seekdir\<close> return to a position: as long as the cookie of the host fits a
  \<open>long\<close>, a stream that is sent to a position told before reads the entry at that
  position next, and a rewound stream reads from the start.
\<close>

theorem seekdir_returns_to_telldir:
  assumes "stream_at dir D k" and "stream_at dir D' j" and "uint (dir_cookie D) < 2 ^ 32"
  shows "stream_at dir (seekdir D' (telldir D)) k \<and> stream_at dir (rewinddir D') 0"
proof -
  have "(ucast (ucast (dir_cookie D) :: u32) :: u64) = dir_cookie D"
    using assms(3) by (simp add: word_uint_eq_iff unsigned_ucast_eq unsigned_take_bit_eq take_bit_int_eq_self)
  then show ?thesis
    using assms(1,2) by (simp add: stream_at_def seekdir_def telldir_def rewinddir_def cookie_at_def)
qed

section \<open>The result of scandirat\<close>

definition cap_ok :: "scan \<Rightarrow> bool" where
  "cap_ok C \<longleftrightarrow> length (dirents C) \<le> unat (dirents_size C) \<and>
     (dirents_size C = 0 \<or> 8 \<le> unat (dirents_size C) \<and>
        unat (dirents_size C) \<le> 8 + 2 * length (dirents C))"

lemma scan_add_result:
  assumes cap: "cap_ok C" and mem: "memory_available E" and small: "length (dirents C) < 2 ^ 28"
  shows "\<exists>n a. scan_add E d C s = Some ((True, C\<lparr>dirents_size := n, dirents := dirents C @ [d]\<rparr>), s\<lparr>allocs := a\<rparr>) \<and>
           cap_ok (C\<lparr>dirents_size := n, dirents := dirents C @ [d]\<rparr>)"
proof (cases "of_nat (length (dirents C)) = dirents_size C")
  case True
  let ?n = "if dirents_size C < 8 then 8 else dirents_size C * 2"
  have len: "unat (dirents_size C) = length (dirents C)"
    using True small unat_of_nat_32 [of "length (dirents C)"] by simp
  have n: "unat ?n = (if length (dirents C) < 8 then 8 else 2 * length (dirents C))"
    using small by (simp add: word_less_nat_alt len unat_word_ariths)
  then have "unat (?n * 4) = 4 * unat ?n"
    using small by (simp only: unat_word_ariths) (simp add: n)
  moreover have "length (dirents C) < unat ?n"
    unfolding n by auto
  ultimately have "scan_add E d C s =
      Some ((True, C\<lparr>dirents_size := ?n, dirents := dirents C @ [d]\<rparr>), s\<lparr>allocs := Suc (allocs s)\<rparr>)"
    using True alloc_available [OF mem, of "?n * 4" s] by (simp add: scan_add_def Let_def)
  moreover have "cap_ok (C\<lparr>dirents_size := ?n, dirents := dirents C @ [d]\<rparr>)"
    using cap n len by (auto simp: cap_ok_def)
  ultimately show ?thesis
    by blast
next
  case False
  have "length (dirents C) \<noteq> unat (dirents_size C)"
  proof
    assume "length (dirents C) = unat (dirents_size C)"
    then have "of_nat (length (dirents C)) = (of_nat (unat (dirents_size C)) :: size_t)"
      by (rule arg_cong)
    with False show False
      by simp
  qed
  then have "cap_ok (C\<lparr>dirents_size := dirents_size C, dirents := dirents C @ [d]\<rparr>)"
    using cap by (auto simp: cap_ok_def)
  moreover have "scan_add E d C s =
      Some ((True, C\<lparr>dirents_size := dirents_size C, dirents := dirents C @ [d]\<rparr>), s\<lparr>allocs := allocs s\<rparr>)"
    using False by (simp add: scan_add_def)
  ultimately show ?thesis
    by blast
qed

text \<open>The loop invariant: the buffer stands at entry \<open>k\<close>, the entries before it are selected.\<close>

definition scan_inv :: "dir_entry list \<Rightarrow> (dirent \<Rightarrow> bool) \<Rightarrow> scan \<Rightarrow> nat \<Rightarrow> bool" where
  "scan_inv dir sel C k \<longleftrightarrow> stream_at dir C k \<and> cap_ok C \<and>
     dirents C = filter sel (map dirent_of (take k dir))"

lemma scan_read_result:
  assumes "serves E fd dir" and "k \<le> length dir" and "dir_cookie C = cookie_at dir k"
    and "buffer_size_ok (dir_size C)" and "24 \<le> dir_size C"
  shows "\<exists>C' c. scan_read E fd C s = Some ((True, C'), s\<lparr>calls := c\<rparr>) \<and> stream_at dir C' k \<and>
           dirents C' = dirents C \<and> dirents_size C' = dirents_size C \<and>
           left C' = min (unat (dir_size C)) (length (encodes (drop k dir))) \<and>
           (dir_used C' < dir_size C' \<or> encodes (drop k dir) \<noteq> [])"
proof -
  let ?b = "take (unat (dir_size C)) (encodes (drop k dir))"
  define C' where "C' = C\<lparr>dir_buffer := ?b, dir_used := of_nat (length ?b), dir_processed := 0\<rparr>"
  have "length ?b \<le> unat (dir_size C)"
    by simp
  then have "scan_read E fd C s = Some ((True, C'), s\<lparr>calls := calls s @
      [Call_fd_readdir fd (dir_size C) (cookie_at dir k)]\<rparr>)"
    using serves_reply [OF assms(1,2) refl, of "dir_size C" s]
    by (simp add: scan_read_def assms(3) C'_def)
  moreover have "dirents C' = dirents C" "dirents_size C' = dirents_size C"
    by (simp_all add: C'_def)
  ultimately show ?thesis
    using stream_at_filled [OF assms(2-5) refl C'_def] by blast
qed

abbreviation (input) continues where
  "continues E fd sel C s C' s' \<equiv> scan_loop E fd sel C s = scan_loop E fd sel C' s' \<and> errno s' = errno s"

lemma scan_full:
  assumes inv: "scan_inv dir sel C k" and k: "k < length dir" and v: "valid_entry (dir ! k)"
    and mem: "memory_available E" and small: "length dir < 2 ^ 28"
    and full: "24 + length (en_name (dir ! k)) \<le> left C"
  shows "\<exists>C' s'. continues E fd sel C s C' s' \<and> scan_inv dir sel C' (Suc k)"
proof -
  let ?e = "dir ! k" and ?n = "of_nat (length (en_name (dir ! k))) :: size_t"
  let ?d = "dirent_of ?e" and ?s = "s\<lparr>allocs := Suc (allocs s)\<rparr>"
  have at: "stream_at dir C k" and cap: "cap_ok C"
    and ds: "dirents C = filter sel (map dirent_of (take k dir))"
    using inv by (simp_all add: scan_inv_def)
  have len: "length (en_name ?e) \<noteq> 0" "24 + length (en_name ?e) \<le> 2 ^ 31" "0 \<notin> set (en_name ?e)"
    using v by (auto simp: valid_entry_def)
  then have n: "unat ?n = length (en_name ?e)" "?n \<noteq> 0"
    using unat_of_nat_32 [of "length (en_name ?e)"] by auto
  have es: "unat (sizeof_dirent + ?n) = 24 + length (en_name ?e)"
    and ns: "unat (offsetof_d_name + ?n + 1) = 10 + length (en_name ?e)"
    using unat_of_nat_32 [of "24 + length (en_name ?e)"] unat_of_nat_32 [of "10 + length (en_name ?e)"] len(2)
    by (simp_all add: sizeof_dirent_def offsetof_d_name_def ac_simps)
  define C1 where "C1 = C\<lparr>dir_processed := dir_processed C + (sizeof_dirent + ?n), dir_cookie := en_next ?e\<rparr>"
  have at1: "stream_at dir C2 (Suc k)" if "dir_cookie C2 = dir_cookie C1" "dir_size C2 = dir_size C1"
    "dir_used C2 = dir_used C1" "dir_buffer C2 = dir_buffer C1" "dir_processed C2 = dir_processed C1"
    for C2 :: scan
    using that by (intro stream_at_advance [OF at k v full]) (simp_all add: C1_def)
  have take: "take (Suc k) dir = take k dir @ [?e]"
    using k by (rule take_Suc_conv_app_nth)
  have "length (dirents C) \<le> length (take k dir)"
    unfolding ds by (metis length_filter_le length_map)
  then have lim: "length (dirents C1) < 2 ^ 28"
    using small by (simp add: C1_def)
  have cap1: "cap_ok C1"
    using cap by (simp add: C1_def cap_ok_def)
  have "\<not> dir_used C - dir_processed C < sizeof_dirent"
    "\<not> dir_used C - dir_processed C < sizeof_dirent + ?n"
    using full es unat_left [OF at] by (simp_all add: word_less_nat_alt sizeof_dirent_def)
  then have loop: "scan_loop E fd sel C s = do {
       ((ok, C), s) \<leftarrow> (if sel ?d then scan_add E ?d C1 ?s else Some ((True, C1), ?s));
       if ok then scan_loop E fd sel C s else Some ((False, C), s) }"
    using stream_at_entry [OF at k v] full n len(3) ns alloc_available [OF mem, of "offsetof_d_name + ?n + 1" s]
    by (subst scan_loop.simps)
       (simp add: dirent_header_encode dirent_of_def C1_def offsetof_d_name_def Let_def)
  show ?thesis
  proof (cases "sel ?d")
    case True
    obtain m a where add: "scan_add E ?d C1 ?s =
        Some ((True, C1\<lparr>dirents_size := m, dirents := dirents C1 @ [?d]\<rparr>), ?s\<lparr>allocs := a\<rparr>)"
      and "cap_ok (C1\<lparr>dirents_size := m, dirents := dirents C1 @ [?d]\<rparr>)"
      using scan_add_result [OF cap1 mem lim] by blast
    then have "scan_inv dir sel (C1\<lparr>dirents_size := m, dirents := dirents C1 @ [?d]\<rparr>) (Suc k)"
      using at1 [of "C1\<lparr>dirents_size := m, dirents := dirents C1 @ [?d]\<rparr>"] True ds
      by (simp add: scan_inv_def take C1_def)
    then show ?thesis
      using loop True add by fastforce
  next
    case False
    have "scan_inv dir sel C1 (Suc k)"
      using at1 [of C1] cap1 False ds by (simp add: scan_inv_def take C1_def)
    then show ?thesis
      using loop False by fastforce
  qed
qed

lemma scan_partial:
  assumes inv: "scan_inv dir sel C k" and k: "k < length dir" and v: "valid_entry (dir ! k)"
    and mem: "memory_available E" and serves: "serves E fd dir"
    and left: "24 \<le> left C" "left C < 24 + length (en_name (dir ! k))"
  shows "\<exists>C' s'. continues E fd sel C s C' s' \<and> scan_inv dir sel C' k \<and>
           24 + length (en_name (dir ! k)) \<le> left C'"
proof -
  let ?e = "dir ! k" and ?n = "of_nat (length (en_name (dir ! k))) :: size_t"
  have at: "stream_at dir C k"
    using inv by (simp add: scan_inv_def)
  have len: "length (en_name ?e) \<noteq> 0" "24 + length (en_name ?e) \<le> 2 ^ 31"
    using v by (auto simp: valid_entry_def)
  then have n: "?n \<noteq> 0"
    using unat_of_nat_32 [of "length (en_name ?e)"] by auto
  have es: "unat (sizeof_dirent + ?n) = 24 + length (en_name ?e)"
    using unat_of_nat_32 [of "24 + length (en_name ?e)"] len(2) by (simp add: sizeof_dirent_def)
  obtain m where m: "m \<le> 31" "dir_size C = 2 ^ m"
    using at by (auto simp: stream_at_def buffer_size_ok_def)
  have "unat (sizeof_dirent + ?n) \<le> 2 ^ 31" "31 < 33 + m"
    using es len(2) by simp_all
  from grow_size_result [OF m(1) this] obtain m' where m': "m \<le> m'" "m' \<le> 31"
    "sizeof_dirent + ?n \<le> 2 ^ m'" "grow_size 33 (dir_size C) (sizeof_dirent + ?n) = Some (2 ^ m')"
    using m(2) by auto
  let ?s1 = "s\<lparr>allocs := Suc (allocs s)\<rparr>" and ?C1 = "C\<lparr>dir_size := 2 ^ m'\<rparr>"
  have "dir_size C \<le> 2 ^ m'"
    using m m' unat_exp_32 [of m] unat_exp_32 [of m'] by (simp add: word_le_nat_alt)
  then have "k \<le> length dir" "dir_cookie ?C1 = cookie_at dir k" "buffer_size_ok (dir_size ?C1)"
    "24 \<le> dir_size ?C1"
    using k at m' by (auto simp: stream_at_def buffer_size_ok_def)
  from scan_read_result [OF serves this, of ?s1] obtain C' c where
    read: "scan_read E fd ?C1 ?s1 = Some ((True, C'), ?s1\<lparr>calls := c\<rparr>)"
    and at': "stream_at dir C' k" and C': "dirents C' = dirents C" "dirents_size C' = dirents_size C"
      "left C' = min (unat (2 ^ m' :: size_t)) (length (encodes (drop k dir)))"
    by auto
  have "24 + length (en_name ?e) \<le> left C'"
    using m'(3) es by (simp add: C'(3) word_le_nat_alt encodes_drop [OF k] length_encode)
  moreover have "scan_inv dir sel C' k"
    using inv at' C'(1,2) unfolding scan_inv_def cap_ok_def by metis
  moreover have "scan_loop E fd sel C s = scan_loop E fd sel C' (?s1\<lparr>calls := c\<rparr>)"
    using left n es unat_left [OF at] stream_at_entry(1) [OF at k v left(1)] m'(4) read
      alloc_available [OF mem, of "2 ^ m'" s]
    by (subst scan_loop.simps)
       (simp add: word_less_nat_alt sizeof_dirent_def dirent_header_encode)
  ultimately show ?thesis
    by fastforce
qed

lemma scan_short:
  assumes inv: "scan_inv dir sel C k" and serves: "serves E fd dir" and short: "left C < 24"
    and used: "dir_used C = dir_size C"
  shows "\<exists>C' s'. continues E fd sel C s C' s' \<and> scan_inv dir sel C' k \<and>
           left C' = min (unat (dir_size C)) (length (encodes (drop k dir))) \<and>
           (dir_used C' < dir_size C' \<or> encodes (drop k dir) \<noteq> [])"
proof -
  have at: "stream_at dir C k"
    using inv by (simp add: scan_inv_def)
  have pre: "k \<le> length dir" "dir_cookie C = cookie_at dir k" "buffer_size_ok (dir_size C)" "24 \<le> dir_size C"
    using at by (auto simp: stream_at_def)
  from scan_read_result [OF serves pre, of s] obtain C' c where
    read: "scan_read E fd C s = Some ((True, C'), s\<lparr>calls := c\<rparr>)" and at': "stream_at dir C' k"
    and C': "dirents C' = dirents C" "dirents_size C' = dirents_size C"
      "left C' = min (unat (dir_size C)) (length (encodes (drop k dir)))"
      "dir_used C' < dir_size C' \<or> encodes (drop k dir) \<noteq> []"
    by blast
  have "scan_inv dir sel C' k"
    using inv at' C'(1,2) unfolding scan_inv_def cap_ok_def by metis
  moreover have "scan_loop E fd sel C s = scan_loop E fd sel C' (s\<lparr>calls := c\<rparr>)"
    using short used unat_left [OF at] read
    by (subst scan_loop.simps) (simp add: word_less_nat_alt sizeof_dirent_def)
  ultimately show ?thesis
    using C'(3,4) by fastforce
qed

lemma scan_step:
  assumes inv: "scan_inv dir sel C k" and k: "k < length dir" and v: "valid_entry (dir ! k)"
    and mem: "memory_available E" and serves: "serves E fd dir" and small: "length dir < 2 ^ 28"
  shows "\<exists>C' s'. continues E fd sel C s C' s' \<and> scan_inv dir sel C' (Suc k)"
proof -
  have header: "\<exists>C' s'. continues E fd sel C s C' s' \<and> scan_inv dir sel C' (Suc k)"
    if inv': "scan_inv dir sel C k" and hd: "24 \<le> left C" for C and s :: "'a libc_scheme"
  proof (cases "24 + length (en_name (dir ! k)) \<le> left C")
    case True
    then show ?thesis
      by (rule scan_full [OF inv' k v mem small])
  next
    case False
    then obtain C' s' where C': "continues E fd sel C s C' s'" "scan_inv dir sel C' k"
      "24 + length (en_name (dir ! k)) \<le> left C'"
      using scan_partial [OF inv' k v mem serves hd, of s] by auto
    from scan_full [OF C'(2) k v mem small C'(3), of fd s'] show ?thesis
      using C'(1) by metis
  qed
  show ?thesis
  proof (cases "24 \<le> left C")
    case False
    have at: "stream_at dir C k"
      using inv by (simp add: scan_inv_def)
    have rest: "24 \<le> length (encodes (drop k dir))"
      by (simp add: encodes_drop [OF k] length_encode)
    then have "dir_used C = dir_size C" "24 \<le> unat (dir_size C)"
      using at False by (auto simp: stream_at_def word_le_nat_alt)
    then obtain C' s' where "continues E fd sel C s C' s'" "scan_inv dir sel C' k" "24 \<le> left C'"
      using scan_short [OF inv serves, of s] False rest by auto
    from header [OF this(2,3), of s'] this(1) show ?thesis
      by metis
  qed (rule header [OF inv])
qed

lemma scan_loop_lists:
  assumes "scan_inv dir sel C k" and "\<forall>e \<in> set dir. valid_entry e"
    and "memory_available E" and "serves E fd dir" and "length dir < 2 ^ 28"
  shows "\<exists>C' s'. scan_loop E fd sel C s = Some ((True, C'), s') \<and>
           dirents C' = filter sel (map dirent_of dir) \<and> errno s' = errno s"
  using assms
proof (induction "length dir - k" arbitrary: k C s)
  case 0
  then have k: "k = length dir" and at: "stream_at dir C k"
    by (auto simp: scan_inv_def stream_at_def)
  have stop: "scan_loop E fd sel C s = Some ((True, C), s)"
    if "stream_at dir C k" "dir_used C < dir_size C" for C s
  proof -
    have "left C = 0"
      using that by (simp add: stream_at_def k)
    then show ?thesis
      using that unat_left [OF that(1)]
      by (subst scan_loop.simps) (simp add: word_less_nat_alt sizeof_dirent_def)
  qed
  show ?case
  proof (cases "dir_used C < dir_size C")
    case True
    then show ?thesis
      using stop [OF at True, of s] 0 k by (simp add: scan_inv_def)
  next
    case False
    then have "dir_used C = dir_size C" "left C < 24"
      using at by (auto simp: stream_at_def k)
    from scan_short [OF 0(2,5) this(2,1), of s] obtain C' s' where
      "continues E fd sel C s C' s'" "scan_inv dir sel C' k" "dir_used C' < dir_size C'"
      using k by auto
    then show ?thesis
      using stop [of C' s'] k by (auto simp: scan_inv_def)
  qed
next
  case (Suc n)
  then have k: "k < length dir"
    by simp
  obtain C' s' where step: "continues E fd sel C s C' s'" "scan_inv dir sel C' (Suc k)"
    using scan_step [OF Suc.prems(1) k _ Suc.prems(3,4,5), of s] Suc.prems(2) k by auto
  have "n = length dir - Suc k"
    using Suc.hyps(2) by simp
  from Suc.hyps(1) [OF this step(2) Suc.prems(2-5), of s'] show ?case
    using step(1) by metis
qed

text \<open>\<open>qsort\<close> moves whole pointers: what it leaves in the array are the pointers in another order.\<close>

lemma load_ptr_bytes: "load_ptr (ptr_bytes p) = Some p" "fst (hd (ptr_bytes p)) = p" "length (ptr_bytes p) = sizeof_ptr"
  by (simp_all add: load_ptr_def ptr_bytes_def sizeof_ptr_def upt_rec)

lemma elems_concat:
  assumes "\<forall>x \<in> set xs. length x = w" and "0 < w"
  shows "elems w (concat xs) = xs"
  using assms(1)
proof (induction xs)
  case Nil
  then show ?case
    by (simp add: elems_def)
next
  case (Cons x xs)
  have "length (concat xs) = length xs * w"
    using Cons.prems by (simp add: length_concat sum_list_triv cong: map_cong)
  then have len: "length (concat (x # xs)) div w = Suc (length xs)" "length (concat xs) div w = length xs"
    using Cons.prems assms(2) by simp_all
  have "elems w (concat (x # xs)) = map (\<lambda>i. take w (drop (i * w) (x @ concat xs))) (0 # map Suc [0..<length xs])"
    unfolding elems_def len(1) by (simp add: upt_conv_Cons map_Suc_upt del: upt_Suc)
  also have "\<dots> = x # elems w (concat xs)"
    using Cons.prems by (simp add: elems_def len(2) comp_def)
  finally show ?case
    using Cons by simp
qed

lemma those_load_ptr: "those (map load_ptr (map ptr_bytes ps)) = Some ps"
  by (induction ps) (simp_all add: load_ptr_bytes)

lemma comparison_compose: "comparison cmp \<Longrightarrow> comparison (\<lambda>a b. cmp (f a) (f b))"
  unfolding comparison_def by blast

lemma sort_dirents_sorts:
  assumes "comparison compar" and "length ds \<le> 11405773"
  obtains ds' where "sort_dirents compar ds = Some ds'" "sorted_wrt (\<lambda>a b. compar a b \<le> 0) ds'" "mset ds' = mset ds"
proof -
  let ?f = "\<lambda>bs :: (nat \<times> nat) list. ds ! fst (hd bs)" and ?m = "concat (map ptr_bytes [0..<length ds])"
  let ?cmp = "\<lambda>a b. compar (?f a) (?f b)"
  have "length ?m = length ds * sizeof_ptr"
    by (simp add: length_concat comp_def load_ptr_bytes sum_list_triv)
  then obtain m where m: "qsort ?cmp (length ds) sizeof_ptr ?m = Some m"
    "sorted_wrt (\<lambda>x y. ?cmp x y \<le> 0) (elems sizeof_ptr m)" "mset (elems sizeof_ptr m) = mset (elems sizeof_ptr ?m)"
    using qsort_result [OF comparison_compose [OF assms(1), of ?f], of ?m "length ds" sizeof_ptr] assms(2)
    by (auto simp: sizeof_ptr_def)
  have sorted_ptrs: "mset (elems sizeof_ptr m) = mset (map ptr_bytes [0..<length ds])"
    unfolding m(3) by (subst elems_concat) (auto simp: load_ptr_bytes, simp add: sizeof_ptr_def)
  define ps where "ps = map (fst \<circ> hd) (elems sizeof_ptr m)"
  have "x \<in> ptr_bytes ` {0..<length ds}" if "x \<in> set (elems sizeof_ptr m)" for x
    using that mset_eq_setD [OF sorted_ptrs] by auto
  then have "ptr_bytes (fst (hd x)) = x" if "x \<in> set (elems sizeof_ptr m)" for x
    using that load_ptr_bytes(2) by (metis imageE)
  then have elems_m: "elems sizeof_ptr m = map ptr_bytes ps"
    unfolding ps_def by (simp add: map_idI)
  have "mset ps = mset (map (fst \<circ> hd) (map ptr_bytes [0..<length ds]))"
    unfolding ps_def mset_map [of "fst \<circ> hd"] sorted_ptrs ..
  then have "mset ps = mset [0..<length ds]"
    by (simp add: comp_def load_ptr_bytes)
  then have "mset (map ((!) ds) ps) = mset (map ((!) ds) [0..<length ds])"
    by (simp only: mset_map)
  then have "mset (map ((!) ds) ps) = mset ds"
    by (simp only: map_nth)
  moreover have "sorted_wrt (\<lambda>a b. compar a b \<le> 0) (map ((!) ds) ps)"
    using m(2) unfolding elems_m sorted_wrt_map load_ptr_bytes .
  moreover have "sort_dirents compar ds = Some (map ((!) ds) ps)"
    by (simp only: sort_dirents_def m(1) elems_m those_load_ptr Option.bind.simps)
  ultimately show thesis
    using that by blast
qed

text \<open>
  C13. \<open>scandirat\<close> returns the selected entries of the directory, sorted by the comparison
  function of the caller, with their number: when the directory can be opened and the host
  serves it, every entry is visited exactly once however the buffer cuts the entries, the
  result array is large enough, \<open>qsort\<close> puts its pointers in ascending order, and the
  descriptor is closed again by the last host call.
\<close>

theorem scandirat_lists_selected:
  assumes "nocwd_openat_nomode E at_fd path (O_RDONLY OR O_NONBLOCK OR O_DIRECTORY) s = (fd, s1)"
    and "fd \<noteq> -1" and "serves E fd dir" and "\<forall>e \<in> set dir. valid_entry e"
    and "memory_available E" and "length dir < 2 ^ 28"
    and "comparison compar" and "length (filter sel (map dirent_of dir)) \<le> 11405773"
  shows "\<exists>ds s'. nocwd_scandirat E at_fd path (Some sel) compar s = Some ((of_nat (length ds), Some ds), s') \<and>
           sorted_wrt (\<lambda>a b. compar a b \<le> 0) ds \<and> mset ds = mset (filter sel (map dirent_of dir)) \<and>
           last (calls s') = Call_fd_close fd"
proof -
  let ?C = "\<lparr>dir_cookie = 0, dir_buffer = [], dir_processed = DIRENT_DEFAULT_BUFFER_SIZE,
    dir_size = DIRENT_DEFAULT_BUFFER_SIZE, dir_used = DIRENT_DEFAULT_BUFFER_SIZE,
    dirents = [], dirents_size = 0\<rparr> :: scan"
  have "(4096 :: size_t) = 2 ^ 12"
    by simp
  then have "buffer_size_ok 4096"
    unfolding buffer_size_ok_def by (intro exI [of _ 12]) simp
  then have "scan_inv dir sel ?C 0"
    by (simp add: scan_inv_def stream_at_def cap_ok_def cookie_at_def DIRENT_DEFAULT_BUFFER_SIZE_def)
  from scan_loop_lists [OF this assms(4,5,3,6), of "s1\<lparr>allocs := Suc (allocs s1)\<rparr>"]
  obtain C' s2 where "scan_loop E fd sel ?C (s1\<lparr>allocs := Suc (allocs s1)\<rparr>) = Some ((True, C'), s2)"
    "dirents C' = filter sel (map dirent_of dir)"
    by blast
  moreover obtain ds where ds: "sort_dirents compar (filter sel (map dirent_of dir)) = Some ds"
    "sorted_wrt (\<lambda>a b. compar a b \<le> 0) ds" "mset ds = mset (filter sel (map dirent_of dir))"
    by (rule sort_dirents_sorts [OF assms(7,8)])
  ultimately have "nocwd_scandirat E at_fd path (Some sel) compar s =
      Some ((of_nat (length ds), Some ds), snd (close E fd s2))"
    using assms(1,2) alloc_available [OF assms(5), of DIRENT_DEFAULT_BUFFER_SIZE s1]
    by (simp add: nocwd_scandirat_def mset_eq_length [OF ds(3)])
  moreover have "last (calls (snd (close E fd s2))) = Call_fd_close fd"
    by (simp add: close_result Let_def)
  ultimately show ?thesis
    using ds(2,3) by blast
qed

section \<open>The theorems at concrete inputs\<close>

definition sample_dir :: "dir_entry list" where
  "sample_dir = [\<lparr>en_next = 1, en_ino = 7, en_type = 4, en_name = [97]\<rparr>,
                 \<lparr>en_next = 2, en_ino = 9, en_type = 3, en_name = [98, 99]\<rparr>]"

definition sample_position :: "wasi_call \<Rightarrow> nat" where
  "sample_position c = (case c of
      Call_fd_readdir _ _ cookie \<Rightarrow> if cookie = 0 then 0 else if cookie = 1 then 1 else 2
    | _ \<Rightarrow> 2)"

definition sample_room :: "wasi_call \<Rightarrow> nat" where
  "sample_room c = (case c of Call_fd_readdir _ n _ \<Rightarrow> unat n | _ \<Rightarrow> 0)"

definition dir_env :: env where
  "dir_env = granting_env\<lparr>host := (\<lambda>h c.
     let b = take (sample_room c) (encodes (drop (sample_position c) sample_dir))
     in (host granting_env h c)\<lparr>bytes_out := b, size_out := of_nat (length b)\<rparr>)\<rparr>"

lemma dir_env_serves: "serves dir_env fd sample_dir"
proof -
  have "sample_position (Call_fd_readdir fd n (cookie_at sample_dir k)) = k"
    if "k \<le> length sample_dir" for n k
  proof -
    have "k = 0 \<or> k = 1 \<or> k = 2"
      using that by (auto simp: sample_dir_def)
    then show ?thesis
      by (auto simp: sample_position_def cookie_at_def sample_dir_def)
  qed
  then show ?thesis
    by (simp add: serves_def dir_env_def sample_room_def granting_env_def idle_env_def Let_def)
qed

lemma sample_dir_ok: "\<forall>e \<in> set sample_dir. valid_entry e" "memory_available dir_env"
  by (simp_all add: sample_dir_def valid_entry_def memory_available_def dir_env_def granting_env_def
      idle_env_def)

theorem readdir_lists_directory_witness:
  "\<exists>D s1 D' s2. fdopendir dir_env 5 idle_libc = Some (Some D, s1) \<and>
     read_n 3 dir_env D s1 = Some (([Some \<lparr>d_ino = 7, d_type = 4, d_name = [97]\<rparr>,
       Some \<lparr>d_ino = 9, d_type = 3, d_name = [98, 99]\<rparr>, None], D'), s2)"
  using readdir_lists_directory [OF dir_env_serves sample_dir_ok, of 5 idle_libc]
  by (simp add: sample_dir_def dirent_of_def numeral_3_eq_3 del: read_n.simps) blast

theorem seekdir_returns_to_telldir_witness:
  "\<exists>D s. fdopendir dir_env 5 idle_libc = Some (Some D, s) \<and>
     stream_at sample_dir (seekdir D (telldir D)) 0"
proof -
  obtain D s where D: "fdopendir dir_env 5 idle_libc = Some (Some D, s)" "stream_at sample_dir D 0"
    using fdopendir_result [OF dir_env_serves sample_dir_ok(2)] by blast
  then have "uint (dir_cookie D) < 2 ^ 32"
    by (simp add: stream_at_def cookie_at_def)
  from seekdir_returns_to_telldir [OF D(2,2) this] D(1) show ?thesis
    by blast
qed

lemma comparison_alphasort: "comparison alphasort"
  using comparison_compose [OF comparison_strcmp, of d_name] by (simp add: alphasort_def [abs_def])

theorem scandirat_lists_selected_witness:
  "\<exists>ds s'. nocwd_scandirat dir_env 3 ''d'' (Some (\<lambda>d. d_type d \<noteq> 2)) alphasort idle_libc = Some ((2, Some ds), s') \<and>
     map d_name ds = [[97], [98, 99]]"
proof -
  have "fst (nocwd_openat_nomode dir_env 3 ''d'' (O_RDONLY OR O_NONBLOCK OR O_DIRECTORY) idle_libc) = 5"
    by (simp add: nocwd_openat_nomode_def open_rights_def operation_defs dir_env_def granting_env_def
        idle_env_def)
  then obtain s1 where opened: "nocwd_openat_nomode dir_env 3 ''d'' (O_RDONLY OR O_NONBLOCK OR O_DIRECTORY) idle_libc = (5, s1)"
    by (metis prod.collapse)
  let ?a = "\<lparr>d_ino = 7, d_type = 4, d_name = [97]\<rparr>" and ?b = "\<lparr>d_ino = 9, d_type = 3, d_name = [98, 99]\<rparr>"
  obtain ds s' where res: "nocwd_scandirat dir_env 3 ''d'' (Some (\<lambda>d. d_type d \<noteq> 2)) alphasort idle_libc =
      Some ((of_nat (length ds), Some ds), s')" "sorted_wrt (\<lambda>a b. alphasort a b \<le> 0) ds" "mset ds = {#?a, ?b#}"
    using scandirat_lists_selected [OF opened _ dir_env_serves sample_dir_ok _ comparison_alphasort, of "\<lambda>d. d_type d \<noteq> 2"]
    by (auto simp: sample_dir_def dirent_of_def)
  have "size (mset ds) = 2"
    by (simp only: res(3)) simp
  then obtain x y where ds: "ds = [x, y]"
    by (auto simp: length_Suc_conv numeral_2_eq_2)
  then have "x = ?a \<and> y = ?b \<or> x = ?b \<and> y = ?a"
    using res(3) unfolding ds by (auto simp: add_eq_conv_ex)
  then show ?thesis
    using res(1,2) by (auto simp: ds alphasort_def)
qed

end
