(* ===== verification/Environ.thy ===== *)
theory Environ
  imports Wasi_Host
begin

text \<open>
  Environment variables and program arguments: the initialisation from the host
  (\<open>libc-bottom-half/sources/__wasilibc_initialize_environ.c\<close>, \<open>environ.c\<close>,
  \<open>__wasilibc_environ.c\<close>, \<open>__main_void.c\<close>, \<open>crt/crt1.c\<close>) and the operations of
  \<open>libc-top-half/musl/src/env\<close>.

  The environment is an array of pointers to strings \<open>NAME=value\<close>.  Some of the strings
  lie in the buffer the host has filled, some belong to the caller of \<open>putenv\<close>, some were
  allocated by \<open>setenv\<close> and are freed when they are replaced; pointers are therefore
  explicit: a block of memory and an offset.  Reading or freeing a block that is not live, or
  reading beyond its end, is undefined behaviour, \<^const>\<open>None\<close>.  The addresses of new blocks
  are chosen by the allocator, a parameter \<open>P\<close>; an address that is in use counts as a failed
  allocation.  The number of pointers in an array is bounded by the memory they occupy and is
  a natural number.  Strings given by value do not contain the terminator 0.
\<close>

section \<open>Memory\<close>

datatype cptr = Null | Ptr nat nat

primrec block_of :: "cptr \<Rightarrow> nat option" where
  "block_of Null = None"
| "block_of (Ptr b i) = Some b"

datatype environ_t = Uninit | Nullenv | Empty_environ | Array nat

record environ_libc = libc +
  blocks :: "nat \<Rightarrow> u8 list option"
  arrays :: "nat \<Rightarrow> cptr list option"
  environ :: environ_t
  oldenv :: environ_t
  env_alloced :: "cptr list"

record placement =
  place_block :: "(nat \<Rightarrow> u8 list option) \<Rightarrow> nat"
  place_array :: "(nat \<Rightarrow> cptr list option) \<Rightarrow> nat"

definition string_at :: "(nat \<Rightarrow> u8 list option) \<Rightarrow> cptr \<Rightarrow> u8 list option" where
  "string_at m p = (case p of
      Null \<Rightarrow> None
    | Ptr b i \<Rightarrow> do {
        bytes \<leftarrow> m b;
        if 0 \<in> set (drop i bytes) then Some (takeWhile (\<lambda>c. c \<noteq> 0) (drop i bytes)) else None })"

definition new_block ::
  "env \<Rightarrow> placement \<Rightarrow> size_t \<Rightarrow> 'a environ_libc_scheme \<Rightarrow> nat option \<times> 'a environ_libc_scheme" where
  "new_block E P n s =
     (let (ok, s) = alloc E n s; b = place_block P (blocks s)
      in if ok \<and> blocks s b = None then (Some b, s\<lparr>blocks := (blocks s)(b \<mapsto> [])\<rparr>) else (None, s))"

definition free_block :: "cptr \<Rightarrow> 'a environ_libc_scheme \<Rightarrow> 'a environ_libc_scheme option" where
  "free_block p s = (case p of
      Null \<Rightarrow> Some s
    | Ptr b i \<Rightarrow> if i = 0 \<and> blocks s b \<noteq> None then Some (s\<lparr>blocks := (blocks s)(b := None)\<rparr>) else None)"

text \<open>
  \<open>realloc\<close> keeps the contents and may or may not move the array; on a null pointer it is
  \<open>malloc\<close>.
\<close>

definition new_array ::
  "env \<Rightarrow> placement \<Rightarrow> size_t \<Rightarrow> cptr list \<Rightarrow> 'a environ_libc_scheme \<Rightarrow>
   nat option \<times> 'a environ_libc_scheme" where
  "new_array E P n ps s =
     (let (ok, s) = alloc E n s; a = place_array P (arrays s)
      in if ok \<and> arrays s a = None then (Some a, s\<lparr>arrays := (arrays s)(a \<mapsto> ps)\<rparr>) else (None, s))"

definition free_array :: "environ_t \<Rightarrow> 'a environ_libc_scheme \<Rightarrow> 'a environ_libc_scheme option" where
  "free_array e s = (case e of
      Nullenv \<Rightarrow> Some s
    | Array a \<Rightarrow> if arrays s a = None then None else Some (s\<lparr>arrays := (arrays s)(a := None)\<rparr>)
    | _ \<Rightarrow> None)"

definition realloc_array ::
  "env \<Rightarrow> placement \<Rightarrow> environ_t \<Rightarrow> size_t \<Rightarrow> cptr list \<Rightarrow> 'a environ_libc_scheme \<Rightarrow>
   (nat option \<times> 'a environ_libc_scheme) option" where
  "realloc_array E P e n ps s = do {
     s' \<leftarrow> free_array e s;
     let (new, s'') = new_array E P n ps s';
     Some (new, case new of None \<Rightarrow> s''\<lparr>arrays := arrays s\<rparr> | Some _ \<Rightarrow> s'') }"

text \<open>The pointers before the first null pointer.\<close>

definition terminated :: "cptr list \<Rightarrow> cptr list option" where
  "terminated ps = (if Null \<in> set ps then Some (takeWhile (\<lambda>p. p \<noteq> Null) ps) else None)"

definition array_of :: "environ_t \<Rightarrow> 'a environ_libc_scheme \<Rightarrow> cptr list option" where
  "array_of e s = (case e of
      Uninit \<Rightarrow> None | Nullenv \<Rightarrow> None | Empty_environ \<Rightarrow> Some [Null] | Array a \<Rightarrow> arrays s a)"

section \<open>Strings\<close>

definition EQ :: u8 where "EQ = 61"

definition char_at :: "u8 list \<Rightarrow> nat \<Rightarrow> u8" where
  "char_at v i = (if i < length v then v ! i else 0)"

definition strchrnul :: "u8 list \<Rightarrow> u8 \<Rightarrow> nat" where
  "strchrnul v c = length (takeWhile (\<lambda>d. d \<noteq> c) v)"

fun strncmp_loop :: "u8 list \<Rightarrow> u8 list \<Rightarrow> nat \<Rightarrow> int" where
  "strncmp_loop (l # ls) (r # rs) n =
     (if n \<noteq> 0 \<and> l = r then strncmp_loop ls rs (n - 1) else uint l - uint r)"
| "strncmp_loop [] rs n = 0 - uint (char_at rs 0)"
| "strncmp_loop (l # ls) [] n = uint l - 0"

definition strncmp :: "u8 list \<Rightarrow> u8 list \<Rightarrow> nat \<Rightarrow> int" where
  "strncmp l r n = (if n = 0 then 0 else strncmp_loop l r (n - 1))"

section \<open>Initialisation from the host\<close>

definition exit_now :: "u32 \<Rightarrow> 'b outcome" where
  "exit_now code = wasi_proc_exit code"

text \<open>
  The host writes the strings to the buffer and the addresses of the strings to the array;
  \<open>offs\<close> are the addresses relative to the buffer.
\<close>

definition fill_pointers ::
  "nat \<Rightarrow> nat \<Rightarrow> size_t \<Rightarrow> size_t \<Rightarrow> size_t list \<Rightarrow> u8 list \<Rightarrow>
   'a environ_libc_scheme \<Rightarrow> 'a environ_libc_scheme option" where
  "fill_pointers b a num_ptrs buf_size offs bytes s =
     (if unat buf_size < length bytes \<or> unat num_ptrs < length offs then None
      else Some (s\<lparr>blocks := (blocks s)(b \<mapsto> bytes),
                   arrays := (arrays s)(a \<mapsto> map (\<lambda>i. Ptr b (unat i)) offs @
                                replicate (unat num_ptrs - length offs) Null)\<rparr>))"

definition initialize_environ ::
  "env \<Rightarrow> placement \<Rightarrow> 'a environ_libc_scheme \<Rightarrow> 'a environ_libc_scheme outcome option" where
  "initialize_environ E P s =
     (let (err, environ_count, environ_buf_size, s) = wasi_environ_sizes_get E s;
          num_ptrs = environ_count + 1
      in if err \<noteq> 0 then Some (exit_now EX_OSERR)
         else if environ_count = 0 then Some (Returned (s\<lparr>environ := Empty_environ\<rparr>))
         else if num_ptrs = 0 then Some (exit_now EX_SOFTWARE)
         else case new_block E P environ_buf_size s of
             (None, s) \<Rightarrow> Some (exit_now EX_SOFTWARE)
           | (Some environ_buf, s) \<Rightarrow>
               if 2 ^ 32 \<le> unat num_ptrs * 4 then Some (exit_now EX_SOFTWARE)
               else case new_array E P (num_ptrs * 4) (replicate (unat num_ptrs) Null) s of
                   (None, s) \<Rightarrow> Some (exit_now EX_SOFTWARE)
                 | (Some environ_ptrs, s) \<Rightarrow>
                     let (err, offs, bytes, s) = wasi_environ_get E s
                     in if err \<noteq> 0 then Some (exit_now EX_OSERR)
                        else do {
                          s \<leftarrow> fill_pointers environ_buf environ_ptrs num_ptrs environ_buf_size
                                 offs bytes s;
                          Some (Returned (s\<lparr>environ := Array environ_ptrs\<rparr>)) })"

text \<open>The variants that are linked in when the program uses \<open>environ\<close> itself.\<close>

definition initialize_environ_eagerly ::
  "env \<Rightarrow> placement \<Rightarrow> 'a environ_libc_scheme \<Rightarrow> 'a environ_libc_scheme outcome option" where
  "initialize_environ_eagerly E P s = initialize_environ E P s"

definition maybe_reinitialize_environ_eagerly ::
  "env \<Rightarrow> placement \<Rightarrow> 'a environ_libc_scheme \<Rightarrow> 'a environ_libc_scheme outcome option" where
  "maybe_reinitialize_environ_eagerly E P s = initialize_environ E P s"

definition ensure_environ ::
  "env \<Rightarrow> placement \<Rightarrow> 'a environ_libc_scheme \<Rightarrow> 'a environ_libc_scheme outcome option" where
  "ensure_environ E P s =
     (if environ s = Uninit then initialize_environ E P s else Some (Returned s))"

text \<open>A function that starts by making sure the environment is there.\<close>

definition with_environ ::
  "env \<Rightarrow> placement \<Rightarrow> ('a environ_libc_scheme \<Rightarrow> ('b \<times> 'a environ_libc_scheme) option) \<Rightarrow>
   'a environ_libc_scheme \<Rightarrow> ('b \<times> 'a environ_libc_scheme) outcome option" where
  "with_environ E P k s = do {
     r \<leftarrow> ensure_environ E P s;
     case r of
       Exited code \<Rightarrow> Some (Exited code)
     | Returned s \<Rightarrow> do { x \<leftarrow> k s; Some (Returned x) } }"

definition get_environ ::
  "env \<Rightarrow> placement \<Rightarrow> 'a environ_libc_scheme \<Rightarrow> (environ_t \<times> 'a environ_libc_scheme) outcome option" where
  "get_environ E P s = with_environ E P (\<lambda>s. Some (environ s, s)) s"

section \<open>Reading variables\<close>

fun getenv_loop :: "(nat \<Rightarrow> u8 list option) \<Rightarrow> u8 list \<Rightarrow> nat \<Rightarrow> cptr list \<Rightarrow> cptr option" where
  "getenv_loop m name l [] = None"
| "getenv_loop m name l (Null # ps) = Some Null"
| "getenv_loop m name l (Ptr b i # ps) = do {
     v \<leftarrow> string_at m (Ptr b i);
     if strncmp name v l = 0 \<and> char_at v l = EQ then Some (Ptr b (i + l + 1))
     else getenv_loop m name l ps }"

definition getenv ::
  "env \<Rightarrow> placement \<Rightarrow> u8 list \<Rightarrow> 'a environ_libc_scheme \<Rightarrow>
   (cptr \<times> 'a environ_libc_scheme) outcome option" where
  "getenv E P name = with_environ E P (\<lambda>s.
     let l = strchrnul name EQ
     in if l \<noteq> 0 \<and> char_at name l = 0 \<and> environ s \<noteq> Nullenv
        then do { ps \<leftarrow> array_of (environ s) s; p \<leftarrow> getenv_loop (blocks s) name l ps; Some (p, s) }
        else Some (Null, s))"

definition secure_getenv ::
  "bool \<Rightarrow> env \<Rightarrow> placement \<Rightarrow> u8 list \<Rightarrow> 'a environ_libc_scheme \<Rightarrow>
   (cptr \<times> 'a environ_libc_scheme) outcome option" where
  "secure_getenv secure E P name s =
     (if secure then Some (Returned (Null, s)) else getenv E P name s)"

section \<open>Changing variables\<close>

text \<open>
  The loop of \<open>__env_rm_add\<close>: the new array of the allocated strings, what is left of \<open>new\<close>,
  and whether \<open>old\<close> was found.
\<close>

fun rm_add_loop :: "cptr list \<Rightarrow> cptr \<Rightarrow> cptr \<Rightarrow> cptr list \<times> cptr \<times> bool" where
  "rm_add_loop [] old new = ([], new, False)"
| "rm_add_loop (a # as) old new =
     (if a = old then (new # as, new, True)
      else if a = Null \<and> new \<noteq> Null
      then let (as, new', found) = rm_add_loop as old Null in (new # as, new', found)
      else let (as, new', found) = rm_add_loop as old new in (a # as, new', found))"

definition env_rm_add ::
  "env \<Rightarrow> cptr \<Rightarrow> cptr \<Rightarrow> 'a environ_libc_scheme \<Rightarrow> 'a environ_libc_scheme option" where
  "env_rm_add E old new s =
     (let (as, new, found) = rm_add_loop (env_alloced s) old new;
          s = s\<lparr>env_alloced := as\<rparr>
      in if found then free_block old s
         else if new = Null then Some s
         else let (ok, s) = alloc E (of_nat (4 * (length as + 1))) s
              in Some (if ok then s\<lparr>env_alloced := as @ [new]\<rparr> else s))"

text \<open>The position of the entry that \<open>__putenv\<close> replaces, or the number of entries.\<close>

fun putenv_scan :: "(nat \<Rightarrow> u8 list option) \<Rightarrow> u8 list \<Rightarrow> nat \<Rightarrow> cptr list \<Rightarrow> nat \<Rightarrow> (nat \<times> bool) option" where
  "putenv_scan m str l [] i = None"
| "putenv_scan m str l (Null # ps) i = Some (i, False)"
| "putenv_scan m str l (Ptr b k # ps) i = do {
     v \<leftarrow> string_at m (Ptr b k);
     if strncmp str v (l + 1) = 0 then Some (i, True) else putenv_scan m str l ps (i + 1) }"

text \<open>
  Appending: the array is reallocated when it is the one an earlier call has made, otherwise
  copied.  \<open>newenv\<close> are the contents of the new array, \<open>ps\<close> the pointers it starts with.
\<close>

definition resize_environ ::
  "env \<Rightarrow> placement \<Rightarrow> cptr list \<Rightarrow> 'a environ_libc_scheme \<Rightarrow>
   (nat option \<times> 'a environ_libc_scheme) option" where
  "resize_environ E P newenv s =
     (let n = of_nat (4 * length newenv)
      in if environ s = oldenv s then realloc_array E P (oldenv s) n newenv s
         else case new_array E P n newenv s of
             (None, s) \<Rightarrow> Some (None, s)
           | (Some a, s) \<Rightarrow> do { s \<leftarrow> free_array (oldenv s) s; Some (Some a, s) })"

definition putenv_append ::
  "env \<Rightarrow> placement \<Rightarrow> cptr \<Rightarrow> cptr list \<Rightarrow> cptr \<Rightarrow> 'a environ_libc_scheme \<Rightarrow>
   (c_int \<times> 'a environ_libc_scheme) option" where
  "putenv_append E P str ps r s = do {
     (a, s) \<leftarrow> resize_environ E P (ps @ [str, Null]) s;
     case a of
       None \<Rightarrow> do { s \<leftarrow> free_block r s; Some (-1, s) }
     | Some a \<Rightarrow> do {
         let s = s\<lparr>environ := Array a, oldenv := Array a\<rparr>;
         s \<leftarrow> (if r \<noteq> Null then env_rm_add E Null r s else Some s);
         Some (0, s) } }"

definition putenv_at ::
  "env \<Rightarrow> placement \<Rightarrow> cptr \<Rightarrow> nat \<Rightarrow> cptr \<Rightarrow> 'a environ_libc_scheme \<Rightarrow>
   (c_int \<times> 'a environ_libc_scheme) outcome option" where
  "putenv_at E P str l r = with_environ E P (\<lambda>s.
     if environ s = Nullenv then putenv_append E P str [] r s
     else do {
       ps \<leftarrow> array_of (environ s) s;
       v \<leftarrow> string_at (blocks s) str;
       (i, found) \<leftarrow> putenv_scan (blocks s) v l ps 0;
       if found
       then case environ s of
           Array a \<Rightarrow> do {
             s \<leftarrow> env_rm_add E (ps ! i) r (s\<lparr>arrays := (arrays s)(a \<mapsto> ps[i := str])\<rparr>);
             Some (0, s) }
         | _ \<Rightarrow> None
       else putenv_append E P str (take i ps) r s })"

definition setenv ::
  "env \<Rightarrow> placement \<Rightarrow> u8 list option \<Rightarrow> u8 list \<Rightarrow> c_int \<Rightarrow> 'a environ_libc_scheme \<Rightarrow>
   (c_int \<times> 'a environ_libc_scheme) outcome option" where
  "setenv E P var value overwrite s = (case var of
      None \<Rightarrow> Some (Returned (-1, s\<lparr>errno := EINVAL\<rparr>))
    | Some var \<Rightarrow>
        let l1 = strchrnul var EQ
        in if l1 = 0 \<or> char_at var l1 \<noteq> 0 then Some (Returned (-1, s\<lparr>errno := EINVAL\<rparr>))
           else do {
             r \<leftarrow> (if overwrite = 0 then getenv E P var s else Some (Returned (Null, s)));
             case r of
               Exited code \<Rightarrow> Some (Exited code)
             | Returned (p, s) \<Rightarrow>
                 if p \<noteq> Null then Some (Returned (0, s))
                 else case new_block E P (of_nat (l1 + length value + 2)) s of
                     (None, s) \<Rightarrow> Some (Returned (-1, s))
                   | (Some b, s) \<Rightarrow>
                       putenv_at E P (Ptr b 0) l1 (Ptr b 0)
                         (s\<lparr>blocks := (blocks s)(b \<mapsto> take l1 var @ [EQ] @ value @ [0])\<rparr>) })"

text \<open>
  The loop of \<open>unsetenv\<close>: \<open>e\<close> and \<open>eo\<close> are the read and the write position in the array
  \<open>ps\<close>.
\<close>

function unsetenv_loop ::
  "env \<Rightarrow> u8 list \<Rightarrow> nat \<Rightarrow> cptr list \<Rightarrow> nat \<Rightarrow> nat \<Rightarrow> 'a environ_libc_scheme \<Rightarrow>
   (cptr list \<times> 'a environ_libc_scheme) option" where
  "unsetenv_loop E name l ps e eo s =
     (if length ps \<le> e then None
      else if ps ! e = Null then Some (if eo \<noteq> e then ps[eo := Null] else ps, s)
      else do {
        v \<leftarrow> string_at (blocks s) (ps ! e);
        if strncmp name v l = 0 \<and> char_at v l = EQ
        then do { s \<leftarrow> env_rm_add E (ps ! e) Null s; unsetenv_loop E name l ps (e + 1) eo s }
        else unsetenv_loop E name l (if eo \<noteq> e then ps[eo := ps ! e] else ps) (e + 1) (eo + 1) s })"
  by pat_completeness auto

termination
  by (relation "measure (\<lambda>(E, name, l, ps, e, eo, s). length ps - e)") auto

declare unsetenv_loop.simps [simp del]

definition unsetenv ::
  "env \<Rightarrow> placement \<Rightarrow> u8 list \<Rightarrow> 'a environ_libc_scheme \<Rightarrow>
   (c_int \<times> 'a environ_libc_scheme) outcome option" where
  "unsetenv E P name s =
     (let l = strchrnul name EQ
      in if l = 0 \<or> char_at name l \<noteq> 0 then Some (Returned (-1, s\<lparr>errno := EINVAL\<rparr>))
         else with_environ E P (\<lambda>s.
           if environ s = Nullenv then Some (0, s)
           else do {
             ps \<leftarrow> array_of (environ s) s;
             (ps', s) \<leftarrow> unsetenv_loop E name l ps 0 0 s;
             case environ s of
               Array a \<Rightarrow> Some (0, s\<lparr>arrays := (arrays s)(a \<mapsto> ps')\<rparr>)
             | _ \<Rightarrow> if ps' = ps then Some (0, s) else None }) s)"

definition putenv ::
  "env \<Rightarrow> placement \<Rightarrow> cptr \<Rightarrow> 'a environ_libc_scheme \<Rightarrow>
   (c_int \<times> 'a environ_libc_scheme) outcome option" where
  "putenv E P str s = do {
     v \<leftarrow> string_at (blocks s) str;
     let l = strchrnul v EQ;
     if l = 0 \<or> char_at v l = 0 then unsetenv E P v s else putenv_at E P str l Null s }"

fun clearenv_loop :: "env \<Rightarrow> cptr list \<Rightarrow> 'a environ_libc_scheme \<Rightarrow> 'a environ_libc_scheme option" where
  "clearenv_loop E [] s = None"
| "clearenv_loop E (Null # ps) s = Some s"
| "clearenv_loop E (Ptr b i # ps) s = do {
     s \<leftarrow> env_rm_add E (Ptr b i) Null s; clearenv_loop E ps s }"

definition clearenv ::
  "env \<Rightarrow> placement \<Rightarrow> 'a environ_libc_scheme \<Rightarrow> (c_int \<times> 'a environ_libc_scheme) outcome option" where
  "clearenv E P = with_environ E P (\<lambda>s.
     if environ s = Nullenv then Some (0, s)
     else do {
       ps \<leftarrow> array_of (environ s) s;
       s \<leftarrow> clearenv_loop E ps (s\<lparr>environ := Nullenv\<rparr>);
       Some (0, s) })"

definition deinitialize_environ ::
  "env \<Rightarrow> placement \<Rightarrow> 'a environ_libc_scheme \<Rightarrow> 'a environ_libc_scheme outcome option" where
  "deinitialize_environ E P s =
     (if environ s = Uninit then Some (Returned s)
      else do {
        r \<leftarrow> clearenv E P s;
        case r of
          Exited code \<Rightarrow> Some (Exited code)
        | Returned (_, s) \<Rightarrow> Some (Returned (s\<lparr>environ := Uninit\<rparr>)) })"

section \<open>Program start\<close>

text \<open>\<open>user_main\<close> stands for \<open>__main_argc_argv\<close>, the program's \<open>main\<close>.\<close>

definition main_void ::
  "env \<Rightarrow> placement \<Rightarrow>
   (c_int \<Rightarrow> nat \<Rightarrow> 'a environ_libc_scheme \<Rightarrow> (c_int \<times> 'a environ_libc_scheme) outcome option) \<Rightarrow>
   'a environ_libc_scheme \<Rightarrow> (c_int \<times> 'a environ_libc_scheme) outcome option" where
  "main_void E P user_main s =
     (let (err, argc, argv_buf_size, s) = wasi_args_sizes_get E s;
          num_ptrs = argc + 1
      in if err \<noteq> 0 then Some (exit_now EX_OSERR)
         else if num_ptrs = 0 then Some (exit_now EX_SOFTWARE)
         else case new_block E P argv_buf_size s of
             (None, s) \<Rightarrow> Some (exit_now EX_SOFTWARE)
           | (Some argv_buf, s) \<Rightarrow>
               if 2 ^ 32 \<le> unat num_ptrs * 4 then Some (exit_now EX_SOFTWARE)
               else case new_array E P (num_ptrs * 4) (replicate (unat num_ptrs) Null) s of
                   (None, s) \<Rightarrow> Some (exit_now EX_SOFTWARE)
                 | (Some argv, s) \<Rightarrow>
                     let (err, offs, bytes, s) = wasi_args_get E s
                     in if err \<noteq> 0 then Some (exit_now EX_OSERR)
                        else do {
                          s \<leftarrow> fill_pointers argv_buf argv num_ptrs argv_buf_size offs bytes s;
                          user_main argc argv s })"

text \<open>
  \<open>ctors\<close> and \<open>dtors\<close> are the functions the linker synthesizes to call the constructors and
  destructors.
\<close>

definition c_start ::
  "('s \<Rightarrow> 's outcome option) \<Rightarrow> ('s \<Rightarrow> (c_int \<times> 's) outcome option) \<Rightarrow> ('s \<Rightarrow> 's outcome option) \<Rightarrow>
   's \<Rightarrow> 's outcome option" where
  "c_start ctors main dtors s = do {
     r \<leftarrow> ctors s;
     case r of
       Exited code \<Rightarrow> Some (Exited code)
     | Returned s \<Rightarrow> do {
         r \<leftarrow> main s;
         case r of
           Exited code \<Rightarrow> Some (Exited code)
         | Returned (r, s) \<Rightarrow> do {
             d \<leftarrow> dtors s;
             case d of
               Exited code \<Rightarrow> Some (Exited code)
             | Returned s \<Rightarrow> Some (if r \<noteq> 0 then wasi_proc_exit r else Returned s) } } }"

section \<open>Variables\<close>

text \<open>
  What the functions promise: the environment is a list of strings \<open>NAME=value\<close>, of which
  the first one with a name counts.
\<close>

definition has_name :: "u8 list \<Rightarrow> u8 list \<Rightarrow> bool" where
  "has_name n v \<longleftrightarrow> take (length n + 1) v = n @ [EQ]"

definition lookup_var :: "u8 list \<Rightarrow> u8 list list \<Rightarrow> u8 list option" where
  "lookup_var n vs = map_option (drop (length n + 1)) (List.find (has_name n) vs)"

fun put_var :: "u8 list \<Rightarrow> u8 list \<Rightarrow> u8 list list \<Rightarrow> u8 list list" where
  "put_var n str [] = [str]"
| "put_var n str (v # vs) = (if has_name n v then str # vs else v # put_var n str vs)"

definition remove_var :: "u8 list \<Rightarrow> u8 list list \<Rightarrow> u8 list list" where
  "remove_var n vs = filter (\<lambda>v. \<not> has_name n v) vs"

definition entry_of :: "u8 list \<Rightarrow> u8 list \<Rightarrow> u8 list" where
  "entry_of n v = n @ [EQ] @ v"

definition valid_name :: "u8 list \<Rightarrow> bool" where
  "valid_name n \<longleftrightarrow> n \<noteq> [] \<and> EQ \<notin> set n \<and> 0 \<notin> set n"

lemma takeWhile_absent: "c \<notin> set v \<Longrightarrow> takeWhile (\<lambda>d. d \<noteq> c) v = v"
  by (induction v) auto

lemma strchrnul_absent [simp]: "c \<notin> set v \<Longrightarrow> strchrnul v c = length v"
  by (simp add: strchrnul_def takeWhile_absent)

lemma strchrnul_append: "c \<notin> set n \<Longrightarrow> strchrnul (n @ c # v) c = length n"
  by (simp add: strchrnul_def takeWhile_tail takeWhile_absent)

lemma char_at_length [simp]: "char_at v (length v) = 0"
  by (simp add: char_at_def)

lemma EQ_nonzero [simp]: "EQ \<noteq> 0" "0 \<noteq> EQ"
  by (simp_all add: EQ_def)

lemma strncmp_loop_eq_0_iff:
  assumes "0 \<notin> set a" and "0 \<notin> set b"
  shows "strncmp_loop a b n = 0 \<longleftrightarrow> take (Suc n) a = take (Suc n) b"
  using assms
proof (induction a b n rule: strncmp_loop.induct)
  case (1 l ls r rs n)
  then show ?case
    by (cases n) (auto simp: uint_word_of_int_eq word_uint_eq_iff)
next
  case (2 rs n)
  then show ?case
    by (cases rs) (auto simp: char_at_def uint_0_iff)
next
  case (3 l ls n)
  then show ?case
    by (auto simp: char_at_def uint_0_iff)
qed

lemma strncmp_eq_0_iff:
  assumes "0 \<notin> set a" and "0 \<notin> set b"
  shows "strncmp a b n = 0 \<longleftrightarrow> take n a = take n b"
  using strncmp_loop_eq_0_iff [OF assms, of "n - 1"] by (cases n) (simp_all add: strncmp_def)

lemma name_match_iff:
  assumes "0 \<notin> set n" and "0 \<notin> set v"
  shows "strncmp n v (length n) = 0 \<and> char_at v (length n) = EQ \<longleftrightarrow> has_name n v"
proof (cases "length n < length v")
  case True
  then have "take (length n + 1) v = take (length n) v @ [v ! length n]"
    by (simp add: take_Suc_conv_app_nth)
  then show ?thesis
    using True assms by (auto simp: strncmp_eq_0_iff has_name_def char_at_def)
next
  case False
  then have "take (length n + 1) v \<noteq> n @ [EQ]"
    by (metis length_append_singleton length_take min_def not_less Suc_eq_plus1 less_Suc_eq_le nat_less_le)
  then show ?thesis
    using False by (simp add: has_name_def char_at_def)
qed

lemma entry_match_iff:
  assumes "0 \<notin> set n" and "0 \<notin> set w" and "0 \<notin> set v"
  shows "strncmp (entry_of n w) v (length n + 1) = 0 \<longleftrightarrow> has_name n v"
  using assms by (auto simp: strncmp_eq_0_iff has_name_def entry_of_def)

lemma has_name_entry [simp]: "has_name n (entry_of n v)"
  by (simp add: has_name_def entry_of_def)

lemma has_name_unique:
  assumes "has_name n v" and "has_name m v" and "EQ \<notin> set n" and "EQ \<notin> set m"
  shows "n = m"
proof -
  have "takeWhile (\<lambda>c. c \<noteq> EQ) v = k" if "has_name k v" "EQ \<notin> set k" for k
  proof -
    have "v = (k @ [EQ]) @ drop (length k + 1) v"
      using that(1) unfolding has_name_def by (metis append_take_drop_id)
    then obtain x where "v = k @ EQ # x"
      by auto
    then show ?thesis
      using that(2) by (simp add: takeWhile_tail takeWhile_absent)
  qed
  from this [OF assms(1,3)] this [OF assms(2,4)] show ?thesis
    by simp
qed

lemma lookup_var_Cons:
  "lookup_var n (v # vs) = (if has_name n v then Some (drop (length n + 1) v) else lookup_var n vs)"
  by (simp add: lookup_var_def)

lemma lookup_var_Nil [simp]: "lookup_var n [] = None"
  by (simp add: lookup_var_def)

text \<open>The contract of a store of variables, over the names that are allowed.\<close>

locale variables =
  fixes lookup :: "'n \<Rightarrow> 's \<Rightarrow> 'v option" and assign :: "'n \<Rightarrow> 'v \<Rightarrow> 's \<Rightarrow> 's"
    and delete :: "'n \<Rightarrow> 's \<Rightarrow> 's" and ok :: "'n \<Rightarrow> bool"
  assumes lookup_assign: "ok n \<Longrightarrow> ok m \<Longrightarrow>
      lookup m (assign n v s) = (if m = n then Some v else lookup m s)"
    and lookup_delete: "ok n \<Longrightarrow> ok m \<Longrightarrow> lookup m (delete n s) = (if m = n then None else lookup m s)"
begin

lemma assign_twice: "ok n \<Longrightarrow> ok m \<Longrightarrow> lookup m (assign n w (assign n v s)) = lookup m (assign n w s)"
  by (simp add: lookup_assign)

lemma assign_commute:
  "ok n \<Longrightarrow> ok n' \<Longrightarrow> ok m \<Longrightarrow> n \<noteq> n' \<Longrightarrow>
   lookup m (assign n v (assign n' w s)) = lookup m (assign n' w (assign n v s))"
  by (simp add: lookup_assign)

lemma delete_assign: "ok n \<Longrightarrow> ok m \<Longrightarrow> lookup m (delete n (assign n v s)) = lookup m (delete n s)"
  by (simp add: lookup_assign lookup_delete)

end

interpretation vars: variables lookup_var "\<lambda>n v. put_var n (entry_of n v)" remove_var valid_name
proof
  fix n m :: "u8 list" and v s
  assume ok: "valid_name n" "valid_name m"
  show "lookup_var m (put_var n (entry_of n v) s) = (if m = n then Some v else lookup_var m s)"
  proof (induction s)
    case Nil
    have "has_name m (entry_of n v) \<longleftrightarrow> m = n"
      using has_name_unique [of m "entry_of n v" n] ok by (auto simp: valid_name_def)
    then show ?case
      by (auto simp: lookup_var_Cons entry_of_def)
  next
    case (Cons x xs)
    have "has_name m (entry_of n v) \<longleftrightarrow> m = n"
      using has_name_unique [of m "entry_of n v" n] ok by (auto simp: valid_name_def)
    moreover have "has_name n x \<Longrightarrow> has_name m x \<longleftrightarrow> m = n"
      using has_name_unique [of n x m] ok by (auto simp: valid_name_def)
    ultimately show ?case
      using Cons by (auto simp: lookup_var_Cons entry_of_def)
  qed
next
  fix n m :: "u8 list" and s
  assume ok: "valid_name n" "valid_name m"
  show "lookup_var m (remove_var n s) = (if m = n then None else lookup_var m s)"
  proof (induction s)
    case (Cons x xs)
    have "has_name n x \<Longrightarrow> has_name m x \<longleftrightarrow> m = n"
      using has_name_unique [of n x m] ok by (auto simp: valid_name_def)
    with Cons show ?case
      by (auto simp: lookup_var_Cons remove_var_def)
  qed (simp add: remove_var_def)
qed

end
