(* ===== verification/Environ_Ops.thy ===== *)
theory Environ_Ops
  imports Environ
begin

text \<open>
  Correctness of the environment: the invariant that makes the ownership of the strings
  precise, its preservation by every operation, and the refinement of the operations to those
  on a list of variables.
\<close>

section \<open>Invariant\<close>

text \<open>
  \<open>owned\<close> are the strings that \<open>setenv\<close> has allocated and may free.  Of the pointers \<open>ps\<close> of
  the environment, every owned one occurs once, and no other pointer reaches into its block.
  \<open>caller\<close> is memory of the program that \<open>putenv\<close> may refer to; it is never owned.
\<close>

definition owned :: "'a environ_libc_scheme \<Rightarrow> cptr list" where
  "owned s = filter (\<lambda>p. p \<noteq> Null) (env_alloced s)"

definition owned_ok :: "'a environ_libc_scheme \<Rightarrow> bool" where
  "owned_ok s \<longleftrightarrow> distinct (owned s) \<and> (\<forall>p \<in> set (owned s). \<exists>b. p = Ptr b 0 \<and> blocks s b \<noteq> None)"

definition caller_ok :: "(nat \<Rightarrow> u8 list option) \<Rightarrow> 'a environ_libc_scheme \<Rightarrow> bool" where
  "caller_ok caller s \<longleftrightarrow>
     (\<forall>b. caller b \<noteq> None \<longrightarrow> blocks s b = caller b \<and> Ptr b 0 \<notin> set (owned s))"

definition ptrs_ok :: "cptr list \<Rightarrow> 'a environ_libc_scheme \<Rightarrow> bool" where
  "ptrs_ok ps s \<longleftrightarrow>
     (\<forall>p \<in> set ps. string_at (blocks s) p \<noteq> None) \<and>
     distinct (filter (\<lambda>p. p \<in> set (owned s)) ps) \<and>
     (\<forall>p \<in> set ps. \<forall>q \<in> set (owned s). block_of p = block_of q \<longrightarrow> p = q)"

definition array_ok :: "cptr list \<Rightarrow> 'a environ_libc_scheme \<Rightarrow> bool" where
  "array_ok ps s \<longleftrightarrow> Null \<notin> set ps \<and>
     (environ s = Nullenv \<and> ps = [] \<or> environ s = Empty_environ \<and> ps = [] \<or>
      (\<exists>a rest. environ s = Array a \<and> arrays s a = Some (ps @ Null # rest))) \<and>
     (oldenv s = Nullenv \<or> (\<exists>a. oldenv s = Array a \<and> arrays s a \<noteq> None))"

definition env_inv :: "(nat \<Rightarrow> u8 list option) \<Rightarrow> cptr list \<Rightarrow> 'a environ_libc_scheme \<Rightarrow> bool" where
  "env_inv caller ps s \<longleftrightarrow> owned_ok s \<and> caller_ok caller s \<and> ptrs_ok ps s \<and> array_ok ps s \<and>
     finite (dom (blocks s)) \<and> finite (dom (arrays s))"

definition view :: "cptr list \<Rightarrow> 'a environ_libc_scheme \<Rightarrow> u8 list list" where
  "view ps s = map (\<lambda>p. the (string_at (blocks s) p)) ps"

lemma string_at_Some:
  "string_at m p = Some v \<longleftrightarrow>
     (\<exists>b i bytes. p = Ptr b i \<and> m b = Some bytes \<and> 0 \<in> set (drop i bytes) \<and>
        v = takeWhile (\<lambda>c. c \<noteq> 0) (drop i bytes))"
  by (auto simp: string_at_def split: cptr.splits option.splits bind_splits if_splits)

lemma string_at_nonzero: "string_at m p = Some v \<Longrightarrow> 0 \<notin> set v"
  by (auto simp: string_at_Some dest: set_takeWhileD)

lemma string_at_suffix:
  assumes "string_at m (Ptr b i) = Some v" and "k \<le> length v"
  shows "string_at m (Ptr b (i + k)) = Some (drop k v)"
proof -
  obtain bytes where b: "m b = Some bytes" "0 \<in> set (drop i bytes)"
    and v: "v = takeWhile (\<lambda>c. c \<noteq> 0) (drop i bytes)"
    using assms(1) by (auto simp: string_at_Some)
  obtain u rest where "drop i bytes = u @ 0 # rest" "0 \<notin> set u"
    using split_list_first [OF b(2)] by blast
  moreover from this have "v = u"
    by (simp add: v takeWhile_tail takeWhile_absent)
  ultimately have d: "drop i bytes = v @ 0 # rest"
    by simp
  have "drop (i + k) bytes = drop k v @ 0 # rest"
    using assms(2) by (simp add: add.commute [of i] d flip: drop_drop)
  moreover have "0 \<notin> set (drop k v)"
    using string_at_nonzero [OF assms(1)] by (meson in_set_dropD)
  ultimately show ?thesis
    using b(1) by (auto simp: string_at_Some takeWhile_tail takeWhile_absent)
qed

lemma string_at_cong: "(\<And>b. block_of p = Some b \<Longrightarrow> m b = m' b) \<Longrightarrow> string_at m p = string_at m' p"
  by (cases p) (simp_all add: string_at_def)

lemma distinct_filter_mono:
  "distinct (filter P xs) \<Longrightarrow> (\<And>x. x \<in> set xs \<Longrightarrow> Q x \<Longrightarrow> P x) \<Longrightarrow> distinct (filter Q xs)"
  by (induction xs) (auto split: if_splits)

text \<open>The bookkeeping of \<open>__env_rm_add\<close>.\<close>

lemma rm_add_loop_owned:
  assumes "rm_add_loop as old new = (as', new', found)" and "old \<noteq> Null"
    and "distinct (filter (\<lambda>p. p \<noteq> Null) as)" and "new \<notin> set as - {Null}"
  shows "found = (old \<in> set as) \<and> (found \<or> new' = new \<or> new' = Null) \<and>
    distinct (filter (\<lambda>p. p \<noteq> Null) as') \<and>
    set as' - {Null} = (set as - {Null, old}) \<union> (if found \<or> new' = Null then {new} - {Null} else {})"
  using assms
proof (induction as arbitrary: new as' new' found)
  case (Cons a as)
  obtain bs n f where new: "rm_add_loop as old new = (bs, n, f)"
    by (metis prod_cases3)
  obtain cs k g where null: "rm_add_loop as old Null = (cs, k, g)"
    by (metis prod_cases3)
  have dist: "distinct (filter (\<lambda>p. p \<noteq> Null) as)"
    using Cons.prems(3) by (auto split: if_splits)
  note IH = Cons.IH [OF new Cons.prems(2) dist] Cons.IH [OF null Cons.prems(2) dist]
  consider "a = old" | "a \<noteq> old" "a = Null" "new \<noteq> Null" | "a \<noteq> old" "a \<noteq> Null \<or> new = Null"
    by auto
  then show ?case
  proof cases
    case 1
    then have "as' = new # as" "new' = new" "found"
      using Cons.prems(1) by auto
    moreover have "old \<notin> set as" "new \<notin> set as - {Null}"
      using Cons.prems(2-4) 1 by auto
    ultimately show ?thesis
      using 1 dist Cons.prems(2) by (cases "new = Null") auto
  next
    case 2
    then have eq: "as' = new # cs" "new' = k" "found = g"
      using Cons.prems(1) null by auto
    have H: "g = (old \<in> set as)" "g \<or> k = Null" "distinct (filter (\<lambda>p. p \<noteq> Null) cs)"
      "set cs - {Null} = set as - {Null, old}"
      using IH(2) by auto
    then have "new \<notin> set cs"
      using 2 Cons.prems(4) by auto
    then show ?thesis
      using 2 H by (auto simp: eq insert_Diff_if)
  next
    case 3
    then have eq: "as' = a # bs" "new' = n" "found = f"
      using Cons.prems(1) new by auto
    have "new \<notin> set as - {Null}"
      using Cons.prems(4) by auto
    from IH(1) [OF this]
    have H: "f = (old \<in> set as)" "f \<or> n = new \<or> n = Null" "distinct (filter (\<lambda>p. p \<noteq> Null) bs)"
      "set bs - {Null} = set as - {Null, old} \<union> (if f \<or> n = Null then {new} - {Null} else {})"
      by blast+
    have "a \<notin> set bs - {Null}"
    proof (cases "a = Null")
      case False
      then have "a \<notin> set as" "a \<noteq> new"
        using Cons.prems(3,4) by auto
      then show ?thesis
        by (subst H(4)) simp
    qed simp
    then have "distinct (filter (\<lambda>p. p \<noteq> Null) (a # bs))"
      using H(3) by auto
    moreover have "set (a # bs) - {Null} = ({a} - {Null}) \<union> (set bs - {Null})"
      by auto
    ultimately show ?thesis
      using 3 H(1,2,4) unfolding eq by auto
  qed
qed auto

lemma rm_add_loop_null:
  assumes "rm_add_loop as Null new = (as', new', found)"
    and "distinct (filter (\<lambda>p. p \<noteq> Null) as)" and "new \<notin> set as" and "new \<noteq> Null"
  shows "(if found then set as' - {Null} = set as - {Null} \<union> {new} else as' = as \<and> new' = new) \<and>
    distinct (filter (\<lambda>p. p \<noteq> Null) as')"
  using assms
proof (induction as arbitrary: as' new' found)
  case (Cons a as)
  obtain bs n f where new: "rm_add_loop as Null new = (bs, n, f)"
    by (metis prod_cases3)
  have dist: "distinct (filter (\<lambda>p. p \<noteq> Null) as)"
    using Cons.prems(2) by (auto split: if_splits)
  have IH: "(if f then set bs - {Null} = set as - {Null} \<union> {new} else bs = as \<and> n = new) \<and>
      distinct (filter (\<lambda>p. p \<noteq> Null) bs)"
    using Cons.IH [OF new dist] Cons.prems by auto
  show ?case
  proof (cases "a = Null")
    case True
    then show ?thesis
      using Cons.prems by auto
  next
    case False
    then have "as' = a # bs" "new' = n" "found = f"
      using Cons.prems(1) new by auto
    moreover have "a \<notin> set as \<union> {new, Null}"
      using False Cons.prems(2,3) by auto
    moreover from this have "a \<notin> set bs"
      using IH by (cases f) auto
    ultimately show ?thesis
      using IH False dist by (cases f) (auto simp: insert_Diff_if)
  qed
qed auto

text \<open>
  Removing and adding: the string \<open>old\<close> is freed if it is owned, and \<open>new\<close> becomes owned
  unless there is no memory to remember it.
\<close>

lemma owned_set: "set (owned s) = set (env_alloced s) - {Null}"
  by (auto simp: owned_def)

lemma env_rm_add_owned:
  assumes ok: "owned_ok s" and old: "old \<in> set (owned s)" and new: "new \<notin> set (owned s)"
    and live: "new \<noteq> Null \<Longrightarrow> \<exists>b. new = Ptr b 0 \<and> blocks s b \<noteq> None"
  obtains b s' where "old = Ptr b 0" "env_rm_add E old new s = Some s'"
    "blocks s' = (blocks s)(b := None)" "environ s' = environ s" "oldenv s' = oldenv s" "arrays s' = arrays s"
    "owned_ok s'"
    "set (owned s') = set (owned s) - {old} \<union> ({new} - {Null})"
proof -
  obtain b where b: "old = Ptr b 0" "blocks s b \<noteq> None"
    using ok old by (auto simp: owned_ok_def)
  obtain as' new' found where loop: "rm_add_loop (env_alloced s) old new = (as', new', found)"
    by (metis prod_cases3)
  note L = rm_add_loop_owned [OF loop]
  have "old \<noteq> Null" "old \<in> set (env_alloced s)" "new \<notin> set (env_alloced s) - {Null}"
    "distinct (filter (\<lambda>p. p \<noteq> Null) (env_alloced s))"
    using old new ok b by (auto simp: owned_def owned_ok_def)
  with L have L: "found" "distinct (filter (\<lambda>p. p \<noteq> Null) as')"
    "set as' - {Null} = set (env_alloced s) - {Null, old} \<union> ({new} - {Null})"
    by auto
  let ?s = "s\<lparr>env_alloced := as', blocks := (blocks s)(b := None)\<rparr>"
  have set: "set (owned ?s) = set (owned s) - {old} \<union> ({new} - {Null})"
    using L(3) by (auto simp: owned_set)
  have "owned_ok ?s"
    unfolding owned_ok_def
  proof (intro conjI ballI)
    show "distinct (owned ?s)"
      using L(2) by (simp add: owned_def)
  next
    fix p assume p: "p \<in> set (owned ?s)"
    then have "p \<noteq> old"
      using set old new by auto
    moreover have "\<exists>c. p = Ptr c 0 \<and> blocks s c \<noteq> None"
      using p set ok live by (auto simp: owned_ok_def)
    ultimately show "\<exists>c. p = Ptr c 0 \<and> blocks ?s c \<noteq> None"
      using b by auto
  qed
  moreover have "env_rm_add E old new s = Some ?s"
    using loop L(1) b by (simp add: env_rm_add_def free_block_def)
  ultimately show thesis
    using that [OF b(1), of ?s] set by simp
qed

lemma env_rm_add_other:
  assumes ok: "owned_ok s" and old: "old \<notin> set (owned s)" and new: "new \<notin> set (owned s)" "old \<noteq> new"
    and live: "new \<noteq> Null \<Longrightarrow> \<exists>b. new = Ptr b 0 \<and> blocks s b \<noteq> None"
  obtains s' where "env_rm_add E old new s = Some s'"
    "blocks s' = blocks s" "environ s' = environ s" "oldenv s' = oldenv s" "arrays s' = arrays s"
    "owned_ok s'"
    "set (owned s) \<subseteq> set (owned s')" "set (owned s') \<subseteq> set (owned s) \<union> ({new} - {Null})"
proof -
  obtain as' new' found where loop: "rm_add_loop (env_alloced s) old new = (as', new', found)"
    by (metis prod_cases3)
  have dist: "distinct (filter (\<lambda>p. p \<noteq> Null) (env_alloced s))"
    using ok by (simp add: owned_ok_def owned_def)
  have step: "(found \<and> old = Null \<or> \<not> found) \<and> distinct (filter (\<lambda>p. p \<noteq> Null) as') \<and>
     set as' - {Null} = set (owned s) \<union> (if found \<or> new' = Null then {new} - {Null} else {}) \<and>
     (found \<or> new' = new \<or> new' = Null)"
  proof (cases "old = Null")
    case True
    then show ?thesis
      using rm_add_loop_null [of "env_alloced s" new as' new' found] loop dist new
      by (auto simp: owned_set split: if_splits)
  next
    case False
    have "new \<notin> set (env_alloced s) - {Null}" "old \<notin> set (env_alloced s)"
      using False old new(1) by (auto simp: owned_set)
    moreover from this have "set (env_alloced s) - {Null, old} = set (owned s)"
      by (auto simp: owned_set)
    ultimately show ?thesis
      using rm_add_loop_owned [OF loop False dist] by (cases "new = Null"; simp; blast)
  qed
  from step have found: "found \<Longrightarrow> old = Null" and dist': "distinct (filter (\<lambda>p. p \<noteq> Null) as')"
    and set': "set as' - {Null} = set (owned s) \<union> (if found \<or> new' = Null then {new} - {Null} else {})"
    and new': "found \<or> new' = new \<or> new' = Null"
    by blast+
  have ownedI: "owned_ok t" if "distinct (filter (\<lambda>p. p \<noteq> Null) (env_alloced t))" "blocks t = blocks s"
    "set (owned t) \<subseteq> set (owned s) \<union> ({new} - {Null})" for t :: "'a environ_libc_scheme"
    using that ok live unfolding owned_ok_def by (auto simp: owned_def [of t])
  show thesis
  proof (cases "found \<or> new' = Null")
    case True
    let ?s = "s\<lparr>env_alloced := as'\<rparr>"
    have "env_rm_add E old new s = Some ?s"
      using loop True found by (cases found) (simp_all add: env_rm_add_def free_block_def)
    moreover have set: "set (owned ?s) = set (owned s) \<union> ({new} - {Null})"
      using set' True by (simp add: owned_set [of ?s])
    moreover from this have "owned_ok ?s"
      using dist' by (intro ownedI) simp_all
    ultimately show thesis
      using that [of ?s] by simp
  next
    case False
    then have F: "\<not> found" "new' = new" "new \<noteq> Null" "set as' - {Null} = set (owned s)"
      using new' set' by auto
    have new_as: "new \<notin> set as'"
      using F(3,4) new(1) by auto
    show thesis
    proof (rule alloc_result [of E "of_nat (4 * (length as' + 1))" "s\<lparr>env_alloced := as'\<rparr>"])
      let ?s = "s\<lparr>env_alloced := as' @ [new], allocs := Suc (allocs s)\<rparr>"
      assume "alloc E (of_nat (4 * (length as' + 1))) (s\<lparr>env_alloced := as'\<rparr>) =
        (True, s\<lparr>env_alloced := as'\<rparr>\<lparr>allocs := Suc (allocs (s\<lparr>env_alloced := as'\<rparr>))\<rparr>)"
      then have "env_rm_add E old new s = Some ?s"
        using loop F by (simp add: env_rm_add_def)
      moreover have "set (owned ?s) = set (owned s) \<union> {new}"
        using F(3,4) by (auto simp: owned_set [of ?s])
      moreover from this have "owned_ok ?s"
        using dist' new_as F(3) by (intro ownedI) simp_all
      ultimately show thesis
        using that [of ?s] F(3) by auto
    next
      fix e
      let ?s = "s\<lparr>env_alloced := as', allocs := Suc (allocs s), errno := e\<rparr>"
      assume "alloc E (of_nat (4 * (length as' + 1))) (s\<lparr>env_alloced := as'\<rparr>) =
        (False, s\<lparr>env_alloced := as'\<rparr>\<lparr>allocs := Suc (allocs (s\<lparr>env_alloced := as'\<rparr>)), errno := e\<rparr>)"
      then have "env_rm_add E old new s = Some ?s"
        using loop F by (simp add: env_rm_add_def)
      moreover have "set (owned ?s) = set (owned s)"
        using F(4) by (simp add: owned_set [of ?s])
      moreover from this have "owned_ok ?s"
        using dist' by (intro ownedI) simp_all
      ultimately show thesis
        using that [of ?s] F(3) by auto
    qed
  qed
qed

section \<open>Operations keep the invariant\<close>

lemma view_Nil [simp]: "view [] s = []"
  by (simp add: view_def)

lemma view_append [simp]: "view (ps @ qs) s = view ps s @ view qs s"
  by (simp add: view_def)

lemma view_Cons [simp]: "view (p # ps) s = the (string_at (blocks s) p) # view ps s"
  by (simp add: view_def)

lemma with_environ_ready:
  "environ s \<noteq> Uninit \<Longrightarrow> with_environ E P k s = do { x \<leftarrow> k s; Some (Returned x) }"
  by (simp add: with_environ_def ensure_environ_def)

lemma array_ok_ready: "array_ok ps s \<Longrightarrow> environ s \<noteq> Uninit"
  by (auto simp: array_ok_def)

lemma array_ok_array:
  assumes "array_ok ps s" and "environ s \<noteq> Nullenv"
  obtains rest where "array_of (environ s) s = Some (ps @ Null # rest)"
    "environ s = Empty_environ \<Longrightarrow> ps = [] \<and> rest = []"
  using assms by (auto simp: array_ok_def array_of_def)

lemma getenv_loop_result:
  assumes "\<forall>p \<in> set ps. string_at m p \<noteq> None" and "0 \<notin> set n"
  shows "\<exists>p. getenv_loop m n (length n) (ps @ Null # rest) = Some p \<and>
    (case lookup_var n (map (\<lambda>p. the (string_at m p)) ps) of
       None \<Rightarrow> p = Null | Some v \<Rightarrow> string_at m p = Some v)"
  using assms(1)
proof (induction ps)
  case (Cons p ps)
  obtain v where v: "string_at m p = Some v"
    using Cons.prems by auto
  obtain b i where p: "p = Ptr b i"
    using v by (auto simp: string_at_Some)
  have match: "strncmp n v (length n) = 0 \<and> char_at v (length n) = EQ \<longleftrightarrow> has_name n v"
    using name_match_iff [OF assms(2) string_at_nonzero [OF v]] .
  show ?case
  proof (cases "has_name n v")
    case True
    then have "length (take (length n + 1) v) = length n + 1"
      by (simp add: has_name_def)
    then have "string_at m (Ptr b (i + (length n + 1))) = Some (drop (length n + 1) v)"
      using string_at_suffix [OF v [unfolded p], of "length n + 1"] by simp
    then show ?thesis
      using True match v by (simp add: p lookup_var_Cons add.assoc)
  next
    case False
    then show ?thesis
      using Cons match v by (auto simp: p lookup_var_Cons)
  qed
qed simp

text \<open>Reading a variable.\<close>

lemma getenv_result:
  assumes "env_inv caller ps s" and "valid_name n"
  obtains p where "getenv E P n s = Some (Returned (p, s))"
    "case lookup_var n (view ps s) of None \<Rightarrow> p = Null | Some v \<Rightarrow> string_at (blocks s) p = Some v"
proof -
  have ok: "array_ok ps s" "ptrs_ok ps s"
    using assms(1) by (simp_all add: env_inv_def)
  have n: "strchrnul n EQ = length n" "n \<noteq> []" "0 \<notin> set n"
    using assms(2) by (simp_all add: valid_name_def)
  show thesis
  proof (cases "environ s = Nullenv")
    case True
    then have "ps = []"
      using ok(1) by (auto simp: array_ok_def)
    moreover have "getenv E P n s = Some (Returned (Null, s))"
      using True array_ok_ready [OF ok(1)] n by (simp add: getenv_def with_environ_ready)
    ultimately show thesis
      using that by simp
  next
    case False
    obtain rest where "array_of (environ s) s = Some (ps @ Null # rest)"
      using array_ok_array [OF ok(1) False] by blast
    moreover obtain p where "getenv_loop (blocks s) n (length n) (ps @ Null # rest) = Some p"
      "case lookup_var n (view ps s) of None \<Rightarrow> p = Null | Some v \<Rightarrow> string_at (blocks s) p = Some v"
      using getenv_loop_result [of ps "blocks s" n rest] ok(2) n(3)
      unfolding ptrs_ok_def view_def by blast
    ultimately show thesis
      using that [of p] False array_ok_ready [OF ok(1)] n by (simp add: getenv_def with_environ_ready)
  qed
qed

text \<open>Freeing an entry that is no longer in the array.\<close>

lemma ptrs_ok_sublist:
  assumes "ptrs_ok (xs @ ys @ zs) s"
  shows "ptrs_ok (xs @ zs) s"
  using assms by (auto simp: ptrs_ok_def)

lemma ptrs_ok_unique:
  "ptrs_ok ps s \<Longrightarrow> q \<in> set ps \<Longrightarrow> p \<in> set (owned s) \<Longrightarrow> block_of q = block_of p \<Longrightarrow> q = p"
  by (simp add: ptrs_ok_def)

lemma ptrs_ok_mono:
  assumes "ptrs_ok ps s" and "set (owned s') \<subseteq> set (owned s)"
    and "\<And>p. p \<in> set ps \<Longrightarrow> string_at (blocks s') p = string_at (blocks s) p"
  shows "ptrs_ok ps s'"
proof -
  have "distinct (filter (\<lambda>p. p \<in> set (owned s')) ps)"
    by (rule distinct_filter_mono [of "\<lambda>p. p \<in> set (owned s)"])
       (use assms(1,2) in \<open>auto simp: ptrs_ok_def\<close>)
  moreover have "\<forall>p \<in> set ps. string_at (blocks s') p \<noteq> None"
    using assms(1,3) by (simp add: ptrs_ok_def)
  moreover have "\<forall>p \<in> set ps. \<forall>q \<in> set (owned s'). block_of p = block_of q \<longrightarrow> p = q"
    using ptrs_ok_unique [OF assms(1)] assms(2) by blast
  ultimately show ?thesis
    unfolding ptrs_ok_def by blast
qed

lemma drop_entry:
  assumes inv: "owned_ok s" "caller_ok caller s" "ptrs_ok (xs @ p # ys) s"
  obtains s' where "env_rm_add E p Null s = Some s'" "owned_ok s'" "caller_ok caller s'"
    "ptrs_ok (xs @ ys) s'" "view (xs @ ys) s' = view (xs @ ys) s"
    "environ s' = environ s" "oldenv s' = oldenv s" "arrays s' = arrays s"
    "dom (blocks s') \<subseteq> dom (blocks s)"
proof (cases "p \<in> set (owned s)")
  case True
  have "Null \<notin> set (owned s)"
    by (simp add: owned_def)
  then obtain b s' where p: "p = Ptr b 0" and run: "env_rm_add E p Null s = Some s'"
    and blocks': "blocks s' = (blocks s)(b := None)"
    and same: "environ s' = environ s" "oldenv s' = oldenv s" "arrays s' = arrays s" and ok': "owned_ok s'"
    and own: "set (owned s') = set (owned s) - {p} \<union> ({Null} - {Null})"
    using env_rm_add_owned [OF inv(1) True, of Null E] by auto
  have other: "block_of q \<noteq> Some b" if "q \<in> set (xs @ ys)" for q
  proof
    assume "block_of q = Some b"
    then have "q = p"
      using that p by (intro ptrs_ok_unique [OF inv(3) _ True]) auto
    then show False
      using inv(3) True that by (auto simp: ptrs_ok_def)
  qed
  have str: "string_at (blocks s') q = string_at (blocks s) q" if "q \<in> set (xs @ ys)" for q
    using other [OF that] by (intro string_at_cong) (auto simp: blocks')
  have own': "set (owned s') \<subseteq> set (owned s)"
    using own by blast
  have rest: "ptrs_ok (xs @ ys) s"
    using ptrs_ok_sublist [of xs "[p]" ys] inv(3) by simp
  have "ptrs_ok (xs @ ys) s'"
    by (rule ptrs_ok_mono [OF rest own' str])
  moreover have "caller_ok caller s'"
    using inv(2) own True p unfolding caller_ok_def by (auto simp: blocks')
  moreover have "view (xs @ ys) s' = view (xs @ ys) s"
    using str by (simp add: view_def)
  moreover have "dom (blocks s') \<subseteq> dom (blocks s)"
    by (auto simp: blocks')
  ultimately show thesis
    using that [OF run ok'] same by blast
next
  case False
  have "Null \<notin> set (owned s)"
    by (simp add: owned_def)
  moreover have "p \<noteq> Null"
    using inv(3) by (auto simp: ptrs_ok_def string_at_def)
  ultimately obtain s' where run: "env_rm_add E p Null s = Some s'"
    and same: "blocks s' = blocks s" "environ s' = environ s" "oldenv s' = oldenv s" "arrays s' = arrays s" and ok': "owned_ok s'"
    and own: "set (owned s') = set (owned s)"
    using env_rm_add_other [OF inv(1) False, of Null E] by auto
  have rest: "ptrs_ok (xs @ ys) s"
    using ptrs_ok_sublist [of xs "[p]" ys] inv(3) by simp
  have "ptrs_ok (xs @ ys) s'"
    by (rule ptrs_ok_mono [OF rest]) (simp_all add: same own)
  moreover have "caller_ok caller s'" "view (xs @ ys) s' = view (xs @ ys) s"
    using inv(2) by (simp_all add: caller_ok_def view_def same own)
  ultimately show thesis
    using that [OF run ok'] same by simp
qed

text \<open>Removing the entries with a name.\<close>

lemma unsetenv_keep:
  assumes "e < length ps" and "ps ! e = q" and "q \<noteq> Null" and "string_at (blocks s) q = Some v"
    and "\<not> (strncmp n v l = 0 \<and> char_at v l = EQ)"
  shows "unsetenv_loop E n l ps e eo s =
     unsetenv_loop E n l (if eo \<noteq> e then ps[eo := q] else ps) (e + 1) (eo + 1) s"
  using assms by (subst unsetenv_loop.simps) auto

lemma unsetenv_loop_result:
  assumes "0 \<notin> set n" and "length junk = e - length ks" and "length ks \<le> e"
    and "owned_ok s" "caller_ok caller s" "ptrs_ok (ks @ qs) s" and "Null \<notin> set qs"
  shows "\<exists>ps' s' rest'. unsetenv_loop E n (length n) (ks @ junk @ qs @ Null # rest) e (length ks) s = Some (ks @ ps' @ Null # rest', s') \<and>
    owned_ok s' \<and> caller_ok caller s' \<and> ptrs_ok (ks @ ps') s' \<and> set ps' \<subseteq> set qs \<and>
    view (ks @ ps') s' = view ks s @ remove_var n (view qs s) \<and>
    environ s' = environ s \<and> oldenv s' = oldenv s \<and> arrays s' = arrays s \<and>
    dom (blocks s') \<subseteq> dom (blocks s)"
  using assms(2-)
proof (induction qs arbitrary: ks junk e s)
  case Nil
  have e: "e = length ks + length junk"
    using Nil.prems(1,2) by simp
  then have "(ks @ junk @ Null # rest) ! e = Null"
    by (simp add: nth_append)
  then have "unsetenv_loop E n (length n) (ks @ junk @ Null # rest) e (length ks) s =
     Some (ks @ [] @ Null # (if junk = [] then rest else tl junk @ Null # rest), s)"
    by (subst unsetenv_loop.simps) (cases junk; simp add: e list_update_append)
  then show ?case
    using Nil.prems by (auto simp: remove_var_def)
next
  case (Cons q qs)
  have e: "e = length ks + length junk"
    using Cons.prems(1,2) by simp
  then have q: "(ks @ junk @ (q # qs) @ Null # rest) ! e = q" "q \<noteq> Null"
    using Cons.prems(6) by (auto simp: nth_append)
  obtain v where v: "string_at (blocks s) q = Some v"
    using Cons.prems(5) by (auto simp: ptrs_ok_def)
  have match: "strncmp n v (length n) = 0 \<and> char_at v (length n) = EQ \<longleftrightarrow> has_name n v"
    by (rule name_match_iff [OF assms(1) string_at_nonzero [OF v]])
  show ?case
  proof (cases "has_name n v")
    case True
    obtain s1 where s1: "env_rm_add E q Null s = Some s1" "owned_ok s1" "caller_ok caller s1"
      "ptrs_ok (ks @ qs) s1" "view (ks @ qs) s1 = view (ks @ qs) s"
      "environ s1 = environ s" "oldenv s1 = oldenv s" "arrays s1 = arrays s"
      "dom (blocks s1) \<subseteq> dom (blocks s)"
      using drop_entry [OF Cons.prems(3-5)] by metis
    have "length (junk @ [q]) = e + 1 - length ks" "length ks \<le> e + 1" "Null \<notin> set qs"
      using Cons.prems(1,2,6) by simp_all
    from Cons.IH [OF this(1,2) s1(2-4) this(3)]
    obtain ps' s' rest' where IH: "unsetenv_loop E n (length n) (ks @ (junk @ [q]) @ qs @ Null # rest) (e + 1) (length ks) s1 =
        Some (ks @ ps' @ Null # rest', s')"
      "owned_ok s'" "caller_ok caller s'" "ptrs_ok (ks @ ps') s'" "set ps' \<subseteq> set qs"
      "view (ks @ ps') s' = view ks s1 @ remove_var n (view qs s1)"
      "environ s' = environ s1" "oldenv s' = oldenv s1" "arrays s' = arrays s1"
      "dom (blocks s') \<subseteq> dom (blocks s1)"
      by blast
    have "unsetenv_loop E n (length n) (ks @ junk @ (q # qs) @ Null # rest) e (length ks) s =
        Some (ks @ ps' @ Null # rest', s')"
      using True match q v s1(1) IH(1) by (subst unsetenv_loop.simps) (simp add: e)
    moreover have "view ks s1 = view ks s" "view qs s1 = view qs s"
      using s1(5) by (simp_all add: view_def)
    ultimately show ?thesis
      using IH(2-9) order_trans [OF IH(10) s1(9)] s1(6-8) True v
      by - (rule exI [of _ ps'], rule exI [of _ s'], rule exI [of _ rest'], simp add: remove_var_def, blast)
  next
    case False
    obtain junk' where junk': "(ks @ junk @ (q # qs) @ Null # rest)[length ks := q] =
        (ks @ [q]) @ junk' @ qs @ Null # rest" "length junk' = length junk"
    proof (cases junk)
      case Nil
      then show thesis
        using that [of "[]"] by (simp add: list_update_append)
    next
      case (Cons j js)
      then show thesis
        using that [of "js @ [q]"] by (simp add: list_update_append)
    qed
    have same: "(if length ks \<noteq> e then (ks @ junk @ (q # qs) @ Null # rest)[length ks := q]
        else ks @ junk @ (q # qs) @ Null # rest) = (ks @ [q]) @ junk' @ qs @ Null # rest"
      using junk' e by (auto simp: list_update_append)
    have "length junk' = e + 1 - length (ks @ [q])" "length (ks @ [q]) \<le> e + 1" "Null \<notin> set qs"
      "ptrs_ok ((ks @ [q]) @ qs) s"
      using Cons.prems(1,2,5,6) junk'(2) by simp_all
    from Cons.IH [OF this(1,2) Cons.prems(3,4) this(4,3)]
    obtain ps' s' rest' where IH: "unsetenv_loop E n (length n) ((ks @ [q]) @ junk' @ qs @ Null # rest) (e + 1) (length (ks @ [q])) s =
        Some ((ks @ [q]) @ ps' @ Null # rest', s')"
      "owned_ok s'" "caller_ok caller s'" "ptrs_ok ((ks @ [q]) @ ps') s'" "set ps' \<subseteq> set qs"
      "view ((ks @ [q]) @ ps') s' = view (ks @ [q]) s @ remove_var n (view qs s)"
      "environ s' = environ s" "oldenv s' = oldenv s" "arrays s' = arrays s"
      "dom (blocks s') \<subseteq> dom (blocks s)"
      by blast
    have "unsetenv_loop E n (length n) (ks @ junk @ (q # qs) @ Null # rest) e (length ks) s =
        unsetenv_loop E n (length n) ((ks @ [q]) @ junk' @ qs @ Null # rest) (e + 1) (length ks + 1) s"
      using False match unsetenv_keep [OF _ q(1,2) v, of n "length n" E "length ks"] same e by simp
    then have "unsetenv_loop E n (length n) (ks @ junk @ (q # qs) @ Null # rest) e (length ks) s =
        Some (ks @ (q # ps') @ Null # rest', s')"
      using IH(1) by simp
    then show ?thesis
      using IH(2-) False v
      by - (rule exI [of _ "q # ps'"], rule exI [of _ s'], rule exI [of _ rest'],
        auto simp: remove_var_def)
  qed
qed

lemma env_inv_array:
  assumes "array_ok ps s" and "environ s = Array a" and "environ s' = environ s" "oldenv s' = oldenv s"
    and "arrays s' = (arrays s)(a \<mapsto> qs @ Null # rest)" and "Null \<notin> set qs"
  shows "array_ok qs s'"
  using assms by (auto simp: array_ok_def)

lemma unsetenv_result:
  assumes inv: "env_inv caller ps s" and "valid_name n"
  obtains ps' s' where "unsetenv E P n s = Some (Returned (0, s'))" "env_inv caller ps' s'"
    "view ps' s' = remove_var n (view ps s)"
proof -
  have ok: "owned_ok s" "caller_ok caller s" "ptrs_ok ps s" "array_ok ps s"
    "finite (dom (blocks s))" "finite (dom (arrays s))"
    using inv by (simp_all add: env_inv_def)
  have n: "strchrnul n EQ = length n" "n \<noteq> []" "0 \<notin> set n"
    using assms(2) by (simp_all add: valid_name_def)
  have null: "Null \<notin> set ps"
    using ok(4) by (simp add: array_ok_def)
  show thesis
  proof (cases "environ s = Nullenv")
    case True
    then have "unsetenv E P n s = Some (Returned (0, s))"
      using array_ok_ready [OF ok(4)] n by (simp add: unsetenv_def with_environ_ready)
    moreover have "ps = []"
      using ok(4) True by (auto simp: array_ok_def)
    ultimately show thesis
      using that [of s ps] inv by (simp add: remove_var_def)
  next
    case False
    obtain rest where arr: "array_of (environ s) s = Some (ps @ Null # rest)"
      "environ s = Empty_environ \<Longrightarrow> ps = [] \<and> rest = []"
      using array_ok_array [OF ok(4) False] by blast
    obtain ps' s1 rest' where loop: "unsetenv_loop E n (length n) (ps @ Null # rest) 0 0 s =
        Some (ps' @ Null # rest', s1)"
      "owned_ok s1" "caller_ok caller s1" "ptrs_ok ps' s1" "set ps' \<subseteq> set ps"
      "view ps' s1 = remove_var n (view ps s)"
      "environ s1 = environ s" "oldenv s1 = oldenv s" "arrays s1 = arrays s"
      "dom (blocks s1) \<subseteq> dom (blocks s)"
      using unsetenv_loop_result [OF n(3), of "[]" 0 "[]" s caller ps E rest] ok(1-3) null by auto
    have null': "Null \<notin> set ps'"
      using null loop(5) by blast
    show thesis
    proof (cases "environ s")
      case (Array a)
      let ?s = "s1\<lparr>arrays := (arrays s1)(a \<mapsto> ps' @ Null # rest')\<rparr>"
      have "unsetenv E P n s = Some (Returned (0, ?s))"
        using array_ok_ready [OF ok(4)] n False arr(1) loop(1,7) Array
        by (simp add: unsetenv_def with_environ_ready)
      moreover have "env_inv caller ps' ?s"
        unfolding env_inv_def
      proof (intro conjI)
        show "array_ok ps' ?s"
          using loop(7-9) by (intro env_inv_array [OF ok(4) Array _ _ _ null']) simp_all
        show "finite (dom (blocks ?s))" "finite (dom (arrays ?s))"
          using ok(5,6) loop(9,10) finite_subset by auto
      qed (use loop(2-4) in \<open>simp_all add: owned_ok_def caller_ok_def ptrs_ok_def owned_def\<close>)
      moreover have "view ps' ?s = remove_var n (view ps s)"
        using loop(6) by (simp add: view_def)
      ultimately show thesis
        by (rule that)
    next
      case Empty_environ
      then have e: "ps = []" "rest = []"
        using arr(2) by simp_all
      then have "ps' = []"
        using loop(5) by simp
      moreover have "unsetenv_loop E n (length n) [Null] 0 0 s = Some ([Null], s)"
        by (simp add: unsetenv_loop.simps)
      ultimately have "unsetenv E P n s = Some (Returned (0, s))"
        using array_ok_ready [OF ok(4)] n False arr(1) Empty_environ e
        by (simp add: unsetenv_def with_environ_ready)
      then show thesis
        using that [of s ps] inv e by (simp add: remove_var_def)
    qed (use False array_ok_ready [OF ok(4)] in auto)
  qed
qed

text \<open>Removing all entries.\<close>

lemma clearenv_loop_result:
  assumes "owned_ok s" "caller_ok caller s" "ptrs_ok qs s" and "Null \<notin> set qs"
  obtains s' where "clearenv_loop E (qs @ Null # rest) s = Some s'" "owned_ok s'" "caller_ok caller s'"
    "environ s' = environ s" "oldenv s' = oldenv s" "arrays s' = arrays s"
    "dom (blocks s') \<subseteq> dom (blocks s)"
  using assms
proof (induction qs arbitrary: s thesis)
  case (Cons q qs)
  obtain s1 where s1: "env_rm_add E q Null s = Some s1" "owned_ok s1" "caller_ok caller s1"
    "ptrs_ok qs s1" "environ s1 = environ s" "oldenv s1 = oldenv s" "arrays s1 = arrays s"
    "dom (blocks s1) \<subseteq> dom (blocks s)"
    using drop_entry [of s caller "[]" q qs E] Cons.prems(2-4) by (metis append_Nil)
  have "Null \<notin> set qs"
    using Cons.prems(5) by simp
  obtain s' where s': "clearenv_loop E (qs @ Null # rest) s1 = Some s'" "owned_ok s'" "caller_ok caller s'"
    "environ s' = environ s1" "oldenv s' = oldenv s1" "arrays s' = arrays s1"
    "dom (blocks s') \<subseteq> dom (blocks s1)"
    using Cons.IH [OF _ s1(2-4) \<open>Null \<notin> set qs\<close>] by blast
  obtain b i where "q = Ptr b i"
    using Cons.prems(5) by (cases q) auto
  then show ?case
    using Cons.prems(1) [of s'] s' s1 by auto
qed auto

lemma clearenv_result:
  assumes inv: "env_inv caller ps s"
  obtains s' where "clearenv E P s = Some (Returned (0, s'))" "env_inv caller [] s'"
proof -
  have ok: "owned_ok s" "caller_ok caller s" "ptrs_ok ps s" "array_ok ps s"
    "finite (dom (blocks s))" "finite (dom (arrays s))"
    using inv by (simp_all add: env_inv_def)
  show thesis
  proof (cases "environ s = Nullenv")
    case True
    then have "clearenv E P s = Some (Returned (0, s))" "ps = []"
      using ok(4) by (auto simp: array_ok_def clearenv_def with_environ_ready)
    then show thesis
      using that inv by simp
  next
    case False
    obtain rest where arr: "array_of (environ s) s = Some (ps @ Null # rest)"
      using array_ok_array [OF ok(4) False] by blast
    let ?s = "s\<lparr>environ := Nullenv\<rparr>"
    have pre: "owned_ok ?s" "caller_ok caller ?s" "ptrs_ok ps ?s" "Null \<notin> set ps"
      using ok by (simp_all add: owned_ok_def caller_ok_def ptrs_ok_def owned_def array_ok_def)
    obtain s' where s': "clearenv_loop E (ps @ Null # rest) ?s = Some s'" "owned_ok s'" "caller_ok caller s'"
      "environ s' = environ ?s" "oldenv s' = oldenv ?s" "arrays s' = arrays ?s"
      "dom (blocks s') \<subseteq> dom (blocks ?s)"
      using clearenv_loop_result [OF pre] by blast
    have "clearenv E P s = Some (Returned (0, s'))"
      using array_ok_ready [OF ok(4)] False arr s'(1) by (simp add: clearenv_def with_environ_ready)
    moreover have "env_inv caller [] s'"
      using s'(2-) ok(4-6) finite_subset
      by (auto simp: env_inv_def ptrs_ok_def array_ok_def)
    ultimately show thesis
      by (rule that)
  qed
qed

text \<open>
  Adding an entry.  The string is either a fresh block that becomes owned (\<open>setenv\<close>, \<open>r = str\<close>)
  or memory of the caller (\<open>putenv\<close>, \<open>r = Null\<close>).
\<close>

definition addable :: "(nat \<Rightarrow> u8 list option) \<Rightarrow> cptr list \<Rightarrow> cptr \<Rightarrow> cptr \<Rightarrow> 'a environ_libc_scheme \<Rightarrow> bool" where
  "addable caller ps str r s \<longleftrightarrow>
     string_at (blocks s) str \<noteq> None \<and> (\<forall>q \<in> set (owned s). block_of q \<noteq> block_of str) \<and>
     (r = Null \<or> r = str \<and>
        (\<exists>b. str = Ptr b 0 \<and> caller b = None \<and> (\<forall>p \<in> set ps. block_of p \<noteq> Some b)))"

lemma addableD:
  assumes "addable caller ps str r s"
  shows "r \<notin> set (owned s)" "str \<notin> set (owned s)" "str \<noteq> Null"
    "r \<noteq> Null \<Longrightarrow> \<exists>b. r = Ptr b 0 \<and> blocks s b \<noteq> None"
    "p \<in> set ps \<Longrightarrow> r \<noteq> Null \<Longrightarrow> block_of p \<noteq> block_of str"
proof -
  show "r \<notin> set (owned s)"
    using assms by (auto simp: addable_def owned_def)
  show "str \<notin> set (owned s)" "str \<noteq> Null"
    using assms by (auto simp: addable_def string_at_def)
  show "r \<noteq> Null \<Longrightarrow> \<exists>b. r = Ptr b 0 \<and> blocks s b \<noteq> None"
    using assms by (auto simp: addable_def string_at_Some)
  show "p \<in> set ps \<Longrightarrow> r \<noteq> Null \<Longrightarrow> block_of p \<noteq> block_of str"
    using assms by (auto simp: addable_def)
qed

lemma env_rm_add_result:
  assumes "owned_ok s" and "r \<notin> set (owned s)" and "p \<noteq> r"
    and "r \<noteq> Null \<Longrightarrow> \<exists>b. r = Ptr b 0 \<and> blocks s b \<noteq> None"
  obtains s' where "env_rm_add E p r s = Some s'" "owned_ok s'"
    "set (owned s') \<subseteq> set (owned s) \<union> ({r} - {Null})"
    "environ s' = environ s" "oldenv s' = oldenv s" "arrays s' = arrays s"
    "dom (blocks s') \<subseteq> dom (blocks s)"
    "\<And>b. p \<in> set (owned s) \<Longrightarrow> block_of p \<noteq> Some b \<Longrightarrow> blocks s' b = blocks s b"
    "p \<notin> set (owned s) \<Longrightarrow> blocks s' = blocks s"
proof (cases "p \<in> set (owned s)")
  case True
  then show thesis
  proof (rule env_rm_add_owned [OF assms(1) _ assms(2,4)])
    fix b s'
    assume *: "p = Ptr b 0" "env_rm_add E p r s = Some s'" "blocks s' = (blocks s)(b := None)"
      "environ s' = environ s" "oldenv s' = oldenv s" "arrays s' = arrays s" "owned_ok s'"
      "set (owned s') = set (owned s) - {p} \<union> ({r} - {Null})"
    have "set (owned s') \<subseteq> set (owned s) \<union> ({r} - {Null})"
      using *(8) by blast
    then show thesis
      using that [OF *(2,7) _ *(4-6)] True *(1,3) by auto
  qed
next
  case False
  then show thesis
  proof (rule env_rm_add_other [OF assms(1) _ assms(2-4)])
    fix s'
    assume *: "env_rm_add E p r s = Some s'" "blocks s' = blocks s"
      "environ s' = environ s" "oldenv s' = oldenv s" "arrays s' = arrays s" "owned_ok s'"
      "set (owned s') \<subseteq> set (owned s) \<union> ({r} - {Null})"
    show thesis
      by (rule that [OF *(1,6,7,3-5)]) (use *(2) in simp_all)
  qed
qed

lemma ptrs_ok_insert:
  assumes ps: "ptrs_ok (xs @ ys) s" and add: "addable caller (xs @ ys) str r s"
    and own: "set (owned s') \<subseteq> set (owned s) \<union> ({r} - {Null})"
    and same: "\<And>q. q \<in> set (str # xs @ ys) \<Longrightarrow> string_at (blocks s') q = string_at (blocks s) q"
  shows "ptrs_ok (xs @ str # ys) s'"
  unfolding ptrs_ok_def
proof (intro conjI ballI impI)
  fix p assume "p \<in> set (xs @ str # ys)"
  then show "string_at (blocks s') p \<noteq> None"
    using same ps add by (auto simp: ptrs_ok_def addable_def)
next
  have out: "r \<noteq> q" if "q \<in> set (xs @ ys)" "r \<noteq> Null" for q
    using addableD(5) [OF add that] add that(2) by (auto simp: addable_def)
  have mono: "x \<in> set (owned s)" if "x \<in> set (xs @ ys)" "x \<in> set (owned s')" for x
    using own out that by blast
  have "distinct (filter (\<lambda>p. p \<in> set (owned s')) (xs @ ys))"
    by (rule distinct_filter_mono [of "\<lambda>p. p \<in> set (owned s)", OF _ mono])
       (use ps in \<open>simp_all add: ptrs_ok_def\<close>)
  moreover have "str \<notin> set (xs @ ys)" if "str \<in> set (owned s')"
    using that own addableD(2) [OF add] addableD(5) [OF add] by auto
  ultimately show "distinct (filter (\<lambda>p. p \<in> set (owned s')) (xs @ str # ys))"
    by auto
next
  fix p q assume pq: "p \<in> set (xs @ str # ys)" "q \<in> set (owned s')" "block_of p = block_of q"
  have "q \<in> set (owned s) \<or> q = str \<and> r \<noteq> Null"
    using pq(2) own add by (auto simp: addable_def)
  then show "p = q"
  proof
    assume q: "q \<in> set (owned s)"
    then have "p \<noteq> str"
      using add pq(3) by (auto simp: addable_def)
    then show ?thesis
      using ptrs_ok_unique [OF ps _ q] pq(1,3) by auto
  next
    assume q: "q = str \<and> r \<noteq> Null"
    then show ?thesis
      using addableD(5) [OF add] pq(1,3) by auto
  qed
qed

lemma caller_ok_mono:
  assumes "caller_ok caller s" and "addable caller ps str r s"
    and "set (owned s') \<subseteq> set (owned s) \<union> ({r} - {Null})"
    and "\<And>b. caller b \<noteq> None \<Longrightarrow> blocks s' b = blocks s b"
  shows "caller_ok caller s'"
  unfolding caller_ok_def
proof (intro allI impI conjI)
  fix b assume b: "caller b \<noteq> None"
  then show "blocks s' b = caller b"
    using assms(1,4) by (simp add: caller_ok_def)
  have "r \<noteq> Ptr b 0 \<or> r = Null"
    using assms(2) b by (auto simp: addable_def)
  then show "Ptr b 0 \<notin> set (owned s')"
    using assms(1,3) b unfolding caller_ok_def by blast
qed

lemma putenv_scan_result:
  assumes "\<forall>p \<in> set ps. string_at m p \<noteq> None" and "0 \<notin> set n" "0 \<notin> set w"
  obtains (found) xs p ys where "ps = xs @ p # ys"
      "putenv_scan m (entry_of n w) (length n) (ps @ Null # rest) k = Some (k + length xs, True)"
      "\<forall>q \<in> set xs. \<not> has_name n (the (string_at m q))" "has_name n (the (string_at m p))"
  | (absent) "putenv_scan m (entry_of n w) (length n) (ps @ Null # rest) k = Some (k + length ps, False)"
      "\<forall>q \<in> set ps. \<not> has_name n (the (string_at m q))"
  using assms(1)
proof (induction ps arbitrary: k thesis)
  case Nil
  then show ?case
    by simp
next
  case (Cons p ps)
  obtain v where v: "string_at m p = Some v"
    using Cons.prems(3) by auto
  obtain b i where p: "p = Ptr b i"
    using v by (auto simp: string_at_Some)
  have match: "strncmp (entry_of n w) v (length n + 1) = 0 \<longleftrightarrow> has_name n v"
    by (rule entry_match_iff [OF assms(2,3) string_at_nonzero [OF v]])
  show ?case
  proof (cases "has_name n v")
    case True
    then show ?thesis
      using Cons.prems(1) [of "[]" p ps] v match by (simp add: p)
  next
    case False
    have "\<forall>q \<in> set ps. string_at m q \<noteq> None"
      using Cons.prems(3) by simp
    then show ?thesis
    proof (rule Cons.IH [rotated 2, of "k + 1"])
      fix xs q ys
      assume "ps = xs @ q # ys" "putenv_scan m (entry_of n w) (length n) (ps @ Null # rest) (k + 1) =
          Some (k + 1 + length xs, True)"
        "\<forall>q \<in> set xs. \<not> has_name n (the (string_at m q))" "has_name n (the (string_at m q))"
      then show thesis
        using Cons.prems(1) [of "p # xs" q ys] v match False by (simp add: p)
    next
      assume "putenv_scan m (entry_of n w) (length n) (ps @ Null # rest) (k + 1) =
          Some (k + 1 + length ps, False)" "\<forall>q \<in> set ps. \<not> has_name n (the (string_at m q))"
      then show thesis
        using Cons.prems(2) v match False by (simp add: p)
    qed
  qed
qed

lemma put_var_found:
  "\<forall>v \<in> set vs. \<not> has_name n v \<Longrightarrow> has_name n u \<Longrightarrow>
   put_var n str (vs @ u # us) = vs @ str # us"
  by (induction vs) auto

lemma put_var_absent: "\<forall>v \<in> set vs. \<not> has_name n v \<Longrightarrow> put_var n str vs = vs @ [str]"
  by (induction vs) auto

definition available :: "env \<Rightarrow> placement \<Rightarrow> bool" where
  "available E P \<longleftrightarrow> memory_available E \<and>
     (\<forall>m. finite (dom m) \<longrightarrow> m (place_block P m) = None) \<and>
     (\<forall>m. finite (dom m) \<longrightarrow> m (place_array P m) = None)"

text \<open>What a fresh array leaves unchanged.\<close>

definition same_strings :: "'a environ_libc_scheme \<Rightarrow> 'a environ_libc_scheme \<Rightarrow> bool" where
  "same_strings s s' \<longleftrightarrow> blocks s' = blocks s \<and> env_alloced s' = env_alloced s"

lemma same_stringsD:
  assumes "same_strings s s'"
  shows "owned_ok s' = owned_ok s" "caller_ok caller s' = caller_ok caller s" "ptrs_ok ps s' = ptrs_ok ps s"
    "view ps s' = view ps s" "addable caller ps str r s' = addable caller ps str r s"
    "blocks s' = blocks s" "owned s' = owned s"
proof -
  have "owned s' = owned s"
    using assms by (simp add: same_strings_def owned_def)
  then show "owned_ok s' = owned_ok s" "caller_ok caller s' = caller_ok caller s" "ptrs_ok ps s' = ptrs_ok ps s"
    "view ps s' = view ps s" "addable caller ps str r s' = addable caller ps str r s"
    "blocks s' = blocks s" "owned s' = owned s"
    using assms by (simp_all add: same_strings_def owned_ok_def caller_ok_def ptrs_ok_def view_def addable_def)
qed

lemma new_array_result:
  assumes "finite (dom (arrays s))"
  obtains (ok) a s' where "new_array E P n ps s = (Some a, s')" "arrays s a = None"
      "arrays s' = (arrays s)(a \<mapsto> ps)" "same_strings s s'" "environ s' = environ s" "oldenv s' = oldenv s"
  | (fail) s' where "new_array E P n ps s = (None, s')" "arrays s' = arrays s" "same_strings s s'"
      "environ s' = environ s" "oldenv s' = oldenv s" "\<not> available E P"
proof (cases "\<exists>s1. alloc E n s = (True, s1)")
  case True
  then have "alloc E n s = (True, s\<lparr>allocs := Suc (allocs s)\<rparr>)"
    by (auto simp: alloc_def Let_def split: alloc_reply.splits)
  then have new: "new_array E P n ps s =
      (let a = place_array P (arrays s)
       in if arrays s a = None then (Some a, s\<lparr>allocs := Suc (allocs s), arrays := (arrays s)(a \<mapsto> ps)\<rparr>)
          else (None, s\<lparr>allocs := Suc (allocs s)\<rparr>))"
    by (simp add: new_array_def Let_def)
  show thesis
  proof (cases "arrays s (place_array P (arrays s)) = None")
    case True
    with new have "new_array E P n ps s = (Some (place_array P (arrays s)),
        s\<lparr>allocs := Suc (allocs s), arrays := (arrays s)(place_array P (arrays s) \<mapsto> ps)\<rparr>)"
      by (simp add: Let_def)
    from ok [OF this True] show thesis
      by (simp add: same_strings_def)
  next
    case False
    then have "\<not> available E P"
      using assms by (auto simp: available_def)
    moreover from False new have "new_array E P n ps s = (None, s\<lparr>allocs := Suc (allocs s)\<rparr>)"
      by (simp add: Let_def)
    ultimately show thesis
      using fail by (simp add: same_strings_def)
  qed
next
  case False
  then obtain e where "alloc E n s = (False, s\<lparr>allocs := Suc (allocs s), errno := e\<rparr>)"
    by (metis alloc_result)
  moreover from this have "\<not> available E P"
    using alloc_available [of E n s] by (auto simp: available_def)
  ultimately show thesis
    using fail by (simp add: new_array_def same_strings_def)
qed

lemma free_array_result:
  assumes "oldenv s = Nullenv \<or> (\<exists>a. oldenv s = Array a \<and> arrays s a \<noteq> None)"
  obtains s' where "free_array (oldenv s) s = Some s'" "same_strings s s'"
    "environ s' = environ s" "oldenv s' = oldenv s" "dom (arrays s') \<subseteq> dom (arrays s)"
    "\<And>a. oldenv s \<noteq> Array a \<Longrightarrow> arrays s' a = arrays s a"
  using assms
proof
  assume "oldenv s = Nullenv"
  then show thesis
    using that [of s] by (simp add: free_array_def same_strings_def)
next
  assume "\<exists>a. oldenv s = Array a \<and> arrays s a \<noteq> None"
  then obtain a where a: "oldenv s = Array a" "arrays s a \<noteq> None"
    by blast
  let ?s = "s\<lparr>arrays := (arrays s)(a := None)\<rparr>"
  show thesis
  proof (rule that [of ?s])
    show "free_array (oldenv s) s = Some ?s"
      using a by (simp add: free_array_def)
  qed (use a in \<open>auto simp: same_strings_def\<close>)
qed

text \<open>Failure of an allocation leaves the environment as it is.\<close>

lemma resize_environ_result:
  assumes arr: "array_ok ps s" and fin: "finite (dom (arrays s))"
  obtains (ok) a s' where "resize_environ E P newenv s = Some (Some a, s')" "arrays s' a = Some newenv"
      "same_strings s s'" "finite (dom (arrays s'))"
  | (fail) s' where "resize_environ E P newenv s = Some (None, s')" "same_strings s s'"
      "array_ok ps s'" "finite (dom (arrays s'))" "\<not> available E P"
proof -
  let ?n = "of_nat (4 * length newenv) :: size_t"
  have old: "oldenv s = Nullenv \<or> (\<exists>a. oldenv s = Array a \<and> arrays s a \<noteq> None)"
    using arr by (simp add: array_ok_def)
  show thesis
  proof (cases "environ s = oldenv s")
    case True
    obtain s1 where s1: "free_array (oldenv s) s = Some s1" "same_strings s s1"
      "environ s1 = environ s" "oldenv s1 = oldenv s" "dom (arrays s1) \<subseteq> dom (arrays s)"
      by (rule free_array_result [OF old]) blast
    have fin1: "finite (dom (arrays s1))"
      using s1(5) fin finite_subset by blast
    show thesis
    proof (rule new_array_result [OF fin1, of E P ?n newenv])
      fix a s2 assume *: "new_array E P ?n newenv s1 = (Some a, s2)"
        "arrays s2 = (arrays s1)(a \<mapsto> newenv)" "same_strings s1 s2"
      show thesis
      proof (rule ok)
        show "resize_environ E P newenv s = Some (Some a, s2)"
          using True s1(1) * by (simp add: resize_environ_def realloc_array_def)
      qed (use * s1(2) fin1 in \<open>simp_all add: same_strings_def\<close>)
    next
      fix s2 assume *: "new_array E P ?n newenv s1 = (None, s2)" "same_strings s1 s2"
        "environ s2 = environ s1" "oldenv s2 = oldenv s1" "\<not> available E P"
      show thesis
      proof (rule fail)
        show "resize_environ E P newenv s = Some (None, s2\<lparr>arrays := arrays s\<rparr>)"
          using True s1(1) * by (simp add: resize_environ_def realloc_array_def)
        show "array_ok ps (s2\<lparr>arrays := arrays s\<rparr>)"
          using arr *(3,4) s1(3,4) by (simp add: array_ok_def)
      qed (use * s1(2) fin in \<open>simp_all add: same_strings_def\<close>)
    qed
  next
    case False
    show thesis
    proof (rule new_array_result [OF fin, of E P ?n newenv])
      fix a s1 assume *: "new_array E P ?n newenv s = (Some a, s1)" "arrays s a = None"
        "arrays s1 = (arrays s)(a \<mapsto> newenv)" "same_strings s s1" "oldenv s1 = oldenv s"
      have "oldenv s1 = Nullenv \<or> (\<exists>a. oldenv s1 = Array a \<and> arrays s1 a \<noteq> None)"
        using old *(3,5) by auto
      then obtain s2 where s2: "free_array (oldenv s1) s1 = Some s2" "same_strings s1 s2"
        "dom (arrays s2) \<subseteq> dom (arrays s1)" "oldenv s1 \<noteq> Array a \<Longrightarrow> arrays s2 a = arrays s1 a"
        by (rule free_array_result) blast
      have "oldenv s1 \<noteq> Array a"
        using old *(2,5) by auto
      moreover have "finite (dom (arrays s2))"
        using s2(3) *(3) fin by (auto intro: finite_subset)
      ultimately show thesis
        using s2 * False by (intro ok) (simp_all add: resize_environ_def same_strings_def)
    next
      fix s1 assume *: "new_array E P ?n newenv s = (None, s1)" "arrays s1 = arrays s" "same_strings s s1"
        "environ s1 = environ s" "oldenv s1 = oldenv s" "\<not> available E P"
      show thesis
      proof (rule fail)
        show "resize_environ E P newenv s = Some (None, s1)"
          using False * by (simp add: resize_environ_def)
      qed (use * arr fin in \<open>simp_all add: array_ok_def\<close>)
    qed
  qed
qed

lemma addable_sublist:
  "addable caller ps str r s \<Longrightarrow> set qs \<subseteq> set ps \<Longrightarrow> addable caller qs str r s"
  by (auto simp: addable_def)

lemma env_inv_insert:
  assumes inv: "owned_ok s'" "caller_ok caller s" "ptrs_ok (xs @ ys) s"
    and add: "addable caller (xs @ ys) str r s" "string_at (blocks s) str = Some e"
    and own: "set (owned s') \<subseteq> set (owned s) \<union> ({r} - {Null})"
    and same: "\<And>q. q \<in> set (str # xs @ ys) \<Longrightarrow> string_at (blocks s') q = string_at (blocks s) q"
      "\<And>b. caller b \<noteq> None \<Longrightarrow> blocks s' b = blocks s b"
    and arr: "array_ok (xs @ str # ys) s'" "finite (dom (blocks s'))" "finite (dom (arrays s'))"
  shows "env_inv caller (xs @ str # ys) s' \<and> view (xs @ str # ys) s' = view xs s @ e # view ys s"
proof
  show "env_inv caller (xs @ str # ys) s'"
    unfolding env_inv_def
    using inv(1) caller_ok_mono [OF inv(2) add(1) own same(2)] ptrs_ok_insert [OF inv(3) add(1) own same(1)] arr
    by blast
  show "view (xs @ str # ys) s' = view xs s @ e # view ys s"
    using same(1) add(2) by (simp add: view_def)
qed

lemma putenv_append_result:
  assumes inv: "env_inv caller ps s" and add: "addable caller ps str r s"
    and e: "string_at (blocks s) str = Some e"
  obtains (ok) ps' s' where "putenv_append E P str ps r s = Some (0, s')" "env_inv caller ps' s'"
      "view ps' s' = view ps s @ [e]"
  | (fail) s' where "putenv_append E P str ps r s = Some (-1, s')" "env_inv caller ps s'"
      "view ps s' = view ps s" "\<not> available E P"
proof -
  have ok': "owned_ok s" "caller_ok caller s" "ptrs_ok ps s" "array_ok ps s"
    "finite (dom (blocks s))" "finite (dom (arrays s))"
    using inv by (simp_all add: env_inv_def)
  note addD = addableD [OF add]
  show thesis
  proof (rule resize_environ_result [OF ok'(4,6), of E P "ps @ [str, Null]"])
    fix a s1
    assume *: "resize_environ E P (ps @ [str, Null]) s = Some (Some a, s1)"
      "arrays s1 a = Some (ps @ [str, Null])" "same_strings s s1" "finite (dom (arrays s1))"
    let ?s = "s1\<lparr>environ := Array a, oldenv := Array a\<rparr>"
    have strs: "same_strings s ?s"
      using *(3) by (simp add: same_strings_def)
    note S = same_stringsD [OF strs]
    have "Null \<notin> set (ps @ [str])"
      using ok'(4) addD(3) by (auto simp: array_ok_def)
    then have arr: "array_ok (ps @ [str]) t" if "environ t = Array a" "oldenv t = Array a" "arrays t = arrays s1"
      for t :: "'a environ_libc_scheme"
      using that *(2) by (simp add: array_ok_def)
    have "\<exists>s'. (if r \<noteq> Null then env_rm_add E Null r ?s else Some ?s) = Some s' \<and> owned_ok s' \<and>
        set (owned s') \<subseteq> set (owned s) \<union> ({r} - {Null}) \<and> blocks s' = blocks s \<and>
        environ s' = Array a \<and> oldenv s' = Array a \<and> arrays s' = arrays s1"
    proof (cases "r = Null")
      case True
      then show ?thesis
        using S(1,6,7) ok'(1) by simp
    next
      case False
      have "Null \<notin> set (owned ?s)"
        by (simp add: owned_def)
      moreover have "owned_ok ?s" "r \<notin> set (owned ?s)" "\<exists>b. r = Ptr b 0 \<and> blocks ?s b \<noteq> None"
        using S(1,6,7) ok'(1) addD(1,4) False by simp_all
      ultimately obtain s' where "env_rm_add E Null r ?s = Some s'" "owned_ok s'"
        "set (owned s') \<subseteq> set (owned ?s) \<union> ({r} - {Null})"
        "environ s' = environ ?s" "oldenv s' = oldenv ?s" "arrays s' = arrays ?s" "blocks s' = blocks ?s"
        using env_rm_add_result [of ?s r Null E] False by metis
      then show ?thesis
        using S(6,7) False by auto
    qed
    then obtain s' where s': "(if r \<noteq> Null then env_rm_add E Null r ?s else Some ?s) = Some s'" "owned_ok s'"
        "set (owned s') \<subseteq> set (owned s) \<union> ({r} - {Null})" "blocks s' = blocks s"
        "environ s' = Array a" "oldenv s' = Array a" "arrays s' = arrays s1"
      by blast
    have "env_inv caller (ps @ [str]) s' \<and> view (ps @ [str]) s' = view ps s @ [e]"
      using env_inv_insert [of s' caller s ps "[]" str r e] s'(2-) ok' add e arr [of s'] *(4) by simp
    moreover have "putenv_append E P str ps r s = Some (0, s')"
      using *(1) s'(1) by (simp add: putenv_append_def)
    ultimately show thesis
      using ok by blast
  next
    fix s1
    assume *: "resize_environ E P (ps @ [str, Null]) s = Some (None, s1)" "same_strings s s1"
      "array_ok ps s1" "finite (dom (arrays s1))" "\<not> available E P"
    note S = same_stringsD [OF *(2)]
    have "\<exists>s'. free_block r s1 = Some s' \<and> env_inv caller ps s' \<and> view ps s' = view ps s"
    proof (cases "r = Null")
      case True
      then show ?thesis
        using S *(3,4) ok' by (simp add: free_block_def env_inv_def)
    next
      case False
      then obtain b where b: "r = Ptr b 0" "blocks s b \<noteq> None" "r = str" "caller b = None"
        "\<And>p. p \<in> set ps \<Longrightarrow> block_of p \<noteq> Some b"
        using addD(4) add by (auto simp: addable_def)
      let ?s = "s1\<lparr>blocks := (blocks s1)(b := None)\<rparr>"
      have str: "string_at (blocks ?s) q = string_at (blocks s) q" if "q \<in> set ps" for q
        using b(5) [OF that] by (intro string_at_cong) (auto simp: S(6))
      have own: "owned ?s = owned s"
        using S(7) by (simp add: owned_def)
      have "owned_ok ?s"
        using ok'(1) addD(1) b(1) unfolding owned_ok_def own by (simp add: S(6)) metis
      moreover have "caller_ok caller ?s"
        using ok'(2) b(4) unfolding caller_ok_def own by (auto simp: S(6))
      moreover have "ptrs_ok ps ?s"
        by (rule ptrs_ok_mono [OF ok'(3) _ str]) (simp_all add: own)
      moreover have "array_ok ps ?s"
        using *(3) by (simp add: array_ok_def)
      ultimately have "env_inv caller ps ?s"
        using ok'(5) *(4) S(6) by (simp add: env_inv_def)
      moreover have "free_block r s1 = Some ?s"
        using b S(6) by (simp add: free_block_def)
      moreover have "view ps ?s = view ps s"
        using str by (simp add: view_def)
      ultimately show ?thesis
        by blast
    qed
    then show thesis
      using fail *(1,5) by (auto simp: putenv_append_def)
  qed
qed

lemma view_has_name:
  "(\<forall>q \<in> set ps. \<not> has_name n (the (string_at (blocks s) q))) \<longleftrightarrow> (\<forall>v \<in> set (view ps s). \<not> has_name n v)"
  by (simp add: view_def)

lemma replace_entry:
  assumes inv: "env_inv caller (xs @ p # ys) s" and env: "environ s = Array a"
      "arrays s a = Some (xs @ p # ys @ Null # rest)"
    and add: "addable caller (xs @ p # ys) str r s" "string_at (blocks s) str = Some e"
  obtains s' where "env_rm_add E p r (s\<lparr>arrays := (arrays s)(a \<mapsto> xs @ str # ys @ Null # rest)\<rparr>) = Some s'"
    "env_inv caller (xs @ str # ys) s'" "view (xs @ str # ys) s' = view xs s @ e # view ys s"
proof -
  have ok: "owned_ok s" "caller_ok caller s" "ptrs_ok (xs @ p # ys) s" "array_ok (xs @ p # ys) s"
    "finite (dom (blocks s))" "finite (dom (arrays s))"
    using inv by (simp_all add: env_inv_def)
  note addD = addableD [OF add(1)]
  let ?s = "s\<lparr>arrays := (arrays s)(a \<mapsto> xs @ str # ys @ Null # rest)\<rparr>"
  have strs: "same_strings s ?s"
    by (simp add: same_strings_def)
  note S = same_stringsD [OF strs]
  have p: "p \<noteq> Null"
    using ok(4) by (auto simp: array_ok_def)
  have "p \<noteq> r"
    using addD(5) [of p] p add(1) by (auto simp: addable_def)
  then obtain s' where run: "env_rm_add E p r ?s = Some s'" and ok': "owned_ok s'"
    and own: "set (owned s') \<subseteq> set (owned s) \<union> ({r} - {Null})"
    and same: "environ s' = environ s" "oldenv s' = oldenv s" "arrays s' = arrays ?s"
      "dom (blocks s') \<subseteq> dom (blocks s)"
    and freed: "\<And>b. p \<in> set (owned s) \<Longrightarrow> block_of p \<noteq> Some b \<Longrightarrow> blocks s' b = blocks s b"
      "p \<notin> set (owned s) \<Longrightarrow> blocks s' = blocks s"
    using env_rm_add_result [of ?s r p E] addD(1,4) ok(1) S(1,6,7) by simp metis
  have keep: "blocks s' b = blocks s b" if "p \<in> set (owned s) \<Longrightarrow> block_of p \<noteq> Some b" for b
    using freed that by (cases "p \<in> set (owned s)") auto
  have str: "string_at (blocks s') q = string_at (blocks s) q" if "q \<in> set (str # xs @ ys)" for q
  proof (intro string_at_cong keep)
    fix b assume b: "block_of q = Some b" and p: "p \<in> set (owned s)"
    have "q \<noteq> str \<Longrightarrow> q \<noteq> p"
      using ok(3) p that by (auto simp: ptrs_ok_def)
    moreover have "q \<noteq> str \<Longrightarrow> block_of q = block_of p \<Longrightarrow> q = p"
      using ptrs_ok_unique [OF ok(3) _ p, of q] that by auto
    moreover have "block_of p \<noteq> block_of str"
      using add(1) p by (auto simp: addable_def)
    ultimately show "block_of p \<noteq> Some b"
      using b by (cases "q = str") auto
  qed
  have caller: "blocks s' b = blocks s b" if "caller b \<noteq> None" for b
  proof (rule keep)
    assume "p \<in> set (owned s)"
    moreover from this obtain c where "p = Ptr c 0"
      using ok(1) by (auto simp: owned_ok_def)
    ultimately show "block_of p \<noteq> Some b"
      using ok(2) that by (auto simp: caller_ok_def)
  qed
  have "array_ok (xs @ str # ys) s'"
    using ok(4) env addD(3) same(1-3) by (auto simp: array_ok_def)
  moreover have "addable caller (xs @ ys) str r s"
    by (rule addable_sublist [OF add(1)]) auto
  moreover have "ptrs_ok (xs @ ys) s"
    using ptrs_ok_sublist [of xs "[p]" ys] ok(3) by simp
  moreover have "finite (dom (blocks s'))" "finite (dom (arrays s'))"
    using same(3,4) ok(5,6) by (auto intro: finite_subset)
  ultimately have "env_inv caller (xs @ str # ys) s' \<and> view (xs @ str # ys) s' = view xs s @ e # view ys s"
    using env_inv_insert [OF ok' ok(2) _ _ add(2) own str caller] by blast
  then show thesis
    using that [OF run] by blast
qed

lemma putenv_at_result:
  assumes inv: "env_inv caller ps s" and add: "addable caller ps str r s"
    and e: "string_at (blocks s) str = Some (entry_of n w)" and n: "0 \<notin> set n" "0 \<notin> set w"
  obtains (ok) ps' s' where "putenv_at E P str (length n) r s = Some (Returned (0, s'))" "env_inv caller ps' s'"
      "view ps' s' = put_var n (entry_of n w) (view ps s)"
  | (fail) s' where "putenv_at E P str (length n) r s = Some (Returned (-1, s'))" "env_inv caller ps s'"
      "view ps s' = view ps s" "\<not> available E P"
proof -
  have arr: "array_ok ps s" and strs: "\<forall>p \<in> set ps. string_at (blocks s) p \<noteq> None"
    using inv by (simp_all add: env_inv_def ptrs_ok_def)
  have append: thesis if run: "putenv_at E P str (length n) r s = do { x \<leftarrow> putenv_append E P str ps r s; Some (Returned x) }"
    and none: "\<forall>v \<in> set (view ps s). \<not> has_name n v"
    using putenv_append_result [OF inv add e, of E P thesis] run ok fail put_var_absent [OF none, of "entry_of n w"]
    by auto
  show thesis
  proof (cases "environ s = Nullenv")
    case True
    then have "ps = []"
      using arr by (auto simp: array_ok_def)
    then show thesis
      using append True by (simp add: putenv_at_def with_environ_ready)
  next
    case False
    obtain rest where rest: "array_of (environ s) s = Some (ps @ Null # rest)"
      "environ s = Empty_environ \<Longrightarrow> ps = [] \<and> rest = []"
      using array_ok_array [OF arr False] by blast
    from strs n show thesis
    proof (rule putenv_scan_result [where rest = rest and k = 0])
      fix xs p ys
      assume *: "ps = xs @ p # ys"
        "putenv_scan (blocks s) (entry_of n w) (length n) (ps @ Null # rest) 0 = Some (0 + length xs, True)"
        "\<forall>q \<in> set xs. \<not> has_name n (the (string_at (blocks s) q))" "has_name n (the (string_at (blocks s) p))"
      then obtain a where a: "environ s = Array a" "arrays s a = Some (xs @ p # ys @ Null # rest)"
        using rest False array_ok_ready [OF arr] by (cases "environ s") (auto simp: array_of_def)
      obtain s' where s': "env_rm_add E p r (s\<lparr>arrays := (arrays s)(a \<mapsto> xs @ str # ys @ Null # rest)\<rparr>) = Some s'"
        "env_inv caller (xs @ str # ys) s'" "view (xs @ str # ys) s' = view xs s @ entry_of n w # view ys s"
        by (rule replace_entry [OF inv [unfolded *(1)] a add [unfolded *(1)] e])
      have "putenv_at E P str (length n) r s = Some (Returned (0, s'))"
        using False rest(1) e *(1,2) a s'(1) array_ok_ready [OF arr]
        by (simp add: putenv_at_def with_environ_ready nth_append list_update_append)
      moreover have "view (xs @ str # ys) s' = put_var n (entry_of n w) (view ps s)"
        using put_var_found [OF _ *(4), of "view xs s" "entry_of n w" "view ys s"] *(1,3) s'(3)
        by (simp add: view_has_name)
      ultimately show thesis
        using ok s'(2) by blast
    next
      assume *: "putenv_scan (blocks s) (entry_of n w) (length n) (ps @ Null # rest) 0 = Some (0 + length ps, False)"
        "\<forall>q \<in> set ps. \<not> has_name n (the (string_at (blocks s) q))"
      have "putenv_at E P str (length n) r s = do { x \<leftarrow> putenv_append E P str ps r s; Some (Returned x) }"
        using False rest(1) e *(1) array_ok_ready [OF arr] by (simp add: putenv_at_def with_environ_ready)
      then show thesis
        using *(2) append by (simp add: view_has_name)
    qed
  qed
qed

text \<open>A new block.\<close>

lemma new_block_result:
  assumes "finite (dom (blocks s))"
  obtains (ok) b s' where "new_block E P n s = (Some b, s')" "blocks s b = None"
      "blocks s' = (blocks s)(b \<mapsto> [])" "env_alloced s' = env_alloced s" "environ s' = environ s"
      "oldenv s' = oldenv s" "arrays s' = arrays s"
  | (fail) s' where "new_block E P n s = (None, s')" "blocks s' = blocks s" "env_alloced s' = env_alloced s"
      "environ s' = environ s" "oldenv s' = oldenv s" "arrays s' = arrays s" "\<not> available E P"
proof (rule alloc_result [of E n s])
  assume a: "alloc E n s = (True, s\<lparr>allocs := Suc (allocs s)\<rparr>)"
  show thesis
  proof (cases "blocks s (place_block P (blocks s)) = None")
    case True
    with a have "new_block E P n s = (Some (place_block P (blocks s)),
        s\<lparr>allocs := Suc (allocs s), blocks := (blocks s)(place_block P (blocks s) \<mapsto> [])\<rparr>)"
      by (simp add: new_block_def Let_def)
    from ok [OF this True] show thesis
      by simp
  next
    case False
    then have "\<not> available E P"
      using assms by (auto simp: available_def)
    moreover from False a have "new_block E P n s = (None, s\<lparr>allocs := Suc (allocs s)\<rparr>)"
      by (simp add: new_block_def Let_def)
    ultimately show thesis
      using fail by simp
  qed
next
  fix e assume a: "alloc E n s = (False, s\<lparr>allocs := Suc (allocs s), errno := e\<rparr>)"
  then have "\<not> available E P"
    using alloc_available [of E n s] by (auto simp: available_def)
  moreover from a have "new_block E P n s = (None, s\<lparr>allocs := Suc (allocs s), errno := e\<rparr>)"
    by (simp add: new_block_def)
  ultimately show thesis
    using fail by simp
qed

lemma block_added:
  assumes ok: "owned_ok s" "caller_ok caller s"
    and new: "blocks s b = None" "blocks s' = (blocks s)(b \<mapsto> bytes)" "env_alloced s' = env_alloced s"
  shows "owned_ok s'" "caller_ok caller s'" "caller b = None" "owned s' = owned s"
    "\<And>q. q \<in> set (owned s) \<Longrightarrow> block_of q \<noteq> Some b"
    "\<And>p. string_at (blocks s) p \<noteq> None \<Longrightarrow>
       block_of p \<noteq> Some b \<and> string_at (blocks s') p = string_at (blocks s) p"
proof -
  show own: "owned s' = owned s"
    using new(3) by (simp add: owned_def)
  show "owned_ok s'"
    using ok(1) unfolding owned_ok_def own by (simp add: new(2)) metis
  show c: "caller b = None"
    using ok(2) new(1) by (auto simp: caller_ok_def)
  show "caller_ok caller s'"
    using ok(2) c unfolding caller_ok_def own by (auto simp: new(2))
  show "block_of q \<noteq> Some b" if "q \<in> set (owned s)" for q
    using ok(1) new(1) that by (auto simp: owned_ok_def)
  fix p assume "string_at (blocks s) p \<noteq> None"
  then have "block_of p \<noteq> Some b"
    using new(1) by (auto simp: string_at_Some)
  then show "block_of p \<noteq> Some b \<and> string_at (blocks s') p = string_at (blocks s) p"
    by (auto intro!: string_at_cong simp: new(2))
qed

lemma env_inv_block_added:
  assumes inv: "env_inv caller ps s" and new: "blocks s b = None"
    "blocks s' = (blocks s)(b \<mapsto> str @ [0])" "env_alloced s' = env_alloced s"
    and same: "environ s' = environ s" "oldenv s' = oldenv s" "arrays s' = arrays s" and str: "0 \<notin> set str"
  shows "env_inv caller ps s'" "view ps s' = view ps s" "addable caller ps (Ptr b 0) (Ptr b 0) s'"
    "string_at (blocks s') (Ptr b 0) = Some str"
proof -
  have ok: "owned_ok s" "caller_ok caller s" "ptrs_ok ps s" "array_ok ps s"
    using inv by (simp_all add: env_inv_def)
  note B = block_added [OF ok(1,2) new]
  have ps: "block_of p \<noteq> Some b \<and> string_at (blocks s') p = string_at (blocks s) p" if "p \<in> set ps" for p
    using B(6) [of p] ok(3) that by (simp add: ptrs_ok_def)
  have "ptrs_ok ps s'"
    by (rule ptrs_ok_mono [OF ok(3)]) (use ps B(4) in simp_all)
  moreover have "array_ok ps s'"
    using ok(4) same by (simp add: array_ok_def)
  ultimately show "env_inv caller ps s'"
    using inv B(1,2) same(3) new(2) by (simp add: env_inv_def)
  show "view ps s' = view ps s"
    using ps by (simp add: view_def)
  show *: "string_at (blocks s') (Ptr b 0) = Some str"
    using str by (simp add: string_at_def new(2) takeWhile_tail takeWhile_absent)
  show "addable caller ps (Ptr b 0) (Ptr b 0) s'"
    using B(3,5) * ps by (simp add: addable_def B(4))
qed

lemma addable_caller:
  assumes "env_inv caller ps s" and "string_at caller str = Some e"
  shows "addable caller ps str Null s" "string_at (blocks s) str = Some e"
proof -
  obtain b i where b: "str = Ptr b i" "caller b \<noteq> None"
    using assms(2) by (auto simp: string_at_Some)
  have same: "blocks s b = caller b" and own: "Ptr b 0 \<notin> set (owned s)"
    using assms(1) b(2) by (simp_all add: env_inv_def caller_ok_def)
  show *: "string_at (blocks s) str = Some e"
    using assms(2) same by (simp add: b(1) string_at_def)
  have "block_of q \<noteq> Some b" if "q \<in> set (owned s)" for q
    using assms(1) own that by (auto simp: env_inv_def owned_ok_def)
  then show "addable caller ps str Null s"
    using * by (simp add: addable_def b(1))
qed

section \<open>Initialisation\<close>

text \<open>
  What the interface promises: the sizes, the strings with their terminators one after the
  other, and the address of each.
\<close>

definition host_buffer :: "u8 list list \<Rightarrow> u8 list" where
  "host_buffer vs = concat (map (\<lambda>v. v @ [0]) vs)"

fun host_offsets :: "nat \<Rightarrow> u8 list list \<Rightarrow> size_t list" where
  "host_offsets k [] = []"
| "host_offsets k (v # vs) = of_nat k # host_offsets (k + length v + 1) vs"

definition host_strings :: "env \<Rightarrow> wasi_call \<Rightarrow> wasi_call \<Rightarrow> u8 list list \<Rightarrow> bool" where
  "host_strings E sizes_get get vs \<longleftrightarrow>
     (\<forall>v \<in> set vs. 0 \<notin> set v) \<and> length vs < 2 ^ 29 \<and> length (host_buffer vs) < 2 ^ 32 \<and>
     (\<forall>h. status (host E h sizes_get) = 0 \<and> size_out (host E h sizes_get) = of_nat (length vs) \<and>
          size2_out (host E h sizes_get) = of_nat (length (host_buffer vs)) \<and>
          status (host E h get) = 0 \<and> bytes_out (host E h get) = host_buffer vs \<and>
          ptrs_out (host E h get) = host_offsets 0 vs)"

lemma length_host_offsets [simp]: "length (host_offsets k vs) = length vs"
  by (induction vs arbitrary: k) simp_all

lemma host_offsets_strings:
  assumes "m b = Some (pre @ host_buffer vs)" and "\<forall>v \<in> set vs. 0 \<notin> set v"
    and "length pre + length (host_buffer vs) < 2 ^ 32"
  shows "map (\<lambda>i. string_at m (Ptr b (unat i))) (host_offsets (length pre) vs) = map Some vs"
  using assms
proof (induction vs arbitrary: pre)
  case (Cons v vs)
  have "unat (of_nat (length pre) :: size_t) = length pre"
    using Cons.prems(3) by (simp add: host_buffer_def unat_of_nat)
  moreover have "string_at m (Ptr b (length pre)) = Some v"
    using Cons.prems(1,2) by (auto simp: string_at_def host_buffer_def takeWhile_tail takeWhile_absent)
  moreover have "map (\<lambda>i. string_at m (Ptr b (unat i))) (host_offsets (length (pre @ v @ [0])) vs) = map Some vs"
    using Cons.prems by (intro Cons.IH) (simp_all add: host_buffer_def)
  ultimately show ?case
    by simp
qed simp

definition start_inv :: "(nat \<Rightarrow> u8 list option) \<Rightarrow> 'a environ_libc_scheme \<Rightarrow> bool" where
  "start_inv caller s \<longleftrightarrow> environ s = Uninit \<and> owned_ok s \<and> caller_ok caller s \<and>
     (oldenv s = Nullenv \<or> (\<exists>a. oldenv s = Array a \<and> arrays s a \<noteq> None)) \<and>
     finite (dom (blocks s)) \<and> finite (dom (arrays s))"

definition host_ptrs :: "nat \<Rightarrow> u8 list list \<Rightarrow> cptr list" where
  "host_ptrs b vs = map (\<lambda>i. Ptr b (unat i)) (host_offsets 0 vs)"

lemma host_strings_size:
  assumes "host_strings E c d vs"
  shows "unat (of_nat (length vs) + 1 :: size_t) = length vs + 1"
    "unat (of_nat (length (host_buffer vs)) :: size_t) = length (host_buffer vs)"
    "of_nat (length vs) = (0 :: size_t) \<longleftrightarrow> vs = []"
proof -
  have *: "unat (of_nat n :: size_t) = n" if "n < 2 ^ 32" for n
    using that by (simp add: unat_of_nat)
  have "length vs < 2 ^ 29"
    using assms by (simp add: host_strings_def)
  then show "unat (of_nat (length vs) + 1 :: size_t) = length vs + 1"
    using * [of "length vs + 1"] by (simp add: add.commute)
  show "unat (of_nat (length (host_buffer vs)) :: size_t) = length (host_buffer vs)"
    using assms by (intro *) (simp add: host_strings_def)
  show "of_nat (length vs) = (0 :: size_t) \<longleftrightarrow> vs = []"
  proof
    assume "of_nat (length vs) = (0 :: size_t)"
    moreover have "unat (of_nat (length vs) :: size_t) = length vs"
      using \<open>length vs < 2 ^ 29\<close> by (intro *) simp
    ultimately show "vs = []"
      by simp
  qed simp
qed

lemma fill_pointers_host:
  assumes "host_strings E c d vs"
  shows "fill_pointers b a (of_nat (length vs) + 1) (of_nat (length (host_buffer vs)))
      (host_offsets 0 vs) (host_buffer vs) s =
    Some (s\<lparr>blocks := (blocks s)(b \<mapsto> host_buffer vs), arrays := (arrays s)(a \<mapsto> host_ptrs b vs @ [Null])\<rparr>)"
  using host_strings_size [OF assms] by (simp add: fill_pointers_def host_ptrs_def)

lemma host_ptrs_view:
  assumes "host_strings E c d vs" and "m b = Some (host_buffer vs)"
  shows "map (string_at m) (host_ptrs b vs) = map Some vs"
  using host_offsets_strings [of m b "[]" vs] assms by (simp add: host_strings_def host_ptrs_def o_def)

text \<open>
  The pointers the host has set reach into a new block, which is not owned.
\<close>

lemma host_ptrs_inv:
  assumes host: "host_strings E c d vs" and ok: "owned_ok s" "caller_ok caller s"
    and old: "oldenv s = Nullenv \<or> (\<exists>a. oldenv s = Array a \<and> arrays s a \<noteq> None)"
    and fin: "finite (dom (blocks s))" "finite (dom (arrays s))"
    and new: "blocks s b = None" "blocks s' = (blocks s)(b \<mapsto> host_buffer vs)" "env_alloced s' = env_alloced s"
    and same: "oldenv s' = oldenv s" "environ s' = Array a" "arrays s' = (arrays s)(a \<mapsto> host_ptrs b vs @ [Null])"
  shows "env_inv caller (host_ptrs b vs) s' \<and> view (host_ptrs b vs) s' = vs"
proof
  note B = block_added [OF ok new]
  have blk: "block_of p = Some b" if "p \<in> set (host_ptrs b vs)" for p
    using that by (auto simp: host_ptrs_def)
  have strs: "map (string_at (blocks s')) (host_ptrs b vs) = map Some vs"
    using host_ptrs_view [OF host] new(2) by simp
  then have "\<forall>p \<in> set (host_ptrs b vs). string_at (blocks s') p \<noteq> None"
    by (metis (no_types, lifting) imageE image_eqI list.set_map option.distinct(1))
  moreover have "p \<notin> set (owned s)" if "p \<in> set (host_ptrs b vs)" for p
    using B(5) blk [OF that] by blast
  then have "filter (\<lambda>p. p \<in> set (owned s)) (host_ptrs b vs) = []"
    by (simp add: filter_empty_conv)
  moreover have "\<forall>p \<in> set (host_ptrs b vs). \<forall>q \<in> set (owned s). block_of p = block_of q \<longrightarrow> p = q"
    using B(5) blk by metis
  ultimately have "ptrs_ok (host_ptrs b vs) s'"
    by (simp add: ptrs_ok_def B(4))
  moreover have "array_ok (host_ptrs b vs) s'"
    using old same by (auto simp: array_ok_def host_ptrs_def)
  ultimately show "env_inv caller (host_ptrs b vs) s'"
    using B(1,2) fin new(2) same(3) by (simp add: env_inv_def)
  show "view (host_ptrs b vs) s' = vs"
    using arg_cong [OF strs, of "map the"] by (simp add: view_def o_def)
qed

abbreviation environ_host :: "env \<Rightarrow> u8 list list \<Rightarrow> bool" where
  "environ_host E \<equiv> host_strings E Call_environ_sizes_get Call_environ_get"

lemma initialize_result:
  assumes host: "environ_host E vs" and start: "start_inv caller s"
  obtains (ok) ps s' where "initialize_environ E P s = Some (Returned s')" "env_inv caller ps s'"
      "view ps s' = vs" "owned s' = owned s" "\<And>b. blocks s b \<noteq> None \<Longrightarrow> blocks s' b = blocks s b"
      "\<And>p b. p \<in> set ps \<Longrightarrow> blocks s b \<noteq> None \<Longrightarrow> block_of p \<noteq> Some b"
  | (exit) "initialize_environ E P s = Some (Exited EX_SOFTWARE)" "\<not> available E P"
proof -
  have st: "owned_ok s" "caller_ok caller s" "finite (dom (blocks s))" "finite (dom (arrays s))"
    "oldenv s = Nullenv \<or> (\<exists>a. oldenv s = Array a \<and> arrays s a \<noteq> None)"
    using start by (simp_all add: start_inv_def)
  let ?n = "of_nat (length vs) + 1 :: size_t"
  let ?m = "of_nat (length (host_buffer vs)) :: size_t"
  define s1 where "s1 = s\<lparr>calls := calls s @ [Call_environ_sizes_get]\<rparr>"
  have sizes: "wasi_environ_sizes_get E s = (0, of_nat (length vs), ?m, s1)"
    using host by (simp add: wasi_defs call_host_def host_strings_def s1_def)
  note size = host_strings_size [OF host]
  have n0: "?n \<noteq> 0"
    using size(1) by (metis add_is_0 one_neq_zero unsigned_0)
  have small: "\<not> 2 ^ 32 \<le> unat ?n * 4"
    using size(1) host by (simp add: host_strings_def)
  have s1: "blocks s1 = blocks s" "arrays s1 = arrays s" "env_alloced s1 = env_alloced s" "oldenv s1 = oldenv s"
    by (simp_all add: s1_def)
  show thesis
  proof (cases "vs = []")
    case True
    let ?s = "s1\<lparr>environ := Empty_environ\<rparr>"
    have init: "initialize_environ E P s = Some (Returned ?s)"
      using sizes True by (simp add: initialize_environ_def)
    have own: "owned ?s = owned s"
      by (simp add: owned_def s1)
    have "env_inv caller [] ?s"
      using st by (simp add: env_inv_def owned_ok_def caller_ok_def ptrs_ok_def array_ok_def own s1)
    then show thesis
      using ok [OF init, of "[]"] True own s1 by simp
  next
    case False
    show thesis
    proof (rule new_block_result [of s1 E P ?m])
      show "finite (dom (blocks s1))"
        using st(3) s1 by simp
    next
      fix s2 assume "new_block E P ?m s1 = (None, s2)" "\<not> available E P"
      then show thesis
        using sizes False size(3) n0 exit by (simp add: initialize_environ_def exit_now_def wasi_proc_exit_def)
    next
      fix b s2
      assume b: "new_block E P ?m s1 = (Some b, s2)" "blocks s1 b = None" "blocks s2 = (blocks s1)(b \<mapsto> [])"
        "env_alloced s2 = env_alloced s1" "oldenv s2 = oldenv s1" "arrays s2 = arrays s1"
      let ?ps = "replicate (unat ?n) Null"
      show thesis
      proof (rule new_array_result [of s2 E P "?n * 4" ?ps])
        show "finite (dom (arrays s2))"
          using st(4) s1 b by simp
      next
        fix s3 assume "new_array E P (?n * 4) ?ps s2 = (None, s3)" "\<not> available E P"
        then show thesis
          using sizes False size(3) n0 small b(1) exit
          by (simp add: initialize_environ_def exit_now_def wasi_proc_exit_def)
      next
        fix a s3
        assume a: "new_array E P (?n * 4) ?ps s2 = (Some a, s3)" "arrays s3 = (arrays s2)(a \<mapsto> ?ps)"
          "same_strings s2 s3" "oldenv s3 = oldenv s2"
        define s4 where "s4 = s3\<lparr>calls := calls s3 @ [Call_environ_get],
            blocks := (blocks s3)(b \<mapsto> host_buffer vs), arrays := (arrays s3)(a \<mapsto> host_ptrs b vs @ [Null]),
            environ := Array a\<rparr>"
        have "wasi_environ_get E s3 = (0, host_offsets 0 vs, host_buffer vs,
            s3\<lparr>calls := calls s3 @ [Call_environ_get]\<rparr>)"
          using host by (simp add: wasi_defs call_host_def host_strings_def)
        then have init: "initialize_environ E P s = Some (Returned s4)"
          using sizes False size(3) n0 small b(1) a(1)
          by (simp add: initialize_environ_def s4_def fill_pointers_host [OF host])
        have blocks: "blocks s4 = (blocks s)(b \<mapsto> host_buffer vs)" "env_alloced s4 = env_alloced s"
          using a(3) b(3,4) s1 by (simp_all add: s4_def same_strings_def)
        have "env_inv caller (host_ptrs b vs) s4 \<and> view (host_ptrs b vs) s4 = vs"
          using st(4) b(2,5,6) s1 a(2,4) blocks
          by (intro host_ptrs_inv [OF host st(1,2,5,3,4)]) (simp_all add: s4_def)
        moreover have "owned s4 = owned s"
          using blocks(2) by (simp add: owned_def)
        moreover have "blocks s4 c = blocks s c" if "blocks s c \<noteq> None" for c
          using that b(2) s1 blocks(1) by auto
        moreover have "block_of p \<noteq> Some c" if "p \<in> set (host_ptrs b vs)" "blocks s c \<noteq> None" for p c
          using that b(2) s1 by (auto simp: host_ptrs_def)
        ultimately show thesis
          using ok [OF init, of "host_ptrs b vs"] by blast
      qed
    qed
  qed
qed

end
