(* ===== verification/Environ_Calls.thy ===== *)
theory Environ_Calls
  imports Environ_Ops
begin

text \<open>
  The environment as its callers see it: sequences of calls, from the first one that fetches
  the variables from the host, refine operations on a list of variables.
\<close>

section \<open>Calls\<close>

datatype env_call =
    Getenv "u8 list"
  | Setenv "u8 list" "u8 list" c_int
  | Unsetenv "u8 list"
  | Putenv cptr
  | Clearenv

datatype env_result = Code c_int | Value "u8 list option"

text \<open>The value of a variable is read when \<open>getenv\<close> returns.\<close>

definition with_code ::
  "(c_int \<times> 's) outcome option \<Rightarrow> (env_result \<times> 's) outcome option" where
  "with_code r = do {
     x \<leftarrow> r;
     Some (case x of Exited c \<Rightarrow> Exited c | Returned (n, s) \<Rightarrow> Returned (Code n, s)) }"

fun do_call :: "env \<Rightarrow> placement \<Rightarrow> env_call \<Rightarrow> 'a environ_libc_scheme \<Rightarrow>
    (env_result \<times> 'a environ_libc_scheme) outcome option" where
  "do_call E P (Getenv n) s = do {
     r \<leftarrow> getenv E P n s;
     Some (case r of Exited c \<Rightarrow> Exited c
       | Returned (p, s) \<Rightarrow> Returned (Value (string_at (blocks s) p), s)) }"
| "do_call E P (Setenv n v ow) s = with_code (setenv E P (Some n) v ow s)"
| "do_call E P (Unsetenv n) s = with_code (unsetenv E P n s)"
| "do_call E P (Putenv str) s = with_code (putenv E P str s)"
| "do_call E P Clearenv s = with_code (clearenv E P s)"

fun run_env :: "env \<Rightarrow> placement \<Rightarrow> env_call list \<Rightarrow> 'a environ_libc_scheme \<Rightarrow>
    (env_result list \<times> 'a environ_libc_scheme) outcome option" where
  "run_env E P [] s = Some (Returned ([], s))"
| "run_env E P (c # cs) s = do {
     r \<leftarrow> do_call E P c s;
     case r of
       Exited n \<Rightarrow> Some (Exited n)
     | Returned (x, s) \<Rightarrow> do {
         r \<leftarrow> run_env E P cs s;
         Some (case r of Exited n \<Rightarrow> Exited n | Returned (xs, s) \<Rightarrow> Returned (x # xs, s)) } }"

text \<open>What a call promises: its result, and the new variables.\<close>

definition name_of :: "u8 list \<Rightarrow> u8 list" where
  "name_of v = takeWhile (\<lambda>c. c \<noteq> EQ) v"

fun spec_call :: "(nat \<Rightarrow> u8 list option) \<Rightarrow> env_call \<Rightarrow> u8 list list \<Rightarrow> env_result \<times> u8 list list" where
  "spec_call caller (Getenv n) vs = (Value (lookup_var n vs), vs)"
| "spec_call caller (Setenv n v ow) vs =
     (Code 0, if ow = 0 \<and> lookup_var n vs \<noteq> None then vs else put_var n (entry_of n v) vs)"
| "spec_call caller (Unsetenv n) vs = (Code 0, remove_var n vs)"
| "spec_call caller (Putenv str) vs =
     (Code 0, let v = the (string_at caller str) in put_var (name_of v) v vs)"
| "spec_call caller Clearenv vs = (Code 0, [])"

fun spec_run :: "(nat \<Rightarrow> u8 list option) \<Rightarrow> env_call list \<Rightarrow> u8 list list \<Rightarrow> env_result list" where
  "spec_run caller [] vs = []"
| "spec_run caller (c # cs) vs = (let (x, vs) = spec_call caller c vs in x # spec_run caller cs vs)"

text \<open>
  A call may instead fail for lack of memory; it then returns \<open>-1\<close> and changes nothing.
\<close>

fun admitted :: "(nat \<Rightarrow> u8 list option) \<Rightarrow> env_call list \<Rightarrow> env_result list \<Rightarrow> u8 list list \<Rightarrow> bool" where
  "admitted caller [] [] vs = True"
| "admitted caller (c # cs) (x # xs) vs =
     (let (x', vs') = spec_call caller c vs
      in x = x' \<and> admitted caller cs xs vs' \<or> x = Code (-1) \<and> admitted caller cs xs vs)"
| "admitted caller _ _ vs = False"

fun call_ok :: "(nat \<Rightarrow> u8 list option) \<Rightarrow> env_call \<Rightarrow> bool" where
  "call_ok caller (Getenv n) = valid_name n"
| "call_ok caller (Setenv n v ow) = (valid_name n \<and> 0 \<notin> set v)"
| "call_ok caller (Unsetenv n) = valid_name n"
| "call_ok caller (Putenv str) = (case string_at caller str of
      None \<Rightarrow> False | Some v \<Rightarrow> EQ \<in> set v \<and> name_of v \<noteq> [])"
| "call_ok caller Clearenv = True"

section \<open>One call\<close>

text \<open>The variables before the first call are those of the host.\<close>

definition ready :: "env \<Rightarrow> (nat \<Rightarrow> u8 list option) \<Rightarrow> u8 list list \<Rightarrow> 'a environ_libc_scheme \<Rightarrow> bool" where
  "ready E caller vs s \<longleftrightarrow>
     environ_host E vs \<and> start_inv caller s \<or> (\<exists>ps. env_inv caller ps s \<and> view ps s = vs)"

lemma readyI: "env_inv caller ps s \<Longrightarrow> view ps s = vs \<Longrightarrow> ready E caller vs s"
  by (auto simp: ready_def)

lemma env_inv_ready: "env_inv caller ps s \<Longrightarrow> environ s \<noteq> Uninit"
  using array_ok_ready by (auto simp: env_inv_def)

lemma ensure_result:
  assumes "ready E caller vs s"
  obtains (ok) ps s' where "ensure_environ E P s = Some (Returned s')" "env_inv caller ps s'" "view ps s' = vs"
  | (exit) "ensure_environ E P s = Some (Exited EX_SOFTWARE)" "\<not> available E P"
proof -
  from assms consider "environ_host E vs" "start_inv caller s"
    | ps where "env_inv caller ps s" "view ps s = vs"
    by (auto simp: ready_def)
  then show thesis
  proof cases
    case 1
    have init: "ensure_environ E P s = initialize_environ E P s"
      using 1(2) by (simp add: ensure_environ_def start_inv_def)
    from 1 show thesis
      by (rule initialize_result [where P = P]) (use ok exit init in auto)
  next
    case 2
    then show thesis
      using ok env_inv_ready [OF 2(1)] by (simp add: ensure_environ_def)
  qed
qed

lemma with_environ_ensured:
  assumes "ensure_environ E P s = Some (Returned s')" and "environ s' \<noteq> Uninit"
  shows "with_environ E P k s = with_environ E P k s'"
  using assms by (simp add: with_environ_def ensure_environ_def [of E P s'])

lemma with_environ_exit:
  "ensure_environ E P s = Some (Exited c) \<Longrightarrow> with_environ E P k s = Some (Exited c)"
  by (simp add: with_environ_def)

text \<open>The outcomes a call may have.\<close>

definition call_result ::
  "env \<Rightarrow> placement \<Rightarrow> (nat \<Rightarrow> u8 list option) \<Rightarrow> (env_result \<times> 'a environ_libc_scheme) outcome option \<Rightarrow>
   env_result \<times> u8 list list \<Rightarrow> u8 list list \<Rightarrow> bool" where
  "call_result E P caller r spec vs \<longleftrightarrow>
     (\<exists>x s' vs'. r = Some (Returned (x, s')) \<and> ready E caller vs' s' \<and>
        ((x, vs') = spec \<or> x = Code (-1) \<and> vs' = vs \<and> \<not> available E P)) \<or>
     r = Some (Exited EX_SOFTWARE) \<and> \<not> available E P"

lemma call_resultI:
  assumes "r = Some (Returned (x, s'))" and "env_inv caller ps s'"
    and "(x, view ps s') = spec \<or> x = Code (-1) \<and> view ps s' = vs \<and> \<not> available E P"
  shows "call_result E P caller r spec vs"
  using assms readyI [OF assms(2) refl] unfolding call_result_def by blast

lemma ensured_call:
  assumes "ready E caller vs s" and "\<And>s. r s = with_environ E P k s"
    and "\<And>s ps. env_inv caller ps s \<Longrightarrow> view ps s = vs \<Longrightarrow> call_result E P caller (f (r s)) spec vs"
    and "f (Some (Exited EX_SOFTWARE)) = Some (Exited EX_SOFTWARE)"
  shows "call_result E P caller (f (r s)) spec vs"
  using assms(1)
proof (cases rule: ensure_result [where P = P])
  case (ok ps s')
  then have "r s = r s'"
    using assms(2) with_environ_ensured env_inv_ready by metis
  with assms(3) [OF ok(2,3)] show ?thesis
    by simp
next
  case exit
  then have "r s = Some (Exited EX_SOFTWARE)"
    by (simp add: assms(2) with_environ_exit)
  with exit(2) assms(4) show ?thesis
    by (simp add: call_result_def)
qed

lemma with_code_simps [simp]:
  "with_code (Some (Exited c)) = Some (Exited c)"
  "with_code (Some (Returned (n, s))) = Some (Returned (Code n, s))"
  by (simp_all add: with_code_def)

lemma getenv_call:
  assumes "ready E caller vs s" and "valid_name n"
  shows "call_result E P caller (do_call E P (Getenv n) s) (Value (lookup_var n vs), vs) vs"
proof -
  let ?f = "\<lambda>r. do { r \<leftarrow> r; Some (case r of Exited c \<Rightarrow> Exited c
       | Returned (p, s) \<Rightarrow> Returned (Value (string_at (blocks s) p), s)) }"
  have "call_result E P caller (?f (getenv E P n s)) (Value (lookup_var n vs), vs) vs"
  proof (rule ensured_call [where f = ?f and r = "getenv E P n", OF assms(1)])
    fix t ps assume t: "env_inv caller ps t" "view ps t = vs"
    obtain p where "getenv E P n t = Some (Returned (p, t))"
      "case lookup_var n (view ps t) of None \<Rightarrow> p = Null | Some v \<Rightarrow> string_at (blocks t) p = Some v"
      by (rule getenv_result [OF t(1) assms(2)])
    then have "?f (getenv E P n t) = Some (Returned (Value (lookup_var n vs), t))"
      using t(2) by (auto simp: string_at_def split: option.splits)
    then show "call_result E P caller (?f (getenv E P n t)) (Value (lookup_var n vs), vs) vs"
      using call_resultI [OF _ t(1)] t(2) by blast
  qed (simp_all add: getenv_def)
  then show ?thesis
    by simp
qed

lemma unsetenv_call:
  assumes "ready E caller vs s" and "valid_name n"
  shows "call_result E P caller (do_call E P (Unsetenv n) s) (Code 0, remove_var n vs) vs"
proof -
  have n: "strchrnul n EQ = length n" "n \<noteq> []"
    using assms(2) by (simp_all add: valid_name_def)
  have "call_result E P caller (with_code (unsetenv E P n s)) (Code 0, remove_var n vs) vs"
  proof (rule ensured_call [where f = with_code and r = "unsetenv E P n", OF assms(1)])
    fix t ps assume t: "env_inv caller ps t" "view ps t = vs"
    obtain ps' t' where "unsetenv E P n t = Some (Returned (0, t'))" "env_inv caller ps' t'"
      "view ps' t' = remove_var n (view ps t)"
      by (rule unsetenv_result [OF t(1) assms(2)])
    then show "call_result E P caller (with_code (unsetenv E P n t)) (Code 0, remove_var n vs) vs"
      using call_resultI t(2) by (metis with_code_simps(2))
  qed (use n in \<open>auto simp: unsetenv_def\<close>)
  then show ?thesis
    by simp
qed

lemma clearenv_call:
  assumes "ready E caller vs s"
  shows "call_result E P caller (do_call E P Clearenv s) (Code 0, []) vs"
proof -
  have "call_result E P caller (with_code (clearenv E P s)) (Code 0, []) vs"
  proof (rule ensured_call [where f = with_code and r = "clearenv E P", OF assms(1)])
    fix t ps assume t: "env_inv caller ps t" "view ps t = vs"
    obtain t' where "clearenv E P t = Some (Returned (0, t'))" "env_inv caller [] t'"
      by (rule clearenv_result [OF t(1)])
    then show "call_result E P caller (with_code (clearenv E P t)) (Code 0, []) vs"
      using call_resultI by (metis with_code_simps(2) view_Nil)
  qed (simp_all add: clearenv_def)
  then show ?thesis
    by simp
qed

text \<open>Adding an entry once the string is in place.\<close>

lemma putenv_at_call:
  assumes "env_inv caller ps s" and "addable caller ps str r s"
    and "string_at (blocks s) str = Some (entry_of n w)" and "valid_name n" "0 \<notin> set w"
  shows "call_result E P caller (with_code (putenv_at E P str (length n) r s))
    (Code 0, put_var n (entry_of n w) (view ps s)) (view ps s)"
proof -
  have "0 \<notin> set n"
    using assms(4) by (simp add: valid_name_def)
  from assms(1-3) this assms(5) show ?thesis
  proof (cases rule: putenv_at_result [where E = E and P = P])
    case (ok ps' s')
    then show ?thesis
      by (intro call_resultI [where x = "Code 0", OF _ ok(2)]) simp_all
  next
    case (fail s')
    then show ?thesis
      by (intro call_resultI [where x = "Code (-1)", OF _ fail(2)]) simp_all
  qed
qed

lemma start_inv_block_added:
  assumes "start_inv caller s" and new: "blocks s b = None" "blocks s' = (blocks s)(b \<mapsto> bytes)"
    "env_alloced s' = env_alloced s"
    and same: "environ s' = environ s" "oldenv s' = oldenv s" "arrays s' = arrays s"
  shows "start_inv caller s'"
  using assms(1) block_added(1,2) [OF _ _ new, of caller] same new(2) by (simp add: start_inv_def)

lemma ready_unchanged:
  fixes s s' :: "'a environ_libc_scheme"
  assumes "ready E caller vs s" and "blocks s' = blocks s" "env_alloced s' = env_alloced s"
    "environ s' = environ s" "oldenv s' = oldenv s" "arrays s' = arrays s"
  shows "ready E caller vs s'"
proof -
  have "same_strings s s'"
    using assms by (simp add: same_strings_def)
  note S = same_stringsD [OF this]
  have "start_inv caller s' = start_inv caller s" "\<And>ps. env_inv caller ps s' = env_inv caller ps s"
    using assms S by (simp_all add: start_inv_def env_inv_def array_ok_def)
  with assms(1) S(4) show ?thesis
    by (simp add: ready_def)
qed

lemma put_block_call:
  assumes ready: "ready E caller vs s" and n: "valid_name n" "0 \<notin> set w"
  shows "call_result E P caller
    (with_code (case new_block E P N s of
        (None, s) \<Rightarrow> Some (Returned (-1, s))
      | (Some b, s) \<Rightarrow> putenv_at E P (Ptr b 0) (length n) (Ptr b 0)
          (s\<lparr>blocks := (blocks s)(b \<mapsto> entry_of n w @ [0])\<rparr>)))
    (Code 0, put_var n (entry_of n w) vs) vs"
    (is "call_result E P caller (with_code ?run) ?spec vs")
proof -
  have "finite (dom (blocks s))"
    using ready by (auto simp: ready_def start_inv_def env_inv_def)
  then show ?thesis
  proof (cases rule: new_block_result [where E = E and P = P and n = N])
    case (fail s')
    then show ?thesis
      using ready_unchanged [OF ready fail(2-6)] by (simp add: call_result_def)
  next
    case (ok b s1)
    let ?s = "s1\<lparr>blocks := (blocks s1)(b \<mapsto> entry_of n w @ [0])\<rparr>"
    have run: "?run = putenv_at E P (Ptr b 0) (length n) (Ptr b 0) ?s"
      using ok(1) by simp
    have blk: "blocks ?s = (blocks s)(b \<mapsto> entry_of n w @ [0])" "env_alloced ?s = env_alloced s"
      "environ ?s = environ s" "oldenv ?s = oldenv s" "arrays ?s = arrays s"
      using ok(3-7) by simp_all
    have str: "0 \<notin> set (entry_of n w)"
      using n by (auto simp: entry_of_def valid_name_def)
    from ready consider "environ_host E vs" "start_inv caller s"
      | ps where "env_inv caller ps s" "view ps s = vs"
      by (auto simp: ready_def)
    then show ?thesis
    proof cases
      case 1
      have start: "start_inv caller ?s"
        by (rule start_inv_block_added [OF 1(2) ok(2) blk])
      have st: "owned_ok s" "caller_ok caller s"
        using 1(2) by (simp_all add: start_inv_def)
      note B = block_added [OF st ok(2) blk(1,2)]
      have ens: "ensure_environ E P ?s = initialize_environ E P ?s"
        using start by (simp add: ensure_environ_def start_inv_def)
      from 1(1) start show ?thesis
      proof (cases rule: initialize_result [where P = P])
        case (ok ps s2)
        have b: "blocks s2 b = Some (entry_of n w @ [0])"
          using ok(5) [of b] by simp
        then have s2: "string_at (blocks s2) (Ptr b 0) = Some (entry_of n w)"
          using str by (simp add: string_at_def takeWhile_tail takeWhile_absent)
        moreover have "addable caller ps (Ptr b 0) (Ptr b 0) s2"
          using s2 B(3,4,5) ok(4) ok(6) [of _ b] by (simp add: addable_def)
        ultimately have "call_result E P caller (with_code (putenv_at E P (Ptr b 0) (length n) (Ptr b 0) s2))
            (Code 0, put_var n (entry_of n w) vs) vs"
          using putenv_at_call [OF ok(2) _ _ n, of "Ptr b 0" "Ptr b 0"] ok(3) by simp
        moreover have "putenv_at E P (Ptr b 0) (length n) (Ptr b 0) ?s = putenv_at E P (Ptr b 0) (length n) (Ptr b 0) s2"
          unfolding putenv_at_def
          by (rule with_environ_ensured) (use ens ok(1) env_inv_ready [OF ok(2)] in simp_all)
        ultimately show ?thesis
          unfolding run by simp
      next
        case exit
        then have "putenv_at E P (Ptr b 0) (length n) (Ptr b 0) ?s = Some (Exited EX_SOFTWARE)"
          unfolding putenv_at_def using ens by (intro with_environ_exit) simp
        with exit(2) show ?thesis
          unfolding run by (simp add: call_result_def)
      qed
    next
      case 2
      note A = env_inv_block_added [OF 2(1) ok(2) blk str]
      then show ?thesis
        using putenv_at_call [OF A(1,3,4) n, of E P] 2(2) unfolding run by simp
    qed
  qed
qed

lemma setenv_call:
  assumes ready: "ready E caller vs s" and n: "valid_name n" "0 \<notin> set v"
  shows "call_result E P caller (do_call E P (Setenv n v ow) s) (spec_call caller (Setenv n v ow) vs) vs"
proof -
  have nm: "strchrnul n EQ = length n" "n \<noteq> []"
    using n(1) by (simp_all add: valid_name_def)
  let ?put = "\<lambda>s. case new_block E P (of_nat (length n + length v + 2)) s of
        (None, s) \<Rightarrow> Some (Returned (-1, s))
      | (Some b, s) \<Rightarrow> putenv_at E P (Ptr b 0) (length n) (Ptr b 0)
          (s\<lparr>blocks := (blocks s)(b \<mapsto> entry_of n v @ [0])\<rparr>)"
  have guard: "(length n = 0 \<or> char_at n (length n) \<noteq> 0) = False"
    and entry: "take (length n) n @ [EQ] @ v @ [0] = entry_of n v @ [0]"
    using nm by (simp_all add: entry_of_def)
  have body: "setenv E P (Some n) v ow s = do {
      r \<leftarrow> (if ow = 0 then getenv E P n s else Some (Returned (Null, s)));
      case r of Exited c \<Rightarrow> Some (Exited c)
        | Returned (p, s) \<Rightarrow> if p \<noteq> Null then Some (Returned (0, s)) else ?put s }" for s :: "'a environ_libc_scheme"
    unfolding setenv_def option.case Let_def nm(1) guard if_False entry ..
  show ?thesis
  proof (cases "ow = 0")
    case False
    then show ?thesis
      using put_block_call [OF ready n] body by simp
  next
    case True
    from ready show ?thesis
    proof (cases rule: ensure_result [where P = P])
      case exit
      then have "getenv E P n s = Some (Exited EX_SOFTWARE)"
        by (simp add: getenv_def with_environ_exit)
      then show ?thesis
        using True body exit(2) by (simp add: call_result_def)
    next
      case (ok ps t)
      obtain p where p: "getenv E P n t = Some (Returned (p, t))"
        "case lookup_var n (view ps t) of None \<Rightarrow> p = Null | Some v \<Rightarrow> string_at (blocks t) p = Some v"
        by (rule getenv_result [OF ok(2) n(1)])
      have "getenv E P n s = Some (Returned (p, t))"
        using p(1) unfolding getenv_def with_environ_ensured [OF ok(1) env_inv_ready [OF ok(2)]] .
      then have run: "setenv E P (Some n) v ow s = (if p \<noteq> Null then Some (Returned (0, t)) else ?put t)"
        using True body by simp
      show ?thesis
      proof (cases "lookup_var n vs")
        case None
        then show ?thesis
          using put_block_call [OF readyI [OF ok(2,3)] n] run p(2) ok(3) by simp
      next
        case (Some u)
        then have "p \<noteq> Null"
          using p(2) ok(3) by (auto simp: string_at_def)
        then show ?thesis
          using run Some True ok(3) by (intro call_resultI [where x = "Code 0", OF _ ok(2)]) simp_all
      qed
    qed
  qed
qed

lemma putenv_call:
  assumes ready: "ready E caller vs s" and "call_ok caller (Putenv str)"
  shows "call_result E P caller (do_call E P (Putenv str) s) (spec_call caller (Putenv str) vs) vs"
proof -
  obtain v where v: "string_at caller str = Some v" "EQ \<in> set v" "name_of v \<noteq> []"
    using assms(2) by (auto split: option.splits)
  let ?n = "name_of v"
  have zero: "0 \<notin> set v"
    by (rule string_at_nonzero [OF v(1)])
  obtain u w where uw: "v = u @ EQ # w" "EQ \<notin> set u"
    using split_list_first [OF v(2)] by blast
  then have "?n = u"
    by (simp add: name_of_def takeWhile_tail takeWhile_absent)
  then have e: "v = entry_of ?n w" "valid_name ?n" "0 \<notin> set w"
    using uw zero v(3) by (auto simp: entry_of_def valid_name_def)
  have l: "strchrnul v EQ = length ?n" "char_at v (length ?n) \<noteq> 0"
    using uw \<open>?n = u\<close> by (simp_all add: strchrnul_append char_at_def nth_append)
  obtain b i where b: "str = Ptr b i" "caller b \<noteq> None"
    using v(1) by (auto simp: string_at_Some)
  have "caller_ok caller s"
    using ready by (auto simp: ready_def start_inv_def env_inv_def)
  then have "blocks s b = caller b"
    using b(2) by (simp add: caller_ok_def)
  then have "string_at (blocks s) str = Some v"
    using v(1) by (simp add: b(1) string_at_def)
  then have run: "putenv E P str s = putenv_at E P str (length ?n) Null s"
    using l v(3) by (simp add: putenv_def)
  have "call_result E P caller (with_code (putenv_at E P str (length ?n) Null s)) (Code 0, put_var ?n v vs) vs"
  proof (rule ensured_call [where f = with_code and r = "putenv_at E P str (length ?n) Null", OF ready])
    fix t ps assume t: "env_inv caller ps t" "view ps t = vs"
    note A = addable_caller [OF t(1) v(1)]
    show "call_result E P caller (with_code (putenv_at E P str (length ?n) Null t)) (Code 0, put_var ?n v vs) vs"
      using putenv_at_call [OF t(1) A(1) _ e(2,3), of E P] A(2) e(1) t(2) by simp
  qed (simp_all add: putenv_at_def)
  then show ?thesis
    using run v(1) by simp
qed

lemma call_refines:
  assumes "ready E caller vs s" and "call_ok caller c"
  shows "call_result E P caller (do_call E P c s) (spec_call caller c vs) vs"
proof (cases c)
  case (Putenv str)
  then show ?thesis
    using putenv_call assms by metis
next
  case (Setenv n v ow)
  then have "valid_name n" "0 \<notin> set v"
    using assms(2) by simp_all
  then show ?thesis
    unfolding Setenv by (rule setenv_call [OF assms(1)])
qed (use assms in \<open>simp_all only: call_ok.simps spec_call.simps(1,3,5) getenv_call unsetenv_call clearenv_call\<close>)

section \<open>Sequences of calls\<close>

text \<open>
  C18. The environment behaves as a list of variables: from the start of the program, when the
  variables are those the host offers, every sequence of \<open>getenv\<close>, \<open>setenv\<close>, \<open>unsetenv\<close>,
  \<open>putenv\<close> and \<open>clearenv\<close> returns what the same operations on the list of variables return,
  as long as memory is available.  No call reads or frees a string that has been freed.
\<close>

theorem environ_refines_variables:
  assumes "environ_host E vs" and "start_inv caller s" and "available E P"
    and "\<forall>c \<in> set cs. call_ok caller c"
  shows "\<exists>s'. run_env E P cs s = Some (Returned (spec_run caller cs vs, s'))"
proof -
  have "\<exists>s'. run_env E P cs s = Some (Returned (spec_run caller cs vs, s'))"
    if "ready E caller vs s" "\<forall>c \<in> set cs. call_ok caller c" for vs and s :: "'a environ_libc_scheme"
    using that
  proof (induction cs arbitrary: vs s)
    case (Cons c cs)
    obtain x vs' where spec: "spec_call caller c vs = (x, vs')"
      by (metis prod.collapse)
    have "call_result E P caller (do_call E P c s) (x, vs') vs"
      using call_refines [OF Cons.prems(1)] Cons.prems(2) spec by (metis list.set_intros(1))
    then obtain s' where "do_call E P c s = Some (Returned (x, s'))" "ready E caller vs' s'"
      using assms(3) by (auto simp: call_result_def)
    moreover from Cons.IH [OF this(2)] Cons.prems(2)
    obtain s'' where "run_env E P cs s' = Some (Returned (spec_run caller cs vs', s''))"
      by auto
    ultimately show ?case
      by (simp add: spec)
  qed simp
  then show ?thesis
    using assms by (simp add: ready_def)
qed

text \<open>
  Running out of memory is harmless: whatever allocations fail, a sequence of calls has
  defined behaviour; it either ends the process with the exit code for software errors while
  the variables are fetched, or each of its calls keeps its promise or returns \<open>-1\<close> and
  leaves every variable as it was.
\<close>

theorem environ_failures_change_nothing:
  assumes "environ_host E vs" and "start_inv caller s" and "\<forall>c \<in> set cs. call_ok caller c"
  shows "(\<exists>xs s'. run_env E P cs s = Some (Returned (xs, s')) \<and> admitted caller cs xs vs) \<or>
    run_env E P cs s = Some (Exited EX_SOFTWARE)"
proof -
  have "(\<exists>xs s'. run_env E P cs s = Some (Returned (xs, s')) \<and> admitted caller cs xs vs) \<or>
    run_env E P cs s = Some (Exited EX_SOFTWARE)"
    if "ready E caller vs s" "\<forall>c \<in> set cs. call_ok caller c" for vs and s :: "'a environ_libc_scheme"
    using that
  proof (induction cs arbitrary: vs s)
    case (Cons c cs)
    obtain x vs' where spec: "spec_call caller c vs = (x, vs')"
      by (metis prod.collapse)
    have "call_result E P caller (do_call E P c s) (x, vs') vs"
      using call_refines [OF Cons.prems(1)] Cons.prems(2) spec by (metis list.set_intros(1))
    then consider "do_call E P c s = Some (Exited EX_SOFTWARE)"
      | y s' us where "do_call E P c s = Some (Returned (y, s'))" "ready E caller us s'"
          "y = x \<and> us = vs' \<or> y = Code (-1) \<and> us = vs"
      by (auto simp: call_result_def)
    then show ?case
    proof cases
      case 2
      have "\<forall>c \<in> set cs. call_ok caller c"
        using Cons.prems(2) by simp
      from Cons.IH [OF 2(2) this] show ?thesis
        using 2(1,3) spec by auto
    qed simp
  qed simp
  then show ?thesis
    using assms by (simp add: ready_def)
qed

section \<open>Arguments of the program\<close>

text \<open>
  The program's \<open>main\<close> is called with the arguments of the host: their number, and an array
  of pointers to the strings that ends with a null pointer; without memory the process ends
  with the exit code for software errors before \<open>main\<close> runs.
\<close>

theorem main_receives_arguments:
  assumes "host_strings E Call_args_sizes_get Call_args_get args"
    and "finite (dom (blocks s))" and "finite (dom (arrays s))"
  shows "(\<exists>argv ps s'. main_void E P user_main s = user_main (of_nat (length args)) argv s' \<and>
       arrays s' argv = Some (ps @ [Null]) \<and> map (string_at (blocks s')) ps = map Some args) \<or>
     main_void E P user_main s = Some (Exited EX_SOFTWARE) \<and> \<not> available E P"
proof -
  let ?n = "of_nat (length args) + 1 :: size_t"
  let ?m = "of_nat (length (host_buffer args)) :: size_t"
  let ?ps = "replicate (unat ?n) Null"
  define s1 where "s1 = s\<lparr>calls := calls s @ [Call_args_sizes_get]\<rparr>"
  have sizes: "wasi_args_sizes_get E s = (0, of_nat (length args), ?m, s1)"
    using assms(1) by (simp add: wasi_defs call_host_def host_strings_def s1_def)
  note size = host_strings_size [OF assms(1)]
  have n0: "?n \<noteq> 0"
    using size(1) by (metis add_is_0 one_neq_zero unsigned_0)
  have small: "\<not> 2 ^ 32 \<le> unat ?n * 4"
    using size(1) assms(1) by (simp add: host_strings_def)
  have fin: "finite (dom (blocks s1))" "finite (dom (arrays s1))"
    using assms(2,3) by (simp_all add: s1_def)
  from fin(1) show ?thesis
  proof (cases rule: new_block_result [where E = E and P = P and n = ?m])
    case (fail s2)
    then show ?thesis
      using sizes n0 by (simp add: main_void_def exit_now_def wasi_proc_exit_def)
  next
    case b: (ok b s2)
    have "finite (dom (arrays s2))"
      using fin(2) b(7) by simp
    then show ?thesis
    proof (cases rule: new_array_result [where E = E and P = P and n = "?n * 4" and ps = ?ps])
      case (fail s3)
      then show ?thesis
        using sizes n0 small b(1) by (simp add: main_void_def exit_now_def wasi_proc_exit_def)
    next
      case (ok a s3)
      let ?s = "s3\<lparr>calls := calls s3 @ [Call_args_get], blocks := (blocks s3)(b \<mapsto> host_buffer args),
          arrays := (arrays s3)(a \<mapsto> host_ptrs b args @ [Null])\<rparr>"
      have "wasi_args_get E s3 = (0, host_offsets 0 args, host_buffer args,
          s3\<lparr>calls := calls s3 @ [Call_args_get]\<rparr>)"
        using assms(1) by (simp add: wasi_defs call_host_def host_strings_def)
      then have "main_void E P user_main s = user_main (of_nat (length args)) a ?s"
        using sizes n0 small b(1) ok(1) by (simp add: main_void_def fill_pointers_host [OF assms(1)])
      moreover have "map (string_at (blocks ?s)) (host_ptrs b args) = map Some args"
        by (rule host_ptrs_view [OF assms(1)]) simp
      ultimately show ?thesis
        by (intro disjI1 exI [of _ a] exI [of _ "host_ptrs b args"] exI [of _ ?s]) simp
    qed
  qed
qed

section \<open>The theorems at concrete inputs\<close>

text \<open>The host offers \<open>A=1\<close>; the caller's own string is \<open>B=2\<close>.\<close>

definition sample_vars :: "u8 list list" where
  "sample_vars = [[65, 61, 49]]"

definition environ_env :: env where
  "environ_env = \<lparr>host = (\<lambda>h c. \<lparr>status = 0, size_out = 1, size2_out = 4, u64_out = 0, fd_out = 0,
     roflags_out = 0, bytes_out = [65, 61, 49, 0], ptrs_out = [0],
     fdstat_out = \<lparr>fs_filetype = 0, fs_flags = 0, fs_rights_base = 0, fs_rights_inheriting = 0\<rparr>,
     filestat_out = \<lparr>fst_dev = 0, fst_ino = 0, fst_filetype = 0, fst_nlink = 0, fst_size = 0,
       fst_atim = 0, fst_mtim = 0, fst_ctim = 0\<rparr>,
     prestat_out = \<lparr>pr_tag = 0, pr_name_len = 0\<rparr>, events_out = []\<rparr>),
     allocator = (\<lambda>i n. Allocated), chdir_linked = False\<rparr>"

definition first_free :: placement where
  "first_free = \<lparr>place_block = (\<lambda>m. LEAST b. m b = None), place_array = (\<lambda>m. LEAST a. m a = None)\<rparr>"

definition sample_caller :: "nat \<Rightarrow> u8 list option" where
  "sample_caller = [7 \<mapsto> [66, 61, 50, 0]]"

definition environ_start :: environ_libc where
  "environ_start = \<lparr>errno = 0, calls = [], allocs = 0, blocks = sample_caller, arrays = Map.empty,
     environ = Uninit, oldenv = Nullenv, env_alloced = []\<rparr>"

definition sample_calls :: "env_call list" where
  "sample_calls = [Getenv [65], Setenv [65] [51] 1, Getenv [65], Putenv (Ptr 7 0), Getenv [66],
     Unsetenv [65], Getenv [65], Clearenv, Getenv [66]]"

lemma sample_host: "host_strings environ_env c d sample_vars"
  by (simp add: host_strings_def environ_env_def sample_vars_def host_buffer_def)

lemma sample_start: "start_inv sample_caller environ_start"
  by (simp add: start_inv_def environ_start_def owned_ok_def caller_ok_def owned_def sample_caller_def)

lemma least_free: "finite (dom m) \<Longrightarrow> m (LEAST b :: nat. m b = None) = None"
proof (rule LeastI_ex)
  assume "finite (dom m)"
  then have "dom m \<noteq> UNIV"
    using infinite_UNIV_nat by metis
  then show "\<exists>b. m b = None"
    by auto
qed

lemma sample_available: "available environ_env first_free"
  by (simp add: available_def memory_available_def environ_env_def first_free_def least_free)

lemma sample_calls_ok: "\<forall>c \<in> set sample_calls. call_ok sample_caller c"
  by (simp add: sample_calls_def valid_name_def EQ_def sample_caller_def string_at_def name_of_def)

theorem environ_refines_variables_witness:
  "\<exists>s'. run_env environ_env first_free sample_calls environ_start = Some (Returned
     ([Value (Some [49]), Code 0, Value (Some [51]), Code 0, Value (Some [50]), Code 0, Value None,
       Code 0, Value None], s'))"
  using environ_refines_variables [OF sample_host sample_start sample_available sample_calls_ok]
  by (simp add: sample_calls_def sample_vars_def lookup_var_def has_name_def EQ_def entry_of_def
      remove_var_def sample_caller_def string_at_def name_of_def Let_def del: run_env.simps)

theorem environ_failures_change_nothing_witness:
  "(\<exists>x s'. run_env environ_env first_free [Setenv [65] [51] 0] environ_start = Some (Returned ([x], s')) \<and>
      (x = Code 0 \<or> x = Code (-1))) \<or>
    run_env environ_env first_free [Setenv [65] [51] 0] environ_start = Some (Exited EX_SOFTWARE)"
proof -
  have ok: "\<forall>c \<in> set [Setenv [65] [51] 0]. call_ok sample_caller c"
    by (simp add: valid_name_def EQ_def)
  have "\<exists>x. xs = [x] \<and> (x = Code 0 \<or> x = Code (-1))"
    if "admitted sample_caller [Setenv [65] [51] 0] xs sample_vars" for xs
    using that by (cases xs; cases "tl xs") (auto simp: Let_def split: prod.splits)
  then show ?thesis
    using environ_failures_change_nothing [OF sample_host sample_start ok, of first_free] by blast
qed

theorem main_receives_arguments_witness:
  "\<exists>argv ps s'. main_void environ_env first_free (\<lambda>argc argv s. Some (Returned (argc, s))) environ_start =
       Some (Returned (1, s')) \<and>
     arrays s' argv = Some (ps @ [Null]) \<and> map (string_at (blocks s')) ps = [Some [65, 61, 49]]"
proof -
  have fin: "finite (dom (blocks environ_start))" "finite (dom (arrays environ_start))"
    using sample_start by (simp_all add: start_inv_def)
  show ?thesis
    using main_receives_arguments [OF sample_host fin,
        of first_free "\<lambda>argc argv s. Some (Returned (argc, s))"] sample_available
    by (simp add: sample_vars_def)
qed

end
