(* ===== verification/Calendar.thy ===== *)
theory Calendar
  imports Wasi_Time "HOL-Library.Signed_Division"
begin

text \<open>
  Calendar time: the conversions between seconds and broken-down time of
  \<open>libc-top-half/musl/src/time\<close> (\<open>__secs_to_tm.c\<close>, \<open>__tm_to_secs.c\<close>, \<open>__year_to_secs.c\<close>,
  \<open>__month_to_secs.c\<close>, \<open>timegm.c\<close>, \<open>gmtime_r.c\<close>, \<open>mktime.c\<close>, \<open>localtime_r.c\<close>, \<open>__tz.c\<close> as
  built for WASI).

  The functions compute with \<open>int\<close> and \<open>long long\<close>.  The model computes with unbounded
  integers and checks the values that are stored in a narrower variable, so that an overflow
  is \<^const>\<open>None\<close>; divisions truncate as in C.
\<close>

section \<open>Broken-down time\<close>

record tm =
  tm_sec :: c_int
  tm_min :: c_int
  tm_hour :: c_int
  tm_mday :: c_int
  tm_mon :: c_int
  tm_year :: c_int
  tm_wday :: c_int
  tm_yday :: c_int
  tm_isdst :: c_int
  tm_gmtoff :: c_int
  tm_zone :: string
  tm_nsec :: c_int

definition INT_MIN :: int where "INT_MIN = - (2 ^ 31)"
definition INT_MAX :: int where "INT_MAX = 2 ^ 31 - 1"

definition as_int :: "int \<Rightarrow> int option" where
  "as_int x = (if INT_MIN \<le> x \<and> x \<le> INT_MAX then Some x else None)"

definition as_llong :: "int \<Rightarrow> int option" where
  "as_llong x = (if - (2 ^ 63) \<le> x \<and> x < 2 ^ 63 then Some x else None)"

section \<open>Seconds to broken-down time\<close>

definition LEAPOCH :: int where "LEAPOCH = 946684800 + 86400 * (31 + 29)"
definition DAYS_PER_400Y :: int where "DAYS_PER_400Y = 365 * 400 + 97"
definition DAYS_PER_100Y :: int where "DAYS_PER_100Y = 365 * 100 + 24"
definition DAYS_PER_4Y :: int where "DAYS_PER_4Y = 365 * 4 + 1"

definition days_in_month :: "int list" where
  "days_in_month = [31, 30, 31, 30, 31, 31, 30, 31, 30, 31, 31, 29]"

fun months_loop :: "int list \<Rightarrow> int \<Rightarrow> int \<Rightarrow> (int \<times> int) option" where
  "months_loop [] months remdays = None"
| "months_loop (d # ds) months remdays =
     (if d \<le> remdays then months_loop ds (months + 1) (remdays - d) else Some (months, remdays))"

definition split_secs :: "int \<Rightarrow> int \<times> int" where
  "split_secs t =
     (let secs = t - LEAPOCH; days = secs sdiv 86400; remsecs = secs smod 86400
      in if remsecs < 0 then (remsecs + 86400, days - 1) else (remsecs, days))"

definition week_day :: "int \<Rightarrow> int option" where
  "week_day days =
     map_option (\<lambda>wday. if wday < 0 then wday + 7 else wday) (as_int ((3 + days) smod 7))"

definition quad_centuries :: "int \<Rightarrow> (int \<times> int) option" where
  "quad_centuries days = do {
     qc_cycles \<leftarrow> as_int (days sdiv DAYS_PER_400Y);
     remdays \<leftarrow> as_int (days smod DAYS_PER_400Y);
     Some (if remdays < 0 then (remdays + DAYS_PER_400Y, qc_cycles - 1) else (remdays, qc_cycles)) }"

text \<open>Centuries, groups of four years, years and days within a cycle of 400 years.\<close>

definition cycles :: "int \<Rightarrow> int \<times> int \<times> int \<times> int" where
  "cycles remdays =
     (let c_cycles = remdays sdiv DAYS_PER_100Y;
          c_cycles = (if c_cycles = 4 then c_cycles - 1 else c_cycles);
          remdays = remdays - c_cycles * DAYS_PER_100Y;
          q_cycles = remdays sdiv DAYS_PER_4Y;
          q_cycles = (if q_cycles = 25 then q_cycles - 1 else q_cycles);
          remdays = remdays - q_cycles * DAYS_PER_4Y;
          remyears = remdays sdiv 365;
          remyears = (if remyears = 4 then remyears - 1 else remyears);
          remdays = remdays - remyears * 365
      in (c_cycles, q_cycles, remyears, remdays))"

definition year_day :: "int \<Rightarrow> int \<Rightarrow> int" where
  "year_day leap remdays =
     (let yday = remdays + 31 + 28 + leap in if yday \<ge> 365 + leap then yday - (365 + leap) else yday)"

text \<open>The year is counted from March 2000; \<open>months\<close> from March.\<close>

definition set_fields :: "int \<Rightarrow> int \<Rightarrow> int \<Rightarrow> int \<Rightarrow> int \<Rightarrow> int \<Rightarrow> tm \<Rightarrow> tm option" where
  "set_fields years months remdays wday yday remsecs tm =
     (let (months, years) = (if months \<ge> 10 then (months - 12, years + 1) else (months, years))
      in if years + 100 > INT_MAX \<or> years + 100 < INT_MIN then None
         else Some (tm\<lparr>tm_year := word_of_int (years + 100), tm_mon := word_of_int (months + 2),
               tm_mday := word_of_int (remdays + 1), tm_wday := word_of_int wday,
               tm_yday := word_of_int yday, tm_hour := word_of_int (remsecs sdiv 3600),
               tm_min := word_of_int (remsecs sdiv 60 smod 60), tm_sec := word_of_int (remsecs smod 60)\<rparr>))"

text \<open>The result \<open>Some None\<close> is the return value \<open>-1\<close>, which leaves \<open>*tm\<close> unchanged.\<close>

definition secs_to_tm :: "int \<Rightarrow> tm \<Rightarrow> tm option option" where
  "secs_to_tm t tm =
     (if t < INT_MIN * 31622400 \<or> t > INT_MAX * 31622400 then Some None
      else let (remsecs, days) = split_secs t
           in case week_day days of
                None \<Rightarrow> None
              | Some wday \<Rightarrow>
                  case quad_centuries days of
                    None \<Rightarrow> None
                  | Some (remdays, qc_cycles) \<Rightarrow>
                      let (c_cycles, q_cycles, remyears, remdays) = cycles remdays
                      in case months_loop days_in_month 0 remdays of
                           None \<Rightarrow> None
                         | Some (months, mday) \<Rightarrow>
                             Some (set_fields
                               (remyears + 4 * q_cycles + 100 * c_cycles + 400 * qc_cycles) months mday wday
                               (year_day (if remyears = 0 \<and> (q_cycles \<noteq> 0 \<or> c_cycles = 0) then 1 else 0) remdays)
                               remsecs tm))"

section \<open>Broken-down time to seconds\<close>

definition secs_through_month :: "int list" where
  "secs_through_month =
     [0, 31 * 86400, 59 * 86400, 90 * 86400, 120 * 86400, 151 * 86400, 181 * 86400, 212 * 86400,
      243 * 86400, 273 * 86400, 304 * 86400, 334 * 86400]"

definition month_to_secs :: "int \<Rightarrow> bool \<Rightarrow> int option" where
  "month_to_secs month leap =
     (if 0 \<le> month \<and> month < 12
      then Some (secs_through_month ! nat month + (if leap \<and> month \<ge> 2 then 86400 else 0))
      else None)"

definition year_to_secs :: "int \<Rightarrow> (int \<times> bool) option" where
  "year_to_secs year =
     (if (word_of_int (year - 2) :: u64) \<le> 136
      then do {
        y \<leftarrow> as_int year;
        let leaps = drop_bit 2 (y - 68);
        let (leaps, leap) = (if (y - 68) AND 3 = 0 then (leaps - 1, True) else (leaps, False));
        r \<leftarrow> as_int (31536000 * (y - 70) + 86400 * leaps);
        Some (r, leap) }
      else do {
        cycles \<leftarrow> as_int ((year - 100) sdiv 400);
        rem \<leftarrow> as_int ((year - 100) smod 400);
        let (cycles, rem) = (if rem < 0 then (cycles - 1, rem + 400) else (cycles, rem));
        let (leap, centuries, leaps) =
          (if rem = 0 then (True, 0, 0)
           else let (centuries, rem) =
                      (if rem \<ge> 200 then if rem \<ge> 300 then (3, rem - 300) else (2, rem - 200)
                       else if rem \<ge> 100 then (1, rem - 100) else (0, rem))
                in if rem = 0 then (False, centuries, 0)
                   else (rem mod 4 = 0, centuries, rem div 4));
        leaps \<leftarrow> as_int (leaps + (97 * cycles + 24 * centuries - (if leap then 1 else 0)));
        r \<leftarrow> as_llong ((year - 100) * 31536000 + leaps * 86400 + 946684800 + 86400);
        Some (r, leap) })"

definition tm_to_secs :: "tm \<Rightarrow> int option" where
  "tm_to_secs tm = do {
     let year = sint (tm_year tm);
     let month = sint (tm_mon tm);
     let (year, month) =
       (if month \<ge> 12 \<or> month < 0
        then let adj = month sdiv 12; month = month smod 12;
                 (adj, month) = (if month < 0 then (adj - 1, month + 12) else (adj, month))
             in (year + adj, month)
        else (year, month));
     (t, leap) \<leftarrow> year_to_secs year;
     m \<leftarrow> month_to_secs month leap;
     d \<leftarrow> as_int (sint (tm_mday tm) - 1);
     as_llong (t + m + 86400 * d + 3600 * sint (tm_hour tm) +
       60 * sint (tm_min tm) + sint (tm_sec tm)) }"

section \<open>The functions of the library\<close>

definition utc_fields :: "tm \<Rightarrow> tm" where
  "utc_fields tm = tm\<lparr>tm_isdst := 0, tm_gmtoff := 0, tm_zone := ''UTC''\<rparr>"

text \<open>\<open>new\<close> is the uninitialised local variable.\<close>

definition timegm :: "tm \<Rightarrow> tm \<Rightarrow> 'a libc_scheme \<Rightarrow> ((u64 \<times> tm) \<times> 'a libc_scheme) option" where
  "timegm new tm s = do {
     t \<leftarrow> tm_to_secs tm;
     r \<leftarrow> secs_to_tm t new;
     Some (case r of
         None \<Rightarrow> ((-1, tm), s\<lparr>errno := EOVERFLOW\<rparr>)
       | Some new \<Rightarrow> ((word_of_int t, utc_fields new), s)) }"

definition gmtime_r :: "u64 \<Rightarrow> tm \<Rightarrow> 'a libc_scheme \<Rightarrow> (tm option \<times> 'a libc_scheme) option" where
  "gmtime_r t tm s = do {
     r \<leftarrow> secs_to_tm (sint t) tm;
     Some (case r of
         None \<Rightarrow> (None, s\<lparr>errno := EOVERFLOW\<rparr>)
       | Some tm \<Rightarrow> (Some (utc_fields tm), s)) }"

text \<open>
  \<open>__secs_to_zone\<close> as built for WASI stores to the four objects it is given pointers to.  A
  pointer is the value of the object it points to, \<^const>\<open>None\<close> for the null pointer, and a
  store through it gives the new value or is undefined; the results are the values of the
  four objects.  All callers pass valid pointers but for \<open>oppoff\<close>.
\<close>

definition store_through :: "'v option \<Rightarrow> 'v \<Rightarrow> 'v option" where
  "store_through p v = (case p of None \<Rightarrow> None | Some _ \<Rightarrow> Some v)"

definition secs_to_zone :: "c_int option \<Rightarrow> (c_int \<times> c_int \<times> c_int \<times> string) option" where
  "secs_to_zone oppoff = do {
     let isdst = 0;
     let offset = 0;
     oppoff \<leftarrow> store_through oppoff 0;
     let zonename = ''UTC'';
     Some (isdst, offset, oppoff, zonename) }"

definition set_zone :: "c_int option \<Rightarrow> tm \<Rightarrow> tm option" where
  "set_zone opp tm = (case secs_to_zone opp of
      None \<Rightarrow> None
    | Some (isdst, gmtoff, oppoff, zone) \<Rightarrow>
        Some (tm\<lparr>tm_isdst := isdst, tm_gmtoff := gmtoff, tm_zone := zone\<rparr>))"

text \<open>
  The seconds without the offset of the zone.  The object is the local variable \<open>opp\<close> of
  \<open>mktime\<close>; its initial value, here 0, is never read.
\<close>

definition remove_offset :: "tm \<Rightarrow> int \<Rightarrow> int option" where
  "remove_offset tm t = (case secs_to_zone (Some 0) of
      None \<Rightarrow> None
    | Some (isdst, gmtoff, opp, zone) \<Rightarrow>
        case as_llong (if sint (tm_isdst tm) \<ge> 0 \<and> isdst \<noteq> tm_isdst tm then t - sint (opp - gmtoff) else t) of
          None \<Rightarrow> None
        | Some t \<Rightarrow> as_llong (t - sint gmtoff))"

definition mktime :: "tm \<Rightarrow> tm \<Rightarrow> 'a libc_scheme \<Rightarrow> ((u64 \<times> tm) \<times> 'a libc_scheme) option" where
  "mktime new tm s = do {
     t \<leftarrow> tm_to_secs tm;
     t \<leftarrow> remove_offset tm t;
     new \<leftarrow> set_zone (Some 0) new;
     r \<leftarrow> secs_to_tm (t + sint (tm_gmtoff new)) new;
     Some (case r of
         None \<Rightarrow> ((-1, tm), s\<lparr>errno := EOVERFLOW\<rparr>)
       | Some new \<Rightarrow> ((word_of_int t, new), s)) }"

definition localtime_r :: "u64 \<Rightarrow> tm \<Rightarrow> 'a libc_scheme \<Rightarrow> (tm option \<times> 'a libc_scheme) option" where
  "localtime_r t tm s =
     (if sint t < INT_MIN * 31622400 \<or> sint t > INT_MAX * 31622400
      then Some (None, s\<lparr>errno := EOVERFLOW\<rparr>)
      else do {
        tm \<leftarrow> set_zone None tm;
        r \<leftarrow> secs_to_tm (sint t + sint (tm_gmtoff tm)) tm;
        Some (case r of
            None \<Rightarrow> (None, s\<lparr>errno := EOVERFLOW\<rparr>)
          | Some tm \<Rightarrow> (Some tm, s)) })"

section \<open>The calendar\<close>

definition leap_year :: "int \<Rightarrow> bool" where
  "leap_year y \<longleftrightarrow> y mod 4 = 0 \<and> (y mod 100 \<noteq> 0 \<or> y mod 400 = 0)"

definition month_lengths :: "bool \<Rightarrow> int list" where
  "month_lengths leap = [31, if leap then 29 else 28, 31, 30, 31, 30, 31, 31, 30, 31, 30, 31]"

definition days_before_month :: "bool \<Rightarrow> int \<Rightarrow> int" where
  "days_before_month leap m = sum_list (take (nat m) (month_lengths leap))"

text \<open>Days of the years 1, \dots, \<open>y\<close> - 1 of the Gregorian calendar, extended to all integers.\<close>

definition days_before_year :: "int \<Rightarrow> int" where
  "days_before_year y = 365 * (y - 1) + (y - 1) div 4 - (y - 1) div 100 + (y - 1) div 400"

lemma days_before_year_1: "days_before_year 1 = 0"
  by (simp add: days_before_year_def)

lemma div_pred:
  fixes y n :: int
  assumes "0 < n"
  shows "y div n = (y - 1) div n + of_bool (n dvd y)"
proof (cases "n dvd y")
  case True
  then have "y - 1 = n * (y div n - 1) + (n - 1)"
    by (auto simp: algebra_simps)
  from int_div_pos_eq [OF this] have "(y - 1) div n = y div n - 1"
    using assms by simp
  with True show ?thesis
    by simp
next
  case False
  then have "0 < y mod n"
    using pos_mod_sign [OF assms, of y] by (simp add: dvd_eq_mod_eq_0 order.strict_iff_order)
  moreover have "y mod n < n"
    using assms by simp
  moreover have "y - 1 = n * (y div n) + (y mod n - 1)"
    by simp
  from int_div_pos_eq [OF this] have "0 \<le> y mod n - 1 \<Longrightarrow> y mod n - 1 < n \<Longrightarrow> (y - 1) div n = y div n" .
  ultimately have "(y - 1) div n = y div n"
    by linarith
  with False show ?thesis
    by simp
qed

lemma leap_year_dvd: "leap_year y \<longleftrightarrow> 4 dvd y \<and> (\<not> 100 dvd y \<or> 400 dvd y)"
  by (simp add: leap_year_def dvd_eq_mod_eq_0)

lemma leap_sum:
  fixes a b c y :: int
  assumes "q \<Longrightarrow> p" and "r \<Longrightarrow> q"
  shows "365 * y + (a + of_bool p) - (b + of_bool q) + (c + of_bool r) =
    365 * (y - 1) + a - b + c + 365 + of_bool (p \<and> (\<not> q \<or> r))"
  using assms by (cases r; cases q; cases p) simp_all

lemma days_before_year_Suc:
  "days_before_year (y + 1) = days_before_year y + 365 + (if leap_year y then 1 else 0)"
proof -
  have dvd: "100 dvd y \<Longrightarrow> 4 dvd y" "400 dvd y \<Longrightarrow> 100 dvd y"
    by (rule dvd_trans [of _ 100], simp_all) (rule dvd_trans [of _ 400], simp_all)
  have "y div 4 = (y - 1) div 4 + of_bool (4 dvd y)" "y div 100 = (y - 1) div 100 + of_bool (100 dvd y)"
    "y div 400 = (y - 1) div 400 + of_bool (400 dvd y)"
    by (rule div_pred, simp)+
  with leap_sum [OF dvd, where y = y and a = "(y - 1) div 4" and b = "(y - 1) div 100" and c = "(y - 1) div 400"]
  show ?thesis
    by (simp only: days_before_year_def leap_year_dvd add_diff_cancel_right' of_bool_def)
qed

text \<open>Days from 1 January 1970 to day \<open>d\<close> of month \<open>m\<close> (from 0) of year \<open>y\<close>.\<close>

definition epoch_days :: "int \<Rightarrow> int \<Rightarrow> int \<Rightarrow> int" where
  "epoch_days y m d =
     days_before_year y - days_before_year 1970 + days_before_month (leap_year y) m + (d - 1)"

section \<open>Division\<close>

text \<open>Truncating division followed by the correction of a negative remainder is floor division.\<close>

lemma floor_correct:
  fixes k n :: int
  assumes "0 < n"
  shows "(if k smod n < 0 then (k smod n + n, k sdiv n - 1) else (k smod n, k sdiv n)) = (k mod n, k div n)"
    "(if k smod n < 0 then (k sdiv n - 1, k smod n + n) else (k sdiv n, k smod n)) = (k div n, k mod n)"
    "(if k smod n < 0 then k smod n + n else k smod n) = k mod n"
proof -
  have "\<not> k mod n < 0"
    using pos_mod_sign [OF assms] by (simp add: not_less)
  moreover have "k mod n < n"
    using assms by simp
  ultimately show "(if k smod n < 0 then (k smod n + n, k sdiv n - 1) else (k smod n, k sdiv n)) = (k mod n, k div n)"
    "(if k smod n < 0 then (k sdiv n - 1, k smod n + n) else (k sdiv n, k smod n)) = (k div n, k mod n)"
    "(if k smod n < 0 then k smod n + n else k smod n) = k mod n"
    using assms by (auto simp: signed_modulo_int_eq_modulo_int signed_divide_int_eq_divide_int)
qed

lemma div_bounds:
  fixes k n q :: int
  assumes "0 < n"
  shows "n * (k div n) \<le> k" "k < n * (k div n) + n"
proof -
  have "n * (k div n) + k mod n = k" "0 \<le> k mod n" "k mod n < n"
    using assms by simp_all
  then show "n * (k div n) \<le> k" "k < n * (k div n) + n"
    by linarith+
qed

lemma sdiv_nonneg:
  fixes k n :: int
  assumes "0 \<le> k" and "0 < n"
  shows "k sdiv n = k div n" "k smod n = k mod n"
  using assms by (simp_all add: signed_divide_int_def signed_modulo_int_def sgn_if)

section \<open>Seconds of a year\<close>

text \<open>A year by its position in the cycle of 400 years that starts in 2000.\<close>

lemma leap_year_cycle:
  assumes "0 \<le> ce" "ce < 4" "0 \<le> r" "r < (100 :: int)"
  shows "leap_year (2000 + 400 * cy + 100 * ce + r) \<longleftrightarrow> r mod 4 = 0 \<and> (r \<noteq> 0 \<or> ce = 0)"
proof -
  let ?y = "2000 + 400 * cy + 100 * ce + r"
  have "?y = r + (500 + 100 * cy + 25 * ce) * 4" "?y = r + (20 + 4 * cy + ce) * 100"
    by simp_all
  then have "?y mod 4 = r mod 4" "?y mod 100 = r mod 100"
    by (metis mod_mult_self1)+
  moreover have "r mod 100 = r"
    using assms by simp
  moreover have "?y mod 400 = 100 * ce" if "r = 0"
  proof -
    have "?y = 100 * ce + (5 + cy) * 400"
      using that by simp
    then have "?y mod 400 = (100 * ce) mod 400"
      by (metis mod_mult_self1)
    then show ?thesis
      using assms by simp
  qed
  ultimately show ?thesis
    by (cases "r = 0") (simp_all add: leap_year_def)
qed

lemma days_before_year_alt:
  "days_before_year y = 365 * (y - 1) + y div 4 - y div 100 + y div 400 - (if leap_year y then 1 else 0)"
  using days_before_year_Suc [of y] by (simp add: days_before_year_def [of "y + 1"])

lemma days_before_cycle:
  assumes "0 \<le> ce" "ce < 4" "0 \<le> r" "r < (100 :: int)"
  shows "days_before_year (2000 + 400 * cy + 100 * ce + r) =
    730120 + 146097 * cy + 36524 * ce + 365 * r + r div 4 -
      (if r mod 4 = 0 \<and> (r \<noteq> 0 \<or> ce = 0) then 1 else 0)"
proof -
  let ?y = "2000 + 400 * cy + 100 * ce + r"
  have "?y = 4 * (500 + 100 * cy + 25 * ce + r div 4) + r mod 4"
    by simp
  from int_div_pos_eq [OF this] have "?y div 4 = 500 + 100 * cy + 25 * ce + r div 4"
    by simp
  moreover have "?y = 100 * (20 + 4 * cy + ce) + r"
    by simp
  from int_div_pos_eq [OF this] have "?y div 100 = 20 + 4 * cy + ce"
    using assms by simp
  moreover have "?y = 400 * (5 + cy) + (100 * ce + r)"
    by simp
  from int_div_pos_eq [OF this] have "?y div 400 = 5 + cy"
    using assms by simp
  ultimately show ?thesis
    unfolding days_before_year_alt leap_year_cycle [OF assms] by simp
qed

lemma year_to_secs_near:
  assumes "2 \<le> year" and "year \<le> 138"
  shows "year_to_secs year = Some (86400 * (days_before_year (year + 1900) - days_before_year 1970),
    leap_year (year + 1900))"
proof -
  define q where "q = year div 4"
  let ?leap = "year mod 4 = 0"
  let ?r = "31536000 * (year - 70) + 86400 * (q - 17 - (if ?leap then 1 else 0))"
  have q: "4 * q \<le> year" "year < 4 * q + 4"
    using div_bounds [of 4 year] by (simp_all add: q_def)
  have "uint (word_of_int x :: u64) = x" if "0 \<le> x" "x \<le> 136" for x
    using that by (simp add: unsigned_of_int take_bit_int_eq_self)
  from this [of "year - 2"] have near: "(word_of_int (year - 2) :: u64) \<le> 136"
    using assms unfolding word_le_def by simp
  have shift: "drop_bit 2 (year - 68) = q - 17" "((year - 68) AND 3 = 0) = ?leap"
  proof -
    have "year - 68 = year + (- 17) * 4"
      by simp
    then have "(year - 68) div 4 = q - 17" "(year - 68) mod 4 = year mod 4"
      unfolding q_def by (metis (no_types) div_mult_self1 mod_mult_self1 zero_neq_numeral add.commute diff_minus_eq_add
          minus_diff_eq uminus_add_conv_diff)+
    moreover have "(year - 68) AND 3 = (year - 68) mod 4"
      using take_bit_eq_mask [of 2 "year - 68"] by (simp add: take_bit_eq_mod mask_eq_exp_minus_1)
    ultimately show "drop_bit 2 (year - 68) = q - 17" "((year - 68) AND 3 = 0) = ?leap"
      by (simp_all only: drop_bit_eq_div) simp_all
  qed
  have "as_int ?r = Some ?r" "as_int year = Some year"
    using assms q by (auto simp: as_int_def INT_MIN_def INT_MAX_def)
  then have "year_to_secs year = Some (?r, ?leap)"
    using near shift by (simp add: year_to_secs_def split: if_splits)
  moreover have "days_before_year 1970 = 719162"
    by (simp add: days_before_year_def)
  moreover have "86400 * (days_before_year (year + 1900) - 719162) = ?r \<and> leap_year (year + 1900) = ?leap"
  proof (cases "year < 100")
    case True
    have y: "year + 1900 = 2000 + 400 * (- 1) + 100 * 3 + year"
      by simp
    have r: "0 \<le> (3 :: int)" "(3 :: int) < 4" "0 \<le> year" "year < 100"
      using assms True by simp_all
    show ?thesis
      unfolding y days_before_cycle [OF r] leap_year_cycle [OF r] using assms by (simp add: q_def)
  next
    case False
    have y: "year + 1900 = 2000 + 400 * 0 + 100 * 0 + (year - 100)"
      by simp
    have "year - 100 = year + (- 25) * 4"
      by simp
    then have "(year - 100) div 4 = q - 25" "(year - 100) mod 4 = year mod 4"
      unfolding q_def by (metis (no_types) div_mult_self1 mod_mult_self1 zero_neq_numeral add.commute diff_minus_eq_add
          minus_diff_eq uminus_add_conv_diff)+
    moreover have r: "0 \<le> (0 :: int)" "(0 :: int) < 4" "0 \<le> year - 100" "year - 100 < 100"
      using assms False by simp_all
    ultimately show ?thesis
      unfolding y days_before_cycle [OF r] leap_year_cycle [OF r] by simp
  qed
  ultimately show ?thesis
    by simp
qed

lemma word_of_int_far:
  assumes "\<not> (0 \<le> x \<and> x \<le> 136)" and "\<bar>x\<bar> < 2 ^ 62"
  shows "\<not> (word_of_int x :: u64) \<le> 136"
proof -
  have "uint (word_of_int x :: u64) = (if 0 \<le> x then x else x + 2 ^ 64)"
  proof (cases "0 \<le> x")
    case True
    then show ?thesis
      using assms by (simp add: unsigned_of_int take_bit_int_eq_self)
  next
    case False
    have "x mod 2 ^ 64 = (x + 2 ^ 64) mod 2 ^ 64"
      by simp
    also have "\<dots> = x + 2 ^ 64"
      using False assms(2) by (intro mod_pos_pos_trivial) auto
    finally show ?thesis
      using False by (simp add: unsigned_of_int take_bit_eq_mod)
  qed
  then show ?thesis
    using assms by (auto simp: word_le_def)
qed

lemma year_to_secs_far:
  assumes "\<not> (2 \<le> year \<and> year \<le> 138)" and "\<bar>year\<bar> < 8589934592"
  shows "year_to_secs year = Some (86400 * (days_before_year (year + 1900) - days_before_year 1970),
    leap_year (year + 1900))"
proof -
  define cy where "cy = (year - 100) div 400"
  define rem where "rem = (year - 100) mod 400"
  define ce where "ce = rem div 100"
  define r where "r = rem mod 100"
  have k: "year - 100 = 400 * cy + rem" "rem = 100 * ce + r"
    by (simp_all add: cy_def rem_def ce_def r_def)
  have rem: "0 \<le> rem" "rem < 400"
    by (simp_all add: rem_def)
  then have r: "0 \<le> ce" "ce < 4" "0 \<le> r" "r < 100"
    by (simp_all add: ce_def r_def)
  have cy: "\<bar>cy\<bar> \<le> 21474837"
    using k rem assms(2) by linarith
  have far: "\<not> (word_of_int (year - 2) :: u64) \<le> 136"
    using word_of_int_far [of "year - 2"] assms by simp
  have pair: "(if (year - 100) smod 400 < 0 then ((year - 100) sdiv 400 - 1, (year - 100) smod 400 + 400)
      else ((year - 100) sdiv 400, (year - 100) smod 400)) = (cy, rem)"
    unfolding cy_def rem_def by (rule floor_correct) simp
  then have "(year - 100) sdiv 400 = cy \<or> (year - 100) sdiv 400 = cy + 1"
    "(year - 100) smod 400 = rem \<or> (year - 100) smod 400 = rem - 400"
    by (auto split: if_splits)
  then have ints: "as_int ((year - 100) sdiv 400) = Some ((year - 100) sdiv 400)"
    "as_int ((year - 100) smod 400) = Some ((year - 100) smod 400)"
    using cy rem by (auto simp: as_int_def INT_MIN_def INT_MAX_def)
  let ?leap = "r mod 4 = 0 \<and> (r \<noteq> 0 \<or> ce = 0)"
  have parts: "(if rem = 0 then (True, 0, 0)
      else let (centuries, rem) =
             (if rem \<ge> 200 then if rem \<ge> 300 then (3, rem - 300) else (2, rem - 200)
              else if rem \<ge> 100 then (1, rem - 100) else (0, rem))
           in if rem = 0 then (False, centuries, 0) else (rem mod 4 = 0, centuries, rem div 4)) =
      (?leap, ce, r div 4)"
  proof -
    consider "ce = 0" | "ce = 1" | "ce = 2" | "ce = 3"
      using r by linarith
    then show ?thesis
      using r k(2) by cases auto
  qed
  let ?leaps = "r div 4 + (97 * cy + 24 * ce - (if ?leap then 1 else 0))"
  have "0 \<le> r div 4" "r div 4 \<le> 24"
    using r by linarith+
  then have leaps: "as_int ?leaps = Some ?leaps" "\<bar>?leaps\<bar> \<le> 2147483647"
    using r(1,2) cy by (auto simp: as_int_def INT_MIN_def INT_MAX_def)
  then have total: "as_llong ((year - 100) * 31536000 + ?leaps * 86400 + 946684800 + 86400) =
      Some ((year - 100) * 31536000 + ?leaps * 86400 + 946684800 + 86400)"
    using assms(2) unfolding as_llong_def by (auto split: if_splits)
  have year: "year + 1900 = 2000 + 400 * cy + 100 * ce + r"
    using k by simp
  have "year_to_secs year = Some ((year - 100) * 31536000 + ?leaps * 86400 + 946684800 + 86400, ?leap)"
    by (simp only: year_to_secs_def far if_False ints Option.bind.bind_lunit Let_def pair
        parts [unfolded Let_def] prod.case leaps(1) total)
  moreover have "leap_year (year + 1900) = ?leap"
    unfolding year by (rule leap_year_cycle [OF r])
  moreover have "86400 * (days_before_year (year + 1900) - days_before_year 1970) =
      (year - 100) * 31536000 + ?leaps * 86400 + 946684800 + 86400"
  proof -
    have "days_before_year 1970 = 719162"
      by (simp add: days_before_year_def)
    then show ?thesis
      unfolding year days_before_cycle [OF r] using k by simp
  qed
  ultimately show ?thesis
    by simp
qed

lemma year_to_secs_correct:
  "\<bar>year\<bar> < 8589934592 \<Longrightarrow>
   year_to_secs year = Some (86400 * (days_before_year (year + 1900) - days_before_year 1970),
    leap_year (year + 1900))"
  using year_to_secs_near year_to_secs_far by blast

section \<open>Broken-down time to seconds, correctly\<close>

lemma c_int_range: "- 2147483648 \<le> sint (x :: c_int)" "sint (x :: c_int) \<le> 2147483647"
  using sint_greater_eq [of x] sint_less [of x] by simp_all

lemma month_to_secs_correct:
  assumes "0 \<le> m" and "m < 12"
  shows "month_to_secs m leap = Some (86400 * days_before_month leap m)"
proof -
  have "\<forall>i \<in> set (upto 0 11). \<forall>b \<in> {True, False}. month_to_secs i b = Some (86400 * days_before_month b i)"
    by code_simp
  moreover have "m \<in> set (upto 0 11)"
    unfolding set_upto atLeastAtMost_iff using assms by linarith
  moreover have "leap \<in> {True, False}"
    by simp
  ultimately show ?thesis
    by blast
qed

lemma days_before_month_bounds:
  assumes "0 \<le> m" and "m < 12"
  shows "0 \<le> days_before_month leap m" "days_before_month leap m \<le> 335"
proof -
  have "\<forall>i \<in> set (upto 0 11). \<forall>b \<in> {True, False}. 0 \<le> days_before_month b i \<and> days_before_month b i \<le> 335"
    by code_simp
  moreover have "m \<in> set (upto 0 11)"
    unfolding set_upto atLeastAtMost_iff using assms by linarith
  moreover have "leap \<in> {True, False}"
    by simp
  ultimately show "0 \<le> days_before_month leap m" "days_before_month leap m \<le> 335"
    by blast+
qed

lemma month_end:
  assumes "0 \<le> m" and "m < 12"
  shows "days_before_month leap m + month_lengths leap ! nat m \<le> 365 + (if leap then 1 else 0)"
proof -
  have "\<forall>i \<in> set (upto 0 11). \<forall>b \<in> {True, False}.
      days_before_month b i + month_lengths b ! nat i \<le> 365 + (if b then 1 else 0)"
    by code_simp
  moreover have "m \<in> set (upto 0 11)"
    unfolding set_upto atLeastAtMost_iff using assms by linarith
  moreover have "leap \<in> {True, False}"
    by simp
  ultimately show ?thesis
    by blast
qed

lemma days_before_year_bound: "\<bar>days_before_year y\<bar> \<le> 368 * \<bar>y\<bar> + 736"
proof -
  define x where "x = y - 1"
  have "\<bar>x div n\<bar> \<le> \<bar>x\<bar> + 1" if "1 \<le> n" for n :: int
  proof -
    have "n * (x div n) = x - x mod n" "0 \<le> x mod n" "x mod n < n"
      using that by (simp_all add: minus_mod_eq_mult_div)
    moreover have "n * (\<bar>x\<bar> + 1) \<ge> \<bar>x\<bar> + n"
      using that by (simp add: distrib_left mult_le_cancel_right1)
    ultimately have "n * (x div n) \<le> n * (\<bar>x\<bar> + 1)" "n * (- (x div n)) \<le> n * (\<bar>x\<bar> + 1)"
      by auto
    then show ?thesis
      using that by (auto simp only: mult_le_cancel_left_pos abs_le_iff)
  qed
  then have "\<bar>x div 4\<bar> \<le> \<bar>x\<bar> + 1" "\<bar>x div 100\<bar> \<le> \<bar>x\<bar> + 1" "\<bar>x div 400\<bar> \<le> \<bar>x\<bar> + 1"
    by simp_all
  moreover have "\<bar>365 * x + a - b + c\<bar> \<le> 368 * \<bar>y\<bar> + 736"
    if "\<bar>a\<bar> \<le> \<bar>x\<bar> + 1" "\<bar>b\<bar> \<le> \<bar>x\<bar> + 1" "\<bar>c\<bar> \<le> \<bar>x\<bar> + 1" for a b c
    using that unfolding x_def by (simp only: right_diff_distrib)
  ultimately show ?thesis
    unfolding days_before_year_def x_def by blast
qed

lemma tm_to_secs_seconds:
  assumes "sint (tm_mday tm) \<noteq> INT_MIN"
  shows "tm_to_secs tm = Some (86400 * epoch_days (1900 + sint (tm_year tm) + sint (tm_mon tm) div 12)
       (sint (tm_mon tm) mod 12) (sint (tm_mday tm)) +
     3600 * sint (tm_hour tm) + 60 * sint (tm_min tm) + sint (tm_sec tm))"
proof -
  let ?mon = "sint (tm_mon tm)" and ?year = "sint (tm_year tm)"
  let ?y = "?year + ?mon div 12" and ?m = "?mon mod 12"
  have pair: "(if ?mon \<ge> 12 \<or> ?mon < 0
        then let adj = ?mon sdiv 12; month = ?mon smod 12;
                 (adj, month) = (if month < 0 then (adj - 1, month + 12) else (adj, month))
             in (?year + adj, month)
        else (?year, ?mon)) = (?y, ?m)"
    using floor_correct(2) [of 12 ?mon] by (simp add: Let_def)
  have m: "0 \<le> ?m" "?m < 12"
    by simp_all
  have "\<bar>?mon div 12\<bar> \<le> 200000000"
    using c_int_range [of "tm_mon tm"] by linarith
  then have y: "\<bar>?y\<bar> < 8589934592" "\<bar>?y + 1900\<bar> \<le> 2347485547"
    using c_int_range [of "tm_year tm"] by linarith+
  define d where "d = days_before_year (?y + 1900) - days_before_year 1970"
  define e where "e = days_before_month (leap_year (?y + 1900)) ?m"
  have "days_before_year 1970 = 719162"
    by (simp add: days_before_year_def)
  moreover have "\<bar>z\<bar> \<le> 863874682032" if "\<bar>z\<bar> \<le> 368 * \<bar>x\<bar> + 736" "\<bar>x\<bar> \<le> 2347485547" for x z :: int
    using that by linarith
  from this [OF days_before_year_bound y(2)] have "\<bar>days_before_year (?y + 1900)\<bar> \<le> 863874682032" .
  ultimately have "\<bar>d\<bar> \<le> 900000000000"
    unfolding d_def by linarith
  moreover have "0 \<le> e" "e \<le> 335"
    using days_before_month_bounds [OF m] by (simp_all add: e_def)
  ultimately have total: "as_llong (86400 * d + 86400 * e + 86400 * (sint (tm_mday tm) - 1) +
      3600 * sint (tm_hour tm) + 60 * sint (tm_min tm) + sint (tm_sec tm)) =
      Some (86400 * d + 86400 * e + 86400 * (sint (tm_mday tm) - 1) +
      3600 * sint (tm_hour tm) + 60 * sint (tm_min tm) + sint (tm_sec tm))"
    using c_int_range [of "tm_mday tm"] c_int_range [of "tm_hour tm"] c_int_range [of "tm_min tm"]
      c_int_range [of "tm_sec tm"] unfolding as_llong_def by auto
  have mday: "as_int (sint (tm_mday tm) - 1) = Some (sint (tm_mday tm) - 1)"
    using assms c_int_range [of "tm_mday tm"] by (simp add: as_int_def INT_MIN_def INT_MAX_def)
  have "tm_to_secs tm = as_llong (86400 * d + 86400 * e + 86400 * (sint (tm_mday tm) - 1) +
      3600 * sint (tm_hour tm) + 60 * sint (tm_min tm) + sint (tm_sec tm))"
    using month_to_secs_correct [OF m]
    by (simp only: tm_to_secs_def Let_def pair [unfolded Let_def] prod.case year_to_secs_correct [OF y(1)]
        Option.bind.bind_lunit mday d_def e_def)
  then show ?thesis
    unfolding total by (simp add: epoch_days_def d_def e_def algebra_simps)
qed

lemma tm_to_secs_None:
  assumes "sint (tm_mday tm) = INT_MIN"
  shows "tm_to_secs tm = None"
proof -
  have "as_int (sint (tm_mday tm) - 1) = None"
    unfolding assms by (simp add: as_int_def)
  then show ?thesis
    by (auto simp: tm_to_secs_def Let_def bind_eq_None_conv split: prod.splits)
qed

text \<open>
  C21. \<open>__tm_to_secs\<close> is exact for broken-down times with arbitrary fields: it counts the
  seconds from the beginning of 1970 by the Gregorian calendar, a month beyond the year is
  carried into the year, and neither a table access nor an addition goes out of range.  The
  single exception is the day of the month \<open>INT_MIN\<close>, whose decrement overflows.
\<close>

theorem tm_to_secs_gregorian:
  "tm_to_secs tm =
     (if sint (tm_mday tm) = INT_MIN then None
      else Some (86400 * epoch_days (1900 + sint (tm_year tm) + sint (tm_mon tm) div 12)
         (sint (tm_mon tm) mod 12) (sint (tm_mday tm)) +
       3600 * sint (tm_hour tm) + 60 * sint (tm_min tm) + sint (tm_sec tm)))"
  by (simp add: tm_to_secs_seconds tm_to_secs_None)

section \<open>Seconds to broken-down time, correctly\<close>

lemma cycles_result:
  assumes "0 \<le> rem" and "rem < 146097"
  obtains c q r m where "cycles rem = (c, q, r, m)" "rem = 36524 * c + 1461 * q + 365 * r + m"
    "0 \<le> c" "c \<le> 3" "0 \<le> q" "q \<le> 24" "0 \<le> r" "r \<le> 3" "0 \<le> m" "m \<le> 365"
    "m = 365 \<Longrightarrow> r = 3 \<and> (q < 24 \<or> c = 3)"
proof -
  define c0 where "c0 = rem div 36524"
  define c where "c = (if c0 = 4 then 3 else c0)"
  define rem1 where "rem1 = rem - c * 36524"
  define q where "q = rem1 div 1461"
  define rem2 where "rem2 = rem1 - q * 1461"
  define r0 where "r0 = rem2 div 365"
  define r where "r = (if r0 = 4 then 3 else r0)"
  define m where "m = rem2 - r * 365"
  have c0: "36524 * c0 \<le> rem" "rem < 36524 * c0 + 36524"
    using div_bounds [of 36524 rem] by (simp_all add: c0_def)
  then have "0 \<le> c0" "c0 \<le> 4"
    using assms by linarith+
  then have c: "0 \<le> c" "c \<le> 3" "0 \<le> rem1" "rem1 \<le> 36524" "rem1 = 36524 \<Longrightarrow> c = 3"
    using assms c0 unfolding c_def rem1_def by (cases "c0 = 4"; simp)+
  have q0: "1461 * q \<le> rem1" "rem1 < 1461 * q + 1461"
    using div_bounds [of 1461 rem1] by (simp_all add: q_def)
  then have q: "0 \<le> q" "q \<le> 24" "0 \<le> rem2" "rem2 \<le> 1460" "rem2 = 1460 \<Longrightarrow> q < 24 \<or> rem1 = 36524"
    using c(3,4) unfolding rem2_def by linarith+
  have r0: "365 * r0 \<le> rem2" "rem2 < 365 * r0 + 365"
    using div_bounds [of 365 rem2] by (simp_all add: r0_def)
  then have "0 \<le> r0" "r0 \<le> 4"
    using q(3,4) by linarith+
  then have r: "0 \<le> r" "r \<le> 3" "0 \<le> m" "m \<le> 365" "m = 365 \<Longrightarrow> r = 3 \<and> rem2 = 1460"
    using q(3,4) r0 unfolding r_def m_def by (cases "r0 = 4"; simp)+
  have "rem sdiv DAYS_PER_100Y = c0" "rem1 sdiv DAYS_PER_4Y = q" "rem2 sdiv 365 = r0"
    using sdiv_nonneg(1) [OF assms(1), of 36524] sdiv_nonneg(1) [OF c(3), of 1461] sdiv_nonneg(1) [OF q(3), of 365]
    by (simp_all only: DAYS_PER_100Y_def DAYS_PER_4Y_def c0_def q_def r0_def) simp_all
  moreover have "(if c0 = 4 then c0 - 1 else c0) = c" "rem - c * DAYS_PER_100Y = rem1"
    by (simp add: c_def, simp add: rem1_def DAYS_PER_100Y_def)
  moreover have "(if q = 25 then q - 1 else q) = q" "rem1 - q * DAYS_PER_4Y = rem2"
    by (use q(2) in simp, simp add: rem2_def DAYS_PER_4Y_def)
  moreover have "(if r0 = 4 then r0 - 1 else r0) = r" "rem2 - r * 365 = m"
    by (simp add: r_def, simp add: m_def)
  ultimately have "cycles rem = (c, q, r, m)"
    by (simp only: cycles_def Let_def)
  moreover have "rem = 36524 * c + 1461 * q + 365 * r + m"
    by (simp add: m_def rem2_def rem1_def)
  moreover have "m = 365 \<Longrightarrow> r = 3 \<and> (q < 24 \<or> c = 3)"
    using r(5) q(5) c(5) by blast
  ultimately show thesis
    using that c(1,2) q(1,2) r(1-4) by blast
qed

lemma month_tables:
  shows "days_before_month b 0 = 0"
    "days_before_month b 1 = 31"
    "days_before_month b 2 = 59 + of_bool b"
    "days_before_month b 3 = 90 + of_bool b"
    "days_before_month b 4 = 120 + of_bool b"
    "days_before_month b 5 = 151 + of_bool b"
    "days_before_month b 6 = 181 + of_bool b"
    "days_before_month b 7 = 212 + of_bool b"
    "days_before_month b 8 = 243 + of_bool b"
    "days_before_month b 9 = 273 + of_bool b"
    "days_before_month b 10 = 304 + of_bool b"
    "days_before_month b 11 = 334 + of_bool b"
    and "month_lengths b ! 0 = 31"
    "month_lengths b ! Suc 0 = 28 + of_bool b"
    "month_lengths b ! 2 = 31"
    "month_lengths b ! 3 = 30"
    "month_lengths b ! 4 = 31"
    "month_lengths b ! 5 = 30"
    "month_lengths b ! 6 = 31"
    "month_lengths b ! 7 = 31"
    "month_lengths b ! 8 = 30"
    "month_lengths b ! 9 = 31"
    "month_lengths b ! 10 = 30"
    "month_lengths b ! 11 = 31"
  by (simp_all add: days_before_month_def month_lengths_def)

text \<open>The month table starts in March; its last two months lie in the following year.\<close>

lemma months_loop_result:
  assumes "0 \<le> m" and "m \<le> 365"
  obtains k d where "months_loop days_in_month 0 m = Some (k, d)" "0 \<le> k" "k < 12" "0 \<le> d" "d < 31"
    "k < 10 \<Longrightarrow> m < 306 \<and> days_before_month b (k + 2) + d = m + 59 + (if b then 1 else 0) \<and>
       d < month_lengths b ! nat (k + 2)"
    "k \<ge> 10 \<Longrightarrow> 306 \<le> m \<and> days_before_month b (k - 10) + d = m - 306 \<and>
       (d < month_lengths b ! nat (k - 10) \<or> m = 365 \<and> \<not> b)"
proof -
  have less_366: "m < 366"
    using assms(2) by simp
  consider (0) "0 \<le> m" "m < 31"
    | (1) "31 \<le> m" "m < 61"
    | (2) "61 \<le> m" "m < 92"
    | (3) "92 \<le> m" "m < 122"
    | (4) "122 \<le> m" "m < 153"
    | (5) "153 \<le> m" "m < 184"
    | (6) "184 \<le> m" "m < 214"
    | (7) "214 \<le> m" "m < 245"
    | (8) "245 \<le> m" "m < 275"
    | (9) "275 \<le> m" "m < 306"
    | (10) "306 \<le> m" "m < 337"
    | (11) "337 \<le> m" "m < 366"
    using assms(1) less_366 not_less by blast
  then show thesis
  proof cases
    case 0
    then show thesis
      by (intro that [of 0 "m - 0"]) (simp_all add: days_in_month_def month_tables)
  next
    case 1
    then show thesis
      by (intro that [of 1 "m - 31"]) (simp_all add: days_in_month_def month_tables)
  next
    case 2
    then show thesis
      by (intro that [of 2 "m - 61"]) (simp_all add: days_in_month_def month_tables)
  next
    case 3
    then show thesis
      by (intro that [of 3 "m - 92"]) (simp_all add: days_in_month_def month_tables)
  next
    case 4
    then show thesis
      by (intro that [of 4 "m - 122"]) (simp_all add: days_in_month_def month_tables)
  next
    case 5
    then show thesis
      by (intro that [of 5 "m - 153"]) (simp_all add: days_in_month_def month_tables)
  next
    case 6
    then show thesis
      by (intro that [of 6 "m - 184"]) (simp_all add: days_in_month_def month_tables)
  next
    case 7
    then show thesis
      by (intro that [of 7 "m - 214"]) (simp_all add: days_in_month_def month_tables)
  next
    case 8
    then show thesis
      by (intro that [of 8 "m - 245"]) (simp_all add: days_in_month_def month_tables)
  next
    case 9
    then show thesis
      by (intro that [of 9 "m - 275"]) (simp_all add: days_in_month_def month_tables)
  next
    case 10
    then show thesis
      by (intro that [of 10 "m - 306"]) (simp_all add: days_in_month_def month_tables)
  next
    case 11
    then show thesis
      by (intro that [of 11 "m - 337"]) (auto simp: days_in_month_def month_tables)
  qed
qed

text \<open>The first second of 1 January of a year, and the times whose year fits an \<open>int\<close>.\<close>

definition year_start :: "int \<Rightarrow> int" where
  "year_start y = 86400 * (days_before_year y - days_before_year 1970)"

definition representable :: "int \<Rightarrow> bool" where
  "representable t \<longleftrightarrow> year_start (1900 + INT_MIN) \<le> t \<and> t < year_start (1900 + INT_MAX + 1)"

definition normal_tm :: "tm \<Rightarrow> bool" where
  "normal_tm tm \<longleftrightarrow>
     0 \<le> sint (tm_sec tm) \<and> sint (tm_sec tm) < 60 \<and> 0 \<le> sint (tm_min tm) \<and> sint (tm_min tm) < 60 \<and>
     0 \<le> sint (tm_hour tm) \<and> sint (tm_hour tm) < 24 \<and> 0 \<le> sint (tm_mon tm) \<and> sint (tm_mon tm) < 12 \<and>
     1 \<le> sint (tm_mday tm) \<and>
     sint (tm_mday tm) \<le> month_lengths (leap_year (1900 + sint (tm_year tm))) ! nat (sint (tm_mon tm))"

lemma sint_word_of_int: "INT_MIN \<le> x \<Longrightarrow> x \<le> INT_MAX \<Longrightarrow> sint (word_of_int x :: c_int) = x"
  by (simp add: INT_MIN_def INT_MAX_def signed_of_int signed_take_bit_int_eq_self)

lemma days_before_year_mono: "x \<le> y \<Longrightarrow> days_before_year x \<le> days_before_year y"
proof (induction y rule: int_ge_induct)
  case (step i)
  then show ?case
    using days_before_year_Suc [of i] by auto
qed simp

text \<open>The date a number of days after 1 March 2000 falls on.\<close>

definition date_of :: "int \<Rightarrow> int \<Rightarrow> int \<Rightarrow> int \<Rightarrow> int \<Rightarrow> bool" where
  "date_of days year mon day yday \<longleftrightarrow> 0 \<le> mon \<and> mon < 12 \<and> 0 \<le> day \<and> day < 31 \<and>
     day < month_lengths (leap_year year) ! nat mon \<and>
     yday = days_before_month (leap_year year) mon + day \<and>
     days + 11017 = days_before_year year - days_before_year 1970 + yday"

lemma cycle_date:
  assumes days: "days = 146097 * qc + rem" "0 \<le> rem" "rem < 146097"
  obtains c q r m k d where "cycles rem = (c, q, r, m)" "months_loop days_in_month 0 m = Some (k, d)"
    "0 \<le> k" "k < 12" "0 \<le> d" "d < 31"
    "date_of days (2000 + (r + 4 * q + 100 * c + 400 * qc) + (if k \<ge> 10 then 1 else 0))
       (if k \<ge> 10 then k - 10 else k + 2) d
       (year_day (if r = 0 \<and> (q \<noteq> 0 \<or> c = 0) then 1 else 0) m)"
proof -
  obtain c q r m where cyc: "cycles rem = (c, q, r, m)" "rem = 36524 * c + 1461 * q + 365 * r + m"
    "0 \<le> c" "c \<le> 3" "0 \<le> q" "q \<le> 24" "0 \<le> r" "r \<le> 3" "0 \<le> m" "m \<le> 365"
    "m = 365 \<Longrightarrow> r = 3 \<and> (q < 24 \<or> c = 3)"
    by (rule cycles_result [OF days(2,3)]) blast
  let ?Y = "2000 + (r + 4 * q + 100 * c + 400 * qc)"
  define leap where "leap = leap_year ?Y"
  have Y: "?Y = 2000 + 400 * qc + 100 * c + (4 * q + r)"
    by simp
  have range: "0 \<le> c" "c < 4" "0 \<le> 4 * q + r" "4 * q + r < 100"
    using cyc(3-8) by linarith+
  have four: "(4 * q + r) mod 4 = r" "(4 * q + r) div 4 = q"
    using cyc(7,8) by (simp_all add: mod_pos_pos_trivial div_pos_pos_trivial)
  have flag: "(r = 0 \<and> (q \<noteq> 0 \<or> c = 0)) = leap"
    unfolding leap_def Y leap_year_cycle [OF range] four(1) using cyc(5,7) by auto
  have flag_int: "(if r = 0 \<and> (q \<noteq> 0 \<or> c = 0) then 1 else 0) = (of_bool leap :: int)"
    unfolding flag by simp
  have before: "days_before_year ?Y = 730120 + 146097 * qc + 36524 * c + 1461 * q + 365 * r - of_bool leap"
    unfolding Y days_before_cycle [OF range] four
    using flag by (cases leap) auto
  have next_leap: "leap_year (?Y + 1)" if "m = 365"
  proof -
    have r: "r = 3"
      using cyc(11) that by simp
    show ?thesis
    proof (cases "q < 24")
      case True
      have eq: "?Y + 1 = 2000 + 400 * qc + 100 * c + (4 * q + 4)"
        using r by simp
      have bounds: "0 \<le> 4 * q + 4" "4 * q + 4 < 100"
        using True cyc(5) by linarith+
      have "(4 * q + 4) mod 4 = 0 \<and> (4 * q + 4 \<noteq> 0 \<or> c = 0)"
        using cyc(5) by simp
      then show ?thesis
        unfolding eq leap_year_cycle [OF range(1,2) bounds] .
    next
      case False
      then have "q = 24" "c = 3"
        using cyc(6,11) that by simp_all
      then have eq: "?Y + 1 = 2000 + 400 * (qc + 1) + 100 * 0 + 0"
        using r by simp
      show ?thesis
        unfolding eq by (subst leap_year_cycle) simp_all
    qed
  qed
  have base: "days_before_year 1970 = 719162"
    by (simp add: days_before_year_def)
  show thesis
  proof (rule months_loop_result [OF cyc(9,10), of leap])
    fix k d
    assume k: "months_loop days_in_month 0 m = Some (k, d)" "0 \<le> k" "k < 12" "0 \<le> d" "d < 31"
      and low: "k < 10 \<Longrightarrow> m < 306 \<and> days_before_month leap (k + 2) + d = m + 59 + (if leap then 1 else 0) \<and>
         d < month_lengths leap ! nat (k + 2)"
    show thesis
    proof (cases "k < 10")
      case True
      have "year_day (of_bool leap) m = m + 59 + of_bool leap"
        using low [OF True] by (simp add: year_day_def Let_def)
      then have "date_of days ?Y (k + 2) d (year_day (of_bool leap) m)"
        using low [OF True] k True before base days(1) cyc(2)
        unfolding date_of_def leap_def [symmetric] by simp
      then show thesis
        using that [OF cyc(1) k, unfolded flag_int] True by simp
    next
      case False
      define leap' where "leap' = leap_year (?Y + 1)"
      obtain k' d' where "months_loop days_in_month 0 m = Some (k', d')"
        and high: "k' \<ge> 10 \<Longrightarrow> 306 \<le> m \<and> days_before_month leap' (k' - 10) + d' = m - 306 \<and>
         (d' < month_lengths leap' ! nat (k' - 10) \<or> m = 365 \<and> \<not> leap')"
        by (rule months_loop_result [OF cyc(9,10), of leap']) blast
      then have high: "306 \<le> m" "days_before_month leap' (k - 10) + d = m - 306"
        "d < month_lengths leap' ! nat (k - 10)"
        using k(1) False next_leap by (auto simp: leap'_def)
      have "year_day (of_bool leap) m = m - 306"
        using high(1) by (simp add: year_day_def Let_def)
      moreover have "days_before_year (?Y + 1) = days_before_year ?Y + 365 + of_bool leap"
        unfolding days_before_year_Suc leap_def by simp
      ultimately have "date_of days (?Y + 1) (k - 10) d (year_day (of_bool leap) m)"
        using high k False before base days(1) cyc(2)
        unfolding date_of_def leap'_def [symmetric] by simp
      then show thesis
        using that [OF cyc(1) k, unfolded flag_int] False by (simp add: add.assoc)
    qed
  qed
qed

lemma split_secs_result: "split_secs t = ((t - LEAPOCH) mod 86400, (t - LEAPOCH) div 86400)"
  using floor_correct(1) [of 86400 "t - LEAPOCH"] by (simp add: split_secs_def Let_def)

lemma as_int_small: "\<bar>x\<bar> \<le> 2147483647 \<Longrightarrow> as_int x = Some x"
  unfolding as_int_def INT_MIN_def INT_MAX_def by auto

lemma smod_small:
  assumes "0 < n" and "n \<le> 2147483647"
  shows "as_int (k smod n) = Some (k smod n)"
proof (rule as_int_small)
  have "k smod n = k mod n \<or> k smod n = k mod n - n"
    using floor_correct(3) [OF assms(1), of k] by (auto split: if_splits)
  moreover have "0 \<le> k mod n" "k mod n < n"
    using assms(1) by simp_all
  ultimately show "\<bar>k smod n\<bar> \<le> 2147483647"
    using assms(2) by linarith
qed

lemma week_day_result: "week_day days = Some ((3 + days) mod 7)"
  using smod_small [of 7 "3 + days"] floor_correct(3) [of 7 "3 + days"] by (simp add: week_day_def)

lemma quad_centuries_result:
  assumes "\<bar>days\<bar> < 10 ^ 12"
  shows "quad_centuries days = Some (days mod 146097, days div 146097)"
proof -
  have pair: "(if days smod 146097 < 0 then (days smod 146097 + 146097, days sdiv 146097 - 1)
      else (days smod 146097, days sdiv 146097)) = (days mod 146097, days div 146097)"
    by (rule floor_correct) simp
  define q where "q = days div 146097"
  have "days sdiv 146097 = q \<or> days sdiv 146097 = q + 1"
    using pair by (auto simp: q_def split: if_splits)
  moreover have "146097 * q \<le> days" "days < 146097 * q + 146097"
    using div_bounds [of 146097 days] by (simp_all add: q_def)
  moreover have "\<bar>days\<bar> < 1000000000000"
    using assms by simp
  ultimately have "\<bar>days sdiv 146097\<bar> \<le> 2147483647"
    by linarith
  then show ?thesis
    unfolding quad_centuries_def DAYS_PER_400Y_def
    using as_int_small smod_small [of 146097 days] pair
    by (cases "days smod 146097 < 0") simp_all
qed

lemma set_fields_result:
  assumes "0 \<le> months" "months < 12"
  shows "set_fields years months day wday yday secs tm =
    (let year = years + (if months \<ge> 10 then 1 else 0); mon = (if months \<ge> 10 then months - 10 else months + 2)
     in if INT_MIN \<le> year + 100 \<and> year + 100 \<le> INT_MAX
        then Some (tm\<lparr>tm_year := word_of_int (year + 100), tm_mon := word_of_int mon,
          tm_mday := word_of_int (day + 1), tm_wday := word_of_int wday, tm_yday := word_of_int yday,
          tm_hour := word_of_int (secs sdiv 3600), tm_min := word_of_int (secs sdiv 60 smod 60),
          tm_sec := word_of_int (secs smod 60)\<rparr>)
        else None)"
  unfolding set_fields_def Let_def by (cases "months \<ge> 10") (simp_all add: not_less not_le conj_commute linorder_not_less)

text \<open>The year of a date lies in the range of \<open>int\<close> exactly for the representable times.\<close>

lemma date_of_year:
  assumes date: "date_of days year mon day yday" and t: "t = 86400 * (days + 11017) + secs" "0 \<le> secs" "secs < 86400"
  shows "INT_MIN \<le> year - 1900 \<and> year - 1900 \<le> INT_MAX \<longleftrightarrow> representable t"
proof -
  have "0 \<le> yday" "yday < 365 + (if leap_year year then 1 else 0)"
    using date month_end [of mon "leap_year year"] days_before_month_bounds [of mon "leap_year year"]
    unfolding date_of_def by linarith+
  then have "days_before_year year \<le> days + 11017 + days_before_year 1970"
    "days + 11017 + days_before_year 1970 < days_before_year (year + 1)"
    using date by (simp_all add: date_of_def days_before_year_Suc)
  then have in_year: "year_start year \<le> t" "t < year_start (year + 1)"
    using t unfolding year_start_def by simp_all
  have mono: "year_start x \<le> year_start y" if "x \<le> y" for x y
    using days_before_year_mono [OF that] by (simp add: year_start_def)
  show ?thesis
    using in_year mono [of "1900 + INT_MIN" year] mono [of "year + 1" "1900 + INT_MAX + 1"]
      mono [of "year + 1" "1900 + INT_MIN"] mono [of "1900 + INT_MAX + 1" year]
    unfolding representable_def by linarith
qed

lemma sint_fields:
  assumes "0 \<le> x" and "x \<le> 2147483647"
  shows "sint (word_of_int x :: c_int) = x"
  using assms by (intro sint_word_of_int) (simp_all add: INT_MIN_def INT_MAX_def)

lemma time_of_day:
  fixes secs :: int
  assumes "0 \<le> secs" and "secs < 86400"
  shows "secs sdiv 3600 = secs div 3600" "secs sdiv 60 smod 60 = secs div 60 mod 60" "secs smod 60 = secs mod 60"
    "0 \<le> secs div 3600" "secs div 3600 < 24" "secs = 3600 * (secs div 3600) + 60 * (secs div 60 mod 60) + secs mod 60"
proof -
  have "0 \<le> secs div 60"
    using assms by (simp add: pos_imp_zdiv_nonneg_iff)
  then show "secs sdiv 3600 = secs div 3600" "secs sdiv 60 smod 60 = secs div 60 mod 60" "secs smod 60 = secs mod 60"
    using assms by (simp_all add: sdiv_nonneg)
  show "0 \<le> secs div 3600" "secs div 3600 < 24"
    using assms div_bounds [of 3600 secs] by linarith+
  have "secs div 3600 = secs div 60 div 60"
    by (simp add: zdiv_zmult2_eq [of 60 secs 60, simplified])
  then show "secs = 3600 * (secs div 3600) + 60 * (secs div 60 mod 60) + secs mod 60"
    using mult_div_mod_eq [of 60 secs] mult_div_mod_eq [of 60 "secs div 60"] by linarith
qed

text \<open>What the fields written for a date say.\<close>

lemma broken_down_time:
  assumes tm: "tm = tm0\<lparr>tm_year := word_of_int year, tm_mon := word_of_int mon,
      tm_mday := word_of_int (d + 1), tm_wday := word_of_int ((3 + days) mod 7), tm_yday := word_of_int yday,
      tm_hour := word_of_int (secs sdiv 3600), tm_min := word_of_int (secs sdiv 60 smod 60),
      tm_sec := word_of_int (secs smod 60)\<rparr>"
    and date: "date_of days (1900 + year) mon d yday"
    and t: "t = 86400 * (days + 11017) + secs" and secs: "0 \<le> secs" "secs < 86400"
    and year: "INT_MIN \<le> year" "year \<le> INT_MAX"
  shows "normal_tm tm" "tm_to_secs tm = Some t" "sint (tm_wday tm) = (4 + t div 86400) mod 7"
    "86400 * sint (tm_yday tm) = 86400 * (t div 86400) - year_start (1900 + sint (tm_year tm))"
proof -
  let ?leap = "leap_year (1900 + year)"
  have parts: "0 \<le> mon" "mon < 12" "0 \<le> d" "d < 31" "d < month_lengths ?leap ! nat mon"
    "yday = days_before_month ?leap mon + d"
    "days + 11017 = days_before_year (1900 + year) - days_before_year 1970 + yday"
    using date by (simp_all add: date_of_def)
  have yday: "0 \<le> yday" "yday \<le> 366"
    using parts(1-6) days_before_month_bounds [OF parts(1,2), of ?leap] by linarith+
  have clock: "0 \<le> secs div 60 mod 60" "secs div 60 mod 60 < 60" "0 \<le> secs mod 60" "secs mod 60 < 60"
    by simp_all
  have wday: "0 \<le> (3 + days) mod 7" "(3 + days) mod 7 < 7"
    by simp_all
  note day = time_of_day [OF secs]
  have word: "sint (word_of_int year :: c_int) = year"
    by (rule sint_word_of_int [OF year])
  have words: "sint (word_of_int mon :: c_int) = mon" "sint (word_of_int (d + 1) :: c_int) = d + 1"
    "sint (word_of_int yday :: c_int) = yday" "sint (word_of_int (secs div 3600) :: c_int) = secs div 3600"
    by (rule sint_fields; use parts(1-4) yday day(4,5) in linarith)+
  have mods: "sint (word_of_int ((3 + days) mod 7) :: c_int) = (3 + days) mod 7"
    "sint (word_of_int (secs div 60 mod 60) :: c_int) = secs div 60 mod 60"
    "sint (word_of_int (secs mod 60) :: c_int) = secs mod 60"
    by (rule sint_fields; use clock wday in linarith)+
  have fv: "sint (tm_year tm) = year" "sint (tm_mon tm) = mon" "sint (tm_mday tm) = d + 1"
    "sint (tm_wday tm) = (3 + days) mod 7" "sint (tm_yday tm) = yday" "sint (tm_hour tm) = secs div 3600"
    "sint (tm_min tm) = secs div 60 mod 60" "sint (tm_sec tm) = secs mod 60"
    unfolding tm day(1-3) by (simp_all add: word words mods del: of_int_add)
  show "normal_tm tm"
    unfolding normal_tm_def fv using parts(1-5) clock day(4,5) by simp
  have "sint (tm_mday tm) \<noteq> INT_MIN"
    unfolding fv using parts(3) by (simp add: INT_MIN_def)
  then show "tm_to_secs tm = Some t"
    unfolding tm_to_secs_seconds [OF \<open>sint (tm_mday tm) \<noteq> INT_MIN\<close>] fv t using parts(1,2,6,7) day(6)
    by (simp add: epoch_days_def)
  have quot: "t div 86400 = days + 11017"
    using int_div_pos_eq [OF t secs] .
  have "(4 + (days + 11017)) mod 7 = (3 + days) mod 7"
  proof -
    have "4 + (days + 11017) = (3 + days) + 1574 * 7"
      by simp
    then show ?thesis
      by (metis mod_mult_self1)
  qed
  then show "sint (tm_wday tm) = (4 + t div 86400) mod 7"
    unfolding fv quot ..
  show "86400 * sint (tm_yday tm) = 86400 * (t div 86400) - year_start (1900 + sint (tm_year tm))"
    unfolding fv quot year_start_def using parts(7) by simp
qed

lemma secs_to_tm_inverse:
  "if representable t
   then \<exists>tm. secs_to_tm t tm0 = Some (Some tm) \<and> normal_tm tm \<and> tm_to_secs tm = Some t \<and>
          sint (tm_wday tm) = (4 + t div 86400) mod 7 \<and>
          86400 * sint (tm_yday tm) = 86400 * (t div 86400) - year_start (1900 + sint (tm_year tm))
   else secs_to_tm t tm0 = Some None"
proof (cases "t < INT_MIN * 31622400 \<or> t > INT_MAX * 31622400")
  case True
  have "days_before_year (1900 + INT_MIN) - days_before_year 1970 \<ge> INT_MIN * 366"
    "days_before_year (1900 + INT_MAX + 1) - days_before_year 1970 \<le> INT_MAX * 366"
    by (simp_all add: days_before_year_def INT_MIN_def INT_MAX_def)
  then have "86400 * (INT_MIN * 366) \<le> year_start (1900 + INT_MIN)"
    "year_start (1900 + INT_MAX + 1) \<le> 86400 * (INT_MAX * 366)"
    unfolding year_start_def by simp_all
  then have "\<not> representable t"
    using True unfolding representable_def by (auto simp: INT_MIN_def INT_MAX_def)
  then show ?thesis
    using True by (simp add: secs_to_tm_def)
next
  case False
  define days where "days = (t - LEAPOCH) div 86400"
  define secs where "secs = (t - LEAPOCH) mod 86400"
  have "t - LEAPOCH = 86400 * days + secs"
    by (simp add: days_def secs_def)
  then have t: "t = 86400 * (days + 11017) + secs"
    by (simp add: LEAPOCH_def)
  have secs: "0 \<le> secs" "secs < 86400"
    by (simp_all add: secs_def)
  have small: "\<bar>days\<bar> < 10 ^ 12"
    using t secs False by (auto simp: INT_MIN_def INT_MAX_def)
  have "days = 146097 * (days div 146097) + days mod 146097" "0 \<le> days mod 146097" "days mod 146097 < 146097"
    by simp_all
  then obtain c q r m k d where run: "cycles (days mod 146097) = (c, q, r, m)"
      "months_loop days_in_month 0 m = Some (k, d)" and k: "0 \<le> k" "k < 12"
    and date: "date_of days (2000 + (r + 4 * q + 100 * c + 400 * (days div 146097)) + (if k \<ge> 10 then 1 else 0))
       (if k \<ge> 10 then k - 10 else k + 2) d
       (year_day (if r = 0 \<and> (q \<noteq> 0 \<or> c = 0) then 1 else 0) m)"
    by (rule cycle_date) blast
  let ?years = "r + 4 * q + 100 * c + 400 * (days div 146097)"
  define year where "year = ?years + (if k \<ge> 10 then 1 else 0) + 100"
  define mon where "mon = (if k \<ge> 10 then k - 10 else k + 2)"
  define yday where "yday = year_day (if r = 0 \<and> (q \<noteq> 0 \<or> c = 0) then 1 else 0) m"
  have date: "date_of days (1900 + year) mon d yday"
    using date by (simp add: year_def mon_def yday_def algebra_simps)
  have fits: "INT_MIN \<le> year \<and> year \<le> INT_MAX \<longleftrightarrow> representable t"
    using date_of_year [OF date t secs] by simp
  have run: "secs_to_tm t tm0 = Some (set_fields ?years k d ((3 + days) mod 7) yday secs tm0)"
    using False run quad_centuries_result [OF small]
    by (simp add: secs_to_tm_def split_secs_result week_day_result yday_def flip: days_def secs_def)
  have fields: "set_fields ?years k d ((3 + days) mod 7) yday secs tm0 =
      (if representable t
       then Some (tm0\<lparr>tm_year := word_of_int year, tm_mon := word_of_int mon,
          tm_mday := word_of_int (d + 1), tm_wday := word_of_int ((3 + days) mod 7), tm_yday := word_of_int yday,
          tm_hour := word_of_int (secs sdiv 3600), tm_min := word_of_int (secs sdiv 60 smod 60),
          tm_sec := word_of_int (secs smod 60)\<rparr>)
       else None)"
    unfolding set_fields_result [OF k] Let_def fits [symmetric] by (simp add: year_def mon_def add.commute)
  show ?thesis
  proof (cases "representable t")
    case True
    define tm where "tm = tm0\<lparr>tm_year := word_of_int year, tm_mon := word_of_int mon,
          tm_mday := word_of_int (d + 1), tm_wday := word_of_int ((3 + days) mod 7), tm_yday := word_of_int yday,
          tm_hour := word_of_int (secs sdiv 3600), tm_min := word_of_int (secs sdiv 60 smod 60),
          tm_sec := word_of_int (secs smod 60)\<rparr>"
    note result = broken_down_time [OF tm_def date t secs]
    have "INT_MIN \<le> year" "year \<le> INT_MAX"
      using True fits by simp_all
    then show ?thesis
      using True run fields result by (simp add: tm_def)
  next
    case False
    then show ?thesis
      using run fields by simp
  qed
qed

text \<open>
  C19. \<open>__secs_to_tm\<close> is the inverse of the Gregorian calendar: for every time whose year fits
  an \<open>int\<close> it produces the broken-down time with all fields in their normal ranges (the day
  of the month within the length of the month) that lies exactly that number of seconds after
  the beginning of 1970, with the day of the week and of the year of that date; for every
  other time it fails.  No intermediate value overflows and the month table is not overrun.
\<close>

theorem secs_to_tm_gregorian:
  "if representable t
   then \<exists>tm. secs_to_tm t tm0 = Some (Some tm) \<and> normal_tm tm \<and> tm_to_secs tm = Some t \<and>
          sint (tm_wday tm) = (4 + t div 86400) mod 7 \<and>
          86400 * sint (tm_yday tm) = 86400 * (t div 86400) - year_start (1900 + sint (tm_year tm))
   else secs_to_tm t tm0 = Some None"
  by (rule secs_to_tm_inverse)

section \<open>The library functions\<close>

lemma representable_range:
  assumes "representable t"
  shows "- 67768040609740800 \<le> t" "t < 67768036191676800"
proof -
  have "year_start (1900 + INT_MIN) = - 67768040609740800" "year_start (1900 + INT_MAX + 1) = 67768036191676800"
    by (simp_all add: year_start_def days_before_year_def INT_MIN_def INT_MAX_def)
  with assms show "- 67768040609740800 \<le> t" "t < 67768036191676800"
    by (simp_all add: representable_def)
qed

lemma sint_time: "representable t \<Longrightarrow> sint (word_of_int t :: u64) = t"
  using representable_range [of t] by (simp add: signed_of_int signed_take_bit_int_eq_self)

text \<open>The fields that \<open>__secs_to_tm\<close> does not write keep their values.\<close>

definition keep_fields :: "tm \<Rightarrow> tm \<Rightarrow> tm" where
  "keep_fields old tm = tm\<lparr>tm_isdst := tm_isdst old, tm_gmtoff := tm_gmtoff old, tm_zone := tm_zone old,
     tm_nsec := tm_nsec old\<rparr>"

lemma set_fields_keep:
  "set_fields y mo d w yd se new = map_option (keep_fields new) (set_fields y mo d w yd se tm0)"
  by (cases new; cases tm0) (simp add: set_fields_def keep_fields_def Let_def split: prod.splits)

lemma secs_to_tm_keep:
  "secs_to_tm t new = map_option (map_option (keep_fields new)) (secs_to_tm t tm0)"
  by (simp add: secs_to_tm_def Let_def set_fields_keep [of _ _ _ _ _ _ new tm0] split: prod.splits option.splits)

lemma same_date:
  "normal_tm (utc_fields tm) = normal_tm tm" "normal_tm (keep_fields old tm) = normal_tm tm"
  "tm_to_secs (utc_fields tm) = tm_to_secs tm" "tm_to_secs (keep_fields old tm) = tm_to_secs tm"
  by (simp_all add: normal_tm_def tm_to_secs_def utc_fields_def keep_fields_def)

lemma remove_offset_utc: "- (2 ^ 63) \<le> t \<Longrightarrow> t < 2 ^ 63 \<Longrightarrow> remove_offset tm t = Some t"
  by (simp add: remove_offset_def secs_to_zone_def store_through_def as_llong_def)

lemma tm_to_secs_llong:
  assumes "tm_to_secs tm = Some t"
  shows "- (2 ^ 63) \<le> t" "t < 2 ^ 63"
proof -
  have "as_llong x = Some t \<Longrightarrow> - (2 ^ 63) \<le> t \<and> t < 2 ^ 63" for x
    by (auto simp: as_llong_def split: if_splits)
  with assms show "- (2 ^ 63) \<le> t" "t < 2 ^ 63"
    by (auto simp: tm_to_secs_def Let_def bind_eq_Some_conv split: prod.splits)
qed

text \<open>On WASI, where every zone is UTC, \<open>mktime\<close> and \<open>timegm\<close> compute the same.\<close>

lemma set_zone_utc: "set_zone (Some opp) tm = Some (utc_fields tm)"
  by (simp add: set_zone_def secs_to_zone_def store_through_def utc_fields_def)

lemma mktime_timegm: "mktime new tm s = timegm new tm s"
proof (cases "tm_to_secs tm")
  case None
  then show ?thesis
    by (simp add: mktime_def timegm_def)
next
  case t: (Some t)
  have off: "sint (tm_gmtoff (utc_fields new)) = 0"
    by (simp add: utc_fields_def)
  have keep: "keep_fields (utc_fields new) x = utc_fields (keep_fields new x)" for x
    by (simp add: keep_fields_def utc_fields_def)
  have "secs_to_tm t (utc_fields new) = map_option (map_option utc_fields) (secs_to_tm t new)"
    using secs_to_tm_keep [of t "utc_fields new" new] secs_to_tm_keep [of t new new]
    by (cases "secs_to_tm t new"; cases "the (secs_to_tm t new)") (simp_all add: keep)
  then show ?thesis
    using t tm_to_secs_llong [OF t]
    by (cases "secs_to_tm t new"; cases "the (secs_to_tm t new)")
      (simp_all add: mktime_def timegm_def remove_offset_utc set_zone_utc off)
qed

lemma timegm_cases:
  assumes t: "tm_to_secs tm = Some t"
  shows "timegm new tm s =
    (if representable t then Some ((word_of_int t, utc_fields (the (the (secs_to_tm t new)))), s)
     else Some ((-1, tm), s\<lparr>errno := EOVERFLOW\<rparr>))"
  using secs_to_tm_inverse [of t new] t by (auto simp: timegm_def split: if_splits)

text \<open>
  \<open>timegm\<close> and \<open>mktime\<close> accept broken-down times with fields far outside their ranges: the
  result is the broken-down time in UTC with normal fields that denotes the same second, and
  the number of that second; when its year does not fit an \<open>int\<close>, they return -1 with
  \<open>EOVERFLOW\<close> and leave the argument alone.  Their behaviour is undefined for the day of the
  month \<open>INT_MIN\<close> only.
\<close>

theorem timegm_normalises:
  "mktime new tm s = timegm new tm s \<and>
   (case tm_to_secs tm of
      None \<Rightarrow> sint (tm_mday tm) = INT_MIN \<and> timegm new tm s = None
    | Some t \<Rightarrow>
        if representable t
        then \<exists>tm'. timegm new tm s = Some ((word_of_int t, utc_fields tm'), s) \<and>
               sint (word_of_int t :: u64) = t \<and> normal_tm tm' \<and> tm_to_secs tm' = Some t
        else timegm new tm s = Some ((-1, tm), s\<lparr>errno := EOVERFLOW\<rparr>))"
proof (cases "tm_to_secs tm")
  case None
  then have "sint (tm_mday tm) = INT_MIN"
    using tm_to_secs_seconds [of tm] by fastforce
  with None show ?thesis
    by (simp add: mktime_timegm timegm_def)
next
  case (Some t)
  then show ?thesis
    using secs_to_tm_inverse [of t new] timegm_cases [OF Some, of new s] sint_time [of t]
    by (force simp: mktime_timegm)
qed

text \<open>
  C20. \<open>gmtime_r\<close> and \<open>timegm\<close> are inverse to each other: for every time whose year fits an
  \<open>int\<close>, \<open>gmtime_r\<close> stores a normal broken-down time, and \<open>timegm\<close> and \<open>mktime\<close> of that time
  return the number it was made from and leave its fields as they are (except the nanoseconds,
  which are copied from an uninitialised variable); for every other time it returns a null
  pointer with \<open>EOVERFLOW\<close>.
\<close>

theorem gmtime_timegm_roundtrip:
  "if representable (sint t)
   then \<exists>tm. gmtime_r t tm0 s = Some (Some tm, s) \<and> normal_tm tm \<and>
          timegm new tm s = Some ((t, tm\<lparr>tm_nsec := tm_nsec new\<rparr>), s) \<and>
          mktime new tm s = Some ((t, tm\<lparr>tm_nsec := tm_nsec new\<rparr>), s)
   else gmtime_r t tm0 s = Some (None, s\<lparr>errno := EOVERFLOW\<rparr>)"
proof (cases "representable (sint t)")
  case True
  then obtain tm where tm: "secs_to_tm (sint t) tm0 = Some (Some tm)" "normal_tm tm"
      "tm_to_secs tm = Some (sint t)"
    using secs_to_tm_inverse [of "sint t" tm0] by auto
  have "tm_to_secs (utc_fields tm) = Some (sint t)"
    using tm(3) by (simp add: same_date)
  from timegm_cases [OF this, of new s]
  have "timegm new (utc_fields tm) s = Some ((t, utc_fields (keep_fields new tm)), s)"
    using True tm(1) by (simp add: secs_to_tm_keep [of _ new tm0])
  moreover have "utc_fields (keep_fields new tm) = (utc_fields tm)\<lparr>tm_nsec := tm_nsec new\<rparr>"
    by (simp add: utc_fields_def keep_fields_def)
  moreover have "gmtime_r t tm0 s = Some (Some (utc_fields tm), s)"
    using tm(1) by (simp add: gmtime_r_def)
  ultimately show ?thesis
    using True tm(2) by (auto simp: same_date mktime_timegm)
next
  case False
  then show ?thesis
    using secs_to_tm_inverse [of "sint t" tm0] by (simp add: gmtime_r_def)
qed

text \<open>
  \<open>localtime_r\<close> never returns for a time in range: it passes a null pointer for the
  opposite offset, and \<open>__secs_to_zone\<close> as built for WASI stores through that pointer without
  a test; out of range it returns a null pointer with \<open>EOVERFLOW\<close> before that.
\<close>

lemma localtime_r_stores_through_null:
  "localtime_r t tm s =
     (if INT_MIN * 31622400 \<le> sint t \<and> sint t \<le> INT_MAX * 31622400 then None
      else Some (None, s\<lparr>errno := EOVERFLOW\<rparr>))"
  by (auto simp: localtime_r_def set_zone_def secs_to_zone_def store_through_def)

end
