(* ===== verification/Multibyte.thy ===== *)
theory Multibyte
  imports C_Prelude
begin

unbundle bit_operations_syntax

text \<open>
  Multibyte characters (\<open>libc-top-half/musl/src/multibyte\<close>): the UTF-8 decoder driven by the
  table \<open>bittab\<close>, whose entries hold the value bits of a lead byte, one bit pattern per
  continuation byte that is to come and, in the upper six bits, an offset that bounds the
  next byte; and the encoder.

  A pointer to bytes is the list of the bytes from there on, or \<^const>\<open>None\<close> for the null
  pointer.  An operation returns \<^const>\<open>None\<close> when it reads past the end of the list.  The
  locale enters as the flag that \<open>CURRENT_UTF8\<close> tests.
\<close>

section \<open>Tables and macros\<close>

definition MB_CUR_MAX :: "bool \<Rightarrow> nat" where
  "MB_CUR_MAX utf8 = (if utf8 then 4 else 1)"

abbreviation (input) EILSEQ :: "'a::len word" where "EILSEQ \<equiv> 25"

definition OOB :: "u32 \<Rightarrow> u8 \<Rightarrow> bool" where
  "OOB c b \<longleftrightarrow>
     ((drop_bit 3 (ucast b) - 0x10) OR (drop_bit 3 (ucast b) + signed_drop_bit 26 c)) AND NOT 7 \<noteq> (0 :: u32)"

definition R_range :: "u32 \<Rightarrow> u32 \<Rightarrow> u32" where
  "R_range a b = push_bit 23 (if a = 0x80 then 0x40 - b else 0 - a)"

definition C_entry :: "u32 \<Rightarrow> u32" where
  "C_entry x = (if x < 2 then -1 else R_range 0x80 0xc0 OR x)"

definition D_entry :: "u32 \<Rightarrow> u32" where
  "D_entry x = C_entry (x + 16)"

definition E_entry :: "u32 \<Rightarrow> u32" where
  "E_entry x =
     (if x = 0 then R_range 0xa0 0xc0 else if x = 0xd then R_range 0x80 0xa0 else R_range 0x80 0xc0) OR
     drop_bit 6 (R_range 0x80 0xc0) OR x"

definition F_entry :: "u32 \<Rightarrow> u32" where
  "F_entry x =
     (if x \<ge> 5 then 0 else if x = 0 then R_range 0x90 0xc0 else if x = 4 then R_range 0x80 0x90
      else R_range 0x80 0xc0) OR
     drop_bit 6 (R_range 0x80 0xc0) OR drop_bit 12 (R_range 0x80 0xc0) OR x"

definition bittab :: "u32 list" where
  "bittab =
     map C_entry [0x2, 0x3, 0x4, 0x5, 0x6, 0x7, 0x8, 0x9, 0xa, 0xb, 0xc, 0xd, 0xe, 0xf] @
     map D_entry [0x0, 0x1, 0x2, 0x3, 0x4, 0x5, 0x6, 0x7, 0x8, 0x9, 0xa, 0xb, 0xc, 0xd, 0xe, 0xf] @
     map E_entry [0x0, 0x1, 0x2, 0x3, 0x4, 0x5, 0x6, 0x7, 0x8, 0x9, 0xa, 0xb, 0xc, 0xd, 0xe, 0xf] @
     map F_entry [0x0, 0x1, 0x2, 0x3, 0x4]"

definition SA :: u32 where "SA = 0xc2"
definition SB :: u32 where "SB = 0xf4"

definition CODEUNIT :: "u8 \<Rightarrow> u32" where
  "CODEUNIT c = 0xdfff AND scast c"

definition IS_CODEUNIT :: "u32 \<Rightarrow> bool" where
  "IS_CODEUNIT c \<longleftrightarrow> c - 0xdf80 < 0x80"

text \<open>The table entry of a lead byte, unless the byte is outside the table.\<close>

definition lead_state :: "u8 \<Rightarrow> u32 option" where
  "lead_state b =
     (if ucast b - SA > SB - SA then None else Some (bittab ! unat (ucast b - SA :: u32)))"

definition high_bit :: "u32 \<Rightarrow> bool" where
  "high_bit c \<longleftrightarrow> c AND push_bit 31 1 \<noteq> 0"

definition add_byte :: "u32 \<Rightarrow> u8 \<Rightarrow> u32" where
  "add_byte c b = push_bit 6 c OR (ucast b - 0x80)"

definition not_cont :: "u8 \<Rightarrow> bool" where
  "not_cont b \<longleftrightarrow> (ucast b :: u32) - 0x80 \<ge> 0x40"

section \<open>Decoding\<close>

text \<open>The result, the character stored, the conversion state, and whether \<open>errno\<close> is set to \<open>EILSEQ\<close>.\<close>

record conv =
  cv_ret :: size_t
  cv_wc :: "u32 option"
  cv_st :: u32
  cv_ilseq :: bool

abbreviation ilseq :: conv where
  "ilseq \<equiv> \<lparr>cv_ret = -1, cv_wc = None, cv_st = 0, cv_ilseq = True\<rparr>"

abbreviation incomplete :: "u32 \<Rightarrow> conv" where
  "incomplete c \<equiv> \<lparr>cv_ret = -2, cv_wc = None, cv_st = c, cv_ilseq = False\<rparr>"

abbreviation converted :: "size_t \<Rightarrow> u32 \<Rightarrow> u32 \<Rightarrow> conv" where
  "converted r wc c \<equiv> \<lparr>cv_ret = r, cv_wc = Some wc, cv_st = c, cv_ilseq = False\<rparr>"

fun mb_loop :: "u32 \<Rightarrow> u8 list \<Rightarrow> nat \<Rightarrow> nat \<Rightarrow> conv option" where
  "mb_loop c [] n N = None"
| "mb_loop c (b # s) n N =
     (let c = add_byte c b; n = n - 1
      in if \<not> high_bit c then Some (converted (of_nat (N - n)) c 0)
         else if n \<noteq> 0
              then (case s of
                  [] \<Rightarrow> None
                | b' # _ \<Rightarrow> if not_cont b' then Some ilseq else mb_loop c s n N)
              else Some (incomplete c))"

definition mb_continue :: "u32 \<Rightarrow> u8 list \<Rightarrow> nat \<Rightarrow> nat \<Rightarrow> conv option" where
  "mb_continue c s n N =
     (if n \<noteq> 0
      then (case s of
          [] \<Rightarrow> None
        | b # _ \<Rightarrow> if OOB c b then Some ilseq else mb_loop c s n N)
      else Some (incomplete c))"

definition mb_decode :: "bool \<Rightarrow> u8 list option \<Rightarrow> nat \<Rightarrow> u32 \<Rightarrow> conv option" where
  "mb_decode utf8 src n c =
     (case src of
        None \<Rightarrow> Some (if c \<noteq> 0 then ilseq else \<lparr>cv_ret = 0, cv_wc = None, cv_st = c, cv_ilseq = False\<rparr>)
      | Some s \<Rightarrow>
          if n = 0 then Some (incomplete c)
          else (case s of
              [] \<Rightarrow> None
            | b # s' \<Rightarrow>
                if c = 0
                then if b < 0x80 then Some (converted (if ucast b \<noteq> (0 :: u32) then 1 else 0) (ucast b) c)
                     else if MB_CUR_MAX utf8 = 1 then Some (converted 1 (CODEUNIT b) c)
                     else (case lead_state b of
                         None \<Rightarrow> Some ilseq
                       | Some c \<Rightarrow> mb_continue c s' (n - 1) n)
                else mb_continue c s n n))"

record mb_state =
  internal_state :: u32
  mbrlen_internal :: u32
  mb_errno :: c_int

text \<open>
  \<open>mbrtowc\<close>, with the caller's conversion state or its own: the result, the character stored
  and the caller's state afterwards.
\<close>

definition mbrtowc ::
  "bool \<Rightarrow> u8 list option \<Rightarrow> nat \<Rightarrow> u32 option \<Rightarrow> mb_state \<Rightarrow> ((size_t \<times> u32 option \<times> u32 option) \<times> mb_state) option" where
  "mbrtowc utf8 src n st s = do {
     r \<leftarrow> mb_decode utf8 src n (case st of None \<Rightarrow> internal_state s | Some c \<Rightarrow> c);
     let s = (if cv_ilseq r then s\<lparr>mb_errno := EILSEQ\<rparr> else s);
     Some (case st of
         None \<Rightarrow> ((cv_ret r, cv_wc r, None), s\<lparr>internal_state := cv_st r\<rparr>)
       | Some _ \<Rightarrow> ((cv_ret r, cv_wc r, Some (cv_st r)), s)) }"

definition mbrlen :: "bool \<Rightarrow> u8 list option \<Rightarrow> nat \<Rightarrow> u32 option \<Rightarrow> mb_state \<Rightarrow> ((size_t \<times> u32 option) \<times> mb_state) option" where
  "mbrlen utf8 src n st s =
     (case st of
        Some c \<Rightarrow> do {
          ((r, _, c), s) \<leftarrow> mbrtowc utf8 src n (Some c) s;
          Some ((r, c), s) }
      | None \<Rightarrow> do {
          ((r, _, c), s) \<leftarrow> mbrtowc utf8 src n (Some (mbrlen_internal s)) s;
          Some ((r, None), s\<lparr>mbrlen_internal := (case c of Some c \<Rightarrow> c | None \<Rightarrow> 0)\<rparr>) })"

definition mbsinit :: "u32 option \<Rightarrow> bool" where
  "mbsinit st = (case st of None \<Rightarrow> True | Some c \<Rightarrow> c = 0)"

text \<open>\<open>mbtowc\<close> has no state and unrolls the loop.\<close>

definition byte_at :: "u8 list \<Rightarrow> nat \<Rightarrow> u8 option" where
  "byte_at s i = (if i < length s then Some (s ! i) else None)"

definition mbtowc_ilseq :: "mb_state \<Rightarrow> ((c_int \<times> u32 option) \<times> mb_state) option" where
  "mbtowc_ilseq s = Some ((-1, None), s\<lparr>mb_errno := EILSEQ\<rparr>)"

definition mbtowc :: "bool \<Rightarrow> u8 list option \<Rightarrow> nat \<Rightarrow> mb_state \<Rightarrow> ((c_int \<times> u32 option) \<times> mb_state) option" where
  "mbtowc utf8 src n st =
     (case src of
        None \<Rightarrow> Some ((0, None), st)
      | Some s \<Rightarrow>
          if n = 0 then mbtowc_ilseq st
          else do {
            b \<leftarrow> byte_at s 0;
            if b < 0x80 then Some ((if ucast b \<noteq> (0 :: u32) then 1 else 0, Some (ucast b)), st)
            else if MB_CUR_MAX utf8 = 1 then Some ((1, Some (CODEUNIT b)), st)
            else (case lead_state b of
                None \<Rightarrow> mbtowc_ilseq st
              | Some c \<Rightarrow>
                  if n < 4 \<and> high_bit (push_bit (6 * n - 6) c) then mbtowc_ilseq st
                  else do {
                    b \<leftarrow> byte_at s 1;
                    if OOB c b then mbtowc_ilseq st
                    else do {
                      let c = add_byte c b;
                      if \<not> high_bit c then Some ((2, Some c), st)
                      else do {
                        b \<leftarrow> byte_at s 2;
                        if not_cont b then mbtowc_ilseq st
                        else do {
                          let c = add_byte c b;
                          if \<not> high_bit c then Some ((3, Some c), st)
                          else do {
                            b \<leftarrow> byte_at s 3;
                            if not_cont b then mbtowc_ilseq st
                            else Some ((4, Some (add_byte c b)), st) } } } } }) })"

definition mblen :: "bool \<Rightarrow> u8 list option \<Rightarrow> nat \<Rightarrow> mb_state \<Rightarrow> (c_int \<times> mb_state) option" where
  "mblen utf8 src n s = map_option (\<lambda>((r, _), s). (r, s)) (mbtowc utf8 src n s)"

section \<open>Encoding\<close>

text \<open>The result and the bytes stored, for a buffer or (\<open>False\<close>) the null pointer.\<close>

definition wcrtomb :: "bool \<Rightarrow> bool \<Rightarrow> u32 \<Rightarrow> mb_state \<Rightarrow> (size_t \<times> u8 list) \<times> mb_state" where
  "wcrtomb utf8 buf wc st =
     (if \<not> buf then ((1, []), st)
      else if wc < 0x80 then ((1, [ucast wc]), st)
      else if MB_CUR_MAX utf8 = 1
      then if \<not> IS_CODEUNIT wc then ((-1, []), st\<lparr>mb_errno := EILSEQ\<rparr>) else ((1, [ucast wc]), st)
      else if wc < 0x800
      then ((2, [ucast (0xc0 OR drop_bit 6 wc), ucast (0x80 OR (wc AND 0x3f))]), st)
      else if wc < 0xd800 \<or> wc - 0xe000 < 0x2000
      then ((3, [ucast (0xe0 OR drop_bit 12 wc), ucast (0x80 OR (drop_bit 6 wc AND 0x3f)),
                 ucast (0x80 OR (wc AND 0x3f))]), st)
      else if wc - 0x10000 < 0x100000
      then ((4, [ucast (0xf0 OR drop_bit 18 wc), ucast (0x80 OR (drop_bit 12 wc AND 0x3f)),
                 ucast (0x80 OR (drop_bit 6 wc AND 0x3f)), ucast (0x80 OR (wc AND 0x3f))]), st)
      else ((-1, []), st\<lparr>mb_errno := EILSEQ\<rparr>))"

definition wctomb :: "bool \<Rightarrow> bool \<Rightarrow> u32 \<Rightarrow> mb_state \<Rightarrow> (size_t \<times> u8 list) \<times> mb_state" where
  "wctomb utf8 buf wc st = (if \<not> buf then ((0, []), st) else wcrtomb utf8 buf wc st)"

section \<open>Single bytes\<close>

text \<open>\<open>WEOF\<close> and \<open>EOF\<close> are both -1.\<close>

definition btowc :: "bool \<Rightarrow> c_int \<Rightarrow> u32" where
  "btowc utf8 c =
     (let b = ucast c :: u8
      in if (ucast b :: u32) < 128 then ucast b
         else if MB_CUR_MAX utf8 = 1 \<and> c \<noteq> -1 then CODEUNIT (ucast c) else -1)"

definition wctob :: "bool \<Rightarrow> u32 \<Rightarrow> c_int" where
  "wctob utf8 c =
     (if c < 128 then c
      else if MB_CUR_MAX utf8 = 1 \<and> IS_CODEUNIT c then ucast (ucast c :: u8) else -1)"

end
