(* ===== verification/Multibyte_Strings.thy ===== *)
theory Multibyte_Strings
  imports Multibyte
begin

unbundle bit_operations_syntax

text \<open>
  Conversion of strings (\<open>mbsrtowcs.c\<close>, \<open>wcsrtombs.c\<close>, \<open>mbsnrtowcs.c\<close>, \<open>wcsnrtombs.c\<close>,
  \<open>mbstowcs.c\<close>, \<open>wcstombs.c\<close>) and of UTF-16 and UTF-32 code units (\<open>c16rtomb.c\<close>, \<open>mbrtoc16.c\<close>,
  \<open>mbrtoc32.c\<close>, \<open>c32rtomb.c\<close>).

  A source string is the memory from its first character on, and a pointer into it a position;
  the address of the first byte matters modulo 4, since the loops over ASCII characters read
  aligned words.  What a function stores in its destination is a list; a destination is
  present or the null pointer.  Reading past the memory gives \<^const>\<open>None\<close>.
\<close>

section \<open>From bytes to wide characters\<close>

text \<open>The test for a byte, and for four bytes at a time, that is ASCII and not NUL.\<close>

definition plain :: "u8 \<Rightarrow> bool" where
  "plain b \<longleftrightarrow> (ucast b :: u32) - 1 < 0x7f"

definition w32_at :: "u8 list \<Rightarrow> nat \<Rightarrow> u32 option" where
  "w32_at mem i =
     (if i + 4 \<le> length mem
      then Some (ucast (mem ! i) OR push_bit 8 (ucast (mem ! (i + 1))) OR
                 push_bit 16 (ucast (mem ! (i + 2))) OR push_bit 24 (ucast (mem ! (i + 3))))
      else None)"

definition plain_word :: "u32 \<Rightarrow> bool" where
  "plain_word w \<longleftrightarrow> (w OR (w - 0x01010101)) AND 0x80808080 = 0"

text \<open>Counting: the loops of a call without a destination.\<close>

partial_function (option) count_words :: "u8 list \<Rightarrow> nat \<Rightarrow> u32 \<Rightarrow> (nat \<times> u32) option" where
  "count_words mem i wn = do {
     w \<leftarrow> w32_at mem i;
     if plain_word w then count_words mem (i + 4) (wn - 4) else Some (i, wn) }"

text \<open>
  The bytes after a lead byte; on the left the state and the position with which the code
  leaves the loop, on the right the position after the character.
\<close>

definition count_tail :: "u32 \<Rightarrow> u8 list \<Rightarrow> nat \<Rightarrow> ((u32 \<times> int) + nat) option" where
  "count_tail c mem i = do {
     b \<leftarrow> byte_at mem i;
     if OOB c b then Some (Inl (c, int i - 1))
     else if c AND push_bit 25 1 = 0 then Some (Inr (i + 1))
     else do {
       b \<leftarrow> byte_at mem (i + 1);
       if not_cont b then Some (Inl (c, int (i + 1) - 2))
       else if c AND push_bit 19 1 = 0 then Some (Inr (i + 2))
       else do {
         b \<leftarrow> byte_at mem (i + 2);
         if not_cont b then Some (Inl (c, int (i + 2) - 3)) else Some (Inr (i + 3)) } } }"

partial_function (option) count_loop :: "u8 list \<Rightarrow> nat \<Rightarrow> nat \<Rightarrow> u32 \<Rightarrow> (u32 \<times> int \<times> u32) option" where
  "count_loop mem a i wn = do {
     b \<leftarrow> byte_at mem i;
     (i, wn) \<leftarrow> (if plain b \<and> (a + i) mod 4 = 0 then count_words mem i wn else Some (i, wn));
     b \<leftarrow> byte_at mem i;
     if plain b then count_loop mem a (i + 1) (wn - 1)
     else (case lead_state b of
         None \<Rightarrow> Some (0, int i, wn)
       | Some c \<Rightarrow> do {
           r \<leftarrow> count_tail c mem (i + 1);
           (case r of
              Inl (c, pos) \<Rightarrow> Some (c, pos, wn)
            | Inr i \<Rightarrow> count_loop mem a i (wn - 1)) }) }"

text \<open>Converting.\<close>

partial_function (option) conv_words ::
  "u8 list \<Rightarrow> nat \<Rightarrow> u32 list \<Rightarrow> u32 \<Rightarrow> (nat \<times> u32 list \<times> u32) option" where
  "conv_words mem i out wn =
     (if wn \<ge> 5
      then do {
        w \<leftarrow> w32_at mem i;
        if plain_word w
        then conv_words mem (i + 4)
               (out @ [ucast (mem ! i), ucast (mem ! (i + 1)), ucast (mem ! (i + 2)), ucast (mem ! (i + 3))]) (wn - 4)
        else Some (i, out, wn) }
      else Some (i, out, wn))"

definition conv_tail :: "u32 \<Rightarrow> u8 list \<Rightarrow> nat \<Rightarrow> ((u32 \<times> int) + (u32 \<times> nat)) option" where
  "conv_tail c mem i = do {
     b \<leftarrow> byte_at mem i;
     if OOB c b then Some (Inl (c, int i - 1))
     else do {
       let c = add_byte c b;
       if \<not> high_bit c then Some (Inr (c, i + 1))
       else do {
         b \<leftarrow> byte_at mem (i + 1);
         if not_cont b then Some (Inl (c, int (i + 1) - 2))
         else do {
           let c = add_byte c b;
           if \<not> high_bit c then Some (Inr (c, i + 2))
           else do {
             b \<leftarrow> byte_at mem (i + 2);
             if not_cont b then Some (Inl (c, int (i + 2) - 3)) else Some (Inr (add_byte c b, i + 3)) } } } } }"

datatype mbs_end = Full nat "u32 list" | Stopped u32 int "u32 list" u32

partial_function (option) conv_loop :: "u8 list \<Rightarrow> nat \<Rightarrow> nat \<Rightarrow> u32 list \<Rightarrow> u32 \<Rightarrow> mbs_end option" where
  "conv_loop mem a i out wn =
     (if wn = 0 then Some (Full i out)
      else do {
        b \<leftarrow> byte_at mem i;
        (i, out, wn) \<leftarrow> (if plain b \<and> (a + i) mod 4 = 0 then conv_words mem i out wn else Some (i, out, wn));
        b \<leftarrow> byte_at mem i;
        if plain b then conv_loop mem a (i + 1) (out @ [ucast b]) (wn - 1)
        else (case lead_state b of
            None \<Rightarrow> Some (Stopped 0 (int i) out wn)
          | Some c \<Rightarrow> do {
              r \<leftarrow> conv_tail c mem (i + 1);
              (case r of
                 Inl (c, pos) \<Rightarrow> Some (Stopped c pos out wn)
               | Inr (wc, i) \<Rightarrow> conv_loop mem a i (out @ [wc]) (wn - 1)) }) })"

text \<open>The loop of a locale with single bytes.\<close>

partial_function (option) bytes_loop :: "u8 list \<Rightarrow> nat \<Rightarrow> u32 list \<Rightarrow> u32 \<Rightarrow> mbs_end option" where
  "bytes_loop mem i out wn =
     (if wn = 0 then Some (Full i out)
      else do {
        b \<leftarrow> byte_at mem i;
        if b = 0 then Some (Stopped 0 (int i) out wn)
        else bytes_loop mem (i + 1) (out @ [CODEUNIT b]) (wn - 1) })"

partial_function (option) strlen_from :: "u8 list \<Rightarrow> nat \<Rightarrow> nat option" where
  "strlen_from mem i = do { b \<leftarrow> byte_at mem i; if b = 0 then Some i else strlen_from mem (i + 1) }"

text \<open>
  The result, the characters stored, the source pointer afterwards (\<^const>\<open>None\<close> is the null
  pointer) and the conversion state.
\<close>

record mbs =
  ms_ret :: size_t
  ms_out :: "u32 list"
  ms_src :: "int option"
  ms_st :: "u32 option"

definition stop_conv ::
  "bool \<Rightarrow> u8 list \<Rightarrow> u32 option \<Rightarrow> u32 \<Rightarrow> u32 \<times> int \<times> u32 list \<times> u32 \<Rightarrow> mb_state \<Rightarrow> (mbs \<times> mb_state) option" where
  "stop_conv ws mem st wn0 e s =
     (case e of (c, pos, out, wn) \<Rightarrow> do {
        nul \<leftarrow> (if c = 0 then map_option (\<lambda>b. b = 0) (byte_at mem (nat pos)) else Some False);
        Some (if nul
          then (\<lparr>ms_ret = wn0 - wn, ms_out = (if ws then out @ [0] else out), ms_src = (if ws then None else Some 0), ms_st = st\<rparr>, s)
          else (\<lparr>ms_ret = -1, ms_out = out, ms_src = (if ws then Some pos else Some 0), ms_st = st\<rparr>, s\<lparr>mb_errno := EILSEQ\<rparr>)) })"

definition end_conv ::
  "u8 list \<Rightarrow> u32 option \<Rightarrow> u32 \<Rightarrow> mbs_end \<Rightarrow> mb_state \<Rightarrow> (mbs \<times> mb_state) option" where
  "end_conv mem st wn0 e s =
     (case e of
        Full i out \<Rightarrow> Some (\<lparr>ms_ret = wn0, ms_out = out, ms_src = Some (int i), ms_st = st\<rparr>, s)
      | Stopped c pos out wn \<Rightarrow> stop_conv True mem st wn0 (c, pos, out, wn) s)"

definition end_count ::
  "u8 list \<Rightarrow> u32 option \<Rightarrow> u32 \<Rightarrow> u32 \<times> int \<times> u32 \<Rightarrow> mb_state \<Rightarrow> (mbs \<times> mb_state) option" where
  "end_count mem st wn0 e s = (case e of (c, pos, wn) \<Rightarrow> stop_conv False mem st wn0 (c, pos, [], wn) s)"

definition mbsrtowcs ::
  "bool \<Rightarrow> bool \<Rightarrow> u8 list \<Rightarrow> nat \<Rightarrow> u32 \<Rightarrow> u32 option \<Rightarrow> mb_state \<Rightarrow> (mbs \<times> mb_state) option" where
  "mbsrtowcs utf8 ws mem a wn st s =
     (let c = (case st of None \<Rightarrow> 0 | Some c \<Rightarrow> c)
      in if c \<noteq> 0
         then if ws
              then do {
                r \<leftarrow> conv_tail c mem 0;
                e \<leftarrow> (case r of
                  Inl (c, pos) \<Rightarrow> Some (Stopped c pos [] wn)
                | Inr (wc, i) \<Rightarrow> conv_loop mem a i [wc] (wn - 1));
                end_conv mem (Some 0) wn e s }
              else do {
                r \<leftarrow> count_tail c mem 0;
                e \<leftarrow> (case r of
                  Inl (c, pos) \<Rightarrow> Some (c, pos, wn)
                | Inr i \<Rightarrow> count_loop mem a i (wn - 1));
                end_count mem st wn e s }
         else if MB_CUR_MAX utf8 = 1
         then if ws
              then do { e \<leftarrow> bytes_loop mem 0 [] wn; end_conv mem st wn e s }
              else do {
                n \<leftarrow> strlen_from mem 0;
                Some (\<lparr>ms_ret = of_nat n, ms_out = [], ms_src = Some 0, ms_st = st\<rparr>, s) }
         else if ws
         then do { e \<leftarrow> conv_loop mem a 0 [] wn; end_conv mem st wn e s }
         else do { e \<leftarrow> count_loop mem a 0 wn; end_count mem st wn e s })"

definition mbstowcs ::
  "bool \<Rightarrow> bool \<Rightarrow> u8 list \<Rightarrow> nat \<Rightarrow> u32 \<Rightarrow> mb_state \<Rightarrow> ((size_t \<times> u32 list) \<times> mb_state) option" where
  "mbstowcs utf8 ws mem a wn s = do {
     (r, s) \<leftarrow> mbsrtowcs utf8 ws mem a wn None s;
     Some ((ms_ret r, ms_out r), s) }"

section \<open>From wide characters to bytes\<close>

definition wide_at :: "u32 list \<Rightarrow> nat \<Rightarrow> u32 option" where
  "wide_at wm j = (if j < length wm then Some (wm ! j) else None)"

record wcs =
  wr_ret :: size_t
  wr_out :: "u8 list"
  wr_src :: "nat option"

partial_function (option) wcs_count :: "bool \<Rightarrow> u32 list \<Rightarrow> nat \<Rightarrow> u32 \<Rightarrow> mb_state \<Rightarrow> (size_t \<times> mb_state) option" where
  "wcs_count utf8 wm j n s = do {
     wc \<leftarrow> wide_at wm j;
     if wc = 0 then Some (n, s)
     else if wc \<ge> 0x80
     then (let ((l, _), s) = wcrtomb utf8 True wc s
           in if l + 1 = 0 then Some (-1, s) else wcs_count utf8 wm (j + 1) (n + l) s)
     else wcs_count utf8 wm (j + 1) (n + 1) s }"

text \<open>
  The loop while four bytes are left, and the loop over the last bytes of the destination; on
  the left a result of the function, on the right the values with which the loop ends.
\<close>

partial_function (option) wcs_loop4 ::
  "bool \<Rightarrow> u32 list \<Rightarrow> u32 \<Rightarrow> nat \<Rightarrow> u8 list \<Rightarrow> u32 \<Rightarrow> mb_state \<Rightarrow>
   ((wcs + (nat \<times> u8 list \<times> u32)) \<times> mb_state) option" where
  "wcs_loop4 utf8 wm N j out n s =
     (if n \<ge> 4
      then do {
        wc \<leftarrow> wide_at wm j;
        if wc - 1 \<ge> 0x7f
        then if wc = 0 then Some (Inl \<lparr>wr_ret = N - n, wr_out = out @ [0], wr_src = None\<rparr>, s)
             else (let ((l, bs), s) = wcrtomb utf8 True wc s
                   in if l + 1 = 0 then Some (Inl \<lparr>wr_ret = -1, wr_out = out, wr_src = Some j\<rparr>, s)
                      else wcs_loop4 utf8 wm N (j + 1) (out @ bs) (n - l) s)
        else wcs_loop4 utf8 wm N (j + 1) (out @ [ucast wc]) (n - 1) s }
      else Some (Inr (j, out, n), s))"

partial_function (option) wcs_loop ::
  "bool \<Rightarrow> u32 list \<Rightarrow> u32 \<Rightarrow> nat \<Rightarrow> u8 list \<Rightarrow> u32 \<Rightarrow> mb_state \<Rightarrow> (wcs \<times> mb_state) option" where
  "wcs_loop utf8 wm N j out n s =
     (if n \<noteq> 0
      then do {
        wc \<leftarrow> wide_at wm j;
        if wc - 1 \<ge> 0x7f
        then if wc = 0 then Some (\<lparr>wr_ret = N - n, wr_out = out @ [0], wr_src = None\<rparr>, s)
             else (let ((l, bs), s) = wcrtomb utf8 True wc s
                   in if l + 1 = 0 then Some (\<lparr>wr_ret = -1, wr_out = out, wr_src = Some j\<rparr>, s)
                      else if l > n then Some (\<lparr>wr_ret = N - n, wr_out = out, wr_src = Some j\<rparr>, s)
                      else wcs_loop utf8 wm N (j + 1) (out @ bs) (n - l) s)
        else wcs_loop utf8 wm N (j + 1) (out @ [ucast wc]) (n - 1) s }
      else Some (\<lparr>wr_ret = N, wr_out = out, wr_src = Some j\<rparr>, s))"

definition wcsrtombs ::
  "bool \<Rightarrow> bool \<Rightarrow> u32 list \<Rightarrow> u32 \<Rightarrow> mb_state \<Rightarrow> (wcs \<times> mb_state) option" where
  "wcsrtombs utf8 dst wm n s =
     (if \<not> dst
      then do {
        (n, s) \<leftarrow> wcs_count utf8 wm 0 0 s;
        Some (\<lparr>wr_ret = n, wr_out = [], wr_src = Some 0\<rparr>, s) }
      else do {
        (r, s) \<leftarrow> wcs_loop4 utf8 wm n 0 [] n s;
        (case r of
           Inl r \<Rightarrow> Some (r, s)
         | Inr (j, out, left) \<Rightarrow> wcs_loop utf8 wm n j out left s) })"

definition wcstombs ::
  "bool \<Rightarrow> bool \<Rightarrow> u32 list \<Rightarrow> u32 \<Rightarrow> mb_state \<Rightarrow> ((size_t \<times> u8 list) \<times> mb_state) option" where
  "wcstombs utf8 dst wm n s = do {
     (r, s) \<leftarrow> wcsrtombs utf8 dst wm n s;
     Some ((wr_ret r, wr_out r), s) }"

definition MB_LEN_MAX :: u32 where "MB_LEN_MAX = 4"

partial_function (option) wcsn_loop ::
  "bool \<Rightarrow> bool \<Rightarrow> u32 list \<Rightarrow> nat option \<Rightarrow> u32 \<Rightarrow> u32 \<Rightarrow> size_t \<Rightarrow> u8 list \<Rightarrow> mb_state \<Rightarrow> (wcs \<times> mb_state) option" where
  "wcsn_loop utf8 dst wm ws wn n cnt out s =
     (case ws of
        None \<Rightarrow> Some (\<lparr>wr_ret = cnt, wr_out = out, wr_src = (if dst then ws else Some 0)\<rparr>, s)
      | Some j \<Rightarrow>
          if wn = 0 then Some (\<lparr>wr_ret = cnt, wr_out = out, wr_src = (if dst then ws else Some 0)\<rparr>, s)
          else do {
            wc \<leftarrow> wide_at wm j;
            let ((l, bs), s) = wcrtomb utf8 True wc s;
            if l = -1 then Some (\<lparr>wr_ret = -1, wr_out = out, wr_src = (if dst then ws else Some 0)\<rparr>, s)
            else if dst \<and> n < MB_LEN_MAX \<and> l > n
            then Some (\<lparr>wr_ret = cnt, wr_out = out, wr_src = (if dst then ws else Some 0)\<rparr>, s)
            else do {
              let out = (if dst then out @ bs else out);
              let n = (if dst then n - l else n);
              if wc = 0 then Some (\<lparr>wr_ret = cnt, wr_out = out, wr_src = (if dst then None else Some 0)\<rparr>, s)
              else wcsn_loop utf8 dst wm (Some (j + 1)) (wn - 1) n (cnt + l) out s } })"

definition wcsnrtombs ::
  "bool \<Rightarrow> bool \<Rightarrow> u32 list \<Rightarrow> u32 \<Rightarrow> u32 \<Rightarrow> mb_state \<Rightarrow> (wcs \<times> mb_state) option" where
  "wcsnrtombs utf8 dst wm wn n s = wcsn_loop utf8 dst wm (Some 0) wn (if dst then n else 0) 0 [] s"

section \<open>A bounded number of bytes\<close>

text \<open>
  \<open>mbsnrtowcs\<close>: chunks converted by \<open>mbsrtowcs\<close>, as long as the remaining bytes cannot run
  out, and then single characters.  A rollback through a null state is undefined.
\<close>

definition WBUF :: u32 where "WBUF = 256"

record mbsn =
  mn_src :: "int option"
  mn_n :: u32
  mn_wn :: u32
  mn_cnt :: size_t
  mn_out :: "u32 list"
  mn_st :: "u32 option"

partial_function (option) mbsn_chunks ::
  "bool \<Rightarrow> bool \<Rightarrow> u8 list \<Rightarrow> nat \<Rightarrow> mbsn \<Rightarrow> mb_state \<Rightarrow> (mbsn \<times> mb_state) option" where
  "mbsn_chunks utf8 wcs mem a m s =
     (case mn_src m of
        None \<Rightarrow> Some (m, s)
      | Some p \<Rightarrow>
          let n2 = mn_n m div 4
          in if mn_wn m \<noteq> 0 \<and> (n2 \<ge> mn_wn m \<or> n2 > 32)
             then do {
               let n2 = (if n2 \<ge> mn_wn m then mn_wn m else n2);
               (r, s) \<leftarrow> mbsrtowcs utf8 True (drop (nat p) mem) (a + nat p) n2 (mn_st m) s;
               let l = ms_ret r;
               let p' = map_option (\<lambda>q. p + q) (ms_src r);
               let m = m\<lparr>mn_src := p', mn_st := ms_st r, mn_out := mn_out m @ (if wcs then ms_out r else [])\<rparr>;
               if l + 1 = 0 then Some (m\<lparr>mn_cnt := l, mn_wn := 0\<rparr>, s)
               else mbsn_chunks utf8 wcs mem a
                      (m\<lparr>mn_wn := (if wcs then mn_wn m - l else mn_wn m),
                         mn_n := (case p' of None \<Rightarrow> 0 | Some p' \<Rightarrow> mn_n m - of_int (p' - p)),
                         mn_cnt := mn_cnt m + l\<rparr>) s }
             else Some (m, s))"

partial_function (option) mbsn_chars ::
  "bool \<Rightarrow> bool \<Rightarrow> u8 list \<Rightarrow> mbsn \<Rightarrow> mb_state \<Rightarrow> (mbsn \<times> mb_state) option" where
  "mbsn_chars utf8 wcs mem m s =
     (case mn_src m of
        None \<Rightarrow> Some (m, s)
      | Some p \<Rightarrow>
          if mn_wn m \<noteq> 0 \<and> mn_n m \<noteq> 0
          then do {
            ((l, wc, st), s) \<leftarrow> mbrtowc utf8 (Some (drop (nat p) mem)) (unat (mn_n m)) (mn_st m) s;
            let out = mn_out m @ (if wcs then (case wc of None \<Rightarrow> [] | Some wc \<Rightarrow> [wc]) else []);
            let m = m\<lparr>mn_st := st, mn_out := out\<rparr>;
            if l + 2 \<le> 2
            then if l + 1 = 0 then Some (m\<lparr>mn_cnt := l\<rparr>, s)
                 else if l = 0 then Some (m\<lparr>mn_src := None\<rparr>, s)
                 else (case st of None \<Rightarrow> None | Some _ \<Rightarrow> Some (m\<lparr>mn_st := Some 0\<rparr>, s))
            else mbsn_chars utf8 wcs mem
                   (m\<lparr>mn_src := Some (p + int (unat l)), mn_n := mn_n m - l, mn_wn := mn_wn m - 1,
                      mn_cnt := mn_cnt m + 1\<rparr>) s }
          else Some (m, s))"

definition mbsnrtowcs ::
  "bool \<Rightarrow> bool \<Rightarrow> u8 list \<Rightarrow> nat \<Rightarrow> u32 \<Rightarrow> u32 \<Rightarrow> u32 option \<Rightarrow> mb_state \<Rightarrow> (mbs \<times> mb_state) option" where
  "mbsnrtowcs utf8 wcs mem a n wn st s = do {
     (m, s) \<leftarrow> mbsn_chunks utf8 wcs mem a
       \<lparr>mn_src = Some 0, mn_n = n, mn_wn = (if wcs then wn else WBUF), mn_cnt = 0, mn_out = [], mn_st = st\<rparr> s;
     (m, s) \<leftarrow> mbsn_chars utf8 wcs mem m s;
     Some (\<lparr>ms_ret = mn_cnt m, ms_out = mn_out m, ms_src = (if wcs then mn_src m else Some 0), ms_st = mn_st m\<rparr>, s) }"

section \<open>UTF-16 and UTF-32\<close>

text \<open>Each function has a conversion state of its own for calls without one.\<close>

record uchar_state =
  uc_mb :: mb_state
  c16rtomb_internal :: u32
  mbrtoc16_internal :: u32
  mbrtoc32_internal :: u32

text \<open>One step of \<open>c16rtomb\<close>: the result, the bytes, the new conversion state.\<close>

definition c16_ilseq :: "mb_state \<Rightarrow> (size_t \<times> u8 list \<times> u32) \<times> mb_state" where
  "c16_ilseq s = ((-1, [], 0), s\<lparr>mb_errno := EILSEQ\<rparr>)"

definition c16_encode :: "bool \<Rightarrow> bool \<Rightarrow> u16 \<Rightarrow> u32 \<Rightarrow> mb_state \<Rightarrow> (size_t \<times> u8 list \<times> u32) \<times> mb_state" where
  "c16_encode utf8 dst c16 x s =
     (if \<not> dst then if x \<noteq> 0 then c16_ilseq s else ((1, [], x), s)
      else if x = 0 \<and> ucast c16 - 0xd800 < (0x400 :: u32)
      then ((0, [], push_bit 10 (ucast c16 - 0xd7c0)), s)
      else if x \<noteq> 0 \<and> ucast c16 - 0xdc00 \<ge> (0x400 :: u32) then c16_ilseq s
      else let wc = (if x \<noteq> 0 then x + ucast c16 - 0xdc00 else ucast c16);
               ((l, bs), s) = wcrtomb utf8 True wc s
           in ((l, bs, 0), s))"

definition c16rtomb ::
  "bool \<Rightarrow> bool \<Rightarrow> u16 \<Rightarrow> u32 option \<Rightarrow> uchar_state \<Rightarrow> (size_t \<times> u8 list \<times> u32 option) \<times> uchar_state" where
  "c16rtomb utf8 dst c16 ps s =
     (case ps of
        None \<Rightarrow> let ((r, bs, x), mb) = c16_encode utf8 dst c16 (c16rtomb_internal s) (uc_mb s)
                in ((r, bs, None), s\<lparr>uc_mb := mb, c16rtomb_internal := x\<rparr>)
      | Some x \<Rightarrow> let ((r, bs, x), mb) = c16_encode utf8 dst c16 x (uc_mb s)
                  in ((r, bs, Some x), s\<lparr>uc_mb := mb\<rparr>))"

definition c16_decode ::
  "bool \<Rightarrow> bool \<Rightarrow> u8 list option \<Rightarrow> nat \<Rightarrow> u32 \<Rightarrow> mb_state \<Rightarrow> ((size_t \<times> u16 option \<times> u32) \<times> mb_state) option" where
  "c16_decode utf8 pc16 src n pend s =
     (let (pc16, src, n) = (case src of None \<Rightarrow> (False, [0], 1) | Some bs \<Rightarrow> (pc16, bs, n))
      in if sint pend > 0
         then Some ((-3, if pc16 then Some (ucast pend) else None, 0), s)
         else do {
           ((ret, wc, st), s) \<leftarrow> mbrtowc utf8 (Some src) n (Some pend) s;
           pend \<leftarrow> st;
           if ret \<le> 4
           then do {
             wc \<leftarrow> wc;
             let (pend, wc) = (if sint wc \<ge> 0x10000 then ((wc AND 0x3ff) + 0xdc00, 0xd7c0 + drop_bit 10 wc) else (pend, wc));
             Some ((ret, if pc16 then Some (ucast wc) else None, pend), s) }
           else Some ((ret, None, pend), s) })"

definition mbrtoc16 ::
  "bool \<Rightarrow> bool \<Rightarrow> u8 list option \<Rightarrow> nat \<Rightarrow> u32 option \<Rightarrow> uchar_state \<Rightarrow>
   ((size_t \<times> u16 option \<times> u32 option) \<times> uchar_state) option" where
  "mbrtoc16 utf8 pc16 src n ps s =
     (case ps of
        None \<Rightarrow> do {
          ((r, c, x), mb) \<leftarrow> c16_decode utf8 pc16 src n (mbrtoc16_internal s) (uc_mb s);
          Some ((r, c, None), s\<lparr>uc_mb := mb, mbrtoc16_internal := x\<rparr>) }
      | Some x \<Rightarrow> do {
          ((r, c, x), mb) \<leftarrow> c16_decode utf8 pc16 src n x (uc_mb s);
          Some ((r, c, Some x), s\<lparr>uc_mb := mb\<rparr>) })"

definition c32_decode ::
  "bool \<Rightarrow> bool \<Rightarrow> u8 list option \<Rightarrow> nat \<Rightarrow> u32 \<Rightarrow> mb_state \<Rightarrow> ((size_t \<times> u32 option \<times> u32) \<times> mb_state) option" where
  "c32_decode utf8 pc32 src n x s =
     (let (pc32, src, n) = (case src of None \<Rightarrow> (False, [0], 1) | Some bs \<Rightarrow> (pc32, bs, n))
      in do {
        ((ret, wc, st), s) \<leftarrow> mbrtowc utf8 (Some src) n (Some x) s;
        x \<leftarrow> st;
        Some ((ret, if ret \<le> 4 \<and> pc32 then wc else None, x), s) })"

definition mbrtoc32 ::
  "bool \<Rightarrow> bool \<Rightarrow> u8 list option \<Rightarrow> nat \<Rightarrow> u32 option \<Rightarrow> uchar_state \<Rightarrow>
   ((size_t \<times> u32 option \<times> u32 option) \<times> uchar_state) option" where
  "mbrtoc32 utf8 pc32 src n ps s =
     (case ps of
        None \<Rightarrow> do {
          ((r, c, x), mb) \<leftarrow> c32_decode utf8 pc32 src n (mbrtoc32_internal s) (uc_mb s);
          Some ((r, c, None), s\<lparr>uc_mb := mb, mbrtoc32_internal := x\<rparr>) }
      | Some x \<Rightarrow> do {
          ((r, c, x), mb) \<leftarrow> c32_decode utf8 pc32 src n x (uc_mb s);
          Some ((r, c, Some x), s\<lparr>uc_mb := mb\<rparr>) })"

definition c32rtomb :: "bool \<Rightarrow> bool \<Rightarrow> u32 \<Rightarrow> uchar_state \<Rightarrow> (size_t \<times> u8 list) \<times> uchar_state" where
  "c32rtomb utf8 dst c32 s = (let (r, mb) = wcrtomb utf8 dst c32 (uc_mb s) in (r, s\<lparr>uc_mb := mb\<rparr>))"

declare count_words.simps [code] count_loop.simps [code] conv_words.simps [code] conv_loop.simps [code]
  bytes_loop.simps [code] strlen_from.simps [code] wcs_count.simps [code] wcs_loop4.simps [code]
  wcs_loop.simps [code] wcsn_loop.simps [code] mbsn_chunks.simps [code] mbsn_chars.simps [code]

end
