(* ===== verification/Multibyte_Spec.thy ===== *)
theory Multibyte_Spec
  imports Multibyte "HOL-Library.Sublist"
begin

unbundle bit_operations_syntax

text \<open>
  What UTF-8 is: the scalar values of Unicode and their encoding by arithmetic, and the
  well-formed byte sequences by ranges of bytes.  The two definitions agree.
\<close>

section \<open>Encoding\<close>

definition scalar :: "nat \<Rightarrow> bool" where
  "scalar x \<longleftrightarrow> x < 0xd800 \<or> 0xe000 \<le> x \<and> x < 0x110000"

definition utf8_bytes :: "nat \<Rightarrow> nat list" where
  "utf8_bytes x =
     (if x < 0x80 then [x]
      else if x < 0x800 then [0xc0 + x div 64, 0x80 + x mod 64]
      else if x < 0x10000 then [0xe0 + x div 4096, 0x80 + x div 64 mod 64, 0x80 + x mod 64]
      else [0xf0 + x div 262144, 0x80 + x div 4096 mod 64, 0x80 + x div 64 mod 64, 0x80 + x mod 64])"

section \<open>Well-formed sequences\<close>

text \<open>
  The ranges of the second byte, the number of bytes to come and the value bits of a lead
  byte, as in the table of well-formed byte sequences of the Unicode standard.
\<close>

definition lead_class :: "nat \<Rightarrow> (nat \<times> nat \<times> nat \<times> nat) option" where
  "lead_class b =
     (if 0xc2 \<le> b \<and> b \<le> 0xdf then Some (0x80, 0xbf, 1, b - 0xc0)
      else if b = 0xe0 then Some (0xa0, 0xbf, 2, 0)
      else if b = 0xed then Some (0x80, 0x9f, 2, 0xd)
      else if 0xe1 \<le> b \<and> b \<le> 0xef then Some (0x80, 0xbf, 2, b - 0xe0)
      else if b = 0xf0 then Some (0x90, 0xbf, 3, 0)
      else if 0xf1 \<le> b \<and> b \<le> 0xf3 then Some (0x80, 0xbf, 3, b - 0xf0)
      else if b = 0xf4 then Some (0x80, 0x8f, 3, 4)
      else None)"

datatype scan = Char nat nat | More | Bad

fun scan_tail :: "nat \<Rightarrow> nat \<Rightarrow> nat \<Rightarrow> nat \<Rightarrow> nat \<Rightarrow> nat list \<Rightarrow> scan" where
  "scan_tail lo hi k v j [] = More"
| "scan_tail lo hi k v j (b # bs) =
     (if lo \<le> b \<and> b \<le> hi
      then if k = 1 then Char (v * 64 + (b - 0x80)) (Suc j)
           else scan_tail 0x80 0xbf (k - 1) (v * 64 + (b - 0x80)) (Suc j) bs
      else Bad)"

fun utf8_scan :: "nat list \<Rightarrow> scan" where
  "utf8_scan [] = More"
| "utf8_scan (b # bs) =
     (if b < 0x80 then Char b 1
      else case lead_class b of
          None \<Rightarrow> Bad
        | Some (lo, hi, k, v) \<Rightarrow> scan_tail lo hi k v 1 bs)"

lemma scan_tail_Char:
  "scan_tail lo hi 1 v j bs = Char x m \<longleftrightarrow>
     (\<exists>y r. bs = y # r \<and> lo \<le> y \<and> y \<le> hi \<and> x = v * 64 + (y - 0x80) \<and> m = Suc j)"
  "scan_tail lo hi 2 v j bs = Char x m \<longleftrightarrow>
     (\<exists>y z r. bs = y # z # r \<and> lo \<le> y \<and> y \<le> hi \<and> 0x80 \<le> z \<and> z \<le> 0xbf \<and>
        x = (v * 64 + (y - 0x80)) * 64 + (z - 0x80) \<and> m = j + 2)"
  "scan_tail lo hi 3 v j bs = Char x m \<longleftrightarrow>
     (\<exists>y z u r. bs = y # z # u # r \<and> lo \<le> y \<and> y \<le> hi \<and> 0x80 \<le> z \<and> z \<le> 0xbf \<and> 0x80 \<le> u \<and> u \<le> 0xbf \<and>
        x = ((v * 64 + (y - 0x80)) * 64 + (z - 0x80)) * 64 + (u - 0x80) \<and> m = j + 3)"
  by (cases bs; cases "tl bs"; cases "tl (tl bs)"; force)+

lemma utf8_bytes_alt:
  "utf8_bytes x =
     (if x < 0x80 then [x]
      else if x < 0x800 then [0xc0 + x div 64, 0x80 + x mod 64]
      else if x < 0x10000 then [0xe0 + x div 64 div 64, 0x80 + x div 64 mod 64, 0x80 + x mod 64]
      else [0xf0 + x div 64 div 64 div 64, 0x80 + x div 64 div 64 mod 64, 0x80 + x div 64 mod 64, 0x80 + x mod 64])"
  by (simp add: utf8_bytes_def div_mult2_eq [symmetric])

lemma digit_64: "y < 64 \<Longrightarrow> (v * 64 + y) div 64 = v" "y < 64 \<Longrightarrow> (v * 64 + y) mod 64 = (y :: nat)"
  by simp_all

lemma utf8_bytes_2:
  assumes "v < 32" and "2 \<le> v" and "0x80 \<le> y" and "y \<le> 0xbf"
  shows "utf8_bytes (v * 64 + (y - 0x80)) = [0xc0 + v, y]" "scalar (v * 64 + (y - 0x80))"
proof -
  define y' where "y' = y - 0x80"
  have y: "y' < 64" "y = 0x80 + y'"
    using assms(3,4) by (simp_all add: y'_def)
  have x: "\<not> v * 64 + y' < 0x80" "v * 64 + y' < 0x800"
    using assms(1,2) y(1) by linarith+
  show "utf8_bytes (v * 64 + (y - 0x80)) = [0xc0 + v, y]" "scalar (v * 64 + (y - 0x80))"
    unfolding utf8_bytes_alt scalar_def y'_def [symmetric] digit_64 [OF y(1)] using x y by simp_all
qed

lemma utf8_bytes_3:
  assumes "v < 16" and "v = 0 \<Longrightarrow> 0xa0 \<le> y" and "v = 13 \<Longrightarrow> y \<le> 0x9f" and "0x80 \<le> y" and "y \<le> 0xbf"
    and "0x80 \<le> z" and "z \<le> 0xbf"
  shows "utf8_bytes ((v * 64 + (y - 0x80)) * 64 + (z - 0x80)) = [0xe0 + v, y, z]"
    "scalar ((v * 64 + (y - 0x80)) * 64 + (z - 0x80))"
proof -
  define y' z' where "y' = y - 0x80" and "z' = z - 0x80"
  have b: "y' < 64" "z' < 64" "y = 0x80 + y'" "z = 0x80 + z'"
    using assms(4-7) by (simp_all add: y'_def z'_def)
  have v: "v = 0 \<Longrightarrow> 32 \<le> y'" "v = 13 \<Longrightarrow> y' < 32"
    using assms(2,3) b(3) by auto
  have x: "\<not> (v * 64 + y') * 64 + z' < 0x800" "(v * 64 + y') * 64 + z' < 0x10000"
    using assms(1) v(1) b(1,2) by (cases "v = 0"; auto)+
  have s: "(v * 64 + y') * 64 + z' < 0xd800 \<or> 0xe000 \<le> (v * 64 + y') * 64 + z'"
    using v(2) b(1,2) by (cases "v < 13"; cases "v = 13") auto
  show "utf8_bytes ((v * 64 + (y - 0x80)) * 64 + (z - 0x80)) = [0xe0 + v, y, z]"
    "scalar ((v * 64 + (y - 0x80)) * 64 + (z - 0x80))"
    unfolding utf8_bytes_alt scalar_def y'_def [symmetric] z'_def [symmetric] digit_64 [OF b(1)] digit_64 [OF b(2)]
    using x s b by simp_all
qed

lemma utf8_bytes_4:
  assumes "v < 5" and "v = 0 \<Longrightarrow> 0x90 \<le> y" and "v = 4 \<Longrightarrow> y \<le> 0x8f" and "0x80 \<le> y" and "y \<le> 0xbf"
    and "0x80 \<le> z" and "z \<le> 0xbf" and "0x80 \<le> u" and "u \<le> 0xbf"
  shows "utf8_bytes (((v * 64 + (y - 0x80)) * 64 + (z - 0x80)) * 64 + (u - 0x80)) = [0xf0 + v, y, z, u]"
    "scalar (((v * 64 + (y - 0x80)) * 64 + (z - 0x80)) * 64 + (u - 0x80))"
proof -
  define y' z' u' where "y' = y - 0x80" and "z' = z - 0x80" and "u' = u - 0x80"
  have b: "y' < 64" "z' < 64" "u' < 64" "y = 0x80 + y'" "z = 0x80 + z'" "u = 0x80 + u'"
    using assms(4-9) by (simp_all add: y'_def z'_def u'_def)
  have v: "v = 0 \<Longrightarrow> 16 \<le> y'" "v = 4 \<Longrightarrow> y' < 16"
    using assms(2,3) b(4) by auto
  have x: "0x10000 \<le> ((v * 64 + y') * 64 + z') * 64 + u'"
    using v(1) by (cases "v = 0") auto
  have s: "((v * 64 + y') * 64 + z') * 64 + u' < 0x110000"
    using assms(1) v(2) b(1,2,3) by (cases "v = 4") auto
  show "utf8_bytes (((v * 64 + (y - 0x80)) * 64 + (z - 0x80)) * 64 + (u - 0x80)) = [0xf0 + v, y, z, u]"
    "scalar (((v * 64 + (y - 0x80)) * 64 + (z - 0x80)) * 64 + (u - 0x80))"
    unfolding utf8_bytes_alt scalar_def y'_def [symmetric] z'_def [symmetric] u'_def [symmetric]
      digit_64 [OF b(1)] digit_64 [OF b(2)] digit_64 [OF b(3)]
    using x s b by simp_all
qed

lemma lead_class_cases:
  assumes "lead_class b = Some (lo, hi, k, v)"
  obtains "k = 1" "2 \<le> v" "v < 32" "b = 0xc0 + v" "lo = 0x80" "hi = 0xbf"
  | "k = 2" "v < 16" "b = 0xe0 + v" "lo = (if v = 0 then 0xa0 else 0x80)" "hi = (if v = 13 then 0x9f else 0xbf)"
  | "k = 3" "v < 5" "b = 0xf0 + v" "lo = (if v = 0 then 0x90 else 0x80)" "hi = (if v = 4 then 0x8f else 0xbf)"
  using assms unfolding lead_class_def by (auto split: if_splits)

lemma lead_class_lead:
  "2 \<le> v \<Longrightarrow> v < 32 \<Longrightarrow> lead_class (0xc0 + v) = Some (0x80, 0xbf, 1, v)"
  "v < 16 \<Longrightarrow> lead_class (0xe0 + v) = Some (if v = 0 then 0xa0 else 0x80, if v = 13 then 0x9f else 0xbf, 2, v)"
  "v < 5 \<Longrightarrow> lead_class (0xf0 + v) = Some (if v = 0 then 0x90 else 0x80, if v = 4 then 0x8f else 0xbf, 3, v)"
  by (auto simp: lead_class_def)

lemma scan_char_prefix:
  assumes "utf8_scan bs = Char x k"
  shows "scalar x \<and> k = length (utf8_bytes x) \<and> prefix (utf8_bytes x) bs"
proof (cases bs)
  case (Cons b r)
  show ?thesis
  proof (cases "b < 0x80")
    case True
    then show ?thesis
      using assms Cons by (auto simp: scalar_def utf8_bytes_def)
  next
    case False
    then obtain lo hi j v where lead: "lead_class b = Some (lo, hi, j, v)" and tail: "scan_tail lo hi j v 1 r = Char x k"
      using assms Cons by (auto split: option.splits)
    from lead show ?thesis
    proof (cases rule: lead_class_cases)
      case 1
      then show ?thesis
        using tail Cons utf8_bytes_2 [of v] unfolding 1(1) scan_tail_Char by auto
    next
      case 2
      obtain y z r' where t: "r = y # z # r'" "lo \<le> y" "y \<le> hi" "0x80 \<le> z" "z \<le> 0xbf"
        "x = (v * 64 + (y - 0x80)) * 64 + (z - 0x80)" "k = 1 + 2"
        using tail unfolding 2(1) scan_tail_Char by blast
      have "utf8_bytes x = [0xe0 + v, y, z]" "scalar x"
        unfolding t(6) by (rule utf8_bytes_3; use t(2-5) 2 in \<open>auto split: if_splits\<close>)+
      then show ?thesis
        using t(1,7) Cons 2(3) by simp
    next
      case 3
      obtain y z u r' where t: "r = y # z # u # r'" "lo \<le> y" "y \<le> hi" "0x80 \<le> z" "z \<le> 0xbf" "0x80 \<le> u" "u \<le> 0xbf"
        "x = ((v * 64 + (y - 0x80)) * 64 + (z - 0x80)) * 64 + (u - 0x80)" "k = 1 + 3"
        using tail unfolding 3(1) scan_tail_Char by blast
      have "utf8_bytes x = [0xf0 + v, y, z, u]" "scalar x"
        unfolding t(8) by (rule utf8_bytes_4; use t(2-7) 3 in \<open>auto split: if_splits\<close>)+
      then show ?thesis
        using t(1,9) Cons 3(3) by simp
    qed
  qed
qed (use assms in simp)

lemma scan_encoding:
  assumes "scalar x"
  shows "utf8_scan (utf8_bytes x @ bs) = Char x (length (utf8_bytes x))"
proof -
  define q q2 q3 where "q = x div 64" and "q2 = q div 64" and "q3 = q2 div 64"
  define r r1 r2 where "r = x mod 64" and "r1 = q mod 64" and "r2 = q2 mod 64"
  have eqs: "q * 64 + r = x" "q2 * 64 + r1 = q" "q3 * 64 + r2 = q2" "r < 64" "r1 < 64" "r2 < 64"
    by (simp_all add: q_def q2_def q3_def r_def r1_def r2_def)
  have bytes: "utf8_bytes x =
     (if x < 0x80 then [x]
      else if x < 0x800 then [0xc0 + q, 0x80 + r]
      else if x < 0x10000 then [0xe0 + q2, 0x80 + r1, 0x80 + r]
      else [0xf0 + q3, 0x80 + r2, 0x80 + r1, 0x80 + r])"
    unfolding utf8_bytes_alt q_def q2_def q3_def r_def r1_def r2_def ..
  consider "x < 0x80" | "0x80 \<le> x" "x < 0x800" | "0x800 \<le> x" "x < 0x10000" | "0x10000 \<le> x"
    by linarith
  then show ?thesis
  proof cases
    case 1
    then show ?thesis
      by (simp add: bytes)
  next
    case 2
    then have "2 \<le> q" "q < 32"
      using eqs(1,4) by linarith+
    then show ?thesis
      using 2 eqs lead_class_lead(1) [of q] by (simp add: bytes)
  next
    case 3
    have "q2 < 16"
      using 3(2) eqs(1,2) by linarith
    moreover have "q2 = 0 \<Longrightarrow> 32 \<le> r1"
      using 3(1) eqs(1,2,4) by linarith
    moreover have "q2 = 13 \<Longrightarrow> r1 < 32"
      using assms eqs(1,2,4,5) unfolding scalar_def by linarith
    ultimately show ?thesis
      using 3 eqs lead_class_lead(2) [of q2] by (auto simp: bytes numeral_2_eq_2)
  next
    case 4
    then have top: "x < 0x110000"
      using assms by (simp add: scalar_def)
    have "q3 < 5"
      using top eqs(1-3) by linarith
    moreover have "q3 = 0 \<Longrightarrow> 16 \<le> r2"
      using 4 eqs by linarith
    moreover have "q3 = 4 \<Longrightarrow> r2 < 16"
      using top eqs by linarith
    ultimately show ?thesis
      using 4 eqs lead_class_lead(3) [of q3] by (auto simp: bytes numeral_3_eq_3)
  qed
qed

lemma scan_tail_fill:
  assumes "lo \<le> hi"
  shows "\<exists>x fill. length fill = Suc k \<and> scan_tail lo hi (Suc k) v j fill = Char x (j + Suc k)"
  using assms
proof (induction k arbitrary: lo hi v j)
  case 0
  then show ?case
    by (intro exI [of _ "v * 64 + (lo - 0x80)"] exI [of _ "[lo]"]) simp
next
  case (Suc k)
  have "(0x80 :: nat) \<le> 0xbf"
    by simp
  from Suc.IH [OF this] obtain x fill where "length fill = Suc k"
    "scan_tail 0x80 0xbf (Suc k) (v * 64 + (lo - 0x80)) (Suc j) fill = Char x (Suc j + Suc k)"
    by blast
  then show ?case
    using Suc.prems by (intro exI [of _ x] exI [of _ "lo # fill"]) simp
qed

lemma scan_tail_more:
  assumes "scan_tail lo hi k v j bs = More" and "lo \<le> hi" and "0 < k"
  shows "\<exists>x fill. fill \<noteq> [] \<and> scan_tail lo hi k v j (bs @ fill) = Char x (j + k) \<and> length (bs @ fill) = k"
  using assms
proof (induction lo hi k v j bs rule: scan_tail.induct)
  case (1 lo hi k v j)
  then show ?case
    using scan_tail_fill [of lo hi "k - 1" v j] by auto
next
  case (2 lo hi k v j b bs)
  then have "lo \<le> b" "b \<le> hi" "k \<noteq> 1" and more: "scan_tail 0x80 0xbf (k - 1) (v * 64 + (b - 0x80)) (Suc j) bs = More"
    by (auto split: if_splits)
  obtain x fill where "fill \<noteq> []" "scan_tail 0x80 0xbf (k - 1) (v * 64 + (b - 0x80)) (Suc j) (bs @ fill) = Char x (Suc j + (k - 1))"
    "length (bs @ fill) = k - 1"
    using "2.IH" [OF _ \<open>k \<noteq> 1\<close> more] \<open>lo \<le> b\<close> \<open>b \<le> hi\<close> \<open>k \<noteq> 1\<close> "2.prems"(3) by auto
  then show ?case
    using \<open>lo \<le> b\<close> \<open>b \<le> hi\<close> \<open>k \<noteq> 1\<close> "2.prems"(3) by (intro exI [of _ x] exI [of _ fill]) auto
qed

lemma scan_more_prefix:
  assumes "utf8_scan bs = More"
  shows "\<exists>x. scalar x \<and> strict_prefix bs (utf8_bytes x)"
proof (cases bs)
  case Nil
  then show ?thesis
    by (intro exI [of _ 0]) (simp add: scalar_def utf8_bytes_def)
next
  case (Cons b r)
  then obtain lo hi k v where lead: "lead_class b = Some (lo, hi, k, v)" and tail: "scan_tail lo hi k v 1 r = More"
    and b: "\<not> b < 0x80"
    using assms by (auto split: option.splits if_splits)
  have "lo \<le> hi" "0 < k"
    using lead by (cases rule: lead_class_cases; simp)+
  then obtain x fill where fill: "fill \<noteq> []" "scan_tail lo hi k v 1 (r @ fill) = Char x (1 + k)" "length (r @ fill) = k"
    using scan_tail_more [OF tail] by auto
  then have "utf8_scan (bs @ fill) = Char x (1 + k)"
    using lead b Cons by simp
  from scan_char_prefix [OF this] have "scalar x" "prefix (utf8_bytes x) (bs @ fill)" "length (utf8_bytes x) = length (bs @ fill)"
    using fill(3) Cons by simp_all
  then have "utf8_bytes x = bs @ fill"
    by (metis append_eq_conv_conj prefix_def take_all_iff order_refl)
  then show ?thesis
    using \<open>scalar x\<close> fill(1) by (auto simp: strict_prefix_def)
qed

end
