(* ===== verification/Multibyte_Decode.thy ===== *)
theory Multibyte_Decode
  imports Multibyte_Spec
begin

unbundle bit_operations_syntax

text \<open>
  The state word of the decoder holds the value bits read so far, the number of bytes to come
  and the range of the next byte; with this the decoder computes what the table of
  well-formed sequences says.
\<close>

section \<open>Words\<close>

lemma high_bit_iff: "high_bit c \<longleftrightarrow> 2 ^ 31 \<le> unat c"
proof -
  have "c AND push_bit 31 1 = 0 \<longleftrightarrow> \<not> bit c 31"
    using and_exp_eq_0_iff_not_bit [of c 31] by (simp only: push_bit_of_1)
  moreover have "bit c 31 \<longleftrightarrow> drop_bit 31 (unat c) \<noteq> 0"
    using drop_bit_eq_zero_iff_not_bit_last [of c] by (simp add: unat_drop_bit_eq [symmetric] unat_eq_0)
  moreover have "drop_bit 31 (unat c) \<noteq> 0 \<longleftrightarrow> 2 ^ 31 \<le> unat c"
    by (simp add: drop_bit_eq_div div_eq_0_iff not_less)
  ultimately show ?thesis
    by (simp add: high_bit_def)
qed

lemma below_8_iff: "x AND NOT 7 = 0 \<longleftrightarrow> x < (8 :: u32)"
proof -
  have m: "(7 :: u32) = mask 3"
    by (simp add: mask_eq_exp_minus_1)
  have "x AND NOT (mask 3) = 0 \<longleftrightarrow> take_bit 3 x = x"
    by (auto simp: bit_eq_iff bit_simps)
  also have "\<dots> \<longleftrightarrow> x < 8"
    by (simp add: word_unat_eq_iff unsigned_take_bit_eq take_bit_nat_eq_self_iff word_less_nat_alt)
  finally show ?thesis
    by (simp add: m)
qed

lemma OOB_iff: "OOB c b \<longleftrightarrow> \<not> (drop_bit 3 (ucast b) - 0x10 < (8 :: u32) \<and> drop_bit 3 (ucast b) + signed_drop_bit 26 c < 8)"
proof -
  have "(x OR y) AND NOT 7 = 0 \<longleftrightarrow> x AND NOT 7 = 0 \<and> y AND NOT 7 = 0" for x y :: u32
    by (simp add: bit.conj_disj_distrib2 or_eq_0_iff)
  then show ?thesis
    unfolding OOB_def below_8_iff [symmetric] by simp
qed

lemma byte_less: "unat (b :: u8) < 256"
  using unsigned_less [of b] by simp

lemma unat_ucast_byte [simp]: "unat (ucast (b :: u8) :: u32) = unat b"
  using byte_less [of b] by (simp add: unsigned_ucast_eq take_bit_nat_eq_self_iff)

lemma unat_small: "x < 2 ^ 32 \<Longrightarrow> unat (of_nat x :: u32) = x"
  by (simp add: unsigned_of_nat take_bit_nat_eq_self_iff)

lemma range_sub:
  assumes "q < 32" and "off \<le> 32"
  shows "(of_nat q - of_nat off :: u32) < 8 \<longleftrightarrow> off \<le> q \<and> q < off + 8"
  using assms by (auto simp: word_less_nat_alt unat_sub_if' unat_small)

lemma OOB_range:
  assumes "signed_drop_bit 26 c = - of_nat off" and "off \<le> 32"
  shows "OOB c b \<longleftrightarrow> \<not> (16 \<le> unat b div 8 \<and> unat b div 8 < 24 \<and> off \<le> unat b div 8 \<and> unat b div 8 < off + 8)"
proof -
  note b = byte_less [of b]
  have "unat (drop_bit 3 (ucast b) :: u32) = unat b div 8"
    unfolding unat_drop_bit_eq by (simp add: drop_bit_eq_div)
  then have "(drop_bit 3 (ucast b) :: u32) = of_nat (unat b div 8)"
    using b by (simp add: word_unat_eq_iff unat_small)
  then show ?thesis
    using range_sub [of "unat b div 8" 16] range_sub [of "unat b div 8" off] assms b unfolding OOB_iff by auto
qed

section \<open>States\<close>

text \<open>The bits above the value after the next shift, for \<open>k\<close> bytes to come.\<close>

definition shifted_tail :: "nat \<Rightarrow> u32" where
  "shifted_tail k = (if k = 1 then 0 else if k = 2 then 0xc0000000 else 0xc3000000)"

definition pending :: "u32 \<Rightarrow> nat \<Rightarrow> nat \<Rightarrow> nat \<Rightarrow> nat \<Rightarrow> bool" where
  "pending c lo hi k v \<longleftrightarrow> 1 \<le> k \<and> k \<le> 3 \<and> high_bit c \<and> 0x80 \<le> lo \<and> hi \<le> 0xbf \<and>
     (\<forall>b. OOB c b \<longleftrightarrow> \<not> (lo \<le> unat b \<and> unat b \<le> hi)) \<and>
     push_bit 6 c = shifted_tail k + of_nat (v * 64) \<and> v * 64 ^ k < 2 ^ 21"

lemma bittab_alt:
  "bittab = map (\<lambda>v. C_entry (of_nat v)) [2..<32] @ map (\<lambda>v. E_entry (of_nat v)) [0..<16] @
     map (\<lambda>v. F_entry (of_nat v)) [0..<5]"
  by (simp add: bittab_def D_entry_def upt_rec)

lemma C_entries: "list_all (\<lambda>v. C_entry (of_nat v) = 0xc0000000 + of_nat v) [2..<32]"
  by (simp add: C_entry_def R_range_def)

lemma E_entries:
  "list_all (\<lambda>v. E_entry (of_nat v) = (if v = 0 then 0xb3000000 else if v = 13 then 0xd3000000 else 0xc3000000) + of_nat v) [0..<16]"
  by (simp add: E_entry_def R_range_def upt_rec)

lemma F_entries:
  "list_all (\<lambda>v. F_entry (of_nat v) = (if v = 0 then 0xbb0c0000 else if v = 4 then 0xdb0c0000 else 0xc30c0000) + of_nat v) [0..<5]"
  by (simp add: F_entry_def R_range_def upt_rec word_le_nat_alt)

lemma entry_words:
  "2 \<le> v \<Longrightarrow> v < 32 \<Longrightarrow> C_entry (of_nat v) = of_nat (0xc0000000 + v)"
  "v < 16 \<Longrightarrow> E_entry (of_nat v) = of_nat ((if v = 0 then 0xb3000000 else if v = 13 then 0xd3000000 else 0xc3000000) + v)"
  "v < 5 \<Longrightarrow> F_entry (of_nat v) = of_nat ((if v = 0 then 0xbb0c0000 else if v = 4 then 0xdb0c0000 else 0xc30c0000) + v)"
  using C_entries E_entries F_entries unfolding list_all_iff set_upt by auto

lemma bittab_nth:
  "2 \<le> v \<Longrightarrow> v < 32 \<Longrightarrow> bittab ! (v - 2) = C_entry (of_nat v)"
  "v < 16 \<Longrightarrow> bittab ! (v + 30) = E_entry (of_nat v)"
  "v < 5 \<Longrightarrow> bittab ! (v + 46) = F_entry (of_nat v)"
  unfolding bittab_alt by (auto simp: nth_append simp del: upt_rec_numeral upt_Suc)

lemma signed_drop_bit_cong:
  fixes c d :: u32
  assumes "unat c div 2 ^ 26 = unat d div 2 ^ 26"
  shows "signed_drop_bit 26 c = signed_drop_bit 26 d"
proof (rule bit_word_eqI)
  fix i
  have "drop_bit 26 c = drop_bit 26 d"
    using assms unfolding word_unat_eq_iff unat_drop_bit_eq by (simp add: drop_bit_eq_div)
  then have "bit c (26 + j) = bit d (26 + j)" for j
    by (metis bit_drop_bit_eq comp_apply)
  from this [of i] this [of 5] show "bit (signed_drop_bit 26 c) i = bit (signed_drop_bit 26 d) i"
    by (simp add: bit_signed_drop_bit_iff)
qed

text \<open>Bytes whose upper five bits are in a range.\<close>

lemma byte_range:
  fixes b :: nat
  shows "16 \<le> b div 8 \<and> b div 8 < 24 \<and> 16 \<le> b div 8 \<and> b div 8 < 16 + 8 \<longleftrightarrow> 0x80 \<le> b \<and> b \<le> 0xbf"
    "16 \<le> b div 8 \<and> b div 8 < 24 \<and> 20 \<le> b div 8 \<and> b div 8 < 20 + 8 \<longleftrightarrow> 0xa0 \<le> b \<and> b \<le> 0xbf"
    "16 \<le> b div 8 \<and> b div 8 < 24 \<and> 12 \<le> b div 8 \<and> b div 8 < 12 + 8 \<longleftrightarrow> 0x80 \<le> b \<and> b \<le> 0x9f"
    "16 \<le> b div 8 \<and> b div 8 < 24 \<and> 18 \<le> b div 8 \<and> b div 8 < 18 + 8 \<longleftrightarrow> 0x90 \<le> b \<and> b \<le> 0xbf"
    "16 \<le> b div 8 \<and> b div 8 < 24 \<and> 10 \<le> b div 8 \<and> b div 8 < 10 + 8 \<longleftrightarrow> 0x80 \<le> b \<and> b \<le> 0x8f"
  by linarith+

lemma OOB_top:
  assumes "unat c div 2 ^ 26 = t"
  shows "t = 48 \<Longrightarrow> OOB c b \<longleftrightarrow> \<not> (0x80 \<le> unat b \<and> unat b \<le> 0xbf)"
    "t = 44 \<Longrightarrow> OOB c b \<longleftrightarrow> \<not> (0xa0 \<le> unat b \<and> unat b \<le> 0xbf)"
    "t = 52 \<Longrightarrow> OOB c b \<longleftrightarrow> \<not> (0x80 \<le> unat b \<and> unat b \<le> 0x9f)"
    "t = 46 \<Longrightarrow> OOB c b \<longleftrightarrow> \<not> (0x90 \<le> unat b \<and> unat b \<le> 0xbf)"
    "t = 54 \<Longrightarrow> OOB c b \<longleftrightarrow> \<not> (0x80 \<le> unat b \<and> unat b \<le> 0x8f)"
proof -
  have sdb: "signed_drop_bit 26 c = - of_nat off"
    if "unat d div 2 ^ 26 = t" "signed_drop_bit 26 d = - of_nat off" for d :: u32 and off
    using signed_drop_bit_cong [of c d] assms that by simp
  show "OOB c b \<longleftrightarrow> \<not> (0x80 \<le> unat b \<and> unat b \<le> 0xbf)" if "t = 48"
    unfolding byte_range(1) [symmetric] by (rule OOB_range [OF sdb [of "0xc0000000" 16]]) (simp_all add: that)
  show "OOB c b \<longleftrightarrow> \<not> (0xa0 \<le> unat b \<and> unat b \<le> 0xbf)" if "t = 44"
    unfolding byte_range(2) [symmetric] by (rule OOB_range [OF sdb [of "0xb0000000" 20]]) (simp_all add: that)
  show "OOB c b \<longleftrightarrow> \<not> (0x80 \<le> unat b \<and> unat b \<le> 0x9f)" if "t = 52"
    unfolding byte_range(3) [symmetric] by (rule OOB_range [OF sdb [of "0xd0000000" 12]]) (simp_all add: that)
  show "OOB c b \<longleftrightarrow> \<not> (0x90 \<le> unat b \<and> unat b \<le> 0xbf)" if "t = 46"
    unfolding byte_range(4) [symmetric] by (rule OOB_range [OF sdb [of "0xb8000000" 18]]) (simp_all add: that)
  show "OOB c b \<longleftrightarrow> \<not> (0x80 \<le> unat b \<and> unat b \<le> 0x8f)" if "t = 54"
    unfolding byte_range(5) [symmetric] by (rule OOB_range [OF sdb [of "0xd8000000" 10]]) (simp_all add: that)
qed

lemma div_top: "v < 2 ^ 20 \<Longrightarrow> (t * 2 ^ 26 + d + v) div (2 ^ 26 :: nat) = t" if "d \<le> 0x3f00000"
  using that by simp

lemma pending_entry:
  assumes "c = of_nat (B + v)" and "v < 2 ^ 20" and "B = T * 2 ^ 26 + d" and "d \<le> 0x3f00000"
    and "32 \<le> T" and "T < 64" and "of_nat (B * 64) = shifted_tail k" and "1 \<le> k" "k \<le> 3" "v * 64 ^ k < 2 ^ 21"
    and "0x80 \<le> lo" and "hi \<le> 0xbf" and "\<And>b. unat c div 2 ^ 26 = T \<Longrightarrow> OOB c b \<longleftrightarrow> \<not> (lo \<le> unat b \<and> unat b \<le> hi)"
  shows "pending c lo hi k v"
proof -
  have "B + v < 2 ^ 32"
    using assms(2-4,6) by simp
  then have c: "unat c = B + v"
    unfolding assms(1) by (rule unat_small)
  then have top: "unat c div 2 ^ 26 = T"
    using div_top [OF assms(4,2)] by (simp add: assms(3))
  have "T * 2 ^ 26 \<le> unat c"
    using c by (simp add: assms(3))
  then have "2 ^ 31 \<le> unat c"
    using assms(5) by simp
  moreover have "push_bit 6 c = of_nat (B * 64) + of_nat (v * 64)"
    unfolding assms(1) by (simp add: push_bit_eq_mult algebra_simps)
  ultimately show ?thesis
    using assms(7-12) assms(13) [OF top] by (simp add: pending_def high_bit_iff)
qed

lemma pending_lead:
  assumes "lead_class (unat b) = Some (lo, hi, k, v)"
  obtains c where "lead_state b = Some c" "pending c lo hi k v"
proof -
  let ?i = "unat (ucast b - SA :: u32)"
  note b = unat_ucast_byte [of b] byte_less [of b]
  from assms have "0xc2 \<le> unat b" "unat b \<le> 0xf4"
    by (cases rule: lead_class_cases; simp)+
  then have i: "?i = unat b - 0xc2" "\<not> ucast b - SA > SB - SA"
    using b by (simp_all add: SA_def SB_def unat_sub_if' word_less_nat_alt)
  then have state: "lead_state b = Some (bittab ! (unat b - 0xc2))"
    by (simp add: lead_state_def)
  from assms show thesis
  proof (cases rule: lead_class_cases)
    case 1
    have entry: "bittab ! (unat b - 0xc2) = of_nat (0xc0000000 + v)"
      using 1 bittab_nth(1) [of v] entry_words(1) [of v] by simp
    have small: "v < 2 ^ 20" "v * 64 ^ k < 2 ^ 21"
      using 1 by simp_all
    have "pending (bittab ! (unat b - 0xc2)) lo hi k v"
      by (rule pending_entry [OF entry small(1), where T = 48 and d = 0])
        (use 1 small in \<open>simp_all add: shifted_tail_def OOB_top\<close>)
    then show thesis
      using that state by blast
  next
    case 2
    have entry: "bittab ! (unat b - 0xc2) = of_nat ((if v = 0 then 0xb3000000 else if v = 13 then 0xd3000000 else 0xc3000000) + v)"
      using 2 bittab_nth(2) [of v] entry_words(2) [of v] by (simp add: add.commute [of v] del: of_nat_add)
    have small: "v < 2 ^ 20" "v * 64 ^ k < 2 ^ 21"
      using 2 by simp_all
    have "pending (bittab ! (unat b - 0xc2)) lo hi k v"
      by (rule pending_entry [OF entry small(1), where T = "if v = 0 then 44 else if v = 13 then 52 else 48" and d = "0x3000000"])
        (use 2 small in \<open>simp_all add: shifted_tail_def OOB_top split: if_splits\<close>)
    then show thesis
      using that state by blast
  next
    case 3
    have entry: "bittab ! (unat b - 0xc2) = of_nat ((if v = 0 then 0xbb0c0000 else if v = 4 then 0xdb0c0000 else 0xc30c0000) + v)"
      using 3 bittab_nth(3) [of v] entry_words(3) [of v] by (simp add: add.commute [of v] del: of_nat_add)
    have small: "v < 2 ^ 20" "v * 64 ^ k < 2 ^ 21"
      using 3 by simp_all
    have "pending (bittab ! (unat b - 0xc2)) lo hi k v"
      by (rule pending_entry [OF entry small(1), where T = "if v = 0 then 46 else if v = 4 then 54 else 48" and d = "0x30c0000"])
        (use 3 small in \<open>simp_all add: shifted_tail_def OOB_top split: if_splits\<close>)
    then show thesis
      using that state by blast
  qed
qed

lemma no_lead:
  assumes "lead_class (unat b) = None" and "0x80 \<le> unat b"
  shows "lead_state b = None"
proof -
  have "unat b < 0xc2 \<or> 0xf4 < unat b"
    using assms(1) unfolding lead_class_def by (auto split: if_splits)
  then have "ucast b - SA > SB - SA"
    using byte_less [of b] assms(2) by (auto simp: SA_def SB_def unat_sub_if' word_less_nat_alt)
  then show ?thesis
    by (simp add: lead_state_def)
qed

lemma not_cont_iff: "not_cont b \<longleftrightarrow> \<not> (0x80 \<le> unat b \<and> unat b \<le> 0xbf)"
  using byte_less [of b] by (auto simp: not_cont_def word_le_nat_alt unat_sub_if')

section \<open>Steps\<close>

lemma or_below:
  fixes x y :: u32
  assumes "unat y < 2 ^ n"
  shows "push_bit n x OR y = push_bit n x + y"
proof -
  have y: "take_bit n y = y"
    using assms by (simp add: word_unat_eq_iff unsigned_take_bit_eq take_bit_nat_eq_self_iff)
  have "push_bit n x AND take_bit n y = 0"
    by (rule bit_word_eqI) (auto simp: bit_simps)
  then show ?thesis
    by (simp add: y disjunctive_add_eq_or)
qed

lemma add_byte_cont:
  assumes "0x80 \<le> unat b" and "unat b \<le> 0xbf"
  shows "add_byte c b = push_bit 6 c + of_nat (unat b - 0x80)"
proof -
  have "unat (ucast b - 0x80 :: u32) = unat b - 0x80"
    using assms by (simp add: unat_sub_if')
  moreover have "(ucast b - 0x80 :: u32) = of_nat (unat b - 0x80)"
    using calculation byte_less [of b] by (simp add: word_unat_eq_iff unat_small del: of_nat_diff)
  ultimately show ?thesis
    using assms or_below [of "ucast b - 0x80" 6 c] by (simp add: add_byte_def del: of_nat_diff)
qed

lemma pending_order: "pending c lo hi k v \<Longrightarrow> k = 1 \<or> k = 2 \<or> k = 3"
  unfolding pending_def by linarith

lemma pending_byte:
  assumes "pending c lo hi k v" and "lo \<le> unat b" and "unat b \<le> hi"
  defines "x \<equiv> v * 64 + (unat b - 0x80)"
  shows "add_byte c b = shifted_tail k + of_nat x" "x * 64 ^ (k - 1) < 2 ^ 21"
proof -
  have range: "0x80 \<le> unat b" "unat b \<le> 0xbf"
    using assms(1-3) by (simp_all add: pending_def)
  show "add_byte c b = shifted_tail k + of_nat x"
    using assms(1) unfolding add_byte_cont [OF range] pending_def x_def by (simp add: ac_simps)
  consider "k = 1" "v < 2 ^ 15" | "k = 2" "v < 2 ^ 9" | "k = 3" "v < 2 ^ 3"
    using pending_order [OF assms(1)] assms(1) by (auto simp: pending_def)
  then show "x * 64 ^ (k - 1) < 2 ^ 21"
    using range by cases (simp_all add: x_def)
qed

lemma pending_next:
  assumes "pending c lo hi k v" and "lo \<le> unat b" and "unat b \<le> hi" and "k \<noteq> 1"
  shows "high_bit (add_byte c b)" "pending (add_byte c b) 0x80 0xbf (k - 1) (v * 64 + (unat b - 0x80))"
proof -
  let ?x = "v * 64 + (unat b - 0x80)"
  note byte = pending_byte [OF assms(1-3)]
  from assms(4) consider "k = 2" | "k = 3"
    using pending_order [OF assms(1)] by blast
  then show nxt: "pending (add_byte c b) 0x80 0xbf (k - 1) ?x"
  proof cases
    case 1
    then have eq: "add_byte c b = of_nat (0xc0000000 + ?x)" and small: "?x < 2 ^ 20"
      using byte by (simp_all add: shifted_tail_def)
    show ?thesis
      by (rule pending_entry [OF eq small, where T = 48 and d = 0])
        (use byte(2) 1 in \<open>simp_all add: shifted_tail_def OOB_top\<close>)
  next
    case 2
    then have eq: "add_byte c b = of_nat (0xc3000000 + ?x)" and small: "?x < 2 ^ 20"
      using byte by (simp_all add: shifted_tail_def)
    show ?thesis
      by (rule pending_entry [OF eq small, where T = 48 and d = "0x3000000"])
        (use byte(2) 2 in \<open>simp_all add: shifted_tail_def OOB_top\<close>)
  qed
  then show "high_bit (add_byte c b)"
    by (simp add: pending_def)
qed

lemma pending_last:
  assumes "pending c lo hi 1 v" and "lo \<le> unat b" and "unat b \<le> hi"
  shows "\<not> high_bit (add_byte c b)" "add_byte c b = of_nat (v * 64 + (unat b - 0x80))"
proof -
  let ?x = "v * 64 + (unat b - 0x80)"
  note byte = pending_byte [OF assms]
  show eq: "add_byte c b = of_nat ?x"
    using byte(1) by (simp add: shifted_tail_def)
  show "\<not> high_bit (add_byte c b)"
    using byte(2) unfolding eq high_bit_iff by (subst unat_small) simp_all
qed

section \<open>The decoder\<close>

definition conv_of :: "u32 \<Rightarrow> scan \<Rightarrow> conv" where
  "conv_of c r = (case r of
     Char x n \<Rightarrow> converted (of_nat n) (of_nat x) 0
   | More \<Rightarrow> incomplete c
   | Bad \<Rightarrow> ilseq)"

lemma conv_of_simps [simp]:
  "conv_of c (Char x n) = converted (of_nat n) (of_nat x) 0" "conv_of c More = incomplete c" "conv_of c Bad = ilseq"
  by (simp_all add: conv_of_def)

lemma mb_loop_step:
  assumes "pending c lo hi k v" and "lo \<le> unat b" and "unat b \<le> hi"
  shows "mb_loop c (b # s) n N =
    (if k = 1 then Some (converted (of_nat (N - (n - 1))) (of_nat (v * 64 + (unat b - 0x80))) 0)
     else mb_continue (add_byte c b) s (n - 1) N)"
proof (cases "k = 1")
  case True
  then show ?thesis
    using pending_last [of c lo hi v b] assms by simp
next
  case False
  note nxt = pending_next [OF assms False]
  have "OOB (add_byte c b) b' = not_cont b'" for b'
    using nxt(2) by (simp add: pending_def not_cont_iff)
  then show ?thesis
    using False nxt(1) by (auto simp: mb_continue_def Let_def split: list.split)
qed

lemma mb_continue_scan:
  assumes "pending c lo hi k v" and "n \<le> length s" and "j + n = N"
  shows "mb_continue c s n N =
    Some (conv_of (foldl add_byte c (take n s)) (scan_tail lo hi k v j (map unat (take n s))))"
  using assms
proof (induction n arbitrary: c lo hi k v s j)
  case (Suc n)
  then obtain b s' where s: "s = b # s'"
    by (cases s) auto
  have oob: "OOB c b \<longleftrightarrow> \<not> (lo \<le> unat b \<and> unat b \<le> hi)"
    using Suc.prems(1) by (simp add: pending_def)
  show ?case
  proof (cases "lo \<le> unat b \<and> unat b \<le> hi")
    case True
    then have step: "mb_continue c s (Suc n) N =
        (if k = 1 then Some (converted (of_nat (N - n)) (of_nat (v * 64 + (unat b - 0x80))) 0)
         else mb_continue (add_byte c b) s' n N)"
      using mb_loop_step [OF Suc.prems(1), of b s' "Suc n" N] oob by (simp add: mb_continue_def s)
    show ?thesis
    proof (cases "k = 1")
      case False
      have "mb_continue (add_byte c b) s' n N = Some (conv_of (foldl add_byte (add_byte c b) (take n s'))
          (scan_tail 0x80 0xbf (k - 1) (v * 64 + (unat b - 0x80)) (Suc j) (map unat (take n s'))))"
        using Suc.prems(2,3) pending_next(2) [OF Suc.prems(1) _ _ False] True by (intro Suc.IH) (auto simp: s)
      then show ?thesis
        using True False unfolding step by (simp add: s)
    next
      case True
      have "N - n = Suc j"
        using Suc.prems(3) by simp
      then show ?thesis
        using True \<open>lo \<le> unat b \<and> unat b \<le> hi\<close> unfolding step by (simp add: s)
    qed
  next
    case False
    then show ?thesis
      using oob by (auto simp: mb_continue_def s)
  qed
qed (simp add: mb_continue_def)

definition partial_state :: "u8 list \<Rightarrow> u32" where
  "partial_state bs = (case bs of [] \<Rightarrow> 0 | b # r \<Rightarrow> foldl add_byte (the (lead_state b)) r)"

definition decode_result :: "u8 list \<Rightarrow> conv" where
  "decode_result bs = (case utf8_scan (map unat bs) of
     Char x k \<Rightarrow> converted (if x = 0 then 0 else of_nat k) (of_nat x) 0
   | More \<Rightarrow> incomplete (partial_state bs)
   | Bad \<Rightarrow> ilseq)"

lemma scan_char_pos:
  assumes "utf8_scan (b # bs) = Char x k" and "0x80 \<le> b"
  shows "x \<noteq> 0"
proof
  assume "x = 0"
  then have "utf8_bytes x = [0]"
    by (simp add: utf8_bytes_def)
  then show False
    using scan_char_prefix [OF assms(1)] assms(2) by auto
qed

lemma mb_decode_scan:
  assumes "n \<le> length s" and "0 < n"
  shows "mb_decode True (Some s) n 0 = Some (decode_result (take n s))"
proof -
  obtain b s' m where s: "s = b # s'" "n = Suc m"
    using assms by (cases s; cases n) auto
  show ?thesis
  proof (cases "b < 0x80")
    case True
    then have "unat b < 0x80"
      by (simp add: word_less_nat_alt)
    moreover have "ucast b \<noteq> (0 :: u32) \<longleftrightarrow> unat b \<noteq> 0"
      by (simp add: word_unat_eq_iff)
    ultimately show ?thesis
      using True by (auto simp: mb_decode_def s decode_result_def)
  next
    case False
    then have b: "\<not> unat b < 0x80"
      by (simp add: word_less_nat_alt)
    show ?thesis
    proof (cases "lead_class (unat b)")
      case None
      then show ?thesis
        using False b no_lead [OF None] by (simp add: mb_decode_def s decode_result_def MB_CUR_MAX_def)
    next
      case (Some p)
      obtain lo hi k v where lead: "lead_class (unat b) = Some (lo, hi, k, v)"
        using Some by (cases p) auto
      obtain c where c: "lead_state b = Some c" "pending c lo hi k v"
        by (rule pending_lead [OF lead])
      have "mb_decode True (Some s) n 0 = mb_continue c s' m n"
        using False c(1) by (simp add: mb_decode_def s MB_CUR_MAX_def)
      also have "\<dots> = Some (conv_of (foldl add_byte c (take m s')) (scan_tail lo hi k v 1 (map unat (take m s'))))"
        using assms(1) by (intro mb_continue_scan [OF c(2)]) (simp_all add: s)
      finally show ?thesis
        using b lead c(1) scan_char_pos [of "unat b" "map unat (take m s')"]
        by (auto simp: s decode_result_def partial_state_def conv_of_def split: scan.split)
    qed
  qed
qed

section \<open>Restarting\<close>

fun shift_count :: "nat \<Rightarrow> scan \<Rightarrow> scan" where
  "shift_count i (Char x k) = Char x (k + i)"
| "shift_count i r = r"

lemma scan_tail_shift: "scan_tail lo hi k v (j + i) bs = shift_count i (scan_tail lo hi k v j bs)"
  by (induction lo hi k v j bs rule: scan_tail.induct) auto

lemma scan_tail_restart:
  assumes "pending c lo hi k v" and "scan_tail lo hi k v j (map unat bs) = More"
  shows "\<exists>lo' hi' k' v'. pending (foldl add_byte c bs) lo' hi' k' v' \<and>
    (\<forall>qs. scan_tail lo hi k v j (map unat bs @ qs) = scan_tail lo' hi' k' v' (j + length bs) qs)"
  using assms
proof (induction bs arbitrary: c lo hi k v j)
  case Nil
  then show ?case
    by auto
next
  case (Cons b bs)
  then have b: "lo \<le> unat b" "unat b \<le> hi" "k \<noteq> 1"
    by (auto split: if_splits)
  from Cons.IH [OF pending_next(2) [OF Cons.prems(1) b], of "Suc j"] show ?case
    using Cons.prems(2) b by simp
qed

lemma partial_pending:
  assumes "utf8_scan (map unat p) = More" and "p \<noteq> []"
  shows "\<exists>lo hi k v. pending (partial_state p) lo hi k v \<and>
    (\<forall>qs. utf8_scan (map unat p @ qs) = scan_tail lo hi k v (length p) qs)"
proof -
  obtain b r where p: "p = b # r"
    using assms(2) by (cases p) auto
  obtain lo hi k v where lead: "lead_class (unat b) = Some (lo, hi, k, v)" and b: "\<not> unat b < 0x80"
    and tail: "scan_tail lo hi k v 1 (map unat r) = More"
    using assms(1) p by (auto split: option.splits if_splits)
  obtain c where c: "lead_state b = Some c" "pending c lo hi k v"
    by (rule pending_lead [OF lead])
  from scan_tail_restart [OF c(2) tail] show ?thesis
    using lead b c(1) by (simp add: p partial_state_def)
qed

lemma mb_decode_restart:
  assumes "utf8_scan (map unat p) = More" and "p \<noteq> []" and "q \<noteq> []"
  shows "\<exists>r. mb_decode True (Some q) (length q) (partial_state p) = Some r \<and>
    decode_result (p @ q) = (if cv_wc r = None then r else r\<lparr>cv_ret := cv_ret r + of_nat (length p)\<rparr>)"
proof -
  obtain lo hi k v where pend: "pending (partial_state p) lo hi k v"
    and scan: "\<And>qs. utf8_scan (map unat p @ qs) = scan_tail lo hi k v (length p) qs"
    using partial_pending [OF assms(1,2)] by blast
  have "partial_state p \<noteq> 0"
    using pend by (auto simp: pending_def high_bit_iff)
  then have "mb_decode True (Some q) (length q) (partial_state p) = mb_continue (partial_state p) q (length q) (length q)"
    using assms(3) by (cases q) (simp_all add: mb_decode_def)
  also have "\<dots> = Some (conv_of (foldl add_byte (partial_state p) q) (scan_tail lo hi k v 0 (map unat q)))"
    using mb_continue_scan [OF pend, of "length q" q 0] by simp
  finally have first: "mb_decode True (Some q) (length q) (partial_state p) =
      Some (conv_of (foldl add_byte (partial_state p) q) (scan_tail lo hi k v 0 (map unat q)))" .
  obtain b r where p: "p = b # r"
    using assms(2) by (cases p) auto
  have "0x80 \<le> unat b"
    using assms(1) p by (simp split: if_splits)
  then have pos: "utf8_scan (map unat p @ map unat q) = Char x n \<Longrightarrow> x \<noteq> 0" for x n
    using scan_char_pos [of "unat b" "map unat (r @ q)" x n] by (simp add: p)
  have whole: "utf8_scan (map unat p @ map unat q) = shift_count (length p) (scan_tail lo hi k v 0 (map unat q))"
    using scan scan_tail_shift [of lo hi k v 0 "length p"] by simp
  show ?thesis
    unfolding first decode_result_def using whole pos
    by (cases "scan_tail lo hi k v 0 (map unat q)") (auto simp: partial_state_def p)
qed

end
