(* ===== verification/Multibyte_Calls.thy ===== *)
theory Multibyte_Calls
  imports Multibyte_Decode
begin

unbundle bit_operations_syntax

text \<open>
  Properties of the multibyte functions: \<open>mbrtowc\<close> decodes exactly UTF-8 and can be restarted
  after any byte, \<open>wcrtomb\<close> is its inverse, \<open>mbtowc\<close> agrees with it, and in the C locale every
  byte has its own wide character.
\<close>

section \<open>Decoding\<close>

lemma utf8_bytes_length: "0 < length (utf8_bytes x)" "length (utf8_bytes x) \<le> 4"
  by (simp_all add: utf8_bytes_def)

lemma scan_cases:
  obtains (char) x where "scalar x" "prefix (utf8_bytes x) bs" "utf8_scan bs = Char x (length (utf8_bytes x))"
  | (more) x where "scalar x" "strict_prefix bs (utf8_bytes x)" "utf8_scan bs = More"
  | (bad) "utf8_scan bs = Bad"
proof (cases "utf8_scan bs")
  case (Char x k)
  then show thesis
    using scan_char_prefix [OF Char] char by blast
next
  case More
  then show thesis
    using scan_more_prefix [OF More] more by blast
next
  case Bad
  then show thesis
    by (rule bad)
qed

lemma scan_bad:
  assumes "utf8_scan bs = Bad" and "scalar x"
  shows "\<not> prefix (utf8_bytes x) bs" "\<not> prefix bs (utf8_bytes x)"
proof -
  show "\<not> prefix (utf8_bytes x) bs"
    using scan_encoding [OF assms(2)] assms(1) by (auto elim!: prefixE)
  have tail: "scan_tail lo hi k v j as = Bad \<Longrightarrow> scan_tail lo hi k v j (as @ cs) = Bad" for lo hi k v j as cs
    by (induction lo hi k v j as rule: scan_tail.induct) (auto split: if_splits)
  have "utf8_scan (bs @ cs) = Bad" for cs
    using assms(1) tail by (cases bs) (auto split: if_splits option.splits)
  then show "\<not> prefix bs (utf8_bytes x)"
    using scan_encoding [OF assms(2), of "[]"] by (auto elim!: prefixE)
qed

lemma mbrtowc_initial:
  assumes "n \<le> length bs" and "0 < n"
  defines "r \<equiv> decode_result (take n bs)"
  shows "mbrtowc True (Some bs) n (Some 0) st =
    Some ((cv_ret r, cv_wc r, Some (cv_st r)), if cv_ilseq r then st\<lparr>mb_errno := EILSEQ\<rparr> else st)"
  using mb_decode_scan [OF assms(1,2)] by (simp add: mbrtowc_def r_def)

text \<open>
  C25. Decoding is exact: started in the initial state on \<open>n\<close> bytes, \<open>mbrtowc\<close> returns a
  character if and only if the bytes begin with the UTF-8 encoding of a Unicode scalar
  value, which is then the result together with the length of its encoding (0 for the null
  character); it returns -2 if the bytes are the beginning of such an encoding, and in every
  other case it fails with \<open>EILSEQ\<close>.  Overlong forms, surrogates and values above 0x10ffff
  are thereby rejected.
\<close>

theorem mbrtowc_decodes_utf8:
  assumes "n \<le> length bs" and "0 < n"
  shows "\<exists>r wc c s'. mbrtowc True (Some bs) n (Some 0) st = Some ((r, wc, Some c), s') \<and>
    ((\<exists>x. scalar x \<and> prefix (utf8_bytes x) (map unat (take n bs)) \<and>
        r = (if x = 0 then 0 else of_nat (length (utf8_bytes x))) \<and> wc = Some (of_nat x) \<and> c = 0 \<and> s' = st) \<or>
     (\<exists>x. scalar x \<and> strict_prefix (map unat (take n bs)) (utf8_bytes x) \<and> r = -2 \<and> wc = None \<and> s' = st) \<or>
     (\<forall>x. scalar x \<longrightarrow> \<not> prefix (utf8_bytes x) (map unat (take n bs)) \<and> \<not> prefix (map unat (take n bs)) (utf8_bytes x)) \<and>
       r = -1 \<and> wc = None \<and> c = 0 \<and> s' = st\<lparr>mb_errno := EILSEQ\<rparr>)"
proof (cases "map unat (take n bs)" rule: scan_cases)
  case (char x)
  then have "mbrtowc True (Some bs) n (Some 0) st =
      Some ((if x = 0 then 0 else of_nat (length (utf8_bytes x)), Some (of_nat x), Some 0), st)"
    unfolding mbrtowc_initial [OF assms] by (simp add: decode_result_def)
  then show ?thesis
    using char(1,2) by blast
next
  case (more x)
  then have "mbrtowc True (Some bs) n (Some 0) st = Some ((-2, None, Some (partial_state (take n bs))), st)"
    unfolding mbrtowc_initial [OF assms] by (simp add: decode_result_def)
  then show ?thesis
    using more(1,2) by blast
next
  case bad
  then have "mbrtowc True (Some bs) n (Some 0) st = Some ((-1, None, Some 0), st\<lparr>mb_errno := EILSEQ\<rparr>)"
    unfolding mbrtowc_initial [OF assms] by (simp add: decode_result_def)
  then show ?thesis
    using scan_bad [OF bad] by blast
qed

definition mb_start :: mb_state where
  "mb_start = \<lparr>internal_state = 0, mbrlen_internal = 0, mb_errno = 0\<rparr>"

lemma mbrtowc_decodes_utf8_witness:
  "\<exists>r wc c s'. mbrtowc True (Some [0xe2, 0x82, 0xac]) 3 (Some 0) mb_start = Some ((r, wc, Some c), s') \<and>
    ((\<exists>x. scalar x \<and> prefix (utf8_bytes x) [0xe2, 0x82, 0xac] \<and>
        r = (if x = 0 then 0 else of_nat (length (utf8_bytes x))) \<and> wc = Some (of_nat x) \<and> c = 0 \<and> s' = mb_start) \<or>
     (\<exists>x. scalar x \<and> strict_prefix [0xe2, 0x82, 0xac] (utf8_bytes x) \<and> r = -2 \<and> wc = None \<and> s' = mb_start) \<or>
     (\<forall>x. scalar x \<longrightarrow> \<not> prefix (utf8_bytes x) [0xe2, 0x82, 0xac] \<and> \<not> prefix [0xe2, 0x82, 0xac] (utf8_bytes x)) \<and>
       r = -1 \<and> wc = None \<and> c = 0 \<and> s' = mb_start\<lparr>mb_errno := EILSEQ\<rparr>)"
proof -
  have "map unat (take 3 [0xe2, 0x82, 0xac :: u8]) = [0xe2, 0x82, 0xac]"
    by simp
  from mbrtowc_decodes_utf8 [of 3 "[0xe2, 0x82, 0xac]" mb_start, unfolded this] show ?thesis
    by (simp only: list.size)
qed

text \<open>
  C26. Decoding can be interrupted after any byte: when \<open>mbrtowc\<close>, with its own conversion state,
  reports the bytes \<open>p\<close> as incomplete, a second call on the bytes \<open>q\<close> gives the character, the
  state and the error that one call on all the bytes gives; only the count is that of \<open>q\<close>.
\<close>

theorem mbrtowc_restartable:
  assumes "internal_state s = 0" and "p \<noteq> []" and "q \<noteq> []"
    and "mbrtowc True (Some p) (length p) None s = Some ((-2, wc', st'), s1)"
  shows "\<exists>r wc s2. mbrtowc True (Some q) (length q) None s1 = Some ((r, wc, None), s2) \<and>
    mbrtowc True (Some (p @ q)) (length p + length q) None s =
      Some ((if wc = None then r else r + of_nat (length p), wc, None), s2)"
proof -
  have p: "mb_decode True (Some p) (length p) 0 = Some (decode_result p)"
    using mb_decode_scan [of "length p" p] assms(2) by simp
  have pq: "mb_decode True (Some (p @ q)) (length p + length q) 0 = Some (decode_result (p @ q))"
    using mb_decode_scan [of "length p + length q" "p @ q"] assms(2) by simp
  have ret: "cv_ret (decode_result p) = -2" and s1: "cv_ilseq (decode_result p) = False \<Longrightarrow> s1 = s\<lparr>internal_state := cv_st (decode_result p)\<rparr>"
    using assms(1,4) p by (auto simp: mbrtowc_def)
  have more: "utf8_scan (map unat p) = More"
  proof (cases "map unat p" rule: scan_cases)
    case (char x)
    have "unat (of_nat (length (utf8_bytes x)) :: u32) \<le> 4"
      using utf8_bytes_length(2) [of x] by (simp add: unat_small)
    then have "(of_nat (length (utf8_bytes x)) :: u32) \<noteq> -2" "(0 :: u32) \<noteq> -2"
      by auto
    then show ?thesis
      using ret char(3) by (auto simp: decode_result_def split: if_splits)
  qed (use ret in \<open>simp_all add: decode_result_def\<close>)
  then have st: "s1 = s\<lparr>internal_state := partial_state p\<rparr>"
    using s1 by (simp add: decode_result_def)
  obtain r where r: "mb_decode True (Some q) (length q) (partial_state p) = Some r"
    "decode_result (p @ q) = (if cv_wc r = None then r else r\<lparr>cv_ret := cv_ret r + of_nat (length p)\<rparr>)"
    using mb_decode_restart [OF more assms(2,3)] by blast
  show ?thesis
    using assms(1) r pq by (auto simp: mbrtowc_def st Let_def)
qed

lemma mbrtowc_restartable_witness:
  "\<exists>r wc s2. mbrtowc True (Some [0x82, 0xac]) (length [0x82, 0xac :: u8]) None
      (mb_start\<lparr>internal_state := partial_state [0xe2]\<rparr>) = Some ((r, wc, None), s2) \<and>
    mbrtowc True (Some ([0xe2] @ [0x82, 0xac])) (length [0xe2 :: u8] + length [0x82, 0xac :: u8]) None mb_start =
      Some ((if wc = None then r else r + of_nat (length [0xe2 :: u8]), wc, None), s2)"
proof -
  have "utf8_scan (map unat [0xe2 :: u8]) = More"
    by (simp add: lead_class_def)
  then have "mbrtowc True (Some [0xe2]) (length [0xe2 :: u8]) None mb_start =
      Some ((-2, None, None), mb_start\<lparr>internal_state := partial_state [0xe2]\<rparr>)"
    using mb_decode_scan [of 1 "[0xe2]"] by (simp add: mbrtowc_def mb_start_def decode_result_def)
  then show ?thesis
    by (rule mbrtowc_restartable [rotated 3]) (simp_all add: mb_start_def)
qed

section \<open>The function without a state\<close>

lemma high_of_nat: "x < 2 ^ 32 \<Longrightarrow> high_bit (of_nat x) \<longleftrightarrow> 2 ^ 31 \<le> x"
  unfolding high_bit_iff by (simp only: unat_small)

lemma high_after_shift:
  assumes "pending c lo hi k v" and "m < 3"
  shows "high_bit (push_bit (6 * m) c) \<longleftrightarrow> m < k"
proof -
  have c: "push_bit 6 c = shifted_tail k + of_nat (v * 64)" "high_bit c" "v * 64 ^ k < 2 ^ 21"
    using assms(1) by (simp_all add: pending_def)
  have two: "push_bit 12 c = push_bit 6 (push_bit 6 c)"
    by simp
  consider "k = 1" "v < 2 ^ 15" | "k = 2" "v < 2 ^ 9" | "k = 3" "v < 2 ^ 3"
    using pending_order [OF assms(1)] c(3) by auto
  then have "(high_bit (push_bit 6 c) \<longleftrightarrow> 1 < k) \<and> (high_bit (push_bit 6 (push_bit 6 c)) \<longleftrightarrow> 2 < k)"
    unfolding c(1)
  proof cases
    case 1
    have "0 + of_nat (v * 64) = (of_nat (v * 64) :: u32)" "push_bit 6 (0 + of_nat (v * 64)) = (of_nat (v * 4096) :: u32)"
      by (simp_all add: push_bit_eq_mult)
    then show "(high_bit (shifted_tail k + of_nat (v * 64)) \<longleftrightarrow> 1 < k) \<and>
        (high_bit (push_bit 6 (shifted_tail k + of_nat (v * 64))) \<longleftrightarrow> 2 < k)"
      using 1 high_of_nat [of "v * 64"] high_of_nat [of "v * 4096"] by (simp_all add: shifted_tail_def)
  next
    case 2
    have "0xc0000000 + of_nat (v * 64) = (of_nat (0xc0000000 + v * 64) :: u32)"
      "push_bit 6 (0xc0000000 + of_nat (v * 64)) = (of_nat (v * 4096) :: u32)"
      by (simp_all add: push_bit_eq_mult distrib_right)
    then show "(high_bit (shifted_tail k + of_nat (v * 64)) \<longleftrightarrow> 1 < k) \<and>
        (high_bit (push_bit 6 (shifted_tail k + of_nat (v * 64))) \<longleftrightarrow> 2 < k)"
      using 2 high_of_nat [of "0xc0000000 + v * 64"] high_of_nat [of "v * 4096"] by (simp_all add: shifted_tail_def)
  next
    case 3
    have "0xc3000000 + of_nat (v * 64) = (of_nat (0xc3000000 + v * 64) :: u32)"
      "push_bit 6 (0xc3000000 + of_nat (v * 64)) = (of_nat (0xc0000000 + v * 4096) :: u32)"
      by (simp_all add: push_bit_eq_mult distrib_right)
    then show "(high_bit (shifted_tail k + of_nat (v * 64)) \<longleftrightarrow> 1 < k) \<and>
        (high_bit (push_bit 6 (shifted_tail k + of_nat (v * 64))) \<longleftrightarrow> 2 < k)"
      using 3 high_of_nat [of "0xc3000000 + v * 64"] high_of_nat [of "0xc0000000 + v * 4096"]
      by (simp_all add: shifted_tail_def)
  qed
  moreover have "m = 0 \<or> m = 1 \<or> m = 2"
    using assms(2) by linarith
  moreover have "0 < k"
    using pending_order [OF assms(1)] by auto
  ultimately show ?thesis
    using c(2) unfolding two [symmetric] by (elim disjE) simp_all
qed

lemma scan_tail_short:
  assumes "scan_tail lo hi k v j bs = Char x n" and "0 < k"
  shows "k \<le> length bs"
  using assms
proof (induction lo hi k v j bs rule: scan_tail.induct)
  case (2 lo hi k v j b bs)
  then show ?case
    by (cases "k = 1") (auto split: if_splits)
qed simp

lemma mb_continue_last:
  assumes "pending c lo hi 1 v" and "0 < m"
  shows "mb_continue c (y # r) m N = Some (if OOB c y then ilseq else converted (of_nat (N - (m - 1))) (add_byte c y) 0)"
    "\<not> OOB c y \<Longrightarrow> \<not> high_bit (add_byte c y)"
proof -
  have oob: "OOB c y \<longleftrightarrow> \<not> (lo \<le> unat y \<and> unat y \<le> hi)"
    using assms(1) by (simp add: pending_def)
  then show "\<not> OOB c y \<Longrightarrow> \<not> high_bit (add_byte c y)"
    using pending_last(1) [OF assms(1)] by blast
  then show "mb_continue c (y # r) m N = Some (if OOB c y then ilseq else converted (of_nat (N - (m - 1))) (add_byte c y) 0)"
    using assms(2) by (simp add: mb_continue_def Let_def)
qed

lemma mb_continue_next:
  assumes "pending c lo hi k v" and "0 < m" and "k \<noteq> 1"
  shows "mb_continue c (y # r) m N = (if OOB c y then Some ilseq else mb_continue (add_byte c y) r (m - 1) N)"
    "\<not> OOB c y \<Longrightarrow> high_bit (add_byte c y)"
    "\<not> OOB c y \<Longrightarrow> pending (add_byte c y) 0x80 0xbf (k - 1) (v * 64 + (unat y - 0x80))"
    "\<not> OOB c y \<Longrightarrow> OOB (add_byte c y) z \<longleftrightarrow> not_cont z"
proof -
  have oob: "OOB c y \<longleftrightarrow> \<not> (lo \<le> unat y \<and> unat y \<le> hi)"
    using assms(1) by (simp add: pending_def)
  then show "\<not> OOB c y \<Longrightarrow> high_bit (add_byte c y)"
    and pend: "\<not> OOB c y \<Longrightarrow> pending (add_byte c y) 0x80 0xbf (k - 1) (v * 64 + (unat y - 0x80))"
    using pending_next [OF assms(1) _ _ assms(3)] by blast+
  then show "\<not> OOB c y \<Longrightarrow> OOB (add_byte c y) z \<longleftrightarrow> not_cont z"
    by (simp add: pending_def not_cont_iff)
  show "mb_continue c (y # r) m N = (if OOB c y then Some ilseq else mb_continue (add_byte c y) r (m - 1) N)"
    using mb_loop_step [OF assms(1), of y r m N] oob assms(2,3) by (simp add: mb_continue_def del: mb_loop.simps)
qed

text \<open>
  C28. \<open>mbtowc\<close>, which unrolls the loop and checks the number of bytes only once, before it reads
  any but the first, agrees with \<open>mbrtowc\<close> in the initial state for every buffer, length and
  locale; an incomplete character is an error.
\<close>

theorem mbtowc_agrees_with_mbrtowc:
  assumes "n \<le> length bs"
  shows "mbtowc utf8 (Some bs) n st =
    map_option (\<lambda>((r, wc, c), s). ((if r = -2 then -1 else r, wc), if r = -2 then s\<lparr>mb_errno := EILSEQ\<rparr> else s))
      (mbrtowc utf8 (Some bs) n (Some 0) st)"
proof (cases n)
  case 0
  then show ?thesis
    by (simp add: mbtowc_def mbtowc_ilseq_def mbrtowc_def mb_decode_def)
next
  case (Suc m)
  then obtain b r where bs: "bs = b # r" and m: "m \<le> length r"
    using assms by (cases bs) auto
  have b0: "byte_at bs 0 = Some b"
    by (simp add: bs byte_at_def)
  show ?thesis
  proof (cases "b < 0x80 \<or> MB_CUR_MAX utf8 = 1 \<or> lead_state b = None")
    case True
    then show ?thesis
      using Suc by (auto simp: mbtowc_def mbtowc_ilseq_def mbrtowc_def mb_decode_def bs b0 byte_at_def)
  next
    case False
    then obtain c where c: "lead_state b = Some c"
      by auto
    have "0x80 \<le> unat b"
      using False by (simp add: word_less_nat_alt)
    then obtain lo hi k v where pend: "pending c lo hi k v"
      using c no_lead [of b] pending_lead [of b] by (metis option.discI option.inject prod_cases4 not_None_eq)
    have dec: "mb_decode utf8 (Some bs) n 0 = mb_continue c r m n"
      using False c Suc by (simp add: mb_decode_def bs)
    show ?thesis
    proof (cases "m < k")
      case True
      have "m < 3"
        using True pending_order [OF pend] by auto
      then have "n < 4 \<and> high_bit (push_bit (6 * n - 6) c)"
        using high_after_shift [OF pend] True Suc by simp
      moreover have "mb_continue c r m n = Some (conv_of (foldl add_byte c (take m r)) (scan_tail lo hi k v 1 (map unat (take m r))))"
        using m Suc by (intro mb_continue_scan [OF pend]) simp_all
      moreover have "scan_tail lo hi k v 1 (map unat (take m r)) \<noteq> Char x l" for x l
        using scan_tail_short [of lo hi k v 1 "map unat (take m r)" x l] True m by auto
      ultimately show ?thesis
        using False c Suc dec unfolding mbtowc_def mbrtowc_def mbtowc_ilseq_def
        by (cases "scan_tail lo hi k v 1 (map unat (take m r))") (simp_all add: b0)
    next
      case enough: False
      have test: "\<not> (n < 4 \<and> high_bit (push_bit (6 * n - 6) c))"
        using high_after_shift [OF pend, of m] enough Suc by auto
      obtain y r1 where r: "r = y # r1"
        using enough m pending_order [OF pend] by (cases r) auto
      have m0: "0 < m"
        using enough pending_order [OF pend] by auto
      have b1: "byte_at bs 1 = Some y"
        by (simp add: bs r byte_at_def)
      have small: "(2 :: u32) \<noteq> -2" "(3 :: u32) \<noteq> -2" "(4 :: u32) \<noteq> -2"
        by simp_all
      have base: "mbtowc utf8 (Some bs) n st =
          (if OOB c y then mbtowc_ilseq st
           else if \<not> high_bit (add_byte c y) then Some ((2, Some (add_byte c y)), st)
           else do {
             z \<leftarrow> byte_at bs 2;
             if not_cont z then mbtowc_ilseq st
             else if \<not> high_bit (add_byte (add_byte c y) z) then Some ((3, Some (add_byte (add_byte c y) z)), st)
             else do {
               u \<leftarrow> byte_at bs 3;
               if not_cont u then mbtowc_ilseq st
               else Some ((4, Some (add_byte (add_byte (add_byte c y) z) u)), st) } })"
        using False c b0 b1 Suc test unfolding mbtowc_def Let_def by auto
      consider "k = 1" | "k \<noteq> 1" "k - 1 = 1" | "k \<noteq> 1" "k - 1 \<noteq> 1" "k - 1 - 1 = 1"
        using pending_order [OF pend] by auto
      then show ?thesis
      proof cases
        case 1
        note last = mb_continue_last [OF pend [unfolded 1] m0, of y]
        have "n - (m - 1) = 2"
          using Suc m0 by simp
        then show ?thesis
          using last small by (simp add: base mbrtowc_def dec r mbtowc_ilseq_def)
      next
        case 2
        obtain z r2 where r1: "r1 = z # r2"
          using enough m r 2 by (cases r1) auto
        have b2: "byte_at bs 2 = Some z"
          by (simp add: bs r r1 byte_at_def)
        have m1: "0 < m - 1" "n - (m - 1 - 1) = 3"
          using enough 2 Suc by auto
        note first = mb_continue_next [OF pend m0 2(1), of y]
        note last = mb_continue_last [OF first(3) [unfolded 2(2)] m1(1), of z]
        show ?thesis
          using first(1,2,4) last small m1(2) by (cases "OOB c y") (simp_all add: base mbrtowc_def dec r r1 b2 mbtowc_ilseq_def)
      next
        case 3
        obtain z u r2 where r1: "r1 = z # u # r2"
          using enough m r 3 by (cases r1; cases "tl r1") auto
        have b2: "byte_at bs 2 = Some z" "byte_at bs 3 = Some u"
          by (simp_all add: bs r r1 byte_at_def)
        have m1: "0 < m - 1" "0 < m - 1 - 1" "n - (m - 1 - 1 - 1) = 4"
          using enough 3 Suc by auto
        note first = mb_continue_next [OF pend m0 3(1), of y]
        note second = mb_continue_next [OF first(3) m1(1) 3(2), of z]
        note last = mb_continue_last [OF second(3) [unfolded 3(3)] m1(2), of u]
        show ?thesis
        proof (cases "OOB c y")
          case True
          then show ?thesis
            using first(1) by (simp add: base mbrtowc_def dec r mbtowc_ilseq_def)
        next
          case False
          then have inner: "mb_continue c r m n =
              Some (if OOB (add_byte c y) z \<or> OOB (add_byte (add_byte c y) z) u then ilseq
                    else converted 4 (add_byte (add_byte (add_byte c y) z) u) 0)"
            using first(1) second(1) last(1) m1(3) by (simp add: r r1)
          show ?thesis
            using first(2,4) second(2,4) small(3) False
            by (cases "OOB (add_byte c y) z") (simp_all add: base mbrtowc_def dec inner b2 mbtowc_ilseq_def)
        qed
      qed
    qed
  qed
qed

lemma mbtowc_agrees_with_mbrtowc_witness:
  "mbtowc True (Some [0xe2, 0x82, 0xac]) 2 mb_start =
    map_option (\<lambda>((r, wc, c), s). ((if r = -2 then -1 else r, wc), if r = -2 then s\<lparr>mb_errno := EILSEQ\<rparr> else s))
      (mbrtowc True (Some [0xe2, 0x82, 0xac]) 2 (Some 0) mb_start)"
  by (rule mbtowc_agrees_with_mbrtowc) simp

section \<open>Encoding\<close>

lemma utf8_bytes_less: "scalar x \<Longrightarrow> \<forall>b\<in>set (utf8_bytes x). b < 256"
  by (auto simp: utf8_bytes_def scalar_def)

lemma ucast_byte: "(ucast (w :: u32) :: u8) = of_nat (unat w)"
  by simp

lemma encode_cont: "ucast (0x80 OR (w AND 0x3f) :: u32) = (of_nat (0x80 + unat w mod 64) :: u8)"
proof -
  have "w AND 0x3f = take_bit 6 w"
    by (simp add: take_bit_eq_mask mask_eq_exp_minus_1)
  then have "unat (w AND 0x3f) = take_bit 6 (unat w)"
    by (simp only: unsigned_take_bit_eq)
  then have low: "unat (w AND 0x3f) = unat w mod 64"
    by (simp add: take_bit_eq_mod)
  have "0x80 OR (w AND 0x3f) = 0x80 + (w AND 0x3f)"
    using or_below [of "w AND 0x3f" 6 2] low by simp
  moreover have "unat (0x80 + (w AND 0x3f)) = 0x80 + unat w mod 64"
    using low by (subst unat_add_lem [THEN iffD1]) simp_all
  ultimately show ?thesis
    unfolding ucast_byte by simp
qed

lemma encode_lead:
  assumes "unat w div 2 ^ m < 2 ^ n" and "push_bit n t = (a :: u32)" and "unat a + 2 ^ n \<le> 2 ^ 32"
  shows "ucast (a OR drop_bit m w) = (of_nat (unat a + unat w div 2 ^ m) :: u8)"
proof -
  have b: "unat (drop_bit m w) = unat w div 2 ^ m"
    unfolding unat_drop_bit_eq by (simp add: drop_bit_eq_div)
  have "a OR drop_bit m w = a + drop_bit m w"
    using or_below [of "drop_bit m w" n t] assms(1,2) b by simp
  moreover have "unat (a + drop_bit m w) = unat a + unat w div 2 ^ m"
    using assms(1,3) b by (subst unat_add_lem [THEN iffD1]) simp_all
  ultimately show ?thesis
    unfolding ucast_byte by simp
qed

lemma wcrtomb_utf8:
  "wcrtomb True True wc st =
    (if scalar (unat wc)
     then ((of_nat (length (utf8_bytes (unat wc))), map of_nat (utf8_bytes (unat wc))), st)
     else ((-1, []), st\<lparr>mb_errno := EILSEQ\<rparr>))"
proof -
  define x where "x = unat wc"
  have less: "wc < 0x80 \<longleftrightarrow> x < 0x80" "wc < 0x800 \<longleftrightarrow> x < 0x800" "wc < 0xd800 \<longleftrightarrow> x < 0xd800"
    by (simp_all add: word_less_nat_alt x_def)
  have range: "wc - 0xe000 < 0x2000 \<longleftrightarrow> 0xe000 \<le> x \<and> x < 0x10000" "wc - 0x10000 < 0x100000 \<longleftrightarrow> 0x10000 \<le> x \<and> x < 0x110000"
    using unsigned_less [of wc, where ?'a = nat] by (auto simp: word_less_nat_alt unat_sub_if' x_def)
  have conts: "ucast (0x80 OR (wc AND 0x3f)) = (of_nat (0x80 + x mod 64) :: u8)"
    "ucast (0x80 OR (drop_bit 6 wc AND 0x3f)) = (of_nat (0x80 + x div 64 mod 64) :: u8)"
    "ucast (0x80 OR (drop_bit 12 wc AND 0x3f)) = (of_nat (0x80 + x div 4096 mod 64) :: u8)"
    unfolding encode_cont unat_drop_bit_eq x_def by (simp_all add: drop_bit_eq_div)
  have one: "ucast wc = (of_nat x :: u8)"
    unfolding x_def by (rule ucast_byte)
  have leads: "x < 0x800 \<Longrightarrow> ucast (0xc0 OR drop_bit 6 wc) = (of_nat (0xc0 + x div 64) :: u8)"
    "x < 0x10000 \<Longrightarrow> ucast (0xe0 OR drop_bit 12 wc) = (of_nat (0xe0 + x div 4096) :: u8)"
    "x < 0x110000 \<Longrightarrow> ucast (0xf0 OR drop_bit 18 wc) = (of_nat (0xf0 + x div 262144) :: u8)"
    using encode_lead [of wc 6 6 3 "0xc0"] encode_lead [of wc 12 5 7 "0xe0"] encode_lead [of wc 18 4 15 "0xf0"]
    by (auto simp: x_def)
  consider "x < 0x80" | "0x80 \<le> x" "x < 0x800" | "0x800 \<le> x" "x < 0xd800 \<or> 0xe000 \<le> x" "x < 0x10000"
    | "0x10000 \<le> x" "x < 0x110000" | "0xd800 \<le> x" "x < 0xe000 \<or> 0x110000 \<le> x"
    by linarith
  then show ?thesis
    unfolding wcrtomb_def less range conts one MB_CUR_MAX_def x_def [symmetric]
    by cases (simp_all add: utf8_bytes_def scalar_def leads)
qed

lemma map_unat_bytes: "\<forall>b\<in>set bs. b < 256 \<Longrightarrow> map unat (map of_nat bs :: u8 list) = bs"
  by (induction bs) (auto simp: unsigned_of_nat take_bit_nat_eq_self_iff)

lemma mbrtowc_encoding:
  assumes "scalar x" and "map unat bs = utf8_bytes x"
  shows "mbrtowc True (Some (bs @ rest)) (length bs) (Some 0) st =
    Some ((if x = 0 then 0 else of_nat (length bs), Some (of_nat x), Some 0), st)"
proof -
  have len: "length bs = length (utf8_bytes x)"
    using assms(2) length_map by metis
  have "utf8_scan (map unat bs) = Char x (length bs)"
    using scan_encoding [OF assms(1), of "[]"] assms(2) len by simp
  moreover have "0 < length bs"
    using utf8_bytes_length(1) len by simp
  ultimately show ?thesis
    using mbrtowc_initial [of "length bs" "bs @ rest" st] by (simp add: decode_result_def)
qed

section \<open>The C locale\<close>

lemma CODEUNIT_high:
  assumes "0x80 \<le> unat b"
  shows "CODEUNIT b = of_nat (0xdf00 + unat b)"
proof -
  have "drop_bit 7 (unat b) \<noteq> 0"
    using assms by (simp add: drop_bit_eq_div div_eq_0_iff)
  then have b7: "bit b 7"
    using drop_bit_eq_zero_iff_not_bit_last [of b] by (simp add: unat_drop_bit_eq [symmetric] unat_eq_0)
  have wide: "scast b = NOT (mask 8) OR (ucast b :: u32)"
  proof (rule bit_word_eqI)
    fix n
    show "bit (scast b :: u32) n \<longleftrightarrow> bit (NOT (mask 8) OR (ucast b :: u32)) n" if "n < LENGTH(32)"
      using b7 that by (cases "n = 7") (auto simp: bit_simps min_def)
  qed
  have low: "mask 8 AND ucast b = (ucast b :: u32)"
    by (intro bit_word_eqI) (auto simp: bit_simps dest: bit_imp_le_length)
  have masks: "0xdfff AND mask 8 = (mask 8 :: u32)" "0xdfff AND NOT (mask 8) = (push_bit 8 0xdf :: u32)"
    by (simp_all add: mask_eq_exp_minus_1)
  have "0xdfff AND ucast b = (0xdfff AND mask 8) AND (ucast b :: u32)"
    by (simp only: and.assoc low)
  then have "0xdfff AND ucast b = (ucast b :: u32)"
    by (simp only: masks(1) low)
  then have "CODEUNIT b = push_bit 8 0xdf OR ucast b"
    unfolding CODEUNIT_def wide bit.conj_disj_distrib masks(2) by simp
  also have "\<dots> = push_bit 8 0xdf + ucast b"
    using byte_less [of b] by (intro or_below) simp
  finally show ?thesis
    by simp
qed

lemma c_locale_bytes:
  fixes b :: u8
  shows "wcrtomb False True (btowc False (ucast b)) st = ((1, [b]), st)" "wctob False (btowc False (ucast b)) = ucast b"
    "mbrtowc False (Some (b # rest)) 1 (Some 0) st = Some ((if b = 0 then 0 else 1, Some (btowc False (ucast b)), Some 0), st)"
proof -
  have down: "ucast (ucast b :: u32) = b"
    by (rule bit_word_eqI) (simp add: bit_simps)
  have "wcrtomb False True (btowc False (ucast b)) st = ((1, [b]), st) \<and> wctob False (btowc False (ucast b)) = ucast b \<and>
    mbrtowc False (Some (b # rest)) 1 (Some 0) st = Some ((if b = 0 then 0 else 1, Some (btowc False (ucast b)), Some 0), st)"
  proof (cases "unat b < 0x80")
    case True
    then have "b < 0x80" "(ucast b :: u32) < 0x80" "(ucast b :: u32) = 0 \<longleftrightarrow> b = 0"
      by (simp_all add: word_less_nat_alt word_unat_eq_iff)
    moreover from this have "btowc False (ucast b) = ucast b"
      by (simp add: btowc_def down)
    ultimately show ?thesis
      by (simp add: wcrtomb_def wctob_def mbrtowc_def mb_decode_def down)
  next
    case False
    then have unit: "CODEUNIT b = of_nat (0xdf00 + unat b)" "\<not> b < 0x80" "\<not> (ucast b :: u32) < 128"
      using CODEUNIT_high [of b] by (simp_all add: word_less_nat_alt)
    have "unat (ucast b :: u32) \<noteq> unat (-1 :: u32)"
      using byte_less [of b] by (simp add: unat_minus_one_32)
    then have "(ucast b :: u32) \<noteq> -1"
      by metis
    then have wide: "btowc False (ucast b) = CODEUNIT b"
      using unit(3) by (simp add: btowc_def Let_def down MB_CUR_MAX_def)
    have val: "unat (CODEUNIT b) = 0xdf00 + unat b"
      unfolding unit(1) using byte_less [of b] by (intro unat_small) simp
    have "IS_CODEUNIT (CODEUNIT b)" "\<not> CODEUNIT b < 0x80"
      using val False byte_less [of b] by (simp_all add: IS_CODEUNIT_def word_less_nat_alt unat_sub_if')
    moreover have "ucast (CODEUNIT b) = b"
      using val byte_less [of b] mod_mult_self4 [of 256 223 "unat b"]
      by (simp add: word_unat_eq_iff unsigned_ucast_eq take_bit_eq_mod)
    moreover have "b \<noteq> 0"
      using False by auto
    ultimately show ?thesis
      using wide unit(2) by (simp add: wcrtomb_def wctob_def mbrtowc_def mb_decode_def MB_CUR_MAX_def)
  qed
  then show "wcrtomb False True (btowc False (ucast b)) st = ((1, [b]), st)" "wctob False (btowc False (ucast b)) = ucast b"
    "mbrtowc False (Some (b # rest)) 1 (Some 0) st = Some ((if b = 0 then 0 else 1, Some (btowc False (ucast b)), Some 0), st)"
    by blast+
qed

text \<open>
  C27. Encoding and decoding are inverse.  In a UTF-8 locale \<open>wcrtomb\<close> writes the UTF-8
  encoding of every scalar value, and \<open>mbrtowc\<close> reads the value back from it, whatever
  follows; every other wide character is refused with \<open>EILSEQ\<close>.  In the C locale every byte
  that \<open>mbrtowc\<close> reads is written back by \<open>wcrtomb\<close>, and \<open>wctob\<close> inverts \<open>btowc\<close>.
\<close>

theorem multibyte_roundtrip:
  "(case wcrtomb True True wc st of ((r, bs), s') \<Rightarrow>
      if scalar (unat wc)
      then map unat bs = utf8_bytes (unat wc) \<and> r = of_nat (length bs) \<and> s' = st \<and>
        mbrtowc True (Some (bs @ rest)) (length bs) (Some 0) st =
          Some ((if wc = 0 then 0 else r, Some wc, Some 0), st)
      else r = -1 \<and> bs = [] \<and> mb_errno s' = EILSEQ) \<and>
   mbrtowc False (Some (b # rest)) 1 (Some 0) st = Some ((if b = 0 then 0 else 1, Some (btowc False (ucast b)), Some 0), st) \<and>
   wcrtomb False True (btowc False (ucast b)) st = ((1, [b]), st) \<and>
   wctob False (btowc False (ucast b)) = ucast b"
proof -
  have "map unat (map of_nat (utf8_bytes (unat wc)) :: u8 list) = utf8_bytes (unat wc)" if "scalar (unat wc)"
    using utf8_bytes_less [OF that] by (rule map_unat_bytes)
  then show ?thesis
    using mbrtowc_encoding [of "unat wc" "map of_nat (utf8_bytes (unat wc))" rest st] c_locale_bytes [of b]
    unfolding wcrtomb_utf8 by (simp add: unat_eq_0)
qed

section \<open>The conversion state\<close>

text \<open>The initial state, or a state between the bytes of a character.\<close>

definition wf_mbstate :: "u32 \<Rightarrow> bool" where
  "wf_mbstate c \<longleftrightarrow> c = 0 \<or> (\<exists>lo hi k v. pending c lo hi k v)"

lemma scan_tail_count:
  assumes "scan_tail lo hi k v j bs = Char x m"
  shows "m \<le> j + length bs"
  using assms by (induction lo hi k v j bs rule: scan_tail.induct) (auto split: if_splits)

lemma unat_count: "m \<le> n \<Longrightarrow> unat (of_nat m :: u32) \<le> n"
  by (simp add: unsigned_of_nat order_trans [OF take_bit_nat_less_eq_self])

definition conv_ok :: "nat \<Rightarrow> conv \<Rightarrow> bool" where
  "conv_ok n r \<longleftrightarrow> wf_mbstate (cv_st r) \<and> (cv_ret r = -1 \<and> cv_ilseq r \<or> cv_ret r = -2 \<or> unat (cv_ret r) \<le> n)"

lemma decode_result_ok: "bs \<noteq> [] \<Longrightarrow> conv_ok (length bs) (decode_result bs)"
proof (cases "map unat bs" rule: scan_cases)
  case (char x)
  then have "length (utf8_bytes x) \<le> length bs"
    using prefix_length_le by fastforce
  then show ?thesis
    using char(3) unat_count by (simp add: decode_result_def conv_ok_def wf_mbstate_def)
next
  case (more x)
  then show "bs \<noteq> [] \<Longrightarrow> ?thesis"
    using partial_pending [of bs] by (auto simp: decode_result_def conv_ok_def wf_mbstate_def)
next
  case bad
  then show ?thesis
    by (simp add: decode_result_def conv_ok_def wf_mbstate_def)
qed

lemma continue_ok:
  assumes "pending c lo hi k v"
  shows "conv_ok (length bs) (conv_of (foldl add_byte c bs) (scan_tail lo hi k v 0 (map unat bs)))"
proof (cases "scan_tail lo hi k v 0 (map unat bs)")
  case (Char x m)
  then show ?thesis
    using scan_tail_count [OF Char] unat_count [of m "length bs"] by (simp add: conv_ok_def wf_mbstate_def)
next
  case More
  then show ?thesis
    using scan_tail_restart [OF assms More] by (auto simp: conv_ok_def wf_mbstate_def)
next
  case Bad
  then show ?thesis
    by (simp add: conv_ok_def wf_mbstate_def)
qed

lemma mb_decode_ok:
  assumes "wf_mbstate c"
  shows "\<exists>r. mb_decode utf8 (Some bs) (length bs) c = Some r \<and> conv_ok (length bs) r"
proof (cases bs)
  case Nil
  then show ?thesis
    using assms by (simp add: mb_decode_def conv_ok_def)
next
  case (Cons b r)
  show ?thesis
  proof (cases "c = 0")
    case True
    show ?thesis
    proof (cases utf8)
      case True
      then show ?thesis
        using mb_decode_scan [of "length bs" bs] decode_result_ok [of bs] Cons \<open>c = 0\<close> by simp
    next
      case False
      then show ?thesis
        using Cons \<open>c = 0\<close> by (simp add: mb_decode_def MB_CUR_MAX_def conv_ok_def wf_mbstate_def)
    qed
  next
    case False
    then obtain lo hi k v where pend: "pending c lo hi k v"
      using assms by (auto simp: wf_mbstate_def)
    have "mb_decode utf8 (Some bs) (length bs) c = mb_continue c bs (length bs) (length bs)"
      using False Cons by (simp add: mb_decode_def)
    then show ?thesis
      using mb_continue_scan [OF pend, of "length bs" bs 0] continue_ok [OF pend, of bs] by simp
  qed
qed

text \<open>
  C29. The conversion state is always the initial state or a state between the bytes of a
  character: in any such state and any locale, \<open>mbrtowc\<close> reads only the bytes it is given,
  leaves such a state, and returns -1 with \<open>EILSEQ\<close>, -2 or a count of at most the bytes given.
\<close>

theorem mbrtowc_state_well_formed:
  assumes "wf_mbstate c"
  shows "\<exists>r wc c' s'. mbrtowc utf8 (Some bs) (length bs) (Some c) st = Some ((r, wc, Some c'), s') \<and> wf_mbstate c' \<and>
    (r = -1 \<and> mb_errno s' = EILSEQ \<or> r = -2 \<or> unat r \<le> length bs)"
proof -
  obtain r where "mb_decode utf8 (Some bs) (length bs) c = Some r" "conv_ok (length bs) r"
    using mb_decode_ok [OF assms] by blast
  then show ?thesis
    by (auto simp: mbrtowc_def conv_ok_def)
qed

lemma mbrtowc_state_well_formed_witness:
  "\<exists>r wc c' s'. mbrtowc True (Some [0x82, 0xac]) (length [0x82, 0xac :: u8]) (Some (partial_state [0xe2])) mb_start =
      Some ((r, wc, Some c'), s') \<and> wf_mbstate c' \<and>
    (r = -1 \<and> mb_errno s' = EILSEQ \<or> r = -2 \<or> unat r \<le> length [0x82, 0xac :: u8])"
proof -
  have "utf8_scan (map unat [0xe2 :: u8]) = More"
    by (simp add: lead_class_def)
  then have "wf_mbstate (partial_state [0xe2])"
    using partial_pending [of "[0xe2]"] by (auto simp: wf_mbstate_def)
  then show ?thesis
    by (rule mbrtowc_state_well_formed)
qed

end
