(* ===== verification/Multibyte_Loops.thy ===== *)
theory Multibyte_Loops
  imports Multibyte_Strings Multibyte_Calls
begin

unbundle bit_operations_syntax

text \<open>
  The loops of the string functions: the loops that read four bytes at a time do what loops
  over single bytes do, and these decode character by character.
\<close>

section \<open>Four bytes at a time\<close>

lemma plain_iff: "plain b \<longleftrightarrow> 1 \<le> unat b \<and> unat b < 0x80"
  using byte_less [of b] by (auto simp: plain_def word_less_nat_alt unat_sub_if')

text \<open>A word whose bit \<open>n\<close> is clear is not \<open>r\<close> modulo \<open>2 ^ (n + 1)\<close> for an \<open>r\<close> that has it set.\<close>

lemma bit_mod:
  fixes d q r :: int
  assumes "d = r + 2 * 2 ^ n * q" and "2 ^ n \<le> r" and "r < 2 * 2 ^ n"
  shows "bit d n"
proof -
  have "r div 2 ^ n = 1"
    using assms(2,3) by (intro int_div_pos_eq [of _ _ _ "r - 2 ^ n"]) auto
  moreover have "d = r + 2 ^ n * (2 * q)"
    unfolding assms(1) by simp
  then have "d div 2 ^ n = 2 * q + r div 2 ^ n"
    by (simp add: div_mult_self2)
  ultimately show ?thesis
    by (simp add: bit_iff_odd)
qed

lemma no_zero_byte:
  fixes b0 b1 b2 b3 :: int and d :: int
  assumes "0 \<le> b0" "b0 < 0x80" "0 \<le> b1" "b1 < 0x80" "0 \<le> b2" "b2 < 0x80" "0 \<le> b3" "b3 < 0x80"
    and d: "d = b0 + 0x100 * b1 + 0x10000 * b2 + 0x1000000 * b3 - 0x01010101 + 0x100000000 * e"
    and clear: "\<not> bit d 7" "\<not> bit d 15" "\<not> bit d 23" "\<not> bit d 31"
  shows "b0 \<noteq> 0 \<and> b1 \<noteq> 0 \<and> b2 \<noteq> 0 \<and> b3 \<noteq> 0"
proof -
  have b0: "b0 \<noteq> 0"
  proof
    assume "b0 = 0"
    then have "bit d 7"
      using d by (intro bit_mod [of d "0xff" 7 "b1 + 0x100 * b2 + 0x10000 * b3 - 0x010101 - 1 + 0x1000000 * e"]) simp_all
    then show False
      using clear by simp
  qed
  have b1: "b1 \<noteq> 0"
  proof
    assume "b1 = 0"
    then have "bit d 15"
      using d b0 assms(1,2)
      by (intro bit_mod [of d "b0 - 1 + 0xff00" 15 "b2 + 0x100 * b3 - 0x0101 - 1 + 0x10000 * e"]) simp_all
    then show False
      using clear by simp
  qed
  have b2: "b2 \<noteq> 0"
  proof
    assume "b2 = 0"
    then have "bit d 23"
      using d b0 b1 assms(1-4)
      by (intro bit_mod [of d "b0 - 1 + 0x100 * (b1 - 1) + 0xff0000" 23 "b3 - 0x01 - 1 + 0x100 * e"]) simp_all
    then show False
      using clear by simp
  qed
  have "b3 \<noteq> 0"
  proof
    assume "b3 = 0"
    then have "bit d 31"
      using d b0 b1 b2 assms(1-6)
      by (intro bit_mod [of d "b0 - 1 + 0x100 * (b1 - 1) + 0x10000 * (b2 - 1) + 0xff000000" 31 "e - 1"]) simp_all
    then show False
      using clear by simp
  qed
  with b0 b1 b2 show ?thesis
    by blast
qed

lemma byte_or:
  fixes b :: u8 and y :: u32
  assumes "unat y < 2 ^ 24"
  shows "unat (ucast b OR push_bit 8 y) = unat b + 0x100 * unat y"
proof -
  have "ucast b OR push_bit 8 y = push_bit 8 y + ucast b"
    using or_below [of "ucast b" 8 y] byte_less [of b] by (simp add: or.commute)
  moreover have "unat (push_bit 8 y) = 0x100 * unat y"
    using assms by (simp add: push_bit_eq_mult unat_word_ariths)
  ultimately show ?thesis
    using assms byte_less [of b] by (simp add: unat_word_ariths)
qed

lemma word_of_bytes:
  fixes b0 b1 b2 b3 :: u8
  defines "w \<equiv> ucast b0 OR push_bit 8 (ucast b1) OR push_bit 16 (ucast b2) OR push_bit 24 (ucast b3) :: u32"
  shows "unat w = unat b0 + 0x100 * unat b1 + 0x10000 * unat b2 + 0x1000000 * unat b3"
    and "bit w 7 = bit b0 7" "bit w 15 = bit b1 7" "bit w 23 = bit b2 7" "bit w 31 = bit b3 7"
proof -
  have w: "w = ucast b0 OR push_bit 8 (ucast b1 OR push_bit 8 (ucast b2 OR push_bit 8 (ucast b3)))"
    by (simp add: w_def push_bit_or)
  note bytes = byte_less [of b0] byte_less [of b1] byte_less [of b2] byte_less [of b3]
  have "unat (ucast b2 OR push_bit 8 (ucast b3) :: u32) = unat b2 + 0x100 * unat b3"
    using bytes by (subst byte_or) simp_all
  moreover from this have "unat (ucast b1 OR push_bit 8 (ucast b2 OR push_bit 8 (ucast b3)) :: u32) =
      unat b1 + 0x100 * (unat b2 + 0x100 * unat b3)"
    using bytes by (subst byte_or) simp_all
  moreover from this have "unat w = unat b0 + 0x100 * (unat b1 + 0x100 * (unat b2 + 0x100 * unat b3))"
    unfolding w using bytes by (subst byte_or) simp_all
  ultimately show "unat w = unat b0 + 0x100 * unat b1 + 0x10000 * unat b2 + 0x1000000 * unat b3"
    by simp
  show "bit w 7 = bit b0 7" "bit w 15 = bit b1 7" "bit w 23 = bit b2 7" "bit w 31 = bit b3 7"
    by (auto simp: w_def bit_simps dest: bit_imp_le_length)
qed

lemma high_byte: "\<not> bit (b :: u8) 7 \<Longrightarrow> unat b < 0x80"
proof -
  have "bit b 7 \<longleftrightarrow> drop_bit 7 (unat b) \<noteq> 0"
    using drop_bit_eq_zero_iff_not_bit_last [of b] by (simp add: unat_drop_bit_eq [symmetric] unat_eq_0)
  then show "\<not> bit b 7 \<Longrightarrow> unat b < 0x80"
    by (simp add: drop_bit_eq_div div_eq_0_iff)
qed

lemma plain_word_bits:
  assumes "plain_word w" and "n \<in> {7, 15, 23, 31}"
  shows "\<not> bit w n" "\<not> bit (w - 0x01010101) n"
proof -
  have "bit (0x80808080 :: u32) n"
    using assms(2) by (auto simp: bit_simps)
  moreover have "\<not> bit ((w OR (w - 0x01010101)) AND 0x80808080) n"
    using assms(1) by (simp add: plain_word_def)
  ultimately show "\<not> bit w n" "\<not> bit (w - 0x01010101) n"
    unfolding bit_and_iff bit_or_iff by blast+
qed

lemma uint_below: "unat (b :: u8) < 0x80 \<Longrightarrow> uint b < 0x80"
  using of_nat_less_iff [of "unat b" "0x80", where ?'a = int] by simp

lemma plain_word_bytes:
  assumes "w32_at mem i = Some w" and "plain_word w"
  shows "plain (mem ! i) \<and> plain (mem ! (i + 1)) \<and> plain (mem ! (i + 2)) \<and> plain (mem ! (i + 3))"
proof -
  let ?b = "\<lambda>k. mem ! (i + k)"
  have w: "w = ucast (?b 0) OR push_bit 8 (ucast (?b 1)) OR push_bit 16 (ucast (?b 2)) OR push_bit 24 (ucast (?b 3))"
    using assms(1) by (simp add: w32_at_def split: if_splits)
  note wob = word_of_bytes [of "?b 0" "?b 1" "?b 2" "?b 3", folded w]
  have small: "unat (?b 0) < 0x80" "unat (?b 1) < 0x80" "unat (?b 2) < 0x80" "unat (?b 3) < 0x80"
    using plain_word_bits(1) [OF assms(2)] wob(2-5) by (intro high_byte; force)+
  have "int (unat (w - 0x01010101)) = int (unat w) - 0x01010101 + 0x100000000 * (if 0x01010101 \<le> unat w then 0 else 1)"
    by (auto simp: unat_sub_if')
  then have "uint (w - 0x01010101) = int (unat (?b 0)) + 0x100 * int (unat (?b 1)) + 0x10000 * int (unat (?b 2)) +
      0x1000000 * int (unat (?b 3)) - 0x01010101 + 0x100000000 * (if 0x01010101 \<le> unat w then 0 else 1)"
    by (simp add: wob(1))
  note diff = this
  have usmall: "uint (?b 0) < 0x80" "uint (?b 1) < 0x80" "uint (?b 2) < 0x80" "uint (?b 3) < 0x80"
    using small uint_below by blast+
  have "int (unat (?b 0)) \<noteq> 0 \<and> int (unat (?b 1)) \<noteq> 0 \<and> int (unat (?b 2)) \<noteq> 0 \<and> int (unat (?b 3)) \<noteq> 0"
    by (rule no_zero_byte [OF _ _ _ _ _ _ _ _ diff])
      (use usmall plain_word_bits(2) [OF assms(2)] in \<open>simp_all add: bit_uint_iff\<close>)
  then show ?thesis
    using small unfolding of_nat_eq_0_iff by (simp add: plain_iff Suc_le_eq)
qed

section \<open>One byte at a time\<close>

text \<open>The loops without the words, as references.\<close>

partial_function (option) conv_bytes :: "u8 list \<Rightarrow> nat \<Rightarrow> u32 list \<Rightarrow> u32 \<Rightarrow> mbs_end option" where
  "conv_bytes mem i out wn =
     (if wn = 0 then Some (Full i out)
      else do {
        b \<leftarrow> byte_at mem i;
        if plain b then conv_bytes mem (i + 1) (out @ [ucast b]) (wn - 1)
        else (case lead_state b of
            None \<Rightarrow> Some (Stopped 0 (int i) out wn)
          | Some c \<Rightarrow> do {
              r \<leftarrow> conv_tail c mem (i + 1);
              (case r of
                 Inl (c, pos) \<Rightarrow> Some (Stopped c pos out wn)
               | Inr (wc, i) \<Rightarrow> conv_bytes mem i (out @ [wc]) (wn - 1)) }) })"

partial_function (option) count_bytes :: "u8 list \<Rightarrow> nat \<Rightarrow> u32 \<Rightarrow> (u32 \<times> int \<times> u32) option" where
  "count_bytes mem i wn = do {
     b \<leftarrow> byte_at mem i;
     if plain b then count_bytes mem (i + 1) (wn - 1)
     else (case lead_state b of
         None \<Rightarrow> Some (0, int i, wn)
       | Some c \<Rightarrow> do {
           r \<leftarrow> count_tail c mem (i + 1);
           (case r of
              Inl (c, pos) \<Rightarrow> Some (c, pos, wn)
            | Inr i \<Rightarrow> count_bytes mem i (wn - 1)) }) }"

lemma byte_at_Some: "byte_at mem i = Some b \<longleftrightarrow> i < length mem \<and> b = mem ! i"
  by (auto simp: byte_at_def)

lemma conv_bytes_plain:
  assumes "wn \<noteq> 0" and "i < length mem" and "plain (mem ! i)"
  shows "conv_bytes mem i out wn = conv_bytes mem (i + 1) (out @ [ucast (mem ! i)]) (wn - 1)"
  using assms by (subst conv_bytes.simps) (simp add: byte_at_def)

lemma count_bytes_plain:
  assumes "i < length mem" and "plain (mem ! i)"
  shows "count_bytes mem i wn = count_bytes mem (i + 1) (wn - 1)"
  using assms by (subst count_bytes.simps) (simp add: byte_at_def)

lemma conv_bytes_word:
  assumes "w32_at mem i = Some w" and "plain_word w" and "wn \<ge> 5"
  shows "conv_bytes mem i out wn = conv_bytes mem (i + 4)
    (out @ [ucast (mem ! i), ucast (mem ! (i + 1)), ucast (mem ! (i + 2)), ucast (mem ! (i + 3))]) (wn - 4)"
proof -
  have "i + 4 \<le> length mem"
    using assms(1) by (simp add: w32_at_def split: if_splits)
  moreover have "wn \<noteq> 0" "wn - 1 \<noteq> 0" "wn - 2 \<noteq> 0" "wn - 3 \<noteq> 0"
    using assms(3) by (auto simp: word_le_nat_alt)
  ultimately show ?thesis
    using plain_word_bytes [OF assms(1,2)] by (simp add: conv_bytes_plain numeral_eq_Suc)
qed

lemma count_bytes_word:
  assumes "w32_at mem i = Some w" and "plain_word w"
  shows "count_bytes mem i wn = count_bytes mem (i + 4) (wn - 4)"
proof -
  have "i + 4 \<le> length mem"
    using assms(1) by (simp add: w32_at_def split: if_splits)
  then show ?thesis
    using plain_word_bytes [OF assms] by (simp add: count_bytes_plain numeral_eq_Suc)
qed

text \<open>An aligned position inside a memory that ends aligned has a whole word.\<close>

lemma aligned_word:
  assumes "(a + length mem) mod 4 = 0" and "(a + i) mod 4 = 0" and "i < length mem"
  shows "i + 4 \<le> length mem"
  using assms by presburger

text \<open>
  A conversion does not read past the memory when the memory ends at a word boundary, and also
  when there are four bytes for each character that is still to be converted.
\<close>

definition enough :: "u8 list \<Rightarrow> nat \<Rightarrow> nat \<Rightarrow> u32 \<Rightarrow> bool" where
  "enough mem a i wn \<longleftrightarrow> (a + length mem) mod 4 = 0 \<or> i + 4 * unat wn \<le> length mem"

lemma enough_word:
  assumes "enough mem a i wn" and "(a + i) mod 4 = 0" and "i < length mem" and "wn \<noteq> 0"
  shows "i + 4 \<le> length mem"
proof -
  have "1 \<le> unat wn"
    using assms(4) by (simp add: Suc_le_eq unat_gt_0)
  then show ?thesis
    using assms(1-3) aligned_word [of a mem i] by (auto simp: enough_def)
qed

lemma enough_step:
  assumes "enough mem a i wn" and "wn \<ge> m" and "i' \<le> i + 4 * unat m"
  shows "enough mem a i' (wn - m)"
proof -
  have "unat (wn - m) = unat wn - unat m" "unat m \<le> unat wn"
    using assms(2) by (simp_all add: unat_sub word_le_nat_alt)
  then show ?thesis
    using assms(1,3) by (auto simp: enough_def)
qed

lemma aligned_next: "(a + i) mod 4 = 0 \<Longrightarrow> (a + (i + 4)) mod 4 = (0 :: nat)"
  by presburger

lemma conv_words_bytes:
  assumes "enough mem a i wn" and "(a + i) mod 4 = 0" and "wn \<noteq> 0"
  shows "case conv_words mem i out wn of
      None \<Rightarrow> conv_bytes mem i out wn = None
    | Some (i', out', wn') \<Rightarrow> i \<le> i' \<and> wn' \<noteq> 0 \<and> enough mem a i' wn' \<and> conv_bytes mem i out wn = conv_bytes mem i' out' wn'"
  using assms
proof (induction "length mem - i" arbitrary: i out wn rule: less_induct)
  case less
  show ?case
  proof (cases "wn \<ge> 5")
    case False
    then show ?thesis
      using less.prems(1,3) by (simp add: conv_words.simps)
  next
    case True
    show ?thesis
    proof (cases "w32_at mem i")
      case None
      then have "\<not> i < length mem"
        using enough_word [OF less.prems(1,2) _ less.prems(3)] by (auto simp: w32_at_def split: if_splits)
      then have "conv_bytes mem i out wn = None"
        using less.prems(1,3) by (subst conv_bytes.simps) (simp add: byte_at_def)
      then show ?thesis
        using None True by (subst conv_words.simps) simp
    next
      case (Some w)
      show ?thesis
      proof (cases "plain_word w")
        case False
        then show ?thesis
          using less.prems(1,3) True Some by (subst conv_words.simps) simp
      next
        case word: True
        have fits: "i + 4 \<le> length mem" "wn - 4 \<noteq> 0"
          using Some True by (auto simp: w32_at_def word_le_nat_alt split: if_splits)
        let ?out = "out @ [ucast (mem ! i), ucast (mem ! (i + 1)), ucast (mem ! (i + 2)), ucast (mem ! (i + 3))]"
        have "conv_words mem i out wn = conv_words mem (i + 4) ?out (wn - 4)"
          using True Some word by (subst conv_words.simps) simp
        moreover have "case conv_words mem (i + 4) ?out (wn - 4) of
            None \<Rightarrow> conv_bytes mem (i + 4) ?out (wn - 4) = None
          | Some (i', out', wn') \<Rightarrow> i + 4 \<le> i' \<and> wn' \<noteq> 0 \<and> enough mem a i' wn' \<and> conv_bytes mem (i + 4) ?out (wn - 4) = conv_bytes mem i' out' wn'"
          using fits less.prems(2) enough_step [OF less.prems(1), of 4 "i + 4"] True
          by (intro less.hyps aligned_next) (auto simp: word_le_nat_alt)
        ultimately show ?thesis
          using conv_bytes_word [OF Some word True] by (auto split: option.splits)
      qed
    qed
  qed
qed

lemma count_words_bytes:
  assumes "(a + length mem) mod 4 = 0" and "(a + i) mod 4 = 0"
  shows "case count_words mem i wn of
      None \<Rightarrow> count_bytes mem i wn = None
    | Some (i', wn') \<Rightarrow> i \<le> i' \<and> count_bytes mem i wn = count_bytes mem i' wn'"
  using assms(2)
proof (induction "length mem - i" arbitrary: i wn rule: less_induct)
  case less
  show ?case
  proof (cases "w32_at mem i")
    case None
    then have "\<not> i < length mem"
      using aligned_word [OF assms(1) less.prems] by (auto simp: w32_at_def split: if_splits)
    then have "count_bytes mem i wn = None"
      by (subst count_bytes.simps) (simp add: byte_at_def)
    then show ?thesis
      using None by (subst count_words.simps) simp
  next
    case (Some w)
    show ?thesis
    proof (cases "plain_word w")
      case False
      then show ?thesis
        using Some by (subst count_words.simps) simp
    next
      case True
      have fits: "i + 4 \<le> length mem"
        using Some by (auto simp: w32_at_def split: if_splits)
      have "count_words mem i wn = count_words mem (i + 4) (wn - 4)"
        using Some True by (subst count_words.simps) simp
      moreover have "case count_words mem (i + 4) (wn - 4) of
          None \<Rightarrow> count_bytes mem (i + 4) (wn - 4) = None
        | Some (i', wn') \<Rightarrow> i + 4 \<le> i' \<and> count_bytes mem (i + 4) (wn - 4) = count_bytes mem i' wn'"
        using fits less.prems by (intro less.hyps aligned_next) auto
      ultimately show ?thesis
        using count_bytes_word [OF Some True] by (auto split: option.splits)
    qed
  qed
qed

lemma conv_tail_advances: "conv_tail c mem i = Some (Inr (wc, i')) \<Longrightarrow> i < i' \<and> i' \<le> length mem \<and> i' \<le> i + 3"
  by (auto simp: conv_tail_def byte_at_def Let_def split: if_splits bind_splits)

lemma count_tail_advances: "count_tail c mem i = Some (Inr i') \<Longrightarrow> i < i' \<and> i' \<le> length mem"
  by (auto simp: count_tail_def byte_at_def split: if_splits bind_splits)

lemma conv_loop_bytes:
  assumes "enough mem a i wn"
  shows "conv_loop mem a i out wn = conv_bytes mem i out wn"
  using assms
proof (induction "length mem - i" arbitrary: i out wn rule: less_induct)
  case less
  have char: "(do {
        b \<leftarrow> byte_at mem i';
        if plain b then conv_loop mem a (i' + 1) (out @ [ucast b]) (wn - 1)
        else (case lead_state b of
            None \<Rightarrow> Some (Stopped 0 (int i') out wn)
          | Some c \<Rightarrow> do {
              r \<leftarrow> conv_tail c mem (i' + 1);
              (case r of
                 Inl (c, pos) \<Rightarrow> Some (Stopped c pos out wn)
               | Inr (wc, i) \<Rightarrow> conv_loop mem a i (out @ [wc]) (wn - 1)) }) }) = conv_bytes mem i' out wn"
    if "i \<le> i'" "wn \<noteq> 0" "enough mem a i' wn" for i' out wn
  proof (cases "i' < length mem")
    case True
    have "1 \<le> wn"
      using \<open>wn \<noteq> 0\<close> by (simp add: word_le_nat_alt Suc_le_eq unat_gt_0)
    then have "conv_loop mem a j out' (wn - 1) = conv_bytes mem j out' (wn - 1)" if "i' < j" "j \<le> i' + 4" for j out'
      using that \<open>i \<le> i'\<close> True enough_step [OF \<open>enough mem a i' wn\<close>, of 1 j] by (intro less.hyps) auto
    then show ?thesis
      using True \<open>wn \<noteq> 0\<close> conv_tail_advances [of _ mem "i' + 1"]
      by (subst conv_bytes.simps)
        (fastforce simp: byte_at_def split: option.split sum.split bind_split)
  next
    case False
    then show ?thesis
      using \<open>wn \<noteq> 0\<close> by (subst conv_bytes.simps) (simp add: byte_at_def)
  qed
  show ?case
  proof (cases "wn = 0 \<or> byte_at mem i = None")
    case True
    then show ?thesis
      by (subst conv_loop.simps, subst conv_bytes.simps) auto
  next
    case False
    then obtain b where b: "byte_at mem i = Some b" and wn: "wn \<noteq> 0"
      by auto
    show ?thesis
    proof (cases "plain b \<and> (a + i) mod 4 = 0")
      case True
      then have "case conv_words mem i out wn of
          None \<Rightarrow> conv_bytes mem i out wn = None
        | Some (i', out', wn') \<Rightarrow> i \<le> i' \<and> wn' \<noteq> 0 \<and> enough mem a i' wn' \<and> conv_bytes mem i out wn = conv_bytes mem i' out' wn'"
        by (intro conv_words_bytes [OF less.prems _ wn]) simp
      then show ?thesis
        using char True b wn by (subst conv_loop.simps) (auto split: option.splits)
    next
      case False
      then show ?thesis
        using char [of i wn out] b wn less.prems by (subst conv_loop.simps) auto
    qed
  qed
qed

lemma count_loop_bytes:
  assumes "(a + length mem) mod 4 = 0"
  shows "count_loop mem a i wn = count_bytes mem i wn"
proof (induction "length mem - i" arbitrary: i wn rule: less_induct)
  case less
  have char: "(do {
        b \<leftarrow> byte_at mem i';
        if plain b then count_loop mem a (i' + 1) (wn - 1)
        else (case lead_state b of
            None \<Rightarrow> Some (0, int i', wn)
          | Some c \<Rightarrow> do {
              r \<leftarrow> count_tail c mem (i' + 1);
              (case r of
                 Inl (c, pos) \<Rightarrow> Some (c, pos, wn)
               | Inr i \<Rightarrow> count_loop mem a i (wn - 1)) }) }) = count_bytes mem i' wn"
    if "i \<le> i'" for i' wn
  proof (cases "i' < length mem")
    case True
    have "count_loop mem a j wn' = count_bytes mem j wn'" if "i' < j" for j wn'
      using that \<open>i \<le> i'\<close> True by (intro less.hyps) linarith
    then show ?thesis
      using True count_tail_advances [of _ mem "i' + 1"]
      by (subst count_bytes.simps)
        (fastforce simp: byte_at_def split: option.split sum.split bind_split)
  next
    case False
    then show ?thesis
      by (subst count_bytes.simps) (simp add: byte_at_def)
  qed
  show ?case
  proof (cases "byte_at mem i")
    case None
    then show ?thesis
      by (subst count_loop.simps, subst count_bytes.simps) auto
  next
    case (Some b)
    show ?thesis
    proof (cases "plain b \<and> (a + i) mod 4 = 0")
      case True
      then have "case count_words mem i wn of
          None \<Rightarrow> count_bytes mem i wn = None
        | Some (i', wn') \<Rightarrow> i \<le> i' \<and> count_bytes mem i wn = count_bytes mem i' wn'"
        by (intro count_words_bytes [OF assms]) simp
      then show ?thesis
        using char True Some by (subst count_loop.simps) (auto split: option.splits)
    next
      case False
      then show ?thesis
        using char [of i wn] Some by (subst count_loop.simps) auto
    qed
  qed
qed

section \<open>One character\<close>

lemma byte_at_shape:
  "drop i mem = y # r \<Longrightarrow> byte_at mem i = Some y"
  "drop i mem = y # z # r \<Longrightarrow> byte_at mem (i + 1) = Some z"
  "drop i mem = y # z # u # r \<Longrightarrow> byte_at mem (i + 2) = Some u"
proof -
  have nth: "byte_at mem (i + j) = Some (drop i mem ! j)" if "j < length (drop i mem)" for j
    using that by (simp add: byte_at_def add.commute)
  show "byte_at mem i = Some y" if "drop i mem = y # r"
    using nth [of 0] that by simp
  show "byte_at mem (i + 1) = Some z" if "drop i mem = y # z # r"
    using nth [of 1] that by simp
  show "byte_at mem (i + 2) = Some u" if "drop i mem = y # z # u # r"
    using nth [of 2] that by (simp add: numeral_eq_Suc)
qed

lemma pending_OOB: "pending c lo hi k v \<Longrightarrow> OOB c b \<longleftrightarrow> \<not> (lo \<le> unat b \<and> unat b \<le> hi)"
  by (simp add: pending_def)

lemma pending_high: "pending c lo hi k v \<Longrightarrow> lo \<le> unat b \<Longrightarrow> unat b \<le> hi \<Longrightarrow> high_bit (add_byte c b) \<longleftrightarrow> k \<noteq> 1"
  using pending_next(1) pending_last(1) by (cases "k = 1") auto

lemma high_bit_nonzero: "high_bit c \<Longrightarrow> c \<noteq> 0"
  by (auto simp: high_bit_def)

lemma pending_nonzero: "pending c lo hi k v \<Longrightarrow> c \<noteq> 0"
  using high_bit_nonzero by (auto simp: pending_def)

text \<open>What a tail gives, according to the table of well-formed sequences.\<close>

definition tail_agrees :: "scan \<Rightarrow> nat \<Rightarrow> ((u32 \<times> int) + (u32 \<times> nat)) option \<Rightarrow> bool" where
  "tail_agrees r i t \<longleftrightarrow> (case r of
      Char x m \<Rightarrow> t = Some (Inr (of_nat x, i + m))
    | Bad \<Rightarrow> (\<exists>c'. c' \<noteq> 0 \<and> t = Some (Inl (c', int i - 1)))
    | More \<Rightarrow> True)"

lemma tail_agrees_simps [simp]:
  "tail_agrees (Char x m) i t \<longleftrightarrow> t = Some (Inr (of_nat x, i + m))"
  "tail_agrees Bad i t \<longleftrightarrow> (\<exists>c'. c' \<noteq> 0 \<and> t = Some (Inl (c', int i - 1)))" "tail_agrees More i t"
  by (simp_all add: tail_agrees_def)

text \<open>The part of the code after the first and after the second byte of the tail.\<close>

definition third_byte :: "u32 \<Rightarrow> u8 list \<Rightarrow> nat \<Rightarrow> ((u32 \<times> int) + (u32 \<times> nat)) option" where
  "third_byte c mem i = do {
     b \<leftarrow> byte_at mem (i + 2);
     if not_cont b then Some (Inl (c, int (i + 2) - 3)) else Some (Inr (add_byte c b, i + 3)) }"

definition second_byte :: "u32 \<Rightarrow> u8 list \<Rightarrow> nat \<Rightarrow> ((u32 \<times> int) + (u32 \<times> nat)) option" where
  "second_byte c mem i = do {
     b \<leftarrow> byte_at mem (i + 1);
     if not_cont b then Some (Inl (c, int (i + 1) - 2))
     else if \<not> high_bit (add_byte c b) then Some (Inr (add_byte c b, i + 2))
     else third_byte (add_byte c b) mem i }"

lemma conv_tail_steps: "conv_tail c mem i = do {
     b \<leftarrow> byte_at mem i;
     if OOB c b then Some (Inl (c, int i - 1))
     else if \<not> high_bit (add_byte c b) then Some (Inr (add_byte c b, i + 1))
     else second_byte (add_byte c b) mem i }"
  unfolding conv_tail_def second_byte_def third_byte_def Let_def ..

lemma third_byte_scan:
  assumes "pending c 0x80 0xbf 1 v" and "drop i mem = y # z # bs"
  shows "tail_agrees (scan_tail 0x80 0xbf 1 v 2 (map unat bs)) i (third_byte c mem i)"
  using assms byte_at_shape(3) [of i mem] pending_nonzero [OF assms(1)] pending_last [OF assms(1)]
  by (cases bs) (auto simp: third_byte_def not_cont_iff)

lemma second_byte_scan:
  assumes "pending c 0x80 0xbf k v" and "k \<noteq> 3" and "drop i mem = y # bs"
  shows "tail_agrees (scan_tail 0x80 0xbf k v 1 (map unat bs)) i (second_byte c mem i)"
proof (cases bs)
  case (Cons z bs')
  then have z: "byte_at mem (i + 1) = Some z"
    using byte_at_shape(2) [of i mem] assms(3) by simp
  show ?thesis
  proof (cases "0x80 \<le> unat z \<and> unat z \<le> 0xbf")
    case True
    note high = pending_high [OF assms(1), of z]
    show ?thesis
    proof (cases "k = 1")
      case False
      then have k: "k - 1 = 1"
        using pending_order [OF assms(1)] assms(2) by auto
      note nxt = pending_next(2) [OF assms(1) _ _ False, of z, unfolded k]
      show ?thesis
        using True False high z Cons third_byte_scan [OF nxt, of i mem y z bs'] assms(3) k
        by (simp add: second_byte_def not_cont_iff numeral_eq_Suc)
    next
      case k: True
      then show ?thesis
        using True high z Cons pending_last(2) [of c "0x80" "0xbf" v z] assms(1)
        by (simp add: second_byte_def not_cont_iff)
    qed
  next
    case False
    then show ?thesis
      using z Cons pending_nonzero [OF assms(1)] by (auto simp: second_byte_def not_cont_iff)
  qed
qed simp

lemma conv_tail_scan:
  assumes "pending c lo hi k v"
  shows "tail_agrees (scan_tail lo hi k v 0 (map unat (drop i mem))) i (conv_tail c mem i)"
proof (cases "drop i mem")
  case (Cons y bs)
  then have y: "byte_at mem i = Some y"
    using byte_at_shape(1) [of i mem] by simp
  show ?thesis
  proof (cases "lo \<le> unat y \<and> unat y \<le> hi")
    case True
    note high = pending_high [OF assms, of y]
    show ?thesis
    proof (cases "k = 1")
      case False
      then have k: "k - 1 \<noteq> 3"
        using pending_order [OF assms] by auto
      show ?thesis
        using True False high y Cons second_byte_scan [OF pending_next(2) [OF assms _ _ False] k, of y i mem y bs]
          pending_OOB [OF assms]
        by (simp add: conv_tail_steps)
    next
      case k: True
      then show ?thesis
        using True high y Cons pending_last(2) [of c lo hi v y] assms pending_OOB [OF assms]
        by (simp add: conv_tail_steps)
    qed
  next
    case False
    then show ?thesis
      using y Cons pending_nonzero [OF assms] pending_OOB [OF assms] by (auto simp: conv_tail_steps)
  qed
qed simp

text \<open>Counting reads the number of bytes off the state of the lead byte.\<close>

lemma bit_after_shift:
  fixes c :: u32
  assumes "push_bit 6 c = of_nat x" and "x < 2 ^ 32" and "n + 6 < 32"
  shows "c AND push_bit n 1 = 0 \<longleftrightarrow> even (x div 2 ^ (n + 6))"
proof -
  have "c AND push_bit n 1 = 0 \<longleftrightarrow> \<not> bit c n"
    using and_exp_eq_0_iff_not_bit [of c n] by (simp only: push_bit_of_1)
  moreover have "bit c n \<longleftrightarrow> bit (push_bit 6 c) (n + 6)"
    using assms(3) by (simp add: bit_push_bit_iff)
  moreover have "bit (of_nat x :: u32) (n + 6) \<longleftrightarrow> bit x (n + 6)"
    using assms(3) by (simp add: bit_of_nat_iff)
  ultimately show ?thesis
    unfolding assms(1) by (simp add: bit_iff_odd)
qed

lemma pending_bits:
  assumes "pending c lo hi k v"
  shows "c AND push_bit 25 1 = 0 \<longleftrightarrow> k = 1" and "k \<noteq> 1 \<Longrightarrow> c AND push_bit 19 1 = 0 \<longleftrightarrow> k = 2"
proof -
  consider "k = 1" "v < 2 ^ 15" | "k = 2" "v < 2 ^ 9" | "k = 3" "v < 2 ^ 3"
    using pending_order [OF assms] assms by (auto simp: pending_def)
  then have "(c AND push_bit 25 1 = 0 \<longleftrightarrow> k = 1) \<and> (k \<noteq> 1 \<longrightarrow> (c AND push_bit 19 1 = 0 \<longleftrightarrow> k = 2))"
  proof cases
    case 1
    then have "push_bit 6 c = of_nat (v * 64)"
      using assms by (simp add: pending_def shifted_tail_def)
    from bit_after_shift [OF this, of 25] show ?thesis
      using 1 by simp
  next
    case 2
    then have "push_bit 6 c = of_nat (0xc0000000 + v * 64)"
      using assms by (simp add: pending_def shifted_tail_def)
    moreover have "(0xc0000000 + v * 64) div 2 ^ 31 = 1" "(0xc0000000 + v * 64) div 2 ^ 25 = 96"
      using 2(2) by simp_all
    ultimately show ?thesis
      using 2 bit_after_shift [of c "0xc0000000 + v * 64" 25] bit_after_shift [of c "0xc0000000 + v * 64" 19] by simp
  next
    case 3
    then have "push_bit 6 c = of_nat (0xc3000000 + v * 64)"
      using assms by (simp add: pending_def shifted_tail_def)
    moreover have "(0xc3000000 + v * 64) div 2 ^ 31 = 1" "(0xc3000000 + v * 64) div 2 ^ 25 = 97"
      using 3(2) by simp_all
    ultimately show ?thesis
      using 3 bit_after_shift [of c "0xc3000000 + v * 64" 25] bit_after_shift [of c "0xc3000000 + v * 64" 19] by simp
  qed
  then show "c AND push_bit 25 1 = 0 \<longleftrightarrow> k = 1" and "k \<noteq> 1 \<Longrightarrow> c AND push_bit 19 1 = 0 \<longleftrightarrow> k = 2"
    by blast+
qed

definition forget_char :: "u32 \<Rightarrow> (u32 \<times> int) + (u32 \<times> nat) \<Rightarrow> (u32 \<times> int) + nat" where
  "forget_char c r = (case r of Inl (_, pos) \<Rightarrow> Inl (c, pos) | Inr (_, j) \<Rightarrow> Inr j)"

lemma count_tail_conv:
  assumes "pending c lo hi k v"
  shows "count_tail c mem i = map_option (forget_char c) (conv_tail c mem i)"
proof (cases "byte_at mem i")
  case (Some y)
  show ?thesis
  proof (cases "OOB c y")
    case False
    then have range: "lo \<le> unat y" "unat y \<le> hi"
      using pending_OOB [OF assms] by auto
    note high = pending_high [OF assms range]
    show ?thesis
    proof (cases "k = 1")
      case True
      then show ?thesis
        using Some False high pending_bits(1) [OF assms]
        by (simp add: count_tail_def conv_tail_steps forget_char_def)
    next
      case k: False
      note nxt = pending_next [OF assms range k]
      show ?thesis
      proof (cases "byte_at mem (i + 1)")
        case None
        then show ?thesis
          using Some False high k pending_bits(1) [OF assms]
          by (simp add: count_tail_def conv_tail_steps second_byte_def)
      next
        case (Some z)
        then have "not_cont z \<or> high_bit (add_byte (add_byte c y) z) \<longleftrightarrow> not_cont z \<or> k \<noteq> 2"
          using pending_high [OF nxt(2), of z] k by (auto simp: not_cont_iff)
        then show ?thesis
          using Some \<open>byte_at mem i = Some y\<close> False high k pending_bits [OF assms]
          by (cases "not_cont z"; cases "byte_at mem (i + 2)")
            (simp_all add: count_tail_def conv_tail_steps second_byte_def third_byte_def forget_char_def)
      qed
    qed
  next
    case True
    then show ?thesis
      using Some by (simp add: count_tail_def conv_tail_steps forget_char_def)
  qed
qed (simp add: count_tail_def conv_tail_steps)

end
