(* ===== verification/Multibyte_Strings_Calls.thy ===== *)
theory Multibyte_Strings_Calls
  imports Multibyte_Loops
begin

unbundle bit_operations_syntax

text \<open>
  From byte strings to wide strings: the characters of a byte string up to its terminator or
  its first ill-formed sequence.
\<close>

section \<open>Decoding a string\<close>

definition encoded :: "nat list \<Rightarrow> nat list" where
  "encoded xs = concat (map utf8_bytes xs)"

lemma unat_byte_count: "unat (of_nat (length (utf8_bytes x)) :: u32) = length (utf8_bytes x)"
  using utf8_bytes_length(2) [of x] by (intro unat_small) simp

lemma byte_count_plus_1: "(of_nat (length (utf8_bytes x)) :: u32) + 1 \<noteq> 0"
proof
  assume "(of_nat (length (utf8_bytes x)) :: u32) + 1 = 0"
  then have "(of_nat (length (utf8_bytes x)) :: u32) = -1"
    by (simp add: eq_neg_iff_add_eq_0)
  then have "length (utf8_bytes x) = unat (-1 :: u32)"
    using unat_byte_count [of x] by simp
  then show False
    using utf8_bytes_length(2) [of x] by (simp add: unat_minus_one_32)
qed

lemma encoded_simps [simp]:
  "encoded [] = []" "encoded (x # xs) = utf8_bytes x @ encoded xs" "encoded (xs @ ys) = encoded xs @ encoded ys"
  by (simp_all add: encoded_def)

function utf8_decode :: "nat list \<Rightarrow> nat list" where
  "utf8_decode bs = (case utf8_scan bs of
       Char x k \<Rightarrow> if x = 0 then [] else x # utf8_decode (drop k bs)
     | _ \<Rightarrow> [])"
  by pat_completeness auto

termination
proof (relation "measure length")
  fix bs x k
  assume "utf8_scan bs = Char x k"
  then have "0 < k" "bs \<noteq> []"
    using scan_char_prefix [of bs x k] utf8_bytes_length(1) by auto
  then show "(drop k bs, bs) \<in> measure length"
    by simp
qed simp

declare utf8_decode.simps [simp del]

lemma nonzero_bytes: "x \<noteq> 0 \<Longrightarrow> 0 \<notin> set (utf8_bytes x)"
  by (auto simp: utf8_bytes_def)

lemma scan_tail_nul: "0 \<in> set bs \<Longrightarrow> 0 < lo \<Longrightarrow> scan_tail lo hi k v j bs \<noteq> More"
  by (induction lo hi k v j bs rule: scan_tail.induct) auto

lemma scan_nul: "0 \<in> set bs \<Longrightarrow> utf8_scan bs \<noteq> More"
proof (cases bs)
  case (Cons b r)
  assume nul: "0 \<in> set bs"
  show ?thesis
  proof (cases "b < 0x80 \<or> lead_class b = None")
    case False
    then obtain lo hi k v where lead: "lead_class b = Some (lo, hi, k, v)"
      by auto
    have "0 < lo"
      using lead by (cases rule: lead_class_cases) auto
    moreover have "0 \<in> set r"
      using nul Cons False by auto
    ultimately show ?thesis
      using scan_tail_nul [of r lo hi k v 1] lead False Cons by simp
  qed (use Cons in auto)
qed simp

lemma decode_char:
  assumes "utf8_scan bs = Char x k" and "x \<noteq> 0"
  shows "utf8_decode bs = x # utf8_decode (drop k bs)" "bs = utf8_bytes x @ drop k bs" "k = length (utf8_bytes x)"
    "scalar x" "0 \<in> set bs \<Longrightarrow> 0 \<in> set (drop k bs)"
proof -
  have pre: "scalar x" "k = length (utf8_bytes x)" "prefix (utf8_bytes x) bs"
    using scan_char_prefix [OF assms(1)] by simp_all
  then show bs: "bs = utf8_bytes x @ drop k bs" "k = length (utf8_bytes x)" "scalar x"
    by (auto simp: prefix_def)
  show "utf8_decode bs = x # utf8_decode (drop k bs)"
    using assms by (subst utf8_decode.simps) simp
  assume "0 \<in> set bs"
  then have "0 \<in> set (utf8_bytes x @ drop k bs)"
    using bs(1) by simp
  then show "0 \<in> set (drop k bs)"
    using nonzero_bytes [OF assms(2)] by simp
qed

lemma decode_cases:
  obtains (char) x k where "utf8_scan bs = Char x k" "x \<noteq> 0"
  | (stop) "utf8_scan bs = Bad \<or> (\<exists>k. utf8_scan bs = Char 0 k)" "utf8_decode bs = []"
  | (more) "utf8_scan bs = More" "utf8_decode bs = []"
  by (cases "utf8_scan bs") (auto simp: utf8_decode.simps [of bs])

lemma decode_encoded:
  assumes "\<forall>x\<in>set xs. scalar x \<and> x \<noteq> 0"
  shows "utf8_decode (encoded xs @ 0 # bs) = xs"
  using assms
proof (induction xs)
  case Nil
  then show ?case
    by (simp add: utf8_decode.simps)
next
  case (Cons x xs)
  then have "utf8_scan (encoded (x # xs) @ 0 # bs) = Char x (length (utf8_bytes x))"
    using scan_encoding [of x "encoded xs @ 0 # bs"] by simp
  then show ?case
    using decode_char(1) Cons by fastforce
qed

section \<open>Characters in the loops\<close>

lemma lead_cases:
  assumes "drop i mem = b # r"
  obtains (plain) "plain b" "utf8_scan (map unat (drop i mem)) = Char (unat b) 1"
  | (nul) "b = 0" "\<not> plain b" "lead_state b = None" "utf8_scan (map unat (drop i mem)) = Char 0 1"
  | (none) "b \<noteq> 0" "\<not> plain b" "lead_state b = None" "utf8_scan (map unat (drop i mem)) = Bad"
  | (lead) c lo hi k v where "b \<noteq> 0" "\<not> plain b" "lead_state b = Some c" "pending c lo hi k v"
      "utf8_scan (map unat (drop i mem)) = shift_count 1 (scan_tail lo hi k v 0 (map unat (drop (i + 1) mem)))"
proof -
  have r: "drop (i + 1) mem = r"
    using assms by (metis drop_drop drop_Suc_Cons drop_0 add.commute One_nat_def)
  show thesis
  proof (cases "unat b < 0x80")
    case True
    show thesis
    proof (cases "b = 0")
      case b0: True
      have "lead_state b = None"
        by (simp add: b0 lead_state_def SA_def SB_def)
      then show thesis
        using nul assms b0 by (simp add: plain_iff)
    next
      case False
      then have "1 \<le> unat b"
        by (simp add: Suc_le_eq unat_gt_0)
      then show thesis
        using plain assms True by (simp add: plain_iff)
    qed
  next
    case False
    then have b: "b \<noteq> 0" "\<not> plain b" "0x80 \<le> unat b"
      by (auto simp: plain_iff)
    show thesis
    proof (cases "lead_class (unat b)")
      case None
      then show thesis
        using none b no_lead [OF None b(3)] assms by simp
    next
      case (Some q)
      then obtain lo hi k v where q: "lead_class (unat b) = Some (lo, hi, k, v)"
        by (cases q) auto
      obtain c where c: "lead_state b = Some c" "pending c lo hi k v"
        by (rule pending_lead [OF q])
      show thesis
        using lead [OF b(1,2) c] q False assms r scan_tail_shift [of lo hi k v 0 1 "map unat r"] by simp
    qed
  qed
qed

lemma shift_count_Char: "shift_count 1 r = Char x k \<Longrightarrow> r = Char x (k - 1) \<and> 1 \<le> k"
  by (cases r) auto

lemma shift_count_Bad: "shift_count 1 r = Bad \<Longrightarrow> r = Bad"
  by (cases r) auto

lemma byte_scan:
  assumes "utf8_scan (map unat (drop i mem)) \<noteq> More"
  obtains b r where "drop i mem = b # r" "byte_at mem i = Some b" "i < length mem" "b = mem ! i"
proof (cases "drop i mem")
  case (Cons b r)
  then have "byte_at mem i = Some b"
    by (rule byte_at_shape(1))
  then show thesis
    using that Cons by (auto simp: byte_at_Some)
qed (use assms in simp)

lemma loops_char:
  assumes "utf8_scan (map unat (drop i mem)) = Char x k" and "x \<noteq> 0"
  shows "wn \<noteq> 0 \<Longrightarrow> conv_bytes mem i out wn = conv_bytes mem (i + k) (out @ [of_nat x]) (wn - 1)"
    and "count_bytes mem i wn = count_bytes mem (i + k) (wn - 1)"
proof -
  have "utf8_scan (map unat (drop i mem)) \<noteq> More"
    using assms(1) by simp
  then obtain b r where b: "drop i mem = b # r" "byte_at mem i = Some b" "i < length mem" "b = mem ! i"
    by (rule byte_scan)
  have "(wn \<noteq> 0 \<longrightarrow> conv_bytes mem i out wn = conv_bytes mem (i + k) (out @ [of_nat x]) (wn - 1)) \<and>
      count_bytes mem i wn = count_bytes mem (i + k) (wn - 1)"
    using b(1)
  proof (cases rule: lead_cases [case_names plain nul none lead])
    case plain
    then have "x = unat b" "k = 1"
      using assms(1) by simp_all
    then show ?thesis
      using plain(1) b(2) by (subst conv_bytes.simps, subst count_bytes.simps) simp
  next
    case (lead c lo hi j v)
    have tail: "scan_tail lo hi j v 0 (map unat (drop (i + 1) mem)) = Char x (k - 1)" "1 \<le> k"
      using shift_count_Char lead(5) assms(1) by metis+
    then have "conv_tail c mem (i + 1) = Some (Inr (of_nat x, i + k))"
      using conv_tail_scan [OF lead(4), of "i + 1" mem] by simp
    moreover from this have "count_tail c mem (i + 1) = Some (Inr (i + k))"
      by (simp add: count_tail_conv [OF lead(4)] forget_char_def)
    ultimately show ?thesis
      using lead b(2) by (subst conv_bytes.simps, subst count_bytes.simps) simp
  qed (use assms in simp_all)
  then show "wn \<noteq> 0 \<Longrightarrow> conv_bytes mem i out wn = conv_bytes mem (i + k) (out @ [of_nat x]) (wn - 1)"
    and "count_bytes mem i wn = count_bytes mem (i + k) (wn - 1)"
    by blast+
qed

text \<open>The loops stop at the terminator and at the first ill-formed sequence.\<close>

lemma loops_stop:
  assumes "utf8_scan (map unat (drop i mem)) = Bad \<or> (\<exists>k. utf8_scan (map unat (drop i mem)) = Char 0 k)"
  shows "wn \<noteq> 0 \<Longrightarrow> \<exists>c. conv_bytes mem i out wn = Some (Stopped c (int i) out wn) \<and> (c = 0 \<or> mem ! i \<noteq> 0)"
    and "\<exists>c. count_bytes mem i wn = Some (c, int i, wn) \<and> (c = 0 \<or> mem ! i \<noteq> 0)"
    and "i < length mem"
proof -
  have "utf8_scan (map unat (drop i mem)) \<noteq> More"
    using assms by auto
  then obtain b r where b: "drop i mem = b # r" "byte_at mem i = Some b" "i < length mem" "b = mem ! i"
    by (rule byte_scan)
  have "(wn \<noteq> 0 \<longrightarrow> (\<exists>c. conv_bytes mem i out wn = Some (Stopped c (int i) out wn) \<and> (c = 0 \<or> mem ! i \<noteq> 0))) \<and>
      (\<exists>c. count_bytes mem i wn = Some (c, int i, wn) \<and> (c = 0 \<or> mem ! i \<noteq> 0))"
    using b(1)
  proof (cases rule: lead_cases [case_names plain nul none lead])
    case plain
    then show ?thesis
      using assms by (auto simp: plain_iff)
  next
    case (lead c lo hi j v)
    have pos: "x \<noteq> 0" if "utf8_scan (map unat (drop i mem)) = Char x k" for x k
      using scan_char_pos [of "unat b" "map unat r" x k] that b(1) lead(1,2) by (auto simp: plain_iff Suc_le_eq unat_gt_0)
    then have "scan_tail lo hi j v 0 (map unat (drop (i + 1) mem)) = Bad"
      using assms lead(5) shift_count_Bad by auto
    then obtain c' where tail: "c' \<noteq> 0" "conv_tail c mem (i + 1) = Some (Inl (c', int i))"
      using conv_tail_scan [OF lead(4), of "i + 1" mem] by auto
    moreover from this have "count_tail c mem (i + 1) = Some (Inl (c, int i))"
      by (simp add: count_tail_conv [OF lead(4)] forget_char_def)
    ultimately show ?thesis
      using lead(1-3) b(2,4) by (subst conv_bytes.simps, subst count_bytes.simps) auto
  qed (use b in \<open>(subst conv_bytes.simps, subst count_bytes.simps, simp)+\<close>)
  then show "wn \<noteq> 0 \<Longrightarrow> \<exists>c. conv_bytes mem i out wn = Some (Stopped c (int i) out wn) \<and> (c = 0 \<or> mem ! i \<noteq> 0)"
    and "\<exists>c. count_bytes mem i wn = Some (c, int i, wn) \<and> (c = 0 \<or> mem ! i \<noteq> 0)"
    and "i < length mem"
    using b(3) by blast+
qed

text \<open>The bytes after the characters that are decoded.\<close>

definition undecoded :: "nat list \<Rightarrow> nat list" where
  "undecoded bs = drop (length (encoded (utf8_decode bs))) bs"

lemma undecoded_char:
  assumes "utf8_scan bs = Char x k" and "x \<noteq> 0"
  shows "undecoded bs = undecoded (drop k bs)"
  unfolding undecoded_def decode_char(1) [OF assms] using decode_char(3) [OF assms] by (simp add: add.commute)

lemma undecoded_nul: "0 \<in> set bs \<Longrightarrow> utf8_scan (undecoded bs) \<noteq> More"
proof (induction bs rule: utf8_decode.induct)
  case (1 bs)
  show ?case
  proof (cases bs rule: decode_cases)
    case (char x k)
    then show ?thesis
      using "1.IH" [OF char] decode_char(5) [OF char "1.prems"] by (simp add: undecoded_char [OF char])
  qed (use scan_nul [OF "1.prems"] in \<open>simp_all add: undecoded_def\<close>)
qed

lemma drop_bytes: "drop k (map unat (drop i mem)) = map unat (drop (i + k) mem)"
  by (simp add: drop_map add.commute)

lemma count_bytes_decode:
  assumes "utf8_scan (undecoded (map unat (drop i mem))) \<noteq> More" and "utf8_decode (map unat (drop i mem)) = xs"
  shows "\<exists>c. count_bytes mem i wn = Some (c, int (i + length (encoded xs)), wn - of_nat (length xs)) \<and>
    (c = 0 \<or> mem ! (i + length (encoded xs)) \<noteq> 0) \<and> i + length (encoded xs) < length mem"
  using assms
proof (induction xs arbitrary: i wn)
  case Nil
  then have "utf8_scan (map unat (drop i mem)) = Bad \<or> (\<exists>k. utf8_scan (map unat (drop i mem)) = Char 0 k)"
    by (cases "map unat (drop i mem)" rule: decode_cases) (auto simp: undecoded_def decode_char(1))
  then show ?case
    using loops_stop(2,3) by auto
next
  case (Cons x xs)
  show ?case
  proof (cases "map unat (drop i mem)" rule: decode_cases)
    case (char y k)
    then show ?thesis
      using Cons.IH [of "i + k" "wn - 1"] Cons.prems decode_char(1,3) [OF char] loops_char(2) [OF char, of wn]
        undecoded_char [OF char]
      by (auto simp: drop_bytes algebra_simps)
  qed (use Cons.prems(2) in simp_all)
qed

lemma conv_bytes_decode:
  assumes "unat wn \<le> length xs \<or> utf8_scan (undecoded (map unat (drop i mem))) \<noteq> More"
    and "utf8_decode (map unat (drop i mem)) = xs"
  shows "if unat wn \<le> length xs
    then conv_bytes mem i out wn =
      Some (Full (i + length (encoded (take (unat wn) xs))) (out @ map of_nat (take (unat wn) xs)))
    else \<exists>c. conv_bytes mem i out wn =
        Some (Stopped c (int (i + length (encoded xs))) (out @ map of_nat xs) (wn - of_nat (length xs))) \<and>
      (c = 0 \<or> mem ! (i + length (encoded xs)) \<noteq> 0) \<and> i + length (encoded xs) < length mem"
  using assms
proof (induction xs arbitrary: i out wn)
  case Nil
  show ?case
  proof (cases "wn = 0")
    case False
    then have "utf8_scan (undecoded (map unat (drop i mem))) \<noteq> More"
      using Nil(1) by (simp add: unat_eq_0)
    then have "utf8_scan (map unat (drop i mem)) = Bad \<or> (\<exists>k. utf8_scan (map unat (drop i mem)) = Char 0 k)"
      using Nil(2)
      by (cases "map unat (drop i mem)" rule: decode_cases) (auto simp: undecoded_def decode_char(1))
    then show ?thesis
      using loops_stop(1,3) False by (auto simp: unat_eq_0)
  qed (simp add: conv_bytes.simps)
next
  case (Cons x xs)
  show ?case
  proof (cases "wn = 0")
    case False
    obtain n where n: "unat wn = Suc n" "unat (wn - 1) = n"
      using False by (cases "unat wn") (auto simp: unat_eq_0 unat_sub_if')
    show ?thesis
    proof (cases "map unat (drop i mem)" rule: decode_cases)
      case (char y k)
      note dec = decode_char(1,3) [OF char]
      have xs: "y = x" "utf8_decode (map unat (drop (i + k) mem)) = xs"
        using Cons.prems(2) dec(1) by (simp_all add: drop_bytes)
      have "conv_bytes mem i out wn = conv_bytes mem (i + k) (out @ [of_nat x]) (wn - 1)"
        using loops_char(1) [OF char False] xs(1) by simp
      moreover have "unat (wn - 1) \<le> length xs \<or> utf8_scan (undecoded (map unat (drop (i + k) mem))) \<noteq> More"
        using Cons.prems(1) n undecoded_char [OF char] by (auto simp: drop_bytes)
      note Cons.IH [OF this xs(2), of "out @ [of_nat x]"]
      ultimately show ?thesis
        using n dec(2) xs(1) by (auto simp: algebra_simps)
    qed (use Cons.prems(2) in simp_all)
  qed (simp add: conv_bytes.simps)
qed

section \<open>Byte strings to wide strings\<close>

lemma decode_prefix: "prefix (encoded (utf8_decode bs)) bs"
proof (induction bs rule: utf8_decode.induct)
  case (1 bs)
  show ?case
  proof (cases bs rule: decode_cases)
    case (char x k)
    note dec = decode_char [OF char]
    have "prefix (encoded (utf8_decode (drop k bs))) (drop k bs)"
      using "1.IH" [OF char] .
    then have "prefix (utf8_bytes x @ encoded (utf8_decode (drop k bs))) (utf8_bytes x @ drop k bs)"
      by simp
    then show ?thesis
      using dec(1,2) by simp
  qed simp_all
qed

lemma nul_bytes: "0 \<in> set mem \<Longrightarrow> 0 \<in> set (map unat (mem :: u8 list))"
  by (auto intro: rev_image_eqI)

lemma initial_state: "mbsinit st \<Longrightarrow> (case st of None \<Rightarrow> 0 | Some c \<Rightarrow> c) = 0"
  by (simp add: mbsinit_def split: option.splits)

lemma mbsrtowcs_count:
  assumes "0 \<in> set mem" and "(a + length mem) mod 4 = 0" and "mbsinit st"
  defines "xs \<equiv> utf8_decode (map unat mem)"
  shows "mbsrtowcs True False mem a wn st s = Some
      (if mem ! length (encoded xs) = 0
       then (\<lparr>ms_ret = of_nat (length xs), ms_out = [], ms_src = Some 0, ms_st = st\<rparr>, s)
       else (\<lparr>ms_ret = -1, ms_out = [], ms_src = Some 0, ms_st = st\<rparr>, s\<lparr>mb_errno := EILSEQ\<rparr>))"
proof -
  have "utf8_scan (undecoded (map unat (drop 0 mem))) \<noteq> More"
    using undecoded_nul [OF nul_bytes [OF assms(1)]] by simp
  then obtain c where "count_bytes mem 0 wn = Some (c, int (length (encoded xs)), wn - of_nat (length xs))"
    "c = 0 \<or> mem ! length (encoded xs) \<noteq> 0" "length (encoded xs) < length mem"
    using count_bytes_decode [of 0 mem xs wn] by (auto simp: xs_def)
  then show ?thesis
    by (auto simp: mbsrtowcs_def initial_state [OF assms(3)] MB_CUR_MAX_def count_loop_bytes [OF assms(2)] end_count_def
        stop_conv_def byte_at_def)
qed

lemma mbsrtowcs_conv_enough:
  assumes "unat wn \<le> length xs \<or> utf8_scan (undecoded (map unat mem)) \<noteq> More" and "enough mem a 0 wn" and "mbsinit st"
    and "utf8_decode (map unat mem) = xs"
  shows "mbsrtowcs True True mem a wn st s = Some
      (if unat wn \<le> length xs
       then (\<lparr>ms_ret = wn, ms_out = map of_nat (take (unat wn) xs),
              ms_src = Some (int (length (encoded (take (unat wn) xs)))), ms_st = st\<rparr>, s)
       else if mem ! length (encoded xs) = 0
       then (\<lparr>ms_ret = of_nat (length xs), ms_out = map of_nat xs @ [0], ms_src = None, ms_st = st\<rparr>, s)
       else (\<lparr>ms_ret = -1, ms_out = map of_nat xs, ms_src = Some (int (length (encoded xs))), ms_st = st\<rparr>,
             s\<lparr>mb_errno := EILSEQ\<rparr>))"
  using conv_bytes_decode [of wn xs 0 mem "[]"] assms(1,4)
  by (auto simp: mbsrtowcs_def initial_state [OF assms(3)] MB_CUR_MAX_def conv_loop_bytes [OF assms(2)] end_conv_def
      stop_conv_def byte_at_def split: if_splits)

lemma mbsrtowcs_conv:
  assumes "0 \<in> set mem" and "(a + length mem) mod 4 = 0" and "mbsinit st"
  defines "xs \<equiv> utf8_decode (map unat mem)"
  shows "mbsrtowcs True True mem a wn st s = Some
      (if unat wn \<le> length xs
       then (\<lparr>ms_ret = wn, ms_out = map of_nat (take (unat wn) xs),
              ms_src = Some (int (length (encoded (take (unat wn) xs)))), ms_st = st\<rparr>, s)
       else if mem ! length (encoded xs) = 0
       then (\<lparr>ms_ret = of_nat (length xs), ms_out = map of_nat xs @ [0], ms_src = None, ms_st = st\<rparr>, s)
       else (\<lparr>ms_ret = -1, ms_out = map of_nat xs, ms_src = Some (int (length (encoded xs))), ms_st = st\<rparr>,
             s\<lparr>mb_errno := EILSEQ\<rparr>))"
  using undecoded_nul [OF nul_bytes [OF assms(1)]] assms(2,3)
  by (intro mbsrtowcs_conv_enough) (auto simp: xs_def enough_def)

text \<open>
  C34. \<open>mbsrtowcs\<close> in a UTF-8 locale, from the initial state, on a byte string with a terminator
  that lies in a memory that ends at a word boundary.  It converts the longest sequence of
  well-formed characters before the terminator, up to the room of the destination: with the
  destination full it returns their number and leaves the source after the last of them; at
  the terminator it stores it and sets the source to null; at an ill-formed sequence it fails
  with \<open>EILSEQ\<close> and leaves the source there.  Without a destination it only counts.  The loops
  that test four bytes at a time never read past the memory.
\<close>

theorem mbsrtowcs_converts:
  assumes "0 \<in> set mem" and "(a + length mem) mod 4 = 0" and "mbsinit st"
  shows "let xs = utf8_decode (map unat mem); p = length (encoded xs); ys = take (unat wn) xs
    in prefix (encoded xs) (map unat mem) \<and>
      mbsrtowcs True True mem a wn st s = Some
        (if unat wn \<le> length xs
         then (\<lparr>ms_ret = wn, ms_out = map of_nat ys, ms_src = Some (int (length (encoded ys))), ms_st = st\<rparr>, s)
         else if mem ! p = 0
         then (\<lparr>ms_ret = of_nat (length xs), ms_out = map of_nat xs @ [0], ms_src = None, ms_st = st\<rparr>, s)
         else (\<lparr>ms_ret = -1, ms_out = map of_nat xs, ms_src = Some (int p), ms_st = st\<rparr>, s\<lparr>mb_errno := EILSEQ\<rparr>)) \<and>
      mbsrtowcs True False mem a wn st s = Some
        (if mem ! p = 0
         then (\<lparr>ms_ret = of_nat (length xs), ms_out = [], ms_src = Some 0, ms_st = st\<rparr>, s)
         else (\<lparr>ms_ret = -1, ms_out = [], ms_src = Some 0, ms_st = st\<rparr>, s\<lparr>mb_errno := EILSEQ\<rparr>))"
  using mbsrtowcs_count [OF assms, of wn s] mbsrtowcs_conv [OF assms, of wn s] decode_prefix [of "map unat mem"]
  by (simp add: Let_def)

text \<open>The string ``a euro b'' and a stray byte, at an address that is one above a word boundary.\<close>

lemma mbsrtowcs_converts_witness:
  "mbsrtowcs True True [0x61, 0xe2, 0x82, 0xac, 0x62, 0xff, 0] 1 8 (Some 0) mb_start =
     Some (\<lparr>ms_ret = -1, ms_out = [0x61, 0x20ac, 0x62], ms_src = Some 5, ms_st = Some 0\<rparr>, mb_start\<lparr>mb_errno := EILSEQ\<rparr>)"
proof -
  let ?mem = "[0x61, 0xe2, 0x82, 0xac, 0x62, 0xff, 0] :: u8 list"
  have "utf8_decode (map unat ?mem) = [0x61, 0x20ac, 0x62]"
    by (simp add: utf8_decode.simps lead_class_def)
  then show ?thesis
    using mbsrtowcs_converts [of ?mem 1 "Some 0" 8 mb_start]
    by (simp add: mbsinit_def Let_def utf8_bytes_def mb_start_def)
qed

section \<open>A destination without room\<close>

lemma encoded_length: "length xs \<le> length (encoded xs)"
proof (induction xs)
  case (Cons x xs)
  then show ?case
    using utf8_bytes_length(1) [of x] by (simp del: length_greater_0_conv)
qed simp

text \<open>
  C39. A conversion that was interrupted inside a character ignores the room of the destination
  for the character it completes: with room for none, \<open>mbsrtowcs\<close> stores it, and then, the
  room having wrapped around, all other characters of the string and the terminator.
\<close>

theorem mbsrtowcs_resumed_overruns:
  assumes "utf8_scan (map unat p) = More" and "p \<noteq> []" and "scalar x" and "map unat (p @ q) = utf8_bytes x"
    and "0 \<in> set rest" and "(a + length (q @ rest)) mod 4 = 0" and "length (q @ rest) < 2 ^ 32 - 1"
    and "utf8_decode (map unat rest) = xs" and "rest ! length (encoded xs) = 0"
  shows "mbsrtowcs True True (q @ rest) a 0 (Some (partial_state p)) s =
    Some (\<lparr>ms_ret = of_nat (1 + length xs), ms_out = of_nat x # map of_nat xs @ [0], ms_src = None, ms_st = Some 0\<rparr>, s)"
proof -
  obtain lo hi k v where pend: "pending (partial_state p) lo hi k v"
    and scan: "\<And>qs. utf8_scan (map unat p @ qs) = scan_tail lo hi k v (length p) qs"
    using partial_pending [OF assms(1,2)] by blast
  have len: "length (utf8_bytes x) = length p + length q"
    using arg_cong [OF assms(4), of length] by simp
  have "utf8_scan (map unat p @ map unat (q @ rest)) = Char x (length p + length q)"
    using scan_encoding [OF assms(3), of "map unat rest"] len unfolding assms(4) [symmetric] by simp
  then have "shift_count (length p) (scan_tail lo hi k v 0 (map unat (q @ rest))) = Char x (length p + length q)"
    using scan scan_tail_shift [of lo hi k v 0 "length p"] by simp
  then have "scan_tail lo hi k v 0 (map unat (drop 0 (q @ rest))) = Char x (length q)"
    by (cases "scan_tail lo hi k v 0 (map unat (q @ rest))") auto
  then have first: "conv_tail (partial_state p) (q @ rest) 0 = Some (Inr (of_nat x, length q))"
    using conv_tail_scan [OF pend, of 0 "q @ rest"] by simp
  have "length xs \<le> length rest"
    using encoded_length [of xs] decode_prefix [of "map unat rest"] assms(8) prefix_length_le by fastforce
  then have "\<not> unat (-1 :: u32) \<le> length xs"
    using assms(7) by (simp add: unat_minus_one_32)
  then obtain c where "conv_bytes (q @ rest) (length q) [of_nat x] (- 1) =
      Some (Stopped c (int (length q + length (encoded xs))) ([of_nat x] @ map of_nat xs) (- 1 - of_nat (length xs)))"
    "c = 0 \<or> rest ! length (encoded xs) \<noteq> 0" "length (encoded xs) < length rest"
    using conv_bytes_decode [of "-1" xs "length q" "q @ rest" "[of_nat x]"] assms(8)
      undecoded_nul [OF nul_bytes [OF assms(5)]] by auto
  then show ?thesis
    using first pending_nonzero [OF pend] assms(9)
    by (simp add: mbsrtowcs_def conv_loop_bytes enough_def assms(6) [simplified] end_conv_def stop_conv_def byte_at_def nat_add_distrib nth_append)
qed

lemma mbsrtowcs_resumed_overruns_witness:
  "mbsrtowcs True True [0x82, 0xac, 0x61, 0] 0 0 (Some (partial_state [0xe2])) mb_start =
     Some (\<lparr>ms_ret = 2, ms_out = [0x20ac, 0x61, 0], ms_src = None, ms_st = Some 0\<rparr>, mb_start)"
proof -
  have "utf8_decode (map unat [0x61, 0 :: u8]) = [0x61]"
    by (simp add: utf8_decode.simps)
  then show ?thesis
    using mbsrtowcs_resumed_overruns [of "[0xe2]" "0x20ac" "[0x82, 0xac]" "[0x61, 0]" 0 "[0x61]" mb_start]
    by (simp add: scalar_def utf8_bytes_def lead_class_def)
qed

end
