(* ===== verification/Multibyte_Wide.thy ===== *)
theory Multibyte_Wide
  imports Multibyte_Strings_Calls
begin

unbundle bit_operations_syntax

text \<open>
  From wide strings to byte strings: the encoding of a wide string as far as it fits, and the
  round trip of strings.
\<close>

section \<open>Wide strings to byte strings\<close>

text \<open>The characters before the terminator and the first invalid one that fit.\<close>

fun fitting :: "nat \<Rightarrow> nat list \<Rightarrow> nat list" where
  "fitting n [] = []"
| "fitting n (x # xs) =
     (if x = 0 \<or> \<not> scalar x \<or> n < length (utf8_bytes x) then [] else x # fitting (n - length (utf8_bytes x)) xs)"

lemma fitting_length: "length (encoded (fitting n xs)) \<le> n"
  by (induction n xs rule: fitting.induct) auto

lemma wcrtomb_short: "case wcrtomb utf8 True wc s of ((l, bs), s') \<Rightarrow> l + 1 = 0 \<or> l \<le> 4"
  by (simp add: wcrtomb_def)

lemma wide_at_Some: "wide_at wm j = Some wc \<longleftrightarrow> j < length wm \<and> wc = wm ! j"
  by (auto simp: wide_at_def)

text \<open>The first loop of \<open>wcsrtombs\<close> saves tests that would succeed.\<close>

lemma wcs_loop4_loop:
  "(do {
      (r, s) \<leftarrow> wcs_loop4 utf8 wm N j out n s;
      (case r of
         Inl r \<Rightarrow> Some (r, s)
       | Inr (j, out, left) \<Rightarrow> wcs_loop utf8 wm N j out left s) }) = wcs_loop utf8 wm N j out n s"
proof (induction "length wm - j" arbitrary: j out n s rule: less_induct)
  case less
  show ?case
  proof (cases "n \<ge> 4 \<and> j < length wm")
    case True
    define wc where "wc = wm ! j"
    have IH: "(do {
        (r, s) \<leftarrow> wcs_loop4 utf8 wm N (j + 1) out' n' s';
        (case r of
           Inl r \<Rightarrow> Some (r, s)
         | Inr (j, out, left) \<Rightarrow> wcs_loop utf8 wm N j out left s) }) = wcs_loop utf8 wm N (j + 1) out' n' s'" for out' n' s'
      using True by (intro less.hyps diff_less_mono2) simp_all
    have "n \<noteq> 0" "wide_at wm j = Some wc"
      using True by (auto simp: wide_at_def wc_def)
    moreover obtain l bs s' where enc: "wcrtomb utf8 True wc s = ((l, bs), s')"
      by (metis prod.collapse)
    moreover have "l + 1 = 0 \<or> \<not> n < l"
      using wcrtomb_short [of utf8 wc s] True enc by auto
    ultimately show ?thesis
      using True IH by (subst wcs_loop4.simps, subst wcs_loop.simps) (auto simp: Let_def)
  next
    case False
    show ?thesis
    proof (cases "n \<ge> 4")
      case True
      then have "wcs_loop utf8 wm N j out n s = None"
        using \<open>\<not> (n \<ge> 4 \<and> j < length wm)\<close> by (subst wcs_loop.simps) (auto simp: wide_at_def)
      then show ?thesis
        using True False by (subst wcs_loop4.simps) (simp add: wide_at_def)
    next
      case False
      then show ?thesis
        by (subst wcs_loop4.simps) simp
    qed
  qed
qed

lemma wide_shape:
  assumes "0 \<in> set (drop j wm)"
  obtains wc r where "drop j wm = wc # r" "wide_at wm j = Some wc" "wm ! j = wc" "j < length wm" "drop (j + 1) wm = r"
proof -
  have "j < length wm"
    using assms by (cases "j < length wm") auto
  then show thesis
    using that [of "wm ! j" "drop (Suc j) wm"] by (simp add: Cons_nth_drop_Suc wide_at_def)
qed

lemma wc_ascii: "wc - 1 \<ge> 0x7f \<longleftrightarrow> wc = 0 \<or> 0x80 \<le> unat (wc :: u32)"
  using unsigned_less [of wc, where ?'a = nat] by (auto simp: word_le_nat_alt unat_sub_if' Suc_le_eq unat_gt_0)

text \<open>One character of the loop over the last bytes, without the special case for ASCII.\<close>

lemma wcs_loop_step:
  assumes "wide_at wm j = Some wc" and "n \<noteq> 0"
  shows "wcs_loop True wm N j out n s =
    (if wc = 0 then Some (\<lparr>wr_ret = N - n, wr_out = out @ [0], wr_src = None\<rparr>, s)
     else if \<not> scalar (unat wc) then Some (\<lparr>wr_ret = -1, wr_out = out, wr_src = Some j\<rparr>, s\<lparr>mb_errno := EILSEQ\<rparr>)
     else if unat n < length (utf8_bytes (unat wc)) then Some (\<lparr>wr_ret = N - n, wr_out = out, wr_src = Some j\<rparr>, s)
     else wcs_loop True wm N (j + 1) (out @ map of_nat (utf8_bytes (unat wc)))
            (n - of_nat (length (utf8_bytes (unat wc)))) s)"
proof -
  consider "wc = 0" | "wc \<noteq> 0" "unat wc < 0x80" | "wc \<noteq> 0" "0x80 \<le> unat wc"
    by linarith
  then show ?thesis
  proof cases
    case 2
    moreover have "1 \<le> unat n"
      using assms(2) by (simp add: Suc_le_eq unat_gt_0)
    ultimately show ?thesis
      using assms by (subst wcs_loop.simps) (simp add: wc_ascii scalar_def utf8_bytes_def)
  next
    case 3
    have "of_nat (length (utf8_bytes (unat wc))) > n \<longleftrightarrow> unat n < length (utf8_bytes (unat wc))"
      by (simp add: word_less_nat_alt unat_byte_count)
    then show ?thesis
      using 3 assms by (subst wcs_loop.simps) (simp add: wc_ascii wcrtomb_utf8 byte_count_plus_1)
  qed (use assms in \<open>subst wcs_loop.simps, simp add: wc_ascii\<close>)
qed

text \<open>What a conversion from position \<open>j\<close> with room for \<open>n\<close> bytes gives.\<close>

definition wcs_result :: "u32 list \<Rightarrow> u32 \<Rightarrow> nat \<Rightarrow> u8 list \<Rightarrow> u32 \<Rightarrow> mb_state \<Rightarrow> wcs \<times> mb_state" where
  "wcs_result wm N j out n s =
     (let xs = fitting (unat n) (map unat (drop j wm));
          bs = map of_nat (encoded xs);
          c = wm ! (j + length xs);
          m = n - of_nat (length bs)
      in if c = 0 \<and> length bs < unat n then (\<lparr>wr_ret = N - m, wr_out = out @ bs @ [0], wr_src = None\<rparr>, s)
         else if \<not> scalar (unat c) \<and> length bs < unat n
         then (\<lparr>wr_ret = -1, wr_out = out @ bs, wr_src = Some (j + length xs)\<rparr>, s\<lparr>mb_errno := EILSEQ\<rparr>)
         else (\<lparr>wr_ret = N - m, wr_out = out @ bs, wr_src = Some (j + length xs)\<rparr>, s))"

lemma wcs_result_char:
  fixes wc :: u32
  defines "x \<equiv> unat wc"
  defines "l \<equiv> of_nat (length (utf8_bytes x)) :: u32"
  assumes "drop j wm = wc # drop (j + 1) wm" and "wc \<noteq> 0" "scalar x" "\<not> unat n < length (utf8_bytes x)"
  shows "wcs_result wm N j out n s = wcs_result wm N (j + 1) (out @ map of_nat (utf8_bytes x)) (n - l) s"
proof -
  define ys where "ys = fitting (unat n - length (utf8_bytes x)) (map unat (drop (j + 1) wm))"
  have rest: "unat (n - l) = unat n - length (utf8_bytes x)"
    using assms(6) by (simp add: l_def unat_sub_if' unat_byte_count)
  have first: "fitting (unat n) (map unat (drop j wm)) = x # ys"
    using assms(4-6) by (subst assms(3)) (simp add: ys_def x_def unat_eq_0)
  have second: "fitting (unat (n - l)) (map unat (drop (j + 1) wm)) = ys"
    by (simp add: rest ys_def)
  have count: "n - of_nat (length (encoded (x # ys))) = n - l - of_nat (length (encoded ys))"
    by (simp add: l_def)
  have room: "length (encoded (x # ys)) < unat n \<longleftrightarrow> length (encoded ys) < unat (n - l)"
    using assms(6) by (auto simp: rest)
  show ?thesis
    unfolding wcs_result_def Let_def first second length_map count room by simp
qed

lemma wcs_loop_result:
  assumes "0 \<in> set (drop j wm)"
  shows "wcs_loop True wm N j out n s = Some (wcs_result wm N j out n s)"
  using assms
proof (induction "length wm - j" arbitrary: j out n rule: less_induct)
  case less
  from less.prems obtain wc r where wc: "drop j wm = wc # r" "wide_at wm j = Some wc" "wm ! j = wc" "j < length wm"
    "drop (j + 1) wm = r"
    by (rule wide_shape)
  show ?case
  proof (cases "n = 0")
    case True
    have "fitting 0 (map unat (drop j wm)) = []"
      using utf8_bytes_length(1) by (simp add: wc(1))
    then show ?thesis
      using True by (subst wcs_loop.simps) (simp add: wcs_result_def)
  next
    case False
    let ?L = "length (utf8_bytes (unat wc))"
    show ?thesis
    proof (cases "wc = 0 \<or> \<not> scalar (unat wc) \<or> unat n < ?L")
      case True
      then have "fitting (unat n) (map unat (drop j wm)) = []"
        by (auto simp: wc(1))
      moreover have "0 < unat n"
        using False by (simp add: unat_gt_0)
      moreover have "scalar (unat (0 :: u32))"
        by (simp add: scalar_def)
      ultimately show ?thesis
        using True wcs_loop_step [OF wc(2) False, of N out s] by (auto simp: wcs_result_def wc(3))
    next
      case fits: False
      have "wcs_loop True wm N (j + 1) (out @ map of_nat (utf8_bytes (unat wc))) (n - of_nat ?L) s =
          Some (wcs_result wm N (j + 1) (out @ map of_nat (utf8_bytes (unat wc))) (n - of_nat ?L) s)"
        using less.prems wc fits by (intro less.hyps) auto
      then show ?thesis
        using wcs_loop_step [OF wc(2) False, of N out s] fits wcs_result_char [of j wm wc n N out s] wc(1,5) by simp
    qed
  qed
qed

lemma wcs_count_step:
  assumes "wide_at wm j = Some wc"
  shows "wcs_count True wm j n s =
    (if wc = 0 then Some (n, s)
     else if scalar (unat wc) then wcs_count True wm (j + 1) (n + of_nat (length (utf8_bytes (unat wc)))) s
     else Some (-1, s\<lparr>mb_errno := EILSEQ\<rparr>))"
proof (cases "unat wc < 0x80")
  case True
  then show ?thesis
    using assms by (subst wcs_count.simps) (simp add: word_le_nat_alt scalar_def utf8_bytes_def)
next
  case False
  then have "wc \<noteq> 0"
    by auto
  then show ?thesis
    using assms False
    by (subst wcs_count.simps) (simp add: word_le_nat_alt wcrtomb_utf8 byte_count_plus_1)
qed

lemma wcs_count_result:
  assumes "0 \<in> set (drop j wm)"
  defines "xs \<equiv> takeWhile (\<lambda>x. x \<noteq> 0) (map unat (drop j wm))"
  shows "wcs_count True wm j n s = Some
    (if list_all scalar xs then (n + of_nat (length (encoded xs)), s) else (-1, s\<lparr>mb_errno := EILSEQ\<rparr>))"
  using assms(1) unfolding xs_def
proof (induction "length wm - j" arbitrary: j n rule: less_induct)
  case less
  from less.prems obtain wc r where wc: "drop j wm = wc # r" "wide_at wm j = Some wc" "wm ! j = wc" "j < length wm"
    "drop (j + 1) wm = r"
    by (rule wide_shape)
  show ?case
  proof (cases "wc = 0 \<or> \<not> scalar (unat wc)")
    case True
    then show ?thesis
      using wcs_count_step [OF wc(2), of n s] by (auto simp: wc(1) unat_eq_0)
  next
    case False
    let ?n = "n + of_nat (length (utf8_bytes (unat wc)))"
    have "wcs_count True wm (j + 1) ?n s = Some
      (let xs = takeWhile (\<lambda>x. x \<noteq> 0) (map unat (drop (j + 1) wm))
       in if list_all scalar xs then (?n + of_nat (length (encoded xs)), s) else (-1, s\<lparr>mb_errno := EILSEQ\<rparr>))"
      using less.prems wc False unfolding Let_def by (intro less.hyps) auto
    then show ?thesis
      using wcs_count_step [OF wc(2), of n s] False by (simp add: wc(1) wc(5) [simplified] unat_eq_0 Let_def add.assoc)
  qed
qed

lemma wcsrtombs_fits: "0 \<in> set wm \<Longrightarrow> wcsrtombs True True wm n s = Some (wcs_result wm n 0 [] n s)"
  by (simp add: wcsrtombs_def wcs_loop4_loop wcs_loop_result)

text \<open>
  C35. \<open>wcsrtombs\<close> in a UTF-8 locale, on a wide string with a terminator.  It writes the encodings
  of the characters as long as they fit: when the terminator fits too it is stored and the
  source set to null; at a character that is no scalar value it fails with \<open>EILSEQ\<close>; when the
  next character does not fit it stops before it and returns the number of bytes written,
  never a part of a character.  Without a destination it returns the length of the encoding
  of the whole string, or fails.
\<close>

theorem wcsrtombs_converts:
  assumes "0 \<in> set wm"
  shows "let xs = fitting (unat n) (map unat wm); bs = map of_nat (encoded xs); c = wm ! length xs;
      zs = takeWhile (\<lambda>x. x \<noteq> 0) (map unat wm)
    in length bs \<le> unat n \<and>
      wcsrtombs True True wm n s = Some
        (if c = 0 \<and> length bs < unat n then (\<lparr>wr_ret = of_nat (length bs), wr_out = bs @ [0], wr_src = None\<rparr>, s)
         else if \<not> scalar (unat c) \<and> length bs < unat n
         then (\<lparr>wr_ret = -1, wr_out = bs, wr_src = Some (length xs)\<rparr>, s\<lparr>mb_errno := EILSEQ\<rparr>)
         else (\<lparr>wr_ret = of_nat (length bs), wr_out = bs, wr_src = Some (length xs)\<rparr>, s)) \<and>
      wcsrtombs True False wm n s = Some
        (if list_all scalar zs then (\<lparr>wr_ret = of_nat (length (encoded zs)), wr_out = [], wr_src = Some 0\<rparr>, s)
         else (\<lparr>wr_ret = -1, wr_out = [], wr_src = Some 0\<rparr>, s\<lparr>mb_errno := EILSEQ\<rparr>))"
  using fitting_length [of "unat n" "map unat wm"] wcs_count_result [of 0 wm 0 s] assms
  by (simp add: wcsrtombs_fits wcs_result_def wcsrtombs_def [of _ False] Let_def)

lemma wcsrtombs_converts_witness:
  "wcsrtombs True True [0x61, 0x20ac, 0] 3 mb_start =
     Some (\<lparr>wr_ret = 1, wr_out = [0x61], wr_src = Some 1\<rparr>, mb_start) \<and>
   wcsrtombs True False [0x61, 0x20ac, 0] 0 mb_start = Some (\<lparr>wr_ret = 4, wr_out = [], wr_src = Some 0\<rparr>, mb_start)"
  using wcsrtombs_converts [of "[0x61, 0x20ac, 0]" 3 mb_start] wcsrtombs_converts [of "[0x61, 0x20ac, 0]" 0 mb_start]
  by (simp add: utf8_bytes_def scalar_def Let_def)

text \<open>
  C36. Strings survive the round trip.  A wide string of scalar values, written by \<open>wcstombs\<close> into
  a destination with room for its encoding and the terminator, is read back by \<open>mbstowcs\<close>
  from there, whatever follows it in memory, and both report their lengths.
\<close>

theorem wide_strings_roundtrip:
  assumes "\<forall>wc\<in>set ws. scalar (unat wc) \<and> wc \<noteq> 0"
    and "length (encoded (map unat ws)) < unat n" and "length ws < unat wn"
    and "(a + length (encoded (map unat ws)) + 1 + length pad) mod 4 = 0"
  shows "\<exists>bs. wcstombs True True (ws @ 0 # after) n s = Some ((of_nat (length bs), bs @ [0]), s) \<and>
    map unat bs = encoded (map unat ws) \<and>
    mbstowcs True True (bs @ 0 # pad) a wn s = Some ((of_nat (length ws), ws @ [0]), s)"
proof -
  let ?xs = "map unat ws"
  let ?bs = "map of_nat (encoded ?xs) :: u8 list"
  have fit: "fitting m (map unat (ws @ 0 # after)) = ?xs" if "length (encoded ?xs) \<le> m" for m
    using assms(1) that by (induction ws arbitrary: m) (auto simp: unat_eq_0)
  have "\<forall>b\<in>set (encoded ?xs). b < 256"
    using assms(1) utf8_bytes_less by (auto simp: encoded_def)
  then have bytes: "map unat ?bs = encoded ?xs"
    by (rule map_unat_bytes)
  have "wcstombs True True (ws @ 0 # after) n s = Some ((of_nat (length ?bs), ?bs @ [0]), s)"
    using assms(2) fit [of "unat n"] by (simp add: wcstombs_def wcsrtombs_fits wcs_result_def Let_def nth_append)
  moreover have "utf8_decode (map unat (?bs @ 0 # pad)) = ?xs"
    using decode_encoded [of ?xs "map unat pad"] assms(1) bytes by (auto simp: unat_gt_0)
  then have "mbstowcs True True (?bs @ 0 # pad) a wn s = Some ((of_nat (length ws), ws @ [0]), s)"
    using assms(3,4) by (simp add: mbstowcs_def mbsrtowcs_conv mbsinit_def nth_append add.assoc map_idI)
  ultimately show ?thesis
    using bytes by blast
qed

lemma wide_strings_roundtrip_witness:
  "\<exists>bs. wcstombs True True ([0x61, 0x20ac] @ 0 # []) 8 mb_start = Some ((of_nat (length bs), bs @ [0]), mb_start) \<and>
    map unat bs = encoded (map unat [0x61, 0x20ac :: u32]) \<and>
    mbstowcs True True (bs @ 0 # [7]) 2 16 mb_start = Some ((of_nat (length [0x61, 0x20ac :: u32]), [0x61, 0x20ac] @ [0]), mb_start)"
  by (rule wide_strings_roundtrip) (simp_all add: scalar_def utf8_bytes_def)

section \<open>A bounded number of wide characters\<close>

lemma wcsn_loop_step:
  assumes "wide_at wm j = Some wc" and "wn \<noteq> 0"
  defines "bs \<equiv> utf8_bytes (unat wc)"
  shows "wcsn_loop True dst wm (Some j) wn n cnt out s =
    (if \<not> scalar (unat wc)
     then Some (\<lparr>wr_ret = -1, wr_out = out, wr_src = Some (if dst then j else 0)\<rparr>, s\<lparr>mb_errno := EILSEQ\<rparr>)
     else if dst \<and> unat n < length bs then Some (\<lparr>wr_ret = cnt, wr_out = out, wr_src = Some j\<rparr>, s)
     else if wc = 0
     then Some (\<lparr>wr_ret = cnt, wr_out = (if dst then out @ [0] else out), wr_src = (if dst then None else Some 0)\<rparr>, s)
     else wcsn_loop True dst wm (Some (j + 1)) (wn - 1) (if dst then n - of_nat (length bs) else n)
            (cnt + of_nat (length bs)) (if dst then out @ map of_nat bs else out) s)"
proof -
  have "of_nat (length bs) \<noteq> (-1 :: u32)"
    using byte_count_plus_1 [of "unat wc"] by (auto simp: bs_def)
  moreover have "n < MB_LEN_MAX \<and> n < of_nat (length bs) \<longleftrightarrow> unat n < length bs"
    using utf8_bytes_length(2) [of "unat wc"]
    by (auto simp: word_less_nat_alt MB_LEN_MAX_def bs_def unat_byte_count)
  moreover have "bs = [0]" if "wc = 0"
    using that by (simp add: bs_def utf8_bytes_def)
  ultimately show ?thesis
    using assms(1,2) by (subst wcsn_loop.simps) (auto simp: wcrtomb_utf8 bs_def [symmetric] Let_def)
qed

definition wcsn_result :: "u32 list \<Rightarrow> nat \<Rightarrow> u32 \<Rightarrow> u32 \<Rightarrow> u32 \<Rightarrow> u8 list \<Rightarrow> mb_state \<Rightarrow> wcs \<times> mb_state" where
  "wcsn_result wm j wn n cnt out s =
     (let xs = fitting (unat n) (take (unat wn) (map unat (drop j wm)));
          bs = map of_nat (encoded xs);
          c = wm ! (j + length xs);
          stop = \<lparr>wr_ret = cnt + of_nat (length bs), wr_out = out @ bs, wr_src = Some (j + length xs)\<rparr>
      in if length xs = unat wn then (stop, s)
         else if \<not> scalar (unat c) then (stop\<lparr>wr_ret := -1\<rparr>, s\<lparr>mb_errno := EILSEQ\<rparr>)
         else if c = 0 \<and> length bs < unat n then (stop\<lparr>wr_out := out @ bs @ [0], wr_src := None\<rparr>, s)
         else (stop, s))"

lemma wcsn_loop_result:
  assumes "0 \<in> set (drop j wm) \<or> unat wn \<le> length wm - j"
  shows "wcsn_loop True True wm (Some j) wn n cnt out s = Some (wcsn_result wm j wn n cnt out s)"
  using assms
proof (induction "unat wn" arbitrary: j wn n cnt out)
  case 0
  then have "wn = 0"
    by (simp add: unat_eq_0)
  then show ?case
    by (subst wcsn_loop.simps) (simp add: wcsn_result_def)
next
  case (Suc m)
  have wn: "wn \<noteq> 0" "unat (wn - 1) = m"
    using Suc.hyps(2) by (auto simp: unat_sub_if')
  have "j < length wm"
    using Suc by (cases "j < length wm") auto
  then obtain wc where wc: "wide_at wm j = Some wc" "wm ! j = wc" "drop j wm = wc # drop (j + 1) wm"
    by (simp add: wide_at_def Cons_nth_drop_Suc)
  let ?x = "unat wc"
  let ?l = "of_nat (length (utf8_bytes ?x)) :: u32"
  show ?case
  proof (cases "wc = 0 \<or> \<not> scalar ?x \<or> unat n < length (utf8_bytes ?x)")
    case True
    then have "fitting (unat n) (take (unat wn) (map unat (drop j wm))) = []"
      by (subst wc(3), subst Suc.hyps(2) [symmetric]) auto
    moreover have "scalar 0" "length (utf8_bytes 0) = 1"
      by (simp_all add: scalar_def utf8_bytes_def)
    ultimately show ?thesis
      using True wn(1) wcsn_loop_step [OF wc(1) wn(1), of True n cnt out s]
      by (auto simp: wcsn_result_def wc(2) unat_eq_0 unat_gt_0 Let_def)
  next
    case False
    define ys where "ys = fitting (unat n - length (utf8_bytes ?x)) (take m (map unat (drop (j + 1) wm)))"
    have rest: "unat (n - ?l) = unat n - length (utf8_bytes ?x)"
      using False by (simp add: unat_sub_if' unat_byte_count)
    have first: "fitting (unat n) (take (unat wn) (map unat (drop j wm))) = ?x # ys"
      using False by (subst wc(3), subst Suc.hyps(2) [symmetric]) (simp add: ys_def unat_eq_0)
    have second: "fitting (unat (n - ?l)) (take (unat (wn - 1)) (map unat (drop (j + 1) wm))) = ys"
      by (simp add: rest ys_def wn(2))
    have room: "length (encoded (?x # ys)) < unat n \<longleftrightarrow> length (encoded ys) < unat (n - ?l)"
      using False by (auto simp: rest)
    have "wcsn_loop True True wm (Some (j + 1)) (wn - 1) (n - ?l) (cnt + ?l) (out @ map of_nat (utf8_bytes ?x)) s =
        Some (wcsn_result wm (j + 1) (wn - 1) (n - ?l) (cnt + ?l) (out @ map of_nat (utf8_bytes ?x)) s)"
      using Suc.prems wn(2) wc(3) False Suc.hyps(2) by (intro Suc.hyps(1)) auto
    moreover have "wcsn_result wm j wn n cnt out s =
        wcsn_result wm (j + 1) (wn - 1) (n - ?l) (cnt + ?l) (out @ map of_nat (utf8_bytes ?x)) s"
      unfolding wcsn_result_def Let_def first second length_map room
      unfolding wn(2) Suc.hyps(2) [symmetric] by simp
    ultimately show ?thesis
      using False wcsn_loop_step [OF wc(1) wn(1), of True n cnt out s] by simp
  qed
qed

text \<open>
  \<open>wcsnrtombs\<close> with room for \<open>n\<close> bytes reads at most \<open>wn\<close> characters, and needs no terminator when
  so many are there.
\<close>

lemma wcsnrtombs_result:
  assumes "0 \<in> set wm \<or> unat wn \<le> length wm"
  shows "wcsnrtombs True True wm wn n s = Some (wcsn_result wm 0 wn n 0 [] s)"
  using assms by (simp add: wcsnrtombs_def wcsn_loop_result)

end
