(* ===== verification/Multibyte_Bounded.thy ===== *)
theory Multibyte_Bounded
  imports Multibyte_Strings_Calls
begin

unbundle bit_operations_syntax

text \<open>
  A bounded number of bytes: \<open>mbsnrtowcs\<close> converts in chunks of as many characters as four times
  their number of bytes is left, and then character by character.
\<close>

section \<open>The result\<close>

text \<open>
  From position \<open>i\<close> on, with room for \<open>w\<close> characters: the count, the characters stored, the
  source and the conversion state.
\<close>

definition mbsn_spec ::
  "bool \<Rightarrow> u8 list \<Rightarrow> nat \<Rightarrow> nat \<Rightarrow> size_t \<Rightarrow> u32 list \<Rightarrow> mb_state \<Rightarrow>
   (size_t \<times> u32 list \<times> int option \<times> u32 option) \<times> mb_state" where
  "mbsn_spec wcs mem i w cnt out s =
     (let xs = utf8_decode (map unat (drop i mem));
          p = i + length (encoded xs);
          store = (\<lambda>ys. if wcs then out @ ys else out)
      in if w \<le> length xs
         then ((cnt + of_nat w, store (map of_nat (take w xs)), Some (int (i + length (encoded (take w xs)))), Some 0), s)
         else case utf8_scan (map unat (drop p mem)) of
             Char _ _ \<Rightarrow> ((cnt + of_nat (length xs), store (map of_nat xs @ [0]), None, Some 0), s)
           | Bad \<Rightarrow> ((-1, store (map of_nat xs), Some (int p), Some 0), s\<lparr>mb_errno := EILSEQ\<rparr>)
           | More \<Rightarrow> ((cnt + of_nat (length xs), store (map of_nat xs), Some (int p), Some 0), s))"

definition mbsn_view :: "mbsn \<Rightarrow> size_t \<times> u32 list \<times> int option \<times> u32 option" where
  "mbsn_view m = (mn_cnt m, mn_out m, mn_src m, mn_st m)"

lemma mbsn_spec_char:
  assumes "utf8_scan (map unat (drop i mem)) = Char x k" and "x \<noteq> 0" and "0 < w"
  shows "mbsn_spec wcs mem i w cnt out s =
    mbsn_spec wcs mem (i + k) (w - 1) (cnt + 1) (if wcs then out @ [of_nat x] else out) s"
proof -
  define ys where "ys = utf8_decode (map unat (drop (i + k) mem))"
  have xs: "utf8_decode (map unat (drop i mem)) = x # ys" "k = length (utf8_bytes x)"
    using decode_char(1,3) [OF assms(1,2)] by (simp_all add: drop_bytes ys_def)
  obtain v where w: "w = Suc v"
    using assms(3) by (cases w) auto
  show ?thesis
    unfolding mbsn_spec_def Let_def xs(1) ys_def [symmetric] w
    by (simp add: xs(2) [symmetric] add.assoc algebra_simps split: scan.split)
qed

lemma mbsn_spec_chars:
  assumes "j \<le> w" and "j \<le> length (utf8_decode (map unat (drop i mem)))"
  defines "ys \<equiv> take j (utf8_decode (map unat (drop i mem)))"
  shows "mbsn_spec wcs mem i w cnt out s =
    mbsn_spec wcs mem (i + length (encoded ys)) (w - j) (cnt + of_nat j) (if wcs then out @ map of_nat ys else out) s"
  using assms(1,2) unfolding ys_def
proof (induction j arbitrary: i w cnt out)
  case (Suc j)
  then obtain x k where char: "utf8_scan (map unat (drop i mem)) = Char x k" "x \<noteq> 0"
    by (cases "map unat (drop i mem)" rule: decode_cases) auto
  note dec = decode_char(1,3) [OF char, unfolded drop_bytes]
  have "mbsn_spec wcs mem i w cnt out s =
      mbsn_spec wcs mem (i + k) (w - 1) (cnt + 1) (if wcs then out @ [of_nat x] else out) s"
    using Suc.prems(1) by (intro mbsn_spec_char [OF char]) simp
  also have "\<dots> = mbsn_spec wcs mem (i + k + length (encoded (take j (utf8_decode (map unat (drop (i + k) mem))))))
      (w - 1 - j) (cnt + 1 + of_nat j)
      (if wcs then (if wcs then out @ [of_nat x] else out) @ map of_nat (take j (utf8_decode (map unat (drop (i + k) mem))))
       else (if wcs then out @ [of_nat x] else out)) s"
    using Suc.prems dec(1) by (intro Suc.IH) simp_all
  finally show ?case
    using dec by (simp add: algebra_simps)
qed simp

section \<open>Character by character\<close>

lemma mbsn_chars_spec:
  assumes "mn_src m = Some (int i)" and "mn_st m = Some 0" and "unat (mn_n m) = length mem - i" and "i \<le> length mem"
  shows "\<exists>m' s'. mbsn_chars True wcs mem m s = Some (m', s') \<and>
    (mbsn_view m', s') = mbsn_spec wcs mem i (unat (mn_wn m)) (mn_cnt m) (mn_out m) s"
  using assms
proof (induction "length mem - i" arbitrary: i m rule: less_induct)
  case less
  show ?case
  proof (cases "mn_wn m = 0 \<or> i = length mem")
    case True
    have "utf8_decode [] = []"
      by (simp add: utf8_decode.simps)
    then have "mbsn_spec wcs mem i (unat (mn_wn m)) (mn_cnt m) (mn_out m) s = (mbsn_view m, s)"
      using True less.prems by (auto simp: mbsn_spec_def mbsn_view_def Let_def unat_eq_0)
    moreover have "mbsn_chars True wcs mem m s = Some (m, s)"
      using True less.prems by (subst mbsn_chars.simps) (auto simp: unat_eq_0)
    ultimately show ?thesis
      by simp
  next
    case False
    then have n: "mn_n m \<noteq> 0" "mn_wn m \<noteq> 0" "0 < length (drop i mem)" "drop i mem \<noteq> []" "0 < unat (mn_wn m)"
      using less.prems by (auto simp: unat_gt_0)
    note read = mbrtowc_initial [OF order_refl n(3)]
    note step = mbsn_chars.simps [of True wcs mem m s]
    show ?thesis
    proof (cases "utf8_scan (map unat (drop i mem))")
      case (Char x k)
      show ?thesis
      proof (cases "x = 0")
        case True
        then have res: "decode_result (drop i mem) = converted 0 0 0"
          by (simp add: decode_result_def Char)
        have "utf8_decode (map unat (drop i mem)) = []"
          using Char True by (subst utf8_decode.simps) simp
        then have "mbsn_spec wcs mem i (unat (mn_wn m)) (mn_cnt m) (mn_out m) s =
            ((mn_cnt m, if wcs then mn_out m @ [0] else mn_out m, None, Some 0), s)"
          using n Char by (simp add: mbsn_spec_def Let_def)
        then show ?thesis
          using less.prems n read step by (simp add: res mbsn_view_def Let_def)
      next
        case nz: False
        note dec = decode_char [OF Char nz, unfolded drop_bytes]
        have k: "1 \<le> k" "k \<le> 4" "unat (of_nat k :: u32) = k" "k \<le> length mem - i"
          using utf8_bytes_length [of x] dec(3) arg_cong [OF dec(2), of length] unat_byte_count [of x]
          by (simp_all add: Suc_le_eq)
        have res: "decode_result (drop i mem) = converted (of_nat k) (of_nat x) 0"
          using nz by (simp add: decode_result_def Char)
        let ?m = "m\<lparr>mn_st := Some 0, mn_out := mn_out m @ (if wcs then [of_nat x] else []), mn_src := Some (int (i + k)),
            mn_n := mn_n m - of_nat k, mn_wn := mn_wn m - 1, mn_cnt := mn_cnt m + 1\<rparr>"
        have "unat ((of_nat k :: u32) + 2) = k + 2"
          using k(2) unat_small [of "k + 2"] by (simp add: add.commute)
        then have "\<not> (of_nat k :: u32) + 2 \<le> 2"
          using k(1) by (simp add: word_le_nat_alt)
        then have one: "mbsn_chars True wcs mem m s = mbsn_chars True wcs mem ?m s"
          using less.prems n read step k(3) by (simp add: res Let_def)
        have "unat (mn_n m - of_nat k) = length mem - (i + k)" "unat (mn_wn m - 1) = unat (mn_wn m) - 1"
          using less.prems(3) k(3,4) n(5) by (simp_all add: unat_sub_if')
        moreover have "\<exists>m' s'. mbsn_chars True wcs mem ?m s = Some (m', s') \<and>
            (mbsn_view m', s') = mbsn_spec wcs mem (i + k) (unat (mn_wn ?m)) (mn_cnt ?m) (mn_out ?m) s"
          using k(1,4) less.prems calculation(1) False by (intro less.hyps) auto
        ultimately show ?thesis
          using one mbsn_spec_char [OF Char nz n(5), of wcs "mn_cnt m" "mn_out m" s] by auto
      qed
    next
      case More
      then have "utf8_decode (map unat (drop i mem)) = []"
        by (subst utf8_decode.simps) simp
      then have "mbsn_spec wcs mem i (unat (mn_wn m)) (mn_cnt m) (mn_out m) s =
          ((mn_cnt m, mn_out m, Some (int i), Some 0), s)"
        using n More by (simp add: mbsn_spec_def Let_def)
      moreover have "decode_result (drop i mem) = incomplete (partial_state (drop i mem))"
        by (simp add: decode_result_def More)
      ultimately show ?thesis
        using less.prems n read step by (simp add: mbsn_view_def Let_def)
    next
      case Bad
      then have "utf8_decode (map unat (drop i mem)) = []"
        by (subst utf8_decode.simps) simp
      then have "mbsn_spec wcs mem i (unat (mn_wn m)) (mn_cnt m) (mn_out m) s =
          ((-1, mn_out m, Some (int i), Some 0), s\<lparr>mb_errno := EILSEQ\<rparr>)"
        using n Bad by (simp add: mbsn_spec_def Let_def)
      moreover have "decode_result (drop i mem) = ilseq"
        by (simp add: decode_result_def Bad)
      ultimately show ?thesis
        using less.prems n read step by (simp add: mbsn_view_def Let_def)
    qed
  qed
qed

section \<open>Chunks\<close>

lemma encoded_bound: "length (encoded xs) \<le> 4 * length xs"
proof (induction xs)
  case (Cons x xs)
  then show ?case
    using utf8_bytes_length(2) [of x] by simp
qed simp

lemma scan_four: "4 \<le> length bs \<Longrightarrow> utf8_scan bs \<noteq> More"
proof
  assume "4 \<le> length bs" and "utf8_scan bs = More"
  moreover obtain x where "strict_prefix bs (utf8_bytes x)"
    using scan_more_prefix calculation(2) by blast
  then have "length bs < length (utf8_bytes x)"
    by (rule prefix_length_less)
  ultimately show False
    using utf8_bytes_length(2) [of x] by simp
qed

lemma undecoded_stop: "utf8_scan (undecoded bs) = Char x k \<Longrightarrow> x = 0"
proof (induction bs rule: utf8_decode.induct)
  case (1 bs)
  show ?case
  proof (cases bs rule: decode_cases)
    case (char y j)
    then show ?thesis
      using "1.IH" [OF char] "1.prems" by (simp add: undecoded_char [OF char])
  qed (use "1.prems" in \<open>auto simp: undecoded_def\<close>)
qed

lemma decode_length: "length (utf8_decode bs) \<le> length bs"
  using encoded_length [of "utf8_decode bs"] prefix_length_le [OF decode_prefix [of bs]] by simp

lemma undecoded_at: "undecoded (map unat (drop i mem)) =
    map unat (drop (i + length (encoded (utf8_decode (map unat (drop i mem))))) mem)"
  by (simp add: undecoded_def drop_bytes)

text \<open>The scan of the bytes that are not decoded, when it does not need more bytes.\<close>

lemma undecoded_scan:
  fixes mem :: "u8 list"
  assumes "utf8_scan (map unat (drop p mem)) \<noteq> More" and "\<And>x k. utf8_scan (map unat (drop p mem)) = Char x k \<Longrightarrow> x = 0"
  shows "utf8_scan (map unat (drop p mem)) = (if mem ! p = 0 then Char 0 1 else Bad)"
proof -
  from assms(1) obtain b r where b: "drop p mem = b # r" "b = mem ! p"
    by (rule byte_scan)
  show ?thesis
  proof (cases "utf8_scan (map unat (drop p mem))")
    case (Char x k)
    then have "prefix (utf8_bytes 0) (map unat (drop p mem))"
      using scan_char_prefix [OF Char] assms(2) [OF Char] by simp
    then have "unat b = 0"
      by (simp add: utf8_bytes_def b(1))
    then have "b = 0"
      by (simp add: unat_eq_0)
    then show ?thesis
      using b by simp
  next
    case Bad
    then show ?thesis
      using b by auto
  qed (use assms(1) in simp)
qed

text \<open>A chunk: its length, that it is possible, and what it gives.\<close>

definition chunk :: "mbsn \<Rightarrow> u32" where
  "chunk m = (if mn_n m div 4 \<ge> mn_wn m then mn_wn m else mn_n m div 4)"

lemma chunk_size:
  assumes "mn_wn m \<noteq> 0" and "mn_n m div 4 \<ge> mn_wn m \<or> mn_n m div 4 > 32"
  shows "1 \<le> unat (chunk m)" "4 * unat (chunk m) \<le> unat (mn_n m)" "unat (chunk m) \<le> unat (mn_wn m)"
    "chunk m + 1 \<noteq> 0"
proof -
  have div: "unat (mn_n m div 4) = unat (mn_n m) div 4"
    by (simp add: unat_div)
  show "1 \<le> unat (chunk m)" "4 * unat (chunk m) \<le> unat (mn_n m)" "unat (chunk m) \<le> unat (mn_wn m)"
    using assms div by (auto simp: chunk_def word_le_nat_alt word_less_nat_alt Suc_le_eq unat_gt_0)
  then have "unat (chunk m) \<noteq> unat (-1 :: u32)"
    using unsigned_less [of "mn_n m", where ?'a = nat] by (simp add: unat_minus_one_32)
  then show "chunk m + 1 \<noteq> 0"
    by (auto simp: eq_neg_iff_add_eq_0 [symmetric])
qed

lemma chunk_converts:
  assumes "mn_wn m \<noteq> 0" and "mn_n m div 4 \<ge> mn_wn m \<or> mn_n m div 4 > 32" and "unat (mn_n m) = length mem - i"
    and "utf8_decode (map unat (drop i mem)) = xs"
  shows "mbsrtowcs True True (drop i mem) (a + i) (chunk m) (Some 0) s = Some
      (if unat (chunk m) \<le> length xs
       then (\<lparr>ms_ret = chunk m, ms_out = map of_nat (take (unat (chunk m)) xs),
              ms_src = Some (int (length (encoded (take (unat (chunk m)) xs)))), ms_st = Some 0\<rparr>, s)
       else if mem ! (i + length (encoded xs)) = 0
       then (\<lparr>ms_ret = of_nat (length xs), ms_out = map of_nat xs @ [0], ms_src = None, ms_st = Some 0\<rparr>, s)
       else (\<lparr>ms_ret = -1, ms_out = map of_nat xs, ms_src = Some (int (length (encoded xs))), ms_st = Some 0\<rparr>,
             s\<lparr>mb_errno := EILSEQ\<rparr>))"
    and "\<not> unat (chunk m) \<le> length xs \<Longrightarrow> utf8_scan (map unat (drop (i + length (encoded xs)) mem)) =
      (if mem ! (i + length (encoded xs)) = 0 then Char 0 1 else Bad)"
proof -
  note size = chunk_size [OF assms(1,2)]
  have rest: "undecoded (map unat (drop i mem)) = map unat (drop (i + length (encoded xs)) mem)"
    using undecoded_at [of i mem] assms(4) by simp
  have more: "utf8_scan (undecoded (map unat (drop i mem))) \<noteq> More" if "\<not> unat (chunk m) \<le> length xs"
  proof -
    have "4 * length xs + 4 \<le> length mem - i"
      using that size(2) assms(3) by linarith
    then have "4 \<le> length mem - i - length (encoded xs)"
      using encoded_bound [of xs] by linarith
    then show ?thesis
      unfolding rest by (intro scan_four) simp
  qed
  have "i \<le> length mem" "enough (drop i mem) (a + i) 0 (chunk m)"
    using size(1,2) assms(3) by (auto simp: enough_def)
  then show "mbsrtowcs True True (drop i mem) (a + i) (chunk m) (Some 0) s = Some
      (if unat (chunk m) \<le> length xs
       then (\<lparr>ms_ret = chunk m, ms_out = map of_nat (take (unat (chunk m)) xs),
              ms_src = Some (int (length (encoded (take (unat (chunk m)) xs)))), ms_st = Some 0\<rparr>, s)
       else if mem ! (i + length (encoded xs)) = 0
       then (\<lparr>ms_ret = of_nat (length xs), ms_out = map of_nat xs @ [0], ms_src = None, ms_st = Some 0\<rparr>, s)
       else (\<lparr>ms_ret = -1, ms_out = map of_nat xs, ms_src = Some (int (length (encoded xs))), ms_st = Some 0\<rparr>,
             s\<lparr>mb_errno := EILSEQ\<rparr>))"
    using mbsrtowcs_conv_enough [of "chunk m" xs "drop i mem" "a + i" "Some 0" s] more assms(4)
    by (auto simp: mbsinit_def)
  show "utf8_scan (map unat (drop (i + length (encoded xs)) mem)) =
      (if mem ! (i + length (encoded xs)) = 0 then Char 0 1 else Bad)" if "\<not> unat (chunk m) \<le> length xs"
    using more [OF that] undecoded_stop unfolding rest by (intro undecoded_scan) (metis rest)+
qed

text \<open>The count of the calls without a destination does not depend on the room.\<close>

lemma mbsn_spec_room:
  assumes "length mem - i < w" and "length mem - i < w'"
  shows "mbsn_spec wcs mem i w cnt out s = mbsn_spec wcs mem i w' cnt out s"
  using assms decode_length [of "map unat (drop i mem)"] by (simp add: mbsn_spec_def Let_def)

definition mbsn_run :: "bool \<Rightarrow> u8 list \<Rightarrow> nat \<Rightarrow> mbsn \<Rightarrow> mb_state \<Rightarrow> (mbsn \<times> mb_state) option" where
  "mbsn_run wcs mem a m s = do { (m, s) \<leftarrow> mbsn_chunks True wcs mem a m s; mbsn_chars True wcs mem m s }"

definition mbsn_at :: "bool \<Rightarrow> u8 list \<Rightarrow> nat \<Rightarrow> nat \<Rightarrow> mbsn \<Rightarrow> bool" where
  "mbsn_at wcs mem i w m \<longleftrightarrow> mn_src m = Some (int i) \<and> mn_st m = Some 0 \<and> unat (mn_n m) = length mem - i \<and> i \<le> length mem \<and>
     (if wcs then w = unat (mn_wn m) else mn_wn m = WBUF \<and> length mem - i < w)"

lemma mbsn_chunks_end: "mn_src m = None \<Longrightarrow> mbsn_chunks utf8 wcs mem a m s = Some (m, s)"
  by (subst mbsn_chunks.simps) simp

lemma mbsn_chars_end: "mn_src m = None \<or> mn_wn m = 0 \<Longrightarrow> mbsn_chars utf8 wcs mem m s = Some (m, s)"
  by (subst mbsn_chars.simps) (auto split: option.split)

lemma encoded_take: "length (encoded (take j xs)) \<le> length (encoded xs)"
proof -
  have "encoded xs = encoded (take j xs) @ encoded (drop j xs)"
    using encoded_simps(3) [of "take j xs" "drop j xs"] by simp
  then show ?thesis
    by simp
qed

lemma mbsn_at_chunk:
  assumes "mbsn_at wcs mem i w m" and "unat l \<le> unat (mn_wn m)" and "unat l \<le> q" and "q \<le> length mem - i"
  shows "mbsn_at wcs mem (i + q) (w - unat l) (m\<lparr>mn_src := Some (int (i + q)), mn_st := Some 0, mn_out := out,
    mn_wn := (if wcs then mn_wn m - l else mn_wn m), mn_n := mn_n m - of_nat q, mn_cnt := cnt\<rparr>)"
proof -
  note at = assms(1) [unfolded mbsn_at_def]
  have "unat (of_nat q :: u32) = q"
    using assms(4) at unsigned_less [of "mn_n m", where ?'a = nat] by (intro unat_small) simp
  then show ?thesis
    using at assms(2-4) unfolding mbsn_at_def by (auto simp: unat_sub_if' WBUF_def)
qed

lemma mbsn_run_spec:
  assumes "mbsn_at wcs mem i w m"
  shows "\<exists>m' s'. mbsn_run wcs mem a m s = Some (m', s') \<and>
    (mbsn_view m', s') = mbsn_spec wcs mem i w (mn_cnt m) (mn_out m) s"
  using assms
proof (induction "length mem - i" arbitrary: i w m s rule: less_induct)
  case less
  note at = less.prems [unfolded mbsn_at_def]
  define xs where "xs = utf8_decode (map unat (drop i mem))"
  show ?case
  proof (cases "mn_wn m \<noteq> 0 \<and> (mn_n m div 4 \<ge> mn_wn m \<or> mn_n m div 4 > 32)")
    case False
    then have run: "mbsn_run wcs mem a m s = mbsn_chars True wcs mem m s"
      using at unfolding mbsn_run_def by (subst mbsn_chunks.simps) (auto simp: Let_def)
    have "mbsn_spec wcs mem i (unat (mn_wn m)) (mn_cnt m) (mn_out m) s = mbsn_spec wcs mem i w (mn_cnt m) (mn_out m) s"
    proof (cases wcs)
      case no: False
      then have "unat (mn_n m) div 4 \<le> 32"
        using False at by (auto simp: WBUF_def word_le_nat_alt word_less_nat_alt unat_div)
      then have "length mem - i < 256"
        using at by linarith
      then show ?thesis
        using at no by (intro mbsn_spec_room) (simp_all add: WBUF_def)
    qed (use at in simp)
    then show ?thesis
      using mbsn_chars_spec [of m i mem wcs s] at run by auto
  next
    case True
    then have big: "mn_wn m \<noteq> 0" "mn_n m div 4 \<ge> mn_wn m \<or> mn_n m div 4 > 32"
      by auto
    note size = chunk_size [OF big] and conv = chunk_converts [OF big _ xs_def [symmetric]]
    have step: "mbsn_chunks True wcs mem a m s = do {
        (r, s) \<leftarrow> mbsrtowcs True True (drop i mem) (a + i) (chunk m) (Some 0) s;
        let l = ms_ret r;
        let p' = map_option (\<lambda>q. int i + q) (ms_src r);
        let m = m\<lparr>mn_src := p', mn_st := ms_st r, mn_out := mn_out m @ (if wcs then ms_out r else [])\<rparr>;
        if l + 1 = 0 then Some (m\<lparr>mn_cnt := l, mn_wn := 0\<rparr>, s)
        else mbsn_chunks True wcs mem a
               (m\<lparr>mn_wn := (if wcs then mn_wn m - l else mn_wn m),
                  mn_n := (case p' of None \<Rightarrow> 0 | Some p' \<Rightarrow> mn_n m - of_int (p' - int i)),
                  mn_cnt := mn_cnt m + l\<rparr>) s }"
      using True at by (subst mbsn_chunks.simps) (simp add: chunk_def Let_def)
    show ?thesis
    proof (cases "unat (chunk m) \<le> length xs")
      case full: True
      define q where "q = length (encoded (take (unat (chunk m)) xs))"
      let ?m = "m\<lparr>mn_src := Some (int (i + q)), mn_st := Some 0,
          mn_out := mn_out m @ (if wcs then map of_nat (take (unat (chunk m)) xs) else []),
          mn_wn := (if wcs then mn_wn m - chunk m else mn_wn m), mn_n := mn_n m - of_nat q, mn_cnt := mn_cnt m + chunk m\<rparr>"
      have "length (encoded xs) \<le> length mem - i"
        using prefix_length_le [OF decode_prefix [of "map unat (drop i mem)"]] by (simp add: xs_def)
      then have q: "unat (chunk m) \<le> q" "q \<le> length mem - i"
        using encoded_length [of "take (unat (chunk m)) xs"] encoded_take [of "unat (chunk m)" xs] full
        by (simp_all add: q_def)
      have "mbsn_run wcs mem a m s = mbsn_run wcs mem a ?m s"
        using conv(1) at full size(4) by (simp add: mbsn_run_def step q_def Let_def)
      moreover have "mbsn_at wcs mem (i + q) (w - unat (chunk m)) ?m"
        using mbsn_at_chunk [OF less.prems size(3) q] .
      then have "\<exists>m' s'. mbsn_run wcs mem a ?m s = Some (m', s') \<and>
          (mbsn_view m', s') = mbsn_spec wcs mem (i + q) (w - unat (chunk m)) (mn_cnt ?m) (mn_out ?m) s"
        using q size(1) at by (intro less.hyps) auto
      moreover have "unat (chunk m) \<le> w"
        using at size(3) q by (auto split: if_splits)
      then have "mbsn_spec wcs mem i w (mn_cnt m) (mn_out m) s =
          mbsn_spec wcs mem (i + q) (w - unat (chunk m)) (mn_cnt ?m) (mn_out ?m) s"
        using mbsn_spec_chars [of "unat (chunk m)" w i mem wcs "mn_cnt m" "mn_out m" s] full
        by (simp add: q_def xs_def)
      ultimately show ?thesis
        by simp
    next
      case stop: False
      have w: "\<not> w \<le> length xs"
        using stop at size(2,3) decode_length [of "map unat (drop i mem)"] by (auto simp: xs_def split: if_splits)
      have "unat (of_nat (Suc (length xs)) :: u32) = Suc (length xs)"
        using stop unsigned_less [of "chunk m", where ?'a = nat] by (intro unat_small) simp
      then have "(of_nat (length xs) :: u32) + 1 \<noteq> 0"
        by (metis of_nat_Suc add.commute unsigned_0 nat.distinct(1))
      then show ?thesis
        using conv at stop w
        by (auto simp: mbsn_run_def step mbsn_chunks_end mbsn_chars_end mbsn_spec_def mbsn_view_def Let_def
            xs_def [symmetric])
    qed
  qed
qed

text \<open>
  C37. \<open>mbsnrtowcs\<close> in a UTF-8 locale, from the initial state, reads the \<open>n\<close> bytes it is given and
  no others, whether it converts in chunks or single characters.  It converts the well-formed
  characters that end within the \<open>n\<close> bytes, up to the room of the destination; a terminator
  among them ends the conversion with the source set to null, an ill-formed sequence makes it
  fail with \<open>EILSEQ\<close> at its place, and a character that is cut off at the end is left to the
  next call, with the conversion state rolled back.  Without a destination it counts the same
  characters.
\<close>

theorem mbsnrtowcs_converts:
  assumes "length mem = unat n"
  shows "let xs = utf8_decode (map unat mem); p = length (encoded xs); ys = take (unat wn) xs; r = utf8_scan (map unat (drop p mem))
    in mbsnrtowcs True True mem a n wn (Some 0) s = Some
        (if unat wn \<le> length xs
         then (\<lparr>ms_ret = wn, ms_out = map of_nat ys, ms_src = Some (int (length (encoded ys))), ms_st = Some 0\<rparr>, s)
         else case r of
             Char _ _ \<Rightarrow> (\<lparr>ms_ret = of_nat (length xs), ms_out = map of_nat xs @ [0], ms_src = None, ms_st = Some 0\<rparr>, s)
           | More \<Rightarrow> (\<lparr>ms_ret = of_nat (length xs), ms_out = map of_nat xs, ms_src = Some (int p), ms_st = Some 0\<rparr>, s)
           | Bad \<Rightarrow> (\<lparr>ms_ret = -1, ms_out = map of_nat xs, ms_src = Some (int p), ms_st = Some 0\<rparr>,
                     s\<lparr>mb_errno := EILSEQ\<rparr>)) \<and>
      mbsnrtowcs True False mem a n wn (Some 0) s = Some
        (if r = Bad then (\<lparr>ms_ret = -1, ms_out = [], ms_src = Some 0, ms_st = Some 0\<rparr>, s\<lparr>mb_errno := EILSEQ\<rparr>)
         else (\<lparr>ms_ret = of_nat (length xs), ms_out = [], ms_src = Some 0, ms_st = Some 0\<rparr>, s))"
proof -
  let ?m = "\<lambda>wn. \<lparr>mn_src = Some 0, mn_n = n, mn_wn = wn, mn_cnt = 0, mn_out = [], mn_st = Some 0\<rparr>"
  have run: "mbsnrtowcs True wcs mem a n wn (Some 0) s = map_option
      (\<lambda>(m, s). (\<lparr>ms_ret = mn_cnt m, ms_out = mn_out m, ms_src = (if wcs then mn_src m else Some 0), ms_st = mn_st m\<rparr>, s))
      (mbsn_run wcs mem a (?m (if wcs then wn else WBUF)) s)" for wcs
    unfolding mbsnrtowcs_def mbsn_run_def by (simp add: map_option_bind comp_def split: bind_splits)
  have "mbsn_at True mem 0 (unat wn) (?m wn)" "mbsn_at False mem 0 (Suc (length mem)) (?m WBUF)"
    using assms by (simp_all add: mbsn_at_def)
  note final = this [THEN mbsn_run_spec, of a s]
  have "length (utf8_decode (map unat mem)) \<le> length mem"
    using decode_length [of "map unat mem"] by simp
  then show ?thesis
    using final run
    by (auto simp: mbsn_spec_def mbsn_view_def Let_def split: scan.splits if_splits)
qed

lemma mbsnrtowcs_converts_witness:
  "mbsnrtowcs True True [0x61, 0xe2, 0x82] 3 3 8 (Some 0) mb_start =
     Some (\<lparr>ms_ret = 1, ms_out = [0x61], ms_src = Some 1, ms_st = Some 0\<rparr>, mb_start)"
proof -
  have "utf8_decode (map unat [0x61, 0xe2, 0x82 :: u8]) = [0x61]"
    by (simp add: utf8_decode.simps lead_class_def)
  then show ?thesis
    using mbsnrtowcs_converts [of "[0x61, 0xe2, 0x82]" 3 8 3 mb_start]
    by (simp add: Let_def utf8_bytes_def lead_class_def)
qed

end
