(* ===== verification/Multibyte_Utf16.thy ===== *)
theory Multibyte_Utf16
  imports Multibyte_Strings_Calls
begin

unbundle bit_operations_syntax

text \<open>
  UTF-16: the code units of a character, and sequences of calls of \<open>c16rtomb\<close> and \<open>mbrtoc16\<close>,
  which keep half of a pair of surrogates in the conversion state.
\<close>

section \<open>Code units\<close>

definition utf16_units :: "nat \<Rightarrow> nat list" where
  "utf16_units x =
     (if x < 0x10000 then [x] else [0xd800 + (x - 0x10000) div 0x400, 0xdc00 + x mod 0x400])"

definition units :: "nat list \<Rightarrow> u16 list" where
  "units xs = map of_nat (concat (map utf16_units xs))"

lemma units_simps [simp]: "units [] = []" "units (x # xs) = map of_nat (utf16_units x) @ units xs"
  by (simp_all add: units_def)

text \<open>Writing a sequence of code units; \<^const>\<open>None\<close> is a failure.\<close>

fun c16_write :: "u16 list \<Rightarrow> u32 \<Rightarrow> uchar_state \<Rightarrow> (u8 list \<times> u32 \<times> uchar_state) option" where
  "c16_write [] x s = Some ([], x, s)"
| "c16_write (c # cs) x s =
     (case c16rtomb True True c (Some x) s of
        ((r, bs, Some x), s) \<Rightarrow>
          if r = -1 then None else map_option (\<lambda>(bs', x, s). (bs @ bs', x, s)) (c16_write cs x s)
      | _ \<Rightarrow> None)"

text \<open>Reading a number of code units; a result of -3 uses no bytes.\<close>

fun c16_read :: "nat \<Rightarrow> u8 list \<Rightarrow> u32 \<Rightarrow> uchar_state \<Rightarrow> (u16 list \<times> u8 list \<times> u32 \<times> uchar_state) option" where
  "c16_read 0 bs x s = Some ([], bs, x, s)"
| "c16_read (Suc k) bs x s =
     (case mbrtoc16 True True (Some bs) (length bs) (Some x) s of
        Some ((r, Some c, Some x), s) \<Rightarrow>
          map_option (\<lambda>(cs, bs, x, s). (c # cs, bs, x, s)) (c16_read k (if r = -3 then bs else drop (unat r) bs) x s)
      | _ \<Rightarrow> None)"

lemma unat_u16: "x < 0x10000 \<Longrightarrow> unat (of_nat x :: u16) = x"
  by (simp add: unsigned_of_nat take_bit_nat_eq_self)

lemma ucast_u16: "x < 0x10000 \<Longrightarrow> (ucast (of_nat x :: u16) :: u32) = of_nat x"
  by (simp add: word_unat_eq_iff unsigned_ucast_eq unat_u16 unat_small take_bit_nat_eq_self)

lemma sint_of_nat: "x < 2 ^ 31 \<Longrightarrow> sint (of_nat x :: u32) = int x"
  by (simp add: sint_uint uint_nat unat_small signed_take_bit_int_eq_self)

section \<open>Writing\<close>

lemma write_one:
  assumes "scalar x" and "x < 0x10000"
  shows "c16rtomb True True (of_nat x) (Some 0) s =
    ((of_nat (length (utf8_bytes x)), map of_nat (utf8_bytes x), Some 0), s)"
proof -
  have "\<not> ((of_nat x :: u32) - 0xd800 < 0x400)"
    using assms by (auto simp: word_less_nat_alt unat_sub_if' unat_small scalar_def)
  moreover have "unat (of_nat x :: u32) = x"
    using assms(2) by (intro unat_small) simp
  ultimately show ?thesis
    using assms by (simp add: c16rtomb_def c16_encode_def ucast_u16 wcrtomb_utf8)
qed

text \<open>The two halves of a character beyond the basic plane.\<close>

lemma halves:
  assumes "scalar x" and "0x10000 \<le> x"
  defines "q \<equiv> x div 0x400" and "r \<equiv> x mod 0x400"
  shows "x = q * 0x400 + r" "r < 0x400" "0x40 \<le> q" "q < 0x440" "utf16_units x = [0xd7c0 + q, 0xdc00 + r]"
proof -
  show eqs: "x = q * 0x400 + r" "r < 0x400"
    by (simp_all add: q_def r_def)
  show "0x40 \<le> q" "q < 0x440"
    using assms(1,2) by (auto simp: q_def scalar_def)
  moreover have "(x - 0x10000) div 0x400 = q - 0x40"
    using assms(2) by (simp add: q_def)
  ultimately show "utf16_units x = [0xd7c0 + q, 0xdc00 + r]"
    using assms(2) by (simp add: utf16_units_def r_def)
qed

lemma write_high:
  assumes "0x40 \<le> q" and "q < 0x440"
  shows "c16rtomb True True (of_nat (0xd7c0 + q)) (Some 0) s = ((0, [], Some (of_nat (q * 0x400))), s)"
proof -
  have c: "(ucast (of_nat (0xd7c0 + q) :: u16) :: u32) = of_nat (0xd7c0 + q)"
    using assms by (intro ucast_u16) simp
  have "unat (of_nat (0xd7c0 + q) :: u32) = 0xd7c0 + q"
    using assms by (intro unat_small) simp
  then have "(of_nat (0xd7c0 + q) :: u32) - 0xd800 < 0x400"
    using assms by (simp add: word_less_nat_alt unat_sub_if' del: of_nat_add)
  moreover have "(of_nat (0xd7c0 + q) :: u32) - 0xd7c0 = of_nat q"
    by simp
  ultimately show ?thesis
    unfolding c16rtomb_def c16_encode_def c by (simp add: push_bit_eq_mult del: of_nat_add)
qed

lemma write_low:
  assumes "0x40 \<le> q" and "q < 0x440" and "r < 0x400" and "scalar (q * 0x400 + r)"
  shows "c16rtomb True True (of_nat (0xdc00 + r)) (Some (of_nat (q * 0x400))) s =
    ((of_nat (length (utf8_bytes (q * 0x400 + r))), map of_nat (utf8_bytes (q * 0x400 + r)), Some 0), s)"
proof -
  have c: "(ucast (of_nat (0xdc00 + r) :: u16) :: u32) = of_nat (0xdc00 + r)"
    using assms(3) by (intro ucast_u16) simp
  have vals: "unat (of_nat (0xdc00 + r) :: u32) = 0xdc00 + r" "unat (of_nat (q * 0x400) :: u32) = q * 0x400"
    "unat (of_nat (q * 0x400 + r) :: u32) = q * 0x400 + r"
    using assms(2,3) by (intro unat_small; simp)+
  then have "\<not> 0x400 \<le> (of_nat (0xdc00 + r) :: u32) - 0xdc00"
    using assms(3) by (simp add: word_le_nat_alt unat_sub_if' del: of_nat_add)
  moreover have "(of_nat (q * 0x400) :: u32) \<noteq> 0"
    using vals(2) assms(1) by (auto simp del: of_nat_mult)
  moreover have "of_nat (q * 0x400) + (of_nat (0xdc00 + r) :: u32) - 0xdc00 = of_nat (q * 0x400 + r)"
    by simp
  ultimately show ?thesis
    unfolding c16rtomb_def c16_encode_def c
    by (auto simp: wcrtomb_utf8 vals(3) assms(4) simp del: of_nat_add of_nat_mult dest: leD)
qed

section \<open>Reading\<close>

definition bytes_of :: "nat \<Rightarrow> u8 list" where
  "bytes_of x = map of_nat (utf8_bytes x)"

lemma mbrtowc_whole:
  assumes "scalar x" and "x \<noteq> 0"
  shows "mbrtowc True (Some (bytes_of x @ rest)) (length (bytes_of x @ rest)) (Some 0) st =
    Some ((of_nat (length (utf8_bytes x)), Some (of_nat x), Some 0), st)"
proof -
  have "map unat (bytes_of x) = utf8_bytes x"
    using utf8_bytes_less [OF assms(1)] unfolding bytes_of_def by (rule map_unat_bytes)
  then have "utf8_scan (map unat (bytes_of x @ rest)) = Char x (length (utf8_bytes x))"
    using scan_encoding [OF assms(1), of "map unat rest"] by simp
  then have "decode_result (bytes_of x @ rest) = converted (of_nat (length (utf8_bytes x))) (of_nat x) 0"
    using assms(2) by (simp add: decode_result_def)
  moreover have "0 < length (bytes_of x @ rest)"
    using utf8_bytes_length(1) [of x] by (simp add: bytes_of_def)
  ultimately show ?thesis
    using mbrtowc_initial [OF order_refl, of "bytes_of x @ rest" st] by simp
qed

lemma count_at_most_4: "(of_nat (length (utf8_bytes x)) :: u32) \<le> 4"
  using utf8_bytes_length(2) [of x] by (simp add: word_le_nat_alt unat_byte_count)

lemma read_one:
  assumes "scalar x" and "x \<noteq> 0" and "x < 0x10000"
  shows "mbrtoc16 True True (Some (bytes_of x @ rest)) (length (bytes_of x @ rest)) (Some 0) s =
    Some ((of_nat (length (utf8_bytes x)), Some (of_nat x), Some 0), s)"
proof -
  have "sint (of_nat x :: u32) = int x"
    using assms(3) by (intro sint_of_nat) simp
  moreover have "(ucast (of_nat x :: u32) :: u16) = of_nat x"
    by (simp add: word_unat_eq_iff unsigned_ucast_eq unsigned_of_nat take_bit_take_bit min_def)
  ultimately show ?thesis
    using mbrtowc_whole [OF assms(1,2), of rest "uc_mb s"] assms(3) count_at_most_4
    by (simp add: mbrtoc16_def c16_decode_def)
qed

lemma low_bits:
  assumes "x < 2 ^ 32"
  shows "(of_nat x AND 0x3ff :: u32) = of_nat (x mod 0x400)"
proof -
  have "(of_nat x AND 0x3ff :: u32) = take_bit 10 (of_nat x)"
    by (simp add: take_bit_eq_mask mask_eq_exp_minus_1)
  then have "unat (of_nat x AND 0x3ff :: u32) = take_bit 10 x"
    using unat_small [OF assms] by (simp only: unsigned_take_bit_eq)
  moreover have "unat (of_nat (x mod 0x400) :: u32) = x mod 0x400"
    by (intro unat_small) (simp add: order_le_less_trans [OF mod_le_divisor])
  ultimately show ?thesis
    by (simp only: word_unat_eq_iff) (simp add: take_bit_eq_mod)
qed

lemma high_bits:
  assumes "x < 2 ^ 32"
  shows "drop_bit 10 (of_nat x :: u32) = of_nat (x div 0x400)"
proof -
  have "unat (drop_bit 10 (of_nat x :: u32)) = drop_bit 10 x"
    unfolding unat_drop_bit_eq unat_small [OF assms] ..
  moreover have "unat (of_nat (x div 0x400) :: u32) = x div 0x400"
    using assms by (intro unat_small) simp
  ultimately show ?thesis
    by (simp only: word_unat_eq_iff) (simp add: drop_bit_eq_div)
qed

lemma ucast_down: "(ucast (of_nat x :: u32) :: u16) = of_nat x"
  by (simp add: word_unat_eq_iff unsigned_ucast_eq unsigned_of_nat take_bit_take_bit min_def)

lemma read_high:
  assumes "scalar x" and "0x10000 \<le> x"
  shows "mbrtoc16 True True (Some (bytes_of x @ rest)) (length (bytes_of x @ rest)) (Some 0) s =
    Some ((of_nat (length (utf8_bytes x)), Some (of_nat (0xd7c0 + x div 0x400)), Some (of_nat (0xdc00 + x mod 0x400))), s)"
proof -
  have x: "x < 2 ^ 31" "x < 2 ^ 32" "x \<noteq> 0"
    using assms by (auto simp: scalar_def)
  have "0xd7c0 + of_nat (x div 0x400) = (of_nat (0xd7c0 + x div 0x400) :: u32)"
    "of_nat (x mod 0x400) + 0xdc00 = (of_nat (0xdc00 + x mod 0x400) :: u32)"
    by simp_all
  note sums = this
  show ?thesis
    unfolding mbrtoc16_def c16_decode_def
    using mbrtowc_whole [OF assms(1) x(3), of rest "uc_mb s"] assms(2) count_at_most_4
    by (simp add: sint_of_nat [OF x(1)] low_bits [OF x(2)] high_bits [OF x(2)] sums ucast_down del: of_nat_add)
qed

lemma read_low:
  assumes "r < 0x400"
  shows "mbrtoc16 True True (Some bs) n (Some (of_nat (0xdc00 + r))) s = Some ((-3, Some (of_nat (0xdc00 + r)), Some 0), s)"
proof -
  have "sint (of_nat (0xdc00 + r) :: u32) = int (0xdc00 + r)"
    using assms by (intro sint_of_nat) simp
  then show ?thesis
    by (simp add: mbrtoc16_def c16_decode_def ucast_down del: of_nat_add)
qed

section \<open>Strings\<close>

lemma utf16_cases:
  assumes "scalar x"
  obtains (one) "x < 0x10000" "utf16_units x = [x]"
  | (pair) q r where "x = q * 0x400 + r" "r < 0x400" "0x40 \<le> q" "q < 0x440" "0x10000 \<le> x"
      "q = x div 0x400" "r = x mod 0x400" "utf16_units x = [0xd7c0 + q, 0xdc00 + r]"
proof (cases "x < 0x10000")
  case True
  then show thesis
    using one by (simp add: utf16_units_def)
next
  case False
  then show thesis
    using pair halves [OF assms] by simp
qed

lemma byte_count_success: "of_nat (length (utf8_bytes x)) \<noteq> (-1 :: u32)" "of_nat (length (utf8_bytes x)) \<noteq> (-3 :: u32)"
proof -
  show "of_nat (length (utf8_bytes x)) \<noteq> (-1 :: u32)"
    using byte_count_plus_1 [of x] by auto
  show "of_nat (length (utf8_bytes x)) \<noteq> (-3 :: u32)"
  proof
    assume "of_nat (length (utf8_bytes x)) = (-3 :: u32)"
    then have "unat (-3 :: u32) \<le> 4"
      using unat_byte_count [of x] utf8_bytes_length(2) [of x] by simp
    then show False
      by simp
  qed
qed

lemma write_char:
  assumes "scalar x" and "c16_write cs 0 s = Some (bs, y, s')"
  shows "c16_write (map of_nat (utf16_units x) @ cs) 0 s = Some (bytes_of x @ bs, y, s')"
  using assms(1)
proof (cases rule: utf16_cases)
  case one
  then show ?thesis
    using write_one [OF assms(1) one(1), of s] assms(2) byte_count_success by (simp add: bytes_of_def)
next
  case (pair q r)
  have "scalar (q * 0x400 + r)"
    using assms(1) pair(1) by simp
  from write_high [OF pair(3,4), of s] write_low [OF pair(3,4,2) this, of s] show ?thesis
    using assms(2) byte_count_success unfolding pair(8) pair(1) [symmetric]
    by (simp add: bytes_of_def del: of_nat_add)
qed

lemma read_char:
  assumes "scalar x" and "x \<noteq> 0" and "c16_read k rest 0 s = Some (cs, bs, y, s')"
  shows "c16_read (length (utf16_units x) + k) (bytes_of x @ rest) 0 s = Some (map of_nat (utf16_units x) @ cs, bs, y, s')"
proof -
  have len: "length (bytes_of x) = length (utf8_bytes x)"
    by (simp add: bytes_of_def)
  from assms(1) show ?thesis
  proof (cases rule: utf16_cases)
    case one
    then show ?thesis
      using read_one [OF assms(1,2) one(1), of rest s] assms(3) byte_count_success by (simp add: unat_byte_count len)
  next
    case (pair q r)
    from read_high [OF assms(1) pair(5), of rest s] read_low [OF pair(2), of rest _ s] show ?thesis
      using assms(3) byte_count_success unfolding pair(8) pair(6,7) [symmetric]
      by (simp add: unat_byte_count len del: of_nat_add)
  qed
qed

text \<open>
  C38. UTF-16 survives the round trip.  The code units of a string of scalar values, given to
  \<open>c16rtomb\<close> one by one, give its UTF-8 encoding, and as many calls of \<open>mbrtoc16\<close> give the code
  units back; characters beyond the basic plane take two calls on each side, with a surrogate
  kept in the conversion state, and the state is initial again at the end.
\<close>

theorem utf16_roundtrip:
  assumes "\<forall>x\<in>set xs. scalar x \<and> x \<noteq> 0"
  shows "c16_write (units xs) 0 s = Some (map of_nat (encoded xs), 0, s) \<and>
    c16_read (length (units xs)) (map of_nat (encoded xs) @ rest) 0 s = Some (units xs, rest, 0, s)"
  using assms
proof (induction xs)
  case (Cons x xs)
  then have "c16_write (units xs) 0 s = Some (map of_nat (encoded xs), 0, s)"
    "c16_read (length (units xs)) (map of_nat (encoded xs) @ rest) 0 s = Some (units xs, rest, 0, s)"
    "scalar x" "x \<noteq> 0"
    by simp_all
  then show ?case
    using write_char [of x "units xs" s] read_char [of x "length (units xs)" "map of_nat (encoded xs) @ rest" s]
    by (simp add: bytes_of_def)
qed simp

definition uchar_start :: uchar_state where
  "uchar_start = \<lparr>uc_mb = mb_start, c16rtomb_internal = 0, mbrtoc16_internal = 0, mbrtoc32_internal = 0\<rparr>"

lemma utf16_roundtrip_witness:
  "c16_write [0x61, 0xd83d, 0xde00] 0 uchar_start = Some ([0x61, 0xf0, 0x9f, 0x98, 0x80], 0, uchar_start) \<and>
   c16_read (length [0x61, 0xd83d, 0xde00 :: u16]) ([0x61, 0xf0, 0x9f, 0x98, 0x80] @ [0]) 0 uchar_start =
     Some ([0x61, 0xd83d, 0xde00], [0], 0, uchar_start)"
proof -
  have "units [0x61, 0x1f600] = [0x61, 0xd83d, 0xde00]"
    "map of_nat (encoded [0x61, 0x1f600]) = [0x61, 0xf0, 0x9f, 0x98, 0x80 :: u8]"
    by (simp_all add: utf16_units_def utf8_bytes_def)
  moreover have "\<forall>x\<in>set [0x61, 0x1f600]. scalar x \<and> x \<noteq> 0"
    by (simp add: scalar_def)
  note utf16_roundtrip [OF this, of uchar_start "[0]"]
  ultimately show ?thesis
    by (simp only:)
qed

end
