(* ===== verification/Wasi_Emulation.thy ===== *)
theory Wasi_Emulation
  imports Wasi_Fd Wasi_Time
begin

unbundle bit_operations_syntax

text \<open>
  The emulations of the bottom half: \<open>mmap\<close> and \<open>munmap\<close> on allocated memory
  (\<open>mman/mman.c\<close>), \<open>signal\<close> and \<open>raise\<close> without asynchronous delivery (\<open>signal/signal.c\<close>),
  process clocks (\<open>clocks\<close>), and the program break on the pages of linear memory (\<open>sbrk.c\<close>).
\<close>

section \<open>Mapping files\<close>

text \<open>
  A mapping is a block of the heap: a header and the bytes after it.  The address of a block
  is the number of its allocation.  Bytes of the body are \<^const>\<open>None\<close> until they are written,
  since \<open>malloc\<close> does not initialise them.
\<close>

record map_block =
  map_prot :: c_int
  map_flags :: c_int
  map_offset :: u64
  map_length :: size_t
  map_body :: "u8 option list"

record mman = libc +
  blocks :: "nat \<rightharpoonup> map_block"

abbreviation (input) MAP_SHARED :: c_int where "MAP_SHARED \<equiv> 1"
abbreviation (input) MAP_PRIVATE :: c_int where "MAP_PRIVATE \<equiv> 2"
abbreviation (input) MAP_SHARED_VALIDATE :: c_int where "MAP_SHARED_VALIDATE \<equiv> 3"
abbreviation (input) MAP_FIXED :: c_int where "MAP_FIXED \<equiv> 0x10"
abbreviation (input) MAP_ANON :: c_int where "MAP_ANON \<equiv> 0x20"
abbreviation (input) MAP_GROWSDOWN :: c_int where "MAP_GROWSDOWN \<equiv> 0x100"
abbreviation (input) MAP_NORESERVE :: c_int where "MAP_NORESERVE \<equiv> 0x4000"
abbreviation (input) MAP_HUGETLB :: c_int where "MAP_HUGETLB \<equiv> 0x40000"
abbreviation (input) MAP_FIXED_NOREPLACE :: c_int where "MAP_FIXED_NOREPLACE \<equiv> 0x100000"
abbreviation (input) PROT_EXEC :: c_int where "PROT_EXEC \<equiv> 4"

definition unsupported_flags :: "c_int \<Rightarrow> bool" where
  "unsupported_flags flags \<longleftrightarrow>
     flags AND (MAP_PRIVATE OR MAP_SHARED) = 0 \<or>
     flags AND MAP_FIXED \<noteq> 0 \<or>
     flags AND MAP_SHARED_VALIDATE = MAP_SHARED_VALIDATE \<or>
     flags AND MAP_NORESERVE \<noteq> 0 \<or>
     flags AND MAP_GROWSDOWN \<noteq> 0 \<or>
     flags AND MAP_HUGETLB \<noteq> 0 \<or>
     flags AND MAP_FIXED_NOREPLACE \<noteq> 0"

definition unsupported_prot :: "c_int \<Rightarrow> bool" where
  "unsupported_prot prot \<longleftrightarrow> prot = 0 \<or> prot AND PROT_EXEC \<noteq> 0"

text \<open>\<open>sizeof(struct map)\<close>, with the alignment of \<open>off_t\<close>.\<close>

definition MAP_HEADER :: nat where "MAP_HEADER = 24"

text \<open>
  The loop that reads the file.  A host that reports more bytes than it was asked for breaks
  its contract.
\<close>

partial_function (option) read_body ::
  "env \<Rightarrow> u32 \<Rightarrow> u8 option list \<Rightarrow> nat \<Rightarrow> u64 \<Rightarrow> mman \<Rightarrow> ((bool \<times> u8 option list) \<times> mman) option" where
  "read_body E fd body pos offset s =
     (if pos < length body
      then let ((nread, buf), s) = pread E fd (of_nat (length body - pos)) offset s
           in if sint nread < 0
              then if errno s = EINTR then read_body E fd body pos offset s
                   else Some ((False, body), s)
              else if nread = 0 then Some ((True, body), s)
              else if length buf \<noteq> unat nread \<or> length body - pos < unat nread then None
              else read_body E fd (take pos body @ map Some buf @ drop (pos + length buf) body)
                     (pos + length buf) (offset + of_nat (length buf)) s
      else Some ((True, body), s))"

declare read_body.simps [code]

definition mmap ::
  "env \<Rightarrow> size_t \<Rightarrow> c_int \<Rightarrow> c_int \<Rightarrow> u32 \<Rightarrow> u64 \<Rightarrow> mman \<Rightarrow> (nat option \<times> mman) option" where
  "mmap E len prot flags fd offset s =
     (if unsupported_flags flags then Some (None, s\<lparr>errno := EINVAL\<rparr>)
      else if unsupported_prot prot then Some (None, s\<lparr>errno := EINVAL\<rparr>)
      else if len = 0 then Some (None, s\<lparr>errno := EINVAL\<rparr>)
      else if 2 ^ 32 \<le> unat len + MAP_HEADER then Some (None, s\<lparr>errno := ENOMEM\<rparr>)
      else let a = allocs s; (ok, s) = alloc E (len + of_nat MAP_HEADER) s
           in if \<not> ok then Some (None, s\<lparr>errno := ENOMEM\<rparr>)
              else let m = \<lparr>map_prot = prot, map_flags = flags, map_offset = offset, map_length = len,
                            map_body = replicate (unat len) None\<rparr>;
                       s = s\<lparr>blocks := (blocks s)(a \<mapsto> m)\<rparr>
                   in if flags AND MAP_ANON = 0
                      then do {
                        ((ok, body), s) \<leftarrow> read_body E fd (map_body m) 0 offset s;
                        let s = s\<lparr>blocks := (blocks s)(a \<mapsto> m\<lparr>map_body := body\<rparr>)\<rparr>;
                        Some (if ok then Some a else None, s) }
                      else Some (Some a, s\<lparr>blocks := (blocks s)(a \<mapsto> m\<lparr>map_body := replicate (unat len) (Some 0)\<rparr>)\<rparr>))"

definition munmap :: "nat \<Rightarrow> size_t \<Rightarrow> mman \<Rightarrow> (c_int \<times> mman) option" where
  "munmap addr len s =
     (case blocks s addr of
        None \<Rightarrow> None
      | Some m \<Rightarrow>
          if map_length m \<noteq> len then Some (-1, s\<lparr>errno := EINVAL\<rparr>)
          else Some (0, s\<lparr>blocks := (blocks s)(addr := None)\<rparr>))"

section \<open>Signals\<close>

text \<open>
  A handler is the null pointer (the default), one of the functions of the library or a
  function of the program; what the latter does, a parameter, may change the handlers.
\<close>

datatype 'h sighandler =
  SIG_DFL | SIG_IGN | SIG_ERR | Core_handler | Terminate_handler | Stop_handler | Continue_handler | Program 'h

abbreviation NSIG :: nat where "NSIG \<equiv> 65"

fun default_handler :: "nat \<Rightarrow> 'h sighandler" where
  "default_handler sig =
     (if sig \<in> {6, 7, 8, 4, 3, 11, 31, 5, 24, 25} then Core_handler
      else if sig \<in> {17, 23, 28} then SIG_IGN
      else if sig = 18 then Continue_handler
      else if sig \<in> {19, 20, 21, 22} then Stop_handler
      else if sig \<in> {1, 2, 9, 10, 12, 13, 14, 15, 16, 26, 27, 29, 30} then Terminate_handler
      else SIG_DFL)"

record 'h signals = libc +
  handlers :: "'h sighandler list"

text \<open>
  The names of the signals (\<open>musl/src/string/strsignal.c\<close>): the array of characters is given as
  the list of the strings it holds, and the walk over \<open>signum\<close> terminators is an index.
\<close>

definition signal_strings :: "string list" where
  "signal_strings =
     [''Unknown signal'', ''Hangup'', ''Interrupt'', ''Quit'', ''Illegal instruction'',
      ''Trace/breakpoint trap'', ''Aborted'', ''Bus error'', ''Arithmetic exception'',
      ''Killed'', ''User defined signal 1'', ''Segmentation fault'', ''User defined signal 2'',
      ''Broken pipe'', ''Alarm clock'', ''Terminated'', ''Stack fault'',
      ''Child process status'', ''Continued'', ''Stopped (signal)'', ''Stopped'',
      ''Stopped (tty input)'', ''Stopped (tty output)'', ''Urgent I/O condition'',
      ''CPU time limit exceeded'', ''File size limit exceeded'', ''Virtual timer expired'',
      ''Profiling timer expired'', ''Window changed'', ''I/O possible'', ''Power failure'',
      ''Bad system call'', ''RT32'', ''RT33'', ''RT34'', ''RT35'', ''RT36'', ''RT37'', ''RT38'',
      ''RT39'', ''RT40'', ''RT41'', ''RT42'', ''RT43'', ''RT44'', ''RT45'', ''RT46'', ''RT47'',
      ''RT48'', ''RT49'', ''RT50'', ''RT51'', ''RT52'', ''RT53'', ''RT54'', ''RT55'', ''RT56'',
      ''RT57'', ''RT58'', ''RT59'', ''RT60'', ''RT61'', ''RT62'', ''RT63'', ''RT64'']"

definition strsignal :: "c_int \<Rightarrow> string" where
  "strsignal signum =
     (let signum = (if signum - 1 \<ge> of_nat (NSIG - 1) then 0 else signum)
      in signal_strings ! unat signum)"

text \<open>
  Calling a handler: it returns, it aborts the program after a message on \<open>stderr\<close>, or it is
  \<open>__SIG_ERR\<close>, which traps.  A call of the null pointer is undefined, \<^const>\<open>None\<close>.
\<close>

datatype 's sig_outcome = Handled 's | Aborts string | Trapped

definition signal_message :: "string \<Rightarrow> c_int \<Rightarrow> string" where
  "signal_message kind sig = ''Program recieved '' @ kind @ '' signal: '' @ strsignal sig @ [CHR 0x0A]"

definition call_handler ::
  "('h \<Rightarrow> c_int \<Rightarrow> 'h signals \<Rightarrow> 'h signals sig_outcome option) \<Rightarrow> 'h sighandler \<Rightarrow> c_int \<Rightarrow> 'h signals \<Rightarrow>
   'h signals sig_outcome option" where
  "call_handler program func sig s =
     (case func of
        SIG_DFL \<Rightarrow> None
      | SIG_IGN \<Rightarrow> Some (Handled s)
      | SIG_ERR \<Rightarrow> Some Trapped
      | Core_handler \<Rightarrow> Some (Aborts (signal_message ''fatal'' sig))
      | Terminate_handler \<Rightarrow> Some (Aborts (signal_message ''termination'' sig))
      | Stop_handler \<Rightarrow> Some (Aborts (signal_message ''stop'' sig))
      | Continue_handler \<Rightarrow> Some (Handled s)
      | Program h \<Rightarrow> program h sig s)"

definition raise_signal ::
  "('h \<Rightarrow> c_int \<Rightarrow> 'h signals \<Rightarrow> 'h signals sig_outcome option) \<Rightarrow> c_int \<Rightarrow> 'h signals \<Rightarrow>
   (c_int \<times> 'h signals) sig_outcome option" where
  "raise_signal program sig s =
     (if sint sig < 0 \<or> sint sig \<ge> int NSIG then Some (Handled (-1, s\<lparr>errno := EINVAL\<rparr>))
      else let func = handlers s ! unat sig
           in do {
             r \<leftarrow> (if func = SIG_DFL then call_handler program (default_handler (unat sig)) sig s
                  else call_handler program func sig s);
             Some (map_sig_outcome (Pair 0) r) })"

definition signal :: "c_int \<Rightarrow> 'h sighandler \<Rightarrow> 'h signals \<Rightarrow> 'h sighandler \<times> 'h signals" where
  "signal sig func s =
     (if sint sig < 0 \<or> sint sig \<ge> int NSIG then (SIG_ERR, s\<lparr>errno := EINVAL\<rparr>)
      else if sig = 9 \<or> sig = 19 then (SIG_ERR, s\<lparr>errno := EINVAL\<rparr>)
      else (handlers s ! unat sig, s\<lparr>handlers := (handlers s)[unat sig := func]\<rparr>))"

section \<open>Process clocks\<close>

record tms =
  tms_utime :: u64
  tms_stime :: u64
  tms_cutime :: u64
  tms_cstime :: u64

record rusage =
  ru_utime :: timeval
  ru_stime :: timeval

record clocks = libc +
  start_time :: u64

abbreviation (input) CLOCKID_MONOTONIC :: u32 where "CLOCKID_MONOTONIC \<equiv> 1"

text \<open>The status is not looked at; a variable keeps its value when the host fails.\<close>

definition monotonic_now :: "env \<Rightarrow> u64 \<Rightarrow> 'a libc_scheme \<Rightarrow> u64 \<times> 'a libc_scheme" where
  "monotonic_now E old s =
     (let (error, t, s) = wasi_clock_time_get E CLOCKID_MONOTONIC 0 s
      in (if error = 0 then t else old, s))"

definition init_clock :: "env \<Rightarrow> clocks \<Rightarrow> clocks" where
  "init_clock E s = (let (t, s) = monotonic_now E (start_time s) s in s\<lparr>start_time := t\<rparr>)"

definition clock :: "env \<Rightarrow> clocks \<Rightarrow> u64 \<times> clocks" where
  "clock E s = (let (now, s) = monotonic_now E 0 s in (now - start_time s, s))"

definition no_timeval :: timeval where
  "no_timeval = \<lparr>tmv_sec = 0, tmv_usec = 0\<rparr>"

definition getrusage :: "env \<Rightarrow> c_int \<Rightarrow> clocks \<Rightarrow> (c_int \<times> rusage option) \<times> clocks" where
  "getrusage E who s =
     (if who = 1
      then let (usertime, s) = clock E s
           in ((0, Some \<lparr>ru_utime = timestamp_to_timeval usertime, ru_stime = no_timeval\<rparr>), s)
      else if who = 2 then ((0, Some \<lparr>ru_utime = no_timeval, ru_stime = no_timeval\<rparr>), s)
      else ((-1, None), s\<lparr>errno := EINVAL\<rparr>))"

definition c_times :: "env \<Rightarrow> clocks \<Rightarrow> (u64 \<times> tms) \<times> clocks" where
  "c_times E s =
     (let (user, s) = clock E s;
          buffer = \<lparr>tms_utime = user, tms_stime = 0, tms_cutime = user, tms_cstime = 0\<rparr>;
          (realtime, s) = monotonic_now E 0 s
      in ((realtime, buffer), s))"

section \<open>The program break\<close>

text \<open>
  The engine (a parameter) decides whether the linear memory can grow from a number of pages
  by a number of pages; it never exceeds 65536 pages, the limit of 32-bit addresses.
\<close>

definition PAGESIZE :: nat where "PAGESIZE = 0x10000"

record brk = libc +
  pages :: nat

definition memory_grow :: "(nat \<Rightarrow> nat \<Rightarrow> bool) \<Rightarrow> nat \<Rightarrow> brk \<Rightarrow> u32 \<times> brk" where
  "memory_grow can n s =
     (if can (pages s) n \<and> pages s + n \<le> 65536 then (of_nat (pages s), s\<lparr>pages := pages s + n\<rparr>) else (-1, s))"

text \<open>The result \<^const>\<open>None\<close> is \<open>abort\<close>.\<close>

definition sbrk :: "(nat \<Rightarrow> nat \<Rightarrow> bool) \<Rightarrow> c_int \<Rightarrow> brk \<Rightarrow> (u32 \<times> brk) option" where
  "sbrk can increment s =
     (if increment = 0 then Some (of_nat (pages s) * of_nat PAGESIZE, s)
      else if c_rem (sint increment) (int PAGESIZE) \<noteq> 0 then None
      else if sint increment < 0 then None
      else let (old, s) = memory_grow can (unat increment div PAGESIZE) s
           in if old = -1 then Some (-1, s\<lparr>errno := ENOMEM\<rparr>)
              else Some (old * of_nat PAGESIZE, s))"

text \<open>\<open>realloc\<close> (of the allocator) is a parameter.\<close>

definition reallocarray ::
  "('p \<Rightarrow> size_t \<Rightarrow> 'a libc_scheme \<Rightarrow> 'p option \<times> 'a libc_scheme) \<Rightarrow> 'p \<Rightarrow> size_t \<Rightarrow> size_t \<Rightarrow> 'a libc_scheme \<Rightarrow>
   'p option \<times> 'a libc_scheme" where
  "reallocarray regrow ptr nmemb sz s =
     (if 2 ^ 32 \<le> unat nmemb * unat sz then (None, s\<lparr>errno := ENOMEM\<rparr>)
      else regrow ptr (nmemb * sz) s)"

section \<open>Mapping a file\<close>

text \<open>
  A host that serves the contents of a file, in pieces as it likes, and may interrupt the
  reading, but not after its first \<open>N\<close> calls.
\<close>

definition serves_file :: "env \<Rightarrow> u32 \<Rightarrow> u8 list \<Rightarrow> nat \<Rightarrow> bool" where
  "serves_file E fd data N \<longleftrightarrow> (\<forall>h nbyte offset.
     let r = host E h (Call_fd_pread fd [nbyte] offset)
     in (status r = EINTR \<and> length h < N) \<or>
        (status r = 0 \<and> length (bytes_out r) = unat (size_out r) \<and> unat (size_out r) \<le> unat nbyte \<and>
         bytes_out r = take (unat (size_out r)) (drop (unat offset) data) \<and>
         (size_out r = 0 \<longrightarrow> nbyte = 0 \<or> length data \<le> unat offset)))"

definition file_at :: "u8 list \<Rightarrow> nat \<Rightarrow> u8 option" where
  "file_at data i = (if i < length data then Some (data ! i) else None)"

lemma file_atI: "i < length data \<Longrightarrow> file_at data i = Some (data ! i)"
  and file_at_beyond: "length data \<le> i \<Longrightarrow> file_at data i = None"
  by (simp_all add: file_at_def)

lemma sint_small: "unat (x :: 'a::len word) < 2 ^ (LENGTH('a) - 1) \<Longrightarrow> sint x = int (unat x)"
  by (simp add: sint_uint signed_take_bit_int_eq_self_iff order_trans [of _ 0] nat_less_iff flip: nat_uint_eq)

text \<open>One call of \<open>pread\<close>: interrupted, or a piece of the file.\<close>

lemma pread_serves:
  assumes "serves_file E fd data N" and "unat offset < 2 ^ 63" and "unat nbyte < 2 ^ 31"
  obtains (interrupted) buf where
    "pread E fd nbyte offset s =
       ((-1, buf), s\<lparr>calls := calls s @ [Call_fd_pread fd [nbyte] offset], errno := EINTR\<rparr>)"
    "length (calls s) < N"
  | (piece) n buf where
    "pread E fd nbyte offset s = ((n, buf), s\<lparr>calls := calls s @ [Call_fd_pread fd [nbyte] offset]\<rparr>)"
    "sint n = int (length buf)" "unat n = length buf" "length buf \<le> unat nbyte"
    "buf = take (length buf) (drop (unat offset) data)"
    "buf = [] \<Longrightarrow> nbyte = 0 \<or> length data \<le> unat offset"
proof -
  define r where "r = host E (calls s) (Call_fd_pread fd [nbyte] offset)"
  have nonneg: "\<not> sint offset < 0"
    using assms(2) by (simp add: sint_small)
  have reply: "(status r = EINTR \<and> length (calls s) < N) \<or>
     (status r = 0 \<and> length (bytes_out r) = unat (size_out r) \<and> unat (size_out r) \<le> unat nbyte \<and>
      bytes_out r = take (unat (size_out r)) (drop (unat offset) data) \<and>
      (size_out r = 0 \<longrightarrow> nbyte = 0 \<or> length data \<le> unat offset))"
    using assms(1) unfolding serves_file_def r_def Let_def by blast
  then consider "status r = EINTR" "length (calls s) < N" | "status r = 0" "length (bytes_out r) = unat (size_out r)"
      "unat (size_out r) \<le> unat nbyte" "bytes_out r = take (unat (size_out r)) (drop (unat offset) data)"
      "size_out r = 0 \<longrightarrow> nbyte = 0 \<or> length data \<le> unat offset"
    by blast
  then show ?thesis
  proof cases
    case 1
    then show ?thesis
      using nonneg
      by (intro interrupted [of "bytes_out r"])
        (simp_all add: pread_def wasi_defs call_host_def refine_error_def r_def [symmetric])
  next
    case 2
    have "size_out r = 0" if "bytes_out r = []"
      using 2(2) that by (simp add: unat_eq_0)
    then show ?thesis
      using 2 nonneg assms(3)
      by (intro piece [of "size_out r" "bytes_out r"])
        (simp_all add: pread_def wasi_defs call_host_def r_def [symmetric] sint_small)
  qed
qed

lemma piece_nth:
  assumes "buf = take (length buf) (drop off data)" and "i < length body" and "length buf \<le> length body - pos"
    and "pos \<le> length body"
  shows "(take pos body @ map Some buf @ drop (pos + length buf) body) ! i =
    (if pos \<le> i \<and> i < pos + length buf then file_at data (off + (i - pos)) else body ! i)"
proof -
  have "length buf \<le> length data - off"
    using arg_cong [OF assms(1), of length] by simp
  moreover have "buf ! j = data ! (off + j)" if "j < length buf" for j
    using arg_cong [OF assms(1), of "\<lambda>l. l ! j"] that calculation by simp
  ultimately show ?thesis
    using assms(2-4) by (auto simp: nth_append file_at_def min_def)
qed

text \<open>
  The loop always ends, and what it leaves in the body is the contents of the file as far as
  they go and the old bytes beyond.
\<close>

lemma read_body_result:
  assumes "serves_file E fd data N" and "pos \<le> length body" and "length body < 2 ^ 31"
    and "unat offset + (length body - pos) < 2 ^ 63"
  shows "\<exists>body' s'. read_body E fd body pos offset s = Some ((True, body'), s') \<and>
    blocks s' = blocks s \<and> length body' = length body \<and>
    (\<forall>i<length body. body' ! i =
       (if pos \<le> i \<and> unat offset + (i - pos) < length data then file_at data (unat offset + (i - pos)) else body ! i))"
  using assms(2-4)
proof (induction "length body - pos + (N - length (calls s))" arbitrary: body pos offset s rule: less_induct)
  case less
  show ?case
  proof (cases "pos < length body")
    case False
    then have "read_body E fd body pos offset s = Some ((True, body), s)"
      by (simp add: read_body.simps)
    then show ?thesis
      using False by (intro exI [of _ body] exI [of _ s]) auto
  next
    case True
    define nbyte :: u32 where "nbyte = of_nat (length body - pos)"
    have nbyte: "unat nbyte = length body - pos"
      using less.prems(2) by (simp add: nbyte_def unsigned_of_nat take_bit_nat_eq_self_iff)
    then have "unat offset < 2 ^ 63" "unat nbyte < 2 ^ 31" "nbyte \<noteq> 0"
      using less.prems(2,3) True by auto
    note small = this
    from assms(1) small(1,2) show ?thesis
    proof (cases rule: pread_serves [where s = s, case_names interrupted piece])
      case (interrupted buf)
      let ?s = "s\<lparr>calls := calls s @ [Call_fd_pread fd [nbyte] offset], errno := EINTR\<rparr>"
      have "read_body E fd body pos offset s = read_body E fd body pos offset ?s"
        using True interrupted(1) by (subst read_body.simps) (simp add: nbyte_def [symmetric] Let_def)
      moreover have "length body - pos + (N - length (calls ?s)) < length body - pos + (N - length (calls s))"
        using interrupted(2) by simp
      note less.hyps [OF this less.prems]
      ultimately show ?thesis
        by simp
    next
      case (piece n buf)
      let ?s = "s\<lparr>calls := calls s @ [Call_fd_pread fd [nbyte] offset]\<rparr>"
      let ?body = "take pos body @ map Some buf @ drop (pos + length buf) body"
      let ?offset = "offset + of_nat (length buf)"
      have fits: "length buf \<le> length body - pos" "length buf < 2 ^ 31"
        using piece(4) nbyte less.prems(2) by auto
      show ?thesis
      proof (cases "buf = []")
        case True
        then have "read_body E fd body pos offset s = Some ((True, body), ?s)"
          using \<open>pos < length body\<close> piece(1-3)
          by (subst read_body.simps) (simp add: nbyte_def [symmetric] Let_def unat_eq_0)
        then show ?thesis
          using True piece(6) small(3) by (intro exI [of _ body] exI [of _ ?s]) auto
      next
        case False
        then have "n \<noteq> 0"
          using piece(3) by auto
        then have step: "read_body E fd body pos offset s = read_body E fd ?body (pos + length buf) ?offset ?s"
          using \<open>pos < length body\<close> piece(1-3) fits
          by (subst read_body.simps) (simp add: nbyte_def [symmetric] Let_def)
        have offset: "unat ?offset = unat offset + length buf"
          using fits less.prems(3) \<open>pos < length body\<close>
          by (simp add: unat_word_ariths unsigned_of_nat take_bit_nat_eq_self)
        have len: "length ?body = length body"
          using fits \<open>pos < length body\<close> by simp
        have "\<exists>body' s'. read_body E fd ?body (pos + length buf) ?offset ?s = Some ((True, body'), s') \<and>
          blocks s' = blocks ?s \<and> length body' = length ?body \<and>
          (\<forall>i<length ?body. body' ! i =
             (if pos + length buf \<le> i \<and> unat ?offset + (i - (pos + length buf)) < length data
              then file_at data (unat ?offset + (i - (pos + length buf))) else ?body ! i))"
        proof (rule less.hyps)
          show "length ?body - (pos + length buf) + (N - length (calls ?s)) < length body - pos + (N - length (calls s))"
            unfolding len using False fits
            by (intro add_less_le_mono diff_le_mono2) (simp_all add: \<open>pos < length body\<close> diff_less_mono2)
        qed (use fits less.prems in \<open>auto simp: len offset simp del: length_append\<close>)
        then obtain body' s' where rest: "read_body E fd ?body (pos + length buf) ?offset ?s = Some ((True, body'), s')"
          "blocks s' = blocks ?s" "length body' = length body"
          "\<And>i. i < length body \<Longrightarrow> body' ! i =
             (if pos + length buf \<le> i \<and> unat ?offset + (i - (pos + length buf)) < length data
              then file_at data (unat ?offset + (i - (pos + length buf))) else ?body ! i)"
          unfolding len by blast
        have "length buf \<le> length data - unat offset"
          using arg_cong [OF piece(5), of length] by simp
        then have "body' ! i = (if pos \<le> i \<and> unat offset + (i - pos) < length data
            then file_at data (unat offset + (i - pos)) else body ! i)" if "i < length body" for i
          using piece_nth [OF piece(5) that fits(1) less.prems(1)] rest(4) [OF that] fits
          unfolding offset by (auto split: if_splits)
        then show ?thesis
          using step rest(1-3) by (intro exI [of _ body'] exI [of _ s']) simp
      qed
    qed
  qed
qed

text \<open>What the loop leaves when it starts with the fresh body of a mapping.\<close>

lemma read_body_fresh:
  assumes "serves_file E fd data N" and "n < 2 ^ 31" and "unat offset + n < 2 ^ 63"
  obtains s' where "read_body E fd (replicate n None) 0 offset s =
      Some ((True, map (\<lambda>i. file_at data (unat offset + i)) [0..<n]), s')" "blocks s' = blocks s"
proof -
  obtain body s' where body: "read_body E fd (replicate n None) 0 offset s = Some ((True, body), s')"
    "blocks s' = blocks s" "length body = n"
    "\<forall>i<n. body ! i = (if unat offset + i < length data then file_at data (unat offset + i) else None)"
    using read_body_result [OF assms(1), of 0 "replicate n None" offset s] assms(2,3)
    by (auto cong: if_cong simp: all_conj_distrib)
  have "body = map (\<lambda>i. file_at data (unat offset + i)) [0..<n]"
    using body(3,4) by (intro nth_equalityI) (auto simp: file_at_def)
  then show thesis
    using body that by simp
qed

definition supported :: "c_int \<Rightarrow> c_int \<Rightarrow> size_t \<Rightarrow> bool" where
  "supported prot flags len \<longleftrightarrow>
     \<not> unsupported_flags flags \<and> \<not> unsupported_prot prot \<and> len \<noteq> 0 \<and> unat len + MAP_HEADER < 2 ^ 32"

lemma mmap_file_mapping:
  assumes "supported prot flags len" and "flags AND MAP_ANON = 0"
    and "allocator E (allocs s) (len + of_nat MAP_HEADER) = Allocated"
  shows "mmap E len prot flags fd offset s =
    (let m = \<lparr>map_prot = prot, map_flags = flags, map_offset = offset, map_length = len,
              map_body = replicate (unat len) None\<rparr>
     in do {
       ((ok, body), s') \<leftarrow> read_body E fd (replicate (unat len) None) 0 offset
          (s\<lparr>allocs := Suc (allocs s), blocks := (blocks s)(allocs s \<mapsto> m)\<rparr>);
       Some (if ok then Some (allocs s) else None,
             s'\<lparr>blocks := (blocks s')(allocs s \<mapsto> m\<lparr>map_body := body\<rparr>)\<rparr>) })"
  using assms by (simp add: mmap_def supported_def alloc_def Let_def case_prod_unfold)

lemma ucast_eq_EINTR: "ucast e = (EINTR :: c_int) \<longleftrightarrow> e = (EINTR :: errno_t)"
proof -
  have "unat e < 2 ^ 32"
    using unsigned_less [where w = e and 'a = nat] by simp
  then have "unat (ucast e :: c_int) = unat e"
    by (simp add: unsigned_ucast_eq take_bit_nat_eq_self)
  then show ?thesis
    by (simp add: word_unat_eq_iff)
qed

section \<open>The properties\<close>

text \<open>
  C30. Mapping a file.  On a host that serves a file in pieces of any size and interrupts the
  reading finitely often, \<open>mmap\<close> returns a new block whose body holds the bytes of the file
  from the offset on; the bytes beyond the end of the file stay uninitialised.  \<open>munmap\<close> with
  the same length releases the block and leaves every other block, and with any other length
  fails with \<open>EINVAL\<close>.
\<close>

theorem mmap_maps_file:
  assumes "serves_file E fd data N" and "supported prot flags len" and "flags AND MAP_ANON = 0"
    and "allocator E (allocs s) (len + of_nat MAP_HEADER) = Allocated"
    and "unat len < 2 ^ 31" and "unat offset + unat len < 2 ^ 63"
  shows "\<exists>s' m. mmap E len prot flags fd offset s = Some (Some (allocs s), s') \<and>
    blocks s' = (blocks s)(allocs s \<mapsto> m) \<and>
    map_body m = map (\<lambda>i. file_at data (unat offset + i)) [0..<unat len] \<and>
    munmap (allocs s) len s' = Some (0, s'\<lparr>blocks := (blocks s)(allocs s := None)\<rparr>) \<and>
    (\<forall>len'. len' = len \<or> munmap (allocs s) len' s' = Some (-1, s'\<lparr>errno := EINVAL\<rparr>))"
proof -
  let ?m = "\<lparr>map_prot = prot, map_flags = flags, map_offset = offset, map_length = len,
             map_body = replicate (unat len) None\<rparr>"
  let ?s = "s\<lparr>allocs := Suc (allocs s), blocks := (blocks s)(allocs s \<mapsto> ?m)\<rparr>"
  let ?body = "map (\<lambda>i. file_at data (unat offset + i)) [0..<unat len]"
  obtain s' where s': "read_body E fd (replicate (unat len) None) 0 offset ?s = Some ((True, ?body), s')"
    "blocks s' = blocks ?s"
    by (rule read_body_fresh [OF assms(1,5,6)])
  have "mmap E len prot flags fd offset s =
      Some (Some (allocs s), s'\<lparr>blocks := (blocks s)(allocs s \<mapsto> ?m\<lparr>map_body := ?body\<rparr>)\<rparr>)"
    using s' by (simp add: mmap_file_mapping [OF assms(2,3,4)])
  then show ?thesis
    by (intro exI conjI) (assumption, auto simp: munmap_def)
qed

text \<open>
  C31. A read that fails for another reason than an interruption makes \<open>mmap\<close> fail with the
  error of the read, but the block it has allocated stays in the heap: nobody has its address
  to release it.
\<close>

theorem mmap_failed_read_leaks:
  assumes "supported prot flags len" and "flags AND MAP_ANON = 0" and "\<not> sint offset < 0"
    and "allocator E (allocs s) (len + of_nat MAP_HEADER) = Allocated"
    and "ucast (status (host E (calls s) (Call_fd_pread fd [len] offset))) = e"
    and "e \<noteq> 0" "e \<noteq> EINTR" "e \<noteq> ENOTCAPABLE"
  shows "\<exists>s'. mmap E len prot flags fd offset s = Some (None, s') \<and> errno s' = ucast (e :: errno_t) \<and>
    dom (blocks s') = insert (allocs s) (dom (blocks s))"
proof -
  have "0 < unat len"
    using assms(1) by (simp add: supported_def unat_gt_0)
  then show ?thesis
    using assms(3,5-8)
    by (subst mmap_file_mapping [OF assms(1,2,4)], subst read_body.simps)
      (simp add: Let_def pread_def wasi_defs call_host_def refine_error_def ucast_eq_EINTR)
qed

text \<open>A host whose reads give two bytes at most, the very first one being interrupted.\<close>

definition file_env :: "u8 list \<Rightarrow> env" where
  "file_env data = idle_env\<lparr>host := (\<lambda>h c. case c of
       Call_fd_pread fd [nbyte] offset \<Rightarrow>
         if h = [] then (host idle_env h c)\<lparr>status := EINTR\<rparr>
         else let piece = take (min 2 (unat nbyte)) (drop (unat offset) data)
              in (host idle_env h c)\<lparr>size_out := of_nat (length piece), bytes_out := piece\<rparr>
     | _ \<Rightarrow> host idle_env h c)\<rparr>"

definition idle_mman :: mman where
  "idle_mman = \<lparr>errno = 0, calls = [], allocs = 0, blocks = Map.empty\<rparr>"

lemma take_length_take: "take (length (take n xs)) xs = take n xs"
  by (simp add: min_def)

lemma file_env_serves: "serves_file (file_env data) fd data 1"
proof -
  have size: "unat (of_nat (length (take (min 2 n) xs)) :: u32) = length (take (min 2 n) xs)" for n and xs :: "u8 list"
    by (simp add: unsigned_of_nat take_bit_nat_eq_self)
  have zero: "n = 0 \<or> length xs \<le> k" if "(of_nat (length (take (min 2 n) (drop k xs))) :: u32) = 0"
    for n k and xs :: "u8 list"
    using size [of n "drop k xs"] that by auto
  show ?thesis
    unfolding serves_file_def
  proof (intro allI)
    fix h nbyte offset
    show "let r = host (file_env data) h (Call_fd_pread fd [nbyte] offset)
      in (status r = EINTR \<and> length h < 1) \<or>
        (status r = 0 \<and> length (bytes_out r) = unat (size_out r) \<and> unat (size_out r) \<le> unat nbyte \<and>
         bytes_out r = take (unat (size_out r)) (drop (unat offset) data) \<and>
         (size_out r = 0 \<longrightarrow> nbyte = 0 \<or> length data \<le> unat offset))"
    proof (cases "h = []")
      case False
      have "size_out (host (file_env data) h (Call_fd_pread fd [nbyte] offset)) = 0 \<longrightarrow>
          nbyte = 0 \<or> length data \<le> unat offset"
        using False zero [of "unat nbyte" "unat offset" data]
        by (auto simp: file_env_def Let_def unat_eq_0 simp del: length_take)
      then show ?thesis
        using False by (simp add: file_env_def idle_env_def Let_def size take_length_take del: length_take)
          (simp add: min_def)
    qed (simp add: file_env_def)
  qed
qed

theorem mmap_maps_file_witness:
  "\<exists>s' m. mmap (file_env [10, 20, 30]) 4 1 MAP_PRIVATE 5 1 idle_mman = Some (Some 0, s') \<and>
     blocks s' = [0 \<mapsto> m] \<and> map_body m = [Some 20, Some 30, None, None] \<and>
     munmap 0 4 s' = Some (0, s'\<lparr>blocks := Map.empty\<rparr>)"
proof -
  have upt: "[0..<4] = [0, 1, 2, 3 :: nat]"
    by code_simp
  have "supported 1 MAP_PRIVATE 4"
    by (simp add: supported_def unsupported_flags_def unsupported_prot_def MAP_HEADER_def)
  from mmap_maps_file [OF file_env_serves [of "[10, 20, 30]" 5] this, of idle_mman 1]
  show ?thesis
    by (auto simp: idle_mman_def file_env_def idle_env_def file_at_def upt simp del: One_nat_def)
qed

definition failing_env :: env where
  "failing_env = idle_env\<lparr>host := (\<lambda>h c. (host idle_env h c)\<lparr>status := EIO\<rparr>)\<rparr>"

theorem mmap_failed_read_leaks_witness:
  "\<exists>s'. mmap failing_env 4 1 MAP_PRIVATE 5 0 idle_mman = Some (None, s') \<and> errno s' = EIO \<and> dom (blocks s') = {0}"
proof -
  have "supported 1 MAP_PRIVATE 4"
    by (simp add: supported_def unsupported_flags_def unsupported_prot_def MAP_HEADER_def)
  from mmap_failed_read_leaks [OF this, of 0 failing_env idle_mman 5 EIO] show ?thesis
    by (auto simp: idle_mman_def failing_env_def idle_env_def)
qed

section \<open>What signals do\<close>

text \<open>
  The specification: the action of a signal is what was last registered for it, and signals
  that cannot be caught keep the default.
\<close>

definition valid_signal :: "c_int \<Rightarrow> bool" where
  "valid_signal sig \<longleftrightarrow> 0 \<le> sint sig \<and> sint sig < int NSIG"

definition catchable :: "c_int \<Rightarrow> bool" where
  "catchable sig \<longleftrightarrow> valid_signal sig \<and> sig \<noteq> 9 \<and> sig \<noteq> 19"

fun actions :: "(c_int \<times> 'h sighandler) list \<Rightarrow> c_int \<Rightarrow> 'h sighandler" where
  "actions [] sig = SIG_DFL"
| "actions ((sig', func) # earlier) sig =
     (if sig' = sig \<and> catchable sig then func else actions earlier sig)"

text \<open>A sequence of registrations, the latest first.\<close>

fun register :: "(c_int \<times> 'h sighandler) list \<Rightarrow> 'h signals \<Rightarrow> 'h signals" where
  "register [] s = s"
| "register ((sig, func) # earlier) s = snd (signal sig func (register earlier s))"

definition program_start :: "'h signals \<Rightarrow> 'h signals" where
  "program_start s = s\<lparr>handlers := replicate NSIG SIG_DFL\<rparr>"

lemma valid_signal_nat: "valid_signal sig \<longleftrightarrow> unat sig < NSIG"
proof -
  have "sint sig = int (unat sig)" if "unat sig < 2 ^ 31"
    using that by (intro sint_small) simp
  moreover have "unat sig < 2 ^ 31" if "0 \<le> sint sig"
  proof -
    have "sint sig < 2 ^ 31"
      using sint_lt [of sig] by simp
    then show ?thesis
      using that by (simp add: unat_eq_nat_uint uint_sint take_bit_int_eq_self nat_less_iff)
  qed
  ultimately have "valid_signal sig \<longleftrightarrow> unat sig < 2 ^ 31 \<and> int (unat sig) < int NSIG"
    by (metis valid_signal_def of_nat_0_le_iff)
  then show ?thesis
    unfolding of_nat_less_iff by auto
qed

lemma invalid_signal: "sint sig < 0 \<or> sint sig \<ge> int NSIG \<longleftrightarrow> \<not> valid_signal sig"
  by (auto simp: valid_signal_def)

lemma catchable_valid: "catchable sig \<Longrightarrow> valid_signal sig"
  by (simp add: catchable_def)

lemma signal_result:
  "signal sig func s =
     (if catchable sig then (handlers s ! unat sig, s\<lparr>handlers := (handlers s)[unat sig := func]\<rparr>)
      else (SIG_ERR, s\<lparr>errno := EINVAL\<rparr>))"
  unfolding signal_def invalid_signal by (simp add: catchable_def)

text \<open>The default actions that POSIX and Linux define for the signals 1 to 31, in this order.\<close>

datatype default_action = Term | Core | Ign | Stop | Cont

definition default_actions :: "default_action list" where
  "default_actions =
     [Term, Term, Core, Core, Core, Core, Core, Core, Term, Term, Core, Term, Term, Term, Term, Term,
      Ign, Cont, Stop, Stop, Stop, Stop, Ign, Core, Core, Term, Term, Ign, Term, Term, Core]"

definition default_outcome :: "c_int \<Rightarrow> 's \<Rightarrow> 's sig_outcome option" where
  "default_outcome sig s =
     (if unat sig \<in> {1..31}
      then Some (case default_actions ! (unat sig - 1) of
             Term \<Rightarrow> Aborts (signal_message ''termination'' sig)
           | Core \<Rightarrow> Aborts (signal_message ''fatal'' sig)
           | Stop \<Rightarrow> Aborts (signal_message ''stop'' sig)
           | Ign \<Rightarrow> Handled s
           | Cont \<Rightarrow> Handled s)
      else None)"

lemma default_handlers_agree:
  "list_all (\<lambda>n. default_handler n = (case default_actions ! (n - 1) of
      Term \<Rightarrow> Terminate_handler | Core \<Rightarrow> Core_handler | Stop \<Rightarrow> Stop_handler
    | Ign \<Rightarrow> SIG_IGN | Cont \<Rightarrow> Continue_handler)) [1..<32]"
  "n = 0 \<or> 32 \<le> n \<Longrightarrow> default_handler n = SIG_DFL"
  by (simp_all add: default_actions_def upt_rec) auto

declare default_handler.simps [simp del]

lemma default_call:
  fixes program :: "'h \<Rightarrow> c_int \<Rightarrow> 'h signals \<Rightarrow> 'h signals sig_outcome option"
  shows "call_handler program (default_handler (unat sig)) sig s = default_outcome sig s"
proof (cases "unat sig \<in> {1..31}")
  case True
  then have "unat sig \<in> set [1..<32]"
    by auto
  then have "(default_handler (unat sig) :: 'h sighandler) = (case default_actions ! (unat sig - 1) of
      Term \<Rightarrow> Terminate_handler | Core \<Rightarrow> Core_handler | Stop \<Rightarrow> Stop_handler
    | Ign \<Rightarrow> SIG_IGN | Cont \<Rightarrow> Continue_handler)"
    using default_handlers_agree(1) unfolding list_all_iff by blast
  then show ?thesis
    using True unfolding default_outcome_def call_handler_def
    by (cases "default_actions ! (unat sig - 1)") (simp_all only: if_True default_action.case sighandler.case)
next
  case False
  then have "(default_handler (unat sig) :: 'h sighandler) = SIG_DFL"
    by (intro default_handlers_agree(2)) auto
  then show ?thesis
    using False by (simp add: default_outcome_def call_handler_def)
qed

lemma bind_map_option: "Option.bind x (\<lambda>r. Some (f r)) = map_option f x"
  by (cases x) simp_all

lemma raise_result:
  "raise_signal program sig s =
     (if \<not> valid_signal sig then Some (Handled (-1, s\<lparr>errno := EINVAL\<rparr>))
      else map_option (map_sig_outcome (Pair 0))
        (case handlers s ! unat sig of
           SIG_DFL \<Rightarrow> default_outcome sig s
         | func \<Rightarrow> call_handler program func sig s))"
  unfolding raise_signal_def invalid_signal Let_def default_call bind_map_option
  by (cases "handlers s ! unat sig") (simp_all add: default_call)

lemma register_handlers:
  "length (handlers (register regs (program_start s))) = NSIG \<and>
   (valid_signal sig \<longrightarrow> handlers (register regs (program_start s)) ! unat sig = actions regs sig)"
proof (induction regs)
  case Nil
  then show ?case
    by (simp add: program_start_def valid_signal_nat)
next
  case (Cons reg regs)
  then show ?case
    by (cases reg) (auto simp: signal_result catchable_def valid_signal_nat nth_list_update word_unat_eq_iff)
qed

text \<open>
  C32. Signals refine a map from signal numbers to actions.  Whatever was registered before,
  \<open>signal\<close> returns the action in force, and \<open>raise\<close> runs it and then returns 0: the function of
  the program that was registered last, nothing for an ignored signal, and a trap for
  \<open>SIG_ERR\<close>.  A signal at its default does what POSIX and Linux define for it, where to stop
  and to end the program both print a message with the name of the signal and abort; for
  the signals without a default, 0 and 32 to 64, it calls a null pointer.  Signals that cannot
  be caught are refused by \<open>signal\<close> and numbers out of range by both, with \<open>EINVAL\<close>.
\<close>

theorem signals_last_registration:
  "let s' = register regs (program_start s)
   in signal sig func s' =
        (if catchable sig then (actions regs sig, s'\<lparr>handlers := (handlers s')[unat sig := func]\<rparr>)
         else (SIG_ERR, s'\<lparr>errno := EINVAL\<rparr>)) \<and>
      raise_signal program sig s' =
        (if \<not> valid_signal sig then Some (Handled (-1, s'\<lparr>errno := EINVAL\<rparr>))
         else case actions regs sig of
                Program h \<Rightarrow> map_option (map_sig_outcome (Pair 0)) (program h sig s')
              | SIG_DFL \<Rightarrow> default_outcome sig (0, s')
              | SIG_IGN \<Rightarrow> Some (Handled (0, s'))
              | SIG_ERR \<Rightarrow> Some Trapped
              | Core_handler \<Rightarrow> Some (Aborts (signal_message ''fatal'' sig))
              | Terminate_handler \<Rightarrow> Some (Aborts (signal_message ''termination'' sig))
              | Stop_handler \<Rightarrow> Some (Aborts (signal_message ''stop'' sig))
              | Continue_handler \<Rightarrow> Some (Handled (0, s')))"
proof -
  let ?s = "register regs (program_start s)"
  have handler: "handlers ?s ! unat sig = actions regs sig" if "valid_signal sig"
    using register_handlers [of regs s sig] that by blast
  have result: "map_option (map_sig_outcome (Pair 0)) (default_outcome sig ?s) = default_outcome sig (0, ?s)"
    by (simp add: default_outcome_def split: default_action.split)
  have raised: "map_option (map_sig_outcome (Pair 0))
      (case func of SIG_DFL \<Rightarrow> default_outcome sig ?s | f \<Rightarrow> call_handler program f sig ?s) =
    (case func of
       Program h \<Rightarrow> map_option (map_sig_outcome (Pair 0)) (program h sig ?s)
     | SIG_DFL \<Rightarrow> default_outcome sig (0, ?s)
     | SIG_IGN \<Rightarrow> Some (Handled (0, ?s))
     | SIG_ERR \<Rightarrow> Some Trapped
     | Core_handler \<Rightarrow> Some (Aborts (signal_message ''fatal'' sig))
     | Terminate_handler \<Rightarrow> Some (Aborts (signal_message ''termination'' sig))
     | Stop_handler \<Rightarrow> Some (Aborts (signal_message ''stop'' sig))
     | Continue_handler \<Rightarrow> Some (Handled (0, ?s)))" for func
    by (cases func) (simp_all add: call_handler_def result)
  show ?thesis
    unfolding Let_def signal_result raise_result
    using handler catchable_valid [of sig] by (simp add: raised)
qed

section \<open>Areas of memory\<close>

text \<open>A sequence of requests and the areas it was given, the first request first.\<close>

fun sbrk_areas ::
  "(nat \<Rightarrow> nat \<Rightarrow> bool) \<Rightarrow> c_int list \<Rightarrow> brk \<Rightarrow> ((u32 \<times> c_int) list \<times> brk) option" where
  "sbrk_areas can [] s = Some ([], s)"
| "sbrk_areas can (increment # requests) s = do {
     (p, s) \<leftarrow> sbrk can increment s;
     (areas, s) \<leftarrow> sbrk_areas can requests s;
     Some (if p = -1 \<or> increment = 0 then areas else (p, increment) # areas, s) }"

lemma unat_minus_one_u32: "unat (-1 :: u32) = 2 ^ 32 - 1"
  by (simp add: unsigned_minus_1_eq_mask mask_eq_exp_minus_1)

lemma sbrk_grows:
  assumes "sbrk can increment s = Some (p, s')" and "pages s \<le> 65536" and "increment \<noteq> 0"
  shows "p = -1 \<and> s' = s\<lparr>errno := ENOMEM\<rparr> \<or>
    p \<noteq> -1 \<and> unat p = pages s * PAGESIZE \<and> pages s' \<le> 65536 \<and> pages s' * PAGESIZE = unat p + unat increment"
proof -
  have run: "c_rem (sint increment) (int PAGESIZE) = 0" "0 \<le> sint increment"
    "(let (old, s) = memory_grow can (unat increment div PAGESIZE) s
      in if old = -1 then (-1, s\<lparr>errno := ENOMEM\<rparr>) else (old * of_nat PAGESIZE, s)) = (p, s')"
    using assms(1,3) by (auto simp: sbrk_def Let_def case_prod_unfold split: if_splits)
  have "uint increment = sint increment"
    using run(2) sint_lt [of increment] by (simp add: uint_sint take_bit_int_eq_self)
  then have "int (unat increment) mod int PAGESIZE = 0"
    using run(1,2) by (simp add: c_rem_pos PAGESIZE_def)
  then have "unat increment mod PAGESIZE = 0"
    by (simp only: of_nat_mod [symmetric] of_nat_eq_0_iff)
  then obtain k where k: "unat increment = k * PAGESIZE"
    by (metis mod_0_imp_dvd dvdE mult.commute)
  then have pos: "0 < k"
    using assms(3) by (cases k) (auto simp: unat_eq_0)
  show ?thesis
  proof (cases "can (pages s) k \<and> pages s + k \<le> 65536")
    case True
    then have small: "pages s < 65536"
      using pos by simp
    then have old: "unat (of_nat (pages s) :: u32) = pages s"
      by (simp add: unsigned_of_nat take_bit_nat_eq_self)
    then have "(of_nat (pages s) :: u32) \<noteq> -1"
      using small by (auto simp: word_unat_eq_iff unat_minus_one_u32)
    then have "p = of_nat (pages s) * of_nat PAGESIZE" "s' = s\<lparr>pages := pages s + k\<rparr>"
      using run(3) True by (auto simp: memory_grow_def k PAGESIZE_def)
    moreover have "unat (of_nat (pages s) * of_nat PAGESIZE :: u32) = pages s * PAGESIZE"
      using small old by (simp add: unat_word_ariths PAGESIZE_def)
    moreover have "(of_nat (pages s) * of_nat PAGESIZE :: u32) \<noteq> -1"
      using calculation(3) small by (auto simp: PAGESIZE_def unat_minus_one_u32 dest!: arg_cong [of _ "-1" unat])
    ultimately show ?thesis
      using True by (simp add: k algebra_simps)
  next
    case False
    then show ?thesis
      using run(3) by (auto simp: memory_grow_def k PAGESIZE_def)
  qed
qed

definition in_memory :: "nat \<Rightarrow> nat \<Rightarrow> (u32 \<times> c_int) list \<Rightarrow> bool" where
  "in_memory low high areas \<longleftrightarrow>
     (\<forall>(p, increment) \<in> set areas. low \<le> unat p \<and> unat p + unat increment \<le> high) \<and>
     sorted_wrt (\<lambda>(p, increment) (q, _). unat p + unat increment \<le> unat q) areas"

text \<open>
  C33. The areas of memory a program gets from a sequence of \<open>sbrk\<close> requests lie one after the
  other, never overlapping, between the break before and the break after, and the break never
  passes the end of the 32-bit address space; a request that fails changes nothing but
  \<open>errno\<close>.
\<close>

theorem sbrk_extends_memory:
  assumes "sbrk_areas can requests s = Some (areas, s')" and "pages s \<le> 65536"
  shows "in_memory (pages s * PAGESIZE) (pages s' * PAGESIZE) areas \<and>
    pages s \<le> pages s' \<and> pages s' * PAGESIZE \<le> 2 ^ 32"
  using assms
proof (induction requests arbitrary: areas s)
  case Nil
  then show ?case
    by (simp add: in_memory_def PAGESIZE_def)
next
  case (Cons increment requests)
  obtain p t areas' where step: "sbrk can increment s = Some (p, t)" "sbrk_areas can requests t = Some (areas', s')"
    "areas = (if p = -1 \<or> increment = 0 then areas' else (p, increment) # areas')"
    using Cons.prems(1) by (auto split: bind_splits)
  show ?case
  proof (cases "p = -1 \<or> increment = 0")
    case True
    then have "pages t = pages s"
      using step(1) sbrk_grows [OF step(1) Cons.prems(2)] by (cases "increment = 0") (auto simp: sbrk_def)
    then show ?thesis
      using Cons.IH [OF step(2)] Cons.prems(2) step(3) True by simp
  next
    case False
    then have "unat p = pages s * PAGESIZE" "pages t \<le> 65536" "pages t * PAGESIZE = unat p + unat increment"
      using sbrk_grows [OF step(1) Cons.prems(2)] by auto
    moreover from this(1,3) have "pages s \<le> pages t"
      by (simp add: PAGESIZE_def)
    ultimately show ?thesis
      using Cons.IH [OF step(2)] step(3) False
      by (auto simp: in_memory_def PAGESIZE_def intro: order_trans)
  qed
qed

definition idle_brk :: brk where
  "idle_brk = \<lparr>errno = 0, calls = [], allocs = 0, pages = 2\<rparr>"

theorem sbrk_extends_memory_witness:
  "sbrk_areas (\<lambda>_ n. n < 4) [0x10000, 0x40000, 0x20000] idle_brk =
     Some ([(0x20000, 0x10000), (0x30000, 0x20000)], idle_brk\<lparr>errno := ENOMEM, pages := 5\<rparr>) \<and>
   in_memory 0x20000 0x50000 [(0x20000, 0x10000), (0x30000, 0x20000)]"
proof -
  have "sbrk_areas (\<lambda>_ n. n < 4) [0x10000, 0x40000, 0x20000] idle_brk =
     Some ([(0x20000, 0x10000), (0x30000, 0x20000)], idle_brk\<lparr>errno := ENOMEM, pages := 5\<rparr>)"
    by (simp add: sbrk_def memory_grow_def c_rem_def PAGESIZE_def idle_brk_def)
  with sbrk_extends_memory [OF this] show ?thesis
    by (simp add: idle_brk_def PAGESIZE_def)
qed

end
