(* ===== verification/Hash_Table.thy ===== *)
theory Hash_Table
  imports Wasi_Host "HOL-Library.Multiset"
begin

unbundle bit_operations_syntax

text \<open>
  Hash tables (\<open>libc-top-half/musl/src/search/hsearch.c\<close>): open addressing in a table of a power
  of two, with steps of growing length on a collision.  The key of an entry is the string it
  points to, \<^const>\<open>None\<close> for the null pointer; the strings do not change while they are in the
  table.  An entry pointer is the index of the entry.
\<close>

section \<open>The code\<close>

record entry =
  e_key :: "u8 list option"
  e_data :: c_ptr

datatype hash_action = FIND | ENTER

record tab =
  tb_entries :: "entry list option"
  tb_mask :: size_t
  tb_used :: size_t

record hash_state = libc +
  htab :: "tab option"

definition MINSIZE :: size_t where "MINSIZE = 8"
definition MAXSIZE :: size_t where "MAXSIZE = 0x80000000"

definition ENTRY_SIZE :: size_t where "ENTRY_SIZE = 8"

definition empty_entry :: entry where
  "empty_entry = \<lparr>e_key = None, e_data = NULL\<rparr>"

definition keyhash :: "u8 list \<Rightarrow> size_t" where
  "keyhash k = fold (\<lambda>p h. 31 * h + ucast p) k 0"

text \<open>The steps through the table, until an entry that meets a condition.\<close>

partial_function (option) probe ::
  "(entry \<Rightarrow> bool) \<Rightarrow> entry list \<Rightarrow> size_t \<Rightarrow> size_t \<Rightarrow> size_t \<Rightarrow> nat option" where
  "probe stop es msk i j =
     (if unat (i AND msk) < length es
      then if stop (es ! unat (i AND msk)) then Some (unat (i AND msk)) else probe stop es msk (i + j) (j + 1)
      else None)"

definition lookup :: "u8 list \<Rightarrow> size_t \<Rightarrow> entry list \<Rightarrow> size_t \<Rightarrow> nat option" where
  "lookup key h es msk = probe (\<lambda>e. e_key e = None \<or> e_key e = Some key) es msk h 1"

partial_function (option) table_size :: "size_t \<Rightarrow> size_t \<Rightarrow> size_t option" where
  "table_size nel newsize = (if newsize < nel then table_size nel (newsize * 2) else Some newsize)"

fun rehash :: "size_t \<Rightarrow> entry list \<Rightarrow> entry list \<Rightarrow> entry list option" where
  "rehash msk [] new = Some new"
| "rehash msk (e # es) new =
     (case e_key e of
        None \<Rightarrow> rehash msk es new
      | Some k \<Rightarrow> do {
          i \<leftarrow> probe (\<lambda>e. e_key e = None) new msk (keyhash k) 1;
          rehash msk es (new[i := e]) })"

definition resize_table ::
  "env \<Rightarrow> size_t \<Rightarrow> tab \<Rightarrow> hash_state \<Rightarrow> ((bool \<times> tab) \<times> hash_state) option" where
  "resize_table E nel t s = do {
     let nel = (if nel > MAXSIZE then MAXSIZE else nel);
     newsize \<leftarrow> table_size nel MINSIZE;
     let (ok, s) = calloc E newsize ENTRY_SIZE s;
     if \<not> ok then Some ((False, t), s)
     else do {
       let new = replicate (unat newsize) empty_entry;
       let msk = newsize - 1;
       (case tb_entries t of
          None \<Rightarrow> Some ((True, t\<lparr>tb_entries := Some new, tb_mask := msk\<rparr>), s)
        | Some old \<Rightarrow>
            if length old \<noteq> Suc (unat (tb_mask t)) then None
            else do {
              new \<leftarrow> rehash msk old new;
              Some ((True, t\<lparr>tb_entries := Some new, tb_mask := msk\<rparr>), s) }) } }"

definition hcreate :: "env \<Rightarrow> size_t \<Rightarrow> hash_state \<Rightarrow> (c_int \<times> hash_state) option" where
  "hcreate E nel s = do {
     let (ok, s) = calloc E 1 12 s;
     if \<not> ok then Some (0, s\<lparr>htab := None\<rparr>)
     else do {
       ((r, t), s) \<leftarrow> resize_table E nel \<lparr>tb_entries = None, tb_mask = 0, tb_used = 0\<rparr> s;
       Some (if r then (1, s\<lparr>htab := Some t\<rparr>) else (0, s\<lparr>htab := None\<rparr>)) } }"

definition hdestroy :: "hash_state \<Rightarrow> hash_state" where
  "hdestroy s = s\<lparr>htab := None\<rparr>"

text \<open>The result and the entry pointer; searching without a table follows a null pointer.\<close>

definition hsearch_r ::
  "env \<Rightarrow> entry \<Rightarrow> hash_action \<Rightarrow> hash_state \<Rightarrow> ((c_int \<times> nat option) \<times> hash_state) option" where
  "hsearch_r E item action s = do {
     key \<leftarrow> e_key item;
     t \<leftarrow> htab s;
     es \<leftarrow> tb_entries t;
     let hash = keyhash key;
     e \<leftarrow> lookup key hash es (tb_mask t);
     if e_key (es ! e) \<noteq> None then Some ((1, Some e), s)
     else if action = FIND then Some ((0, None), s)
     else do {
       let t = t\<lparr>tb_entries := Some (es[e := item]), tb_used := tb_used t + 1\<rparr>;
       if tb_used t > tb_mask t - tb_mask t div 4
       then do {
         ((ok, t'), s) \<leftarrow> resize_table E (2 * tb_used t) t s;
         if \<not> ok
         then Some ((0, None), s\<lparr>htab := Some (t'\<lparr>tb_used := tb_used t' - 1,
                                  tb_entries := Some (es[e := item\<lparr>e_key := None\<rparr>])\<rparr>)\<rparr>)
         else do {
           es' \<leftarrow> tb_entries t';
           e \<leftarrow> lookup key hash es' (tb_mask t');
           Some ((1, Some e), s\<lparr>htab := Some t'\<rparr>) } }
       else Some ((1, Some e), s\<lparr>htab := Some t\<rparr>) } }"

definition hsearch :: "env \<Rightarrow> entry \<Rightarrow> hash_action \<Rightarrow> hash_state \<Rightarrow> (nat option \<times> hash_state) option" where
  "hsearch E item action s = do { ((_, e), s) \<leftarrow> hsearch_r E item action s; Some (e, s) }"

declare probe.simps [code] table_size.simps [code]

section \<open>The sequence of slots\<close>

text \<open>Slot \<open>t\<close> of the sequence for a hash value: the sum of the first \<open>t\<close> steps is triangular.\<close>

definition slot :: "nat \<Rightarrow> nat \<Rightarrow> nat \<Rightarrow> nat" where
  "slot N h t = (h + t * (t + 1) div 2) mod N"

lemma slot_less: "0 < N \<Longrightarrow> slot N h t < N"
  by (simp add: slot_def)

lemma triangular_Suc: "Suc t * (Suc t + 1) div 2 = t * (t + 1) div 2 + Suc t"
  by (simp add: algebra_simps)

lemma triangular_double: "2 * (t * (t + 1) div 2) = t * (t + 1 :: nat)"
  by (intro dvd_mult_div_cancel) simp

lemma odd_factor:
  fixes a b :: nat
  assumes "2 ^ m dvd a * b" and "odd (a + b)"
  shows "2 ^ m dvd a \<or> 2 ^ m dvd b"
proof -
  have "coprime (2 ^ m) a \<or> coprime (2 ^ m) b"
    using assms(2) by (auto simp: coprime_left_2_iff_odd)
  then show ?thesis
    using assms(1) coprime_dvd_mult_left_iff coprime_dvd_mult_right_iff by blast
qed

lemma slot_inj:
  assumes "slot (2 ^ n) h t = slot (2 ^ n) h u" and "u < t" and "t < 2 ^ n"
  shows False
proof -
  let ?T = "\<lambda>t. t * (t + 1) div 2 :: nat"
  have le: "?T u \<le> ?T t"
    using assms(2) by (intro div_le_mono mult_le_mono) auto
  have "2 ^ n dvd (h + ?T t) - (h + ?T u)"
    using assms(1) le unfolding slot_def by (subst mod_eq_dvd_iff_nat [symmetric]) simp_all
  then have "2 ^ n dvd ?T t - ?T u"
    by simp
  then have "2 ^ Suc n dvd 2 * (?T t - ?T u)"
    by simp
  also have "2 * (?T t - ?T u) = (t - u) * (t + u + 1)"
  proof -
    have "2 * (?T t - ?T u) = t * (t + 1) - u * (u + 1)"
      by (simp only: right_diff_distrib' triangular_double)
    also have "\<dots> = (t - u) * (t + u + 1)"
      using assms(2) by (auto simp: algebra_simps diff_mult_distrib dest!: less_imp_Suc_add)
    finally show ?thesis .
  qed
  finally have "2 ^ Suc n dvd (t - u) * (t + u + 1)" .
  moreover have "odd ((t - u) + (t + u + 1))"
    using assms(2) by simp
  ultimately have "2 ^ Suc n dvd t - u \<or> 2 ^ Suc n dvd t + u + 1"
    by (rule odd_factor)
  then show False
  proof
    assume "2 ^ Suc n dvd t - u"
    then have "2 ^ Suc n \<le> t - u"
      using assms(2) by (intro dvd_imp_le) auto
    then show False
      using assms(3) by simp
  next
    assume "2 ^ Suc n dvd t + u + 1"
    then have "2 ^ Suc n \<le> t + u + 1"
      by (intro dvd_imp_le) auto
    then show False
      using assms(2,3) by simp
  qed
qed

lemma slots_cover:
  assumes "i < 2 ^ n"
  obtains t where "t < 2 ^ n" "slot (2 ^ n) h t = i"
proof -
  have "inj_on (slot (2 ^ n) h) {..<2 ^ n}"
  proof (rule inj_onI)
    fix t u
    assume "t \<in> {..<2 ^ n}" "u \<in> {..<2 ^ n}" "slot (2 ^ n) h t = slot (2 ^ n) h u"
    then show "t = u"
      using slot_inj [of n h t u] slot_inj [of n h u t] by (cases t u rule: linorder_cases) auto
  qed
  moreover have "slot (2 ^ n) h ` {..<2 ^ n} \<subseteq> {..<2 ^ n}"
    using slot_less [of "2 ^ n"] by auto
  ultimately have "slot (2 ^ n) h ` {..<2 ^ n} = {..<2 ^ n}"
    by (intro card_subset_eq) (simp_all add: card_image)
  then show thesis
    using assms that by (metis imageE lessThan_iff)
qed

end
