(* ===== verification/Hash_Table_Inv.thy ===== *)
theory Hash_Table_Inv
  imports Hash_Table
begin

unbundle bit_operations_syntax

text \<open>
  The invariant of hash tables: entries have different keys, and every entry is found on the
  way from its hash value without meeting a free slot before.
\<close>

section \<open>Probing\<close>

lemma table_mask:
  assumes "n \<le> 31"
  shows "unat (i AND (2 ^ n - 1 :: u32)) = unat i mod 2 ^ n"
proof -
  have "i AND (2 ^ n - 1) = take_bit n i"
    by (simp add: take_bit_eq_mask mask_eq_exp_minus_1)
  then have "unat (i AND (2 ^ n - 1)) = take_bit n (unat i)"
    by (simp only: unsigned_take_bit_eq)
  then show ?thesis
    by (simp add: take_bit_eq_mod)
qed

lemma slot_word:
  assumes "n \<le> 31"
  shows "unat ((h + of_nat x) AND (2 ^ n - 1 :: u32)) = (unat h + x) mod 2 ^ n"
proof -
  have "unat (h + of_nat x) = (unat h + x) mod 2 ^ 32"
    by (simp add: unat_word_ariths unsigned_of_nat take_bit_eq_mod mod_simps)
  moreover have "(2 :: nat) ^ n dvd 2 ^ 32"
    using assms by (intro le_imp_power_dvd) simp
  ultimately show ?thesis
    unfolding table_mask [OF assms] by (simp add: mod_mod_cancel)
qed

lemma probe_first:
  assumes "length es = 2 ^ n" and "n \<le> 31" and "stop (es ! slot (2 ^ n) (unat h) t)"
    and "\<And>u. u < t \<Longrightarrow> \<not> stop (es ! slot (2 ^ n) (unat h) u)"
  shows "probe stop es (2 ^ n - 1) h 1 = Some (slot (2 ^ n) (unat h) t)"
proof -
  have "probe stop es (2 ^ n - 1) (h + of_nat (u * (u + 1) div 2)) (of_nat (Suc u)) = Some (slot (2 ^ n) (unat h) t)"
    if "u \<le> t" for u
    using that
  proof (induction "t - u" arbitrary: u)
    case 0
    then show ?case
      using assms(1,3) slot_word [OF assms(2), of h "u * (u + 1) div 2"]
      by (subst probe.simps) (simp add: slot_def)
  next
    case (Suc d)
    have next_step: "h + of_nat (u * (u + 1) div 2) + of_nat (Suc u) = h + of_nat (Suc u * (Suc u + 1) div 2)"
      unfolding triangular_Suc by (simp only: of_nat_add add.assoc)
    have next_length: "of_nat (Suc u) + 1 = (of_nat (Suc (Suc u)) :: u32)"
      by simp
    have "\<not> stop (es ! slot (2 ^ n) (unat h) u)"
      using Suc.hyps(2) by (intro assms(4)) simp
    moreover have "probe stop es (2 ^ n - 1) (h + of_nat (Suc u * (Suc u + 1) div 2)) (of_nat (Suc (Suc u))) =
        Some (slot (2 ^ n) (unat h) t)"
      using Suc.hyps(2) by (intro Suc.hyps(1)) simp_all
    ultimately show ?case
      using assms(1) slot_word [OF assms(2), of h "u * (u + 1) div 2"]
      by (subst probe.simps) (simp only: slot_def next_step next_length, simp)
  qed
  from this [of 0] show ?thesis
    by simp
qed

text \<open>A table with a free slot has a first free slot on every way.\<close>

lemma first_slot:
  assumes "length es = 2 ^ n" and "i < 2 ^ n" and "stop (es ! i)"
  obtains t where "t < 2 ^ n" "stop (es ! slot (2 ^ n) h t)" "\<And>u. u < t \<Longrightarrow> \<not> stop (es ! slot (2 ^ n) h u)"
proof -
  obtain t where t: "t < 2 ^ n" "slot (2 ^ n) h t = i"
    by (rule slots_cover [OF assms(2)])
  let ?P = "\<lambda>t. stop (es ! slot (2 ^ n) h t)"
  have "?P t"
    using t(2) assms(3) by simp
  then have "?P (LEAST t. ?P t)" "(LEAST t. ?P t) \<le> t"
    by (rule LeastI, rule Least_le)
  moreover have "\<not> ?P u" if "u < (LEAST t. ?P t)" for u
    using that by (rule not_less_Least)
  ultimately show thesis
    using that t(1) by (meson le_less_trans)
qed

section \<open>Entries\<close>

definition taken :: "entry list \<Rightarrow> entry list" where
  "taken es = filter (\<lambda>e. e_key e \<noteq> None) es"

definition tab_map :: "entry list \<Rightarrow> (u8 list \<rightharpoonup> c_ptr)" where
  "tab_map es = map_of (map (\<lambda>e. (the (e_key e), e_data e)) (taken es))"

definition reaches :: "entry list \<Rightarrow> u8 list \<Rightarrow> nat \<Rightarrow> bool" where
  "reaches es k i \<longleftrightarrow> (\<exists>t. slot (length es) (unat (keyhash k)) t = i \<and>
     (\<forall>u<t. e_key (es ! slot (length es) (unat (keyhash k)) u) \<noteq> None))"

definition wf_entries :: "nat \<Rightarrow> entry list \<Rightarrow> bool" where
  "wf_entries n es \<longleftrightarrow> length es = 2 ^ n \<and> distinct (map e_key (taken es)) \<and>
     (\<forall>i<length es. \<forall>k. e_key (es ! i) = Some k \<longrightarrow> reaches es k i)"

lemma taken_append: "taken (xs @ ys) = taken xs @ taken ys"
  by (simp add: taken_def)

lemma taken_split:
  assumes "i < length es"
  shows "taken es = taken (take i es) @ taken [es ! i] @ taken (drop (Suc i) es)"
    and "taken (es[i := e]) = taken (take i es) @ taken [e] @ taken (drop (Suc i) es)"
proof -
  have "taken (take i es @ es ! i # drop (Suc i) es) = taken (take i es) @ taken [es ! i] @ taken (drop (Suc i) es)"
    by (simp add: taken_def)
  then show "taken es = taken (take i es) @ taken [es ! i] @ taken (drop (Suc i) es)"
    by (simp only: id_take_nth_drop [OF assms, symmetric])
  show "taken (es[i := e]) = taken (take i es) @ taken [e] @ taken (drop (Suc i) es)"
    by (simp add: upd_conv_take_nth_drop [OF assms] taken_def)
qed

lemma taken_update:
  assumes "i < length es" and "e_key (es ! i) = None"
  shows "mset (taken (es[i := e])) = mset (taken [e] @ taken es)"
proof -
  have "taken [es ! i] = []"
    using assms(2) by (simp add: taken_def)
  then show ?thesis
    using taken_split [OF assms(1)] by simp
qed

lemma taken_mem: "i < length es \<Longrightarrow> e_key (es ! i) = Some k \<Longrightarrow> es ! i \<in> set (taken es)"
  by (simp add: taken_def)

lemma unique_slot:
  assumes "distinct (map e_key (taken es))" and "i < length es" and "j < length es"
    and "e_key (es ! i) = Some k" and "e_key (es ! j) = Some k"
  shows "i = j"
proof -
  have False if "i < j" "j < length es" "e_key (es ! i) = Some k" "e_key (es ! j) = Some k" for i j
  proof -
    have "es ! i \<in> set (taken (take j es))"
      using that taken_mem [of i "take j es" k] by simp
    then have "Some k \<in> e_key ` set (taken (take j es))"
      using that(3) by force
    moreover have "taken [es ! j] = [es ! j]"
      using that(4) by (simp add: taken_def)
    then have "distinct (map e_key (taken (take j es) @ [es ! j] @ taken (drop (Suc j) es)))"
      using assms(1) taken_split(1) [OF that(2)] by metis
    ultimately show False
      using that(4) by simp
  qed
  then show ?thesis
    using assms(2-5) by (cases i j rule: linorder_cases) auto
qed

lemma entry_eq: "e = \<lparr>e_key = k, e_data = d\<rparr> \<longleftrightarrow> e_key e = k \<and> e_data e = d"
  by (cases e) auto

lemma tab_map_Some:
  assumes "distinct (map e_key (taken es))"
  shows "tab_map es k = Some d \<longleftrightarrow> (\<exists>i<length es. es ! i = \<lparr>e_key = Some k, e_data = d\<rparr>)"
proof -
  have "distinct (map (the \<circ> e_key) (taken es))"
    using assms by (auto simp: distinct_map inj_on_def taken_def)
  then have "tab_map es k = Some d \<longleftrightarrow> (\<exists>e\<in>set (taken es). the (e_key e) = k \<and> e_data e = d)"
    unfolding tab_map_def by (subst map_of_eq_Some_iff) (auto simp: comp_def)
  also have "\<dots> \<longleftrightarrow> (\<exists>e\<in>set es. e = \<lparr>e_key = Some k, e_data = d\<rparr>)"
    by (auto simp: taken_def entry_eq)
  finally show ?thesis
    by (auto simp: in_set_conv_nth)
qed

lemma tab_map_cong:
  assumes "mset (taken es) = mset (taken es')" and "distinct (map e_key (taken es))"
  shows "tab_map es = tab_map es'"
proof -
  have dist: "distinct (map (the \<circ> e_key) (taken es))"
    using assms(2) by (auto simp: distinct_map inj_on_def taken_def)
  moreover have "mset (map (the \<circ> e_key) (taken es)) = mset (map (the \<circ> e_key) (taken es'))"
    using assms(1) by simp
  ultimately have "distinct (map (the \<circ> e_key) (taken es'))"
    using mset_eq_imp_distinct_iff by blast
  moreover have "set (taken es) = set (taken es')"
    using assms(1) by (rule mset_eq_setD)
  ultimately show ?thesis
    using dist unfolding tab_map_def by (subst map_of_inject_set) (simp_all add: comp_def)
qed

lemma tab_map_None:
  "tab_map es k = None \<longleftrightarrow> (\<forall>i<length es. e_key (es ! i) \<noteq> Some k)"
proof -
  have "tab_map es k = None \<longleftrightarrow> (\<forall>e\<in>set es. e_key e \<noteq> Some k)"
    unfolding tab_map_def by (auto simp: map_of_eq_None_iff taken_def image_iff)
  then show ?thesis
    by (auto simp: all_set_conv_all_nth)
qed

section \<open>Searching\<close>

lemma lookup_found:
  assumes "wf_entries n es" and "n \<le> 31" and "i < length es" and "e_key (es ! i) = Some k"
  shows "lookup k (keyhash k) es (2 ^ n - 1) = Some i"
proof -
  have len: "length es = 2 ^ n" and dist: "distinct (map e_key (taken es))"
    using assms(1) by (auto simp: wf_entries_def)
  let ?s = "slot (2 ^ n) (unat (keyhash k))"
  obtain t where t: "?s t = i" "\<And>u. u < t \<Longrightarrow> e_key (es ! ?s u) \<noteq> None"
    using assms(1,3,4) len by (auto simp: wf_entries_def reaches_def)
  define t' where "t' = (LEAST t. ?s t = i)"
  have t': "?s t' = i" "t' \<le> t"
    unfolding t'_def using t(1) by (rule LeastI, rule Least_le)
  have before: "?s u \<noteq> i" if "u < t'" for u
    using that unfolding t'_def by (rule not_less_Least)
  have "e_key (es ! ?s u) \<noteq> Some k" if "u < t'" for u
    using unique_slot [OF dist _ assms(3) _ assms(4), of "?s u"] before [OF that] slot_less [of "2 ^ n"] len by auto
  then show ?thesis
    using probe_first [OF len assms(2), of "\<lambda>e. e_key e = None \<or> e_key e = Some k" "keyhash k" t'] t(2) t'(1,2) assms(4)
    by (simp add: lookup_def)
qed

text \<open>A free slot that is first on the way of a key can take it.\<close>

definition vacant :: "entry list \<Rightarrow> u8 list \<Rightarrow> nat \<Rightarrow> bool" where
  "vacant es k i \<longleftrightarrow> i < length es \<and> e_key (es ! i) = None \<and> reaches es k i"

lemma first_free:
  assumes "length es = 2 ^ n" and "n \<le> 31" and "length (taken es) < length es"
  obtains i where "probe (\<lambda>e. e_key e = None) es (2 ^ n - 1) (keyhash k) 1 = Some i" "vacant es k i"
    "\<forall>i<length es. e_key (es ! i) \<noteq> Some k \<Longrightarrow> lookup k (keyhash k) es (2 ^ n - 1) = Some i"
proof -
  have "\<exists>e\<in>set es. e_key e = None"
  proof (rule ccontr)
    assume "\<not> (\<exists>e\<in>set es. e_key e = None)"
    then have "taken es = es"
      unfolding taken_def by (intro filter_True) auto
    then show False
      using assms(3) by simp
  qed
  then obtain i where i: "i < 2 ^ n" "e_key (es ! i) = None"
    using assms(1) by (auto simp: in_set_conv_nth)
  let ?s = "slot (2 ^ n) (unat (keyhash k))"
  obtain t where t: "e_key (es ! ?s t) = None" "\<And>u. u < t \<Longrightarrow> e_key (es ! ?s u) \<noteq> None"
    using first_slot [OF assms(1) i(1), of "\<lambda>e. e_key e = None"] i(2) by blast
  have less: "?s u < length es" for u
    using slot_less [of "2 ^ n"] assms(1) by simp
  have "probe (\<lambda>e. e_key e = None) es (2 ^ n - 1) (keyhash k) 1 = Some (?s t)"
    using t by (intro probe_first [OF assms(1,2)]) auto
  moreover have "vacant es k (?s t)"
    using t less assms(1) by (auto simp: vacant_def reaches_def)
  moreover have "lookup k (keyhash k) es (2 ^ n - 1) = Some (?s t)" if "\<forall>i<length es. e_key (es ! i) \<noteq> Some k"
    unfolding lookup_def using t that less by (intro probe_first [OF assms(1,2)]) auto
  ultimately show thesis
    using that by blast
qed

lemma option_extension: "(\<And>d. x = Some d \<longleftrightarrow> y = Some d) \<Longrightarrow> x = y"
  by (cases x; cases y) auto

lemma enter_entry:
  assumes "wf_entries n es" and "vacant es k i" and "tab_map es k = None" and "e_key e = Some k"
  shows "wf_entries n (es[i := e])" "tab_map (es[i := e]) = (tab_map es)(k \<mapsto> e_data e)"
    "mset (taken (es[i := e])) = add_mset e (mset (taken es))" "length (taken (es[i := e])) = Suc (length (taken es))"
proof -
  have i: "i < length es" "e_key (es ! i) = None" "reaches es k i"
    using assms(2) by (auto simp: vacant_def)
  have "taken [e] = [e]"
    using assms(4) by (simp add: taken_def)
  then show content: "mset (taken (es[i := e])) = add_mset e (mset (taken es))"
    using taken_update [OF i(1,2), of e] by simp
  then show "length (taken (es[i := e])) = Suc (length (taken es))"
    by (metis size_mset size_add_mset)
  have new: "Some k \<notin> set (map e_key (taken es))"
    using assms(3) by (auto simp: tab_map_None taken_def in_set_conv_nth)
  have "mset (map e_key (taken (es[i := e]))) = mset (Some k # map e_key (taken es))"
    using content assms(4) by simp
  moreover have "distinct (Some k # map e_key (taken es))"
    using new assms(1) by (simp add: wf_entries_def)
  ultimately have dist: "distinct (map e_key (taken (es[i := e])))"
    by (simp only: mset_eq_imp_distinct_iff [of "map e_key (taken (es[i := e]))"])
  have key: "e_key (es[i := e] ! j) \<noteq> None" if "e_key (es ! j) \<noteq> None" for j
    using that i(1,2) assms(4) by (cases "j = i") auto
  have mono: "reaches (es[i := e]) k' j" if "reaches es k' j" for k' j
    using that key unfolding reaches_def by (metis length_list_update)
  have "reaches (es[i := e]) k' j" if "j < length (es[i := e])" "e_key (es[i := e] ! j) = Some k'" for k' j
  proof (cases "j = i")
    case True
    then have "k' = k"
      using that(2) i(1) assms(4) by simp
    then show ?thesis
      using mono [OF i(3)] True by simp
  next
    case False
    then have "reaches es k' j"
      using assms(1) that unfolding wf_entries_def by simp
    then show ?thesis
      by (rule mono)
  qed
  then show wf: "wf_entries n (es[i := e])"
    using assms(1) dist by (simp add: wf_entries_def)
  have old: "es[i := e] ! j = \<lparr>e_key = Some k', e_data = d\<rparr> \<longleftrightarrow>
      (if j = i then k' = k \<and> d = e_data e else es ! j = \<lparr>e_key = Some k', e_data = d\<rparr>)" for j d k'
    using i(1) assms(4) by (cases e) auto
  have "tab_map (es[i := e]) k' = ((tab_map es)(k \<mapsto> e_data e)) k'" for k'
  proof -
    have "tab_map (es[i := e]) k' = Some d \<longleftrightarrow> ((tab_map es)(k \<mapsto> e_data e)) k' = Some d" for d
    proof (cases "k' = k")
      case True
      have "es ! j \<noteq> \<lparr>e_key = Some k, e_data = d\<rparr>" if "j < length es" for j
        using assms(3) that by (auto simp: tab_map_None)
      then show ?thesis
        using True i(1) by (auto simp: tab_map_Some [OF dist] old)
    next
      case False
      have "es ! i \<noteq> \<lparr>e_key = Some k', e_data = d\<rparr>"
        using i(2) by auto
      then show ?thesis
        using False assms(1) by (auto simp: tab_map_Some [OF dist] old tab_map_Some [of es] wf_entries_def)
    qed
    then show ?thesis
      by (rule option_extension)
  qed
  then show "tab_map (es[i := e]) = (tab_map es)(k \<mapsto> e_data e)"
    by (rule ext)
qed

end
