(* ===== verification/Hash_Table_Resize.thy ===== *)
theory Hash_Table_Resize
  imports Hash_Table_Inv
begin

unbundle bit_operations_syntax

text \<open>
  Growing a hash table: the size is the smallest power of two that is large enough, and every
  entry of the old table is found in the new one.
\<close>

section \<open>The size of a table\<close>

lemma two_power_unat: "n \<le> 31 \<Longrightarrow> unat (2 ^ n :: u32) = 2 ^ n"
  using unsigned_of_nat [where 'b = 32, of "2 ^ n"] take_bit_nat_eq_self [of "2 ^ n" 32]
    power_strict_increasing [of n 32 "2 :: nat"] by simp

lemma table_size_from:
  assumes "unat nel \<le> 2 ^ 31" and "n \<le> 31"
  shows "\<exists>m. table_size nel (2 ^ n) = Some (2 ^ m) \<and> n \<le> m \<and> m \<le> 31 \<and> unat nel \<le> 2 ^ m \<and>
    (m = n \<or> 2 ^ (m - 1) < unat nel)"
  using assms(2)
proof (induction "31 - n" arbitrary: n rule: less_induct)
  case less
  show ?case
  proof (cases "(2 ^ n :: u32) < nel")
    case False
    then have "unat nel \<le> 2 ^ n"
      using two_power_unat [OF less.prems] by (simp add: word_less_nat_alt)
    then show ?thesis
      using False less.prems by (subst table_size.simps) auto
  next
    case True
    then have lt: "2 ^ n < unat nel"
      using two_power_unat [OF less.prems] by (simp add: word_less_nat_alt)
    with assms(1) have "(2 :: nat) ^ n < 2 ^ 31"
      by linarith
    then have "n < 31"
      by (rule power_less_imp_less_exp [rotated]) simp
    moreover have "table_size nel (2 ^ n) = table_size nel (2 ^ Suc n)"
      using True by (subst table_size.simps) (simp add: mult.commute)
    ultimately show ?thesis
      using less.hyps [of "Suc n"] lt less.prems
      by (metis Suc_leD Suc_leI diff_Suc_1 diff_less_mono2 lessI less_or_eq_imp_le)
  qed
qed

lemma table_size_min:
  assumes "unat nel \<le> 2 ^ 31"
  obtains n where "table_size nel MINSIZE = Some (2 ^ n)" "3 \<le> n" "n \<le> 31" "unat nel \<le> 2 ^ n"
    "n = 3 \<or> 2 ^ (n - 1) < unat nel"
proof -
  have "MINSIZE = 2 ^ 3"
    by (simp add: MINSIZE_def)
  then show thesis
    using table_size_from [OF assms, of 3] that by auto
qed

section \<open>Moving the entries\<close>

lemma taken_replicate: "taken (replicate m empty_entry) = []"
  by (simp add: taken_def empty_entry_def)

lemma wf_empty: "wf_entries n (replicate (2 ^ n) empty_entry)"
  by (simp add: wf_entries_def taken_replicate) (simp add: empty_entry_def)

lemma not_taken:
  assumes "e_key ` set (taken es) \<inter> {Some k} = {}"
  shows "tab_map es k = None"
  unfolding tab_map_None using assms taken_mem [of _ es k] by (metis disjoint_insert(1) image_eqI)

lemma rehash_moves:
  assumes "wf_entries n new" and "n \<le> 31" and "distinct (map e_key (taken es @ taken new))"
    and "length (taken es) + length (taken new) < 2 ^ n"
  shows "\<exists>new'. rehash (2 ^ n - 1) es new = Some new' \<and> wf_entries n new' \<and>
    mset (taken new') = mset (taken es) + mset (taken new)"
  using assms
proof (induction es arbitrary: new)
  case Nil
  then show ?case
    by (simp add: taken_def)
next
  case (Cons e es)
  show ?case
  proof (cases "e_key e")
    case None
    then have "taken (e # es) = taken es"
      by (simp add: taken_def)
    then show ?thesis
      using Cons.IH [OF Cons.prems(1,2)] Cons.prems(3,4) None by simp
  next
    case (Some k)
    then have e: "taken (e # es) = e # taken es"
      by (simp add: taken_def)
    have len: "length new = 2 ^ n"
      using Cons.prems(1) by (simp add: wf_entries_def)
    obtain i where i: "probe (\<lambda>e. e_key e = None) new (2 ^ n - 1) (keyhash k) 1 = Some i" "vacant new k i"
      using first_free [OF len Cons.prems(2)] Cons.prems(4) len by auto
    have "tab_map new k = None"
      using Cons.prems(3) Some by (intro not_taken) (auto simp: e)
    note new = enter_entry [OF Cons.prems(1) i(2) this Some]
    have "mset (map e_key (taken es @ taken (new[i := e]))) = mset (map e_key (taken (e # es) @ taken new))"
      using new(3) by (simp add: e)
    then have "distinct (map e_key (taken es @ taken (new[i := e])))"
      using Cons.prems(3) mset_eq_imp_distinct_iff by blast
    moreover have "length (taken es) + length (taken (new[i := e])) < 2 ^ n"
      using Cons.prems(4) by (simp add: new(4) e)
    ultimately show ?thesis
      using Cons.IH [OF new(1) Cons.prems(2)] Some i(1) new(3) by (simp add: e)
  qed
qed

lemma rehash_into_empty:
  assumes "wf_entries m es" and "n \<le> 31" and "length (taken es) < 2 ^ n"
  obtains new where "rehash (2 ^ n - 1) es (replicate (2 ^ n) empty_entry) = Some new"
    "wf_entries n new" "mset (taken new) = mset (taken es)"
  using rehash_moves [OF wf_empty assms(2), of es] assms by (auto simp: taken_replicate wf_entries_def)

end
