(* ===== verification/Hash_Table_Calls.thy ===== *)
theory Hash_Table_Calls
  imports Hash_Table_Resize Refined_Calls
begin

unbundle bit_operations_syntax

text \<open>
  Sequences of searches in a hash table, as operations on a finite map from keys to data.
\<close>

section \<open>The table\<close>

definition tab_at :: "nat \<Rightarrow> entry list \<Rightarrow> tab \<Rightarrow> bool" where
  "tab_at n es t \<longleftrightarrow> tb_entries t = Some es \<and> tb_mask t = 2 ^ n - 1 \<and> 3 \<le> n \<and> n \<le> 28 \<and> wf_entries n es \<and>
     unat (tb_used t) = length (taken es) \<and> length (taken es) \<le> 3 * 2 ^ (n - 2)"

definition hash_inv :: "hash_state \<Rightarrow> bool" where
  "hash_inv s \<longleftrightarrow> (\<exists>t n es. htab s = Some t \<and> tab_at n es t)"

definition contents :: "hash_state \<Rightarrow> (u8 list \<rightharpoonup> c_ptr)" where
  "contents s = (case htab s of
     None \<Rightarrow> Map.empty
   | Some t \<Rightarrow> (case tb_entries t of None \<Rightarrow> Map.empty | Some es \<Rightarrow> tab_map es))"

definition hash_abs :: "hash_state \<Rightarrow> nat \<times> (u8 list \<rightharpoonup> c_ptr)" where
  "hash_abs s = (allocs s, contents s)"

text \<open>A search as its caller sees it: the entry that the result points to.\<close>

definition search_entry :: "env \<Rightarrow> (u8 list \<times> c_ptr) \<times> hash_action \<Rightarrow> hash_state \<Rightarrow> (entry option \<times> hash_state) option" where
  "search_entry E q s = do {
     let ((k, d), action) = q;
     (e, s) \<leftarrow> hsearch E \<lparr>e_key = Some k, e_data = d\<rparr> action s;
     t \<leftarrow> htab s;
     es \<leftarrow> tb_entries t;
     Some (map_option (\<lambda>e. es ! e) e, s) }"

text \<open>
  The specification: entries are never replaced, \<open>FIND\<close> changes nothing, and \<open>ENTER\<close> of a new key
  fails only when the allocator refuses a request or the map has \<open>2\<^sup>27\<close> keys.
\<close>

fun hash_spec :: "env \<Rightarrow> (u8 list \<times> c_ptr) \<times> hash_action \<Rightarrow> nat \<times> (u8 list \<rightharpoonup> c_ptr) \<Rightarrow> entry option \<Rightarrow>
    nat \<times> (u8 list \<rightharpoonup> c_ptr) \<Rightarrow> bool" where
  "hash_spec E ((k, d), action) (a, m) r (a', m') \<longleftrightarrow>
     (case m k of
        Some d' \<Rightarrow> r = Some \<lparr>e_key = Some k, e_data = d'\<rparr> \<and> a' = a \<and> m' = m
      | None \<Rightarrow>
          if action = FIND then r = None \<and> a' = a \<and> m' = m
          else (r = Some \<lparr>e_key = Some k, e_data = d\<rparr> \<and> m' = m(k \<mapsto> d) \<and> a \<le> a' \<and> a' \<le> Suc a) \<or>
               (r = None \<and> m' = m \<and> (a' = Suc a \<and> refused E a \<or> a' = a \<and> 2 ^ 27 \<le> card (dom m))))"

section \<open>Growing\<close>

lemma mask_unat:
  assumes "n \<le> 28"
  shows "unat (2 ^ n - 1 :: u32) = 2 ^ n - 1"
proof -
  have "(1 :: u32) \<le> 2 ^ n"
    using two_power_unat [of n] assms by (simp add: word_le_nat_alt)
  then show ?thesis
    using two_power_unat [of n] assms by (simp add: unat_sub)
qed

lemma four_quarters:
  assumes "2 \<le> n"
  shows "(4 :: nat) * 2 ^ (n - 2) = 2 ^ n"
proof -
  obtain q where "n = q + 2"
    using assms that [of "n - 2"] by simp
  then show ?thesis
    by simp
qed

lemma load_limit:
  assumes "3 \<le> n" and "n \<le> 28"
  shows "unat ((2 ^ n - 1) - (2 ^ n - 1) div 4 :: u32) = 3 * 2 ^ (n - 2)"
proof -
  let ?m = "2 ^ n - 1 :: u32"
  have m: "unat ?m = 4 * 2 ^ (n - 2) - 1"
    using mask_unat [OF assms(2)] four_quarters [of n] assms(1) by simp
  have quarter: "unat (?m div 4) = 2 ^ (n - 2) - 1"
    using m by (simp add: unat_div)
  have "?m div 4 \<le> ?m"
    using m quarter by (simp add: word_le_nat_alt)
  then have "unat (?m - ?m div 4) = (4 * 2 ^ (n - 2) - 1) - (2 ^ (n - 2) - 1)"
    by (simp only: unat_sub m quarter)
  then show ?thesis
    by simp
qed

lemma calloc_table:
  assumes "n \<le> 31"
  obtains (success) "calloc E (2 ^ n) ENTRY_SIZE s = (True, s\<lparr>allocs := Suc (allocs s)\<rparr>)" "n \<le> 28"
  | (failed) s' where "calloc E (2 ^ n) ENTRY_SIZE s = (False, s')" "htab s' = htab s"
      "allocs s' = Suc (allocs s) \<and> refused E (allocs s) \<or> allocs s' = allocs s \<and> 29 \<le> n"
proof (cases "n \<le> 28")
  case True
  then have "(2 :: nat) ^ n \<le> 2 ^ 28"
    by (intro power_increasing) simp_all
  then have "\<not> 2 ^ 32 \<le> unat (2 ^ n :: u32) * unat ENTRY_SIZE"
    using two_power_unat [OF assms] by (simp add: ENTRY_SIZE_def)
  then have c: "calloc E (2 ^ n) ENTRY_SIZE s = alloc E (2 ^ n * ENTRY_SIZE) s"
    by (simp add: calloc_def)
  show thesis
    by (rule alloc_outcome [of E "2 ^ n * ENTRY_SIZE" s]) (use success [OF _ True] failed c in auto)
next
  case False
  then have "(2 :: nat) ^ 29 \<le> 2 ^ n"
    by (intro power_increasing) simp_all
  then show thesis
    using two_power_unat [OF assms] failed [of s] False by (simp add: calloc_def ENTRY_SIZE_def)
qed

lemma resize_grows:
  assumes "tb_entries t = Some es" and "wf_entries m es" and "m \<le> 28" and "tb_mask t = 2 ^ m - 1"
    and "2 * length (taken es) \<le> unat nel" and "unat nel \<le> 2 ^ 31"
  obtains (moved) n new where
      "resize_table E nel t s = Some ((True, t\<lparr>tb_entries := Some new, tb_mask := 2 ^ n - 1\<rparr>), s\<lparr>allocs := Suc (allocs s)\<rparr>)"
      "3 \<le> n" "n \<le> 28" "wf_entries n new" "mset (taken new) = mset (taken es)" "unat nel \<le> 2 ^ n"
  | (failed) s' where "resize_table E nel t s = Some ((False, t), s')" "htab s' = htab s"
      "allocs s' = Suc (allocs s) \<and> refused E (allocs s) \<or> allocs s' = allocs s \<and> 2 ^ 28 < unat nel"
proof -
  obtain n where n: "table_size nel MINSIZE = Some (2 ^ n)" "3 \<le> n" "n \<le> 31" "unat nel \<le> 2 ^ n"
    "n = 3 \<or> 2 ^ (n - 1) < unat nel"
    by (rule table_size_min [OF assms(6)])
  have nel: "(if nel > MAXSIZE then MAXSIZE else nel) = nel"
    using assms(6) by (simp add: MAXSIZE_def word_less_nat_alt)
  have len: "length es = Suc (unat (tb_mask t))"
    using assms(2,4) mask_unat [OF assms(3)] by (simp add: wf_entries_def)
  have "length (taken es) < 2 ^ n"
  proof (cases "taken es = []")
    case False
    then show ?thesis
      using assms(5) n(4) length_greater_0_conv [of "taken es"] by linarith
  qed simp
  then obtain new where new: "rehash (2 ^ n - 1) es (replicate (2 ^ n) empty_entry) = Some new"
    "wf_entries n new" "mset (taken new) = mset (taken es)"
    by (rule rehash_into_empty [OF assms(2) n(3)])
  show thesis
  proof (cases rule: calloc_table [OF n(3), of E s, case_names success failed])
    case success
    then show ?thesis
      using n new len two_power_unat [OF n(3)] assms(1)
      by (intro moved [of n new]) (simp_all add: resize_table_def nel Let_def)
  next
    case (failed s')
    have "2 ^ 28 < unat nel" if "29 \<le> n"
    proof -
      have "(2 :: nat) ^ 28 \<le> 2 ^ (n - 1)"
        using that by (intro power_increasing) simp_all
      then show ?thesis
        using n(5) that by linarith
    qed
    then show ?thesis
      using n(1) failed by (intro that(2) [of s']) (auto simp: resize_table_def nel Let_def)
  qed
qed

section \<open>Searching\<close>

lemma card_contents:
  assumes "distinct (map e_key (taken es))"
  shows "card (dom (tab_map es)) = length (taken es)"
proof -
  have "distinct (map (the \<circ> e_key) (taken es))"
    using assms by (auto simp: distinct_map inj_on_def taken_def)
  moreover have "dom (tab_map es) = set (map (the \<circ> e_key) (taken es))"
    unfolding tab_map_def by (simp add: dom_map_of_conv_image_fst image_image)
  ultimately show ?thesis
    by (simp only: distinct_card length_map)
qed

lemma found_search:
  assumes "wf_entries n es" and "n \<le> 31" and "tab_map es k = Some d"
  obtains i where "lookup k (keyhash k) es (2 ^ n - 1) = Some i" "es ! i = \<lparr>e_key = Some k, e_data = d\<rparr>"
proof -
  obtain i where "i < length es" "es ! i = \<lparr>e_key = Some k, e_data = d\<rparr>"
    using assms(1,3) tab_map_Some [of es k d] by (auto simp: wf_entries_def)
  then show thesis
    using lookup_found [OF assms(1,2), of i k] that by simp
qed

lemma missing_search:
  assumes "tab_at n es t" and "tab_map es k = None"
  obtains i where "lookup k (keyhash k) es (2 ^ n - 1) = Some i" "vacant es k i"
proof -
  have "(4 :: nat) * 2 ^ (n - 2) = 2 ^ n" "length es = 2 ^ n"
    using assms(1) four_quarters [of n] by (auto simp: tab_at_def wf_entries_def)
  moreover have "length (taken es) \<le> 3 * 2 ^ (n - 2)" "n \<le> 31"
    using assms(1) by (auto simp: tab_at_def)
  moreover have "(0 :: nat) < 2 ^ (n - 2)"
    by simp
  ultimately have "length (taken es) < length es"
    by linarith
  then show thesis
    using first_free [OF \<open>length es = 2 ^ n\<close> \<open>n \<le> 31\<close>, of k] assms(2) that unfolding tab_map_None by blast
qed

text \<open>The entry of a failed insertion keeps its data, but the slot is free again.\<close>

lemma undo_entry:
  assumes "wf_entries n es" and "i < length es" and "e_key (es ! i) = None" and "e_key e = None"
  shows "wf_entries n (es[i := e])" "taken (es[i := e]) = taken es"
proof -
  have none: "taken [es ! i] = []" "taken [e] = []"
    using assms(3,4) by (simp_all add: taken_def)
  then show taken: "taken (es[i := e]) = taken es"
    using taken_split [OF assms(2)] by simp
  have same: "e_key (es[i := e] ! j) = e_key (es ! j)" for j
    using assms(2-4) by (cases "j = i") auto
  then have "reaches (es[i := e]) k j \<longleftrightarrow> reaches es k j" for k j
    by (simp add: reaches_def)
  with same show "wf_entries n (es[i := e])"
    using assms(1) taken by (simp add: wf_entries_def)
qed

section \<open>Calls\<close>

lemma add_used:
  assumes "tab_at n es t"
  shows "unat (tb_used t + 1) = Suc (length (taken es))" "unat (2 * (tb_used t + 1)) = 2 * Suc (length (taken es))"
    "length (taken es) < 2 ^ 28"
proof -
  have "(4 :: nat) * 2 ^ (n - 2) \<le> 2 ^ 28"
    using assms power_increasing [of n 28 "2 :: nat"] four_quarters [of n] by (simp add: tab_at_def)
  moreover have "length (taken es) \<le> 3 * 2 ^ (n - 2)"
    using assms by (simp add: tab_at_def)
  moreover have "(0 :: nat) < 2 ^ (n - 2)"
    by simp
  ultimately show small: "length (taken es) < 2 ^ 28"
    by linarith
  have used: "unat (tb_used t) = length (taken es)"
    using assms by (simp add: tab_at_def)
  show one: "unat (tb_used t + 1) = Suc (length (taken es))"
    using small used by (simp add: unat_word_ariths)
  show "unat (2 * (tb_used t + 1)) = 2 * Suc (length (taken es))"
    unfolding unat_word_ariths(2) one using small by simp
qed

lemma search_found:
  assumes "htab s = Some t" and "tab_at n es t" and "tab_map es k = Some d'"
  shows "search_entry E ((k, d), action) s = Some (Some \<lparr>e_key = Some k, e_data = d'\<rparr>, s)"
proof -
  have t: "tb_entries t = Some es" "tb_mask t = 2 ^ n - 1" "wf_entries n es" "n \<le> 31"
    using assms(2) by (auto simp: tab_at_def)
  obtain i where "lookup k (keyhash k) es (2 ^ n - 1) = Some i" "es ! i = \<lparr>e_key = Some k, e_data = d'\<rparr>"
    by (rule found_search [OF t(3,4) assms(3)])
  then show ?thesis
    using assms(1) t by (simp add: search_entry_def hsearch_def hsearch_r_def Let_def)
qed

lemma search_missing:
  assumes "htab s = Some t" and "tab_at n es t" and "tab_map es k = None"
  shows "search_entry E ((k, d), FIND) s = Some (None, s)"
proof -
  have t: "tb_entries t = Some es" "tb_mask t = 2 ^ n - 1"
    using assms(2) by (auto simp: tab_at_def)
  obtain i where "lookup k (keyhash k) es (2 ^ n - 1) = Some i" "vacant es k i"
    by (rule missing_search [OF assms(2,3)])
  then show ?thesis
    using assms(1) t by (simp add: search_entry_def hsearch_def hsearch_r_def Let_def vacant_def)
qed

lemma enter_spec:
  assumes "htab s = Some t" and "tab_at n es t" and "tab_map es k = None"
    and "htab s' = Some t'" and "tab_at n' es' t'" and "tab_map es' = (tab_map es)(k \<mapsto> d)"
    and "allocs s \<le> allocs s'" and "allocs s' \<le> Suc (allocs s)"
  shows "hash_inv s' \<and> hash_spec E ((k, d), ENTER) (hash_abs s) (Some \<lparr>e_key = Some k, e_data = d\<rparr>) (hash_abs s')"
proof -
  have "contents s = tab_map es" "contents s' = tab_map es'"
    using assms(1,2,4,5) by (auto simp: contents_def tab_at_def)
  then show ?thesis
    using assms by (auto simp: hash_inv_def hash_abs_def)
qed

lemma enter_with_room:
  assumes "htab s = Some t" and "tab_at n es t" and "tab_map es k = None" and "length (taken es) < 3 * 2 ^ (n - 2)"
  shows "\<exists>r s'. search_entry E ((k, d), ENTER) s = Some (r, s') \<and> hash_inv s' \<and>
    hash_spec E ((k, d), ENTER) (hash_abs s) r (hash_abs s')"
proof -
  let ?e = "\<lparr>e_key = Some k, e_data = d\<rparr>"
  have t: "tb_entries t = Some es" "tb_mask t = 2 ^ n - 1" "wf_entries n es" "3 \<le> n" "n \<le> 28"
    using assms(2) by (auto simp: tab_at_def)
  obtain i where i: "lookup k (keyhash k) es (2 ^ n - 1) = Some i" "vacant es k i"
    by (rule missing_search [OF assms(2,3)])
  have free: "i < length es" "e_key (es ! i) = None"
    using i(2) by (auto simp: vacant_def)
  note new = enter_entry [OF t(3) i(2) assms(3), of ?e]
  let ?t = "t\<lparr>tb_entries := Some (es[i := ?e]), tb_used := tb_used t + 1\<rparr>"
  have "\<not> 2 ^ n - 1 - (2 ^ n - 1) div 4 < tb_used t + 1"
    using load_limit [OF t(4,5)] add_used(1) [OF assms(2)] assms(4) by (simp add: word_less_nat_alt)
  then have "search_entry E ((k, d), ENTER) s = Some (Some ?e, s\<lparr>htab := Some ?t\<rparr>)"
    using assms(1) t i(1) free by (simp add: search_entry_def hsearch_def hsearch_r_def Let_def)
  moreover have "tab_at n (es[i := ?e]) ?t"
    using new(1,4) t add_used(1) [OF assms(2)] assms(4) by (simp add: tab_at_def)
  ultimately show ?thesis
    using enter_spec [OF assms(1-3), where s' = "s\<lparr>htab := Some ?t\<rparr>"] new(2) by auto
qed

lemma enter_when_full:
  assumes "htab s = Some t" and "tab_at n es t" and "tab_map es k = None" and "3 * 2 ^ (n - 2) \<le> length (taken es)"
  shows "\<exists>r s'. search_entry E ((k, d), ENTER) s = Some (r, s') \<and> hash_inv s' \<and>
    hash_spec E ((k, d), ENTER) (hash_abs s) r (hash_abs s')"
proof -
  let ?e = "\<lparr>e_key = Some k, e_data = d\<rparr>"
  have t: "tb_entries t = Some es" "tb_mask t = 2 ^ n - 1" "wf_entries n es" "3 \<le> n" "n \<le> 28"
    using assms(2) by (auto simp: tab_at_def)
  obtain i where i: "lookup k (keyhash k) es (2 ^ n - 1) = Some i" "vacant es k i"
    by (rule missing_search [OF assms(2,3)])
  have free: "i < length es" "e_key (es ! i) = None"
    using i(2) by (auto simp: vacant_def)
  note new = enter_entry [OF t(3) i(2) assms(3), of ?e]
  note used = add_used [OF assms(2)]
  let ?t = "t\<lparr>tb_entries := Some (es[i := ?e]), tb_used := tb_used t + 1\<rparr>"
  have full: "2 ^ n - 1 - (2 ^ n - 1) div 4 < tb_used t + 1"
    using load_limit [OF t(4,5)] used(1) assms(4) by (simp add: word_less_nat_alt)
  have wf: "wf_entries n (es[i := ?e])"
    by (rule new(1)) simp
  have len: "length (taken (es[i := ?e])) = Suc (length (taken es))"
    by (rule new(4)) simp
  have nel: "2 * length (taken (es[i := ?e])) \<le> unat (2 * (tb_used t + 1))" "unat (2 * (tb_used t + 1)) \<le> 2 ^ 31"
    using used len by simp_all
  have cont: "tab_map (es[i := ?e]) = (tab_map es)(k \<mapsto> d)"
    using new(2) by simp
  show ?thesis
  proof (cases rule: resize_grows [of ?t "es[i := ?e]" n "2 * (tb_used t + 1)" E s, case_names entries wf small masked load bound moved failed])
    case (moved n' es')
    have dist: "distinct (map e_key (taken es'))"
      using moved(4) by (simp add: wf_entries_def)
    have map: "tab_map es' = (tab_map es)(k \<mapsto> d)"
      using tab_map_cong [OF moved(5) dist] cont by simp
    then obtain j where j: "lookup k (keyhash k) es' (2 ^ n' - 1) = Some j" "es' ! j = ?e"
      using found_search [OF moved(4), of k d] moved(3) by auto
    let ?t' = "?t\<lparr>tb_entries := Some es', tb_mask := 2 ^ n' - 1\<rparr>"
    let ?s = "s\<lparr>allocs := Suc (allocs s), htab := Some ?t'\<rparr>"
    have "length (taken es') = Suc (length (taken es))"
      using moved(5) len by (metis size_mset)
    moreover have "2 * Suc (length (taken es)) \<le> 4 * 2 ^ (n' - 2)"
      using moved(2,6) used(2) four_quarters [of n'] by simp
    ultimately have "tab_at n' es' ?t'"
      using moved(2-4) used(1) by (simp add: tab_at_def)
    moreover have "search_entry E ((k, d), ENTER) s = Some (Some ?e, ?s)"
      using assms(1) t i(1) free full moved(1) j by (simp add: search_entry_def hsearch_def hsearch_r_def Let_def)
    ultimately show ?thesis
      using enter_spec [OF assms(1-3), where s' = ?s] map by auto
  next
    case (failed s')
    let ?es = "es[i := ?e\<lparr>e_key := None\<rparr>]"
    let ?t' = "t\<lparr>tb_entries := Some ?es\<rparr>"
    let ?s = "s'\<lparr>htab := Some ?t'\<rparr>"
    note undo = undo_entry [OF t(3) free, of "?e\<lparr>e_key := None\<rparr>"]
    have "tab_at n ?es ?t'"
      using undo assms(2) by (simp add: tab_at_def)
    moreover have "tab_map ?es = tab_map es"
      using undo(2) by (simp add: tab_map_def)
    moreover have "search_entry E ((k, d), ENTER) s = Some (None, ?s)"
      using assms(1) t i(1) free full failed(1) by (simp add: search_entry_def hsearch_def hsearch_r_def Let_def)
    moreover have "allocs s' = Suc (allocs s) \<and> refused E (allocs s) \<or>
        allocs s' = allocs s \<and> 2 ^ 27 \<le> card (dom (tab_map es))"
      using failed(3) used(2) t(3) card_contents [of es] by (auto simp: wf_entries_def)
    ultimately show ?thesis
      using assms(1-3) t(1) by (auto simp: hash_inv_def hash_abs_def contents_def)
  qed (use t wf nel in simp_all)
qed

lemma search_meets_spec:
  assumes "hash_inv s"
  shows "\<exists>r s'. search_entry E q s = Some (r, s') \<and> hash_inv s' \<and> hash_spec E q (hash_abs s) r (hash_abs s')"
proof -
  obtain k d action where q: "q = ((k, d), action)"
    by (metis surj_pair)
  obtain t n es where t: "htab s = Some t" "tab_at n es t"
    using assms by (auto simp: hash_inv_def)
  have content: "contents s = tab_map es"
    using t by (simp add: contents_def tab_at_def)
  show ?thesis
  proof (cases "tab_map es k")
    case (Some d')
    then show ?thesis
      using search_found [OF t Some] assms content by (simp add: q hash_abs_def)
  next
    case None
    show ?thesis
    proof (cases action)
      case FIND
      then show ?thesis
        using search_missing [OF t None] assms content None by (simp add: q hash_abs_def)
    next
      case ENTER
      then show ?thesis
        using enter_with_room [OF t None] enter_when_full [OF t None] by (cases "length (taken es) < 3 * 2 ^ (n - 2)") (simp_all add: q)
    qed
  qed
qed

interpretation hash_calls: refined_calls "search_entry E" hash_inv hash_abs "hash_spec E" for E
  by unfold_locales (rule search_meets_spec)

section \<open>New tables\<close>

definition no_table :: tab where
  "no_table = \<lparr>tb_entries = None, tb_mask = 0, tb_used = 0\<rparr>"

lemma resize_empty:
  obtains (fresh) n where
      "resize_table E nel no_table s = Some ((True, \<lparr>tb_entries = Some (replicate (2 ^ n) empty_entry), tb_mask = 2 ^ n - 1, tb_used = 0\<rparr>), s\<lparr>allocs := Suc (allocs s)\<rparr>)"
      "3 \<le> n" "n \<le> 28"
  | (failed) s' where "resize_table E nel no_table s = Some ((False, no_table), s')"
      "refused E (allocs s) \<or> 2 ^ 28 < unat nel"
proof -
  define m where "m = (if nel > MAXSIZE then MAXSIZE else nel)"
  have le: "unat m \<le> 2 ^ 31" "unat m \<le> unat nel"
    by (auto simp: m_def MAXSIZE_def word_less_nat_alt)
  obtain n where n: "table_size m MINSIZE = Some (2 ^ n)" "3 \<le> n" "n \<le> 31" "unat m \<le> 2 ^ n"
    "n = 3 \<or> 2 ^ (n - 1) < unat m"
    by (rule table_size_min [OF le(1)])
  show thesis
  proof (cases rule: calloc_table [OF n(3), of E s, case_names success failed])
    case success
    then show ?thesis
      using n(1,2) two_power_unat [OF n(3)]
      by (intro fresh [of n]) (simp_all add: resize_table_def m_def [symmetric] Let_def no_table_def)
  next
    case (failed s')
    have "2 ^ 28 < unat nel" if "29 \<le> n"
    proof -
      have "(2 :: nat) ^ 28 \<le> 2 ^ (n - 1)"
        using that by (intro power_increasing) simp_all
      then show ?thesis
        using n(5) that le(2) by linarith
    qed
    then show ?thesis
      using n(1) failed by (intro that(2) [of s']) (auto simp: resize_table_def m_def [symmetric] Let_def)
  qed
qed

lemma fresh_table:
  assumes "3 \<le> n" and "n \<le> 28"
    and "htab s = Some \<lparr>tb_entries = Some (replicate (2 ^ n) empty_entry), tb_mask = 2 ^ n - 1, tb_used = 0\<rparr>"
  shows "hash_inv s" "contents s = Map.empty"
  using assms wf_empty [of n]
  by (auto simp: hash_inv_def tab_at_def contents_def tab_map_def taken_replicate intro!: exI [of _ n])

lemma calloc_tab:
  obtains (success) "calloc E 1 12 s = (True, s\<lparr>allocs := Suc (allocs s)\<rparr>)"
  | (failed) err where "calloc E 1 12 s = (False, s\<lparr>allocs := Suc (allocs s), errno := err\<rparr>)" "refused E (allocs s)"
proof -
  have "calloc E 1 12 s = alloc E 12 s"
    by (simp add: calloc_def)
  then show thesis
    by (cases rule: alloc_outcome [of E 12 s]) (use success failed in auto)
qed

lemma hcreate_cases:
  obtains (created) s1 where "hcreate E nel s = Some (1, s1)" "hash_inv s1" "contents s1 = Map.empty"
  | (failed) s1 where "hcreate E nel s = Some (0, s1)" "htab s1 = None"
      "refused E (allocs s) \<or> refused E (Suc (allocs s)) \<or> 2 ^ 28 < unat nel"
proof (cases rule: calloc_tab [of E s, case_names success failed])
  case (failed err)
  then show thesis
    by (intro that(2) [of "s\<lparr>allocs := Suc (allocs s), errno := err, htab := None\<rparr>"]) (simp_all add: hcreate_def)
next
  case success
  show thesis
  proof (cases rule: resize_empty [of E nel "s\<lparr>allocs := Suc (allocs s)\<rparr>", case_names fresh failed])
    case (fresh n)
    then show ?thesis
      using success fresh_table [OF fresh(2,3)]
      by (intro created [of "s\<lparr>allocs := Suc (Suc (allocs s)), htab := Some \<lparr>tb_entries = Some (replicate (2 ^ n) empty_entry), tb_mask = 2 ^ n - 1, tb_used = 0\<rparr>\<rparr>"])
        (simp_all add: hcreate_def no_table_def)
  next
    case (failed s')
    then show ?thesis
      using success
      by (intro that(2) [of "s'\<lparr>htab := None\<rparr>"])
        (simp_all add: hcreate_def no_table_def)
  qed
qed

text \<open>
  C40. Hash tables implement finite maps: \<open>hcreate\<close> returns for every size, and fails only if an
  allocation is refused or more than \<open>2\<^sup>28\<close> entries are asked for, leaving no table.  After it has
  succeeded every sequence of searches returns, whatever the allocator answers.  \<open>FIND\<close> returns the
  entry of its key or null, \<open>ENTER\<close> returns the entry that is already there or adds the given one;
  it fails only for a new key, when the larger table is refused or the map has \<open>2\<^sup>27\<close> keys, and then
  the map is unchanged and later searches go on.
\<close>

theorem hash_table_refines_map:
  "\<exists>r s1. hcreate E nel s = Some (r, s1) \<and>
     ((r = 0 \<and> htab s1 = None \<and> (refused E (allocs s) \<or> refused E (Suc (allocs s)) \<or> 2 ^ 28 < unat nel)) \<or>
      (r = 1 \<and> (\<exists>rs s2. run_calls (search_entry E) qs s1 = Some (rs, s2) \<and>
         spec_run (hash_spec E) qs (allocs s1, Map.empty) rs (allocs s2, contents s2))))"
proof (cases rule: hcreate_cases [of E nel s, case_names created failed])
  case (created s1)
  then have "\<exists>rs s2. run_calls (search_entry E) qs s1 = Some (rs, s2) \<and>
      spec_run (hash_spec E) qs (allocs s1, Map.empty) rs (allocs s2, contents s2)"
    using hash_calls.calls [of s1 E qs] by (auto simp: hash_abs_def)
  then show ?thesis
    using created(1) by auto
next
  case (failed s1)
  then show ?thesis
    by auto
qed

end
