(* ===== verification/Spec2Isabelle.thy ===== *)
theory Spec2Isabelle
  imports Bespoke_Worker Asyncify_Worker Cwd Wasi_Socket Wasi_Poll Wasi_Dirent Environ_Calls Calendar Search_Tree_Calls Qsort_Calls Multibyte_Wide Multibyte_Bounded Multibyte_Utf16 Wasi_Emulation Hash_Table_Calls
begin

text \<open>
  A verification of the C sources of the WasmFX artifact.

  \<^bold>\<open>The program.\<close>  The artifact compares implementations of effect handlers for WebAssembly.
  Its C code has two parts.  The C10M benchmark (\<open>benchmarks/c10m\<close>) runs ten million
  simulated connections, ten thousand of them at a time, over four worker primitives
  (allocate, resume, yield, free); the primitives are provided by a hand-written state machine
  or by a library of fibers on top of binaryen's asyncify pass.  The WASI C library
  (\<open>tinygo/lib/wasi-libc\<close>) is what C programs compiled to WebAssembly, the benchmark among
  them, run on: its bottom half (\<open>libc-bottom-half\<close>) turns POSIX calls into calls of a
  capability-based host.  Its top half (\<open>libc-top-half\<close>, from musl) is the part of the C
  library that needs no host.

  \<^bold>\<open>The benchmark.\<close>
  \<^item> \<open>Workload\<close>: \<open>parameters.h\<close> and \<open>c10m.c\<close>, over an abstract record of worker primitives;
    the locale \<open>worker_provider\<close> is the contract of the primitives (a simulation of the life
    cycle of a worker slot), and the result of the workload is proved inside it.
  \<^item> \<open>Bespoke_Worker\<close>: \<open>c10m_bespoke.c\<close>, the state machine, with its interpretation of the
    contract and the theorem that its \<open>main\<close> returns 0.
  \<^item> \<open>Fiber_Asyncify\<close>: \<open>fiber_asyncify.c\<close> and \<open>fiber.h\<close>, over the allocator and the asyncify
    runtime as parameters; a history of resumptions refines the coroutine a body denotes.
  \<^item> \<open>Asyncify_Worker\<close>: \<open>asyncify.c\<close>, the primitives over fibers, the second interpretation
    of the contract, and the theorem on its \<open>main\<close>.

  \<^bold>\<open>The WASI C library.\<close>  Every operation takes the environment \<open>env\<close>, that is the host (its
  reply to a call may depend on all earlier calls) and the outcome of each allocation, and
  passes on a state that records the calls made, \<open>errno\<close> and the static variables.
  \<^item> \<open>Wasi_Host\<close>: the host functions of \<open>__wasilibc_real.c\<close> and their data types.
  \<^item> \<open>Preopens\<close>: \<open>preopens.c\<close>; invariants of the table, the longest-prefix search, the
    constructor.
  \<^item> \<open>Relpath\<close>, \<open>Posix_Paths\<close>, \<open>Cwd\<close>: \<open>chdir.c\<close>, \<open>posix.c\<close>, \<open>at_fdcwd.c\<close>, \<open>getcwd.c\<close>;
    resolution through growable static buffers refines the search, and every sequence of path
    calls reaches the host only with relative paths below a preopened directory (locale
    \<open>path_resolver\<close>).
  \<^item> \<open>Wasi_Fs\<close>: the operations on a directory descriptor and a relative path (locale
    \<open>host_operation\<close>); rights of opened files.
  \<^item> \<open>Wasi_Fd\<close>: operations on descriptors (locale \<open>translated_operation\<close>), \<open>fcntl\<close>, \<open>ioctl\<close>,
    \<open>truncate\<close>.
  \<^item> \<open>Wasi_Socket\<close>, \<open>Wasi_Poll\<close>, \<open>Wasi_Dirent\<close>: sockets; \<open>poll\<close>, \<open>select\<close> and descriptor sets
    (locale \<open>descriptor_sets\<close>); directory streams and \<open>scandir\<close>,
    whose result is sorted by the \<open>qsort\<close> of the top half.
  \<^item> \<open>Wasi_Time\<close>: conversions of times, clocks, sleeping, the calendar tables.

  \<^item> \<open>Environ\<close>, \<open>Environ_Ops\<close>, \<open>Environ_Calls\<close>: the environment variables
    (\<open>__wasilibc_initialize_environ.c\<close>, \<open>environ.c\<close>, musl's \<open>getenv.c\<close>, \<open>setenv.c\<close>, \<open>putenv.c\<close>,
    \<open>unsetenv.c\<close>, \<open>clearenv.c\<close>) on a store of strings and vectors with ownership of the
    allocated strings: every sequence of calls refines operations on a finite map.  The
    arguments of \<open>main\<close> (\<open>__main_void.c\<close>) are those of the host.
  \<^item> \<open>Wasi_Emulation\<close>: what the library emulates without the host: \<open>mmap\<close> and \<open>munmap\<close> on
    allocated blocks (\<open>mman.c\<close>), \<open>signal\<close> and \<open>raise\<close> (\<open>signal.c\<close>), process clocks (\<open>clocks\<close>),
    the program break (\<open>sbrk.c\<close>) and \<open>reallocarray.c\<close>.  A mapping holds the bytes of the file
    for a host that interrupts the reading at most during its first calls, so that the loop
    ends; signals refine a map of actions, with the defaults of POSIX and the messages of
    \<open>strsignal.c\<close>; areas of memory do not overlap.

  \<^bold>\<open>The top half.\<close>
  \<^item> \<open>Calendar\<close>: broken-down time (\<open>__secs_to_tm.c\<close>, \<open>__tm_to_secs.c\<close>, \<open>timegm.c\<close>, \<open>mktime.c\<close>,
    \<open>gmtime_r.c\<close>, \<open>localtime_r.c\<close>) against a recursive definition of the Gregorian calendar,
    with signed overflow as undefined behaviour.
  \<^item> \<open>Search_Tree\<close> and the theories after it: \<open>tsearch\<close>, \<open>tdelete\<close>, \<open>tfind\<close>, \<open>twalk\<close> and
    \<open>tdestroy\<close> on a store of nodes.  \<open>Search_Tree_Inv\<close> relates the store to trees and has the
    balance of AVL trees, \<open>Search_Tree_Ops\<close> the operations, \<open>Search_Tree_Calls\<close> the refinement
    of a set of keys.  The bounded stack of links is long enough for every tree that fits
    the address space.
  \<^item> \<open>Qsort\<close>: \<open>qsort\<close> and \<open>bsearch\<close> on an array of bytes.  \<open>Smoothsort\<close> and
    \<open>Smoothsort_Phases\<close> prove the algorithm on lists of elements, \<open>Qsort_Bits\<close> relates the
    two-word bit vector to the orders of the heaps, \<open>Qsort_Mem\<close> the rotation of elements in
    256-byte pieces to lists, \<open>Qsort_Heaps\<close> the walks through the heaps to the recursive
    functions, and \<open>Qsort_Loops\<close> carries this through the loops; \<open>Qsort_Calls\<close> has the
    theorems.  They hold up to 11405773 elements, the Leonardo number of order 33, since
    beyond it the code counts the trailing zeros of 0.
  \<^item> \<open>Multibyte\<close>: multibyte characters (\<open>src/multibyte\<close>), with the table of decoder states.
    \<open>Multibyte_Spec\<close> defines UTF-8 by arithmetic and by ranges of bytes, \<open>Multibyte_Decode\<close>
    reads the state word of the decoder as the bytes to come, their range and the value so
    far, and \<open>Multibyte_Calls\<close> has the theorems: decoding agrees with the definition, can be
    interrupted after any byte, inverts encoding, and keeps the state well-formed.
  \<^item> \<open>Multibyte_Strings\<close>: conversion of strings and of UTF-16 and UTF-32 code units.
    \<open>Multibyte_Loops\<close> shows that the loops over aligned words do what loops over bytes do,
    provided the memory ends at a word boundary or has four bytes for every character to
    come; \<open>Multibyte_Strings_Calls\<close> (byte strings), \<open>Multibyte_Wide\<close> (wide strings and the
    round trip), \<open>Multibyte_Bounded\<close> (a given number of bytes) and \<open>Multibyte_Utf16\<close> have the
    theorems.
  \<^item> \<open>Hash_Table\<close>: \<open>hcreate\<close>, \<open>hdestroy\<close> and \<open>hsearch\<close> (\<open>hsearch.c\<close>).  The steps of a search are
    triangular numbers, which reach every slot of a table of a power of two.
    \<open>Hash_Table_Inv\<close> has the invariant of the entries and searching, \<open>Hash_Table_Resize\<close> the
    growth of the table, and \<open>Hash_Table_Calls\<close> the refinement of a finite map, where a refused
    allocation makes a call fail and changes nothing.
  \<^item> \<open>Comparison\<close>: what the callers promise of comparison functions (locale \<open>comparing\<close>).
    \<open>Refined_Calls\<close>: sequences of calls against a specification (locale \<open>refined_calls\<close>),
    used for the search trees and the hash tables.

  \<open>C_Prelude\<close> has the integer types of wasm32 and the facts on words, lists and options that
  the components share.

  \<^bold>\<open>Conventions.\<close>  Machine integers are words of their width.  An operation returns
  \<^const>\<open>None\<close> for undefined behaviour, for a trap and for a loop that does not end; a
  theorem that says \<open>= Some \<dots>\<close> excludes all three.  Ends of the program that the code asks for
  (\<open>_Exit\<close>, \<open>abort\<close> and the trap of \<open>__SIG_ERR\<close>) are values of their own.  Where an allocation may
  fail, the theorems tie the failure of an operation to a request that the allocator refuses
  (\<open>refused\<close>, \<open>out_of_nodes\<close>).  Loops whose end depends on the host
  (\<open>readdir\<close>, \<open>scandirat\<close>) are partial functions in the option monad; the loop that doubles
  a buffer size has 33 rounds of fuel, since after 32 doublings of a 32-bit size the source
  does not leave it any more.

  \<^bold>\<open>Not modelled.\<close>  The parts of the artifact written in other languages (the reference
  interpreter in OCaml, wasmtime in Rust, TinyGo in Go); third-party code the artifact only
  carries along (binaryen, the other C libraries below \<open>tinygo/lib\<close>); the start-up assembly
  and generated headers.
\<close>

end
